(* ===== verification/Prelude.thy ===== *)
theory Prelude
  imports Main "HOL-Library.Word" "HOL-Library.Finite_Map" "HOL-Library.List_Lexorder"
    "HOL-Library.Char_ord" "HOL-Library.Product_Lexorder" "HOL-Library.Multiset"
begin

text \<open>
  Shared vocabulary of the development: the Go types every component uses (unsigned 64-bit
  counters, strings compared byte by byte, maps iterated in an unspecified order, slices sorted
  by \<^verbatim>\<open>sort.Slice\<close>), and the generic facts about them.

  \<^item> A Go \<^verbatim>\<open>string\<close> is a \<^typ>\<open>string\<close>, a list of bytes; the order of \<open>List_Lexorder\<close> over
    \<open>Char_ord\<close> is Go's byte-wise \<^verbatim>\<open><\<close>.
  \<^item> A Go \<^verbatim>\<open>uint64\<close> is a \<^typ>\<open>64 word\<close>.
  \<^item> A Go \<^verbatim>\<open>map[K]V\<close> is a finite map, a \<^verbatim>\<open>map[K]struct{}\<close> or \<^verbatim>\<open>map[K]bool\<close> set a finite set.
    A \<^verbatim>\<open>range\<close> loop over a map is a fold over some enumeration of it (\<open>enumerates\<close>); the models
    use the sorted enumeration, and the lemmas show that every other one gives the same result.
\<close>

section \<open>Types and collections of facts\<close>

type_synonym u64 = "64 word"

named_theorems crdt_defs \<open>definitions unfolded in the lattice proofs of the replicated types\<close>
named_theorems range_simps \<open>facts about loops over Go maps\<close>

section \<open>Counters\<close>

text \<open>\<^verbatim>\<open>math.MaxUint64\<close>, and the increment every local write of the personal-state types performs:
  \<^verbatim>\<open>if counter < math.MaxUint64 { counter++ }\<close>.\<close>

definition max_u64 :: u64 where
  "max_u64 = 18446744073709551615"

definition sat_inc :: "u64 \<Rightarrow> u64" where
  "sat_inc c = (if c < max_u64 then c + 1 else c)"

lemma le_max_u64: "c \<le> max_u64"
proof -
  have "unat c < 2 ^ 64" using unsigned_less [of c] by simp
  then show ?thesis by (simp add: max_u64_def word_le_nat_alt)
qed

lemma inc_gt: "c < max_u64 \<Longrightarrow> c < c + 1"
  by (simp add: max_u64_def word_less_nat_alt unat_word_ariths) 

lemma sat_inc_ge: "c \<le> sat_inc c"
  using inc_gt [of c] by (auto simp: sat_inc_def)

lemma sat_inc_gt: "c < max_u64 \<Longrightarrow> c < sat_inc c"
  by (simp add: sat_inc_def inc_gt)

text \<open>Counting down from the largest value reverses the order.\<close>

lemma rev_u64: "max_u64 - a < max_u64 - b \<longleftrightarrow> (b::u64) < a"
  using le_max_u64 [of a] le_max_u64 [of b]
  by (simp add: word_less_nat_alt word_le_nat_alt unat_sub) linarith

lemma rev_u64_le: "max_u64 - a \<le> max_u64 - b \<longleftrightarrow> (b::u64) \<le> a"
  using rev_u64 [of b a] by (simp add: not_less [symmetric])

text \<open>\<^verbatim>\<open>if c > s.counter { s.counter = c }\<close>.\<close>

lemma max_as_code: "(if x > y then x else y) = max y (x::u64)"
  by (auto simp: max_def)

lemma max_0_u64 [simp]: "max 0 (x::u64) = x" "max (x::u64) 0 = x"
  by (simp_all add: max_def)

section \<open>Joins picked by a key\<close>

text \<open>Choosing the lesser (or the later) of two values by an injective key is a semilattice
  join: commutative, associative and idempotent.\<close>

definition lesser_by :: "('a \<Rightarrow> 'k::linorder) \<Rightarrow> 'a \<Rightarrow> 'a \<Rightarrow> 'a" where
  "lesser_by key a b = (if key a \<le> key b then a else b)"

definition later_by :: "('a \<Rightarrow> 'k::linorder) \<Rightarrow> 'a \<Rightarrow> 'a \<Rightarrow> 'a" where
  "later_by key a b = (if key b \<le> key a then a else b)"

lemma semilattice_lesser_by: "inj key \<Longrightarrow> semilattice (lesser_by key)"
  by unfold_locales (auto simp: lesser_by_def dest: injD order.trans)

lemma semilattice_later_by: "inj key \<Longrightarrow> semilattice (later_by key)"
  by unfold_locales (auto simp: later_by_def dest: injD order.trans)

lemma semilattice_max: "semilattice (max :: 'a::linorder \<Rightarrow> 'a \<Rightarrow> 'a)"
  by unfold_locales (auto simp: max.assoc max.commute)

lemma semilattice_laws:
  assumes "semilattice f"
  shows "f (f x y) z = f x (f y z)" and "f x y = f y x" and "f x x = x"
    and "f (f x y) z = f (f x z) y"
proof -
  from assms have ab: "abel_semigroup f" by (rule semilattice.axioms(1))
  then show a: "f (f x y) z = f x (f y z)" for x y z
    by (metis abel_semigroup.axioms(1) semigroup.assoc)
  from ab show c: "f x y = f y x" for x y by (rule abel_semigroup.commute)
  from assms show "f x x = x" by (rule semilattice.idem)
  show "f (f x y) z = f (f x z) y" by (metis a c)
qed

text \<open>The join of two possibly absent map entries.\<close>

fun join_opt :: "('v \<Rightarrow> 'v \<Rightarrow> 'v) \<Rightarrow> 'v option \<Rightarrow> 'v option \<Rightarrow> 'v option" where
  "join_opt f None y = y"
| "join_opt f x None = x"
| "join_opt f (Some x) (Some y) = Some (f x y)"

lemma join_opt_None2 [simp]: "join_opt f x None = x"
  by (cases x) auto

lemma join_opt_choice:
  assumes "join_opt f x y = Some z" and "\<And>a b. f a b = a \<or> f a b = b"
  shows "x = Some z \<or> y = Some z"
  using assms(1) assms(2) [of "the x" "the y"] by (cases x; cases y) auto

lemma semilattice_join_opt:
  assumes "semilattice f"
  shows "semilattice (join_opt f)"
proof
  note l = semilattice_laws [OF assms]
  show "join_opt f (join_opt f x y) z = join_opt f x (join_opt f y z)" for x y z
    by (cases x; cases y; cases z) (auto simp: l(1))
  show "join_opt f x y = join_opt f y x" for x y
    by (cases x; cases y) (auto intro: l(2))
  show "join_opt f x x = x" for x
    by (cases x) (auto simp: l(3))
qed

section \<open>Loops over Go maps\<close>

text \<open>\<open>enumerates es m\<close>: the pairs \<open>es\<close> are one order in which a \<^verbatim>\<open>range\<close> loop over the map \<open>m\<close>
  may visit its entries, each exactly once.\<close>

definition enumerates :: "('k \<times> 'v) list \<Rightarrow> ('k, 'v) fmap \<Rightarrow> bool" where
  "enumerates es m \<longleftrightarrow> distinct (map fst es) \<and> map_of es = fmlookup m"

lemma enumerates_mem:
  "enumerates es m \<Longrightarrow> (k, v) \<in> set es \<longleftrightarrow> fmlookup m k = Some v"
  by (metis enumerates_def map_of_eq_Some_iff)

lemma enumerates_distinct: "enumerates es m \<Longrightarrow> distinct es"
  by (simp add: enumerates_def distinct_map)

lemma enumerates_mset_eq:
  "enumerates es m \<Longrightarrow> enumerates es' m \<Longrightarrow> mset es = mset es'"
proof -
  assume a: "enumerates es m" "enumerates es' m"
  have "set es = set es'"
    using enumerates_mem [OF a(1)] enumerates_mem [OF a(2)] by auto
  with a show ?thesis
    by (simp add: set_eq_iff_mset_eq_distinct enumerates_distinct)
qed

lemma enumerates_sorted: "enumerates (sorted_list_of_fmap m) m"
proof -
  let ?ks = "sorted_list_of_fset (fmdom m)"
  have d: "distinct ?ks" by (simp add: sorted_list_of_fset.rep_eq)
  have "map_of (map (\<lambda>k. (k, the (fmlookup m k))) ?ks) k = fmlookup m k" for k
    by (auto simp: map_of_map_restrict restrict_map_def sorted_list_of_fset_simps(1) fmdom_notD
        dest: fmdom_notI)
  with d show ?thesis
    by (auto simp: enumerates_def sorted_list_of_fmap_def comp_def)
qed

lemma set_sorted_list_of_fmap [range_simps]:
  "(k, v) \<in> set (sorted_list_of_fmap m) \<longleftrightarrow> fmlookup m k = Some v"
  by (rule enumerates_mem [OF enumerates_sorted])

text \<open>\<open>upsert f k v m\<close> is the loop body of every merge:
  \<^verbatim>\<open>if existing, ok := out[k]; ok { v = f(existing, v) }; out[k] = v\<close>.\<close>

definition upsert :: "('v \<Rightarrow> 'v \<Rightarrow> 'v) \<Rightarrow> 'k \<Rightarrow> 'v \<Rightarrow> ('k, 'v) fmap \<Rightarrow> ('k, 'v) fmap" where
  "upsert f k v m =
     fmupd k (case fmlookup m k of Some existing \<Rightarrow> f existing v | None \<Rightarrow> v) m"

lemma fmupd_same: "fmlookup m k = Some v \<Longrightarrow> fmupd k v m = m"
  by (auto intro!: fmap_ext)

lemma fmlookup_upsert [simp]:
  "fmlookup (upsert f k v m) k' =
     (if k' = k then join_opt f (fmlookup m k) (Some v) else fmlookup m k')"
  by (auto simp: upsert_def split: option.splits)

definition range_upsert :: "('v \<Rightarrow> 'v \<Rightarrow> 'v) \<Rightarrow> ('k \<times> 'v) list \<Rightarrow> ('k, 'v) fmap \<Rightarrow> ('k, 'v) fmap" where
  "range_upsert f es out = fold (\<lambda>(k, v). upsert f k v) es out"

lemma fmlookup_range_upsert_list:
  "distinct (map fst es) \<Longrightarrow>
   fmlookup (range_upsert f es out) k = join_opt f (fmlookup out k) (map_of es k)"
proof (induction es arbitrary: out)
  case Nil
  then show ?case by (simp add: range_upsert_def)
next
  case (Cons e es)
  obtain k' v where e: "e = (k', v)" by (cases e)
  from Cons.prems e have n: "map_of es k' = None"
    by (auto simp: map_of_eq_None_iff)
  have "fmlookup (range_upsert f (e # es) out) k =
      join_opt f (fmlookup (upsert f k' v out) k) (map_of es k)"
    using Cons.IH [of "upsert f k' v out"] Cons.prems e by (simp add: range_upsert_def)
  with n show ?case by (auto simp: e)
qed

lemma fmlookup_range_upsert [range_simps]:
  "enumerates es m \<Longrightarrow>
   fmlookup (range_upsert f es out) k = join_opt f (fmlookup out k) (fmlookup m k)"
  by (simp add: enumerates_def fmlookup_range_upsert_list)

definition merge_map :: "('v \<Rightarrow> 'v \<Rightarrow> 'v) \<Rightarrow> ('k::linorder, 'v) fmap \<Rightarrow> ('k, 'v) fmap \<Rightarrow> ('k, 'v) fmap" where
  "merge_map f out m = range_upsert f (sorted_list_of_fmap m) out"

lemma fmlookup_merge_map [simp]:
  "fmlookup (merge_map f out m) k = join_opt f (fmlookup out k) (fmlookup m k)"
  by (simp add: merge_map_def fmlookup_range_upsert enumerates_sorted)

lemma merge_map_any_order:
  "enumerates es m \<Longrightarrow> range_upsert f es out = merge_map f out m"
  by (rule fmap_ext) (simp add: fmlookup_range_upsert)

lemma semilattice_merge_map:
  assumes "semilattice f"
  shows "semilattice (merge_map f)"
proof
  note l = semilattice_laws [OF semilattice_join_opt [OF assms]]
  show "merge_map f (merge_map f x y) z = merge_map f x (merge_map f y z)" for x y z
    by (rule fmap_ext) (simp add: l(1))
  show "merge_map f x y = merge_map f y x" for x y
    by (rule fmap_ext) (simp, rule l(2))
  show "merge_map f x x = x" for x
    by (rule fmap_ext) (simp add: l(3))
qed

lemma merge_map_empty [simp]: "merge_map f fmempty m = m"
  by (rule fmap_ext) simp

lemma upsert_merge_map:
  assumes "semilattice f"
  shows "merge_map f (upsert f k v m) n = upsert f k v (merge_map f m n)"
  using semilattice_laws(4) [OF semilattice_join_opt [OF assms]]
  by (intro fmap_ext) simp

lemma upsert_idem:
  assumes "semilattice f"
  shows "upsert f k v (upsert f k v m) = upsert f k v m"
  using semilattice_laws(1) [OF semilattice_join_opt [OF assms]] semilattice_laws(3) [OF assms]
  by (intro fmap_ext) simp

lemma upsert_commute:
  assumes "semilattice f"
  shows "upsert f k v (upsert f k' v' m) = upsert f k' v' (upsert f k v m)"
  using semilattice_laws(4) [OF semilattice_join_opt [OF assms]]
  by (intro fmap_ext) simp

text \<open>Loops that keep the least (greatest) value seen per key: the entry of a key is the minimum
  (maximum) over the elements with that key, whatever the order of the loop.\<close>

lemma fmlookup_fold_upsert_set:
  assumes "semilattice_set f"
  shows "fmlookup (fold (\<lambda>e. upsert f (k e) (v e)) es fmempty) i =
    (if i \<in> k ` set es then Some (semilattice_set.F f (v ` {e \<in> set es. k e = i})) else None)"
proof (induction es rule: rev_induct)
  case Nil
  then show ?case by simp
next
  case (snoc x xs)
  have sl: "semilattice f" using assms by (rule semilattice_set.axioms)
  have eq: "v ` {e \<in> set (xs @ [x]). k e = i} =
      (if k x = i then insert (v x) (v ` {e \<in> set xs. k e = i}) else v ` {e \<in> set xs. k e = i})"
    by auto
  show ?case
  proof (cases "k x = i \<and> i \<in> k ` set xs")
    case True
    then have ne: "v ` {e \<in> set xs. k e = i} \<noteq> {}" by auto
    then have "semilattice_set.F f (insert (v x) (v ` {e \<in> set xs. k e = i})) =
        f (v x) (semilattice_set.F f (v ` {e \<in> set xs. k e = i}))"
      using assms by (simp add: semilattice_set.insert)
    with True snoc ne show ?thesis
      unfolding eq by (auto simp: semilattice_laws(2) [OF sl])
  next
    case False
    then have em: "v ` {e \<in> set xs. k e = i} = {}" if "k x = i"
      using that by (metis (mono_tags, lifting) empty_Collect_eq image_empty image_eqI)
    show ?thesis
    proof (cases "k x = i")
      case True
      have "semilattice_set.F f (v ` {e \<in> set (xs @ [x]). k e = i}) = v x"
        unfolding eq em [OF True] using True by (simp add: semilattice_set.singleton [OF assms])
      with False True snoc show ?thesis by simp
    next
      case False
      with snoc show ?thesis unfolding eq by auto
    qed
  qed
qed

lemma fmlookup_fold_upsert_min:
  fixes v :: "'e \<Rightarrow> 'v::linorder"
  shows "fmlookup (fold (\<lambda>e. upsert min (k e) (v e)) es fmempty) i =
    (if i \<in> k ` set es then Some (Min (v ` {e \<in> set es. k e = i})) else None)"
  unfolding Min_def by (rule fmlookup_fold_upsert_set) (rule Min.semilattice_set_axioms)

lemma fmlookup_fold_upsert_max:
  fixes v :: "'e \<Rightarrow> 'v::linorder"
  shows "fmlookup (fold (\<lambda>e. upsert max (k e) (v e)) es fmempty) i =
    (if i \<in> k ` set es then Some (Max (v ` {e \<in> set es. k e = i})) else None)"
  unfolding Max_def by (rule fmlookup_fold_upsert_set) (rule Max.semilattice_set_axioms)

lemma fold_filter: "fold (\<lambda>e m. if P e then f e m else m) es m = fold f (filter P es) m"
  by (induction es arbitrary: m) auto

text \<open>Nil entries of a variadic merge are skipped; what is left is \<open>somes\<close>.\<close>

definition somes :: "'a option list \<Rightarrow> 'a list" where
  "somes xs = concat (map (\<lambda>x. case x of None \<Rightarrow> [] | Some y \<Rightarrow> [y]) xs)"

lemma set_somes: "set (somes xs) = {x. Some x \<in> set xs}"
  by (auto simp: somes_def split: option.splits intro: rev_bexI)

lemma set_somes_eq: "set xs - {None} = set ys - {None} \<Longrightarrow> set (somes xs) = set (somes ys)"
  by (auto simp: set_somes)

lemma fold_somes:
  "fold (\<lambda>s out. case s of None \<Rightarrow> out | Some s \<Rightarrow> m out s) xs a = fold (\<lambda>s out. m out s) (somes xs) a"
  by (induction xs arbitrary: a) (auto simp: somes_def split: option.splits)

text \<open>Sets filled by a loop, and maps rebuilt from a list of entries.\<close>

lemma fold_finsert: "fold finsert xs s = s |\<union>| fset_of_list xs"
  by (induction xs arbitrary: s) auto

lemma fold_fmupd_enumeration:
  "distinct (map fst es) \<Longrightarrow>
   fmlookup (fold (\<lambda>(k, v). fmupd k v) es m) i = (case map_of es i of Some v \<Rightarrow> Some v | None \<Rightarrow> fmlookup m i)"
proof (induction es arbitrary: m)
  case Nil
  then show ?case by simp
next
  case (Cons e es)
  then show ?case
    by (cases e) (auto split: option.splits simp: map_of_eq_None_iff image_iff dest: map_of_SomeD)
qed

lemma fold_fmupd_sorted: "fold (\<lambda>(k, v). fmupd k v) (sorted_list_of_fmap m) fmempty = m"
proof (rule fmap_ext)
  fix i
  note e = enumerates_sorted [of m, unfolded enumerates_def]
  show "fmlookup (fold (\<lambda>(k, v). fmupd k v) (sorted_list_of_fmap m) fmempty) i = fmlookup m i"
    using e by (simp add: fold_fmupd_enumeration split: option.splits)
qed

lemma sorted_map_fst_sorted_list_of_fmap [simp]:
  "sorted (map fst (sorted_list_of_fmap m))"
  by (simp add: sorted_list_of_fmap_def comp_def sorted_list_of_fset.rep_eq)

lemma sort_sorted_list_of_fset [simp]: "sort (sorted_list_of_fset s) = sorted_list_of_fset s"
  by (simp add: sorted_list_of_fset.rep_eq sorted_sort_id)

lemma sort_key_map_sorted: "sorted (map (key \<circ> f) xs) \<Longrightarrow> sort_key key (map f xs) = map f xs"
  by (simp add: sorted_sort_id sort_key_id_if_sorted)

lemma option_eq_some_iff: "(\<And>x. a = Some x \<longleftrightarrow> b = Some x) \<Longrightarrow> a = b"
  by (cases a; cases b) auto

text \<open>Walking a map backwards is one of the orders a loop may take.\<close>

lemma enumerates_rev: "enumerates es m \<Longrightarrow> enumerates (rev es) m"
proof -
  assume e: "enumerates es m"
  then have d: "distinct (map fst (rev es))" by (simp add: enumerates_def rev_map [symmetric])
  have "map_of (rev es) k = Some v \<longleftrightarrow> fmlookup m k = Some v" for k v
    unfolding map_of_eq_Some_iff [OF d] enumerates_mem [OF e, symmetric] by simp
  then have "map_of (rev es) k = fmlookup m k" for k
    by (intro option_eq_some_iff)
  with d show ?thesis by (auto simp: enumerates_def)
qed

section \<open>sort.Slice\<close>

text \<open>\<^verbatim>\<open>sort.Slice(xs, less)\<close> is not stable: any permutation of \<open>xs\<close> in which no element is less
  than an earlier one may come out.\<close>

definition sort_slice :: "('a \<Rightarrow> 'a \<Rightarrow> bool) \<Rightarrow> 'a list \<Rightarrow> 'a list \<Rightarrow> bool" where
  "sort_slice lt xs ys \<longleftrightarrow> mset ys = mset xs \<and> sorted_wrt (\<lambda>a b. \<not> lt b a) ys"

lemma sort_slice_sort_key: "sort_slice (\<lambda>a b. key a < key b) xs (sort_key key xs)"
proof -
  have "sorted (map key (sort_key key xs))" by simp
  then show ?thesis
    unfolding sort_slice_def not_less sorted_wrt_map [symmetric] by simp
qed

lemma sort_slice_unique:
  assumes "sort_slice (\<lambda>a b. key a < key b) xs ys" and "inj_on key (set xs)"
  shows "ys = sort_key key xs"
proof -
  from assms(1) have m: "mset ys = mset xs" and s: "sorted_wrt (\<lambda>a b. \<not> key b < key a) ys"
    by (auto simp: sort_slice_def)
  from m have st: "set ys = set xs" by (metis set_mset_mset)
  have "sorted (map key ys)"
    using s unfolding sorted_wrt_map not_less .
  moreover have "sorted (map key (sort_key key xs))" by simp
  moreover have "mset (map key ys) = mset (map key (sort_key key xs))"
    using m by simp
  ultimately have "map key ys = map key (sort_key key xs)"
    by (metis properties_for_sort)
  then show ?thesis
    using assms(2) st by (metis (full_types) inj_on_map_eq_map set_sort Un_absorb)
qed

lemma sort_key_perm_eq:
  assumes "mset xs = mset ys" and "inj_on key (set xs)"
  shows "sort_key key xs = sort_key key ys"
proof (rule sort_slice_unique)
  show "inj_on key (set ys)" using assms by (metis set_mset_mset)
  show "sort_slice (\<lambda>a b. key a < key b) ys (sort_key key xs)"
    using sort_slice_sort_key [of key xs] assms(1) by (simp add: sort_slice_def)
qed

lemma strict_keys_unique:
  assumes "sorted (map key xs)" "distinct (map key xs)" "sorted (map key ys)" "distinct (map key ys)" "set xs = set ys"
  shows "xs = ys"
proof -
  have "mset xs = mset ys" using assms by (metis distinct_map set_eq_iff_mset_eq_distinct)
  moreover have "inj_on key (set xs)" using assms by (simp add: distinct_map)
  ultimately have "sort_key key xs = sort_key key ys" by (rule sort_key_perm_eq)
  with assms show ?thesis by (simp add: sort_key_id_if_sorted)
qed

lemma sort_key_map: "sort_key k (map f xs) = map f (sort_key (\<lambda>x. k (f x)) xs)"
proof -
  have "insort_key k (f x) (map f ys) = map f (insort_key (\<lambda>x. k (f x)) x ys)" for x ys
    by (induction ys) auto
  then show ?thesis by (induction xs) auto
qed

lemma sort_key_same_order:
  assumes "\<And>x y. k x \<le> k y \<longleftrightarrow> k' x \<le> k' y"
  shows "sort_key k xs = sort_key k' xs"
proof -
  have "insort_key k x ys = insort_key k' x ys" for x ys by (induction ys) (auto simp: assms)
  then show ?thesis by (induction xs) auto
qed

lemma sort_key_strict:
  assumes "distinct xs" and "inj_on k (set xs)"
  shows "sorted_wrt (\<lambda>a b. k a < k b) (sort_key k xs)"
  unfolding sorted_wrt_map [symmetric] strict_sorted_iff
  using assms by (simp add: distinct_map)

end
