(* ===== verification/Crdt_Core.thy ===== *)
theory Crdt_Core
  imports Prelude
begin

text \<open>
  The interfaces of the personal-state types of \<^verbatim>\<open>internal/personalstate/crdt\<close>. Each of the six
  types has an operation that folds one change into the state (\<^verbatim>\<open>applyOne\<close>) and a merge of whole
  states. The package promises (\<^verbatim>\<open>doc.go\<close>) that "applying a set of changes in ANY order, with any
  duplicates, yields the SAME converged state", and that folding changes and merging states are
  one join. \<open>op_crdt\<close> states the laws of the fold, \<open>state_crdt\<close> adds the laws of the merge, and
  their lemmas are the two promises. The components interpret them.
\<close>

section \<open>Folding changes\<close>

text \<open>\<open>S\<close> is the set of changes the laws hold for: all of them for most types, the well-formed
  ones where the code validates, the ones that agree on a shared key for the drive.\<close>

locale op_crdt =
  fixes apply_one :: "'c \<Rightarrow> 's \<Rightarrow> 's" and S :: "'c set"
  assumes apply_commute:
      "c \<in> S \<Longrightarrow> d \<in> S \<Longrightarrow> apply_one c (apply_one d s) = apply_one d (apply_one c s)"
    and apply_idem: "c \<in> S \<Longrightarrow> apply_one c (apply_one c s) = apply_one c s"
begin

lemma apply_fold_commute:
  "c \<in> S \<Longrightarrow> set ds \<subseteq> S \<Longrightarrow> apply_one c (fold apply_one ds s) = fold apply_one ds (apply_one c s)"
  by (induction ds arbitrary: s) (auto simp: apply_commute)

text \<open>A change that is already in the state is absorbed.\<close>

lemma apply_absorbed:
  "set cs \<subseteq> S \<Longrightarrow> c \<in> set cs \<Longrightarrow> apply_one c (fold apply_one cs s) = fold apply_one cs s"
proof (induction cs arbitrary: s)
  case Nil
  then show ?case by simp
next
  case (Cons d ds)
  show ?case
  proof (cases "c = d")
    case True
    with Cons.prems show ?thesis by (simp add: apply_fold_commute apply_idem)
  next
    case False
    with Cons show ?thesis by simp
  qed
qed

text \<open>Replaying any part of a log on top of the log changes nothing.\<close>

lemma replay_absorbed:
  "set cs \<subseteq> S \<Longrightarrow> set ds \<subseteq> set cs \<Longrightarrow> fold apply_one ds (fold apply_one cs s) = fold apply_one cs s"
  by (induction ds) (auto simp: apply_absorbed)

lemma fold_append_commute:
  "set cs \<subseteq> S \<Longrightarrow> set ds \<subseteq> S \<Longrightarrow>
   fold apply_one ds (fold apply_one cs s) = fold apply_one cs (fold apply_one ds s)"
  by (induction ds arbitrary: s) (auto simp: apply_fold_commute)

text \<open>Strong eventual consistency: two replicas that received the same set of changes, in any
  order and with any duplicates, are in the same state.\<close>

lemma convergence:
  assumes "set cs \<subseteq> S" and "set cs = set ds"
  shows "fold apply_one cs s = fold apply_one ds s"
proof -
  have "fold apply_one cs s = fold apply_one ds (fold apply_one cs s)"
    using assms by (simp add: replay_absorbed)
  also have "\<dots> = fold apply_one cs (fold apply_one ds s)"
    using assms by (simp add: fold_append_commute)
  also have "\<dots> = fold apply_one ds s"
    using assms by (simp add: replay_absorbed)
  finally show ?thesis .
qed

end

section \<open>Merging states\<close>

text \<open>\<open>merge out s\<close> is one round of the loop of the code's \<^verbatim>\<open>Merge\<close>: the state \<open>s\<close> joined into the
  accumulator \<open>out\<close>. \<open>V\<close> is the invariant of the states that are merged.\<close>

locale state_crdt = op_crdt apply_one S for apply_one :: "'c \<Rightarrow> 's \<Rightarrow> 's" and S :: "'c set" +
  fixes merge :: "'s \<Rightarrow> 's \<Rightarrow> 's" and init :: 's and V :: "'s \<Rightarrow> bool"
  assumes merge_assoc: "V a \<Longrightarrow> V b \<Longrightarrow> V d \<Longrightarrow> merge (merge a b) d = merge a (merge b d)"
    and merge_commute: "V a \<Longrightarrow> V b \<Longrightarrow> merge a b = merge b a"
    and merge_idem: "V a \<Longrightarrow> merge a a = a"
    and merge_init: "V a \<Longrightarrow> merge init a = a"
    and merge_apply: "c \<in> S \<Longrightarrow> V a \<Longrightarrow> V b \<Longrightarrow> merge (apply_one c a) b = apply_one c (merge a b)"
    and V_init: "V init"
    and V_merge: "V a \<Longrightarrow> V b \<Longrightarrow> V (merge a b)"
    and V_apply: "c \<in> S \<Longrightarrow> V a \<Longrightarrow> V (apply_one c a)"
begin

lemma V_fold: "set cs \<subseteq> S \<Longrightarrow> V a \<Longrightarrow> V (fold apply_one cs a)"
  by (induction cs arbitrary: a) (auto simp: V_apply)

lemma V_fold_merge: "list_all V xs \<Longrightarrow> V a \<Longrightarrow> V (fold (\<lambda>s out. merge out s) xs a)"
  by (induction xs arbitrary: a) (auto simp: V_merge)

lemma merge_fold:
  "set cs \<subseteq> S \<Longrightarrow> V a \<Longrightarrow> V b \<Longrightarrow> merge (fold apply_one cs a) b = fold apply_one cs (merge a b)"
  by (induction cs arbitrary: a) (auto simp: merge_apply V_apply)

text \<open>Merging two replicas is the same as folding both their logs into one.\<close>

lemma merge_logs:
  assumes "set cs \<subseteq> S" and "set ds \<subseteq> S"
  shows "merge (fold apply_one cs init) (fold apply_one ds init) = fold apply_one (cs @ ds) init"
proof -
  have "merge (fold apply_one cs init) (fold apply_one ds init) =
      fold apply_one cs (fold apply_one ds init)"
    using assms by (simp add: merge_fold merge_init V_init V_fold)
  then show ?thesis
    using assms by (simp add: fold_append_commute)
qed

text \<open>The same for any number of replicas.\<close>

lemma merge_log_list:
  "set (concat logs) \<subseteq> S \<Longrightarrow>
   fold (\<lambda>t out. merge out t) (map (\<lambda>l. fold apply_one l init) logs) init = fold apply_one (concat logs) init"
proof (induction logs rule: rev_induct)
  case Nil
  then show ?case by simp
next
  case (snoc l logs)
  then show ?case using merge_logs [of "concat logs" l] by simp
qed

text \<open>The laws of the merge are those of folding the states themselves as changes, on any set of
  states that satisfy the invariant and that the accumulator belongs to.\<close>

lemma merge_fold_commute:
  "V s \<Longrightarrow> list_all V xs \<Longrightarrow> V a \<Longrightarrow>
   merge (fold (\<lambda>t out. merge out t) xs a) s = fold (\<lambda>t out. merge out t) xs (merge a s)"
proof (induction xs arbitrary: a)
  case Nil
  then show ?case by simp
next
  case (Cons x xs)
  then have "merge (merge a x) s = merge (merge a s) x"
    by (simp add: merge_assoc merge_commute [of x s])
  with Cons show ?case by (simp add: V_merge)
qed

lemma merge_absorbed:
  "list_all V xs \<Longrightarrow> V a \<Longrightarrow> s \<in> set xs \<Longrightarrow>
   merge (fold (\<lambda>t out. merge out t) xs a) s = fold (\<lambda>t out. merge out t) xs a"
proof (induction xs arbitrary: a)
  case Nil
  then show ?case by simp
next
  case (Cons x xs)
  show ?case
  proof (cases "s = x")
    case True
    have "merge (merge a x) x = merge a x"
      using Cons.prems by (simp add: merge_assoc merge_idem)
    then show ?thesis
      using Cons.prems True by (simp add: merge_fold_commute V_merge)
  next
    case False
    with Cons show ?thesis by (simp add: V_merge)
  qed
qed

lemma merge_replay:
  assumes "list_all V xs" and "V a"
  shows "set ys \<subseteq> set xs \<Longrightarrow>
    fold (\<lambda>t out. merge out t) ys (fold (\<lambda>t out. merge out t) xs a) =
    fold (\<lambda>t out. merge out t) xs a"
  using assms by (induction ys) (auto simp: merge_absorbed)

lemma merge_fold_swap:
  "list_all V xs \<Longrightarrow> list_all V ys \<Longrightarrow> V a \<Longrightarrow>
    fold (\<lambda>t out. merge out t) ys (fold (\<lambda>t out. merge out t) xs a) =
    fold (\<lambda>t out. merge out t) xs (fold (\<lambda>t out. merge out t) ys a)"
proof (induction ys arbitrary: a)
  case Nil
  then show ?case by simp
next
  case (Cons y ys)
  then have "merge (fold (\<lambda>t out. merge out t) xs a) y = fold (\<lambda>t out. merge out t) xs (merge a y)"
    by (simp add: merge_fold_commute)
  with Cons show ?case by (simp add: V_merge)
qed

text \<open>Merging a collection of replicas depends on which states are merged, and not on their order
  or on how often each one occurs.\<close>

lemma merge_all_set:
  assumes "list_all V xs" and "set xs = set ys"
  shows "fold (\<lambda>t out. merge out t) xs init = fold (\<lambda>t out. merge out t) ys init"
proof -
  from assms have "list_all V ys" by (simp add: list_all_iff)
  with assms show ?thesis
    using merge_replay [OF assms(1) V_init, of ys] merge_replay [of ys init xs]
      merge_fold_swap [of xs ys init] V_init by simp
qed

end

section \<open>Snapshots\<close>

text \<open>A snapshot is a serialisable value that determines the state. With the fold of the changes it
  gives bounded synchronisation: a snapshot of a prefix of the log, plus the rest, is the whole
  log.\<close>

locale snapshot_crdt = op_crdt apply_one S for apply_one :: "'c \<Rightarrow> 's \<Rightarrow> 's" and S :: "'c set" +
  fixes snapshot :: "'s \<Rightarrow> 'w" and from_snapshot :: "'w \<Rightarrow> 's" and V :: "'s \<Rightarrow> bool"
  assumes from_snapshot_snapshot: "V s \<Longrightarrow> from_snapshot (snapshot s) = s"
    and V_apply_one: "c \<in> S \<Longrightarrow> V s \<Longrightarrow> V (apply_one c s)"
begin

lemma V_apply_fold: "set cs \<subseteq> S \<Longrightarrow> V s \<Longrightarrow> V (fold apply_one cs s)"
  by (induction cs arbitrary: s) (auto simp: V_apply_one)

lemma snapshot_inj: "V s \<Longrightarrow> V t \<Longrightarrow> snapshot s = snapshot t \<longleftrightarrow> s = t"
  by (metis from_snapshot_snapshot)

lemma snapshot_tail:
  assumes "set (cs @ ds) \<subseteq> S" and "set cs \<union> set ds = set es" and "V s"
  shows "fold apply_one ds (from_snapshot (snapshot (fold apply_one cs s))) = fold apply_one es s"
proof -
  have "fold apply_one (cs @ ds) s = fold apply_one es s"
    using assms by (intro convergence) auto
  moreover have "V (fold apply_one cs s)"
    using assms by (intro V_apply_fold) auto
  ultimately show ?thesis by (simp add: from_snapshot_snapshot)
qed

end

end
