(* ===== verification/Playlist.thy ===== *)
theory Playlist
  imports Crdt_Core
begin

text \<open>
  \<^verbatim>\<open>internal/personalstate/crdt/playlist.go\<close> and \<^verbatim>\<open>snapshot.go\<close>: the playlist, an add-wins
  observed-remove set with a Lamport total order. \<open>newTag\<close> (a fresh UUIDv7) is an argument of
  \<open>Add\<close>. The file shows that folding changes converges under reordering and duplication, that
  merging agrees with folding, that the visible list does not depend on Go's map order or on the
  instability of \<^verbatim>\<open>sort.Slice\<close> as long as order keys carry their own tag, that a concurrent add
  survives a remove, that an insert lands at the end, and that snapshots round-trip.
\<close>

section \<open>Data\<close>

type_synonym op8 = "8 word"

definition OpAdd :: op8 where "OpAdd = 0"
definition OpRemove :: op8 where "OpRemove = 1"

datatype OrderKey = OrderKey (Counter: u64) (KeyTag: string)

definition OrderKey_Less :: "OrderKey \<Rightarrow> OrderKey \<Rightarrow> bool" where
  "OrderKey_Less k other =
     (if Counter k \<noteq> Counter other then Counter k < Counter other else KeyTag k < KeyTag other)"

instantiation OrderKey :: linorder
begin

definition less_OrderKey :: "OrderKey \<Rightarrow> OrderKey \<Rightarrow> bool" where
  "less_OrderKey = OrderKey_Less"

definition less_eq_OrderKey :: "OrderKey \<Rightarrow> OrderKey \<Rightarrow> bool" where
  "less_eq_OrderKey k k' \<longleftrightarrow> OrderKey_Less k k' \<or> k = k'"

instance
proof
  fix x y z :: OrderKey
  note d = less_OrderKey_def less_eq_OrderKey_def OrderKey_Less_def
  show "x < y \<longleftrightarrow> x \<le> y \<and> \<not> y \<le> x" and "x \<le> x" and "x \<le> y \<Longrightarrow> y \<le> z \<Longrightarrow> x \<le> z"
    and "x \<le> y \<Longrightarrow> y \<le> x \<Longrightarrow> x = y" and "x \<le> y \<or> y \<le> x"
    by (cases x; cases y; cases z; auto simp: d split: if_splits)+
qed

end

record Change =
  ch_Op :: op8
  ch_ItemID :: string
  ch_Tag :: string
  ch_Order :: OrderKey
  ch_Observed :: "string list"

record Item =
  it_ID :: string
  it_Order :: OrderKey

record addRecord =
  itemID :: string
  order_key :: OrderKey

record State =
  adds :: "(string, addRecord) fmap"
  tombstones :: "string fset"
  counter :: u64

section \<open>Operations\<close>

definition lesserRecord :: "addRecord \<Rightarrow> addRecord \<Rightarrow> addRecord" where
  "lesserRecord a b =
     (if itemID a \<noteq> itemID b then (if itemID a < itemID b then a else b)
      else if OrderKey_Less (order_key a) (order_key b) then a else b)"

definition New :: State where
  "New = \<lparr>adds = fmempty, tombstones = {||}, counter = 0\<rparr>"

definition applyOne :: "Change \<Rightarrow> State \<Rightarrow> State" where
  "applyOne c s =
     (if ch_Op c = OpAdd then
        s\<lparr>adds := upsert lesserRecord (ch_Tag c) \<lparr>itemID = ch_ItemID c, order_key = ch_Order c\<rparr> (adds s),
          counter := (if Counter (ch_Order c) > counter s then Counter (ch_Order c) else counter s)\<rparr>
      else if ch_Op c = OpRemove then
        s\<lparr>tombstones := fold finsert (ch_Observed c) (tombstones s)\<rparr>
      else s)"

definition Apply :: "Change list \<Rightarrow> State \<Rightarrow> State" where
  "Apply changes s = fold applyOne changes s"

definition Add :: "string \<Rightarrow> string \<Rightarrow> State \<Rightarrow> Change \<times> State" where
  "Add newTag item s =
     (let n = sat_inc (counter s);
          c = \<lparr>ch_Op = OpAdd, ch_ItemID = item, ch_Tag = newTag, ch_Order = OrderKey n newTag,
               ch_Observed = []\<rparr>
      in (c, applyOne c (s\<lparr>counter := n\<rparr>)))"

definition liveTags :: "string \<Rightarrow> State \<Rightarrow> string list" where
  "liveTags item s =
     sort (map fst (filter (\<lambda>(tag, rec). itemID rec = item \<and> tag |\<notin>| tombstones s)
        (sorted_list_of_fmap (adds s))))"

definition Remove :: "string \<Rightarrow> State \<Rightarrow> Change \<times> State" where
  "Remove item s =
     (let c = \<lparr>ch_Op = OpRemove, ch_ItemID = item, ch_Tag = [], ch_Order = OrderKey 0 [],
               ch_Observed = liveTags item s\<rparr>
      in (c, applyOne c s))"

text \<open>\<^verbatim>\<open>Merge\<close> joins each state into the accumulator and skips nil pointers.\<close>

definition merge_into :: "State \<Rightarrow> State \<Rightarrow> State" where
  "merge_into out s =
     \<lparr>adds = merge_map lesserRecord (adds out) (adds s),
      tombstones = tombstones out |\<union>| tombstones s,
      counter = (if counter s > counter out then counter s else counter out)\<rparr>"

definition Merge :: "State option list \<Rightarrow> State" where
  "Merge states =
     fold (\<lambda>s out. case s of None \<Rightarrow> out | Some s \<Rightarrow> merge_into out s) states New"

text \<open>The loop of \<^verbatim>\<open>Items\<close> that picks the smallest live order key of every item, over one
  enumeration \<open>es\<close> of the adds, and the list the sort is given, over one enumeration \<open>bs\<close> of the
  result.\<close>

definition best_step :: "string fset \<Rightarrow> string \<times> addRecord \<Rightarrow> (string, OrderKey) fmap \<Rightarrow> (string, OrderKey) fmap" where
  "best_step tombs e best =
     (case e of (tag, rec) \<Rightarrow>
        if tag |\<in>| tombs then best
        else (case fmlookup best (itemID rec) of
                None \<Rightarrow> fmupd (itemID rec) (order_key rec) best
              | Some cur \<Rightarrow>
                  if OrderKey_Less (order_key rec) cur then fmupd (itemID rec) (order_key rec) best
                  else best))"

definition best_of :: "State \<Rightarrow> (string \<times> addRecord) list \<Rightarrow> (string, OrderKey) fmap" where
  "best_of s es = fold (best_step (tombstones s)) es fmempty"

definition item_list :: "(string \<times> OrderKey) list \<Rightarrow> Item list" where
  "item_list bs = map (\<lambda>(i, k). \<lparr>it_ID = i, it_Order = k\<rparr>) bs"

definition Items :: "State \<Rightarrow> Item list" where
  "Items s =
     sort_key it_Order (item_list (sorted_list_of_fmap (best_of s (sorted_list_of_fmap (adds s)))))"

text \<open>Every list \<^verbatim>\<open>Items\<close> may return: any order of the two map loops, any result of the sort.\<close>

definition Items_result :: "State \<Rightarrow> Item list \<Rightarrow> bool" where
  "Items_result s out \<longleftrightarrow>
     (\<exists>es bs. enumerates es (adds s) \<and> enumerates bs (best_of s es) \<and>
        sort_slice (\<lambda>a b. OrderKey_Less (it_Order a) (it_Order b)) (item_list bs) out)"

definition IDs :: "State \<Rightarrow> string list" where
  "IDs s = map it_ID (Items s)"

section \<open>Snapshots\<close>

record snapshotAdd =
  sa_Tag :: string
  sa_ItemID :: string
  sa_Counter :: u64
  sa_OrderTag :: string

record stateSnapshot =
  sn_Adds :: "snapshotAdd list"
  sn_Tombstones :: "string list"
  sn_Counter :: u64

text \<open>The value \<^verbatim>\<open>Snapshot\<close> hands to \<^verbatim>\<open>json.Marshal\<close>, and the state \<^verbatim>\<open>FromSnapshot\<close> builds from the
  value \<^verbatim>\<open>json.Unmarshal\<close> filled in.\<close>

definition Snapshot :: "State \<Rightarrow> stateSnapshot" where
  "Snapshot s =
     \<lparr>sn_Adds = sort_key sa_Tag (map (\<lambda>(tag, rec).
          \<lparr>sa_Tag = tag, sa_ItemID = itemID rec, sa_Counter = Counter (order_key rec),
           sa_OrderTag = KeyTag (order_key rec)\<rparr>) (sorted_list_of_fmap (adds s))),
      sn_Tombstones = sort (sorted_list_of_fset (tombstones s)),
      sn_Counter = counter s\<rparr>"

definition FromSnapshot :: "stateSnapshot \<Rightarrow> State" where
  "FromSnapshot snap =
     \<lparr>adds = fold (\<lambda>a m. fmupd (sa_Tag a)
               \<lparr>itemID = sa_ItemID a, order_key = OrderKey (sa_Counter a) (sa_OrderTag a)\<rparr> m)
               (sn_Adds snap) (adds New),
      tombstones = fold finsert (sn_Tombstones snap) (tombstones New),
      counter = sn_Counter snap\<rparr>"

section \<open>The lattice\<close>

lemma OrderKey_Less_iff: "OrderKey_Less k k' \<longleftrightarrow> k < k'"
  by (simp add: less_OrderKey_def)

lemma lesserRecord_eq: "lesserRecord = lesser_by (\<lambda>r. (itemID r, order_key r))"
  by (intro ext) (auto simp: lesserRecord_def lesser_by_def OrderKey_Less_iff)

lemma semilattice_lesserRecord: "semilattice lesserRecord"
  unfolding lesserRecord_eq by (rule semilattice_lesser_by) (auto simp: inj_def)

lemmas playlist_defs [crdt_defs] = applyOne_def merge_into_def New_def max_as_code fold_finsert

interpretation playlist: state_crdt applyOne UNIV merge_into New "\<lambda>_. True"
proof
  note m = semilattice_laws [OF semilattice_merge_map [OF semilattice_lesserRecord]]
  note u = upsert_commute [OF semilattice_lesserRecord] upsert_idem [OF semilattice_lesserRecord]
    upsert_merge_map [OF semilattice_lesserRecord]
  show "applyOne c (applyOne d s) = applyOne d (applyOne c s)" for c d s
    unfolding playlist_defs
    by (auto simp: u max.commute max.left_commute sup_commute sup_left_commute sup_assoc)
  show "applyOne c (applyOne c s) = applyOne c s" for c s
    unfolding playlist_defs by (auto simp: u sup_assoc)
  show "merge_into (merge_into a b) c = merge_into a (merge_into b c)" for a b c
    unfolding playlist_defs by (simp add: m(1) max.assoc sup_assoc)
  show "merge_into a b = merge_into b a" for a b
    unfolding playlist_defs by (simp add: m(2) [of "adds a"] max.commute sup_commute)
  show "merge_into a a = a" for a
    unfolding playlist_defs by (simp add: m(3))
  show "merge_into New a = a" for a
    unfolding playlist_defs by simp
  show "merge_into (applyOne c a) b = applyOne c (merge_into a b)" for c a b
    unfolding playlist_defs
    by (auto simp: u max.commute max.left_commute sup_commute sup_left_commute)
qed simp_all

lemma Merge_somes: "Merge xs = fold (\<lambda>s out. merge_into out s) (somes xs) New"
  by (simp add: Merge_def fold_somes)

section \<open>The visible list\<close>

text \<open>The order keys of the live add-tags of an item.\<close>

definition live_keys :: "State \<Rightarrow> string \<Rightarrow> OrderKey set" where
  "live_keys s i =
     {order_key rec |tag rec. fmlookup (adds s) tag = Some rec \<and> tag |\<notin>| tombstones s \<and> itemID rec = i}"

lemma best_of_upsert:
  "best_of s es = fold (\<lambda>e. upsert min (itemID (snd e)) (order_key (snd e)))
     (filter (\<lambda>e. fst e |\<notin>| tombstones s) es) fmempty"
proof -
  have "best_step (tombstones s) =
      (\<lambda>e m. if fst e |\<notin>| tombstones s then upsert min (itemID (snd e)) (order_key (snd e)) m else m)"
  proof (intro ext)
    fix e :: "string \<times> addRecord" and m
    show "best_step (tombstones s) e m =
        (if fst e |\<notin>| tombstones s then upsert min (itemID (snd e)) (order_key (snd e)) m else m)"
      by (auto simp: best_step_def upsert_def OrderKey_Less_iff min_def fmupd_same
          split: prod.splits option.splits)
  qed
  then show ?thesis by (simp add: best_of_def fold_filter)
qed

lemma live_keys_enumerates:
  assumes "enumerates es (adds s)"
  shows "(\<lambda>e. order_key (snd e)) `
      {e \<in> set (filter (\<lambda>e. fst e |\<notin>| tombstones s) es). itemID (snd e) = i} = live_keys s i"
  using enumerates_mem [OF assms] by (force simp: live_keys_def)

lemma finite_live_keys [simp]: "finite (live_keys s i)"
  unfolding live_keys_enumerates [OF enumerates_sorted, symmetric] by simp

lemma fmlookup_best_of:
  assumes "enumerates es (adds s)"
  shows "fmlookup (best_of s es) i = (if live_keys s i = {} then None else Some (Min (live_keys s i)))"
proof -
  let ?fs = "filter (\<lambda>e. fst e |\<notin>| tombstones s) es"
  have "i \<in> (\<lambda>e. itemID (snd e)) ` set ?fs \<longleftrightarrow> live_keys s i \<noteq> {}"
    unfolding live_keys_enumerates [OF assms, symmetric] by (simp add: image_iff) blast
  then show ?thesis
    unfolding best_of_upsert fmlookup_fold_upsert_min live_keys_enumerates [OF assms] by simp
qed

lemma best_of_any_order:
  "enumerates es (adds s) \<Longrightarrow> enumerates es' (adds s) \<Longrightarrow> best_of s es = best_of s es'"
  by (rule fmap_ext) (simp add: fmlookup_best_of)

text \<open>What Go's sort sees: for every enumeration of the maps, the same multiset of items.\<close>

lemma item_list_mem:
  assumes "enumerates es (adds s)" and "enumerates bs (best_of s es)"
  shows "it \<in> set (item_list bs) \<longleftrightarrow>
    (\<exists>i. live_keys s i \<noteq> {} \<and> it = \<lparr>it_ID = i, it_Order = Min (live_keys s i)\<rparr>)"
proof -
  have "(i, k) \<in> set bs \<longleftrightarrow> live_keys s i \<noteq> {} \<and> k = Min (live_keys s i)" for i k
    using enumerates_mem [OF assms(2), of i k] fmlookup_best_of [OF assms(1), of i] by auto
  then show ?thesis by (force simp: item_list_def)
qed

lemma mem_Items:
  "it \<in> set (Items s) \<longleftrightarrow> live_keys s (it_ID it) \<noteq> {} \<and> it_Order it = Min (live_keys s (it_ID it))"
  using item_list_mem [OF enumerates_sorted enumerates_sorted, of it s]
  by (cases it) (auto simp: Items_def)

lemma mem_IDs: "i \<in> set (IDs s) \<longleftrightarrow> live_keys s i \<noteq> {}"
proof -
  have "i \<in> set (IDs s) \<longleftrightarrow> (\<exists>it. it \<in> set (Items s) \<and> it_ID it = i)"
    by (auto simp: IDs_def)
  also have "\<dots> \<longleftrightarrow> live_keys s i \<noteq> {}"
    unfolding mem_Items by (metis Item.select_convs)
  finally show ?thesis .
qed

lemma item_list_mset_eq:
  assumes "enumerates es (adds s)" and "enumerates bs (best_of s es)"
  shows "mset (item_list bs) =
    mset (item_list (sorted_list_of_fmap (best_of s (sorted_list_of_fmap (adds s)))))"
proof -
  have "best_of s es = best_of s (sorted_list_of_fmap (adds s))"
    by (rule best_of_any_order [OF assms(1) enumerates_sorted])
  then have "mset bs = mset (sorted_list_of_fmap (best_of s (sorted_list_of_fmap (adds s))))"
    using assms(2) enumerates_sorted by (metis enumerates_mset_eq)
  then show ?thesis by (simp add: item_list_def)
qed

section \<open>Well-formed states\<close>

text \<open>Every order key carries the tag it is stored under, and the clock is at or past every
  counter. The local writers keep it, and so do changes minted by them.\<close>

definition wf_change :: "Change \<Rightarrow> bool" where
  "wf_change c \<longleftrightarrow> (ch_Op c = OpAdd \<longrightarrow> KeyTag (ch_Order c) = ch_Tag c)"

definition wf_state :: "State \<Rightarrow> bool" where
  "wf_state s \<longleftrightarrow>
     (\<forall>tag rec. fmlookup (adds s) tag = Some rec \<longrightarrow>
        KeyTag (order_key rec) = tag \<and> Counter (order_key rec) \<le> counter s)"

lemma wf_stateD:
  "wf_state s \<Longrightarrow> fmlookup (adds s) tag = Some rec \<Longrightarrow>
   KeyTag (order_key rec) = tag \<and> Counter (order_key rec) \<le> counter s"
  by (auto simp: wf_state_def)

lemma wf_New: "wf_state New"
  by (simp add: wf_state_def New_def)

lemma lesserRecord_choice: "lesserRecord a b = a \<or> lesserRecord a b = b"
  by (simp add: lesserRecord_def)

lemma wf_applyOne:
  assumes "wf_state s" and "wf_change c"
  shows "wf_state (applyOne c s)"
  unfolding wf_state_def
proof (intro allI impI)
  fix tag rec
  assume l: "fmlookup (adds (applyOne c s)) tag = Some rec"
  show "KeyTag (order_key rec) = tag \<and> Counter (order_key rec) \<le> counter (applyOne c s)"
  proof (cases "ch_Op c = OpAdd")
    case False
    then have "adds (applyOne c s) = adds s" "counter (applyOne c s) = counter s"
      by (auto simp: applyOne_def)
    with assms l show ?thesis by (simp add: wf_stateD)
  next
    case True
    have le: "counter s \<le> counter (applyOne c s)" "Counter (ch_Order c) \<le> counter (applyOne c s)"
      using True by (auto simp: applyOne_def)
    from l True have "rec = \<lparr>itemID = ch_ItemID c, order_key = ch_Order c\<rparr> \<and> tag = ch_Tag c \<or>
        fmlookup (adds s) tag = Some rec"
      using join_opt_choice [OF _ lesserRecord_choice]
      by (fastforce simp: applyOne_def split: if_splits)
    with assms True le show ?thesis
      by (auto simp: wf_change_def dest!: wf_stateD [OF assms(1)] intro: order.trans)
  qed
qed

lemma wf_Apply: "wf_state s \<Longrightarrow> list_all wf_change cs \<Longrightarrow> wf_state (Apply cs s)"
  unfolding Apply_def by (induction cs arbitrary: s) (auto simp: wf_applyOne)

lemma wf_Add: "wf_state s \<Longrightarrow> Add t i s = (c, s') \<Longrightarrow> wf_change c \<and> wf_state s'"
proof -
  assume w: "wf_state s" and a: "Add t i s = (c, s')"
  let ?s = "s\<lparr>counter := sat_inc (counter s)\<rparr>"
  have "wf_state ?s"
    using w sat_inc_ge [of "counter s"] by (auto simp: wf_state_def intro: order.trans)
  moreover have "wf_change c" "s' = applyOne c ?s"
    using a by (auto simp: Add_def Let_def wf_change_def)
  ultimately show ?thesis by (simp add: wf_applyOne)
qed

lemma wf_Remove: "wf_state s \<Longrightarrow> Remove i s = (c, s') \<Longrightarrow> wf_change c \<and> wf_state s'"
  by (auto simp: Remove_def Let_def wf_change_def OpAdd_def OpRemove_def intro!: wf_applyOne)

lemma wf_merge_into: "wf_state a \<Longrightarrow> wf_state b \<Longrightarrow> wf_state (merge_into a b)"
proof -
  assume w: "wf_state a" "wf_state b"
  have "fmlookup (adds a) t = Some r \<or> fmlookup (adds b) t = Some r"
    if "fmlookup (adds (merge_into a b)) t = Some r" for t r
    using that join_opt_choice [OF _ lesserRecord_choice] by (simp add: merge_into_def)
  moreover have "counter a \<le> counter (merge_into a b)" "counter b \<le> counter (merge_into a b)"
    by (auto simp: merge_into_def)
  ultimately show ?thesis
    using w unfolding wf_state_def by (meson order.trans)
qed

lemma inj_on_it_Order:
  assumes "wf_state s" and "enumerates es (adds s)" and "enumerates bs (best_of s es)"
  shows "inj_on it_Order (set (item_list bs))"
proof (rule inj_onI)
  fix x y
  assume "x \<in> set (item_list bs)" and "y \<in> set (item_list bs)" and eq: "it_Order x = it_Order y"
  then obtain i j where i: "live_keys s i \<noteq> {}" "x = \<lparr>it_ID = i, it_Order = Min (live_keys s i)\<rparr>"
    and j: "live_keys s j \<noteq> {}" "y = \<lparr>it_ID = j, it_Order = Min (live_keys s j)\<rparr>"
    by (auto simp: item_list_mem [OF assms(2,3)])
  have "it_Order x \<in> live_keys s i" and "it_Order y \<in> live_keys s j"
    using i j by simp_all
  then obtain t r t' r' where "fmlookup (adds s) t = Some r" "itemID r = i" "order_key r = it_Order x"
    and "fmlookup (adds s) t' = Some r'" "itemID r' = j" "order_key r' = it_Order y"
    by (auto simp: live_keys_def)
  then have "i = j"
    using eq by (metis wf_stateD [OF assms(1)] option.inject)
  with i j show "x = y" by simp
qed

lemma Items_unique:
  assumes "wf_state s" and "distinct out" and "set out = set (Items s)" and "sorted (map it_Order out)"
  shows "out = Items s"
proof -
  let ?l = "item_list (sorted_list_of_fmap (best_of s (sorted_list_of_fmap (adds s))))"
  have inj: "inj_on it_Order (set ?l)"
    by (rule inj_on_it_Order [OF assms(1) enumerates_sorted enumerates_sorted])
  have "distinct ?l"
    using enumerates_distinct [OF enumerates_sorted]
    by (auto simp: item_list_def distinct_map inj_on_def)
  then have "mset out = mset ?l"
    using assms(2,3) by (simp add: set_eq_iff_mset_eq_distinct Items_def)
  moreover have "sorted_wrt (\<lambda>a b. \<not> it_Order b < it_Order a) out"
    using assms(4) unfolding sorted_wrt_map not_less .
  ultimately show ?thesis
    unfolding Items_def using inj by (intro sort_slice_unique) (simp add: sort_slice_def)
qed

lemma Items_exists: "Items_result s (Items s)"
  unfolding Items_result_def Items_def OrderKey_Less_iff
  by (rule exI [where x = "sorted_list_of_fmap (adds s)"],
      rule exI [where x = "sorted_list_of_fmap (best_of s (sorted_list_of_fmap (adds s)))"])
    (simp add: enumerates_sorted sort_slice_sort_key)

lemma live_keys_iff:
  "k \<in> live_keys s i \<longleftrightarrow>
   (\<exists>tag rec. fmlookup (adds s) tag = Some rec \<and> tag |\<notin>| tombstones s \<and> itemID rec = i \<and> order_key rec = k)"
  by (auto simp: live_keys_def)

lemma Add_fresh:
  assumes "fmlookup (adds s) t = None" and "Add t i s = (c, s')"
  shows "adds s' = fmupd t \<lparr>itemID = i, order_key = OrderKey (sat_inc (counter s)) t\<rparr> (adds s)"
    and "tombstones s' = tombstones s" and "ch_Op c = OpAdd" and "ch_Tag c = t"
    and "ch_ItemID c = i" and "ch_Order c = OrderKey (sat_inc (counter s)) t"
  using assms by (auto simp: Add_def Let_def applyOne_def upsert_def)

lemma live_keys_Add:
  assumes "fmlookup (adds s) t = None" and "t |\<notin>| tombstones s" and "Add t i s = (c, s')"
  shows "live_keys s' j =
    (if j = i then insert (OrderKey (sat_inc (counter s)) t) (live_keys s j) else live_keys s j)"
proof -
  have "k \<in> live_keys s' j \<longleftrightarrow> j = i \<and> k = OrderKey (sat_inc (counter s)) t \<or> k \<in> live_keys s j" for k
  proof
    assume "k \<in> live_keys s' j"
    then show "j = i \<and> k = OrderKey (sat_inc (counter s)) t \<or> k \<in> live_keys s j"
      unfolding live_keys_iff Add_fresh(1,2) [OF assms(1,3)] by (auto split: if_splits)
  next
    assume "j = i \<and> k = OrderKey (sat_inc (counter s)) t \<or> k \<in> live_keys s j"
    then show "k \<in> live_keys s' j"
    proof
      assume "j = i \<and> k = OrderKey (sat_inc (counter s)) t"
      with assms(2) show ?thesis
        unfolding live_keys_iff Add_fresh(1,2) [OF assms(1,3)] by (intro exI [of _ t]) simp
    next
      assume "k \<in> live_keys s j"
      then obtain tag rec where "fmlookup (adds s) tag = Some rec" "tag |\<notin>| tombstones s"
        "itemID rec = j" "order_key rec = k" by (auto simp: live_keys_iff)
      with assms(1) show ?thesis
        unfolding live_keys_iff Add_fresh(1,2) [OF assms(1,3)] by (intro exI [of _ tag]) auto
    qed
  qed
  then show ?thesis by auto
qed

lemma live_keys_Remove:
  assumes "Remove i s = (c, s')"
  shows "live_keys s' j = (if j = i then {} else live_keys s j)"
proof -
  have "tag |\<in>| fset_of_list (liveTags i s) \<longleftrightarrow>
      (\<exists>rec. fmlookup (adds s) tag = Some rec \<and> itemID rec = i \<and> tag |\<notin>| tombstones s)" for tag
    by (auto simp: liveTags_def range_simps fset_of_list_elem image_iff)
  moreover have "adds s' = adds s" "tombstones s' = tombstones s |\<union>| fset_of_list (liveTags i s)"
    using assms by (auto simp: Remove_def Let_def applyOne_def fold_finsert OpAdd_def OpRemove_def)
  ultimately have "k \<in> live_keys s' j \<longleftrightarrow> k \<in> live_keys s j \<and> j \<noteq> i" for k
    unfolding live_keys_iff by (metis funion_iff option.inject)
  then show ?thesis by auto
qed

lemma Observed_Remove:
  "Remove i s = (c, s') \<Longrightarrow> t \<in> set (ch_Observed c) \<Longrightarrow> \<exists>rec. fmlookup (adds s) t = Some rec"
  by (auto simp: Remove_def Let_def liveTags_def range_simps)

section \<open>Snapshots round-trip\<close>

lemma addRecord_eta [simp]: "\<lparr>itemID = itemID r, order_key = order_key r\<rparr> = r"
  by (cases r) simp

lemma FromSnapshot_Snapshot: "FromSnapshot (Snapshot s) = s"
proof -
  let ?f = "\<lambda>(tag, rec). \<lparr>sa_Tag = tag, sa_ItemID = itemID rec, sa_Counter = Counter (order_key rec),
    sa_OrderTag = KeyTag (order_key rec)\<rparr>"
  let ?es = "sorted_list_of_fmap (adds s)"
  have tag: "sa_Tag \<circ> ?f = fst" by (auto simp: fun_eq_iff)
  have "sn_Adds (Snapshot s) = map ?f ?es"
    by (simp add: Snapshot_def sort_key_map_sorted tag)
  moreover have "(\<lambda>a m. fmupd (sa_Tag a) \<lparr>itemID = sa_ItemID a,
      order_key = OrderKey (sa_Counter a) (sa_OrderTag a)\<rparr> m) \<circ> ?f = (\<lambda>(k, v). fmupd k v)"
    by (auto simp: fun_eq_iff)
  ultimately have "adds (FromSnapshot (Snapshot s)) = adds s"
    by (simp add: FromSnapshot_def fold_map New_def fold_fmupd_sorted)
  moreover have "tombstones (FromSnapshot (Snapshot s)) = tombstones s"
    by (simp add: FromSnapshot_def Snapshot_def fold_finsert New_def)
  moreover have "counter (FromSnapshot (Snapshot s)) = counter s"
    by (simp add: FromSnapshot_def Snapshot_def)
  ultimately show ?thesis by simp
qed

interpretation playlist_snap: snapshot_crdt applyOne UNIV Snapshot FromSnapshot "\<lambda>_. True"
  by unfold_locales (simp_all add: FromSnapshot_Snapshot)

section \<open>Properties\<close>

text \<open>C1: convergence of the playlist. Two replicas that folded the same set of changes into the
  same state, in any order and with any duplicates, hold the same state; merging two replicas gives
  the state that folds both their logs; and merging any collection of replicas depends only on
  which states are merged, not on their order or multiplicity, nil entries being skipped.\<close>

theorem playlist_convergence:
  assumes "set cs = set ds" and "set xs - {None} = set ys - {None}"
  shows "Apply cs s = Apply ds s \<and>
    Merge [Some (Apply cs New), Some (Apply es New)] = Apply (cs @ es) New \<and>
    Merge xs = Merge ys"
proof (intro conjI)
  show "Apply cs s = Apply ds s"
    unfolding Apply_def by (rule playlist.convergence) (simp_all add: assms(1))
  show "Merge [Some (Apply cs New), Some (Apply es New)] = Apply (cs @ es) New"
    using playlist.merge_logs [of cs es]
    by (simp add: Merge_somes somes_def Apply_def playlist.merge_init)
  show "Merge xs = Merge ys"
    unfolding Merge_somes
    by (rule playlist.merge_all_set) (simp_all add: list_all_iff set_somes_eq [OF assms(2)])
qed

text \<open>The visible list is a function of the state. When every order key carries the tag of its
  own add (which local adds guarantee and folding and merging keep), no order of Go's map loops and
  no choice of the unstable sort can change the result of \<^verbatim>\<open>Items\<close>.\<close>

theorem playlist_items_deterministic:
  assumes "wf_state s"
  shows "Items_result s out \<longleftrightarrow> out = Items s"
proof
  assume "Items_result s out"
  then obtain es bs where es: "enumerates es (adds s)" and bs: "enumerates bs (best_of s es)"
    and out: "sort_slice (\<lambda>a b. it_Order a < it_Order b) (item_list bs) out"
    by (auto simp: Items_result_def OrderKey_Less_iff)
  note inj = inj_on_it_Order [OF assms es bs]
  show "out = Items s"
    unfolding Items_def sort_slice_unique [OF out inj]
    by (rule sort_key_perm_eq [OF item_list_mset_eq [OF es bs] inj])
next
  assume "out = Items s"
  then show "Items_result s out" by (simp add: Items_exists)
qed

text \<open>C2: add wins. A device adds an item under a fresh tag while another device, which has not seen
  that add, removes the item. The remover no longer lists the item; but whichever way the two
  exchange (merging the states, or shipping either change to the other device), the item is listed.\<close>

theorem playlist_add_wins:
  assumes "Add t i a = (add, a')" and "Remove i b = (rem, b')"
    and "fmlookup (adds a) t = None" and "t |\<notin>| tombstones a"
    and "fmlookup (adds b) t = None" and "t |\<notin>| tombstones b"
  shows "i \<notin> set (IDs b') \<and> i \<in> set (IDs (Merge [Some a', Some b'])) \<and>
    i \<in> set (IDs (Apply [rem] a')) \<and> i \<in> set (IDs (Apply [add] b'))"
proof (intro conjI)
  let ?k = "OrderKey (sat_inc (counter a)) t"
  let ?r = "\<lparr>itemID = i, order_key = ?k\<rparr>"
  have a': "fmlookup (adds a') t = Some ?r" "t |\<notin>| tombstones a'"
    and add: "ch_Op add = OpAdd" "ch_Tag add = t" "ch_ItemID add = i" "ch_Order add = ?k"
    using Add_fresh [OF assms(3,1)] assms(4) by auto
  have no: "t \<notin> set (ch_Observed rem)"
    using Observed_Remove [OF assms(2)] assms(5) by fastforce
  have b': "fmlookup (adds b') t = None" "t |\<notin>| tombstones b'" "ch_Op rem = OpRemove"
    using assms(2,5,6) no
    by (auto simp: Remove_def Let_def applyOne_def OpAdd_def OpRemove_def fold_finsert fset_of_list_elem)
  show "i \<notin> set (IDs b')"
    using live_keys_Remove [OF assms(2)] by (simp add: mem_IDs)
  show "i \<in> set (IDs (Merge [Some a', Some b']))"
    using a' b' by (force simp: mem_IDs live_keys_def Merge_def merge_into_def New_def)
  show "i \<in> set (IDs (Apply [rem] a'))"
    using a' b'(3) no
    by (force simp: mem_IDs live_keys_def Apply_def applyOne_def OpAdd_def OpRemove_def fold_finsert
        fset_of_list_elem)
  show "i \<in> set (IDs (Apply [add] b'))"
    using add b' by (force simp: mem_IDs live_keys_def Apply_def applyOne_def)
qed

text \<open>Inserts append. Adding an item that is not in the list, under a fresh tag and with the
  clock not yet saturated, keeps the order of the list and puts the new item at its end; removing
  an item takes out that item and nothing else.\<close>

theorem playlist_insert_last:
  assumes "wf_state s" and "counter s < max_u64" and "i \<notin> set (IDs s)"
    and "fmlookup (adds s) t = None" and "t |\<notin>| tombstones s" and "Add t i s = (c, s')"
  shows "IDs s' = IDs s @ [i] \<and> set (IDs (snd (Remove j s'))) = set (IDs s') - {j}"
proof (intro conjI)
  let ?k = "OrderKey (sat_inc (counter s)) t"
  let ?n = "\<lparr>it_ID = i, it_Order = ?k\<rparr>"
  note lk = live_keys_Add [OF assms(4-6)]
  have i: "live_keys s i = {}" using assms(3) by (simp add: mem_IDs)
  then have st: "set (Items s') = insert ?n (set (Items s))"
    by (auto simp: mem_Items lk split: if_splits)
  have lt: "it_Order x < ?k" if "x \<in> set (Items s)" for x
  proof -
    from that have "it_Order x \<in> live_keys s (it_ID x)" by (simp add: mem_Items)
    then have "Counter (it_Order x) \<le> counter s"
      by (auto simp: live_keys_def dest: wf_stateD [OF assms(1)])
    with sat_inc_gt [OF assms(2)] have "Counter (it_Order x) < Counter ?k" by simp
    then show ?thesis by (auto simp: less_OrderKey_def OrderKey_Less_def)
  qed
  have d: "distinct (Items s)"
    using enumerates_distinct [OF enumerates_sorted]
    by (auto simp: Items_def item_list_def distinct_map inj_on_def)
  have "sorted (map it_Order (Items s))" by (simp add: Items_def)
  with lt have "sorted (map it_Order (Items s @ [?n]))"
    by (fastforce simp: sorted_append)
  moreover have "distinct (Items s @ [?n])" using d lt by fastforce
  ultimately have "Items s @ [?n] = Items s'"
    using wf_Add [OF assms(1,6)] st by (intro Items_unique) auto
  then show "IDs s' = IDs s @ [i]" by (simp add: IDs_def flip: \<open>Items s @ [?n] = Items s'\<close>)
  show "set (IDs (snd (Remove j s'))) = set (IDs s') - {j}"
  proof -
    obtain r u where r: "Remove j s' = (r, u)" by (cases "Remove j s'")
    show ?thesis using live_keys_Remove [OF r] by (auto simp: r mem_IDs split: if_splits)
  qed
qed

text \<open>Snapshots of the playlist. Serialising a state and reading it back gives the state; two
  states have the same snapshot exactly when they are equal, whatever order the maps were walked
  in; and a snapshot of part of a log plus the rest of the log, in any order, overlapping or not,
  is the whole log.\<close>

theorem playlist_snapshot:
  assumes "set cs \<union> set ds = set es"
  shows "FromSnapshot (Snapshot s) = s \<and> (Snapshot s = Snapshot t \<longleftrightarrow> s = t) \<and>
    Apply ds (FromSnapshot (Snapshot (Apply cs s))) = Apply es s"
  using playlist_snap.snapshot_tail [of cs ds es s] assms
  by (simp add: FromSnapshot_Snapshot playlist_snap.snapshot_inj Apply_def)

section \<open>Witnesses\<close>

text \<open>Two devices: \<open>ex_add_a\<close> and \<open>ex_add_b\<close> insert concurrently, and a third change removes the
  first insertion.\<close>

definition ex_add_a :: Change where
  "ex_add_a = \<lparr>ch_Op = OpAdd, ch_ItemID = ''song'', ch_Tag = ''t1'', ch_Order = OrderKey 1 ''t1'', ch_Observed = []\<rparr>"

definition ex_add_b :: Change where
  "ex_add_b = \<lparr>ch_Op = OpAdd, ch_ItemID = ''track'', ch_Tag = ''t2'', ch_Order = OrderKey 1 ''t2'', ch_Observed = []\<rparr>"

definition ex_rem_a :: Change where
  "ex_rem_a = \<lparr>ch_Op = OpRemove, ch_ItemID = ''song'', ch_Tag = [], ch_Order = OrderKey 0 [], ch_Observed = [''t1'']\<rparr>"

theorem playlist_convergence_witness:
  "Apply [ex_add_a, ex_rem_a, ex_add_b] New = Apply [ex_add_b, ex_rem_a, ex_add_a, ex_rem_a] New \<and>
   Merge [Some (Apply [ex_add_a] New), None, Some (Apply [ex_add_b] New)] =
     Merge [Some (Apply [ex_add_b] New), Some (Apply [ex_add_a] New)] \<and>
   IDs (Apply [ex_add_a, ex_rem_a, ex_add_b] New) = [''track'']"
proof -
  have "IDs (Apply [ex_add_a, ex_rem_a, ex_add_b] New) = [''track'']" by code_simp
  moreover have "set [ex_add_a, ex_rem_a, ex_add_b] = set [ex_add_b, ex_rem_a, ex_add_a, ex_rem_a]"
    by auto
  moreover have "set [Some (Apply [ex_add_a] New), None, Some (Apply [ex_add_b] New)] - {None} =
      set [Some (Apply [ex_add_b] New), Some (Apply [ex_add_a] New)] - {None}" by auto
  ultimately show ?thesis
    using playlist_convergence [of "[ex_add_a, ex_rem_a, ex_add_b]" "[ex_add_b, ex_rem_a, ex_add_a, ex_rem_a]"
        "[Some (Apply [ex_add_a] New), None, Some (Apply [ex_add_b] New)]"
        "[Some (Apply [ex_add_b] New), Some (Apply [ex_add_a] New)]" New "[]"] by blast
qed

lemma wf_ex: "wf_state (Apply [ex_add_a, ex_add_b] New)"
  by (rule wf_Apply [OF wf_New]) (simp add: wf_change_def ex_add_a_def ex_add_b_def)

theorem playlist_items_deterministic_witness:
  "Items_result (Apply [ex_add_a, ex_add_b] New) (Items (Apply [ex_add_a, ex_add_b] New)) \<and>
   \<not> Items_result (Apply [ex_add_a, ex_add_b] New) (rev (Items (Apply [ex_add_a, ex_add_b] New)))"
proof -
  have "rev (Items (Apply [ex_add_a, ex_add_b] New)) \<noteq> Items (Apply [ex_add_a, ex_add_b] New)"
    by code_simp
  then show ?thesis
    by (simp add: playlist_items_deterministic [OF wf_ex])
qed

theorem playlist_add_wins_witness:
  "''song'' \<in> set (IDs (Merge [Some (snd (Add ''t9'' ''song'' (Apply [ex_add_a] New))),
      Some (snd (Remove ''song'' (Apply [ex_add_a] New)))]))"
proof -
  let ?s = "Apply [ex_add_a] New"
  have "fmlookup (adds ?s) ''t9'' = None" "''t9'' |\<notin>| tombstones ?s" by code_simp+
  then show ?thesis
    using playlist_add_wins [of "''t9''" "''song''" ?s _ _ ?s, OF prod.collapse [symmetric] prod.collapse [symmetric]]
    by blast
qed

theorem playlist_insert_last_witness:
  "IDs (snd (Add ''t9'' ''new'' (Apply [ex_add_a, ex_add_b] New))) = [''song'', ''track'', ''new'']"
proof -
  let ?s = "Apply [ex_add_a, ex_add_b] New"
  have "counter ?s < max_u64" "fmlookup (adds ?s) ''t9'' = None" "''t9'' |\<notin>| tombstones ?s"
    and ids: "IDs ?s = [''song'', ''track'']" by code_simp+
  moreover have "''new'' \<notin> set (IDs ?s)" by (simp add: ids)
  ultimately show ?thesis
    using playlist_insert_last [OF wf_ex, of "''new''" "''t9''", OF _ _ _ _ prod.collapse [symmetric]] by simp
qed

theorem playlist_snapshot_witness:
  "Apply [ex_add_b] (FromSnapshot (Snapshot (Apply [ex_add_a] New))) = Apply [ex_add_b, ex_add_a] New"
  using playlist_snapshot [of "[ex_add_a]" "[ex_add_b]" "[ex_add_b, ex_add_a]" New New] by auto

end
