(* ===== verification/Starred.thy ===== *)
theory Starred
  imports Crdt_Core
begin

text \<open>
  \<^verbatim>\<open>internal/personalstate/crdt/starred.go\<close> and \<^verbatim>\<open>starred_snapshot.go\<close>: starred items, the
  membership set of the playlist without positions. \<open>newStarTag\<close> is an argument of \<open>Star\<close>. The
  list \<open>Starred\<close> is ordered by recency and then by item id, a total order on the entries, so the
  result is determined on every state, hostile ones included.
\<close>

section \<open>Data and operations\<close>

definition OpStar :: "8 word" where "OpStar = 0"
definition OpUnstar :: "8 word" where "OpUnstar = 1"

record StarChange =
  sc_Op :: "8 word"
  sc_ItemID :: string
  sc_Tag :: string
  sc_At :: u64
  sc_Observed :: "string list"

record starRecord =
  sr_itemID :: string
  sr_at :: u64

record StarSet =
  star_adds :: "(string, starRecord) fmap"
  star_tombstones :: "string fset"
  star_counter :: u64

record StarEntry =
  se_ID :: string
  se_At :: u64

definition lesserStar :: "starRecord \<Rightarrow> starRecord \<Rightarrow> starRecord" where
  "lesserStar a b =
     (if sr_itemID a \<noteq> sr_itemID b then (if sr_itemID a < sr_itemID b then a else b)
      else if sr_at a \<noteq> sr_at b then (if sr_at a < sr_at b then a else b)
      else a)"

definition NewStarSet :: StarSet where
  "NewStarSet = \<lparr>star_adds = fmempty, star_tombstones = {||}, star_counter = 0\<rparr>"

definition star_applyOne :: "StarChange \<Rightarrow> StarSet \<Rightarrow> StarSet" where
  "star_applyOne c s =
     (if sc_Op c = OpStar then
        s\<lparr>star_adds := upsert lesserStar (sc_Tag c) \<lparr>sr_itemID = sc_ItemID c, sr_at = sc_At c\<rparr> (star_adds s),
          star_counter := (if sc_At c > star_counter s then sc_At c else star_counter s)\<rparr>
      else if sc_Op c = OpUnstar then
        s\<lparr>star_tombstones := fold finsert (sc_Observed c) (star_tombstones s)\<rparr>
      else s)"

definition star_Apply :: "StarChange list \<Rightarrow> StarSet \<Rightarrow> StarSet" where
  "star_Apply changes s = fold star_applyOne changes s"

definition Star :: "string \<Rightarrow> string \<Rightarrow> StarSet \<Rightarrow> StarChange \<times> StarSet" where
  "Star newStarTag item s =
     (let n = sat_inc (star_counter s);
          c = \<lparr>sc_Op = OpStar, sc_ItemID = item, sc_Tag = newStarTag, sc_At = n, sc_Observed = []\<rparr>
      in (c, star_applyOne c (s\<lparr>star_counter := n\<rparr>)))"

definition liveStarTags :: "string \<Rightarrow> StarSet \<Rightarrow> string list" where
  "liveStarTags item s =
     sort (map fst (filter (\<lambda>(tag, rec). sr_itemID rec = item \<and> tag |\<notin>| star_tombstones s)
        (sorted_list_of_fmap (star_adds s))))"

definition Unstar :: "string \<Rightarrow> StarSet \<Rightarrow> StarChange \<times> StarSet" where
  "Unstar item s =
     (let c = \<lparr>sc_Op = OpUnstar, sc_ItemID = item, sc_Tag = [], sc_At = 0, sc_Observed = liveStarTags item s\<rparr>
      in (c, star_applyOne c s))"

definition star_merge_into :: "StarSet \<Rightarrow> StarSet \<Rightarrow> StarSet" where
  "star_merge_into out s =
     \<lparr>star_adds = merge_map lesserStar (star_adds out) (star_adds s),
      star_tombstones = star_tombstones out |\<union>| star_tombstones s,
      star_counter = (if star_counter s > star_counter out then star_counter s else star_counter out)\<rparr>"

definition MergeStars :: "StarSet option list \<Rightarrow> StarSet" where
  "MergeStars sets =
     fold (\<lambda>s out. case s of None \<Rightarrow> out | Some s \<Rightarrow> star_merge_into out s) sets NewStarSet"

definition IsStarred :: "string \<Rightarrow> StarSet \<Rightarrow> bool" where
  "IsStarred item s =
     list_ex (\<lambda>(tag, rec). sr_itemID rec = item \<and> tag |\<notin>| star_tombstones s)
       (sorted_list_of_fmap (star_adds s))"

definition star_best_step :: "string fset \<Rightarrow> string \<times> starRecord \<Rightarrow> (string, u64) fmap \<Rightarrow> (string, u64) fmap" where
  "star_best_step tombs e best =
     (case e of (tag, rec) \<Rightarrow>
        if tag |\<in>| tombs then best
        else (case fmlookup best (sr_itemID rec) of
                None \<Rightarrow> fmupd (sr_itemID rec) (sr_at rec) best
              | Some cur \<Rightarrow> if sr_at rec > cur then fmupd (sr_itemID rec) (sr_at rec) best else best))"

definition star_best_of :: "StarSet \<Rightarrow> (string \<times> starRecord) list \<Rightarrow> (string, u64) fmap" where
  "star_best_of s es = fold (star_best_step (star_tombstones s)) es fmempty"

definition star_entries :: "(string \<times> u64) list \<Rightarrow> StarEntry list" where
  "star_entries bs = map (\<lambda>(i, at). \<lparr>se_ID = i, se_At = at\<rparr>) bs"

definition star_less :: "StarEntry \<Rightarrow> StarEntry \<Rightarrow> bool" where
  "star_less a b = (if se_At a \<noteq> se_At b then se_At a > se_At b else se_ID a < se_ID b)"

text \<open>The sort key that \<open>star_less\<close> orders by: recency descending (the complement of the counter),
  then the id.\<close>

definition star_key :: "StarEntry \<Rightarrow> u64 \<times> string" where
  "star_key e = (max_u64 - se_At e, se_ID e)"

definition Starred :: "StarSet \<Rightarrow> StarEntry list" where
  "Starred s =
     sort_key star_key (star_entries (sorted_list_of_fmap (star_best_of s (sorted_list_of_fmap (star_adds s)))))"

definition Starred_result :: "StarSet \<Rightarrow> StarEntry list \<Rightarrow> bool" where
  "Starred_result s out \<longleftrightarrow>
     (\<exists>es bs. enumerates es (star_adds s) \<and> enumerates bs (star_best_of s es) \<and>
        sort_slice star_less (star_entries bs) out)"

definition StarredIDs :: "StarSet \<Rightarrow> string list" where
  "StarredIDs s = map se_ID (Starred s)"

section \<open>Snapshots\<close>

record starSnapshotAdd =
  ssa_Tag :: string
  ssa_ItemID :: string
  ssa_At :: u64

record starSetSnapshot =
  sss_Stars :: "starSnapshotAdd list"
  sss_Tombstones :: "string list"
  sss_Counter :: u64

definition star_Snapshot :: "StarSet \<Rightarrow> starSetSnapshot" where
  "star_Snapshot s =
     \<lparr>sss_Stars = sort_key ssa_Tag (map (\<lambda>(tag, rec).
          \<lparr>ssa_Tag = tag, ssa_ItemID = sr_itemID rec, ssa_At = sr_at rec\<rparr>)
          (sorted_list_of_fmap (star_adds s))),
      sss_Tombstones = sort (sorted_list_of_fset (star_tombstones s)),
      sss_Counter = star_counter s\<rparr>"

definition StarSetFromSnapshot :: "starSetSnapshot \<Rightarrow> StarSet" where
  "StarSetFromSnapshot snap =
     \<lparr>star_adds = fold (\<lambda>a m. fmupd (ssa_Tag a) \<lparr>sr_itemID = ssa_ItemID a, sr_at = ssa_At a\<rparr> m)
               (sss_Stars snap) (star_adds NewStarSet),
      star_tombstones = fold finsert (sss_Tombstones snap) (star_tombstones NewStarSet),
      star_counter = sss_Counter snap\<rparr>"

section \<open>The lattice\<close>

lemma lesserStar_eq: "lesserStar = lesser_by (\<lambda>r. (sr_itemID r, sr_at r))"
  by (intro ext) (auto simp: lesserStar_def lesser_by_def)

lemma semilattice_lesserStar: "semilattice lesserStar"
  unfolding lesserStar_eq by (rule semilattice_lesser_by) (auto simp: inj_def)

lemmas star_defs [crdt_defs] = star_applyOne_def star_merge_into_def NewStarSet_def max_as_code fold_finsert

interpretation star: state_crdt star_applyOne UNIV star_merge_into NewStarSet "\<lambda>_. True"
proof
  note m = semilattice_laws [OF semilattice_merge_map [OF semilattice_lesserStar]]
  note u = upsert_commute [OF semilattice_lesserStar] upsert_idem [OF semilattice_lesserStar]
    upsert_merge_map [OF semilattice_lesserStar]
  note ac = max.commute max.left_commute sup_commute sup_left_commute
  show "star_applyOne c (star_applyOne d s) = star_applyOne d (star_applyOne c s)" for c d s
    unfolding star_defs by (auto simp: u ac sup_assoc)
  show "star_applyOne c (star_applyOne c s) = star_applyOne c s" for c s
    unfolding star_defs by (auto simp: u sup_assoc)
  show "star_merge_into (star_merge_into a b) c = star_merge_into a (star_merge_into b c)" for a b c
    unfolding star_defs by (simp add: m(1) max.assoc sup_assoc)
  show "star_merge_into a b = star_merge_into b a" for a b
    unfolding star_defs by (simp add: m(2) [of "star_adds a"] max.commute sup_commute)
  show "star_merge_into a a = a" for a
    unfolding star_defs by (simp add: m(3))
  show "star_merge_into NewStarSet a = a" for a
    unfolding star_defs by simp
  show "star_merge_into (star_applyOne c a) b = star_applyOne c (star_merge_into a b)" for c a b
    unfolding star_defs by (auto simp: u ac)
qed simp_all

lemma MergeStars_somes: "MergeStars xs = fold (\<lambda>s out. star_merge_into out s) (somes xs) NewStarSet"
  by (simp add: MergeStars_def fold_somes)

lemma starRecord_eta [simp]: "\<lparr>sr_itemID = sr_itemID r, sr_at = sr_at r\<rparr> = r"
  by (cases r) simp

lemma StarSetFromSnapshot_Snapshot: "StarSetFromSnapshot (star_Snapshot s) = s"
proof -
  let ?f = "\<lambda>(tag, rec). \<lparr>ssa_Tag = tag, ssa_ItemID = sr_itemID rec, ssa_At = sr_at rec\<rparr>"
  have tag: "ssa_Tag \<circ> ?f = fst" by (auto simp: fun_eq_iff)
  have "sss_Stars (star_Snapshot s) = map ?f (sorted_list_of_fmap (star_adds s))"
    by (simp add: star_Snapshot_def sort_key_map_sorted tag)
  moreover have "(\<lambda>a m. fmupd (ssa_Tag a) \<lparr>sr_itemID = ssa_ItemID a, sr_at = ssa_At a\<rparr> m) \<circ> ?f =
      (\<lambda>(k, v). fmupd k v)"
    by (auto simp: fun_eq_iff)
  ultimately have "star_adds (StarSetFromSnapshot (star_Snapshot s)) = star_adds s"
    by (simp add: StarSetFromSnapshot_def fold_map NewStarSet_def fold_fmupd_sorted)
  moreover have "star_tombstones (StarSetFromSnapshot (star_Snapshot s)) = star_tombstones s"
    and "star_counter (StarSetFromSnapshot (star_Snapshot s)) = star_counter s"
    by (simp_all add: StarSetFromSnapshot_def star_Snapshot_def fold_finsert NewStarSet_def)
  ultimately show ?thesis by simp
qed

interpretation star_snap: snapshot_crdt star_applyOne UNIV star_Snapshot StarSetFromSnapshot "\<lambda>_. True"
  by unfold_locales (simp_all add: StarSetFromSnapshot_Snapshot)

section \<open>The starred list\<close>

definition live_ats :: "StarSet \<Rightarrow> string \<Rightarrow> u64 set" where
  "live_ats s i =
     {sr_at rec |tag rec. fmlookup (star_adds s) tag = Some rec \<and> tag |\<notin>| star_tombstones s \<and> sr_itemID rec = i}"

lemma star_best_of_upsert:
  "star_best_of s es = fold (\<lambda>e. upsert max (sr_itemID (snd e)) (sr_at (snd e)))
     (filter (\<lambda>e. fst e |\<notin>| star_tombstones s) es) fmempty"
proof -
  have "star_best_step (star_tombstones s) =
      (\<lambda>e m. if fst e |\<notin>| star_tombstones s then upsert max (sr_itemID (snd e)) (sr_at (snd e)) m else m)"
    by (intro ext) (auto simp: star_best_step_def upsert_def max_def fmupd_same split: prod.splits option.splits)
  then show ?thesis by (simp add: star_best_of_def fold_filter)
qed

lemma live_ats_enumerates:
  assumes "enumerates es (star_adds s)"
  shows "(\<lambda>e. sr_at (snd e)) `
      {e \<in> set (filter (\<lambda>e. fst e |\<notin>| star_tombstones s) es). sr_itemID (snd e) = i} = live_ats s i"
  using enumerates_mem [OF assms] by (force simp: live_ats_def)

lemma fmlookup_star_best_of:
  assumes "enumerates es (star_adds s)"
  shows "fmlookup (star_best_of s es) i = (if live_ats s i = {} then None else Some (Max (live_ats s i)))"
proof -
  let ?fs = "filter (\<lambda>e. fst e |\<notin>| star_tombstones s) es"
  have "i \<in> (\<lambda>e. sr_itemID (snd e)) ` set ?fs \<longleftrightarrow> live_ats s i \<noteq> {}"
    unfolding live_ats_enumerates [OF assms, symmetric] by (simp add: image_iff) blast
  then show ?thesis
    unfolding star_best_of_upsert fmlookup_fold_upsert_max live_ats_enumerates [OF assms] by simp
qed

lemma star_best_of_any_order:
  "enumerates es (star_adds s) \<Longrightarrow> enumerates es' (star_adds s) \<Longrightarrow> star_best_of s es = star_best_of s es'"
  by (rule fmap_ext) (simp add: fmlookup_star_best_of)

lemma star_less_key: "star_less a b \<longleftrightarrow> star_key a < star_key b"
  by (auto simp: star_less_def star_key_def rev_u64 rev_u64_le)

lemma inj_star_key: "inj star_key"
  by (rule injI) (auto simp: star_key_def)

lemma mem_Starred:
  "e \<in> set (Starred s) \<longleftrightarrow> live_ats s (se_ID e) \<noteq> {} \<and> se_At e = Max (live_ats s (se_ID e))"
proof -
  let ?b = "star_best_of s (sorted_list_of_fmap (star_adds s))"
  have "e \<in> set (Starred s) \<longleftrightarrow> (se_ID e, se_At e) \<in> set (sorted_list_of_fmap ?b)"
    by (cases e) (force simp: Starred_def star_entries_def)
  then show ?thesis
    by (auto simp: range_simps fmlookup_star_best_of [OF enumerates_sorted] split: if_splits)
qed

lemma star_less_eq: "star_less = (\<lambda>a b. star_key a < star_key b)"
  by (intro ext) (simp add: star_less_key)

lemma inj_on_star_key: "inj_on star_key A"
  by (rule inj_on_subset [OF inj_star_key subset_UNIV])

lemma Starred_sorted:
  "sort_slice star_less
     (star_entries (sorted_list_of_fmap (star_best_of s (sorted_list_of_fmap (star_adds s))))) (Starred s)"
  unfolding star_less_eq Starred_def by (rule sort_slice_sort_key)

lemma Starred_result_iff: "Starred_result s out \<longleftrightarrow> out = Starred s"
proof
  assume "Starred_result s out"
  then obtain es bs where es: "enumerates es (star_adds s)" and bs: "enumerates bs (star_best_of s es)"
    and out: "sort_slice (\<lambda>a b. star_key a < star_key b) (star_entries bs) out"
    by (auto simp: Starred_result_def star_less_eq)
  have "mset bs = mset (sorted_list_of_fmap (star_best_of s (sorted_list_of_fmap (star_adds s))))"
    using enumerates_mset_eq [OF bs] star_best_of_any_order [OF es enumerates_sorted] enumerates_sorted
    by metis
  then show "out = Starred s"
    unfolding sort_slice_unique [OF out inj_on_star_key] Starred_def
    by (intro sort_key_perm_eq inj_on_star_key) (simp add: star_entries_def)
next
  assume "out = Starred s"
  then show "Starred_result s out"
    unfolding Starred_result_def
    by (intro exI [of _ "sorted_list_of_fmap (star_adds s)"]
        exI [of _ "sorted_list_of_fmap (star_best_of s (sorted_list_of_fmap (star_adds s)))"])
      (simp add: Starred_sorted enumerates_sorted)
qed

lemma distinct_StarredIDs: "distinct (StarredIDs s)"
proof -
  let ?bs = "sorted_list_of_fmap (star_best_of s (sorted_list_of_fmap (star_adds s)))"
  have "distinct (map fst ?bs)"
    using enumerates_sorted by (simp add: enumerates_def)
  then have "distinct (map se_ID (star_entries ?bs))"
    by (simp add: star_entries_def comp_def case_prod_unfold)
  then show ?thesis
    unfolding StarredIDs_def Starred_def
    by (metis (no_types, lifting) mset_map mset_sort mset_eq_imp_distinct_iff)
qed

lemma IsStarred_mem:
  "IsStarred i s \<longleftrightarrow>
   (\<exists>tag rec. fmlookup (star_adds s) tag = Some rec \<and> sr_itemID rec = i \<and> tag |\<notin>| star_tombstones s)"
  by (force simp: IsStarred_def list_ex_iff range_simps)

lemma IsStarred_iff: "IsStarred i s \<longleftrightarrow> live_ats s i \<noteq> {}"
  by (force simp: IsStarred_def list_ex_iff range_simps live_ats_def)

lemma mem_StarredIDs: "i \<in> set (StarredIDs s) \<longleftrightarrow> IsStarred i s"
proof -
  have "i \<in> set (StarredIDs s) \<longleftrightarrow> (\<exists>e. e \<in> set (Starred s) \<and> se_ID e = i)"
    by (auto simp: StarredIDs_def)
  also have "\<dots> \<longleftrightarrow> live_ats s i \<noteq> {}"
    unfolding mem_Starred by (metis StarEntry.select_convs)
  finally show ?thesis by (simp add: IsStarred_iff)
qed

lemma Starred_recency: "sorted_wrt (\<lambda>a b. se_At b \<le> se_At a) (Starred s)"
  using Starred_sorted [of s] unfolding sort_slice_def
  by (auto elim!: sorted_wrt_mono_rel [rotated] simp: star_less_def split: if_splits)

lemma IsStarred_Unstar: "IsStarred j (snd (Unstar i s)) \<longleftrightarrow> IsStarred j s \<and> j \<noteq> i"
proof -
  have "tag \<in> set (liveStarTags i s) \<longleftrightarrow>
    (\<exists>rec. fmlookup (star_adds s) tag = Some rec \<and> sr_itemID rec = i \<and> tag |\<notin>| star_tombstones s)" for tag
    by (auto simp: liveStarTags_def range_simps image_iff)
  moreover have "star_adds (snd (Unstar i s)) = star_adds s"
    "star_tombstones (snd (Unstar i s)) = star_tombstones s |\<union>| fset_of_list (liveStarTags i s)"
    by (simp_all add: Unstar_def Let_def star_applyOne_def OpStar_def OpUnstar_def fold_finsert)
  ultimately show ?thesis
    unfolding IsStarred_mem by (metis funion_iff fset_of_list_elem option.inject)
qed

section \<open>Properties\<close>

text \<open>Convergence of the starred set: any order and multiplicity of the same changes gives the
  same set, merging agrees with folding and depends only on which sets are merged, and a snapshot
  plus the tail of the log is the whole log.\<close>

theorem starred_convergence:
  assumes "set cs = set ds" and "set xs - {None} = set ys - {None}"
  shows "star_Apply cs s = star_Apply ds s \<and>
    MergeStars [Some (star_Apply cs NewStarSet), Some (star_Apply es NewStarSet)] = star_Apply (cs @ es) NewStarSet \<and>
    MergeStars xs = MergeStars ys \<and>
    star_Apply es (StarSetFromSnapshot (star_Snapshot (star_Apply cs s))) = star_Apply (es @ ds) s"
proof (intro conjI)
  show "star_Apply cs s = star_Apply ds s"
    unfolding star_Apply_def by (rule star.convergence) (simp_all add: assms(1))
  show "MergeStars [Some (star_Apply cs NewStarSet), Some (star_Apply es NewStarSet)] =
      star_Apply (cs @ es) NewStarSet"
    using star.merge_logs [of cs es]
    by (simp add: MergeStars_somes somes_def star_Apply_def star.merge_init)
  show "MergeStars xs = MergeStars ys"
    unfolding MergeStars_somes
    by (rule star.merge_all_set) (simp_all add: list_all_iff set_somes_eq [OF assms(2)])
  show "star_Apply es (StarSetFromSnapshot (star_Snapshot (star_Apply cs s))) = star_Apply (es @ ds) s"
    unfolding star_Apply_def using assms(1) by (intro star_snap.snapshot_tail) auto
qed

text \<open>The starred list is determined on every state: whatever order Go walks its maps in and
  whatever the unstable sort does, \<^verbatim>\<open>Starred\<close> returns the same list. It holds exactly the items
  \<^verbatim>\<open>IsStarred\<close> accepts, each once, with the counter of its most recent live star, most recent first;
  unstarring an item takes it out and leaves the others.\<close>

theorem starred_list:
  "(Starred_result s out \<longleftrightarrow> out = Starred s) \<and> distinct (StarredIDs s) \<and>
   (i \<in> set (StarredIDs s) \<longleftrightarrow> IsStarred i s) \<and> sorted_wrt (\<lambda>a b. se_At b \<le> se_At a) (Starred s) \<and>
   (IsStarred j (snd (Unstar i s)) \<longleftrightarrow> IsStarred j s \<and> j \<noteq> i)"
  by (simp add: Starred_result_iff distinct_StarredIDs mem_StarredIDs Starred_recency IsStarred_Unstar)

section \<open>Witness\<close>

definition ex_star :: StarChange where
  "ex_star = \<lparr>sc_Op = OpStar, sc_ItemID = ''a'', sc_Tag = ''t1'', sc_At = 1, sc_Observed = []\<rparr>"

definition ex_star2 :: StarChange where
  "ex_star2 = \<lparr>sc_Op = OpStar, sc_ItemID = ''b'', sc_Tag = ''t2'', sc_At = 2, sc_Observed = []\<rparr>"

theorem starred_convergence_witness:
  "star_Apply [ex_star, ex_star2] NewStarSet = star_Apply [ex_star2, ex_star, ex_star2] NewStarSet \<and>
   StarredIDs (star_Apply [ex_star, ex_star2] NewStarSet) = [''b'', ''a'']"
proof -
  have "StarredIDs (star_Apply [ex_star, ex_star2] NewStarSet) = [''b'', ''a'']" by code_simp
  moreover have "set [ex_star, ex_star2] = set [ex_star2, ex_star, ex_star2]" by auto
  ultimately show ?thesis
    using starred_convergence [of "[ex_star, ex_star2]" "[ex_star2, ex_star, ex_star2]" "[]" "[]" NewStarSet "[]"]
    by blast
qed

end
