(* ===== verification/ReadingPos.thy ===== *)
theory ReadingPos
  imports Crdt_Core
begin

text \<open>
  \<^verbatim>\<open>internal/personalstate/crdt/readingpos.go\<close> and \<^verbatim>\<open>readingpos_snapshot.go\<close>: the reading position
  per publication, a last-writer-wins register on the total order \<open>posKey\<close> = (At, Writer) that the
  drive and the albums share. \<open>newPosTag\<close> is an argument of \<open>Set_position\<close>.
\<close>

section \<open>The write key\<close>

datatype posKey = PosKey (At: u64) (Writer: string)

definition greater :: "posKey \<Rightarrow> posKey \<Rightarrow> bool" where
  "greater k other = (if At k \<noteq> At other then At k > At other else Writer k > Writer other)"

text \<open>The zero value of the struct.\<close>

definition zeroKey :: posKey where
  "zeroKey = PosKey 0 []"

instantiation posKey :: linorder
begin

definition less_posKey :: "posKey \<Rightarrow> posKey \<Rightarrow> bool" where
  "less_posKey k k' = greater k' k"

definition less_eq_posKey :: "posKey \<Rightarrow> posKey \<Rightarrow> bool" where
  "less_eq_posKey k k' \<longleftrightarrow> greater k' k \<or> k = k'"

instance
proof
  fix x y z :: posKey
  note d = less_posKey_def less_eq_posKey_def greater_def
  show "x < y \<longleftrightarrow> x \<le> y \<and> \<not> y \<le> x" and "x \<le> x" and "x \<le> y \<Longrightarrow> y \<le> z \<Longrightarrow> x \<le> z"
    and "x \<le> y \<Longrightarrow> y \<le> x \<Longrightarrow> x = y" and "x \<le> y \<or> y \<le> x"
    by (cases x; cases y; cases z; auto simp: d split: if_splits)+
qed

end

section \<open>Data and operations\<close>

record PositionChange =
  pc_PubID :: string
  pc_Position :: string
  pc_At :: u64
  pc_Writer :: string

record posRecord =
  pr_position :: string
  pr_key :: posKey

record ReadingPositions =
  positions :: "(string, posRecord) fmap"
  rp_counter :: u64

record PositionEntry =
  pe_PubID :: string
  pe_Position :: string
  pe_At :: u64

definition laterRecord :: "posRecord \<Rightarrow> posRecord \<Rightarrow> posRecord" where
  "laterRecord a b =
     (if greater (pr_key a) (pr_key b) then a
      else if greater (pr_key b) (pr_key a) then b
      else if pr_position a \<ge> pr_position b then a
      else b)"

definition NewReadingPositions :: ReadingPositions where
  "NewReadingPositions = \<lparr>positions = fmempty, rp_counter = 0\<rparr>"

definition rp_applyOne :: "PositionChange \<Rightarrow> ReadingPositions \<Rightarrow> ReadingPositions" where
  "rp_applyOne c r =
     r\<lparr>positions := upsert laterRecord (pc_PubID c)
         \<lparr>pr_position = pc_Position c, pr_key = PosKey (pc_At c) (pc_Writer c)\<rparr> (positions r),
       rp_counter := (if pc_At c > rp_counter r then pc_At c else rp_counter r)\<rparr>"

definition rp_Apply :: "PositionChange list \<Rightarrow> ReadingPositions \<Rightarrow> ReadingPositions" where
  "rp_Apply changes r = fold rp_applyOne changes r"

definition Set_position :: "string \<Rightarrow> string \<Rightarrow> string \<Rightarrow> ReadingPositions \<Rightarrow> PositionChange \<times> ReadingPositions" where
  "Set_position newPosTag pubID position r =
     (let n = sat_inc (rp_counter r);
          c = \<lparr>pc_PubID = pubID, pc_Position = position, pc_At = n, pc_Writer = newPosTag\<rparr>
      in (c, rp_applyOne c (r\<lparr>rp_counter := n\<rparr>)))"

definition rp_merge_into :: "ReadingPositions \<Rightarrow> ReadingPositions \<Rightarrow> ReadingPositions" where
  "rp_merge_into out r =
     \<lparr>positions = merge_map laterRecord (positions out) (positions r),
      rp_counter = (if rp_counter r > rp_counter out then rp_counter r else rp_counter out)\<rparr>"

definition MergeReadingPositions :: "ReadingPositions option list \<Rightarrow> ReadingPositions" where
  "MergeReadingPositions maps =
     fold (\<lambda>r out. case r of None \<Rightarrow> out | Some r \<Rightarrow> rp_merge_into out r) maps NewReadingPositions"

definition Position :: "string \<Rightarrow> ReadingPositions \<Rightarrow> string option" where
  "Position pubID r =
     (case fmlookup (positions r) pubID of None \<Rightarrow> None | Some rec \<Rightarrow> Some (pr_position rec))"

definition rp_All :: "ReadingPositions \<Rightarrow> PositionEntry list" where
  "rp_All r =
     sort_key pe_PubID (map (\<lambda>(pub, rec).
        \<lparr>pe_PubID = pub, pe_Position = pr_position rec, pe_At = At (pr_key rec)\<rparr>)
        (sorted_list_of_fmap (positions r)))"

record posSnapshotEntry =
  pse_PubID :: string
  pse_Position :: string
  pse_At :: u64
  pse_Writer :: string

record readingSnapshot =
  rs_Positions :: "posSnapshotEntry list"
  rs_Counter :: u64

definition rp_Snapshot :: "ReadingPositions \<Rightarrow> readingSnapshot" where
  "rp_Snapshot r =
     \<lparr>rs_Positions = sort_key pse_PubID (map (\<lambda>(pub, rec).
        \<lparr>pse_PubID = pub, pse_Position = pr_position rec, pse_At = At (pr_key rec),
         pse_Writer = Writer (pr_key rec)\<rparr>) (sorted_list_of_fmap (positions r))),
      rs_Counter = rp_counter r\<rparr>"

definition ReadingPositionsFromSnapshot :: "readingSnapshot \<Rightarrow> ReadingPositions" where
  "ReadingPositionsFromSnapshot snap =
     \<lparr>positions = fold (\<lambda>p m. fmupd (pse_PubID p)
          \<lparr>pr_position = pse_Position p, pr_key = PosKey (pse_At p) (pse_Writer p)\<rparr> m)
          (rs_Positions snap) (positions NewReadingPositions),
      rp_counter = rs_Counter snap\<rparr>"

section \<open>The lattice\<close>

lemma greater_iff: "greater a b \<longleftrightarrow> b < a"
  by (simp add: less_posKey_def)

lemma zeroKey_least: "zeroKey \<le> k"
proof (cases k)
  case (PosKey a w)
  have "[] \<le> w" by (cases w) auto
  then show ?thesis
    using PosKey by (auto simp: zeroKey_def less_eq_posKey_def greater_def word_gt_0 le_less)
qed

lemma max_key_as_code: "(if greater k d then k else d) = max d k"
  by (auto simp: greater_iff max_def)

definition pos_rank :: "posRecord \<Rightarrow> posKey \<times> string" where
  "pos_rank r = (pr_key r, pr_position r)"

lemma inj_pos_rank: "inj pos_rank"
  by (auto simp: inj_def pos_rank_def)

lemma laterRecord_eq: "laterRecord = later_by pos_rank"
  by (intro ext) (auto simp: laterRecord_def later_by_def pos_rank_def greater_iff)

lemma semilattice_laterRecord: "semilattice laterRecord"
  unfolding laterRecord_eq by (rule semilattice_later_by [OF inj_pos_rank])

lemmas rp_defs [crdt_defs] = rp_applyOne_def rp_merge_into_def NewReadingPositions_def max_as_code

interpretation rp: state_crdt rp_applyOne UNIV rp_merge_into NewReadingPositions "\<lambda>_. True"
proof
  note m = semilattice_laws [OF semilattice_merge_map [OF semilattice_laterRecord]]
  note u = upsert_commute [OF semilattice_laterRecord] upsert_idem [OF semilattice_laterRecord]
    upsert_merge_map [OF semilattice_laterRecord]
  show "rp_applyOne c (rp_applyOne d s) = rp_applyOne d (rp_applyOne c s)" for c d s
    unfolding rp_defs by (auto simp: u max.commute max.left_commute)
  show "rp_applyOne c (rp_applyOne c s) = rp_applyOne c s" for c s
    unfolding rp_defs by (auto simp: u)
  show "rp_merge_into (rp_merge_into a b) c = rp_merge_into a (rp_merge_into b c)" for a b c
    unfolding rp_defs by (simp add: m(1) max.assoc)
  show "rp_merge_into a b = rp_merge_into b a" for a b
    unfolding rp_defs by (simp add: m(2) [of "positions a"] max.commute)
  show "rp_merge_into a a = a" for a
    unfolding rp_defs by (simp add: m(3))
  show "rp_merge_into NewReadingPositions a = a" for a
    unfolding rp_defs by simp
  show "rp_merge_into (rp_applyOne c a) b = rp_applyOne c (rp_merge_into a b)" for c a b
    unfolding rp_defs by (auto simp: u max.commute max.left_commute)
qed simp_all

lemma MergeReadingPositions_somes:
  "MergeReadingPositions xs = fold (\<lambda>s out. rp_merge_into out s) (somes xs) NewReadingPositions"
  by (simp add: MergeReadingPositions_def fold_somes)

lemma posRecord_eta [simp]: "\<lparr>pr_position = pr_position r, pr_key = pr_key r\<rparr> = r"
  by (cases r) simp

lemma FromSnapshot_rp_Snapshot: "ReadingPositionsFromSnapshot (rp_Snapshot r) = r"
proof -
  let ?f = "\<lambda>(pub, rec). \<lparr>pse_PubID = pub, pse_Position = pr_position rec, pse_At = At (pr_key rec),
         pse_Writer = Writer (pr_key rec)\<rparr>"
  have tag: "pse_PubID \<circ> ?f = fst" by (auto simp: fun_eq_iff)
  have "rs_Positions (rp_Snapshot r) = map ?f (sorted_list_of_fmap (positions r))"
    by (simp add: rp_Snapshot_def sort_key_map_sorted tag)
  moreover have "(\<lambda>p m. fmupd (pse_PubID p)
          \<lparr>pr_position = pse_Position p, pr_key = PosKey (pse_At p) (pse_Writer p)\<rparr> m) \<circ> ?f =
      (\<lambda>(k, v). fmupd k v)"
    by (auto simp: fun_eq_iff)
  ultimately have "positions (ReadingPositionsFromSnapshot (rp_Snapshot r)) = positions r"
    by (simp add: ReadingPositionsFromSnapshot_def fold_map NewReadingPositions_def fold_fmupd_sorted)
  moreover have "rp_counter (ReadingPositionsFromSnapshot (rp_Snapshot r)) = rp_counter r"
    by (simp add: ReadingPositionsFromSnapshot_def rp_Snapshot_def)
  ultimately show ?thesis by simp
qed

interpretation rp_snap: snapshot_crdt rp_applyOne UNIV rp_Snapshot ReadingPositionsFromSnapshot "\<lambda>_. True"
  by unfold_locales (simp_all add: FromSnapshot_rp_Snapshot)

section \<open>The register holds the greatest write\<close>

definition change_rank :: "PositionChange \<Rightarrow> posKey \<times> string" where
  "change_rank c = (PosKey (pc_At c) (pc_Writer c), pc_Position c)"

lemma rank_laterRecord: "pos_rank (laterRecord a b) = max (pos_rank a) (pos_rank b)"
  by (auto simp: laterRecord_eq later_by_def max_def)

lemma rp_register:
  "map_option pos_rank (fmlookup (positions (rp_Apply cs NewReadingPositions)) pub) =
   (if \<exists>c\<in>set cs. pc_PubID c = pub then Some (Max (change_rank ` {c \<in> set cs. pc_PubID c = pub}))
    else None)"
proof (induction cs rule: rev_induct)
  case Nil
  then show ?case by (simp add: rp_Apply_def NewReadingPositions_def)
next
  case (snoc c cs)
  let ?S = "change_rank ` {c \<in> set cs. pc_PubID c = pub}"
  let ?old = "fmlookup (positions (rp_Apply cs NewReadingPositions)) pub"
  have new: "fmlookup (positions (rp_Apply (cs @ [c]) NewReadingPositions)) pub =
      (if pc_PubID c = pub
       then join_opt laterRecord ?old
         (Some \<lparr>pr_position = pc_Position c, pr_key = PosKey (pc_At c) (pc_Writer c)\<rparr>)
       else ?old)"
    by (auto simp: rp_Apply_def rp_applyOne_def)
  have eq: "change_rank ` {d \<in> set (cs @ [c]). pc_PubID d = pub} =
      (if pc_PubID c = pub then insert (change_rank c) ?S else ?S)" by auto
  show ?case
  proof (cases "pc_PubID c = pub")
    case False
    with snoc new show ?thesis unfolding eq by auto
  next
    case True
    show ?thesis
    proof (cases "?S = {}")
      case True
      then have "?old = None" using snoc by (auto split: if_splits)
      with \<open>pc_PubID c = pub\<close> new True show ?thesis
        unfolding eq True by (auto simp: pos_rank_def change_rank_def)
    next
      case False
      then have "map_option pos_rank ?old = Some (Max ?S)" using snoc by auto
      then obtain r where r: "?old = Some r" "pos_rank r = Max ?S" by auto
      have "Max (insert (change_rank c) ?S) = max (Max ?S) (change_rank c)"
        using False by (simp add: max.commute)
      with r \<open>pc_PubID c = pub\<close> new show ?thesis
        unfolding eq by (simp add: rank_laterRecord) (simp add: pos_rank_def change_rank_def)
    qed
  qed
qed

text \<open>The clock of a folded log is at or past every write.\<close>

lemma rp_clock_bound:
  "fmlookup (positions (rp_Apply cs NewReadingPositions)) q = Some rec \<Longrightarrow>
   At (pr_key rec) \<le> rp_counter (rp_Apply cs NewReadingPositions)"
proof (induction cs arbitrary: q rec rule: rev_induct)
  case Nil
  then show ?case by (simp add: rp_Apply_def NewReadingPositions_def)
next
  case (snoc c cs)
  have choice: "laterRecord a b = a \<or> laterRecord a b = b" for a b by (simp add: laterRecord_def)
  let ?s = "rp_Apply cs NewReadingPositions"
  have "rp_counter ?s \<le> rp_counter (rp_Apply (cs @ [c]) NewReadingPositions)"
    "pc_At c \<le> rp_counter (rp_Apply (cs @ [c]) NewReadingPositions)"
    by (auto simp: rp_Apply_def rp_applyOne_def)
  moreover have "fmlookup (positions ?s) q = Some rec \<or> At (pr_key rec) = pc_At c"
    using snoc.prems join_opt_choice [OF _ choice]
    by (fastforce simp: rp_Apply_def rp_applyOne_def split: if_splits)
  ultimately show ?case using snoc.IH by fastforce
qed

section \<open>Properties\<close>

text \<open>Convergence of reading positions: any order and multiplicity of the same writes gives the
  same map, merging agrees with folding and depends only on which maps are merged, and a snapshot
  plus the tail of the log is the whole log.\<close>

theorem reading_convergence:
  assumes "set cs = set ds" and "set xs - {None} = set ys - {None}"
  shows "rp_Apply cs s = rp_Apply ds s \<and>
    MergeReadingPositions [Some (rp_Apply cs NewReadingPositions), Some (rp_Apply es NewReadingPositions)] =
      rp_Apply (cs @ es) NewReadingPositions \<and>
    MergeReadingPositions xs = MergeReadingPositions ys \<and>
    rp_Apply es (ReadingPositionsFromSnapshot (rp_Snapshot (rp_Apply cs s))) = rp_Apply (es @ ds) s"
proof (intro conjI)
  show "rp_Apply cs s = rp_Apply ds s"
    unfolding rp_Apply_def by (rule rp.convergence) (simp_all add: assms(1))
  show "MergeReadingPositions [Some (rp_Apply cs NewReadingPositions), Some (rp_Apply es NewReadingPositions)] =
      rp_Apply (cs @ es) NewReadingPositions"
    using rp.merge_logs [of cs es]
    by (simp add: MergeReadingPositions_somes somes_def rp_Apply_def rp.merge_init)
  show "MergeReadingPositions xs = MergeReadingPositions ys"
    unfolding MergeReadingPositions_somes
    by (rule rp.merge_all_set) (simp_all add: list_all_iff set_somes_eq [OF assms(2)])
  show "rp_Apply es (ReadingPositionsFromSnapshot (rp_Snapshot (rp_Apply cs s))) = rp_Apply (es @ ds) s"
    unfolding rp_Apply_def using assms(1) by (intro rp_snap.snapshot_tail) auto
qed

text \<open>The register is last-writer-wins. After folding any log, the record of a publication is
  the write to it with the greatest (At, Writer, position), and there is none exactly when no write
  named the publication; and a local write made with an unsaturated clock over a log is the position
  read next, leaving every other publication as it was.\<close>

theorem reading_last_writer_wins:
  assumes "rp_counter (rp_Apply cs NewReadingPositions) < max_u64"
  shows "map_option pos_rank (fmlookup (positions (rp_Apply cs NewReadingPositions)) pub) =
    (if \<exists>c\<in>set cs. pc_PubID c = pub then Some (Max (change_rank ` {c \<in> set cs. pc_PubID c = pub})) else None) \<and>
    Position p (snd (Set_position tag pub pos (rp_Apply cs NewReadingPositions))) =
    (if p = pub then Some pos else Position p (rp_Apply cs NewReadingPositions))"
proof (intro conjI rp_register)
  let ?r = "rp_Apply cs NewReadingPositions"
  have new: "join_opt laterRecord (fmlookup (positions ?r) pub)
      (Some \<lparr>pr_position = pos, pr_key = PosKey (sat_inc (rp_counter ?r)) tag\<rparr>) =
      Some \<lparr>pr_position = pos, pr_key = PosKey (sat_inc (rp_counter ?r)) tag\<rparr>"
  proof (cases "fmlookup (positions ?r) pub")
    case None
    then show ?thesis by simp
  next
    case (Some rec)
    with rp_clock_bound have "At (pr_key rec) < sat_inc (rp_counter ?r)"
      using sat_inc_gt [OF assms] by fastforce
    with Some show ?thesis by (auto simp: laterRecord_def greater_def)
  qed
  show "Position p (snd (Set_position tag pub pos ?r)) = (if p = pub then Some pos else Position p ?r)"
    by (simp add: Position_def Set_position_def Let_def rp_applyOne_def new)
qed

section \<open>Witnesses\<close>

definition ex_pos1 :: PositionChange where
  "ex_pos1 = \<lparr>pc_PubID = ''book'', pc_Position = ''p10'', pc_At = 1, pc_Writer = ''w1''\<rparr>"

definition ex_pos2 :: PositionChange where
  "ex_pos2 = \<lparr>pc_PubID = ''book'', pc_Position = ''p20'', pc_At = 1, pc_Writer = ''w2''\<rparr>"

theorem reading_convergence_witness:
  "rp_Apply [ex_pos1, ex_pos2] NewReadingPositions = rp_Apply [ex_pos2, ex_pos1, ex_pos1] NewReadingPositions \<and>
   Position ''book'' (rp_Apply [ex_pos2, ex_pos1] NewReadingPositions) = Some ''p20''"
proof -
  have "Position ''book'' (rp_Apply [ex_pos2, ex_pos1] NewReadingPositions) = Some ''p20''" by code_simp
  moreover have "set [ex_pos1, ex_pos2] = set [ex_pos2, ex_pos1, ex_pos1]" by auto
  ultimately show ?thesis
    using reading_convergence [of "[ex_pos1, ex_pos2]" "[ex_pos2, ex_pos1, ex_pos1]" "[]" "[]" NewReadingPositions "[]"]
    by blast
qed

theorem reading_last_writer_wins_witness:
  "Position ''book'' (snd (Set_position ''w9'' ''book'' ''p30'' (rp_Apply [ex_pos1, ex_pos2] NewReadingPositions))) =
   Some ''p30''"
proof -
  have "rp_counter (rp_Apply [ex_pos1, ex_pos2] NewReadingPositions) < max_u64" by code_simp
  then show ?thesis
    using reading_last_writer_wins [of "[ex_pos1, ex_pos2]" "''book''" "''book''" "''w9''" "''p30''"] by simp
qed

end
