(* ===== verification/History.thy ===== *)
theory History
  imports Crdt_Core
begin

text \<open>
  \<^verbatim>\<open>internal/personalstate/crdt/history.go\<close> and \<^verbatim>\<open>history_snapshot.go\<close>: the play history, a
  grow-only set of play events. \<open>newPlayTag\<close> is an argument of \<open>Record_play\<close>. The derived views
  (\<open>Count\<close>, \<open>Recent\<close>, \<open>Frequent\<close>, \<open>NowPlaying\<close>) are loops over the event map and are shown to be
  functions of the event set.
\<close>

section \<open>Data and operations\<close>

record PlayChange =
  ply_ItemID :: string
  ply_Tag :: string
  ply_At :: u64

record playRecord =
  ply_itemID :: string
  ply_at :: u64

record PlayLog =
  events :: "(string, playRecord) fmap"
  ply_counter :: u64

record PlayEntry =
  pl_ID :: string
  pl_Count :: nat
  pl_LastAt :: u64

definition lesserPlay :: "playRecord \<Rightarrow> playRecord \<Rightarrow> playRecord" where
  "lesserPlay a b =
     (if ply_itemID a \<noteq> ply_itemID b then (if ply_itemID a < ply_itemID b then a else b)
      else if ply_at a \<noteq> ply_at b then (if ply_at a < ply_at b then a else b)
      else a)"

definition NewPlayLog :: PlayLog where
  "NewPlayLog = \<lparr>events = fmempty, ply_counter = 0\<rparr>"

definition ply_applyOne :: "PlayChange \<Rightarrow> PlayLog \<Rightarrow> PlayLog" where
  "ply_applyOne c l =
     l\<lparr>events := upsert lesserPlay (ply_Tag c) \<lparr>ply_itemID = ply_ItemID c, ply_at = ply_At c\<rparr> (events l),
       ply_counter := (if ply_At c > ply_counter l then ply_At c else ply_counter l)\<rparr>"

definition ply_Apply :: "PlayChange list \<Rightarrow> PlayLog \<Rightarrow> PlayLog" where
  "ply_Apply changes l = fold ply_applyOne changes l"

definition Record_play :: "string \<Rightarrow> string \<Rightarrow> PlayLog \<Rightarrow> PlayChange \<times> PlayLog" where
  "Record_play newPlayTag item l =
     (let n = sat_inc (ply_counter l);
          c = \<lparr>ply_ItemID = item, ply_Tag = newPlayTag, ply_At = n\<rparr>
      in (c, ply_applyOne c (l\<lparr>ply_counter := n\<rparr>)))"

definition ply_merge_into :: "PlayLog \<Rightarrow> PlayLog \<Rightarrow> PlayLog" where
  "ply_merge_into out l =
     \<lparr>events = merge_map lesserPlay (events out) (events l),
      ply_counter = (if ply_counter l > ply_counter out then ply_counter l else ply_counter out)\<rparr>"

definition MergePlayLogs :: "PlayLog option list \<Rightarrow> PlayLog" where
  "MergePlayLogs logs =
     fold (\<lambda>l out. case l of None \<Rightarrow> out | Some l \<Rightarrow> ply_merge_into out l) logs NewPlayLog"

definition Clone :: "PlayLog \<Rightarrow> PlayLog" where
  "Clone l = MergePlayLogs [Some l]"

definition Count :: "string \<Rightarrow> PlayLog \<Rightarrow> nat" where
  "Count item l =
     fold (\<lambda>(tag, rec) n. if ply_itemID rec = item then n + 1 else n) (sorted_list_of_fmap (events l)) 0"

definition perItem_step :: "string \<times> playRecord \<Rightarrow> (string, PlayEntry) fmap \<Rightarrow> (string, PlayEntry) fmap" where
  "perItem_step ev byItem =
     (case ev of (tag, rec) \<Rightarrow>
        (case fmlookup byItem (ply_itemID rec) of
           None \<Rightarrow> fmupd (ply_itemID rec) \<lparr>pl_ID = ply_itemID rec, pl_Count = 1, pl_LastAt = ply_at rec\<rparr> byItem
         | Some e \<Rightarrow> fmupd (ply_itemID rec)
             (e\<lparr>pl_Count := pl_Count e + 1,
                pl_LastAt := (if ply_at rec > pl_LastAt e then ply_at rec else pl_LastAt e)\<rparr>) byItem))"

definition perItem_via :: "(string \<times> playRecord) list \<Rightarrow> (string, PlayEntry) fmap" where
  "perItem_via es = fold perItem_step es fmempty"

definition perItem :: "PlayLog \<Rightarrow> (string, PlayEntry) fmap" where
  "perItem l = perItem_via (sorted_list_of_fmap (events l))"

definition entriesOf :: "(string, PlayEntry) fmap \<Rightarrow> PlayEntry list" where
  "entriesOf byItem = map snd (sorted_list_of_fmap byItem)"

definition recent_less :: "PlayEntry \<Rightarrow> PlayEntry \<Rightarrow> bool" where
  "recent_less a b = (if pl_LastAt a \<noteq> pl_LastAt b then pl_LastAt a > pl_LastAt b else pl_ID a < pl_ID b)"

definition frequent_less :: "PlayEntry \<Rightarrow> PlayEntry \<Rightarrow> bool" where
  "frequent_less a b =
     (if pl_Count a \<noteq> pl_Count b then pl_Count a > pl_Count b
      else if pl_LastAt a \<noteq> pl_LastAt b then pl_LastAt a > pl_LastAt b
      else pl_ID a < pl_ID b)"

text \<open>Sort keys that the two comparison functions order by.\<close>

definition recent_key :: "PlayEntry \<Rightarrow> u64 \<times> string" where
  "recent_key e = (max_u64 - pl_LastAt e, pl_ID e)"

definition frequent_key :: "PlayEntry \<Rightarrow> int \<times> u64 \<times> string" where
  "frequent_key e = (- int (pl_Count e), max_u64 - pl_LastAt e, pl_ID e)"

definition Recent :: "PlayLog \<Rightarrow> PlayEntry list" where
  "Recent l = sort_key recent_key (entriesOf (perItem l))"

definition Frequent :: "PlayLog \<Rightarrow> PlayEntry list" where
  "Frequent l = sort_key frequent_key (entriesOf (perItem l))"

definition now_step :: "string \<times> playRecord \<Rightarrow> (string \<times> string \<times> u64) option \<Rightarrow> (string \<times> string \<times> u64) option" where
  "now_step ev best =
     (case ev of (tag, rec) \<Rightarrow>
        (case best of
           None \<Rightarrow> Some (tag, ply_itemID rec, ply_at rec)
         | Some (bestTag, bestItem, bestAt) \<Rightarrow>
             if ply_at rec > bestAt \<or> ply_at rec = bestAt \<and> tag > bestTag
             then Some (tag, ply_itemID rec, ply_at rec) else best))"

definition NowPlaying_via :: "(string \<times> playRecord) list \<Rightarrow> string option" where
  "NowPlaying_via es = map_option (\<lambda>(tag, item, at). item) (fold now_step es None)"

definition NowPlaying :: "PlayLog \<Rightarrow> string option" where
  "NowPlaying l = NowPlaying_via (sorted_list_of_fmap (events l))"

record playSnapshotEvent =
  pse_ev_Tag :: string
  pse_ev_ItemID :: string
  pse_ev_At :: u64

record playLogSnapshot =
  pls_Events :: "playSnapshotEvent list"
  pls_Counter :: u64

definition ply_Snapshot :: "PlayLog \<Rightarrow> playLogSnapshot" where
  "ply_Snapshot l =
     \<lparr>pls_Events = sort_key pse_ev_Tag (map (\<lambda>(tag, rec).
         \<lparr>pse_ev_Tag = tag, pse_ev_ItemID = ply_itemID rec, pse_ev_At = ply_at rec\<rparr>)
         (sorted_list_of_fmap (events l))),
      pls_Counter = ply_counter l\<rparr>"

definition PlayLogFromSnapshot :: "playLogSnapshot \<Rightarrow> PlayLog" where
  "PlayLogFromSnapshot snap =
     \<lparr>events = fold (\<lambda>e m. fmupd (pse_ev_Tag e) \<lparr>ply_itemID = pse_ev_ItemID e, ply_at = pse_ev_At e\<rparr> m)
         (pls_Events snap) (events NewPlayLog),
      ply_counter = pls_Counter snap\<rparr>"

section \<open>The lattice\<close>

lemma lesserPlay_eq: "lesserPlay = lesser_by (\<lambda>r. (ply_itemID r, ply_at r))"
  by (intro ext) (auto simp: lesserPlay_def lesser_by_def)

lemma semilattice_lesserPlay: "semilattice lesserPlay"
  unfolding lesserPlay_eq by (rule semilattice_lesser_by) (auto simp: inj_def)

lemmas ply_defs [crdt_defs] = ply_applyOne_def ply_merge_into_def NewPlayLog_def max_as_code

interpretation ply: state_crdt ply_applyOne UNIV ply_merge_into NewPlayLog "\<lambda>_. True"
proof
  note m = semilattice_laws [OF semilattice_merge_map [OF semilattice_lesserPlay]]
  note u = upsert_commute [OF semilattice_lesserPlay] upsert_idem [OF semilattice_lesserPlay]
    upsert_merge_map [OF semilattice_lesserPlay]
  show "ply_applyOne c (ply_applyOne d s) = ply_applyOne d (ply_applyOne c s)" for c d s
    unfolding ply_defs by (auto simp: u max.commute max.left_commute)
  show "ply_applyOne c (ply_applyOne c s) = ply_applyOne c s" for c s
    unfolding ply_defs by (auto simp: u)
  show "ply_merge_into (ply_merge_into a b) c = ply_merge_into a (ply_merge_into b c)" for a b c
    unfolding ply_defs by (simp add: m(1) max.assoc)
  show "ply_merge_into a b = ply_merge_into b a" for a b
    unfolding ply_defs by (simp add: m(2) [of "events a"] max.commute)
  show "ply_merge_into a a = a" for a
    unfolding ply_defs by (simp add: m(3))
  show "ply_merge_into NewPlayLog a = a" for a
    unfolding ply_defs by simp
  show "ply_merge_into (ply_applyOne c a) b = ply_applyOne c (ply_merge_into a b)" for c a b
    unfolding ply_defs by (auto simp: u max.commute max.left_commute)
qed simp_all

lemma MergePlayLogs_somes: "MergePlayLogs xs = fold (\<lambda>s out. ply_merge_into out s) (somes xs) NewPlayLog"
  by (simp add: MergePlayLogs_def fold_somes)

lemma playRecord_eta [simp]: "\<lparr>ply_itemID = ply_itemID r, ply_at = ply_at r\<rparr> = r"
  by (cases r) simp

lemma FromSnapshot_ply_Snapshot: "PlayLogFromSnapshot (ply_Snapshot l) = l"
proof -
  let ?f = "\<lambda>(tag, rec). \<lparr>pse_ev_Tag = tag, pse_ev_ItemID = ply_itemID rec, pse_ev_At = ply_at rec\<rparr>"
  have tag: "pse_ev_Tag \<circ> ?f = fst" by (auto simp: fun_eq_iff)
  have "pls_Events (ply_Snapshot l) = map ?f (sorted_list_of_fmap (events l))"
    by (simp add: ply_Snapshot_def sort_key_map_sorted tag)
  moreover have "(\<lambda>e m. fmupd (pse_ev_Tag e) \<lparr>ply_itemID = pse_ev_ItemID e, ply_at = pse_ev_At e\<rparr> m) \<circ> ?f =
      (\<lambda>(k, v). fmupd k v)"
    by (auto simp: fun_eq_iff)
  ultimately have "events (PlayLogFromSnapshot (ply_Snapshot l)) = events l"
    by (simp add: PlayLogFromSnapshot_def fold_map NewPlayLog_def fold_fmupd_sorted)
  moreover have "ply_counter (PlayLogFromSnapshot (ply_Snapshot l)) = ply_counter l"
    by (simp add: PlayLogFromSnapshot_def ply_Snapshot_def)
  ultimately show ?thesis by simp
qed

interpretation ply_snap: snapshot_crdt ply_applyOne UNIV ply_Snapshot PlayLogFromSnapshot "\<lambda>_. True"
  by unfold_locales (simp_all add: FromSnapshot_ply_Snapshot)

section \<open>The derived views\<close>

text \<open>The play events of an item.\<close>

definition plays_of :: "PlayLog \<Rightarrow> string \<Rightarrow> (string \<times> u64) set" where
  "plays_of l i = {(tag, ply_at rec) |tag rec. fmlookup (events l) tag = Some rec \<and> ply_itemID rec = i}"

lemma fmlookup_perItem_list:
  "fmlookup (perItem_via es) i =
     (let fs = filter (\<lambda>ev. ply_itemID (snd ev) = i) es in
      if fs = [] then None
      else Some \<lparr>pl_ID = i, pl_Count = length fs, pl_LastAt = Max ((\<lambda>ev. ply_at (snd ev)) ` set fs)\<rparr>)"
proof (induction es rule: rev_induct)
  case Nil
  then show ?case by (simp add: perItem_via_def)
next
  case (snoc ev es)
  obtain tag rec where ev: "ev = (tag, rec)" by (cases ev)
  let ?fs = "filter (\<lambda>ev. ply_itemID (snd ev) = i) es"
  have step: "perItem_via (es @ [ev]) = perItem_step (tag, rec) (perItem_via es)"
    by (simp add: perItem_via_def ev)
  show ?case
  proof (cases "ply_itemID rec = i")
    case False
    with snoc show ?thesis
      unfolding step by (auto simp: ev perItem_step_def Let_def split: option.splits)
  next
    case True
    show ?thesis
    proof (cases "?fs = []")
      case True
      with snoc \<open>ply_itemID rec = i\<close> show ?thesis
        unfolding step by (simp add: ev perItem_step_def Let_def)
    next
      case False
      then have "Max (insert (ply_at rec) ((\<lambda>ev. ply_at (snd ev)) ` set ?fs)) =
          max (Max ((\<lambda>ev. ply_at (snd ev)) ` set ?fs)) (ply_at rec)"
        by (subst Max_insert) (simp_all add: max.commute del: set_filter)
      with False snoc \<open>ply_itemID rec = i\<close> show ?thesis
        unfolding step by (simp add: ev perItem_step_def Let_def max_as_code del: set_filter Max_less_iff)
    qed
  qed
qed

lemma filter_plays:
  assumes "enumerates es (events l)"
  shows "(\<lambda>ev. (fst ev, ply_at (snd ev))) ` set (filter (\<lambda>ev. ply_itemID (snd ev) = i) es) = plays_of l i"
proof -
  have "x \<in> (\<lambda>ev. (fst ev, ply_at (snd ev))) ` set (filter (\<lambda>ev. ply_itemID (snd ev) = i) es) \<longleftrightarrow>
      (\<exists>rec. (fst x, rec) \<in> set es \<and> ply_itemID rec = i \<and> snd x = ply_at rec)" for x
    by (cases x) (auto simp: image_iff)
  then show ?thesis
    unfolding enumerates_mem [OF assms] by (intro set_eqI) (auto simp: plays_of_def simp del: set_filter)
qed

lemma length_filter_plays:
  assumes "enumerates es (events l)"
  shows "length (filter (\<lambda>ev. ply_itemID (snd ev) = i) es) = card (plays_of l i)"
proof -
  let ?fs = "filter (\<lambda>ev. ply_itemID (snd ev) = i) es"
  have "inj_on (\<lambda>ev. (fst ev, ply_at (snd ev))) (set ?fs)"
  proof (rule inj_onI)
    fix x y
    assume "x \<in> set ?fs" "y \<in> set ?fs" "(fst x, ply_at (snd x)) = (fst y, ply_at (snd y))"
    then have xy: "x \<in> set es" "y \<in> set es" and f: "fst x = fst y" by auto
    have "(fst x, snd x) \<in> set es" "(fst y, snd y) \<in> set es" using xy by (simp_all only: prod.collapse)
    with f have "snd x = snd y" unfolding enumerates_mem [OF assms] by simp
    with f show "x = y" by (simp add: prod_eq_iff)
  qed
  then have "card (plays_of l i) = card (set ?fs)"
    unfolding filter_plays [OF assms, symmetric] by (rule card_image)
  moreover have "card (set ?fs) = length ?fs"
    by (rule distinct_card) (simp add: enumerates_distinct [OF assms])
  ultimately show ?thesis by simp
qed

lemma fmlookup_perItem:
  assumes "enumerates es (events l)"
  shows "fmlookup (perItem_via es) i =
    (if plays_of l i = {} then None
     else Some \<lparr>pl_ID = i, pl_Count = card (plays_of l i), pl_LastAt = Max (snd ` plays_of l i)\<rparr>)"
proof -
  let ?fs = "filter (\<lambda>ev. ply_itemID (snd ev) = i) es"
  have "?fs = [] \<longleftrightarrow> plays_of l i = {}"
    unfolding filter_plays [OF assms, symmetric] by (simp del: set_filter)
  moreover have "(\<lambda>ev. ply_at (snd ev)) ` set ?fs = snd ` plays_of l i"
    unfolding filter_plays [OF assms, symmetric] by (simp add: image_image del: set_filter)
  ultimately show ?thesis
    by (simp add: fmlookup_perItem_list Let_def length_filter_plays [OF assms] del: set_filter)
qed

lemma Count_card: "Count i l = card (plays_of l i)"
proof -
  have "fold (\<lambda>(tag, rec) n. if ply_itemID rec = i then n + 1 else n) es k =
      k + length (filter (\<lambda>ev. ply_itemID (snd ev) = i) es)" for es :: "(string \<times> playRecord) list" and k
    by (induction es arbitrary: k) (auto split: prod.splits)
  then show ?thesis
    by (simp add: Count_def length_filter_plays [OF enumerates_sorted])
qed

lemma mem_entriesOf:
  "e \<in> set (entriesOf (perItem l)) \<longleftrightarrow>
   plays_of l (pl_ID e) \<noteq> {} \<and> pl_Count e = card (plays_of l (pl_ID e)) \<and>
   pl_LastAt e = Max (snd ` plays_of l (pl_ID e))"
proof -
  have "e \<in> set (entriesOf (perItem l)) \<longleftrightarrow> (\<exists>i. fmlookup (perItem l) i = Some e)"
    unfolding set_sorted_list_of_fmap [symmetric] by (force simp: entriesOf_def)
  also have "\<dots> \<longleftrightarrow> plays_of l (pl_ID e) \<noteq> {} \<and> pl_Count e = card (plays_of l (pl_ID e)) \<and>
      pl_LastAt e = Max (snd ` plays_of l (pl_ID e))"
    unfolding perItem_def fmlookup_perItem [OF enumerates_sorted]
    by (cases e) (auto split: if_splits intro: exI [of _ "pl_ID e"])
  finally show ?thesis .
qed

lemma recent_less_key: "recent_less = (\<lambda>a b. recent_key a < recent_key b)"
  by (intro ext) (auto simp: recent_less_def recent_key_def rev_u64 rev_u64_le)

lemma frequent_less_key: "frequent_less = (\<lambda>a b. frequent_key a < frequent_key b)"
  by (intro ext) (auto simp: frequent_less_def frequent_key_def rev_u64 rev_u64_le)

lemma now_step_Some:
  "now_step (t, r) (Some (tag, item, at)) =
     (if (at, tag) < (ply_at r, t) then Some (t, ply_itemID r, ply_at r) else Some (tag, item, at))"
  by (auto simp: now_step_def)

lemma now_fold:
  assumes "distinct (map fst es)" and "es \<noteq> []"
  shows "\<exists>tag rec. (tag, rec) \<in> set es \<and> fold now_step es None = Some (tag, ply_itemID rec, ply_at rec) \<and>
    (\<forall>(tag', rec') \<in> set es. (ply_at rec', tag') \<le> (ply_at rec, tag))"
  using assms
proof (induction es rule: rev_induct)
  case Nil
  then show ?case by simp
next
  case (snoc ev es)
  obtain t r where ev: "ev = (t, r)" by (cases ev)
  show ?case
  proof (cases "es = []")
    case True
    then show ?thesis by (auto simp: ev now_step_def)
  next
    case False
    with snoc obtain tag rec where IH: "(tag, rec) \<in> set es"
      "fold now_step es None = Some (tag, ply_itemID rec, ply_at rec)"
      "\<forall>(tag', rec') \<in> set es. (ply_at rec', tag') \<le> (ply_at rec, tag)" by auto
    show ?thesis
    proof (cases "(ply_at rec, tag) < (ply_at r, t)")
      case True
      have "(ply_at rec', tag') \<le> (ply_at r, t)" if "(tag', rec') \<in> set es" for tag' rec'
        using IH(3) that True by (metis (no_types, lifting) case_prodD order.trans less_imp_le)
      moreover have "fold now_step (es @ [ev]) None = Some (t, ply_itemID r, ply_at r)"
        using IH(2) True by (simp add: ev now_step_Some del: less_prod_simp)
      ultimately show ?thesis
        by (intro exI [of _ t] exI [of _ r]) (auto simp: ev)
    next
      case False
      then show ?thesis
        using IH by (intro exI [of _ tag] exI [of _ rec]) (auto simp: ev now_step_Some not_less simp del: less_prod_simp less_eq_prod_simp)
    qed
  qed
qed

lemma NowPlaying_iff:
  assumes "enumerates es (events l)"
  shows "NowPlaying_via es = Some i \<longleftrightarrow>
    (\<exists>tag at. (tag, at) \<in> plays_of l i \<and> (\<forall>j. \<forall>(tag', at') \<in> plays_of l j. (at', tag') \<le> (at, tag)))"
    (is "?L \<longleftrightarrow> ?R")
proof
  have d: "distinct (map fst es)" using assms by (simp add: enumerates_def)
  {
    assume ?L
    then have "es \<noteq> []" by (auto simp: NowPlaying_via_def)
    then obtain tag rec where r: "(tag, rec) \<in> set es"
      "fold now_step es None = Some (tag, ply_itemID rec, ply_at rec)"
      "\<forall>(tag', rec') \<in> set es. (ply_at rec', tag') \<le> (ply_at rec, tag)"
      using now_fold [OF d] by blast
    with \<open>?L\<close> have "(tag, ply_at rec) \<in> plays_of l i"
      by (auto simp: NowPlaying_via_def plays_of_def enumerates_mem [OF assms])
    moreover have "\<forall>j. \<forall>(tag', at') \<in> plays_of l j. (at', tag') \<le> (ply_at rec, tag)"
      using r(3) enumerates_mem [OF assms] by (fastforce simp: plays_of_def)
    ultimately show ?R by blast
  }
  assume ?R
  then obtain tag rec where r: "fmlookup (events l) tag = Some rec" "ply_itemID rec = i"
    and top: "\<forall>j. \<forall>(tag', at') \<in> plays_of l j. (at', tag') \<le> (ply_at rec, tag)"
    by (auto simp: plays_of_def)
  then have mem: "(tag, rec) \<in> set es" by (simp add: enumerates_mem [OF assms])
  then have "es \<noteq> []" by auto
  then obtain tag0 rec0 where r0: "(tag0, rec0) \<in> set es"
      "fold now_step es None = Some (tag0, ply_itemID rec0, ply_at rec0)"
      "\<forall>(tag', rec') \<in> set es. (ply_at rec', tag') \<le> (ply_at rec0, tag0)"
    using now_fold [OF d] by blast
  from r0(1) have "(tag0, ply_at rec0) \<in> plays_of l (ply_itemID rec0)"
    by (auto simp: plays_of_def enumerates_mem [OF assms])
  then have "(ply_at rec0, tag0) \<le> (ply_at rec, tag)"
    using bspec [OF spec [OF top, of "ply_itemID rec0"]] by fastforce
  moreover have "(ply_at rec, tag) \<le> (ply_at rec0, tag0)" using bspec [OF r0(3) mem] by simp
  ultimately have "(ply_at rec0, tag0) = (ply_at rec, tag)" by (rule order.antisym)
  then have "tag0 = tag" by simp
  with r0(1) r(1) have "rec0 = rec" by (simp add: enumerates_mem [OF assms])
  then show ?L using r0(2) r(2) by (simp add: NowPlaying_via_def)
qed

text \<open>Convergence of the play history: any order and multiplicity of the same events gives the
  same log, merging agrees with folding and depends only on which logs are merged, a snapshot plus
  the tail of the log is the whole log, and \<^verbatim>\<open>Clone\<close> copies.\<close>

theorem history_convergence:
  assumes "set cs = set ds" and "set xs - {None} = set ys - {None}"
  shows "ply_Apply cs s = ply_Apply ds s \<and>
    MergePlayLogs [Some (ply_Apply cs NewPlayLog), Some (ply_Apply es NewPlayLog)] = ply_Apply (cs @ es) NewPlayLog \<and>
    MergePlayLogs xs = MergePlayLogs ys \<and>
    ply_Apply es (PlayLogFromSnapshot (ply_Snapshot (ply_Apply cs s))) = ply_Apply (es @ ds) s \<and>
    Clone s = s"
proof (intro conjI)
  show "ply_Apply cs s = ply_Apply ds s"
    unfolding ply_Apply_def by (rule ply.convergence) (simp_all add: assms(1))
  show "MergePlayLogs [Some (ply_Apply cs NewPlayLog), Some (ply_Apply es NewPlayLog)] =
      ply_Apply (cs @ es) NewPlayLog"
    using ply.merge_logs [of cs es]
    by (simp add: MergePlayLogs_somes somes_def ply_Apply_def ply.merge_init)
  show "MergePlayLogs xs = MergePlayLogs ys"
    unfolding MergePlayLogs_somes
    by (rule ply.merge_all_set) (simp_all add: list_all_iff set_somes_eq [OF assms(2)])
  show "ply_Apply es (PlayLogFromSnapshot (ply_Snapshot (ply_Apply cs s))) = ply_Apply (es @ ds) s"
    unfolding ply_Apply_def using assms(1) by (intro ply_snap.snapshot_tail) auto
  show "Clone s = s"
    by (simp add: Clone_def MergePlayLogs_somes somes_def ply.merge_init)
qed

text \<open>The listening views are functions of the event set. For every order in which Go may walk
  the event map, the per-item table is the same, \<^verbatim>\<open>Count\<close> is the number of plays, and \<^verbatim>\<open>NowPlaying\<close>
  is the item of the greatest (At, Tag) event. The lists hold one entry per played item with the
  number of its plays and the counter of the latest, and \<^verbatim>\<open>Recent\<close> and \<^verbatim>\<open>Frequent\<close> are the only
  orders their unstable sorts can produce.\<close>

theorem history_views:
  assumes "enumerates es (events l)"
  shows "perItem_via es = perItem l \<and> Count i l = card (plays_of l i) \<and>
    NowPlaying_via es = NowPlaying l \<and>
    (NowPlaying l = Some i \<longleftrightarrow>
      (\<exists>tag at. (tag, at) \<in> plays_of l i \<and> (\<forall>j. \<forall>(tag', at') \<in> plays_of l j. (at', tag') \<le> (at, tag)))) \<and>
    (e \<in> set (Recent l) \<longleftrightarrow> plays_of l (pl_ID e) \<noteq> {} \<and> pl_Count e = card (plays_of l (pl_ID e)) \<and>
       pl_LastAt e = Max (snd ` plays_of l (pl_ID e))) \<and>
    (sort_slice recent_less (entriesOf (perItem l)) out \<longleftrightarrow> out = Recent l) \<and>
    (sort_slice frequent_less (entriesOf (perItem l)) out \<longleftrightarrow> out = Frequent l)"
proof (intro conjI)
  show "perItem_via es = perItem l"
    unfolding perItem_def
    by (rule fmap_ext) (simp add: fmlookup_perItem [OF assms] fmlookup_perItem [OF enumerates_sorted])
  show "Count i l = card (plays_of l i)" by (rule Count_card)
  show "NowPlaying_via es = NowPlaying l"
    unfolding NowPlaying_def
    by (rule option_eq_some_iff) (simp only: NowPlaying_iff [OF assms] NowPlaying_iff [OF enumerates_sorted])
  show "NowPlaying l = Some i \<longleftrightarrow>
      (\<exists>tag at. (tag, at) \<in> plays_of l i \<and> (\<forall>j. \<forall>(tag', at') \<in> plays_of l j. (at', tag') \<le> (at, tag)))"
    unfolding NowPlaying_def by (rule NowPlaying_iff [OF enumerates_sorted])
  show "e \<in> set (Recent l) \<longleftrightarrow> plays_of l (pl_ID e) \<noteq> {} \<and> pl_Count e = card (plays_of l (pl_ID e)) \<and>
       pl_LastAt e = Max (snd ` plays_of l (pl_ID e))"
    by (simp add: Recent_def mem_entriesOf)
  have inj_r: "inj_on recent_key (set (entriesOf (perItem l)))"
    by (rule inj_onI) (simp add: recent_key_def mem_entriesOf)
  have inj_f: "inj_on frequent_key (set (entriesOf (perItem l)))"
    by (rule inj_onI) (simp add: frequent_key_def mem_entriesOf)
  show "sort_slice recent_less (entriesOf (perItem l)) out \<longleftrightarrow> out = Recent l"
    unfolding recent_less_key Recent_def
    using sort_slice_unique [OF _ inj_r] sort_slice_sort_key by metis
  show "sort_slice frequent_less (entriesOf (perItem l)) out \<longleftrightarrow> out = Frequent l"
    unfolding frequent_less_key Frequent_def
    using sort_slice_unique [OF _ inj_f] sort_slice_sort_key by metis
qed

section \<open>Witnesses\<close>

definition ex_play1 :: PlayChange where
  "ex_play1 = \<lparr>ply_ItemID = ''a'', ply_Tag = ''t1'', ply_At = 1\<rparr>"

definition ex_play2 :: PlayChange where
  "ex_play2 = \<lparr>ply_ItemID = ''b'', ply_Tag = ''t2'', ply_At = 2\<rparr>"

theorem history_convergence_witness:
  "ply_Apply [ex_play1, ex_play2] NewPlayLog = ply_Apply [ex_play2, ex_play1, ex_play2] NewPlayLog \<and>
   NowPlaying (ply_Apply [ex_play2, ex_play1] NewPlayLog) = Some ''b''"
proof -
  have "NowPlaying (ply_Apply [ex_play2, ex_play1] NewPlayLog) = Some ''b''" by code_simp
  moreover have "set [ex_play1, ex_play2] = set [ex_play2, ex_play1, ex_play2]" by auto
  ultimately show ?thesis
    using history_convergence [of "[ex_play1, ex_play2]" "[ex_play2, ex_play1, ex_play2]" "[]" "[]" NewPlayLog "[]"]
    by blast
qed

theorem history_views_witness:
  "NowPlaying_via (rev (sorted_list_of_fmap (events (ply_Apply [ex_play1, ex_play2] NewPlayLog)))) =
     NowPlaying (ply_Apply [ex_play1, ex_play2] NewPlayLog) \<and>
   Recent (ply_Apply [ex_play1, ex_play2] NewPlayLog) =
     [\<lparr>pl_ID = ''b'', pl_Count = 1, pl_LastAt = 2\<rparr>, \<lparr>pl_ID = ''a'', pl_Count = 1, pl_LastAt = 1\<rparr>]"
proof -
  let ?l = "ply_Apply [ex_play1, ex_play2] NewPlayLog"
  have "enumerates (rev (sorted_list_of_fmap (events ?l))) (events ?l)"
    by (rule enumerates_rev [OF enumerates_sorted])
  moreover have "Recent ?l =
     [\<lparr>pl_ID = ''b'', pl_Count = 1, pl_LastAt = 2\<rparr>, \<lparr>pl_ID = ''a'', pl_Count = 1, pl_LastAt = 1\<rparr>]" by code_simp
  ultimately show ?thesis
    using history_views [of "rev (sorted_list_of_fmap (events ?l))" ?l] by blast
qed

end
