(* ===== verification/GoStd.thy ===== *)
theory GoStd
  imports Prelude
begin

text \<open>
  What the components use of Go's standard library beyond maps and sorting: \<^verbatim>\<open>strings.Split\<close> and
  \<^verbatim>\<open>strings.Join\<close> on a one-byte separator, \<^verbatim>\<open>path.Clean\<close> on rooted paths, \<^verbatim>\<open>path.Split\<close>,
  \<^verbatim>\<open>strings.LastIndexByte\<close>, decimal printing (\<^verbatim>\<open>%d\<close>) and signed 64-bit arithmetic.
\<close>

section \<open>Signed 64-bit integers\<close>

text \<open>An \<^verbatim>\<open>int64\<close> is kept as a 64-bit word that is compared and read with its sign.\<close>

type_synonym i64 = "64 word"

abbreviation less_i64 :: "i64 \<Rightarrow> i64 \<Rightarrow> bool" where
  "less_i64 a b \<equiv> sint a < sint b"

text \<open>The integer an \<^verbatim>\<open>int64\<close> computation leaves when the exact result is \<open>n\<close>: reduced modulo
  \<open>2 ^ 64\<close> into the signed range.\<close>

definition wrap64 :: "int \<Rightarrow> int" where
  "wrap64 n = (n + 9223372036854775808) mod 18446744073709551616 - 9223372036854775808"

definition int64_range :: "int \<Rightarrow> bool" where
  "int64_range n \<longleftrightarrow> - 9223372036854775808 \<le> n \<and> n \<le> 9223372036854775807"

lemma wrap64_id: "int64_range n \<Longrightarrow> wrap64 n = n"
  by (auto simp: wrap64_def int64_range_def)

lemma wrap64_range: "int64_range (wrap64 n)"
  using pos_mod_bound [of 18446744073709551616 "n + 9223372036854775808"]
    pos_mod_sign [of 18446744073709551616 "n + 9223372036854775808"]
  by (simp add: wrap64_def int64_range_def)

section \<open>Splitting and joining\<close>

fun split_on :: "char \<Rightarrow> string \<Rightarrow> string list" where
  "split_on c [] = [[]]"
| "split_on c (x # xs) =
     (if x = c then [] # split_on c xs
      else (case split_on c xs of [] \<Rightarrow> [[x]] | y # ys \<Rightarrow> (x # y) # ys))"

fun join_with :: "char \<Rightarrow> string list \<Rightarrow> string" where
  "join_with c [] = []"
| "join_with c [x] = x"
| "join_with c (x # y # xs) = x @ [c] @ join_with c (y # xs)"

lemma split_on_not_Nil [simp]: "split_on c s \<noteq> []"
  by (induction s) (auto split: list.splits)

lemma split_on_no_sep: "x \<in> set (split_on c s) \<Longrightarrow> c \<notin> set x"
  by (induction s arbitrary: x) (auto split: if_splits list.splits)

lemma split_on_single: "c \<notin> set s \<Longrightarrow> split_on c s = [s]"
  by (induction s) auto

lemma split_on_append: "c \<notin> set a \<Longrightarrow> split_on c (a @ c # s) = a # split_on c s"
  by (induction a) auto

lemma join_split [simp]: "join_with c (split_on c s) = s"
proof (induction s)
  case (Cons x xs)
  obtain y ys where "split_on c xs = y # ys" by (cases "split_on c xs") auto
  with Cons show ?case by (cases ys) auto
qed simp

lemma split_join:
  "xs \<noteq> [] \<Longrightarrow> (\<And>x. x \<in> set xs \<Longrightarrow> c \<notin> set x) \<Longrightarrow> split_on c (join_with c xs) = xs"
  by (induction c xs rule: join_with.induct) (auto simp: split_on_single split_on_append)

lemma set_join: "set (join_with c xs) \<subseteq> insert c (\<Union> (set ` set xs))"
  by (induction c xs rule: join_with.induct) auto

section \<open>Paths\<close>

text \<open>\<^verbatim>\<open>path.Clean\<close> on a rooted path: empty and \<^verbatim>\<open>.\<close> elements disappear, \<^verbatim>\<open>..\<close> removes the element
  before it and is dropped at the root. The elements kept so far are a stack, last one first.\<close>

definition clean_step :: "string \<Rightarrow> string list \<Rightarrow> string list" where
  "clean_step e stack =
     (if e = '''' \<or> e = ''.'' then stack else if e = ''..'' then tl stack else e # stack)"

definition clean_elems :: "string list \<Rightarrow> string list" where
  "clean_elems es = rev (fold clean_step es [])"

definition path_Clean_rooted :: "string \<Rightarrow> string" where
  "path_Clean_rooted p = CHR ''/'' # join_with (CHR ''/'') (clean_elems (split_on (CHR ''/'') p))"

definition good_elem :: "string \<Rightarrow> bool" where
  "good_elem e \<longleftrightarrow> e \<noteq> '''' \<and> e \<noteq> ''.'' \<and> e \<noteq> ''..''"

lemma clean_step_set: "set (clean_step e st) \<subseteq> set st \<union> (if good_elem e then {e} else {})"
  by (cases st) (auto simp: clean_step_def good_elem_def)

lemma clean_fold_set: "set (fold clean_step es st) \<subseteq> set st \<union> {e \<in> set es. good_elem e}"
proof (induction es arbitrary: st)
  case (Cons e es)
  show ?case using Cons [of "clean_step e st"] clean_step_set [of e st] by (auto split: if_splits)
qed simp

lemma clean_elems_set: "e \<in> set (clean_elems es) \<Longrightarrow> e \<in> set es \<and> good_elem e"
  using clean_fold_set [of es "[]"] by (auto simp: clean_elems_def)

lemma clean_elems_id: "(\<And>e. e \<in> set es \<Longrightarrow> good_elem e) \<Longrightarrow> clean_elems es = es"
proof -
  assume a: "\<And>e. e \<in> set es \<Longrightarrow> good_elem e"
  have "fold clean_step es st = rev es @ st" for st
    using a by (induction es arbitrary: st) (auto simp: clean_step_def good_elem_def)
  then show ?thesis by (simp add: clean_elems_def)
qed

lemma clean_elems_idem [simp]: "clean_elems (clean_elems es) = clean_elems es"
  by (rule clean_elems_id) (use clean_elems_set in auto)

text \<open>\<^verbatim>\<open>path.Split\<close>: the directory with its final slash, and the last element.\<close>

definition path_Split :: "string \<Rightarrow> string \<times> string" where
  "path_Split p =
     (rev (dropWhile (\<lambda>c. c \<noteq> CHR ''/'') (rev p)), rev (takeWhile (\<lambda>c. c \<noteq> CHR ''/'') (rev p)))"

text \<open>\<^verbatim>\<open>strings.LastIndexByte\<close>; absent is \<^const>\<open>None\<close> where Go returns -1.\<close>

definition LastIndexByte :: "string \<Rightarrow> char \<Rightarrow> nat option" where
  "LastIndexByte s c =
     (let r = dropWhile (\<lambda>x. x \<noteq> c) (rev s) in if r = [] then None else Some (length r - 1))"

section \<open>Decimal printing\<close>

fun dec :: "nat \<Rightarrow> string" where
  "dec n = (if n < 10 then [char_of (48 + n)] else dec (n div 10) @ [char_of (48 + n mod 10)])"

declare dec.simps [simp del]

definition undec :: "string \<Rightarrow> nat" where
  "undec s = fold (\<lambda>c n. 10 * n + (of_char c - 48)) s 0"

lemma undec_dec: "undec (dec n) = n"
proof (induction n rule: dec.induct)
  case (1 n)
  show ?case
  proof (cases "n < 10")
    case True
    then show ?thesis by (simp add: dec.simps [of n] undec_def)
  next
    case False
    then have "undec (dec n) = 10 * undec (dec (n div 10)) + n mod 10"
      by (simp add: dec.simps [of n] undec_def)
    with 1 False show ?thesis by simp
  qed
qed

lemma dec_inj: "dec m = dec n \<longleftrightarrow> m = n"
  by (metis undec_dec)

lemma dec_not_Nil [simp]: "dec n \<noteq> []"
  by (simp add: dec.simps [of n])

definition is_digit :: "char \<Rightarrow> bool" where
  "is_digit c \<longleftrightarrow> 48 \<le> (of_char c :: nat) \<and> (of_char c :: nat) \<le> 57"

lemma dec_digits: "\<forall>c\<in>set (dec n). is_digit c"
proof (induction n rule: dec.induct)
  case (1 n)
  then show ?case by (cases "n < 10") (auto simp: dec.simps [of n] is_digit_def)
qed

lemma dec_no_colon: "CHR '':'' \<notin> set (dec n)"
  using dec_digits [of n] by (auto simp: is_digit_def)

lemma dec_no_minus: "CHR ''-'' \<notin> set (dec n)"
  using dec_digits [of n] by (auto simp: is_digit_def)

text \<open>\<^verbatim>\<open>strconv.FormatInt(n, 10)\<close>, and \<^verbatim>\<open>%d\<close>; \<^verbatim>\<open>%02d\<close> pads to two places.\<close>

definition FormatInt :: "int \<Rightarrow> string" where
  "FormatInt n = (if n < 0 then CHR ''-'' # dec (nat (- n)) else dec (nat n))"

definition Format02 :: "int \<Rightarrow> string" where
  "Format02 n = (if 0 \<le> n \<and> n < 10 then CHR ''0'' # dec (nat n) else FormatInt n)"

lemma FormatInt_inj: "FormatInt a = FormatInt b \<longleftrightarrow> a = b"
proof -
  have "dec n \<noteq> CHR ''-'' # t" "CHR ''-'' # t \<noteq> dec n" for n t
    using dec_no_minus [of n] by (metis list.set_intros(1))+
  then show ?thesis by (auto simp: FormatInt_def dec_inj nat_eq_iff)
qed

text \<open>Go's integer division truncates. On a positive divisor.\<close>

definition go_div :: "int \<Rightarrow> int \<Rightarrow> int" where
  "go_div a b = (if a \<ge> 0 then a div b else - ((- a) div b))"

section \<open>Text\<close>

text \<open>\<^verbatim>\<open>strings.Join\<close> with any separator, and \<^verbatim>\<open>strings.TrimSpace\<close> and \<^verbatim>\<open>strings.ToLower\<close> on ASCII text, the text the
  components apply them to (names of a closed vocabulary).\<close>

fun Join :: "string \<Rightarrow> string list \<Rightarrow> string" where
  "Join sep [] = []"
| "Join sep [x] = x"
| "Join sep (x # y # ys) = x @ sep @ Join sep (y # ys)"

definition is_space :: "char \<Rightarrow> bool" where
  "is_space c \<longleftrightarrow> c \<in> {CHR '' '', CHR 0x09, CHR 0x0A, CHR 0x0B, CHR 0x0C, CHR 0x0D}"

definition TrimSpace :: "string \<Rightarrow> string" where
  "TrimSpace s = rev (dropWhile is_space (rev (dropWhile is_space s)))"

definition lower_char :: "char \<Rightarrow> char" where
  "lower_char c = (if CHR ''A'' \<le> c \<and> c \<le> CHR ''Z'' then char_of ((of_char c :: nat) + 32) else c)"

definition ToLower :: "string \<Rightarrow> string" where
  "ToLower s = map lower_char s"

text \<open>Go strings are UTF-8: the bytes of the em dash and of the section sign.\<close>

definition emdash :: string where
  "emdash = [CHR 0xE2, CHR 0x80, CHR 0x94]"

definition sect :: string where
  "sect = [CHR 0xC2, CHR 0xA7]"

section \<open>sort.SliceStable\<close>

fun insert_by :: "('a \<Rightarrow> 'a \<Rightarrow> bool) \<Rightarrow> 'a \<Rightarrow> 'a list \<Rightarrow> 'a list" where
  "insert_by lt x [] = [x]"
| "insert_by lt x (y # ys) = (if lt y x then y # insert_by lt x ys else x # y # ys)"

definition SliceStable :: "('a \<Rightarrow> 'a \<Rightarrow> bool) \<Rightarrow> 'a list \<Rightarrow> 'a list" where
  "SliceStable lt xs = foldr (insert_by lt) xs []"

lemma SliceStable_sort_key:
  fixes key :: "'a \<Rightarrow> 'k :: linorder"
  assumes "\<And>x y. lt x y \<longleftrightarrow> key x < key y"
  shows "SliceStable lt xs = sort_key key xs"
proof -
  have "insert_by lt x ys = insort_key key x ys" for x ys
    by (induction ys) (auto simp: assms not_less)
  then have "insert_by lt = insort_key key" by (intro ext)
  then show ?thesis by (simp add: SliceStable_def sort_key_def)
qed

text \<open>A list of candidates ordered by preference: the comparison function of the code is the order of a key.
  What its clients use is that the sorted list depends only on which candidates there are when the
  keys are different, and that the first one is preferred to all.\<close>

locale preference =
  fixes lt :: "'a \<Rightarrow> 'a \<Rightarrow> bool" and key :: "'a \<Rightarrow> 'k :: linorder"
  assumes lt_key: "lt x y \<longleftrightarrow> key x < key y"
begin

lemma sorted: "SliceStable lt xs = sort_key key xs"
  by (rule SliceStable_sort_key) (rule lt_key)

lemma any_order: "mset xs = mset ys \<Longrightarrow> inj_on key (set xs) \<Longrightarrow> sort_key key xs = sort_key key ys"
  by (rule sort_key_perm_eq)

lemma strict: "distinct xs \<Longrightarrow> inj_on key (set xs) \<Longrightarrow> sorted_wrt (\<lambda>a b. key a < key b) (sort_key key xs)"
  by (rule sort_key_strict)

lemma first: "sort_key key xs = w # ls \<Longrightarrow> w \<in> set xs \<and> (\<forall>x\<in>set xs. key w \<le> key x)"
proof -
  assume s: "sort_key key xs = w # ls"
  have "set (w # ls) = set xs" using arg_cong [OF s, of set] by simp
  moreover have "sorted (map key (w # ls))" by (metis s sorted_sort_key)
  ultimately show ?thesis by auto
qed

lemma first_satisfying:
  assumes "find P (sort_key key xs) = Some r"
  shows "r \<in> set xs \<and> P r \<and> (\<forall>r'\<in>set xs. P r' \<longrightarrow> key r \<le> key r')"
proof -
  have "filter P ys = r # tl (filter P ys)" if "find P ys = Some r" for ys
    using that by (induction ys) (auto split: if_splits)
  from this [OF assms] show ?thesis using first [of "filter P xs" r] by (auto simp: filter_sort)
qed

end

lemma lower_char_nat:
  "of_char (lower_char c) = (if 65 \<le> (of_char c :: nat) \<and> (of_char c :: nat) \<le> 90 then of_char c + 32 else of_char c :: nat)"
  by (auto simp: lower_char_def less_eq_char_def)

lemma char_eq_nat: "c = d \<longleftrightarrow> (of_char c :: nat) = of_char d"
  by simp

lemma lower_char_idem [simp]: "lower_char (lower_char c) = lower_char c"
  unfolding char_eq_nat lower_char_nat by simp

lemma is_space_lower [simp]: "is_space (lower_char c) \<longleftrightarrow> is_space c"
  unfolding is_space_def insert_iff char_eq_nat lower_char_nat by auto

lemma TrimSpace_lower: "TrimSpace (ToLower s) = ToLower (TrimSpace s)"
proof -
  have "dropWhile is_space (map lower_char t) = map lower_char (dropWhile is_space t)" for t
    by (induction t) auto
  then show ?thesis by (simp add: TrimSpace_def ToLower_def rev_map)
qed

lemma TrimSpace_idem [simp]: "TrimSpace (TrimSpace s) = TrimSpace s"
proof -
  have front: "dropWhile is_space (rev (dropWhile is_space (rev t))) = rev (dropWhile is_space (rev t))"
    if "t = [] \<or> \<not> is_space (hd t)" for t
  proof (cases "rev (dropWhile is_space (rev t))")
    case (Cons c cs)
    have "t = rev (dropWhile is_space (rev t)) @ rev (takeWhile is_space (rev t))"
      by (metis rev_append rev_rev_ident takeWhile_dropWhile_id)
    then have "hd t = c" using Cons by (metis append_Cons list.sel(1))
    then show ?thesis using Cons that by (cases t) auto
  next
    case Nil
    then show ?thesis unfolding Nil by simp
  qed
  have "dropWhile is_space s = [] \<or> \<not> is_space (hd (dropWhile is_space s))"
    by (metis hd_dropWhile)
  from front [OF this] show ?thesis by (simp add: TrimSpace_def)
qed

text \<open>Names are folded to one spelling: \<^verbatim>\<open>strings.ToLower(strings.TrimSpace(s))\<close>.\<close>

lemma ToLower_TrimSpace_idem [simp]: "ToLower (TrimSpace (ToLower (TrimSpace s))) = ToLower (TrimSpace s)"
  unfolding TrimSpace_lower by (simp add: ToLower_def comp_def)

end
