(* ===== verification/Drive.thy ===== *)
theory Drive
  imports ReadingPos GoStd
begin

text \<open>
  \<^verbatim>\<open>internal/personalstate/crdt/drive.go\<close>, \<^verbatim>\<open>drive_meta.go\<close>, \<^verbatim>\<open>drive_snapshot.go\<close> and the kind tags of
  \<^verbatim>\<open>kind.go\<close>: the vault drive, a map from normalised paths to the set of writes each has seen plus
  a tombstone. Two functions of other modules are parameters: \<open>nfc\<close> is \<^verbatim>\<open>norm.NFC.String\<close> of
  \<^verbatim>\<open>golang.org/x/text\<close>, and \<open>parse_ok b\<close> says that \<^verbatim>\<open>hashing.Parse(b)\<close> of \<^verbatim>\<open>void-which-binds-go\<close>
  returns no error. \<open>newPosTag\<close> is an argument of the local writes.

  The writes of a path are keyed by (At, Writer) and a later arrival under an existing key
  overwrites the earlier one. So the fold converges when every key names one write, and does not
  otherwise; both are proved.
\<close>

section \<open>Metadata\<close>

record DriveMeta =
  Mime :: string
  PlaintextHash :: string
  TakenAt :: i64
  Width :: "32 word"
  Height :: "32 word"
  DurationMS :: i64
  Thumbnail :: string
  Sidecar :: string

definition zeroMeta :: DriveMeta where
  "zeroMeta = \<lparr>Mime = [], PlaintextHash = [], TakenAt = 0, Width = 0, Height = 0, DurationMS = 0,
     Thumbnail = [], Sidecar = []\<rparr>"

definition IsZero :: "DriveMeta \<Rightarrow> bool" where
  "IsZero m \<longleftrightarrow> m = zeroMeta"

definition blobRefs :: "DriveMeta \<Rightarrow> string list" where
  "blobRefs m = filter (\<lambda>b. b \<noteq> []) [Thumbnail m, Sidecar m]"

datatype drive_error =
  NoWriter | NoPath | NoBlob | BadBlob string | BadMetaId string string | NegativeMeta
| DeleteWithBlob string | DeleteWithMeta | UnknownOp "8 word"

definition meta_Validate :: "(string \<Rightarrow> bool) \<Rightarrow> DriveMeta \<Rightarrow> drive_error option" where
  "meta_Validate parse_ok m =
     (case filter (\<lambda>(name, fid). fid \<noteq> [] \<and> \<not> parse_ok fid)
        [(''plaintext_hash'', PlaintextHash m), (''thumbnail'', Thumbnail m), (''sidecar'', Sidecar m)] of
        (name, fid) # _ \<Rightarrow> Some (BadMetaId name fid)
      | [] \<Rightarrow> if sint (TakenAt m) < 0 \<or> sint (DurationMS m) < 0 then Some NegativeMeta else None)"

section \<open>Changes\<close>

definition KindDrive :: string where "KindDrive = ''drive''"
definition KindAlbum :: string where "KindAlbum = ''album''"
definition KindPolicy :: string where "KindPolicy = ''policy''"

definition OpPut :: "8 word" where "OpPut = 0"
definition OpDelete :: "8 word" where "OpDelete = 1"

record DriveChange =
  dc_Kind :: string
  dc_Op :: "8 word"
  dc_Path :: string
  dc_Blob :: string
  dc_Size :: i64
  dc_MTime :: i64
  dc_Meta :: DriveMeta
  dc_At :: u64
  dc_Writer :: string
  dc_Base :: posKey

definition normalisePath :: "(string \<Rightarrow> string) \<Rightarrow> string \<Rightarrow> string" where
  "normalisePath nfc p =
     (let q = path_Clean_rooted (CHR ''/'' # map (\<lambda>c. if c = CHR 0x5C then CHR ''/'' else c) (nfc p))
      in if take 1 q = ''/'' then drop 1 q else q)"

definition drive_Validate :: "(string \<Rightarrow> string) \<Rightarrow> (string \<Rightarrow> bool) \<Rightarrow> DriveChange \<Rightarrow> drive_error option" where
  "drive_Validate nfc parse_ok c =
     (if dc_Writer c = [] then Some NoWriter
      else if normalisePath nfc (dc_Path c) = [] then Some NoPath
      else if dc_Op c = OpPut then
        (if dc_Blob c = [] then Some NoBlob
         else if \<not> parse_ok (dc_Blob c) then Some (BadBlob (dc_Blob c))
         else meta_Validate parse_ok (dc_Meta c))
      else if dc_Op c = OpDelete then
        (if dc_Blob c \<noteq> [] then Some (DeleteWithBlob (dc_Blob c))
         else if \<not> IsZero (dc_Meta c) then Some DeleteWithMeta
         else None)
      else Some (UnknownOp (dc_Op c)))"

definition drive_Foreign :: "DriveChange \<Rightarrow> bool" where
  "drive_Foreign c = (if dc_Kind c \<noteq> [] then dc_Kind c \<noteq> KindDrive else dc_Path c = [])"

section \<open>State\<close>

record driveValue =
  dv_Blob :: string
  dv_Size :: i64
  dv_MTime :: i64
  dv_Meta :: DriveMeta
  dv_key :: posKey
  dv_base :: posKey

record driveRecord =
  dr_values :: "(posKey, driveValue) fmap"
  dr_delKey :: posKey

record Drive =
  drv_entries :: "(string, driveRecord) fmap"
  drv_counter :: u64

record DriveEntry =
  de_Path :: string
  de_Blob :: string
  de_Size :: i64
  de_MTime :: i64
  de_Meta :: DriveMeta
  de_Conflicted :: bool

definition refs :: "driveValue \<Rightarrow> string list" where
  "refs v = (if dv_Blob v = [] then [] else dv_Blob v # blobRefs (dv_Meta v))"

definition NewDrive :: Drive where
  "NewDrive = \<lparr>drv_entries = fmempty, drv_counter = 0\<rparr>"

text \<open>Reading a missing path from the Go map gives the zero record: no writes, zero tombstone.\<close>

definition zeroRecord :: driveRecord where
  "zeroRecord = \<lparr>dr_values = fmempty, dr_delKey = zeroKey\<rparr>"

definition entry_at :: "(string, driveRecord) fmap \<Rightarrow> string \<Rightarrow> driveRecord" where
  "entry_at es p = (case fmlookup es p of Some rec \<Rightarrow> rec | None \<Rightarrow> zeroRecord)"

definition nextAt :: "Drive \<Rightarrow> u64 \<times> Drive" where
  "nextAt d = (let n = sat_inc (drv_counter d) in (n, d\<lparr>drv_counter := n\<rparr>))"

section \<open>Live heads\<close>

text \<open>Both loops of \<open>liveHeads\<close> walk the write map; \<open>es\<close> is the order of the second.\<close>

definition built :: "(posKey, driveValue) fmap \<Rightarrow> posKey fset" where
  "built vs = fset_of_list (filter (\<lambda>b. b \<noteq> zeroKey) (map (\<lambda>(k, v). dv_base v) (sorted_list_of_fmap vs)))"

definition live_unsorted :: "driveRecord \<Rightarrow> (posKey \<times> driveValue) list \<Rightarrow> driveValue list" where
  "live_unsorted r es =
     map snd (filter (\<lambda>(k, v). \<not> (k |\<in>| built (dr_values r)) \<and>
        \<not> (dr_delKey r \<noteq> zeroKey \<and> greater (dr_delKey r) k)) es)"

definition liveHeads :: "driveRecord \<Rightarrow> driveValue list" where
  "liveHeads r = sort_key dv_key (live_unsorted r (sorted_list_of_fmap (dr_values r)))"

definition currentHead :: "driveRecord \<Rightarrow> (driveValue \<times> bool) option" where
  "currentHead r =
     (let live = liveHeads r in
      if live = [] then None else Some (last live, length live > 1))"

section \<open>Operations\<close>

definition drive_value :: "DriveChange \<Rightarrow> driveValue" where
  "drive_value c = \<lparr>dv_Blob = dc_Blob c, dv_Size = dc_Size c, dv_MTime = dc_MTime c, dv_Meta = dc_Meta c,
     dv_key = PosKey (dc_At c) (dc_Writer c), dv_base = dc_Base c\<rparr>"

definition drive_applyOne :: "(string \<Rightarrow> string) \<Rightarrow> DriveChange \<Rightarrow> Drive \<Rightarrow> Drive" where
  "drive_applyOne nfc c d =
     (let np = normalisePath nfc (dc_Path c);
          rec = entry_at (drv_entries d) np;
          key = PosKey (dc_At c) (dc_Writer c);
          rec' = (if dc_Op c = OpDelete then
                    (if greater key (dr_delKey rec) then rec\<lparr>dr_delKey := key\<rparr> else rec)
                  else if dc_Op c = OpPut then rec\<lparr>dr_values := fmupd key (drive_value c) (dr_values rec)\<rparr>
                  else rec)
      in \<lparr>drv_entries = fmupd np rec' (drv_entries d),
          drv_counter = (if dc_At c > drv_counter d then dc_At c else drv_counter d)\<rparr>)"

fun ApplyReport :: "(string \<Rightarrow> string) \<Rightarrow> (string \<Rightarrow> bool) \<Rightarrow> DriveChange list \<Rightarrow> Drive \<Rightarrow> DriveChange list \<times> Drive" where
  "ApplyReport nfc parse_ok [] d = ([], d)"
| "ApplyReport nfc parse_ok (c # cs) d =
     (if drive_Foreign c then ApplyReport nfc parse_ok cs d
      else if drive_Validate nfc parse_ok c \<noteq> None then
        (let (rejected, d') = ApplyReport nfc parse_ok cs d in (c # rejected, d'))
      else ApplyReport nfc parse_ok cs (drive_applyOne nfc c d))"

definition drive_Apply :: "(string \<Rightarrow> string) \<Rightarrow> (string \<Rightarrow> bool) \<Rightarrow> DriveChange list \<Rightarrow> Drive \<Rightarrow> Drive" where
  "drive_Apply nfc parse_ok cs d = snd (ApplyReport nfc parse_ok cs d)"

text \<open>A local write: the change with its counter, or the error and the drive as it was.\<close>

definition PutMeta :: "(string \<Rightarrow> string) \<Rightarrow> (string \<Rightarrow> bool) \<Rightarrow> string \<Rightarrow> string \<Rightarrow> string \<Rightarrow> i64 \<Rightarrow> i64 \<Rightarrow> DriveMeta \<Rightarrow>
    Drive \<Rightarrow> drive_error + (DriveChange \<times> Drive)" where
  "PutMeta nfc parse_ok newPosTag p blob sz mtime meta d =
     (let np = normalisePath nfc p;
          base = (case currentHead (entry_at (drv_entries d) np) of Some (head, _) \<Rightarrow> dv_key head | None \<Rightarrow> zeroKey);
          c = \<lparr>dc_Kind = KindDrive, dc_Op = OpPut, dc_Path = np, dc_Blob = blob, dc_Size = sz, dc_MTime = mtime,
               dc_Meta = meta, dc_At = 0, dc_Writer = newPosTag, dc_Base = base\<rparr>
      in case drive_Validate nfc parse_ok c of
           Some e \<Rightarrow> Inl e
         | None \<Rightarrow> (let (n, d1) = nextAt d; c' = c\<lparr>dc_At := n\<rparr> in Inr (c', drive_applyOne nfc c' d1)))"

definition Put :: "(string \<Rightarrow> string) \<Rightarrow> (string \<Rightarrow> bool) \<Rightarrow> string \<Rightarrow> string \<Rightarrow> string \<Rightarrow> i64 \<Rightarrow> i64 \<Rightarrow>
    Drive \<Rightarrow> drive_error + (DriveChange \<times> Drive)" where
  "Put nfc parse_ok newPosTag p blob sz mtime d = PutMeta nfc parse_ok newPosTag p blob sz mtime zeroMeta d"

definition Delete :: "(string \<Rightarrow> string) \<Rightarrow> (string \<Rightarrow> bool) \<Rightarrow> string \<Rightarrow> string \<Rightarrow>
    Drive \<Rightarrow> drive_error + (DriveChange \<times> Drive)" where
  "Delete nfc parse_ok newPosTag p d =
     (let np = normalisePath nfc p;
          c = \<lparr>dc_Kind = KindDrive, dc_Op = OpDelete, dc_Path = np, dc_Blob = [], dc_Size = 0, dc_MTime = 0,
               dc_Meta = zeroMeta, dc_At = 0, dc_Writer = newPosTag, dc_Base = zeroKey\<rparr>
      in case drive_Validate nfc parse_ok c of
           Some e \<Rightarrow> Inl e
         | None \<Rightarrow> (let (n, d1) = nextAt d; c' = c\<lparr>dc_At := n\<rparr> in Inr (c', drive_applyOne nfc c' d1)))"

text \<open>One round of the loop of \<open>MergeDrives\<close>. Within a path the writes are copied one by one over
  those already there.\<close>

definition merge_record :: "driveRecord \<Rightarrow> driveRecord \<Rightarrow> driveRecord" where
  "merge_record cur rec =
     \<lparr>dr_values = fold (\<lambda>(k, v). fmupd k v) (sorted_list_of_fmap (dr_values rec)) (dr_values cur),
      dr_delKey = (if greater (dr_delKey rec) (dr_delKey cur) then dr_delKey rec else dr_delKey cur)\<rparr>"

definition drive_merge_into :: "Drive \<Rightarrow> Drive \<Rightarrow> Drive" where
  "drive_merge_into out d =
     \<lparr>drv_entries = fold (\<lambda>(p, rec) es. fmupd p (merge_record (entry_at es p) rec) es)
         (sorted_list_of_fmap (drv_entries d)) (drv_entries out),
      drv_counter = (if drv_counter d > drv_counter out then drv_counter d else drv_counter out)\<rparr>"

definition MergeDrives :: "Drive option list \<Rightarrow> Drive" where
  "MergeDrives drives =
     fold (\<lambda>d out. case d of None \<Rightarrow> out | Some d \<Rightarrow> drive_merge_into out d) drives NewDrive"

section \<open>Reads\<close>

definition entry_of :: "string \<Rightarrow> driveRecord \<Rightarrow> DriveEntry option" where
  "entry_of p rec =
     (case currentHead rec of
        None \<Rightarrow> None
      | Some (head, conflicted) \<Rightarrow>
          if dv_Blob head = [] then None
          else Some \<lparr>de_Path = p, de_Blob = dv_Blob head, de_Size = dv_Size head, de_MTime = dv_MTime head,
                     de_Meta = dv_Meta head, de_Conflicted = conflicted\<rparr>)"

definition drive_Get :: "(string \<Rightarrow> string) \<Rightarrow> string \<Rightarrow> Drive \<Rightarrow> DriveEntry option" where
  "drive_Get nfc p d =
     (case fmlookup (drv_entries d) (normalisePath nfc p) of
        None \<Rightarrow> None
      | Some rec \<Rightarrow> entry_of (normalisePath nfc p) rec)"

definition drive_List :: "Drive \<Rightarrow> DriveEntry list" where
  "drive_List d =
     sort_key de_Path (somes (map (\<lambda>(p, rec). entry_of p rec) (sorted_list_of_fmap (drv_entries d))))"

definition priorVersions :: "driveRecord \<Rightarrow> driveValue list" where
  "priorVersions r =
     (let live = liveHeads r;
          prior = map snd (filter (\<lambda>(k, v). k \<notin> dv_key ` set live \<and> dv_Blob v \<noteq> [] \<and> dv_Blob v \<notin> dv_Blob ` set live)
                    (sorted_list_of_fmap (dr_values r)));
          newest_first = rev (sort_key dv_key prior)
      in fold (\<lambda>v out. if dv_Blob v \<in> dv_Blob ` set out then out else out @ [v]) newest_first [])"

definition Versions :: "(string \<Rightarrow> string) \<Rightarrow> string \<Rightarrow> Drive \<Rightarrow> string list" where
  "Versions nfc p d =
     (case fmlookup (drv_entries d) (normalisePath nfc p) of
        None \<Rightarrow> []
      | Some rec \<Rightarrow> map dv_Blob (priorVersions rec))"

section \<open>Snapshot\<close>

record driveValueSnapshot =
  dvs_Blob :: string
  dvs_Size :: i64
  dvs_MTime :: i64
  dvs_Meta :: DriveMeta
  dvs_At :: u64
  dvs_Writer :: string
  dvs_BaseAt :: u64
  dvs_BaseWrit :: string

record driveEntrySnapshot =
  des_Path :: string
  des_Writes :: "driveValueSnapshot list"
  des_DelAt :: u64
  des_DelBy :: string

record driveSnapshot =
  ds_Entries :: "driveEntrySnapshot list"
  ds_Counter :: u64

definition write_snapshot :: "driveValue \<Rightarrow> driveValueSnapshot" where
  "write_snapshot v = \<lparr>dvs_Blob = dv_Blob v, dvs_Size = dv_Size v, dvs_MTime = dv_MTime v, dvs_Meta = dv_Meta v,
     dvs_At = At (dv_key v), dvs_Writer = Writer (dv_key v), dvs_BaseAt = At (dv_base v), dvs_BaseWrit = Writer (dv_base v)\<rparr>"

definition entry_snapshot :: "string \<times> driveRecord \<Rightarrow> driveEntrySnapshot" where
  "entry_snapshot e = (case e of (p, rec) \<Rightarrow>
     \<lparr>des_Path = p,
      des_Writes = sort_key (\<lambda>w. (dvs_At w, dvs_Writer w))
        (map (\<lambda>(k, v). write_snapshot v) (sorted_list_of_fmap (dr_values rec))),
      des_DelAt = At (dr_delKey rec), des_DelBy = Writer (dr_delKey rec)\<rparr>)"

definition drive_Snapshot :: "Drive \<Rightarrow> driveSnapshot" where
  "drive_Snapshot d =
     \<lparr>ds_Entries = sort_key des_Path (map entry_snapshot (sorted_list_of_fmap (drv_entries d))),
      ds_Counter = drv_counter d\<rparr>"

definition entry_from_snapshot :: "driveEntrySnapshot \<Rightarrow> driveRecord" where
  "entry_from_snapshot e =
     \<lparr>dr_values = fold (\<lambda>w vs. fmupd (PosKey (dvs_At w) (dvs_Writer w))
          \<lparr>dv_Blob = dvs_Blob w, dv_Size = dvs_Size w, dv_MTime = dvs_MTime w, dv_Meta = dvs_Meta w,
           dv_key = PosKey (dvs_At w) (dvs_Writer w), dv_base = PosKey (dvs_BaseAt w) (dvs_BaseWrit w)\<rparr> vs)
          (des_Writes e) fmempty,
      dr_delKey = PosKey (des_DelAt e) (des_DelBy e)\<rparr>"

definition DriveFromSnapshot :: "driveSnapshot \<Rightarrow> Drive" where
  "DriveFromSnapshot snap =
     \<lparr>drv_entries = fold (\<lambda>e es. fmupd (des_Path e) (entry_from_snapshot e) es) (ds_Entries snap) (drv_entries NewDrive),
      drv_counter = ds_Counter snap\<rparr>"

section \<open>Paths\<close>

definition elems :: "string \<Rightarrow> string list" where
  "elems s = split_on (CHR ''/'') (map (\<lambda>c. if c = CHR 0x5C then CHR ''/'' else c) s)"

text \<open>What the drive relies on of NFC: it is idempotent, keeps the empty string, and works on each
  path element by itself, since neither separator composes with any other code point.\<close>

definition nfc_ok :: "(string \<Rightarrow> string) \<Rightarrow> bool" where
  "nfc_ok nfc \<longleftrightarrow> nfc [] = [] \<and> (\<forall>s. nfc (nfc s) = nfc s) \<and> (\<forall>s. elems (nfc s) = map nfc (elems s))"

lemma normalisePath_eq: "normalisePath nfc p = join_with (CHR ''/'') (clean_elems (elems (nfc p)))"
  by (simp add: normalisePath_def path_Clean_rooted_def elems_def clean_elems_def clean_step_def Let_def)

lemma elems_chars: "e \<in> set (elems s) \<Longrightarrow> CHR ''/'' \<notin> set e \<and> CHR 0x5C \<notin> set e"
proof -
  assume e: "e \<in> set (elems s)"
  let ?t = "map (\<lambda>c. if c = CHR 0x5C then CHR ''/'' else c) s"
  have "x \<in> set (split_on (CHR ''/'') t) \<Longrightarrow> set x \<subseteq> set t" for x t
    by (induction t arbitrary: x) (auto split: if_splits list.splits, fastforce+)
  then have "set e \<subseteq> set ?t" using e unfolding elems_def by blast
  moreover have "CHR 0x5C \<notin> set ?t" by auto
  moreover have "CHR ''/'' \<notin> set e" using e unfolding elems_def by (rule split_on_no_sep)
  ultimately show ?thesis by blast
qed

lemma elems_join:
  assumes "es \<noteq> []" and "\<And>e. e \<in> set es \<Longrightarrow> CHR ''/'' \<notin> set e \<and> CHR 0x5C \<notin> set e"
  shows "elems (join_with (CHR ''/'') es) = es"
proof -
  have "set (join_with (CHR ''/'') es) \<subseteq> insert (CHR ''/'') (\<Union> (set ` set es))" by (rule set_join)
  with assms(2) have "CHR 0x5C \<notin> set (join_with (CHR ''/'') es)" by auto
  then have "map (\<lambda>c. if c = CHR 0x5C then CHR ''/'' else c) (join_with (CHR ''/'') es) = join_with (CHR ''/'') es"
    by (intro map_idI) auto
  then show ?thesis using assms by (simp add: elems_def split_join)
qed

lemma normalisePath_idem:
  assumes "nfc_ok nfc"
  shows "normalisePath nfc (normalisePath nfc p) = normalisePath nfc p"
proof -
  let ?cs = "clean_elems (elems (nfc p))"
  let ?q = "join_with (CHR ''/'') ?cs"
  have cs: "e \<in> set (elems (nfc p))" "good_elem e" if "e \<in> set ?cs" for e
    using clean_elems_set that by auto
  have fixed: "nfc e = e" if "e \<in> set ?cs" for e
    using cs [OF that] assms by (auto simp: nfc_ok_def)
  have "clean_elems (elems (nfc ?q)) = ?cs"
  proof (cases "?cs = []")
    case True
    with assms show ?thesis by (simp add: nfc_ok_def elems_def clean_elems_def clean_step_def)
  next
    case False
    have "elems ?q = ?cs" using False cs elems_chars by (intro elems_join) auto
    moreover have "map nfc ?cs = ?cs" using fixed by (intro map_idI)
    ultimately have "elems (nfc ?q) = ?cs" using assms by (simp add: nfc_ok_def)
    then show ?thesis by simp
  qed
  then show ?thesis by (simp add: normalisePath_eq)
qed

lemma normalisePath_clean:
  "e \<in> set (clean_elems (elems (nfc p))) \<Longrightarrow> good_elem e \<and> CHR ''/'' \<notin> set e"
  using clean_elems_set elems_chars by blast

section \<open>The lattice of records\<close>

lemma fmlookup_merge_record [simp]:
  "fmlookup (dr_values (merge_record a b)) k =
     (case fmlookup (dr_values b) k of Some v \<Rightarrow> Some v | None \<Rightarrow> fmlookup (dr_values a) k)"
  using enumerates_sorted [of "dr_values b"]
  by (simp add: merge_record_def fold_fmupd_enumeration enumerates_def)

lemma delKey_merge_record [simp]: "dr_delKey (merge_record a b) = max (dr_delKey a) (dr_delKey b)"
  by (simp add: merge_record_def max_key_as_code)

lemma driveRecord_eqI:
  "(\<And>k. fmlookup (dr_values a) k = fmlookup (dr_values b) k) \<Longrightarrow> dr_delKey a = dr_delKey b \<Longrightarrow> a = (b::driveRecord)"
  by (cases a; cases b) (auto intro: fmap_ext)

lemma merge_record_assoc: "merge_record (merge_record a b) c = merge_record a (merge_record b c)"
  by (rule driveRecord_eqI) (auto simp: max.assoc split: option.splits)

lemma merge_record_idem [simp]: "merge_record a a = a"
  by (rule driveRecord_eqI) (auto split: option.splits)

lemma merge_record_zero [simp]: "merge_record zeroRecord a = a" "merge_record a zeroRecord = a"
  by (rule driveRecord_eqI; auto simp: zeroRecord_def max_def zeroKey_least split: option.splits
      intro: order.antisym zeroKey_least)+

text \<open>\<open>agrees h r\<close>: each write of the record is the one that \<open>h\<close> assigns to its key.\<close>

definition agrees :: "(posKey \<Rightarrow> driveValue) \<Rightarrow> driveRecord \<Rightarrow> bool" where
  "agrees h r \<longleftrightarrow> (\<forall>k v. fmlookup (dr_values r) k = Some v \<longrightarrow> v = h k)"

lemma merge_record_commute: "agrees h a \<Longrightarrow> agrees h b \<Longrightarrow> merge_record a b = merge_record b a"
  by (rule driveRecord_eqI) (auto simp: agrees_def max.commute split: option.splits)

lemma agrees_merge: "agrees h a \<Longrightarrow> agrees h b \<Longrightarrow> agrees h (merge_record a b)"
  by (auto simp: agrees_def split: option.splits)

text \<open>A change, as the record it is the join with.\<close>

definition delta :: "DriveChange \<Rightarrow> driveRecord" where
  "delta c =
     (let key = PosKey (dc_At c) (dc_Writer c) in
      if dc_Op c = OpDelete then \<lparr>dr_values = fmempty, dr_delKey = key\<rparr>
      else if dc_Op c = OpPut then \<lparr>dr_values = fmupd key (drive_value c) fmempty, dr_delKey = zeroKey\<rparr>
      else zeroRecord)"

lemma drive_applyOne_delta:
  "drive_applyOne nfc c d =
     \<lparr>drv_entries = upsert merge_record (normalisePath nfc (dc_Path c)) (delta c) (drv_entries d),
      drv_counter = max (drv_counter d) (dc_At c)\<rparr>"
proof -
  have "merge_record (entry_at (drv_entries d) p) (delta c) =
      (case fmlookup (drv_entries d) p of Some r \<Rightarrow> merge_record r (delta c) | None \<Rightarrow> delta c)" for p
    by (simp add: entry_at_def split: option.splits)
  moreover have "merge_record rec (delta c) =
      (if dc_Op c = OpDelete
       then (if greater (PosKey (dc_At c) (dc_Writer c)) (dr_delKey rec)
             then rec\<lparr>dr_delKey := PosKey (dc_At c) (dc_Writer c)\<rparr> else rec)
       else if dc_Op c = OpPut then rec\<lparr>dr_values := fmupd (PosKey (dc_At c) (dc_Writer c)) (drive_value c) (dr_values rec)\<rparr>
       else rec)" for rec
    by (rule driveRecord_eqI)
      (auto simp: delta_def zeroRecord_def Let_def greater_iff max_def zeroKey_least intro: order.antisym zeroKey_least)
  ultimately show ?thesis
    by (simp add: drive_applyOne_def Let_def upsert_def max_as_code)
qed

lemma drive_merge_into_map:
  "drive_merge_into out d =
     \<lparr>drv_entries = merge_map merge_record (drv_entries out) (drv_entries d),
      drv_counter = max (drv_counter out) (drv_counter d)\<rparr>"
proof -
  have "fmupd p (merge_record (entry_at es p) rec) es = upsert merge_record p rec es" for p rec es
    by (simp add: upsert_def entry_at_def split: option.splits)
  then show ?thesis
    by (simp add: drive_merge_into_def merge_map_def range_upsert_def max_as_code)
qed

section \<open>Interfaces\<close>

text \<open>What one round of \<open>ApplyReport\<close> does to the drive: foreign and malformed changes are
  skipped.\<close>

definition drive_step :: "(string \<Rightarrow> string) \<Rightarrow> (string \<Rightarrow> bool) \<Rightarrow> DriveChange \<Rightarrow> Drive \<Rightarrow> Drive" where
  "drive_step nfc parse_ok c d =
     (if drive_Foreign c \<or> drive_Validate nfc parse_ok c \<noteq> None then d else drive_applyOne nfc c d)"

lemma ApplyReport_fold:
  "ApplyReport nfc parse_ok cs d =
     (filter (\<lambda>c. \<not> drive_Foreign c \<and> drive_Validate nfc parse_ok c \<noteq> None) cs,
      fold (drive_step nfc parse_ok) cs d)"
  by (induction cs arbitrary: d) (auto simp: drive_step_def)

lemma drive_Apply_fold: "drive_Apply nfc parse_ok cs d = fold (drive_step nfc parse_ok) cs d"
  by (simp add: drive_Apply_def ApplyReport_fold)

text \<open>\<open>assigned nfc g\<close>: the puts that carry the payload \<open>g\<close> assigns to their path and key.
  \<open>wf_drive g\<close>: a drive made of such puts.\<close>

definition assigned :: "(string \<Rightarrow> string) \<Rightarrow> (string \<Rightarrow> posKey \<Rightarrow> driveValue) \<Rightarrow> DriveChange set" where
  "assigned nfc g =
     {c. dc_Op c = OpPut \<longrightarrow> drive_value c = g (normalisePath nfc (dc_Path c)) (PosKey (dc_At c) (dc_Writer c))}"

definition wf_drive :: "(string \<Rightarrow> posKey \<Rightarrow> driveValue) \<Rightarrow> Drive \<Rightarrow> bool" where
  "wf_drive g d \<longleftrightarrow> (\<forall>p r. fmlookup (drv_entries d) p = Some r \<longrightarrow> agrees (g p) r)"

lemma agrees_delta: "c \<in> assigned nfc g \<Longrightarrow> agrees (g (normalisePath nfc (dc_Path c))) (delta c)"
  by (auto simp: agrees_def delta_def assigned_def Let_def zeroRecord_def split: if_splits)

lemma join_opt_assoc:
  "(\<And>a b c. f (f a b) c = f a (f b c)) \<Longrightarrow> join_opt f (join_opt f x y) z = join_opt f x (join_opt f y z)"
  by (cases x; cases y; cases z) auto

lemma join_record_commute:
  assumes "\<And>r. x = Some r \<Longrightarrow> agrees h r" and "\<And>r. y = Some r \<Longrightarrow> agrees h r"
  shows "join_opt merge_record x y = join_opt merge_record y x"
  using assms by (cases x; cases y) (auto intro: merge_record_commute)

lemma join_record_left_commute:
  assumes "agrees h a" and "agrees h b"
  shows "join_opt merge_record (join_opt merge_record x (Some a)) (Some b) =
    join_opt merge_record (join_opt merge_record x (Some b)) (Some a)"
  by (simp add: join_opt_assoc [OF merge_record_assoc] merge_record_commute [OF assms])

lemma applyOne_commute:
  assumes "c \<in> assigned nfc g" and "e \<in> assigned nfc g"
  shows "drive_applyOne nfc c (drive_applyOne nfc e d) = drive_applyOne nfc e (drive_applyOne nfc c d)"
proof -
  let ?p = "normalisePath nfc (dc_Path c)" and ?q = "normalisePath nfc (dc_Path e)"
  have "upsert merge_record ?p (delta c) (upsert merge_record ?q (delta e) m) =
      upsert merge_record ?q (delta e) (upsert merge_record ?p (delta c) m)" for m
    using agrees_delta [OF assms(1)] agrees_delta [OF assms(2)]
    by (intro fmap_ext) (auto intro: join_record_left_commute)
  then show ?thesis by (simp add: drive_applyOne_delta max.commute max.left_commute)
qed

lemma applyOne_idem: "drive_applyOne nfc c (drive_applyOne nfc c d) = drive_applyOne nfc c d"
proof -
  have "upsert merge_record p r (upsert merge_record p r m) = upsert merge_record p r m" for p r m
    by (intro fmap_ext) (simp add: join_opt_assoc [OF merge_record_assoc])
  then show ?thesis by (simp add: drive_applyOne_delta)
qed

lemma wf_drive_applyOne:
  assumes "c \<in> assigned nfc g" and "wf_drive g d"
  shows "wf_drive g (drive_applyOne nfc c d)"
  unfolding wf_drive_def
proof (intro allI impI)
  fix p r
  assume "fmlookup (drv_entries (drive_applyOne nfc c d)) p = Some r"
  then show "agrees (g p) r"
    using assms(2) agrees_delta [OF assms(1)]
    by (cases "fmlookup (drv_entries d) p")
      (auto simp: drive_applyOne_delta wf_drive_def split: if_splits intro: agrees_merge)
qed

lemma merge_into_commute:
  assumes "wf_drive g a" and "wf_drive g b"
  shows "drive_merge_into a b = drive_merge_into b a"
proof -
  have "merge_map merge_record (drv_entries a) (drv_entries b) = merge_map merge_record (drv_entries b) (drv_entries a)"
  proof (rule fmap_ext)
    fix p
    show "fmlookup (merge_map merge_record (drv_entries a) (drv_entries b)) p =
        fmlookup (merge_map merge_record (drv_entries b) (drv_entries a)) p"
      using join_record_commute [of "fmlookup (drv_entries a) p" "g p" "fmlookup (drv_entries b) p"] assms
      by (simp add: wf_drive_def)
  qed
  then show ?thesis by (simp add: drive_merge_into_map max.commute)
qed

lemma wf_drive_merge:
  assumes "wf_drive g a" and "wf_drive g b"
  shows "wf_drive g (drive_merge_into a b)"
  unfolding wf_drive_def
proof (intro allI impI)
  fix p r
  assume "fmlookup (drv_entries (drive_merge_into a b)) p = Some r"
  then show "agrees (g p) r"
    using assms by (cases "fmlookup (drv_entries a) p"; cases "fmlookup (drv_entries b) p")
      (auto simp: drive_merge_into_map wf_drive_def intro: agrees_merge)
qed

lemma merge_into_applyOne:
  assumes "c \<in> assigned nfc g" and "wf_drive g a" and "wf_drive g b"
  shows "drive_merge_into (drive_applyOne nfc c a) b = drive_applyOne nfc c (drive_merge_into a b)"
proof -
  let ?p = "normalisePath nfc (dc_Path c)"
  have "join_opt merge_record (join_opt merge_record x (Some (delta c))) y =
      join_opt merge_record (join_opt merge_record x y) (Some (delta c))"
    if "\<And>r. y = Some r \<Longrightarrow> agrees (g ?p) r" for x y
    unfolding join_opt_assoc [OF merge_record_assoc]
    using that agrees_delta [OF assms(1)] join_record_commute [of "Some (delta c)" "g ?p" y] by auto
  then have "merge_map merge_record (upsert merge_record ?p (delta c) (drv_entries a)) (drv_entries b) =
      upsert merge_record ?p (delta c) (merge_map merge_record (drv_entries a) (drv_entries b))"
    using assms(3) by (intro fmap_ext) (auto simp: wf_drive_def)
  then show ?thesis by (simp add: drive_applyOne_delta drive_merge_into_map max.commute max.left_commute)
qed

interpretation drive: state_crdt "drive_step nfc parse_ok" "assigned nfc g" drive_merge_into NewDrive "wf_drive g"
  for nfc parse_ok g
proof
  show "drive_step nfc parse_ok c (drive_step nfc parse_ok d s) = drive_step nfc parse_ok d (drive_step nfc parse_ok c s)"
    if "c \<in> assigned nfc g" "d \<in> assigned nfc g" for c d s
    using applyOne_commute [OF that] by (auto simp: drive_step_def)
  show "drive_step nfc parse_ok c (drive_step nfc parse_ok c s) = drive_step nfc parse_ok c s" for c s
    by (auto simp: drive_step_def applyOne_idem)
  show "drive_merge_into (drive_merge_into a b) d = drive_merge_into a (drive_merge_into b d)" for a b d
    by (simp add: drive_merge_into_map max.assoc fmap_ext join_opt_assoc [OF merge_record_assoc])
  show "drive_merge_into a a = a" for a
  proof -
    have "merge_map merge_record m m = m" for m :: "(string, driveRecord) fmap"
      by (rule fmap_ext) (simp add: join_opt_assoc, case_tac "fmlookup m x"; simp)
    then show ?thesis by (simp add: drive_merge_into_map)
  qed
  show "drive_merge_into NewDrive a = a" for a
    by (simp add: drive_merge_into_map NewDrive_def)
  show "drive_merge_into (drive_step nfc parse_ok c a) b = drive_step nfc parse_ok c (drive_merge_into a b)"
    if "c \<in> assigned nfc g" "wf_drive g a" "wf_drive g b" for c a b
    using merge_into_applyOne [OF that] by (auto simp: drive_step_def)
  show "wf_drive g (drive_step nfc parse_ok c a)" if "c \<in> assigned nfc g" "wf_drive g a" for c a
    using wf_drive_applyOne [OF that] that(2) by (auto simp: drive_step_def)
  show "wf_drive g NewDrive" by (simp add: wf_drive_def NewDrive_def)
qed (auto intro: merge_into_commute wf_drive_merge)

section \<open>Snapshots round-trip\<close>

definition wf_keys :: "Drive \<Rightarrow> bool" where
  "wf_keys d \<longleftrightarrow> (\<forall>p r k v. fmlookup (drv_entries d) p = Some r \<longrightarrow> fmlookup (dr_values r) k = Some v \<longrightarrow> dv_key v = k)"

lemma key_pair_le: "(At a, Writer a) \<le> (At b, Writer b) \<longleftrightarrow> a \<le> b"
  by (cases a; cases b) (auto simp: less_eq_posKey_def greater_def)

lemma PosKey_eta [simp]: "PosKey (At k) (Writer k) = k"
  by (cases k) simp

lemma driveValue_eta [simp]:
  "\<lparr>dv_Blob = dv_Blob v, dv_Size = dv_Size v, dv_MTime = dv_MTime v, dv_Meta = dv_Meta v, dv_key = dv_key v,
    dv_base = dv_base v\<rparr> = v"
  by (cases v) simp

lemma entry_from_snapshot_snapshot:
  assumes "\<And>k v. fmlookup (dr_values r) k = Some v \<Longrightarrow> dv_key v = k"
  shows "entry_from_snapshot (entry_snapshot (p, r)) = r"
proof -
  let ?es = "sorted_list_of_fmap (dr_values r)"
  have keys: "map (\<lambda>(k, v). dv_key v) ?es = map fst ?es"
    using assms by (auto simp: range_simps)
  have "sorted_wrt (\<lambda>a b. dv_key (snd a) \<le> dv_key (snd b)) ?es"
    using sorted_map_fst_sorted_list_of_fmap [of "dr_values r"]
    unfolding keys [symmetric] sorted_wrt_map by (simp add: case_prod_beta)
  then have "sorted (map ((\<lambda>w. (dvs_At w, dvs_Writer w)) \<circ> (\<lambda>(k, v). write_snapshot v)) ?es)"
    unfolding sorted_wrt_map comp_def
    by (simp add: write_snapshot_def key_pair_le case_prod_beta del: less_eq_prod_simp)
  then have w: "des_Writes (entry_snapshot (p, r)) = map (\<lambda>(k, v). write_snapshot v) ?es"
    by (simp add: entry_snapshot_def sort_key_map_sorted)
  have "fold (\<lambda>w vs. fmupd (PosKey (dvs_At w) (dvs_Writer w))
          \<lparr>dv_Blob = dvs_Blob w, dv_Size = dvs_Size w, dv_MTime = dvs_MTime w, dv_Meta = dvs_Meta w,
           dv_key = PosKey (dvs_At w) (dvs_Writer w), dv_base = PosKey (dvs_BaseAt w) (dvs_BaseWrit w)\<rparr> vs)
        (map (\<lambda>(k, v). write_snapshot v) ?es) fmempty = fold (\<lambda>(k, v). fmupd k v) ?es fmempty"
    unfolding fold_map
    by (rule fold_cong) (auto simp: write_snapshot_def range_simps dest: assms)
  then have "dr_values (entry_from_snapshot (entry_snapshot (p, r))) = dr_values r"
    by (simp add: entry_from_snapshot_def w fold_fmupd_sorted)
  then show ?thesis
    by (simp add: entry_from_snapshot_def entry_snapshot_def)
qed

lemma FromSnapshot_drive_Snapshot:
  assumes "wf_keys d"
  shows "DriveFromSnapshot (drive_Snapshot d) = d"
proof -
  let ?es = "sorted_list_of_fmap (drv_entries d)"
  have path: "des_Path \<circ> entry_snapshot = fst" by (auto simp: fun_eq_iff entry_snapshot_def)
  then have e: "ds_Entries (drive_Snapshot d) = map entry_snapshot ?es"
    by (simp add: drive_Snapshot_def sort_key_map_sorted)
  have "fold (\<lambda>e es. fmupd (des_Path e) (entry_from_snapshot e) es) (map entry_snapshot ?es) fmempty =
      fold (\<lambda>(k, v). fmupd k v) ?es fmempty"
    unfolding fold_map
  proof (rule fold_cong)
    fix x
    assume "x \<in> set ?es"
    moreover obtain p r where x: "x = (p, r)" by (cases x)
    ultimately have "entry_from_snapshot (entry_snapshot (p, r)) = r"
      using assms by (intro entry_from_snapshot_snapshot) (auto simp: range_simps wf_keys_def)
    then show "((\<lambda>e. fmupd (des_Path e) (entry_from_snapshot e)) \<circ> entry_snapshot) x = (case x of (k, v) \<Rightarrow> fmupd k v)"
      by (simp add: x entry_snapshot_def)
  qed simp_all
  then have "drv_entries (DriveFromSnapshot (drive_Snapshot d)) = drv_entries d"
    by (simp add: DriveFromSnapshot_def e NewDrive_def fold_fmupd_sorted)
  then show ?thesis by (simp add: DriveFromSnapshot_def drive_Snapshot_def)
qed

lemma wf_keys_applyOne: "wf_keys d \<Longrightarrow> wf_keys (drive_applyOne nfc c d)"
  by (auto simp: wf_keys_def drive_applyOne_def Let_def entry_at_def zeroRecord_def drive_value_def
      split: if_splits option.splits)

lemma wf_keys_NewDrive: "wf_keys NewDrive"
  by (simp add: wf_keys_def NewDrive_def)

interpretation drive_snap: snapshot_crdt "drive_step nfc parse_ok" "assigned nfc g" drive_Snapshot DriveFromSnapshot wf_keys
  for nfc parse_ok g
  by unfold_locales (auto simp: FromSnapshot_drive_Snapshot drive_step_def wf_keys_applyOne)

lemma wf_keys_Apply: "wf_keys d \<Longrightarrow> wf_keys (drive_Apply nfc parse_ok cs d)"
  unfolding drive_Apply_fold by (induction cs arbitrary: d) (auto simp: drive_step_def wf_keys_applyOne)

section \<open>Convergence\<close>

text \<open>No two puts at one path carry the same (At, Writer) and a different payload. The code relies
  on it: a writer tag is a fresh UUID.\<close>

definition consistent :: "(string \<Rightarrow> string) \<Rightarrow> DriveChange list \<Rightarrow> bool" where
  "consistent nfc cs \<longleftrightarrow>
     (\<forall>c \<in> set cs. \<forall>e \<in> set cs. dc_Op c = OpPut \<longrightarrow> dc_Op e = OpPut \<longrightarrow>
        normalisePath nfc (dc_Path c) = normalisePath nfc (dc_Path e) \<longrightarrow> dc_At c = dc_At e \<longrightarrow>
        dc_Writer c = dc_Writer e \<longrightarrow> drive_value c = drive_value e)"

lemma consistent_assigned:
  assumes "consistent nfc cs"
  shows "\<exists>g. set cs \<subseteq> assigned nfc g"
proof -
  let ?at = "\<lambda>p k c. c \<in> set cs \<and> dc_Op c = OpPut \<and> normalisePath nfc (dc_Path c) = p \<and> PosKey (dc_At c) (dc_Writer c) = k"
  let ?g = "\<lambda>p k. drive_value (SOME c. ?at p k c)"
  have "drive_value c = ?g (normalisePath nfc (dc_Path c)) (PosKey (dc_At c) (dc_Writer c))"
    if "c \<in> set cs" "dc_Op c = OpPut" for c
  proof -
    have "?at (normalisePath nfc (dc_Path c)) (PosKey (dc_At c) (dc_Writer c))
        (SOME e. ?at (normalisePath nfc (dc_Path c)) (PosKey (dc_At c) (dc_Writer c)) e)"
      by (rule someI [of _ c]) (simp add: that)
    then obtain e where "e = (SOME e. ?at (normalisePath nfc (dc_Path c)) (PosKey (dc_At c) (dc_Writer c)) e)"
      "e \<in> set cs" "dc_Op e = OpPut" "normalisePath nfc (dc_Path e) = normalisePath nfc (dc_Path c)"
      "dc_At e = dc_At c" "dc_Writer e = dc_Writer c" by simp
    then show ?thesis using assms that unfolding consistent_def by metis
  qed
  then have "set cs \<subseteq> assigned nfc ?g" by (auto simp: assigned_def)
  then show ?thesis by blast
qed

lemma MergeDrives_fold: "MergeDrives (map (\<lambda>l. Some (f l)) ls) = fold (\<lambda>s out. drive_merge_into out s) (map f ls) NewDrive"
proof -
  have "somes (map (\<lambda>l. Some (f l)) ls) = map f ls" by (induction ls) (auto simp: somes_def)
  then show ?thesis by (simp add: MergeDrives_def fold_somes)
qed

text \<open>C3: convergence of the drive, where every (path, At, Writer) names one write. Replicas that
  received the same changes, split into logs in any way, in any order and with any duplicates, merge
  to the drive that folds them all; two replicas that fold the same set of changes are equal; and
  a snapshot of one log plus the rest is the fold of everything. Malformed and foreign changes may
  be among them: every replica drops the same ones.\<close>

theorem drive_convergence:
  assumes "consistent nfc (concat logs)" and "set (concat logs) = set cs" and "set cs = set (as @ bs)"
  shows "MergeDrives (map (\<lambda>l. Some (drive_Apply nfc parse_ok l NewDrive)) logs) = drive_Apply nfc parse_ok cs NewDrive \<and>
    drive_Apply nfc parse_ok (concat logs) d = drive_Apply nfc parse_ok cs d \<and>
    drive_Apply nfc parse_ok bs (DriveFromSnapshot (drive_Snapshot (drive_Apply nfc parse_ok as NewDrive))) =
      drive_Apply nfc parse_ok cs NewDrive \<and>
    set (fst (ApplyReport nfc parse_ok (concat logs) d)) = set (fst (ApplyReport nfc parse_ok cs d))"
proof (intro conjI)
  obtain g where g: "set (concat logs) \<subseteq> assigned nfc g" using consistent_assigned [OF assms(1)] by blast
  have conv: "drive_Apply nfc parse_ok (concat logs) d = drive_Apply nfc parse_ok cs d" for d
    unfolding drive_Apply_fold using drive.convergence [OF g assms(2)] by simp
  then show "drive_Apply nfc parse_ok (concat logs) d = drive_Apply nfc parse_ok cs d" .
  show "MergeDrives (map (\<lambda>l. Some (drive_Apply nfc parse_ok l NewDrive)) logs) = drive_Apply nfc parse_ok cs NewDrive"
    unfolding MergeDrives_fold conv [of NewDrive, symmetric]
    unfolding drive_Apply_fold using drive.merge_log_list [OF g] by simp
  show "drive_Apply nfc parse_ok bs (DriveFromSnapshot (drive_Snapshot (drive_Apply nfc parse_ok as NewDrive))) =
      drive_Apply nfc parse_ok cs NewDrive"
    unfolding drive_Apply_fold
    by (rule drive_snap.snapshot_tail [where nfc = nfc and g = g]) (use g assms wf_keys_NewDrive in auto)
  show "set (fst (ApplyReport nfc parse_ok (concat logs) d)) = set (fst (ApplyReport nfc parse_ok cs d))"
    using assms(2) by (simp add: ApplyReport_fold del: set_concat)
qed

text \<open>The condition is needed. Two well-formed puts that share path, At and Writer and differ in
  payload leave two replicas in different states for good: folding them in the two orders gives
  different drives, and so does merging the two one-write replicas in the two orders, because the
  write that arrives last overwrites the other.\<close>

theorem drive_key_clash_diverges:
  assumes "drive_Validate nfc parse_ok c = None" "drive_Validate nfc parse_ok e = None"
    and "\<not> drive_Foreign c" "\<not> drive_Foreign e" and "dc_Op c = OpPut" "dc_Op e = OpPut"
    and "normalisePath nfc (dc_Path c) = normalisePath nfc (dc_Path e)"
    and "dc_At c = dc_At e" "dc_Writer c = dc_Writer e" and "drive_value c \<noteq> drive_value e"
  shows "drive_Apply nfc parse_ok [c, e] d \<noteq> drive_Apply nfc parse_ok [e, c] d \<and>
    MergeDrives [Some (drive_Apply nfc parse_ok [c] NewDrive), Some (drive_Apply nfc parse_ok [e] NewDrive)] \<noteq>
    MergeDrives [Some (drive_Apply nfc parse_ok [e] NewDrive), Some (drive_Apply nfc parse_ok [c] NewDrive)]"
proof -
  let ?p = "normalisePath nfc (dc_Path e)" and ?k = "PosKey (dc_At e) (dc_Writer e)"
  let ?at = "\<lambda>d. fmlookup (dr_values (entry_at (drv_entries d) ?p)) ?k"
  have ops: "OpPut \<noteq> OpDelete" by (simp add: OpPut_def OpDelete_def)
  have step: "drive_Apply nfc parse_ok [x] d' = drive_applyOne nfc x d'" if "x = c \<or> x = e" for x d'
    using that assms by (auto simp: drive_Apply_def)
  have last: "?at (drive_applyOne nfc x d') = Some (drive_value x)" if "x = c \<or> x = e" for x d'
    using that assms ops by (auto simp: drive_applyOne_def Let_def entry_at_def)
  have two: "drive_Apply nfc parse_ok [x, y] d' = drive_applyOne nfc y (drive_applyOne nfc x d')"
    if "x = c \<or> x = e" "y = c \<or> y = e" for x y d'
    using that assms by (auto simp: drive_Apply_def)
  have "?at (drive_Apply nfc parse_ok [c, e] d) \<noteq> ?at (drive_Apply nfc parse_ok [e, c] d)"
    using assms(10) by (simp add: two last)
  moreover have "?at (MergeDrives [Some (drive_applyOne nfc x NewDrive), Some (drive_applyOne nfc y NewDrive)]) =
      Some (drive_value y)" if "x = c \<or> x = e" "y = c \<or> y = e" for x y
    using that assms(5-9) ops
    by (auto simp: MergeDrives_def drive.merge_init drive_merge_into_map drive_applyOne_delta NewDrive_def
        upsert_def entry_at_def delta_def Let_def)
  ultimately show ?thesis
    using assms(10) by (metis option.inject step)
qed

section \<open>Witnesses\<close>

definition ex_put :: "string \<Rightarrow> string \<Rightarrow> DriveChange" where
  "ex_put blob writer = \<lparr>dc_Kind = ''drive'', dc_Op = 0, dc_Path = ''docs/a.txt'', dc_Blob = blob, dc_Size = 3,
     dc_MTime = 10, dc_Meta = zeroMeta, dc_At = 1, dc_Writer = writer, dc_Base = zeroKey\<rparr>"

theorem drive_convergence_witness:
  "MergeDrives (map (\<lambda>l. Some (drive_Apply id (\<lambda>_. True) l NewDrive)) [[ex_put ''b1'' ''w1''], [ex_put ''b2'' ''w2'']]) =
     drive_Apply id (\<lambda>_. True) [ex_put ''b2'' ''w2'', ex_put ''b1'' ''w1''] NewDrive \<and>
   map_option de_Conflicted (drive_Get id ''/docs/./a.txt'' (drive_Apply id (\<lambda>_. True)
     [ex_put ''b2'' ''w2'', ex_put ''b1'' ''w1''] NewDrive)) = Some True"
proof -
  have "consistent id (concat [[ex_put ''b1'' ''w1''], [ex_put ''b2'' ''w2'']])" by code_simp
  moreover have "set (concat [[ex_put ''b1'' ''w1''], [ex_put ''b2'' ''w2'']]) = set [ex_put ''b2'' ''w2'', ex_put ''b1'' ''w1'']"
    by auto
  moreover have "set [ex_put ''b2'' ''w2'', ex_put ''b1'' ''w1''] = set ([ex_put ''b2'' ''w2''] @ [ex_put ''b1'' ''w1''])" by auto
  moreover have "map_option de_Conflicted (drive_Get id ''/docs/./a.txt'' (drive_Apply id (\<lambda>_. True)
     [ex_put ''b2'' ''w2'', ex_put ''b1'' ''w1''] NewDrive)) = Some True" by code_simp
  ultimately show ?thesis
    using drive_convergence [of id "[[ex_put ''b1'' ''w1''], [ex_put ''b2'' ''w2'']]"
        "[ex_put ''b2'' ''w2'', ex_put ''b1'' ''w1'']" "[ex_put ''b2'' ''w2'']" "[ex_put ''b1'' ''w1'']" "\<lambda>_. True" NewDrive]
    by blast
qed

theorem drive_key_clash_diverges_witness:
  "drive_Apply id (\<lambda>_. True) [ex_put ''b1'' ''w'', ex_put ''b2'' ''w''] NewDrive \<noteq>
   drive_Apply id (\<lambda>_. True) [ex_put ''b2'' ''w'', ex_put ''b1'' ''w''] NewDrive"
proof -
  have "drive_Validate id (\<lambda>_. True) (ex_put ''b1'' ''w'') = None" "drive_Validate id (\<lambda>_. True) (ex_put ''b2'' ''w'') = None"
    "\<not> drive_Foreign (ex_put ''b1'' ''w'')" "\<not> drive_Foreign (ex_put ''b2'' ''w'')"
    "dc_Op (ex_put ''b1'' ''w'') = OpPut" "dc_Op (ex_put ''b2'' ''w'') = OpPut"
    "normalisePath id (dc_Path (ex_put ''b1'' ''w'')) = normalisePath id (dc_Path (ex_put ''b2'' ''w''))"
    "dc_At (ex_put ''b1'' ''w'') = dc_At (ex_put ''b2'' ''w'')" "dc_Writer (ex_put ''b1'' ''w'') = dc_Writer (ex_put ''b2'' ''w'')"
    "drive_value (ex_put ''b1'' ''w'') \<noteq> drive_value (ex_put ''b2'' ''w'')"
    by code_simp+
  from drive_key_clash_diverges [OF this] show ?thesis by blast
qed

end
