(* ===== verification/DriveViews.thy ===== *)
theory DriveViews
  imports Drive
begin

text \<open>
  The reads of the vault drive: \<^verbatim>\<open>drive_conflict.go\<close> (conflicted copies) and
  \<^verbatim>\<open>drive_retention.go\<close> (the retention report), with the behaviour of the local writes \<open>PutMeta\<close>
  and \<open>Delete\<close> seen through the live heads.
\<close>

section \<open>Conflicted copies\<close>

record contentSeen =
  cs_blobs :: "string fset"
  cs_hashes :: "string fset"

definition seen_add :: "contentSeen \<Rightarrow> driveValue \<Rightarrow> contentSeen" where
  "seen_add s v =
     \<lparr>cs_blobs = finsert (dv_Blob v) (cs_blobs s),
      cs_hashes = (if PlaintextHash (dv_Meta v) \<noteq> [] then finsert (PlaintextHash (dv_Meta v)) (cs_hashes s)
                   else cs_hashes s)\<rparr>"

definition seen_has :: "contentSeen \<Rightarrow> driveValue \<Rightarrow> bool" where
  "seen_has s v \<longleftrightarrow> dv_Blob v |\<in>| cs_blobs s \<or>
     PlaintextHash (dv_Meta v) \<noteq> [] \<and> PlaintextHash (dv_Meta v) |\<in>| cs_hashes s"

definition newContentSeen :: "driveValue \<Rightarrow> contentSeen" where
  "newContentSeen v = seen_add \<lparr>cs_blobs = {||}, cs_hashes = {||}\<rparr> v"

definition splitExt :: "string \<Rightarrow> string \<times> string" where
  "splitExt file =
     (case LastIndexByte file (CHR ''.'') of
        None \<Rightarrow> (file, '''')
      | Some idx \<Rightarrow> if idx = 0 then (file, '''') else (take idx file, drop idx file))"

definition copy_suffix :: "nat \<Rightarrow> string" where
  "copy_suffix n = (if n > 1 then '' ('' @ dec n @ '')'' else '''')"

definition conflictPath :: "string \<Rightarrow> posKey \<Rightarrow> nat \<Rightarrow> string" where
  "conflictPath orig k n =
     (let (dir, file) = path_Split orig; (stem, ext) = splitExt file
      in dir @ stem @ '' (conflicted copy '' @ emdash @ '' '' @ Writer k @ '' '' @ emdash @ '' '' @
         dec (unat (At k)) @ '')'' @ copy_suffix n @ ext)"

lemma copy_suffix_inj: "1 \<le> m \<Longrightarrow> 1 \<le> n \<Longrightarrow> copy_suffix m = copy_suffix n \<longleftrightarrow> m = n"
  by (auto simp: copy_suffix_def dec_inj)

lemma conflictPath_inj: "inj_on (conflictPath orig k) {1..}"
  by (rule inj_onI) (auto simp: conflictPath_def copy_suffix_inj split: prod.splits)

text \<open>The loop of \<open>uniqueConflictPath\<close> from the number \<open>n\<close>. It ends: the candidates are pairwise
  different and only finitely many paths are taken.\<close>

function unique_from :: "string \<Rightarrow> posKey \<Rightarrow> string fset \<Rightarrow> string fset \<Rightarrow> nat \<Rightarrow> string" where
  "unique_from orig k occupied placed n =
     (let cand = conflictPath orig k n in
      if cand |\<notin>| occupied \<and> cand |\<notin>| placed then cand
      else unique_from orig k occupied placed (n + 1))"
  by pat_completeness auto

definition taken_from :: "string \<Rightarrow> posKey \<Rightarrow> string fset \<Rightarrow> string fset \<Rightarrow> nat \<Rightarrow> nat set" where
  "taken_from orig k occupied placed n = {m. n \<le> m \<and> conflictPath orig k m |\<in>| occupied |\<union>| placed}"

lemma finite_taken_from: "finite (taken_from orig k occupied placed n)"
proof (rule finite_subset)
  show "taken_from orig k occupied placed n \<subseteq> insert 0 (conflictPath orig k -` fset (occupied |\<union>| placed) \<inter> {1..})"
    by (auto simp: taken_from_def)
  show "finite (insert 0 (conflictPath orig k -` fset (occupied |\<union>| placed) \<inter> {1..}))"
    by (simp only: finite_insert) (rule finite_vimage_IntI [OF finite_fset conflictPath_inj])
qed

termination unique_from
proof (relation "measure (\<lambda>(orig, k, occupied, placed, n). card (taken_from orig k occupied placed n))")
  fix orig k n and occupied placed :: "string fset" and cand
  assume "cand = conflictPath orig k n" "\<not> (cand |\<notin>| occupied \<and> cand |\<notin>| placed)"
  then have "n \<in> taken_from orig k occupied placed n" by (auto simp: taken_from_def)
  moreover have "taken_from orig k occupied placed (n + 1) = taken_from orig k occupied placed n - {n}"
    by (auto simp: taken_from_def)
  ultimately have "card (taken_from orig k occupied placed (n + 1)) < card (taken_from orig k occupied placed n)"
    by (simp only: card_Diff1_less [OF finite_taken_from])
  then show "((orig, k, occupied, placed, n + 1), orig, k, occupied, placed, n)
      \<in> measure (\<lambda>(orig, k, occupied, placed, n). card (taken_from orig k occupied placed n))"
    by simp
qed simp

declare unique_from.simps [simp del]

definition uniqueConflictPath :: "string \<Rightarrow> posKey \<Rightarrow> string fset \<Rightarrow> string fset \<Rightarrow> string" where
  "uniqueConflictPath orig k occupied placed = unique_from orig k occupied placed 1"

lemma unique_from_fresh:
  "unique_from orig k occupied placed n |\<notin>| occupied \<and> unique_from orig k occupied placed n |\<notin>| placed \<and>
   (\<exists>m \<ge> n. unique_from orig k occupied placed n = conflictPath orig k m)"
proof (induction orig k occupied placed n rule: unique_from.induct)
  case (1 orig k occupied placed n)
  let ?cand = "conflictPath orig k n"
  show ?case
  proof (cases "?cand |\<notin>| occupied \<and> ?cand |\<notin>| placed")
    case True
    then show ?thesis by (auto simp: unique_from.simps [of orig k occupied placed n])
  next
    case False
    with 1 [OF refl False] show ?thesis
      by (auto simp: unique_from.simps [of orig k occupied placed n] intro: Suc_leD)
  qed
qed

text \<open>The losers of one path, newest first, without those whose content is already shown.\<close>

fun keep_losers :: "contentSeen \<Rightarrow> driveValue list \<Rightarrow> driveValue list" where
  "keep_losers seen [] = []"
| "keep_losers seen (l # ls) =
     (if \<not> seen_has seen l then l # keep_losers (seen_add seen l) ls else keep_losers seen ls)"

definition losers_of :: "driveRecord \<Rightarrow> driveValue list" where
  "losers_of rec =
     (let live = liveHeads rec in
      if live = [] then [] else keep_losers (newContentSeen (last live)) (rev (butlast live)))"

definition plain_entry :: "string \<Rightarrow> driveValue \<Rightarrow> DriveEntry" where
  "plain_entry p v = \<lparr>de_Path = p, de_Blob = dv_Blob v, de_Size = dv_Size v, de_MTime = dv_MTime v,
     de_Meta = dv_Meta v, de_Conflicted = False\<rparr>"

fun place_losers :: "string fset \<Rightarrow> string fset \<Rightarrow> (string \<times> driveValue) list \<Rightarrow> DriveEntry list" where
  "place_losers occupied placed [] = []"
| "place_losers occupied placed ((orig, v) # ls) =
     (let dp = uniqueConflictPath orig (dv_key v) occupied placed
      in plain_entry dp v # place_losers occupied (finsert dp placed) ls)"

text \<open>\<open>Resolved_via es\<close> walks the entry map in the order \<open>es\<close>.\<close>

definition Resolved_via :: "(string \<times> driveRecord) list \<Rightarrow> DriveEntry list" where
  "Resolved_via es =
     (let occupied = fset_of_list (map fst (filter (\<lambda>(p, rec). liveHeads rec \<noteq> []) es));
          winners = map (\<lambda>(p, rec). plain_entry p (last (liveHeads rec))) (filter (\<lambda>(p, rec). liveHeads rec \<noteq> []) es);
          losers = concat (map (\<lambda>(p, rec). map (Pair p) (losers_of rec)) es);
          sorted_losers = sort_key (\<lambda>(p, v). (p, dv_key v)) losers
      in sort_key de_Path (winners @ place_losers occupied {||} sorted_losers))"

definition Resolved :: "Drive \<Rightarrow> DriveEntry list" where
  "Resolved d = Resolved_via (sorted_list_of_fmap (drv_entries d))"

section \<open>Retention\<close>

record RetentionPolicy =
  MaxVersionsPerPath :: int
  TrashTTL :: int

text \<open>The age of a deleted path in nanoseconds: \<^verbatim>\<open>time.Duration(now.Unix()-newest) * time.Second\<close>, both
  operations on \<^verbatim>\<open>int64\<close>.\<close>

definition newest_mtime :: "driveValue list \<Rightarrow> int" where
  "newest_mtime vs = fold (\<lambda>v newest. if sint (dv_MTime v) > newest then sint (dv_MTime v) else newest) vs 0"

definition trash_age :: "int \<Rightarrow> driveValue list \<Rightarrow> int" where
  "trash_age now vs = wrap64 (wrap64 (now - newest_mtime vs) * 1000000000)"

definition kept_writes :: "RetentionPolicy \<Rightarrow> int \<Rightarrow> driveRecord \<Rightarrow> driveValue list" where
  "kept_writes policy now rec =
     (let live = liveHeads rec; vs = map snd (sorted_list_of_fmap (dr_values rec)) in
      live @
      (if live \<noteq> [] then
         (if MaxVersionsPerPath policy \<ge> 0 then take (nat (MaxVersionsPerPath policy)) (priorVersions rec)
          else priorVersions rec)
       else if TrashTTL policy < 0 then vs
       else if trash_age now vs \<le> TrashTTL policy then vs
       else []))"

definition Retain :: "RetentionPolicy \<Rightarrow> int \<Rightarrow> Drive \<Rightarrow> string list" where
  "Retain policy now d =
     (let recs = map snd (sorted_list_of_fmap (drv_entries d));
          all = concat (map (\<lambda>rec. concat (map (\<lambda>(k, v). refs v) (sorted_list_of_fmap (dr_values rec)))) recs);
          kept = concat (map (\<lambda>rec. concat (map refs (kept_writes policy now rec))) recs)
      in sorted_list_of_fset (fset_of_list all |-| fset_of_list kept))"

section \<open>Live heads\<close>

lemma in_set_butlast_last: "xs \<noteq> [] \<Longrightarrow> x \<in> set xs \<longleftrightarrow> x \<in> set (butlast xs) \<or> x = last xs"
  by (induction xs) auto

definition superseded :: "driveRecord \<Rightarrow> posKey \<Rightarrow> bool" where
  "superseded r k \<longleftrightarrow> k \<noteq> zeroKey \<and> (\<exists>k' v. fmlookup (dr_values r) k' = Some v \<and> dv_base v = k)"

lemma built_iff: "k |\<in>| built (dr_values r) \<longleftrightarrow> superseded r k"
proof -
  have "k |\<in>| built (dr_values r) \<longleftrightarrow> k \<noteq> zeroKey \<and> (\<exists>k' v. (k', v) \<in> set (sorted_list_of_fmap (dr_values r)) \<and> dv_base v = k)"
    by (force simp: built_def fset_of_list_elem)
  then show ?thesis by (simp add: superseded_def range_simps)
qed

lemma live_cond: "\<not> (dr_delKey r \<noteq> zeroKey \<and> greater (dr_delKey r) k) \<longleftrightarrow> dr_delKey r \<le> k"
  using zeroKey_least [of k] by (auto simp: greater_iff not_less)

lemma live_unsorted_eq:
  "live_unsorted r es = map snd (filter (\<lambda>(k, v). \<not> superseded r k \<and> dr_delKey r \<le> k) es)"
  unfolding live_unsorted_def built_iff live_cond ..

lemma mem_live_unsorted:
  "enumerates es (dr_values r) \<Longrightarrow>
   v \<in> set (live_unsorted r es) \<longleftrightarrow> (\<exists>k. fmlookup (dr_values r) k = Some v \<and> \<not> superseded r k \<and> dr_delKey r \<le> k)"
proof -
  assume e: "enumerates es (dr_values r)"
  have "v \<in> set (live_unsorted r es) \<longleftrightarrow> (\<exists>k. (k, v) \<in> set es \<and> \<not> superseded r k \<and> dr_delKey r \<le> k)"
    by (force simp: live_unsorted_eq)
  then show ?thesis by (simp add: enumerates_mem [OF e])
qed

lemma mem_liveHeads:
  "v \<in> set (liveHeads r) \<longleftrightarrow> (\<exists>k. fmlookup (dr_values r) k = Some v \<and> \<not> superseded r k \<and> dr_delKey r \<le> k)"
  by (simp add: liveHeads_def mem_live_unsorted [OF enumerates_sorted])

text \<open>The record invariant: a write is stored under its own key, which has a writer tag, and names a
  blob.\<close>

definition record_inv :: "driveRecord \<Rightarrow> bool" where
  "record_inv r \<longleftrightarrow> (\<forall>k v. fmlookup (dr_values r) k = Some v \<longrightarrow> dv_key v = k \<and> Writer k \<noteq> [] \<and> dv_Blob v \<noteq> [])"

lemma record_inv_live:
  "record_inv r \<Longrightarrow> v \<in> set (liveHeads r) \<longleftrightarrow>
   fmlookup (dr_values r) (dv_key v) = Some v \<and> \<not> superseded r (dv_key v) \<and> dr_delKey r \<le> dv_key v"
  by (auto simp: mem_liveHeads record_inv_def)

lemma distinct_live_unsorted:
  assumes "record_inv r" and "enumerates es (dr_values r)"
  shows "distinct (map dv_key (live_unsorted r es))"
proof -
  have "map dv_key (live_unsorted r es) = map fst (filter (\<lambda>(k, v). \<not> superseded r k \<and> dr_delKey r \<le> k) es)"
    unfolding live_unsorted_eq map_map
    using assms(1) enumerates_mem [OF assms(2)] by (intro map_cong) (auto simp: record_inv_def)
  then show ?thesis using assms(2) by (simp add: enumerates_def distinct_map_filter)
qed

lemma liveHeads_keys:
  assumes "record_inv r"
  shows "sorted (map dv_key (liveHeads r))" and "distinct (map dv_key (liveHeads r))"
proof -
  show "sorted (map dv_key (liveHeads r))" by (simp add: liveHeads_def)
  have "mset (map dv_key (liveHeads r)) = mset (map dv_key (live_unsorted r (sorted_list_of_fmap (dr_values r))))"
    by (simp add: liveHeads_def)
  then show "distinct (map dv_key (liveHeads r))"
    using distinct_live_unsorted [OF assms enumerates_sorted] by (metis mset_eq_imp_distinct_iff)
qed

text \<open>Whatever order Go walks the writes in, and whatever its unstable sort does, the live heads come
  out the same.\<close>

lemma liveHeads_any_order:
  assumes "record_inv r" and "enumerates es (dr_values r)"
  shows "sort_slice (\<lambda>a b. greater (dv_key b) (dv_key a)) (live_unsorted r es) out \<longleftrightarrow> out = liveHeads r"
proof -
  have inj: "inj_on dv_key (set (live_unsorted r es))"
    using distinct_live_unsorted [OF assms] by (simp add: distinct_map)
  have eq: "sort_key dv_key (live_unsorted r es) = liveHeads r"
    unfolding liveHeads_def
  proof (rule sort_key_perm_eq [OF _ inj])
    show "mset (live_unsorted r es) = mset (live_unsorted r (sorted_list_of_fmap (dr_values r)))"
      unfolding live_unsorted_eq mset_map mset_filter
      by (simp add: enumerates_mset_eq [OF assms(2) enumerates_sorted])
  qed
  show ?thesis
    unfolding greater_iff
    using sort_slice_unique [OF _ inj] sort_slice_sort_key [of dv_key "live_unsorted r es"] eq by metis
qed

lemma last_liveHeads:
  assumes "record_inv r" and "liveHeads r \<noteq> []" and "v \<in> set (liveHeads r)"
  shows "dv_key v \<le> dv_key (last (liveHeads r))"
proof -
  from assms(2,3) have "v \<in> set (butlast (liveHeads r) @ [last (liveHeads r)])" by simp
  moreover have "sorted (map dv_key (butlast (liveHeads r) @ [last (liveHeads r)]))"
    using liveHeads_keys(1) [OF assms(1)] assms(2) by simp
  ultimately show ?thesis by (auto simp: sorted_append)
qed

section \<open>The drive invariant\<close>

definition drive_inv :: "Drive \<Rightarrow> bool" where
  "drive_inv d \<longleftrightarrow>
     (\<forall>p r. fmlookup (drv_entries d) p = Some r \<longrightarrow>
        record_inv r \<and> At (dr_delKey r) \<le> drv_counter d \<and>
        (\<forall>k v. fmlookup (dr_values r) k = Some v \<longrightarrow> At k \<le> drv_counter d))"

lemma drive_inv_New: "drive_inv NewDrive"
  by (simp add: drive_inv_def NewDrive_def)

lemma drive_inv_entry_at:
  "drive_inv d \<Longrightarrow> record_inv (entry_at (drv_entries d) p) \<and> At (dr_delKey (entry_at (drv_entries d) p)) \<le> drv_counter d \<and>
   (\<forall>k v. fmlookup (dr_values (entry_at (drv_entries d) p)) k = Some v \<longrightarrow> At k \<le> drv_counter d)"
  by (cases "fmlookup (drv_entries d) p")
    (auto simp: drive_inv_def entry_at_def zeroRecord_def zeroKey_def record_inv_def)

lemma Validate_put: "drive_Validate nfc parse_ok c = None \<Longrightarrow> dc_Op c = OpPut \<Longrightarrow> dc_Blob c \<noteq> [] \<and> dc_Writer c \<noteq> []"
  by (auto simp: drive_Validate_def split: if_splits)

lemma drive_inv_applyOne:
  assumes "drive_inv d" and "drive_Validate nfc parse_ok c = None"
  shows "drive_inv (drive_applyOne nfc c d)"
proof -
  let ?np = "normalisePath nfc (dc_Path c)" and ?k = "PosKey (dc_At c) (dc_Writer c)"
  let ?r = "entry_at (drv_entries d) ?np" and ?d = "drive_applyOne nfc c d"
  let ?r' = "merge_record ?r (delta c)"
  have r': "fmlookup (drv_entries ?d) ?np = Some ?r'"
    by (cases "fmlookup (drv_entries d) ?np") (simp_all add: drive_applyOne_delta entry_at_def)
  have v': "fmlookup (dr_values ?r) k = Some v \<or> dc_Op c = OpPut \<and> k = ?k \<and> v = drive_value c"
    if "fmlookup (dr_values ?r') k = Some v" for k v
    using that by (auto simp: delta_def Let_def zeroRecord_def split: option.splits if_splits)
  have k': "dr_delKey ?r' = dr_delKey ?r \<or> dr_delKey ?r' = dr_delKey (delta c)" by (simp add: max_def)
  have dk: "At (dr_delKey (delta c)) \<le> dc_At c" by (simp add: delta_def Let_def zeroRecord_def zeroKey_def)
  have ctr: "drv_counter ?d = max (drv_counter d) (dc_At c)" by (simp add: drive_applyOne_delta)
  note old = drive_inv_entry_at [OF assms(1), of ?np]
  have "record_inv ?r'"
    using old v' Validate_put [OF assms(2)] unfolding record_inv_def by (fastforce simp: drive_value_def)
  moreover have "At (dr_delKey ?r') \<le> drv_counter ?d"
    using old k' dk by (auto simp: ctr le_max_iff_disj)
  moreover have "At k \<le> drv_counter ?d" if "fmlookup (dr_values ?r') k = Some v" for k v
    using old v' [OF that] by (auto simp: ctr le_max_iff_disj)
  moreover have "fmlookup (drv_entries ?d) p = fmlookup (drv_entries d) p" if "p \<noteq> ?np" for p
    using that by (simp add: drive_applyOne_delta)
  ultimately show ?thesis
    using assms(1) r' unfolding drive_inv_def ctr by (metis le_max_iff_disj option.inject)
qed

lemma drive_inv_step: "drive_inv d \<Longrightarrow> drive_inv (drive_step nfc parse_ok c d)"
  by (auto simp: drive_step_def intro: drive_inv_applyOne)

lemma drive_inv_Apply: "drive_inv d \<Longrightarrow> drive_inv (drive_Apply nfc parse_ok cs d)"
  unfolding drive_Apply_fold by (induction cs arbitrary: d) (auto simp: drive_inv_step)

lemma drive_inv_counter: "drive_inv d \<Longrightarrow> drv_counter d \<le> n \<Longrightarrow> drive_inv (d\<lparr>drv_counter := n\<rparr>)"
  unfolding drive_inv_def by (simp, blast intro: order.trans)

lemma nextAt_eq: "nextAt d = (sat_inc (drv_counter d), d\<lparr>drv_counter := sat_inc (drv_counter d)\<rparr>)"
  by (simp add: nextAt_def Let_def)

text \<open>The key a new write at a path builds on.\<close>

definition head_key :: "driveRecord \<Rightarrow> posKey" where
  "head_key r = (if liveHeads r = [] then zeroKey else dv_key (last (liveHeads r)))"

lemma PutMeta_Inr:
  assumes "PutMeta nfc parse_ok tag p blob sz mtime meta d = Inr (c, d')"
  shows "c = \<lparr>dc_Kind = KindDrive, dc_Op = OpPut, dc_Path = normalisePath nfc p, dc_Blob = blob, dc_Size = sz,
      dc_MTime = mtime, dc_Meta = meta, dc_At = sat_inc (drv_counter d), dc_Writer = tag,
      dc_Base = head_key (entry_at (drv_entries d) (normalisePath nfc p))\<rparr>"
    and "drive_Validate nfc parse_ok c = None"
    and "d' = drive_applyOne nfc c (d\<lparr>drv_counter := sat_inc (drv_counter d)\<rparr>)"
proof -
  have base: "(case currentHead r of Some (head, _) \<Rightarrow> dv_key head | None \<Rightarrow> zeroKey) = head_key r" for r
    by (simp add: currentHead_def head_key_def Let_def)
  note unfolded = assms [unfolded PutMeta_def Let_def nextAt_eq base]
  from unfolded show "c = \<lparr>dc_Kind = KindDrive, dc_Op = OpPut, dc_Path = normalisePath nfc p, dc_Blob = blob, dc_Size = sz,
      dc_MTime = mtime, dc_Meta = meta, dc_At = sat_inc (drv_counter d), dc_Writer = tag,
      dc_Base = head_key (entry_at (drv_entries d) (normalisePath nfc p))\<rparr>"
    by (simp split: option.splits)
  from unfolded show "drive_Validate nfc parse_ok c = None"
    by (auto simp: drive_Validate_def split: option.splits if_splits)
  from unfolded show "d' = drive_applyOne nfc c (d\<lparr>drv_counter := sat_inc (drv_counter d)\<rparr>)"
    by (auto split: option.splits)
qed

lemma Delete_Inr:
  assumes "Delete nfc parse_ok tag p d = Inr (c, d')"
  shows "c = \<lparr>dc_Kind = KindDrive, dc_Op = OpDelete, dc_Path = normalisePath nfc p, dc_Blob = [], dc_Size = 0,
      dc_MTime = 0, dc_Meta = zeroMeta, dc_At = sat_inc (drv_counter d), dc_Writer = tag, dc_Base = zeroKey\<rparr>"
    and "drive_Validate nfc parse_ok c = None"
    and "d' = drive_applyOne nfc c (d\<lparr>drv_counter := sat_inc (drv_counter d)\<rparr>)"
proof -
  note unfolded = assms [unfolded Delete_def Let_def nextAt_eq]
  from unfolded show "c = \<lparr>dc_Kind = KindDrive, dc_Op = OpDelete, dc_Path = normalisePath nfc p, dc_Blob = [], dc_Size = 0,
      dc_MTime = 0, dc_Meta = zeroMeta, dc_At = sat_inc (drv_counter d), dc_Writer = tag, dc_Base = zeroKey\<rparr>"
    by (simp split: option.splits)
  from unfolded show "drive_Validate nfc parse_ok c = None"
    by (auto simp: drive_Validate_def split: option.splits if_splits)
  from unfolded show "d' = drive_applyOne nfc c (d\<lparr>drv_counter := sat_inc (drv_counter d)\<rparr>)"
    by (auto split: option.splits)
qed

lemma drive_inv_local:
  assumes "drive_inv d"
  shows "PutMeta nfc parse_ok tag p blob sz mtime meta d = Inr (c, d') \<Longrightarrow> drive_inv d'"
    and "Delete nfc parse_ok tag p d = Inr (c, d') \<Longrightarrow> drive_inv d'"
proof -
  have "drive_inv (d\<lparr>drv_counter := sat_inc (drv_counter d)\<rparr>)"
    by (rule drive_inv_counter [OF assms sat_inc_ge])
  then show "PutMeta nfc parse_ok tag p blob sz mtime meta d = Inr (c, d') \<Longrightarrow> drive_inv d'"
    and "Delete nfc parse_ok tag p d = Inr (c, d') \<Longrightarrow> drive_inv d'"
    using drive_inv_applyOne PutMeta_Inr(2,3) Delete_Inr(2,3) by metis+
qed

lemma drive_inv_merge_into: "drive_inv a \<Longrightarrow> drive_inv b \<Longrightarrow> drive_inv (drive_merge_into a b)"
proof -
  assume a: "drive_inv a" and b: "drive_inv b"
  have "record_inv r \<and> At (dr_delKey r) \<le> max (drv_counter a) (drv_counter b) \<and>
      (\<forall>k v. fmlookup (dr_values r) k = Some v \<longrightarrow> At k \<le> max (drv_counter a) (drv_counter b))"
    if "join_opt merge_record (fmlookup (drv_entries a) p) (fmlookup (drv_entries b) p) = Some r" for p r
    using that a b
    by (cases "fmlookup (drv_entries a) p"; cases "fmlookup (drv_entries b) p")
      (auto simp: drive_inv_def record_inv_def le_max_iff_disj split: option.splits, (metis max_def)+)
  then show ?thesis by (simp add: drive_inv_def drive_merge_into_map)
qed

section \<open>Local writes\<close>

text \<open>The record at the written path after a local write.\<close>

lemma entry_at_put:
  assumes "nfc_ok nfc" and "PutMeta nfc parse_ok tag p blob sz mtime meta d = Inr (c, d')"
  shows "entry_at (drv_entries d') (normalisePath nfc p) =
    (entry_at (drv_entries d) (normalisePath nfc p))
      \<lparr>dr_values := fmupd (PosKey (dc_At c) (dc_Writer c)) (drive_value c)
         (dr_values (entry_at (drv_entries d) (normalisePath nfc p)))\<rparr>"
    and "fmlookup (drv_entries d') (normalisePath nfc p) \<noteq> None"
  unfolding PutMeta_Inr(1,3) [OF assms(2)]
  by (simp_all add: drive_applyOne_def Let_def normalisePath_idem [OF assms(1)] OpPut_def OpDelete_def entry_at_def
      split: option.splits)

lemma entry_at_delete:
  assumes "nfc_ok nfc" and "Delete nfc parse_ok tag p d = Inr (c, d')" and "drive_inv d" and "drv_counter d < max_u64"
  shows "entry_at (drv_entries d') (normalisePath nfc p) =
    (entry_at (drv_entries d) (normalisePath nfc p)) \<lparr>dr_delKey := PosKey (dc_At c) (dc_Writer c)\<rparr>"
    and "fmlookup (drv_entries d') (normalisePath nfc p) \<noteq> None"
proof -
  let ?r = "entry_at (drv_entries d) (normalisePath nfc p)"
  have "At (dr_delKey ?r) < sat_inc (drv_counter d)"
    using drive_inv_entry_at [OF assms(3)] sat_inc_gt [OF assms(4)] by (meson le_less_trans)
  then have "greater (PosKey (sat_inc (drv_counter d)) tag) (dr_delKey ?r)" by (auto simp: greater_def)
  then show "entry_at (drv_entries d') (normalisePath nfc p) = ?r \<lparr>dr_delKey := PosKey (dc_At c) (dc_Writer c)\<rparr>"
    and "fmlookup (drv_entries d') (normalisePath nfc p) \<noteq> None"
    unfolding Delete_Inr(1,3) [OF assms(2)]
    by (simp_all add: drive_applyOne_def Let_def normalisePath_idem [OF assms(1)] entry_at_def split: option.splits)
qed

lemma key_below: "At k \<le> n \<Longrightarrow> n < a \<Longrightarrow> k < PosKey a w"
  by (cases k) (auto simp: less_posKey_def greater_def)

text \<open>A put adds its write as the greatest head and takes out the head it was built on, and nothing
  else.\<close>

lemma liveHeads_put:
  assumes inv: "record_inv r" and dk: "At (dr_delKey r) \<le> n" and ks: "\<And>k v. fmlookup (dr_values r) k = Some v \<Longrightarrow> At k \<le> n"
    and new: "n < At (dv_key v)" "dv_base v = head_key r" "dv_Blob v \<noteq> []" "Writer (dv_key v) \<noteq> []"
    and fresh: "\<And>k w. fmlookup (dr_values r) k = Some w \<Longrightarrow> Writer (dv_base w) \<noteq> Writer (dv_key v)"
  shows "liveHeads (r\<lparr>dr_values := fmupd (dv_key v) v (dr_values r)\<rparr>) = butlast (liveHeads r) @ [v]"
    (is "liveHeads ?r = _")
proof -
  let ?L = "liveHeads r"
  have new_key: "k < dv_key v" if "fmlookup (dr_values r) k = Some w" for k w
    using key_below [OF ks [OF that] new(1), of "Writer (dv_key v)"] by simp
  then have none: "fmlookup (dr_values r) (dv_key v) = None" by (cases "fmlookup (dr_values r) (dv_key v)") auto
  have inv': "record_inv ?r" using inv new(3,4) by (auto simp: record_inv_def)
  have sup: "superseded ?r k \<longleftrightarrow> superseded r k \<or> k \<noteq> zeroKey \<and> k = head_key r" for k
    using none new(2) by (auto simp: superseded_def split: if_splits) (metis option.distinct(1))+
  have hk: "head_key r < dv_key v"
  proof (cases "?L = []")
    case True
    have "zeroKey < dv_key v" using zeroKey_least [of "dv_key v"] new(4) by (metis le_less posKey.sel(2) zeroKey_def)
    with True show ?thesis by (simp add: head_key_def)
  next
    case False
    then have "last ?L \<in> set ?L" by simp
    then show ?thesis using False new_key by (auto simp: record_inv_live [OF inv] head_key_def)
  qed
  have not_sup: "\<not> superseded ?r (dv_key v)"
    using hk unfolding sup unfolding superseded_def [of r] by (metis fresh less_irrefl)
  have del: "dr_delKey r \<le> dv_key v" using key_below [OF dk new(1), of "Writer (dv_key v)"] by simp
  have "w \<in> set (liveHeads ?r) \<longleftrightarrow> w \<in> set (butlast ?L @ [v])" for w
  proof (cases "w = v")
    case True
    then show ?thesis using not_sup del by (simp add: record_inv_live [OF inv'])
  next
    case False
    have look: "fmlookup (dr_values ?r) (dv_key w) = Some w \<longleftrightarrow> fmlookup (dr_values r) (dv_key w) = Some w"
      using False none by auto
    have "dv_key w \<noteq> zeroKey" if "fmlookup (dr_values r) (dv_key w) = Some w"
      using that inv unfolding record_inv_def by (metis posKey.sel(2) zeroKey_def)
    then have "w \<in> set (liveHeads ?r) \<longleftrightarrow> w \<in> set ?L \<and> dv_key w \<noteq> head_key r"
      unfolding record_inv_live [OF inv'] record_inv_live [OF inv] sup look by auto
    also have "\<dots> \<longleftrightarrow> w \<in> set (butlast ?L)"
    proof (cases "?L = []")
      case False
      then have L: "?L = butlast ?L @ [last ?L]" by simp
      have "distinct (map dv_key (butlast ?L @ [last ?L]))" using liveHeads_keys(2) [OF inv] L by simp
      then have "dv_key w \<noteq> dv_key (last ?L)" if "w \<in> set (butlast ?L)"
        using that by simp (metis image_eqI)
      then show ?thesis using False by (auto simp: head_key_def in_set_butlast_last)
    qed simp
    finally show ?thesis using False by simp
  qed
  moreover have "sorted (map dv_key (butlast ?L @ [v]))" and "distinct (map dv_key (butlast ?L @ [v]))"
  proof -
    have "dv_key w < dv_key v" if "w \<in> set (butlast ?L)" for w
      using in_set_butlastD [OF that] new_key by (auto simp: record_inv_live [OF inv])
    moreover have "sorted (map dv_key (butlast ?L))" "distinct (map dv_key (butlast ?L))"
      using liveHeads_keys [OF inv] by (simp_all add: map_butlast sorted_butlast distinct_butlast)
    ultimately show "sorted (map dv_key (butlast ?L @ [v]))" and "distinct (map dv_key (butlast ?L @ [v]))"
      by (auto simp: sorted_append intro: less_imp_le) (metis less_irrefl)
  qed
  ultimately show ?thesis
    using liveHeads_keys [OF inv'] by (intro strict_keys_unique [where key = dv_key]) auto
qed

section \<open>Version history\<close>

lemma dedup_fold:
  fixes f :: "'a \<Rightarrow> 'b"
  defines "step \<equiv> \<lambda>v out. if f v \<in> f ` set out then out else out @ [v]"
  shows "f ` set (fold step xs acc) = f ` set acc \<union> f ` set xs"
    and "distinct (map f acc) \<Longrightarrow> distinct (map f (fold step xs acc))"
  by (induction xs arbitrary: acc) (auto simp: step_def split: if_splits)

lemma priorVersions_blobs:
  assumes "record_inv r"
  shows "dv_Blob ` set (priorVersions r) =
      {dv_Blob v |k v. fmlookup (dr_values r) k = Some v} - dv_Blob ` set (liveHeads r)"
    and "distinct (map dv_Blob (priorVersions r))"
proof -
  let ?live = "liveHeads r"
  let ?es = "sorted_list_of_fmap (dr_values r)"
  let ?prior = "map snd (filter (\<lambda>(k, v). k \<notin> dv_key ` set ?live \<and> dv_Blob v \<noteq> [] \<and> dv_Blob v \<notin> dv_Blob ` set ?live) ?es)"
  have pv: "priorVersions r = fold (\<lambda>v out. if dv_Blob v \<in> dv_Blob ` set out then out else out @ [v]) (rev (sort_key dv_key ?prior)) []"
    by (simp add: priorVersions_def Let_def)
  have "dv_Blob ` set (priorVersions r) = dv_Blob ` set ?prior"
    unfolding pv dedup_fold(1) by simp
  also have "\<dots> = {dv_Blob v |k v. (k, v) \<in> set ?es} - dv_Blob ` set ?live" (is "?A = ?B")
  proof
    show "?A \<subseteq> ?B" by auto
    have key: "dv_Blob v \<in> dv_Blob ` set ?live" if "k \<in> dv_key ` set ?live" "(k, v) \<in> set ?es" for k v
      using that by (auto simp: range_simps record_inv_live [OF assms])
    show "?B \<subseteq> ?A"
    proof
      fix b
      assume "b \<in> ?B"
      then obtain k v where kv: "(k, v) \<in> set ?es" "b = dv_Blob v" "b \<notin> dv_Blob ` set ?live" by auto
      moreover have "dv_Blob v \<noteq> []" using kv(1) assms by (auto simp: range_simps record_inv_def)
      ultimately have "(k, v) \<in> set (filter (\<lambda>(k, v). k \<notin> dv_key ` set ?live \<and> dv_Blob v \<noteq> [] \<and> dv_Blob v \<notin> dv_Blob ` set ?live) ?es)"
        using key by auto
      then show "b \<in> ?A" using kv(2) by force
    qed
  qed
  finally show "dv_Blob ` set (priorVersions r) =
      {dv_Blob v |k v. fmlookup (dr_values r) k = Some v} - dv_Blob ` set (liveHeads r)"
    by (simp add: range_simps)
  show "distinct (map dv_Blob (priorVersions r))"
    unfolding pv by (rule dedup_fold(2)) simp
qed

section \<open>Relocation\<close>

definition same_content :: "driveValue \<Rightarrow> driveValue \<Rightarrow> bool" where
  "same_content v w \<longleftrightarrow> dv_Blob v = dv_Blob w \<or>
     PlaintextHash (dv_Meta v) \<noteq> [] \<and> PlaintextHash (dv_Meta v) = PlaintextHash (dv_Meta w)"

lemma seen_has_add: "seen_has (seen_add s v) l \<longleftrightarrow> seen_has s l \<or> same_content l v"
  by (auto simp: seen_has_def seen_add_def same_content_def)

lemma seen_has_new: "seen_has (newContentSeen v) l \<longleftrightarrow> same_content l v"
  by (simp add: newContentSeen_def seen_has_add) (simp add: seen_has_def)

lemma keep_losers_subset: "set (keep_losers s ls) \<subseteq> set ls"
  by (induction s ls rule: keep_losers.induct) auto

lemma keep_losers_content: "l \<in> set ls \<Longrightarrow> seen_has s l \<or> (\<exists>l' \<in> set (keep_losers s ls). same_content l l')"
  by (induction s ls rule: keep_losers.induct) (auto simp: seen_has_add same_content_def)

lemma keep_losers_distinct: "distinct ls \<Longrightarrow> distinct (keep_losers s ls)"
proof (induction s ls rule: keep_losers.induct)
  case (2 seen l ls)
  then show ?case using keep_losers_subset [of "seen_add seen l" ls] by auto
qed simp

lemma losers_of_live: "set (losers_of r) \<subseteq> set (liveHeads r)"
  using keep_losers_subset [of "newContentSeen (last (liveHeads r))" "rev (butlast (liveHeads r))"]
  by (auto simp: losers_of_def Let_def dest: in_set_butlastD)

lemma losers_of_content:
  assumes "v \<in> set (liveHeads r)"
  shows "same_content v (last (liveHeads r)) \<or> (\<exists>l \<in> set (losers_of r). same_content v l)"
proof -
  let ?L = "liveHeads r"
  from assms have ne: "?L \<noteq> []" by auto
  then have "v \<in> set (rev (butlast ?L)) \<or> v = last ?L"
    using assms by (simp add: in_set_butlast_last)
  then show ?thesis
  proof
    assume "v \<in> set (rev (butlast ?L))"
    then show ?thesis
      using keep_losers_content [of v "rev (butlast ?L)" "newContentSeen (last ?L)"] ne
      by (auto simp: seen_has_new losers_of_def Let_def)
  qed (simp add: same_content_def)
qed

lemma place_losers_paths:
  "distinct (map de_Path (place_losers occupied placed ls)) \<and>
   (\<forall>e \<in> set (place_losers occupied placed ls). de_Path e |\<notin>| occupied \<and> de_Path e |\<notin>| placed)"
proof (induction occupied placed ls rule: place_losers.induct)
  case (2 occupied placed orig v ls)
  let ?dp = "uniqueConflictPath orig (dv_key v) occupied placed"
  have "?dp |\<notin>| occupied" "?dp |\<notin>| placed"
    using unique_from_fresh by (auto simp: uniqueConflictPath_def)
  moreover note 2 [OF refl]
  ultimately show ?case by (auto simp: Let_def plain_entry_def)
qed simp

lemma place_losers_fst: "(p, v) \<in> set ls \<Longrightarrow> \<exists>dp. plain_entry dp v \<in> set (place_losers occupied placed ls)"
  by (induction occupied placed ls rule: place_losers.induct) (auto simp: Let_def)

lemma place_losers_snd: "e \<in> set (place_losers occupied placed ls) \<Longrightarrow> \<exists>p v. (p, v) \<in> set ls \<and> e = plain_entry (de_Path e) v"
  by (induction occupied placed ls rule: place_losers.induct) (auto simp: Let_def plain_entry_def, (metis (no_types))+)

text \<open>The entries \<open>Resolved_via\<close> produces, before the final sort: occupied paths, winners, losers.\<close>

definition live_paths :: "(string \<times> driveRecord) list \<Rightarrow> (string \<times> driveRecord) list" where
  "live_paths es = filter (\<lambda>(p, rec). liveHeads rec \<noteq> []) es"

definition all_losers :: "(string \<times> driveRecord) list \<Rightarrow> (string \<times> driveValue) list" where
  "all_losers es = sort_key (\<lambda>(p, v). (p, dv_key v)) (concat (map (\<lambda>(p, rec). map (Pair p) (losers_of rec)) es))"

definition resolved_entries :: "(string \<times> driveRecord) list \<Rightarrow> DriveEntry list" where
  "resolved_entries es = map (\<lambda>(p, rec). plain_entry p (last (liveHeads rec))) (live_paths es) @
     place_losers (fset_of_list (map fst (live_paths es))) {||} (all_losers es)"

lemma Resolved_via_eq: "Resolved_via es = sort_key de_Path (resolved_entries es)"
  by (simp add: Resolved_via_def resolved_entries_def live_paths_def all_losers_def Let_def)

lemma mem_all_losers: "(p, v) \<in> set (all_losers es) \<longleftrightarrow> (\<exists>rec. (p, rec) \<in> set es \<and> v \<in> set (losers_of rec))"
  by (auto simp: all_losers_def)

lemma resolved_entries_paths:
  assumes "distinct (map fst es)"
  shows "distinct (map de_Path (resolved_entries es))"
proof -
  let ?occ = "fset_of_list (map fst (live_paths es))"
  have w: "map de_Path (map (\<lambda>(p, rec). plain_entry p (last (liveHeads rec))) (live_paths es)) = map fst (live_paths es)"
    by (simp add: plain_entry_def case_prod_beta comp_def)
  moreover have "distinct (map fst (live_paths es))"
    using assms by (simp add: live_paths_def distinct_map_filter)
  moreover have "map de_Path (resolved_entries es) =
      map fst (live_paths es) @ map de_Path (place_losers ?occ {||} (all_losers es))"
    by (simp only: resolved_entries_def map_append w)
  moreover have "set (map fst (live_paths es)) \<inter> set (map de_Path (place_losers ?occ {||} (all_losers es))) = {}"
    using place_losers_paths [of ?occ "{||}" "all_losers es"]
    by (auto simp: fset_of_list_elem simp del: fset_of_list_map) (metis fst_conv image_eqI)
  ultimately show ?thesis
    using place_losers_paths [of ?occ "{||}" "all_losers es"] by simp
qed

lemma resolved_entries_any_order:
  assumes "enumerates es m" and "enumerates es' m" and "\<And>p r. fmlookup m p = Some r \<Longrightarrow> record_inv r"
  shows "Resolved_via es = Resolved_via es'"
proof -
  have m: "mset es = mset es'" using enumerates_mset_eq [OF assms(1,2)] .
  have lp: "mset (live_paths es) = mset (live_paths es')" using m by (simp add: live_paths_def)
  have "inj_on (\<lambda>(p, v). (p, dv_key v)) (set (all_losers es))"
  proof (rule inj_onI)
    fix x y
    assume a: "x \<in> set (all_losers es)" "y \<in> set (all_losers es)"
      "(case x of (p, v) \<Rightarrow> (p, dv_key v)) = (case y of (p, v) \<Rightarrow> (p, dv_key v))"
    obtain p v w where xy: "x = (p, v)" "y = (p, w)" "dv_key v = dv_key w" using a(3) by (cases x; cases y) auto
    then obtain r r' where "(p, r) \<in> set es" "v \<in> set (losers_of r)" "(p, r') \<in> set es" "w \<in> set (losers_of r')"
      using a(1,2) mem_all_losers by blast
    then have "fmlookup m p = Some r" "v \<in> set (liveHeads r)" "w \<in> set (liveHeads r)"
      using enumerates_mem [OF assms(1)] losers_of_live by auto
    then have "v = w" using xy(3) record_inv_live [OF assms(3)] by (metis option.inject)
    with xy show "x = y" by simp
  qed
  then have inj: "inj_on (\<lambda>(p, v). (p, dv_key v)) (set (concat (map (\<lambda>(p, rec). map (Pair p) (losers_of rec)) es)))"
    by (simp add: all_losers_def)
  have "mset (concat (map (\<lambda>(p, rec). map (Pair p) (losers_of rec)) es)) =
      mset (concat (map (\<lambda>(p, rec). map (Pair p) (losers_of rec)) es'))"
    unfolding mset_concat map_map
    by (metis (no_types, lifting) m mset_map sum_mset_sum_list)
  then have al: "all_losers es = all_losers es'"
    unfolding all_losers_def by (rule sort_key_perm_eq [OF _ inj])
  have occ: "fset_of_list (map fst (live_paths es)) = fset_of_list (map fst (live_paths es'))"
    using lp by (metis fset_of_list.abs_eq fset_of_list_map mset_eq_setD fset_of_list.rep_eq fset_inject)
  have "mset (resolved_entries es) = mset (resolved_entries es')"
    unfolding resolved_entries_def al occ using lp by simp
  moreover have "inj_on de_Path (set (resolved_entries es))"
    using resolved_entries_paths [of es] assms(1) by (simp add: enumerates_def distinct_map)
  ultimately show ?thesis unfolding Resolved_via_eq by (rule sort_key_perm_eq)
qed

lemma drive_inv_record: "drive_inv d \<Longrightarrow> fmlookup (drv_entries d) p = Some r \<Longrightarrow> record_inv r"
  by (simp add: drive_inv_def)

section \<open>Properties\<close>

text \<open>The drive invariant (a write is stored under its own tagged key, names a blob, and no key
  is ahead of the Lamport clock) holds of the empty drive and is kept by folding any changes, by
  the local writes and by merging.\<close>

theorem drive_invariant:
  assumes "drive_inv d" and "drive_inv d2"
  shows "drive_inv NewDrive \<and> drive_inv (drive_Apply nfc parse_ok cs d) \<and>
    drive_inv (MergeDrives [Some d, None, Some d2]) \<and>
    (\<forall>c d'. PutMeta nfc parse_ok tag p blob sz mtime meta d = Inr (c, d') \<longrightarrow> drive_inv d') \<and>
    (\<forall>c d'. Delete nfc parse_ok tag p d = Inr (c, d') \<longrightarrow> drive_inv d')"
proof (intro conjI allI impI)
  show "drive_inv (MergeDrives [Some d, None, Some d2])"
    using assms by (simp add: MergeDrives_def drive.merge_init drive_inv_merge_into drive_inv_New)
qed (use assms in \<open>auto intro: drive_inv_New drive_inv_Apply drive_inv_local\<close>)

text \<open>A local put is what the path then shows. On a drive whose clock is not saturated, with a
  writer tag no stored write refers to, the live heads at the path become the old ones with the
  head it was built on replaced by the new write; \<^verbatim>\<open>Get\<close> returns the new content, flagged conflicted
  exactly if there were several heads before; no other path changes; and every blob ever
  written at the path is still live or in \<^verbatim>\<open>Versions\<close>, which lists no blob twice.\<close>

theorem drive_put:
  assumes "nfc_ok nfc" and "drive_inv d" and "drv_counter d < max_u64"
    and "PutMeta nfc parse_ok tag p blob sz mtime meta d = Inr (c, d')"
    and "\<forall>k w. fmlookup (dr_values (entry_at (drv_entries d) (normalisePath nfc p))) k = Some w \<longrightarrow> Writer (dv_base w) \<noteq> tag"
  shows "liveHeads (entry_at (drv_entries d') (normalisePath nfc p)) =
      butlast (liveHeads (entry_at (drv_entries d) (normalisePath nfc p))) @ [drive_value c] \<and>
    drive_Get nfc p d' = Some \<lparr>de_Path = normalisePath nfc p, de_Blob = blob, de_Size = sz, de_MTime = mtime, de_Meta = meta,
      de_Conflicted = (length (liveHeads (entry_at (drv_entries d) (normalisePath nfc p))) > 1)\<rparr> \<and>
    (\<forall>q. q \<noteq> normalisePath nfc p \<longrightarrow> fmlookup (drv_entries d') q = fmlookup (drv_entries d) q) \<and>
    (\<forall>k v. fmlookup (dr_values (entry_at (drv_entries d') (normalisePath nfc p))) k = Some v \<longrightarrow>
      dv_Blob v \<in> set (Versions nfc p d') \<or> dv_Blob v \<in> dv_Blob ` set (liveHeads (entry_at (drv_entries d') (normalisePath nfc p)))) \<and>
    distinct (Versions nfc p d')"
proof -
  let ?np = "normalisePath nfc p"
  let ?r = "entry_at (drv_entries d) ?np" and ?r' = "entry_at (drv_entries d') ?np"
  note c = PutMeta_Inr [OF assms(4)]
  note inv = drive_inv_entry_at [OF assms(2), of ?np]
  have blob: "blob \<noteq> []" and tag: "tag \<noteq> []" using Validate_put [OF c(2)] c(1) by auto
  have vc: "dv_key (drive_value c) = PosKey (dc_At c) (dc_Writer c)" by (simp add: drive_value_def)
  have heads: "liveHeads ?r' = butlast (liveHeads ?r) @ [drive_value c]"
    unfolding entry_at_put [OF assms(1,4)] vc [symmetric]
    using inv assms(5) blob tag
    by (intro liveHeads_put [where n = "drv_counter d"])
      (auto simp: c(1) drive_value_def sat_inc_gt [OF assms(3)])
  obtain rec where rec: "fmlookup (drv_entries d') ?np = Some rec" "rec = ?r'"
    using entry_at_put(2) [OF assms(1,4)] by (auto simp: entry_at_def)
  have get: "drive_Get nfc p d' = Some \<lparr>de_Path = ?np, de_Blob = blob, de_Size = sz, de_MTime = mtime, de_Meta = meta,
      de_Conflicted = (length (liveHeads ?r) > 1)\<rparr>"
    using blob by (simp add: drive_Get_def rec entry_of_def currentHead_def heads Let_def drive_value_def c(1))
  have other: "fmlookup (drv_entries d') q = fmlookup (drv_entries d) q" if "q \<noteq> ?np" for q
    using that unfolding c(3) by (simp add: drive_applyOne_delta c(1) normalisePath_idem [OF assms(1)])
  have inv': "record_inv ?r'" using drive_inv_entry_at drive_inv_local(1) [OF assms(2,4)] by blast
  have vers: "Versions nfc p d' = map dv_Blob (priorVersions ?r')" by (simp add: Versions_def rec)
  have kept: "dv_Blob v \<in> set (Versions nfc p d') \<or> dv_Blob v \<in> dv_Blob ` set (liveHeads ?r')"
    if "fmlookup (dr_values ?r') k = Some v" for k v
    unfolding vers set_map priorVersions_blobs(1) [OF inv'] using that by blast
  show ?thesis
    using heads get other kept priorVersions_blobs(2) [OF inv'] unfolding vers by (intro conjI allI impI) simp_all
qed

text \<open>A local delete hides the path and keeps its history. On a drive whose clock is not
  saturated no head is live afterwards, \<^verbatim>\<open>Get\<close> finds nothing, every write stays stored and every
  blob that was written is listed in \<^verbatim>\<open>Versions\<close>.\<close>

theorem drive_delete:
  assumes "nfc_ok nfc" and "drive_inv d" and "drv_counter d < max_u64" and "Delete nfc parse_ok tag p d = Inr (c, d')"
  shows "drive_Get nfc p d' = None \<and> liveHeads (entry_at (drv_entries d') (normalisePath nfc p)) = [] \<and>
    dr_values (entry_at (drv_entries d') (normalisePath nfc p)) = dr_values (entry_at (drv_entries d) (normalisePath nfc p)) \<and>
    set (Versions nfc p d') = {dv_Blob v |k v. fmlookup (dr_values (entry_at (drv_entries d) (normalisePath nfc p))) k = Some v}"
proof -
  let ?np = "normalisePath nfc p"
  let ?r = "entry_at (drv_entries d) ?np" and ?r' = "entry_at (drv_entries d') ?np"
  note e = entry_at_delete [OF assms(1,4,2,3)]
  note c = Delete_Inr [OF assms(4)]
  have "k < PosKey (dc_At c) (dc_Writer c)" if "fmlookup (dr_values ?r) k = Some v" for k v
    using drive_inv_entry_at [OF assms(2), of ?np] that sat_inc_gt [OF assms(3)]
    by (intro key_below [where n = "drv_counter d"]) (auto simp: c(1))
  then have "v \<notin> set (liveHeads ?r')" for v
    unfolding e(1) mem_liveHeads by (auto simp: not_le)
  then have heads: "liveHeads ?r' = []" by (meson last_in_set)
  obtain rec where rec: "fmlookup (drv_entries d') ?np = Some rec" "rec = ?r'"
    using e(2) by (auto simp: entry_at_def)
  have vals: "dr_values ?r' = dr_values ?r" by (simp add: e(1))
  have inv': "record_inv ?r'" using drive_inv_entry_at drive_inv_local(2) [OF assms(2,4)] by blast
  have "set (Versions nfc p d') = dv_Blob ` set (priorVersions ?r')" by (simp add: Versions_def rec)
  then have "set (Versions nfc p d') = {dv_Blob v |k v. fmlookup (dr_values ?r) k = Some v}"
    using priorVersions_blobs(1) [OF inv'] by (simp add: heads vals)
  moreover have "drive_Get nfc p d' = None"
    by (simp add: drive_Get_def rec entry_of_def currentHead_def heads)
  ultimately show ?thesis using heads vals by blast
qed

text \<open>C4: the tree a client renders. \<^verbatim>\<open>Resolved\<close> puts the winner of every live path at that path,
  shows the content of every live head somewhere (the same blob, or the same recorded plaintext
  hash), shows nothing that is not a live head, never puts two files at one path, and does not
  depend on the order in which Go walks the entry map. Each relocation finds a free path.\<close>

theorem drive_resolved:
  assumes "drive_inv d" and "enumerates es (drv_entries d)"
  shows "distinct (map de_Path (Resolved d)) \<and> sorted (map de_Path (Resolved d)) \<and> Resolved_via es = Resolved d \<and>
    (\<forall>p r. fmlookup (drv_entries d) p = Some r \<and> liveHeads r \<noteq> [] \<longrightarrow>
       plain_entry p (last (liveHeads r)) \<in> set (Resolved d)) \<and>
    (\<forall>p r v. fmlookup (drv_entries d) p = Some r \<and> v \<in> set (liveHeads r) \<longrightarrow>
       (\<exists>q w. same_content v w \<and> w \<in> set (liveHeads r) \<and> plain_entry q w \<in> set (Resolved d))) \<and>
    (\<forall>e \<in> set (Resolved d). \<exists>p r v. fmlookup (drv_entries d) p = Some r \<and> v \<in> set (liveHeads r) \<and> e = plain_entry (de_Path e) v)"
proof -
  let ?es = "sorted_list_of_fmap (drv_entries d)"
  have mem: "set (Resolved d) = set (resolved_entries ?es)" by (simp add: Resolved_def Resolved_via_eq)
  have "mset (map de_Path (Resolved d)) = mset (map de_Path (resolved_entries ?es))"
    by (simp add: Resolved_def Resolved_via_eq)
  then have dist: "distinct (map de_Path (Resolved d))"
    using resolved_entries_paths [of ?es] enumerates_sorted [of "drv_entries d"]
    by (metis enumerates_def mset_eq_imp_distinct_iff)
  have sorted: "sorted (map de_Path (Resolved d))" by (simp add: Resolved_def Resolved_via_eq)
  have order: "Resolved_via es = Resolved d"
    unfolding Resolved_def using assms(2) enumerates_sorted drive_inv_record [OF assms(1)]
    by (rule resolved_entries_any_order)
  have winner: "plain_entry p (last (liveHeads r)) \<in> set (Resolved d)"
    if "fmlookup (drv_entries d) p = Some r" "liveHeads r \<noteq> []" for p r
    unfolding mem resolved_entries_def using that by (force simp: live_paths_def range_simps)
  have shown: "\<exists>q w. same_content v w \<and> w \<in> set (liveHeads r) \<and> plain_entry q w \<in> set (Resolved d)"
    if "fmlookup (drv_entries d) p = Some r" "v \<in> set (liveHeads r)" for p r v
    using losers_of_content [OF that(2)]
  proof
    assume "same_content v (last (liveHeads r))"
    then show ?thesis using that winner [OF that(1)] by (metis empty_iff empty_set last_in_set)
  next
    assume "\<exists>l \<in> set (losers_of r). same_content v l"
    then obtain l where l: "l \<in> set (losers_of r)" "same_content v l" by blast
    then have "(p, l) \<in> set (all_losers ?es)" using that(1) by (auto simp: mem_all_losers range_simps)
    from place_losers_fst [OF this] obtain q where "plain_entry q l \<in> set (Resolved d)"
      unfolding mem resolved_entries_def by fastforce
    then show ?thesis using l losers_of_live by blast
  qed
  have only: "\<exists>p r v. fmlookup (drv_entries d) p = Some r \<and> v \<in> set (liveHeads r) \<and> e = plain_entry (de_Path e) v"
    if "e \<in> set (Resolved d)" for e
  proof -
    from that have "e \<in> set (map (\<lambda>(p, rec). plain_entry p (last (liveHeads rec))) (live_paths ?es)) \<or>
        e \<in> set (place_losers (fset_of_list (map fst (live_paths ?es))) {||} (all_losers ?es))"
      unfolding mem resolved_entries_def by simp
    then show ?thesis
    proof
      assume "e \<in> set (map (\<lambda>(p, rec). plain_entry p (last (liveHeads rec))) (live_paths ?es))"
      then obtain p r where "e = plain_entry p (last (liveHeads r))" "fmlookup (drv_entries d) p = Some r" "liveHeads r \<noteq> []"
        by (auto simp: live_paths_def range_simps)
      then show ?thesis by (metis DriveEntry.select_convs(1) last_in_set plain_entry_def)
    next
      assume "e \<in> set (place_losers (fset_of_list (map fst (live_paths ?es))) {||} (all_losers ?es))"
      from place_losers_snd [OF this] show ?thesis
        using losers_of_live by (fastforce simp: mem_all_losers range_simps)
    qed
  qed
  show ?thesis using dist sorted order winner shown only by blast
qed

lemma mem_Retain:
  "b \<in> set (Retain policy now d) \<longleftrightarrow>
     (\<exists>p r k v. fmlookup (drv_entries d) p = Some r \<and> fmlookup (dr_values r) k = Some v \<and> b \<in> set (refs v)) \<and>
     \<not> (\<exists>p r v. fmlookup (drv_entries d) p = Some r \<and> v \<in> set (kept_writes policy now r) \<and> b \<in> set (refs v))"
proof -
  let ?es = "sorted_list_of_fmap (drv_entries d)"
  let ?all = "concat (map (\<lambda>rec. concat (map (\<lambda>(k, v). refs v) (sorted_list_of_fmap (dr_values rec)))) (map snd ?es))"
  let ?kept = "concat (map (\<lambda>rec. concat (map refs (kept_writes policy now rec))) (map snd ?es))"
  have all: "b \<in> set ?all \<longleftrightarrow>
      (\<exists>p r k v. (p, r) \<in> set ?es \<and> (k, v) \<in> set (sorted_list_of_fmap (dr_values r)) \<and> b \<in> set (refs v))"
    by force
  have kept: "b \<in> set ?kept \<longleftrightarrow> (\<exists>p r v. (p, r) \<in> set ?es \<and> v \<in> set (kept_writes policy now r) \<and> b \<in> set (refs v))"
    by force
  have "b \<in> set (Retain policy now d) \<longleftrightarrow> b \<in> set ?all \<and> b \<notin> set ?kept"
    unfolding Retain_def Let_def by (simp only: sorted_list_of_fset_simps(1) fminus_iff fset_of_list_elem)
  then show ?thesis unfolding all kept range_simps .
qed

text \<open>C5: what the retention report may reclaim. It lists, sorted and without repetition, exactly the
  blobs some stored write references and no kept write does. A blob, thumbnail or sidecar of a
  live head is never listed, under any policy and clock; and under the policy that keeps all
  versions and all trash no content blob of any write is listed.\<close>

theorem drive_retention:
  assumes "drive_inv d"
  shows "sorted (Retain policy now d) \<and> distinct (Retain policy now d) \<and>
    (\<forall>p r v b. fmlookup (drv_entries d) p = Some r \<and> v \<in> set (liveHeads r) \<and> b \<in> set (refs v) \<longrightarrow>
       b \<notin> set (Retain policy now d)) \<and>
    (\<forall>b. b \<in> set (Retain policy now d) \<longleftrightarrow>
       (\<exists>p r k v. fmlookup (drv_entries d) p = Some r \<and> fmlookup (dr_values r) k = Some v \<and> b \<in> set (refs v)) \<and>
       \<not> (\<exists>p r v. fmlookup (drv_entries d) p = Some r \<and> v \<in> set (kept_writes policy now r) \<and> b \<in> set (refs v))) \<and>
    (MaxVersionsPerPath policy < 0 \<longrightarrow> TrashTTL policy < 0 \<longrightarrow>
       (\<forall>p r k v. fmlookup (drv_entries d) p = Some r \<and> fmlookup (dr_values r) k = Some v \<longrightarrow>
          dv_Blob v \<notin> set (Retain policy now d)))"
proof -
  have so: "sorted (Retain policy now d)" "distinct (Retain policy now d)"
    by (simp_all add: Retain_def Let_def sorted_list_of_fset.rep_eq)
  have live: "b \<notin> set (Retain policy now d)"
    if "fmlookup (drv_entries d) p = Some r" "v \<in> set (liveHeads r)" "b \<in> set (refs v)" for p r v b
  proof -
    have "v \<in> set (kept_writes policy now r)" using that(2) by (simp add: kept_writes_def Let_def)
    then show ?thesis unfolding mem_Retain using that by blast
  qed
  have all: "dv_Blob v \<notin> set (Retain policy now d)"
    if neg: "MaxVersionsPerPath policy < 0" "TrashTTL policy < 0"
      and kv: "fmlookup (drv_entries d) p = Some r" "fmlookup (dr_values r) k = Some v" for p r k v
  proof -
    have inv: "record_inv r" using drive_inv_record [OF assms kv(1)] .
    have "\<exists>w \<in> set (kept_writes policy now r). dv_Blob w = dv_Blob v"
    proof (cases "liveHeads r = []")
      case True
      moreover have "v \<in> set (map snd (sorted_list_of_fmap (dr_values r)))"
        using kv(2) unfolding set_map by (metis image_eqI snd_conv set_sorted_list_of_fmap)
      ultimately have "v \<in> set (kept_writes policy now r)"
        using neg by (simp add: kept_writes_def Let_def)
      then show ?thesis by blast
    next
      case False
      have "dv_Blob v \<in> dv_Blob ` set (priorVersions r) \<union> dv_Blob ` set (liveHeads r)"
        unfolding priorVersions_blobs(1) [OF inv] using kv(2) by blast
      with False neg show ?thesis by (auto simp: kept_writes_def Let_def)
    qed
    then obtain w where w: "w \<in> set (kept_writes policy now r)" "dv_Blob w = dv_Blob v" by blast
    have "dv_Blob v \<in> set (refs w)" using inv kv(2) w(2) by (auto simp: refs_def record_inv_def)
    with w(1) kv(1) show ?thesis unfolding mem_Retain by blast
  qed
  show ?thesis using so live all mem_Retain by blast
qed

text \<open>The age of deleted files is exact as long as the newest content time lies in the past by
  less than 292 years, and negative (never expired) when it lies in the future by less than that.
  Beyond, the multiplication by a second overflows: a file dated \<open>10 ^ 10\<close> seconds ahead of the clock
  has an age of 267 years, so a deleted path with such a content time, which a peer chooses, loses
  its trash at once under any time limit shorter than that.\<close>

theorem trash_age_exact_then_wraps:
  shows "(\<bar>now - newest_mtime vs\<bar> \<le> 9223372036 \<longrightarrow> trash_age now vs = (now - newest_mtime vs) * 1000000000) \<and>
    (newest_mtime vs = now + 10000000000 \<longrightarrow> trash_age now vs = 8446744073709551616 \<and>
      (\<forall>policy r. liveHeads r = [] \<and> vs = map snd (sorted_list_of_fmap (dr_values r)) \<and>
         0 \<le> TrashTTL policy \<and> TrashTTL policy < 8446744073709551616 \<longrightarrow> kept_writes policy now r = []))"
proof (intro conjI impI allI)
  let ?n = "newest_mtime vs"
  assume "\<bar>now - ?n\<bar> \<le> 9223372036"
  then have "int64_range (now - ?n)" "int64_range ((now - ?n) * 1000000000)"
    by (auto simp: int64_range_def abs_le_iff)
  then show "trash_age now vs = (now - ?n) * 1000000000"
    by (simp add: trash_age_def wrap64_id)
next
  assume "newest_mtime vs = now + 10000000000"
  then show age: "trash_age now vs = 8446744073709551616"
    by (simp add: trash_age_def wrap64_def)
  fix policy :: RetentionPolicy and r
  assume "liveHeads r = [] \<and> vs = map snd (sorted_list_of_fmap (dr_values r)) \<and>
    0 \<le> TrashTTL policy \<and> TrashTTL policy < 8446744073709551616"
  with age show "kept_writes policy now r = []"
    by (auto simp: kept_writes_def Let_def)
qed

text \<open>A writer tag is any non-empty string a peer sends, and it is spliced into the derived path as it
  is. A tag with path elements puts the conflicted copy outside the directory of its file: cleaned,
  the derived path of a file in \<^verbatim>\<open>docs\<close> is not below \<^verbatim>\<open>docs\<close>.\<close>

lemma conflict_path_leaves_directory:
  "take 5 (normalisePath id (conflictPath ''docs/a.txt'' (PosKey 5 ''x/../../y'') 1)) \<noteq> ''docs/''"
  by code_simp

section \<open>Witnesses\<close>

definition ex_drive :: Drive where
  "ex_drive = drive_Apply id (\<lambda>_. True) [ex_put ''b1'' ''w1'', ex_put ''b2'' ''w2''] NewDrive"

lemma ex_drive_inv: "drive_inv ex_drive"
  unfolding ex_drive_def by (rule drive_inv_Apply [OF drive_inv_New])

lemma nfc_ok_id: "nfc_ok id"
  by (simp add: nfc_ok_def)

theorem drive_invariant_witness: "drive_inv (MergeDrives [Some ex_drive, None, Some NewDrive])"
  using drive_invariant [OF ex_drive_inv drive_inv_New] by blast

theorem drive_put_witness:
  "\<exists>c d'. PutMeta id (\<lambda>_. True) ''w3'' ''/docs/a.txt'' ''b3'' 5 11 zeroMeta ex_drive = Inr (c, d') \<and>
     map_option de_Blob (drive_Get id ''/docs/a.txt'' d') = Some ''b3'' \<and> length (liveHeads (entry_at (drv_entries d') ''docs/a.txt'')) = 2"
proof -
  have "\<not> isl (PutMeta id (\<lambda>_. True) ''w3'' ''/docs/a.txt'' ''b3'' 5 11 zeroMeta ex_drive)" by code_simp
  then obtain c d' where put: "PutMeta id (\<lambda>_. True) ''w3'' ''/docs/a.txt'' ''b3'' 5 11 zeroMeta ex_drive = Inr (c, d')"
    by (cases "PutMeta id (\<lambda>_. True) ''w3'' ''/docs/a.txt'' ''b3'' 5 11 zeroMeta ex_drive") auto
  have "drv_counter ex_drive < max_u64" by code_simp
  moreover have np: "normalisePath id ''/docs/a.txt'' = ''docs/a.txt''" by code_simp
  moreover have "fmpred (\<lambda>k w. Writer (dv_base w) \<noteq> ''w3'') (dr_values (entry_at (drv_entries ex_drive) ''docs/a.txt''))" by code_simp
  ultimately have "\<forall>k w. fmlookup (dr_values (entry_at (drv_entries ex_drive) (normalisePath id ''/docs/a.txt''))) k = Some w \<longrightarrow>
      Writer (dv_base w) \<noteq> ''w3''" by (simp add: fmpred_iff)
  note p = drive_put [OF nfc_ok_id ex_drive_inv \<open>drv_counter ex_drive < max_u64\<close> put this, unfolded np]
  have "length (liveHeads (entry_at (drv_entries ex_drive) ''docs/a.txt'')) = 2" by code_simp
  then have "length (liveHeads (entry_at (drv_entries d') ''docs/a.txt'')) = 2" using p by simp
  moreover have "map_option de_Blob (drive_Get id ''/docs/a.txt'' d') = Some ''b3''" using p by simp
  ultimately show ?thesis using put by blast
qed

theorem drive_delete_witness:
  "\<exists>c d'. Delete id (\<lambda>_. True) ''w3'' ''docs/a.txt'' ex_drive = Inr (c, d') \<and> drive_Get id ''docs/a.txt'' d' = None"
proof -
  have "\<not> isl (Delete id (\<lambda>_. True) ''w3'' ''docs/a.txt'' ex_drive)" by code_simp
  then obtain c d' where del: "Delete id (\<lambda>_. True) ''w3'' ''docs/a.txt'' ex_drive = Inr (c, d')"
    by (cases "Delete id (\<lambda>_. True) ''w3'' ''docs/a.txt'' ex_drive") auto
  have "drv_counter ex_drive < max_u64" by code_simp
  from drive_delete [OF nfc_ok_id ex_drive_inv this del] del show ?thesis by blast
qed

theorem drive_resolved_witness:
  "distinct (map de_Path (Resolved ex_drive)) \<and> map de_Blob (Resolved ex_drive) = [''b1'', ''b2'']"
proof -
  have "map de_Blob (Resolved ex_drive) = [''b1'', ''b2'']" by code_simp
  then show ?thesis using drive_resolved [OF ex_drive_inv enumerates_sorted] by blast
qed

theorem drive_retention_witness:
  "distinct (Retain \<lparr>MaxVersionsPerPath = 0, TrashTTL = 0\<rparr> 100 ex_drive) \<and>
   ''b1'' \<notin> set (Retain \<lparr>MaxVersionsPerPath = 0, TrashTTL = 0\<rparr> 100 ex_drive)"
proof -
  have "''b1'' \<notin> set (Retain \<lparr>MaxVersionsPerPath = 0, TrashTTL = 0\<rparr> 100 ex_drive)" by code_simp
  then show ?thesis using drive_retention [OF ex_drive_inv] by blast
qed

definition ex_future :: driveValue where
  "ex_future = \<lparr>dv_Blob = ''b'', dv_Size = 0, dv_MTime = 11700000000, dv_Meta = zeroMeta, dv_key = PosKey 1 ''w'', dv_base = zeroKey\<rparr>"

theorem trash_age_exact_then_wraps_witness:
  "trash_age 1700000000 [ex_future] = 8446744073709551616 \<and> trash_age 1700000000 [] = 1700000000000000000"
proof -
  have "newest_mtime [ex_future] = 1700000000 + 10000000000" by code_simp
  moreover have "\<bar>1700000000 - newest_mtime []\<bar> \<le> 9223372036" by code_simp
  moreover have "(1700000000 - newest_mtime []) * 1000000000 = 1700000000000000000" by code_simp
  ultimately show ?thesis
    using trash_age_exact_then_wraps [of 1700000000 "[ex_future]"] trash_age_exact_then_wraps [of 1700000000 "[]"] by simp
qed

end
