(* ===== verification/Album.thy ===== *)
theory Album
  imports Drive
begin

text \<open>
  \<^verbatim>\<open>internal/personalstate/crdt/album.go\<close> and \<^verbatim>\<open>album_snapshot.go\<close>: photo albums. A record accumulates
  the writes of one album; the rendered album is derived from it. As in the drive, \<open>parse_ok\<close> stands
  for \<^verbatim>\<open>hashing.Parse\<close> and the fresh writer tag is an argument of the local writes. \<^verbatim>\<open>WriteKey\<close> is
  the exported spelling of \<open>posKey\<close> and is that type here. A register that was never written is
  \<open>None\<close>; Go keeps a \<^verbatim>\<open>set\<close> bit beside a zero value.
\<close>

section \<open>Changes\<close>

definition AlbumPosStep :: u64 where "AlbumPosStep = 65536"

definition covers :: "posKey \<Rightarrow> posKey \<Rightarrow> bool" where
  "covers k w \<longleftrightarrow> k \<noteq> zeroKey \<and> greater k w"

record PhotoManifest =
  ph_Manifest :: string
  ph_Thumbnail :: string
  ph_Sidecar :: string
  ph_PlaintextHash :: string
  ph_Width :: "32 word"
  ph_Height :: "32 word"
  ph_TakenAt :: i64

datatype album_error =
  AlbumNoWriter | AlbumNoId | ItemNoManifest | ItemNoHash | BadItemId string string | BadCover string
| AddNoItem | NoBase | UnknownAlbumOp "8 word" | NotCarried "8 word" string

definition photo_Validate :: "(string \<Rightarrow> bool) \<Rightarrow> PhotoManifest \<Rightarrow> album_error option" where
  "photo_Validate parse_ok p =
     (if ph_Manifest p = [] then Some ItemNoManifest
      else if ph_PlaintextHash p = [] then Some ItemNoHash
      else (case filter (\<lambda>(what, i). i \<noteq> [] \<and> \<not> parse_ok i)
              [(''manifest'', ph_Manifest p), (''plaintext_hash'', ph_PlaintextHash p),
               (''thumbnail'', ph_Thumbnail p), (''sidecar'', ph_Sidecar p)] of
              (what, i) # _ \<Rightarrow> Some (BadItemId what i)
            | [] \<Rightarrow> None))"

text \<open>\<^verbatim>\<open>fmt.Sprintf("%s|%s|%s|%s|%d|%d|%d", ...)\<close>.\<close>

definition canonical :: "PhotoManifest \<Rightarrow> string" where
  "canonical p = join_with (CHR ''|'')
     [ph_Manifest p, ph_PlaintextHash p, ph_Thumbnail p, ph_Sidecar p,
      dec (unat (ph_Width p)), dec (unat (ph_Height p)), FormatInt (sint (ph_TakenAt p))]"

definition AlbumOpCreate :: "8 word" where "AlbumOpCreate = 0"
definition AlbumOpSetTitle :: "8 word" where "AlbumOpSetTitle = 1"
definition AlbumOpSetCaption :: "8 word" where "AlbumOpSetCaption = 2"
definition AlbumOpSetCover :: "8 word" where "AlbumOpSetCover = 3"
definition AlbumOpAddItem :: "8 word" where "AlbumOpAddItem = 4"
definition AlbumOpRemoveItem :: "8 word" where "AlbumOpRemoveItem = 5"
definition AlbumOpMoveItem :: "8 word" where "AlbumOpMoveItem = 6"
definition AlbumOpDelete :: "8 word" where "AlbumOpDelete = 7"

lemmas album_ops = AlbumOpCreate_def AlbumOpSetTitle_def AlbumOpSetCaption_def AlbumOpSetCover_def
  AlbumOpAddItem_def AlbumOpRemoveItem_def AlbumOpMoveItem_def AlbumOpDelete_def

record AlbumChange =
  ac_Kind :: string
  ac_Op :: "8 word"
  ac_AlbumID :: string
  ac_Item :: "PhotoManifest option"
  ac_Pos :: u64
  ac_Title :: string
  ac_Caption :: string
  ac_Cover :: string
  ac_At :: u64
  ac_Writer :: string
  ac_Base :: posKey

definition album_Foreign :: "AlbumChange \<Rightarrow> bool" where
  "album_Foreign c = (if ac_Kind c \<noteq> [] then ac_Kind c \<noteq> KindAlbum else ac_AlbumID c = [])"

text \<open>The payload fields, as the bits of \<^verbatim>\<open>albumField\<close>.\<close>

definition fieldItem :: "8 word" where "fieldItem = 1"
definition fieldPos :: "8 word" where "fieldPos = 2"
definition fieldTitle :: "8 word" where "fieldTitle = 4"
definition fieldCaption :: "8 word" where "fieldCaption = 8"
definition fieldCover :: "8 word" where "fieldCover = 16"
definition fieldBase :: "8 word" where "fieldBase = 32"

definition only :: "8 word \<Rightarrow> AlbumChange \<Rightarrow> album_error option" where
  "only allowed c =
     (case filter (\<lambda>(f, name, present). present \<and> and allowed f = 0)
        [(fieldItem, ''item'', ac_Item c \<noteq> None), (fieldPos, ''pos'', ac_Pos c \<noteq> 0),
         (fieldTitle, ''title'', ac_Title c \<noteq> []), (fieldCaption, ''caption'', ac_Caption c \<noteq> []),
         (fieldCover, ''cover'', ac_Cover c \<noteq> []), (fieldBase, ''base'', ac_Base c \<noteq> zeroKey)] of
        (f, name, _) # _ \<Rightarrow> Some (NotCarried (ac_Op c) name)
      | [] \<Rightarrow> None)"

definition album_Validate :: "(string \<Rightarrow> bool) \<Rightarrow> AlbumChange \<Rightarrow> album_error option" where
  "album_Validate parse_ok c =
     (if ac_Writer c = [] then Some AlbumNoWriter
      else if ac_AlbumID c = [] then Some AlbumNoId
      else if ac_Op c = AlbumOpCreate then only fieldTitle c
      else if ac_Op c = AlbumOpSetTitle then only fieldTitle c
      else if ac_Op c = AlbumOpSetCaption then only fieldCaption c
      else if ac_Op c = AlbumOpSetCover then
        (if ac_Cover c \<noteq> [] \<and> \<not> parse_ok (ac_Cover c) then Some (BadCover (ac_Cover c)) else only fieldCover c)
      else if ac_Op c = AlbumOpAddItem then
        (case ac_Item c of
           None \<Rightarrow> Some AddNoItem
         | Some p \<Rightarrow> (case photo_Validate parse_ok p of Some e \<Rightarrow> Some e | None \<Rightarrow> only (or fieldItem fieldPos) c))
      else if ac_Op c = AlbumOpRemoveItem then
        (if ac_Base c = zeroKey then Some NoBase else only fieldBase c)
      else if ac_Op c = AlbumOpMoveItem then
        (if ac_Base c = zeroKey then Some NoBase else only (or fieldBase fieldPos) c)
      else if ac_Op c = AlbumOpDelete then only 0 c
      else Some (UnknownAlbumOp (ac_Op c)))"

section \<open>State\<close>

record albumReg =
  ar_value :: string
  ar_key :: posKey

definition later_reg :: "albumReg \<Rightarrow> albumReg \<Rightarrow> albumReg" where
  "later_reg r o' =
     (if greater (ar_key r) (ar_key o') then r
      else if greater (ar_key o') (ar_key r) then o'
      else if ar_value r \<ge> ar_value o' then r
      else o')"

definition reg_join :: "albumReg option \<Rightarrow> albumReg option \<Rightarrow> albumReg option" where
  "reg_join r o' =
     (case o' of None \<Rightarrow> r | Some y \<Rightarrow> (case r of None \<Rightarrow> o' | Some x \<Rightarrow> Some (later_reg x y)))"

record albumItem =
  ai_photo :: PhotoManifest
  ai_pos :: u64

definition joinItem :: "albumItem \<Rightarrow> albumItem \<Rightarrow> albumItem" where
  "joinItem a b =
     (let ca = canonical (ai_photo a); cb = canonical (ai_photo b) in
      if ca \<noteq> cb then (if ca < cb then a else b)
      else if ai_pos a \<le> ai_pos b then a else b)"

record albumMove =
  am_pos :: u64
  am_key :: posKey

definition move_join :: "albumMove \<Rightarrow> albumMove \<Rightarrow> albumMove" where
  "move_join m o' =
     (if greater (am_key m) (am_key o') then m
      else if greater (am_key o') (am_key m) then o'
      else if am_pos m \<ge> am_pos o' then m
      else o')"

record albumRecord =
  al_createKey :: posKey
  al_delKey :: posKey
  al_title :: "albumReg option"
  al_caption :: "albumReg option"
  al_cover :: "albumReg option"
  al_items :: "(posKey, albumItem) fmap"
  al_removed :: "posKey fset"
  al_moves :: "(posKey, albumMove) fmap"

definition newAlbumRecord :: albumRecord where
  "newAlbumRecord = \<lparr>al_createKey = zeroKey, al_delKey = zeroKey, al_title = None, al_caption = None, al_cover = None,
     al_items = fmempty, al_removed = {||}, al_moves = fmempty\<rparr>"

record Albums =
  albums :: "(string, albumRecord) fmap"
  al_counter :: u64

definition NewAlbums :: Albums where
  "NewAlbums = \<lparr>albums = fmempty, al_counter = 0\<rparr>"

definition peekAt :: "Albums \<Rightarrow> u64" where
  "peekAt a = (if al_counter a < max_u64 then al_counter a + 1 else al_counter a)"

definition record_of :: "(string, albumRecord) fmap \<Rightarrow> string \<Rightarrow> albumRecord" where
  "record_of m i = (case fmlookup m i of Some rec \<Rightarrow> rec | None \<Rightarrow> newAlbumRecord)"

section \<open>Operations\<close>

definition album_applyOne :: "AlbumChange \<Rightarrow> Albums \<Rightarrow> Albums" where
  "album_applyOne c a =
     (let rec = record_of (albums a) (ac_AlbumID c);
          key = PosKey (ac_At c) (ac_Writer c);
          reg = (\<lambda>v. Some \<lparr>ar_value = v, ar_key = key\<rparr>);
          rec' =
            (if ac_Op c = AlbumOpCreate then
               (let r1 = (if greater key (al_createKey rec) then rec\<lparr>al_createKey := key\<rparr> else rec) in
                if ac_Title c \<noteq> [] then r1\<lparr>al_title := reg_join (al_title r1) (reg (ac_Title c))\<rparr> else r1)
             else if ac_Op c = AlbumOpSetTitle then rec\<lparr>al_title := reg_join (al_title rec) (reg (ac_Title c))\<rparr>
             else if ac_Op c = AlbumOpSetCaption then rec\<lparr>al_caption := reg_join (al_caption rec) (reg (ac_Caption c))\<rparr>
             else if ac_Op c = AlbumOpSetCover then rec\<lparr>al_cover := reg_join (al_cover rec) (reg (ac_Cover c))\<rparr>
             else if ac_Op c = AlbumOpAddItem then
               rec\<lparr>al_items := upsert joinItem key \<lparr>ai_photo = the (ac_Item c), ai_pos = ac_Pos c\<rparr> (al_items rec)\<rparr>
             else if ac_Op c = AlbumOpRemoveItem then rec\<lparr>al_removed := finsert (ac_Base c) (al_removed rec)\<rparr>
             else if ac_Op c = AlbumOpMoveItem then
               rec\<lparr>al_moves := upsert move_join (ac_Base c) \<lparr>am_pos = ac_Pos c, am_key = key\<rparr> (al_moves rec)\<rparr>
             else if ac_Op c = AlbumOpDelete then
               (if greater key (al_delKey rec) then rec\<lparr>al_delKey := key\<rparr> else rec)
             else rec)
      in \<lparr>albums = fmupd (ac_AlbumID c) rec' (albums a),
          al_counter = (if ac_At c > al_counter a then ac_At c else al_counter a)\<rparr>)"

fun album_ApplyReport :: "(string \<Rightarrow> bool) \<Rightarrow> AlbumChange list \<Rightarrow> Albums \<Rightarrow> AlbumChange list \<times> Albums" where
  "album_ApplyReport parse_ok [] a = ([], a)"
| "album_ApplyReport parse_ok (c # cs) a =
     (if album_Foreign c then album_ApplyReport parse_ok cs a
      else if album_Validate parse_ok c \<noteq> None then
        (let (rejected, a') = album_ApplyReport parse_ok cs a in (c # rejected, a'))
      else album_ApplyReport parse_ok cs (album_applyOne c a))"

definition album_Apply :: "(string \<Rightarrow> bool) \<Rightarrow> AlbumChange list \<Rightarrow> Albums \<Rightarrow> Albums" where
  "album_Apply parse_ok cs a = snd (album_ApplyReport parse_ok cs a)"

definition joinRecord :: "albumRecord \<Rightarrow> albumRecord \<Rightarrow> albumRecord" where
  "joinRecord into from =
     \<lparr>al_createKey = (if greater (al_createKey from) (al_createKey into) then al_createKey from else al_createKey into),
      al_delKey = (if greater (al_delKey from) (al_delKey into) then al_delKey from else al_delKey into),
      al_title = reg_join (al_title into) (al_title from),
      al_caption = reg_join (al_caption into) (al_caption from),
      al_cover = reg_join (al_cover into) (al_cover from),
      al_items = merge_map joinItem (al_items into) (al_items from),
      al_removed = fold finsert (sorted_list_of_fset (al_removed from)) (al_removed into),
      al_moves = merge_map move_join (al_moves into) (al_moves from)\<rparr>"

definition album_merge_into :: "Albums \<Rightarrow> Albums \<Rightarrow> Albums" where
  "album_merge_into out s =
     \<lparr>albums = fold (\<lambda>(i, rec) m. fmupd i (joinRecord (record_of m i) rec) m) (sorted_list_of_fmap (albums s)) (albums out),
      al_counter = (if al_counter s > al_counter out then al_counter s else al_counter out)\<rparr>"

definition MergeAlbums :: "Albums option list \<Rightarrow> Albums" where
  "MergeAlbums sets =
     fold (\<lambda>s out. case s of None \<Rightarrow> out | Some s \<Rightarrow> album_merge_into out s) sets NewAlbums"

section \<open>Reads\<close>

definition album_live :: "albumRecord \<Rightarrow> bool" where
  "album_live r \<longleftrightarrow> al_createKey r \<noteq> zeroKey \<and> greater (al_createKey r) (al_delKey r)"

record liveItem =
  li_key :: posKey
  li_pos :: u64
  li_photo :: PhotoManifest

definition live_item :: "albumRecord \<Rightarrow> posKey \<times> albumItem \<Rightarrow> liveItem option" where
  "live_item r e =
     (case e of (k, it) \<Rightarrow>
        if k |\<in>| al_removed r \<or> covers (al_delKey r) k then None
        else Some \<lparr>li_key = k,
          li_pos = (case fmlookup (al_moves r) k of
                      Some mv \<Rightarrow> if greater (am_key mv) k then am_pos mv else ai_pos it
                    | None \<Rightarrow> ai_pos it),
          li_photo = ai_photo it\<rparr>)"

definition item_less :: "liveItem \<Rightarrow> liveItem \<Rightarrow> bool" where
  "item_less a b = (if li_pos a \<noteq> li_pos b then li_pos a < li_pos b else greater (li_key b) (li_key a))"

definition liveItems :: "albumRecord \<Rightarrow> liveItem list" where
  "liveItems r = sort_key (\<lambda>i. (li_pos i, li_key i)) (somes (map (live_item r) (sorted_list_of_fmap (al_items r))))"

definition reg_value :: "albumRecord \<Rightarrow> albumReg option \<Rightarrow> string" where
  "reg_value r reg =
     (case reg of None \<Rightarrow> [] | Some x \<Rightarrow> if covers (al_delKey r) (ar_key x) then [] else ar_value x)"

record ResolvedAlbum =
  ra_AlbumID :: string
  ra_Title :: string
  ra_Caption :: string
  ra_Cover :: string
  ra_Items :: "liveItem list"

text \<open>The loop of \<open>resolve\<close> that keeps the first item of each plaintext hash.\<close>

fun dedupe :: "string list \<Rightarrow> liveItem list \<Rightarrow> liveItem list" where
  "dedupe seen [] = []"
| "dedupe seen (it # its) =
     (if ph_PlaintextHash (li_photo it) \<in> set seen then dedupe seen its
      else it # dedupe (ph_PlaintextHash (li_photo it) # seen) its)"

definition resolve :: "string \<Rightarrow> albumRecord \<Rightarrow> ResolvedAlbum" where
  "resolve i r =
     (let items = dedupe [] (liveItems r);
          cover = reg_value r (al_cover r)
      in \<lparr>ra_AlbumID = i, ra_Title = reg_value r (al_title r), ra_Caption = reg_value r (al_caption r),
          ra_Cover =
            (if cover \<noteq> [] \<and> cover \<in> (\<lambda>it. ph_Manifest (li_photo it)) ` set items then cover
             else if items \<noteq> [] then ph_Manifest (li_photo (hd items)) else []),
          ra_Items = items\<rparr>)"

definition album_Resolved :: "Albums \<Rightarrow> ResolvedAlbum list" where
  "album_Resolved a =
     sort_key ra_AlbumID (map (\<lambda>(i, rec). resolve i rec)
       (filter (\<lambda>(i, rec). album_live rec) (sorted_list_of_fmap (albums a))))"

definition Album :: "string \<Rightarrow> Albums \<Rightarrow> ResolvedAlbum option" where
  "Album i a =
     (case fmlookup (albums a) i of
        None \<Rightarrow> None
      | Some rec \<Rightarrow> if album_live rec then Some (resolve i rec) else None)"

section \<open>Local writes\<close>

definition mint :: "string \<Rightarrow> 8 word \<Rightarrow> string \<Rightarrow> Albums \<Rightarrow> AlbumChange" where
  "mint newPosTag opc albumID a =
     \<lparr>ac_Kind = KindAlbum, ac_Op = opc, ac_AlbumID = albumID, ac_Item = None, ac_Pos = 0, ac_Title = [],
      ac_Caption = [], ac_Cover = [], ac_At = peekAt a, ac_Writer = newPosTag, ac_Base = zeroKey\<rparr>"

definition local_write :: "(string \<Rightarrow> bool) \<Rightarrow> AlbumChange \<Rightarrow> Albums \<Rightarrow> album_error + AlbumChange \<times> Albums" where
  "local_write parse_ok c a =
     (case album_Validate parse_ok c of Some e \<Rightarrow> Inl e | None \<Rightarrow> Inr (c, album_applyOne c a))"

definition Create :: "(string \<Rightarrow> bool) \<Rightarrow> string \<Rightarrow> string \<Rightarrow> string \<Rightarrow> Albums \<Rightarrow> album_error + AlbumChange \<times> Albums" where
  "Create parse_ok tag i title a = local_write parse_ok ((mint tag AlbumOpCreate i a)\<lparr>ac_Title := title\<rparr>) a"

definition SetTitle :: "(string \<Rightarrow> bool) \<Rightarrow> string \<Rightarrow> string \<Rightarrow> string \<Rightarrow> Albums \<Rightarrow> album_error + AlbumChange \<times> Albums" where
  "SetTitle parse_ok tag i title a = local_write parse_ok ((mint tag AlbumOpSetTitle i a)\<lparr>ac_Title := title\<rparr>) a"

definition SetCaption :: "(string \<Rightarrow> bool) \<Rightarrow> string \<Rightarrow> string \<Rightarrow> string \<Rightarrow> Albums \<Rightarrow> album_error + AlbumChange \<times> Albums" where
  "SetCaption parse_ok tag i caption a = local_write parse_ok ((mint tag AlbumOpSetCaption i a)\<lparr>ac_Caption := caption\<rparr>) a"

definition SetCover :: "(string \<Rightarrow> bool) \<Rightarrow> string \<Rightarrow> string \<Rightarrow> string \<Rightarrow> Albums \<Rightarrow> album_error + AlbumChange \<times> Albums" where
  "SetCover parse_ok tag i manifest a = local_write parse_ok ((mint tag AlbumOpSetCover i a)\<lparr>ac_Cover := manifest\<rparr>) a"

definition AddItemAt :: "(string \<Rightarrow> bool) \<Rightarrow> string \<Rightarrow> string \<Rightarrow> PhotoManifest \<Rightarrow> u64 \<Rightarrow> Albums \<Rightarrow> album_error + AlbumChange \<times> Albums" where
  "AddItemAt parse_ok tag i photo pos a =
     local_write parse_ok ((mint tag AlbumOpAddItem i a)\<lparr>ac_Item := Some photo, ac_Pos := pos\<rparr>) a"

definition append_pos :: "liveItem list \<Rightarrow> u64" where
  "append_pos its =
     (let last = fold (\<lambda>it last. if li_pos it > last then li_pos it else last) its 0;
          pos = last + AlbumPosStep
      in if pos < last then max_u64 else pos)"

definition AddItem :: "(string \<Rightarrow> bool) \<Rightarrow> string \<Rightarrow> string \<Rightarrow> PhotoManifest \<Rightarrow> Albums \<Rightarrow> album_error + AlbumChange \<times> Albums" where
  "AddItem parse_ok tag i photo a =
     AddItemAt parse_ok tag i photo (append_pos (liveItems (record_of (albums a) i))) a"

definition RemoveItem :: "(string \<Rightarrow> bool) \<Rightarrow> string \<Rightarrow> string \<Rightarrow> posKey \<Rightarrow> Albums \<Rightarrow> album_error + AlbumChange \<times> Albums" where
  "RemoveItem parse_ok tag i item a = local_write parse_ok ((mint tag AlbumOpRemoveItem i a)\<lparr>ac_Base := item\<rparr>) a"

definition MoveItem :: "(string \<Rightarrow> bool) \<Rightarrow> string \<Rightarrow> string \<Rightarrow> posKey \<Rightarrow> u64 \<Rightarrow> Albums \<Rightarrow> album_error + AlbumChange \<times> Albums" where
  "MoveItem parse_ok tag i item pos a =
     local_write parse_ok ((mint tag AlbumOpMoveItem i a)\<lparr>ac_Base := item, ac_Pos := pos\<rparr>) a"

definition DeleteAlbum :: "(string \<Rightarrow> bool) \<Rightarrow> string \<Rightarrow> string \<Rightarrow> Albums \<Rightarrow> album_error + AlbumChange \<times> Albums" where
  "DeleteAlbum parse_ok tag i a = local_write parse_ok (mint tag AlbumOpDelete i a) a"

section \<open>Snapshot\<close>

record albumRegSnapshot =
  ars_Value :: string
  ars_At :: u64
  ars_Writer :: string

record albumItemSnapshot =
  ais_At :: u64
  ais_Writer :: string
  ais_Pos :: u64
  ais_Item :: PhotoManifest

record albumMoveSnapshot =
  ams_ItemAt :: u64
  ams_ItemBy :: string
  ams_Pos :: u64
  ams_At :: u64
  ams_Writer :: string

record albumRecordSnapshot =
  arc_AlbumID :: string
  arc_CreatedAt :: u64
  arc_CreatedBy :: string
  arc_DelAt :: u64
  arc_DelBy :: string
  arc_Title :: "albumRegSnapshot option"
  arc_Caption :: "albumRegSnapshot option"
  arc_Cover :: "albumRegSnapshot option"
  arc_Items :: "albumItemSnapshot list"
  arc_Removed :: "posKey list"
  arc_Moves :: "albumMoveSnapshot list"

record albumsSnapshot =
  as_Albums :: "albumRecordSnapshot list"
  as_Counter :: u64

definition regSnapshot :: "albumReg option \<Rightarrow> albumRegSnapshot option" where
  "regSnapshot r = (case r of None \<Rightarrow> None
     | Some x \<Rightarrow> Some \<lparr>ars_Value = ar_value x, ars_At = At (ar_key x), ars_Writer = Writer (ar_key x)\<rparr>)"

definition regFromSnapshot :: "albumRegSnapshot option \<Rightarrow> albumReg option" where
  "regFromSnapshot s = (case s of None \<Rightarrow> None
     | Some x \<Rightarrow> Some \<lparr>ar_value = ars_Value x, ar_key = PosKey (ars_At x) (ars_Writer x)\<rparr>)"

definition album_record_snapshot :: "string \<times> albumRecord \<Rightarrow> albumRecordSnapshot" where
  "album_record_snapshot e = (case e of (i, rec) \<Rightarrow>
     \<lparr>arc_AlbumID = i, arc_CreatedAt = At (al_createKey rec), arc_CreatedBy = Writer (al_createKey rec),
      arc_DelAt = At (al_delKey rec), arc_DelBy = Writer (al_delKey rec),
      arc_Title = regSnapshot (al_title rec), arc_Caption = regSnapshot (al_caption rec), arc_Cover = regSnapshot (al_cover rec),
      arc_Items = sort_key (\<lambda>s. PosKey (ais_At s) (ais_Writer s))
        (map (\<lambda>(k, it). \<lparr>ais_At = At k, ais_Writer = Writer k, ais_Pos = ai_pos it, ais_Item = ai_photo it\<rparr>)
          (sorted_list_of_fmap (al_items rec))),
      arc_Removed = sort (sorted_list_of_fset (al_removed rec)),
      arc_Moves = sort_key (\<lambda>s. PosKey (ams_ItemAt s) (ams_ItemBy s))
        (map (\<lambda>(k, mv). \<lparr>ams_ItemAt = At k, ams_ItemBy = Writer k, ams_Pos = am_pos mv, ams_At = At (am_key mv),
            ams_Writer = Writer (am_key mv)\<rparr>) (sorted_list_of_fmap (al_moves rec)))\<rparr>)"

definition album_Snapshot :: "Albums \<Rightarrow> albumsSnapshot" where
  "album_Snapshot a =
     \<lparr>as_Albums = sort_key arc_AlbumID (map album_record_snapshot (sorted_list_of_fmap (albums a))),
      as_Counter = al_counter a\<rparr>"

definition album_record_from :: "albumRecordSnapshot \<Rightarrow> albumRecord" where
  "album_record_from rs =
     \<lparr>al_createKey = PosKey (arc_CreatedAt rs) (arc_CreatedBy rs), al_delKey = PosKey (arc_DelAt rs) (arc_DelBy rs),
      al_title = regFromSnapshot (arc_Title rs), al_caption = regFromSnapshot (arc_Caption rs),
      al_cover = regFromSnapshot (arc_Cover rs),
      al_items = fold (\<lambda>s m. fmupd (PosKey (ais_At s) (ais_Writer s)) \<lparr>ai_photo = ais_Item s, ai_pos = ais_Pos s\<rparr> m)
        (arc_Items rs) fmempty,
      al_removed = fold finsert (arc_Removed rs) {||},
      al_moves = fold (\<lambda>s m. fmupd (PosKey (ams_ItemAt s) (ams_ItemBy s))
          \<lparr>am_pos = ams_Pos s, am_key = PosKey (ams_At s) (ams_Writer s)\<rparr> m) (arc_Moves rs) fmempty\<rparr>"

definition AlbumsFromSnapshot :: "albumsSnapshot \<Rightarrow> Albums" where
  "AlbumsFromSnapshot snap =
     \<lparr>albums = fold (\<lambda>rs m. fmupd (arc_AlbumID rs) (album_record_from rs) m) (as_Albums snap) (albums NewAlbums),
      al_counter = as_Counter snap\<rparr>"

end
