(* ===== verification/AlbumProps.thy ===== *)
theory AlbumProps
  imports Album
begin

text \<open>
  The theorems about photo albums: convergence of folds, merges and snapshots, the rendered album as
  a function of the write set, and the effect of the local writes.
\<close>

section \<open>The tie-break form of a photo\<close>

lemma dec_no_bar: "CHR ''|'' \<notin> set (dec n)"
  using dec_digits [of n] by (auto simp: is_digit_def)

lemma FormatInt_no_bar: "CHR ''|'' \<notin> set (FormatInt n)"
  by (auto simp: FormatInt_def dec_no_bar)

definition clean_photo :: "PhotoManifest \<Rightarrow> bool" where
  "clean_photo p \<longleftrightarrow> CHR ''|'' \<notin> set (ph_Manifest p) \<and> CHR ''|'' \<notin> set (ph_PlaintextHash p) \<and>
     CHR ''|'' \<notin> set (ph_Thumbnail p) \<and> CHR ''|'' \<notin> set (ph_Sidecar p)"

lemma split_canonical:
  "clean_photo p \<Longrightarrow> split_on (CHR ''|'') (canonical p) =
     [ph_Manifest p, ph_PlaintextHash p, ph_Thumbnail p, ph_Sidecar p,
      dec (unat (ph_Width p)), dec (unat (ph_Height p)), FormatInt (sint (ph_TakenAt p))]"
  unfolding canonical_def by (rule split_join) (auto simp: clean_photo_def dec_no_bar FormatInt_no_bar)

lemma canonical_inj:
  assumes "clean_photo p" "clean_photo q" "canonical p = canonical q"
  shows "p = q"
proof -
  from assms have "ph_Manifest p = ph_Manifest q" "ph_PlaintextHash p = ph_PlaintextHash q"
    "ph_Thumbnail p = ph_Thumbnail q" "ph_Sidecar p = ph_Sidecar q" "ph_Width p = ph_Width q"
    "ph_Height p = ph_Height q" "ph_TakenAt p = ph_TakenAt q"
    using split_canonical [OF assms(1)] split_canonical [OF assms(2)]
    by (auto simp: dec_inj FormatInt_inj dest: unsigned_word_eqI signed_word_eqI)
  then show ?thesis by (cases p; cases q) simp
qed

section \<open>The lattice of records\<close>

definition item_rank :: "albumItem \<Rightarrow> string \<times> u64" where
  "item_rank i = (canonical (ai_photo i), ai_pos i)"

definition clean_item :: "albumItem \<Rightarrow> bool" where
  "clean_item i \<longleftrightarrow> clean_photo (ai_photo i)"

lemma joinItem_eq: "joinItem = lesser_by item_rank"
  by (intro ext) (auto simp: joinItem_def lesser_by_def item_rank_def Let_def)

lemma joinItem_assoc: "joinItem (joinItem a b) c = joinItem a (joinItem b c)"
  unfolding joinItem_eq lesser_by_def by (auto dest: order.trans)

lemma joinItem_idem [simp]: "joinItem a a = a"
  by (simp add: joinItem_eq lesser_by_def)

lemma joinItem_commute: "clean_item a \<Longrightarrow> clean_item b \<Longrightarrow> joinItem a b = joinItem b a"
proof -
  assume c: "clean_item a" "clean_item b"
  have "a = b" if "item_rank a = item_rank b"
    using that c canonical_inj by (cases a; cases b) (auto simp: item_rank_def clean_item_def)
  then show ?thesis unfolding joinItem_eq lesser_by_def by (metis linear order.antisym)
qed

lemma later_reg_semilattice: "semilattice later_reg"
proof -
  have "later_reg = later_by (\<lambda>r. (ar_key r, ar_value r))"
    by (intro ext) (auto simp: later_reg_def later_by_def greater_iff)
  moreover have "semilattice \<dots>" by (rule semilattice_later_by) (auto simp: inj_def)
  ultimately show ?thesis by simp
qed

lemma move_join_semilattice: "semilattice move_join"
proof -
  have "move_join = later_by (\<lambda>m. (am_key m, am_pos m))"
    by (intro ext) (auto simp: move_join_def later_by_def greater_iff)
  moreover have "semilattice \<dots>" by (rule semilattice_later_by) (auto simp: inj_def)
  ultimately show ?thesis by simp
qed

lemma reg_join_eq: "reg_join = join_opt later_reg"
  by (intro ext) (auto simp: reg_join_def split: option.splits)

lemmas reg_laws = semilattice_laws [OF semilattice_join_opt [OF later_reg_semilattice]]
lemmas move_laws = semilattice_laws [OF semilattice_merge_map [OF move_join_semilattice]]

lemma merge_items_assoc:
  "merge_map joinItem (merge_map joinItem a b) c = merge_map joinItem a (merge_map joinItem b c)"
  by (rule fmap_ext) (simp add: join_opt_assoc [OF joinItem_assoc])

lemma merge_items_idem: "merge_map joinItem a a = a"
proof (rule fmap_ext)
  fix k
  show "fmlookup (merge_map joinItem a a) k = fmlookup a k" by (cases "fmlookup a k") simp_all
qed

definition items_clean :: "albumRecord \<Rightarrow> bool" where
  "items_clean r \<longleftrightarrow> (\<forall>k i. fmlookup (al_items r) k = Some i \<longrightarrow> clean_item i)"

lemma merge_items_commute:
  assumes "items_clean r" and "items_clean r'"
  shows "merge_map joinItem (al_items r) (al_items r') = merge_map joinItem (al_items r') (al_items r)"
proof (rule fmap_ext)
  fix k
  show "fmlookup (merge_map joinItem (al_items r) (al_items r')) k = fmlookup (merge_map joinItem (al_items r') (al_items r)) k"
    using assms by (cases "fmlookup (al_items r) k"; cases "fmlookup (al_items r') k")
      (auto simp: items_clean_def intro: joinItem_commute)
qed

lemma joinRecord_eq:
  "joinRecord a b =
     \<lparr>al_createKey = max (al_createKey a) (al_createKey b), al_delKey = max (al_delKey a) (al_delKey b),
      al_title = join_opt later_reg (al_title a) (al_title b), al_caption = join_opt later_reg (al_caption a) (al_caption b),
      al_cover = join_opt later_reg (al_cover a) (al_cover b), al_items = merge_map joinItem (al_items a) (al_items b),
      al_removed = al_removed a |\<union>| al_removed b, al_moves = merge_map move_join (al_moves a) (al_moves b)\<rparr>"
  by (simp add: joinRecord_def max_key_as_code reg_join_eq fold_finsert)

lemma joinRecord_assoc: "joinRecord (joinRecord a b) c = joinRecord a (joinRecord b c)"
  by (simp add: joinRecord_eq max.assoc reg_laws(1) move_laws(1) merge_items_assoc sup_assoc)

lemma joinRecord_idem [simp]: "joinRecord a a = a"
  by (simp add: joinRecord_eq reg_laws(3) move_laws(3) merge_items_idem)

lemma joinRecord_commute: "items_clean a \<Longrightarrow> items_clean b \<Longrightarrow> joinRecord a b = joinRecord b a"
  by (simp add: joinRecord_eq max.commute merge_items_commute sup_commute
      reg_laws(2) [of "al_title a"] reg_laws(2) [of "al_caption a"] reg_laws(2) [of "al_cover a"] move_laws(2) [of "al_moves a"])

lemma merge_map_fmempty2: "merge_map f m fmempty = m"
  by (rule fmap_ext) simp

lemma max_zeroKey [simp]: "max zeroKey k = k" "max k zeroKey = k"
  by (simp_all add: max_def zeroKey_least) (metis zeroKey_least order.antisym)

lemma joinRecord_new [simp]: "joinRecord newAlbumRecord a = a" "joinRecord a newAlbumRecord = a"
  by (simp_all add: joinRecord_eq newAlbumRecord_def merge_map_fmempty2)

lemma items_clean_join: "items_clean a \<Longrightarrow> items_clean b \<Longrightarrow> items_clean (joinRecord a b)"
  unfolding items_clean_def
proof (intro allI impI)
  fix k i
  assume a: "\<forall>k i. fmlookup (al_items a) k = Some i \<longrightarrow> clean_item i" and b: "\<forall>k i. fmlookup (al_items b) k = Some i \<longrightarrow> clean_item i"
    and "fmlookup (al_items (joinRecord a b)) k = Some i"
  then have "join_opt joinItem (fmlookup (al_items a) k) (fmlookup (al_items b) k) = Some i" by (simp add: joinRecord_eq)
  then have "fmlookup (al_items a) k = Some i \<or> fmlookup (al_items b) k = Some i"
    by (rule join_opt_choice) (auto simp: joinItem_eq lesser_by_def)
  with a b show "clean_item i" by blast
qed

section \<open>A change as a record\<close>

definition album_delta :: "AlbumChange \<Rightarrow> albumRecord" where
  "album_delta c =
     (let key = PosKey (ac_At c) (ac_Writer c); reg = (\<lambda>v. Some \<lparr>ar_value = v, ar_key = key\<rparr>) in
      if ac_Op c = AlbumOpCreate then
        newAlbumRecord\<lparr>al_createKey := key, al_title := (if ac_Title c \<noteq> [] then reg (ac_Title c) else None)\<rparr>
      else if ac_Op c = AlbumOpSetTitle then newAlbumRecord\<lparr>al_title := reg (ac_Title c)\<rparr>
      else if ac_Op c = AlbumOpSetCaption then newAlbumRecord\<lparr>al_caption := reg (ac_Caption c)\<rparr>
      else if ac_Op c = AlbumOpSetCover then newAlbumRecord\<lparr>al_cover := reg (ac_Cover c)\<rparr>
      else if ac_Op c = AlbumOpAddItem then
        newAlbumRecord\<lparr>al_items := fmupd key \<lparr>ai_photo = the (ac_Item c), ai_pos = ac_Pos c\<rparr> fmempty\<rparr>
      else if ac_Op c = AlbumOpRemoveItem then newAlbumRecord\<lparr>al_removed := {|ac_Base c|}\<rparr>
      else if ac_Op c = AlbumOpMoveItem then
        newAlbumRecord\<lparr>al_moves := fmupd (ac_Base c) \<lparr>am_pos = ac_Pos c, am_key = key\<rparr> fmempty\<rparr>
      else if ac_Op c = AlbumOpDelete then newAlbumRecord\<lparr>al_delKey := key\<rparr>
      else newAlbumRecord)"

lemma merge_map_singleton: "merge_map f m (fmupd k v fmempty) = upsert f k v m"
  by (rule fmap_ext) simp

lemma upsert_record: "fmupd i (joinRecord (record_of m i) rec) m = upsert joinRecord i rec m"
  by (simp add: upsert_def record_of_def split: option.splits)

lemma create_max: "(if greater k (al_createKey r) then r\<lparr>al_createKey := k\<rparr> else r) = r\<lparr>al_createKey := max (al_createKey r) k\<rparr>"
  and del_max: "(if greater k (al_delKey r) then r\<lparr>al_delKey := k\<rparr> else r) = r\<lparr>al_delKey := max (al_delKey r) k\<rparr>"
  by (auto simp: greater_iff max_def)

lemma album_applyOne_delta:
  "album_applyOne c a =
     \<lparr>albums = upsert joinRecord (ac_AlbumID c) (album_delta c) (albums a), al_counter = max (al_counter a) (ac_At c)\<rparr>"
proof -
  let ?key = "PosKey (ac_At c) (ac_Writer c)"
  have j: "joinRecord rec (album_delta c) =
      (if ac_Op c = AlbumOpCreate then
         (let r1 = (if greater ?key (al_createKey rec) then rec\<lparr>al_createKey := ?key\<rparr> else rec) in
          if ac_Title c \<noteq> [] then r1\<lparr>al_title := reg_join (al_title r1) (Some \<lparr>ar_value = ac_Title c, ar_key = ?key\<rparr>)\<rparr> else r1)
       else if ac_Op c = AlbumOpSetTitle then rec\<lparr>al_title := reg_join (al_title rec) (Some \<lparr>ar_value = ac_Title c, ar_key = ?key\<rparr>)\<rparr>
       else if ac_Op c = AlbumOpSetCaption then rec\<lparr>al_caption := reg_join (al_caption rec) (Some \<lparr>ar_value = ac_Caption c, ar_key = ?key\<rparr>)\<rparr>
       else if ac_Op c = AlbumOpSetCover then rec\<lparr>al_cover := reg_join (al_cover rec) (Some \<lparr>ar_value = ac_Cover c, ar_key = ?key\<rparr>)\<rparr>
       else if ac_Op c = AlbumOpAddItem then
         rec\<lparr>al_items := upsert joinItem ?key \<lparr>ai_photo = the (ac_Item c), ai_pos = ac_Pos c\<rparr> (al_items rec)\<rparr>
       else if ac_Op c = AlbumOpRemoveItem then rec\<lparr>al_removed := finsert (ac_Base c) (al_removed rec)\<rparr>
       else if ac_Op c = AlbumOpMoveItem then
         rec\<lparr>al_moves := upsert move_join (ac_Base c) \<lparr>am_pos = ac_Pos c, am_key = ?key\<rparr> (al_moves rec)\<rparr>
       else if ac_Op c = AlbumOpDelete then (if greater ?key (al_delKey rec) then rec\<lparr>al_delKey := ?key\<rparr> else rec)
       else rec)" for rec
    unfolding create_max del_max Let_def
    by (cases rec) (simp add: album_delta_def joinRecord_eq newAlbumRecord_def Let_def merge_map_fmempty2 merge_map_singleton
        reg_join_eq)
  show ?thesis
    unfolding upsert_record [symmetric] j album_applyOne_def Let_def max_as_code ..
qed

lemma album_merge_into_map:
  "album_merge_into out s =
     \<lparr>albums = merge_map joinRecord (albums out) (albums s), al_counter = max (al_counter out) (al_counter s)\<rparr>"
  by (simp add: album_merge_into_def merge_map_def range_upsert_def max_as_code upsert_record)

section \<open>Interfaces\<close>

definition album_step :: "(string \<Rightarrow> bool) \<Rightarrow> AlbumChange \<Rightarrow> Albums \<Rightarrow> Albums" where
  "album_step parse_ok c a =
     (if album_Foreign c \<or> album_Validate parse_ok c \<noteq> None then a else album_applyOne c a)"

lemma album_ApplyReport_fold:
  "album_ApplyReport parse_ok cs a =
     (filter (\<lambda>c. \<not> album_Foreign c \<and> album_Validate parse_ok c \<noteq> None) cs, fold (album_step parse_ok) cs a)"
  by (induction cs arbitrary: a) (auto simp: album_step_def)

lemma album_Apply_fold: "album_Apply parse_ok cs a = fold (album_step parse_ok) cs a"
  by (simp add: album_Apply_def album_ApplyReport_fold)

text \<open>What the albums rely on of \<^verbatim>\<open>hashing.Parse\<close>: a canonical id has no vertical bar.\<close>

definition parse_clean :: "(string \<Rightarrow> bool) \<Rightarrow> bool" where
  "parse_clean parse_ok \<longleftrightarrow> (\<forall>i. parse_ok i \<longrightarrow> CHR ''|'' \<notin> set i)"

definition clean_changes :: "AlbumChange set" where
  "clean_changes = {c. items_clean (album_delta c)}"

definition albums_clean :: "Albums \<Rightarrow> bool" where
  "albums_clean a \<longleftrightarrow> (\<forall>i r. fmlookup (albums a) i = Some r \<longrightarrow> items_clean r)"

lemma valid_photo_clean:
  assumes "parse_clean parse_ok" and "photo_Validate parse_ok p = None"
  shows "clean_photo p"
proof -
  have "CHR ''|'' \<notin> set i" if "i = [] \<or> parse_ok i" for i
    using that assms(1) by (auto simp: parse_clean_def)
  moreover have "\<forall>i \<in> {ph_Manifest p, ph_PlaintextHash p, ph_Thumbnail p, ph_Sidecar p}. i = [] \<or> parse_ok i"
    using assms(2) by (auto simp: photo_Validate_def split: if_splits)
  ultimately show ?thesis by (simp add: clean_photo_def)
qed

lemma valid_change_clean:
  assumes "parse_clean parse_ok" and "album_Validate parse_ok c = None"
  shows "c \<in> clean_changes"
proof (cases "ac_Op c = AlbumOpAddItem")
  case True
  then obtain p where "ac_Item c = Some p" "photo_Validate parse_ok p = None"
    using assms(2) by (auto simp: album_Validate_def album_ops split: if_splits option.splits)
  then have "clean_photo (the (ac_Item c))" using valid_photo_clean [OF assms(1)] by simp
  with True show ?thesis
    by (auto simp: clean_changes_def items_clean_def album_delta_def album_ops newAlbumRecord_def clean_item_def Let_def split: if_splits)
next
  case False
  then show ?thesis
    by (auto simp: clean_changes_def items_clean_def album_delta_def newAlbumRecord_def Let_def split: if_splits)
qed

lemma join_album_commute:
  assumes "\<And>r. x = Some r \<Longrightarrow> items_clean r" and "\<And>r. y = Some r \<Longrightarrow> items_clean r"
  shows "join_opt joinRecord x y = join_opt joinRecord y x"
  using assms by (cases x; cases y) (auto intro: joinRecord_commute)

lemma album_applyOne_commute:
  assumes "c \<in> clean_changes" and "e \<in> clean_changes"
  shows "album_applyOne c (album_applyOne e a) = album_applyOne e (album_applyOne c a)"
proof -
  have "joinRecord (album_delta c) (album_delta e) = joinRecord (album_delta e) (album_delta c)"
    using assms by (intro joinRecord_commute) (simp_all add: clean_changes_def)
  then have "upsert joinRecord i (album_delta c) (upsert joinRecord j (album_delta e) m) =
      upsert joinRecord j (album_delta e) (upsert joinRecord i (album_delta c) m)" for i j m
    by (intro fmap_ext) (auto simp: join_opt_assoc [OF joinRecord_assoc])
  then show ?thesis by (simp add: album_applyOne_delta max.commute max.left_commute)
qed

lemma album_applyOne_idem: "album_applyOne c (album_applyOne c a) = album_applyOne c a"
proof -
  have "upsert joinRecord i r (upsert joinRecord i r m) = upsert joinRecord i r m" for i r m
    by (intro fmap_ext) (simp add: join_opt_assoc [OF joinRecord_assoc])
  then show ?thesis by (simp add: album_applyOne_delta)
qed

lemma album_merge_commute:
  assumes "albums_clean a" and "albums_clean b"
  shows "album_merge_into a b = album_merge_into b a"
proof -
  have "merge_map joinRecord (albums a) (albums b) = merge_map joinRecord (albums b) (albums a)"
  proof (rule fmap_ext)
    fix i
    show "fmlookup (merge_map joinRecord (albums a) (albums b)) i = fmlookup (merge_map joinRecord (albums b) (albums a)) i"
      using join_album_commute [of "fmlookup (albums a) i" "fmlookup (albums b) i"] assms
      by (simp add: albums_clean_def)
  qed
  then show ?thesis by (simp add: album_merge_into_map max.commute)
qed

lemma albums_clean_applyOne:
  assumes "c \<in> clean_changes" and "albums_clean a"
  shows "albums_clean (album_applyOne c a)"
  unfolding albums_clean_def
proof (intro allI impI)
  fix i r
  assume "fmlookup (albums (album_applyOne c a)) i = Some r"
  then show "items_clean r"
    using assms by (cases "fmlookup (albums a) i")
      (auto simp: album_applyOne_delta albums_clean_def clean_changes_def split: if_splits intro: items_clean_join)
qed

lemma albums_clean_merge:
  assumes "albums_clean a" and "albums_clean b"
  shows "albums_clean (album_merge_into a b)"
  unfolding albums_clean_def
proof (intro allI impI)
  fix i r
  assume "fmlookup (albums (album_merge_into a b)) i = Some r"
  then show "items_clean r"
    using assms by (cases "fmlookup (albums a) i"; cases "fmlookup (albums b) i")
      (auto simp: album_merge_into_map albums_clean_def intro: items_clean_join)
qed

lemma album_merge_applyOne:
  assumes "c \<in> clean_changes" and "albums_clean b"
  shows "album_merge_into (album_applyOne c a) b = album_applyOne c (album_merge_into a b)"
proof -
  have "join_opt joinRecord (join_opt joinRecord x (Some (album_delta c))) y =
      join_opt joinRecord (join_opt joinRecord x y) (Some (album_delta c))"
    if "\<And>r. y = Some r \<Longrightarrow> items_clean r" for x y
    unfolding join_opt_assoc [OF joinRecord_assoc]
    using that assms(1) join_album_commute [of "Some (album_delta c)" y] by (auto simp: clean_changes_def)
  then have "merge_map joinRecord (upsert joinRecord i (album_delta c) (albums a)) (albums b) =
      upsert joinRecord i (album_delta c) (merge_map joinRecord (albums a) (albums b))" for i
    using assms(2) by (intro fmap_ext) (auto simp: albums_clean_def)
  then show ?thesis by (simp add: album_applyOne_delta album_merge_into_map max.commute max.left_commute)
qed

interpretation album: state_crdt "album_step parse_ok" clean_changes album_merge_into NewAlbums albums_clean
  for parse_ok
proof
  show "album_step parse_ok c (album_step parse_ok d s) = album_step parse_ok d (album_step parse_ok c s)"
    if "c \<in> clean_changes" "d \<in> clean_changes" for c d s
    using album_applyOne_commute [OF that] by (auto simp: album_step_def)
  show "album_step parse_ok c (album_step parse_ok c s) = album_step parse_ok c s" for c s
    by (auto simp: album_step_def album_applyOne_idem)
  show "album_merge_into (album_merge_into a b) d = album_merge_into a (album_merge_into b d)" for a b d
    by (simp add: album_merge_into_map max.assoc fmap_ext join_opt_assoc [OF joinRecord_assoc])
  show "album_merge_into a a = a" for a
  proof -
    have "fmlookup (merge_map joinRecord m m) i = fmlookup m i" for m :: "(string, albumRecord) fmap" and i
      by (cases "fmlookup m i") simp_all
    then have "merge_map joinRecord m m = m" for m :: "(string, albumRecord) fmap" by (rule fmap_ext)
    then show ?thesis by (simp add: album_merge_into_map)
  qed
  show "album_merge_into NewAlbums a = a" for a
    by (simp add: album_merge_into_map NewAlbums_def)
  show "album_merge_into (album_step parse_ok c a) b = album_step parse_ok c (album_merge_into a b)"
    if "c \<in> clean_changes" "albums_clean a" "albums_clean b" for c a b
    using album_merge_applyOne [OF that(1,3)] by (auto simp: album_step_def)
  show "albums_clean (album_step parse_ok c a)" if "c \<in> clean_changes" "albums_clean a" for c a
    using albums_clean_applyOne [OF that] that(2) by (auto simp: album_step_def)
  show "albums_clean NewAlbums" by (simp add: albums_clean_def NewAlbums_def)
qed (auto intro: album_merge_commute albums_clean_merge)

section \<open>Snapshots\<close>

lemma regFrom_regSnapshot [simp]: "regFromSnapshot (regSnapshot r) = r"
  by (cases r) (simp_all add: regFromSnapshot_def regSnapshot_def)

lemma fold_fmupd_snapshot:
  assumes "\<And>k v. key (snap (k, v)) = k" and "\<And>k v. val (snap (k, v)) = v"
  shows "fold (\<lambda>s m. fmupd (key s) (val s) m) (sort_key key (map snap (sorted_list_of_fmap m))) fmempty = (m :: ('k::linorder, 'v) fmap)"
proof -
  have "key \<circ> snap = fst" using assms(1) by (auto simp: fun_eq_iff)
  then have "sort_key key (map snap (sorted_list_of_fmap m)) = map snap (sorted_list_of_fmap m)"
    by (simp add: sort_key_map_sorted)
  moreover have "(\<lambda>s m. fmupd (key s) (val s) m) \<circ> snap = (\<lambda>(k, v). fmupd k v)"
    using assms by (auto simp: fun_eq_iff)
  ultimately show ?thesis by (simp add: fold_map fold_fmupd_sorted)
qed

lemma album_record_from_snapshot [simp]: "album_record_from (album_record_snapshot (i, r)) = r"
proof -
  have "fold (\<lambda>s m. fmupd (PosKey (ais_At s) (ais_Writer s)) \<lparr>ai_photo = ais_Item s, ai_pos = ais_Pos s\<rparr> m)
      (arc_Items (album_record_snapshot (i, r))) fmempty = al_items r"
    unfolding album_record_snapshot_def
    using fold_fmupd_snapshot [where key = "\<lambda>s. PosKey (ais_At s) (ais_Writer s)" and val = "\<lambda>s. \<lparr>ai_photo = ais_Item s, ai_pos = ais_Pos s\<rparr>"
        and snap = "\<lambda>(k, it). \<lparr>ais_At = At k, ais_Writer = Writer k, ais_Pos = ai_pos it, ais_Item = ai_photo it\<rparr>" and m = "al_items r"]
    by simp
  moreover have "fold (\<lambda>s m. fmupd (PosKey (ams_ItemAt s) (ams_ItemBy s)) \<lparr>am_pos = ams_Pos s, am_key = PosKey (ams_At s) (ams_Writer s)\<rparr> m)
      (arc_Moves (album_record_snapshot (i, r))) fmempty = al_moves r"
    unfolding album_record_snapshot_def
    using fold_fmupd_snapshot [where key = "\<lambda>s. PosKey (ams_ItemAt s) (ams_ItemBy s)"
        and val = "\<lambda>s. \<lparr>am_pos = ams_Pos s, am_key = PosKey (ams_At s) (ams_Writer s)\<rparr>"
        and snap = "\<lambda>(k, mv). \<lparr>ams_ItemAt = At k, ams_ItemBy = Writer k, ams_Pos = am_pos mv, ams_At = At (am_key mv), ams_Writer = Writer (am_key mv)\<rparr>"
        and m = "al_moves r"]
    by simp
  moreover have "fold finsert (arc_Removed (album_record_snapshot (i, r))) {||} = al_removed r"
    by (simp add: album_record_snapshot_def fold_finsert)
  ultimately show ?thesis
    by (simp add: album_record_from_def) (simp add: album_record_snapshot_def)
qed

lemma FromSnapshot_album_Snapshot: "AlbumsFromSnapshot (album_Snapshot a) = a"
proof -
  have "fold (\<lambda>rs m. fmupd (arc_AlbumID rs) (album_record_from rs) m) (as_Albums (album_Snapshot a)) fmempty = albums a"
    unfolding album_Snapshot_def albumsSnapshot.select_convs
    by (rule fold_fmupd_snapshot) (simp_all, simp add: album_record_snapshot_def)
  then show ?thesis by (simp add: AlbumsFromSnapshot_def NewAlbums_def) (simp add: album_Snapshot_def)
qed

interpretation album_snap: snapshot_crdt "album_step parse_ok" clean_changes album_Snapshot AlbumsFromSnapshot "\<lambda>_. True"
  for parse_ok
  by unfold_locales (simp_all add: FromSnapshot_album_Snapshot)

section \<open>The clock invariant\<close>

definition keys_below :: "u64 \<Rightarrow> albumRecord \<Rightarrow> bool" where
  "keys_below n r \<longleftrightarrow> At (al_createKey r) \<le> n \<and> At (al_delKey r) \<le> n \<and>
     (\<forall>g. al_title r = Some g \<longrightarrow> At (ar_key g) \<le> n) \<and> (\<forall>g. al_caption r = Some g \<longrightarrow> At (ar_key g) \<le> n) \<and>
     (\<forall>g. al_cover r = Some g \<longrightarrow> At (ar_key g) \<le> n) \<and>
     (\<forall>k i. fmlookup (al_items r) k = Some i \<longrightarrow> At k \<le> n) \<and>
     (\<forall>k mv. fmlookup (al_moves r) k = Some mv \<longrightarrow> At (am_key mv) \<le> n)"

definition album_inv :: "Albums \<Rightarrow> bool" where
  "album_inv a \<longleftrightarrow> (\<forall>i r. fmlookup (albums a) i = Some r \<longrightarrow> keys_below (al_counter a) r)"

lemma keys_below_mono: "keys_below n r \<Longrightarrow> n \<le> m \<Longrightarrow> keys_below m r"
  unfolding keys_below_def by (meson order.trans)

lemma keys_below_new: "keys_below n newAlbumRecord"
  by (simp add: keys_below_def newAlbumRecord_def zeroKey_def)

lemma later_reg_choice: "later_reg a b = a \<or> later_reg a b = b"
  by (auto simp: later_reg_def)

lemma move_join_choice: "move_join a b = a \<or> move_join a b = b"
  by (auto simp: move_join_def)

lemma keys_below_join:
  assumes "keys_below n a" and "keys_below n b"
  shows "keys_below n (joinRecord a b)"
proof -
  have reg: "At (ar_key g) \<le> n" if "join_opt later_reg x y = Some g" "\<forall>g. x = Some g \<longrightarrow> At (ar_key g) \<le> n"
    "\<forall>g. y = Some g \<longrightarrow> At (ar_key g) \<le> n" for x y g
    using join_opt_choice [OF that(1) later_reg_choice] that(2,3) by blast
  have item: "At k \<le> n" if "join_opt joinItem (fmlookup (al_items a) k) (fmlookup (al_items b) k) = Some i" for k i
    using that assms by (cases "fmlookup (al_items a) k"; cases "fmlookup (al_items b) k") (auto simp: keys_below_def)
  have move: "At (am_key mv) \<le> n" if "join_opt move_join (fmlookup (al_moves a) k) (fmlookup (al_moves b) k) = Some mv" for k mv
    using join_opt_choice [OF that move_join_choice] assms by (auto simp: keys_below_def)
  show ?thesis
    unfolding keys_below_def joinRecord_eq using assms item move
    by (auto simp: keys_below_def max_def intro: reg)
qed

lemma keys_below_delta: "keys_below (ac_At c) (album_delta c)"
  by (auto simp: keys_below_def album_delta_def newAlbumRecord_def zeroKey_def Let_def split: if_splits)

lemma album_inv_applyOne: "album_inv a \<Longrightarrow> album_inv (album_applyOne c a)"
  unfolding album_inv_def
proof (intro allI impI)
  fix i r
  assume inv: "\<forall>i r. fmlookup (albums a) i = Some r \<longrightarrow> keys_below (al_counter a) r"
    and r: "fmlookup (albums (album_applyOne c a)) i = Some r"
  let ?n = "al_counter (album_applyOne c a)"
  have n: "al_counter a \<le> ?n" "ac_At c \<le> ?n" by (simp_all add: album_applyOne_delta)
  have old: "keys_below ?n r'" if "fmlookup (albums a) i = Some r'" for r'
    using inv that keys_below_mono [OF _ n(1)] by blast
  have new: "keys_below ?n (album_delta c)" using keys_below_mono [OF keys_below_delta n(2)] .
  show "keys_below ?n r"
    using r old new by (cases "fmlookup (albums a) i") (auto simp: album_applyOne_delta split: if_splits intro: keys_below_join)
qed

lemma album_inv_Apply: "album_inv a \<Longrightarrow> album_inv (album_Apply parse_ok cs a)"
  unfolding album_Apply_fold
  by (induction cs arbitrary: a) (auto simp: album_step_def album_inv_applyOne)

lemma album_inv_New: "album_inv NewAlbums"
  by (simp add: album_inv_def NewAlbums_def)

lemma album_inv_record: "album_inv a \<Longrightarrow> keys_below (al_counter a) (record_of (albums a) i)"
  by (auto simp: album_inv_def record_of_def keys_below_new split: option.splits)

section \<open>Live items\<close>

lemma covers_iff: "covers k w \<longleftrightarrow> w < k"
  using zeroKey_least [of w] by (auto simp: covers_def greater_iff)

lemma mem_somes: "x \<in> set (somes xs) \<longleftrightarrow> Some x \<in> set xs"
  by (simp add: set_somes)

lemma mem_live_items:
  "enumerates es (al_items r) \<Longrightarrow>
   it \<in> set (somes (map (live_item r) es)) \<longleftrightarrow> (\<exists>k i. fmlookup (al_items r) k = Some i \<and> live_item r (k, i) = Some it)"
proof -
  assume e: "enumerates es (al_items r)"
  have "it \<in> set (somes (map (live_item r) es)) \<longleftrightarrow> (\<exists>k i. (k, i) \<in> set es \<and> live_item r (k, i) = Some it)"
    by (auto simp: mem_somes image_iff) (metis, force)
  then show ?thesis by (simp add: enumerates_mem [OF e])
qed

lemma mem_liveItems:
  "it \<in> set (liveItems r) \<longleftrightarrow> (\<exists>k i. fmlookup (al_items r) k = Some i \<and> live_item r (k, i) = Some it)"
  by (simp add: liveItems_def mem_live_items [OF enumerates_sorted])

lemma live_item_key: "live_item r (k, i) = Some it \<Longrightarrow> li_key it = k"
  by (auto simp: live_item_def split: if_splits)

lemma live_item_Some:
  "live_item r (k, i) = Some it \<Longrightarrow> k |\<notin>| al_removed r \<and> \<not> k < al_delKey r \<and> li_key it = k \<and> li_photo it = ai_photo i"
  by (auto simp: live_item_def covers_iff split: if_splits)

lemma distinct_live_items:
  "distinct (map fst es) \<Longrightarrow> distinct (map li_key (somes (map (live_item r) es)))"
proof (induction es)
  case (Cons e es)
  obtain k i where e: "e = (k, i)" by (cases e)
  have "k \<notin> li_key ` set (somes (map (live_item r) es))"
  proof
    assume "k \<in> li_key ` set (somes (map (live_item r) es))"
    then obtain it k' i' where "(k', i') \<in> set es" "live_item r (k', i') = Some it" "li_key it = k"
      by (force simp: mem_somes)
    then have "k \<in> fst ` set es" using live_item_key by (metis fst_conv image_eqI)
    with Cons.prems e show False by simp
  qed
  with Cons e live_item_key show ?case by (auto simp: somes_def split: option.splits)
qed (simp add: somes_def)

lemma liveItems_keys:
  shows "sorted (map (\<lambda>i. (li_pos i, li_key i)) (liveItems r))" and "distinct (map li_key (liveItems r))"
    and "distinct (map (\<lambda>i. (li_pos i, li_key i)) (liveItems r))"
proof -
  show "sorted (map (\<lambda>i. (li_pos i, li_key i)) (liveItems r))" by (simp add: liveItems_def)
  have "mset (map li_key (liveItems r)) = mset (map li_key (somes (map (live_item r) (sorted_list_of_fmap (al_items r)))))"
    by (simp add: liveItems_def)
  moreover have "distinct (map fst (sorted_list_of_fmap (al_items r)))"
    using enumerates_sorted by (auto simp: enumerates_def)
  ultimately show d: "distinct (map li_key (liveItems r))"
    using distinct_live_items by (metis mset_eq_imp_distinct_iff)
  then show "distinct (map (\<lambda>i. (li_pos i, li_key i)) (liveItems r))"
    by (auto simp: distinct_map intro: inj_onI dest: inj_onD)
qed

lemma mset_somes_map: "mset xs = mset ys \<Longrightarrow> mset (somes (map f xs)) = mset (somes (map f ys))"
proof -
  assume "mset xs = mset ys"
  then have "mset (map (\<lambda>x. mset (case f x of None \<Rightarrow> [] | Some y \<Rightarrow> [y])) xs) =
      mset (map (\<lambda>x. mset (case f x of None \<Rightarrow> [] | Some y \<Rightarrow> [y])) ys)" by simp
  then show ?thesis
    unfolding somes_def mset_concat map_map comp_def by (metis sum_mset_sum_list)
qed

lemma liveItems_any_order:
  assumes "enumerates es (al_items r)"
  shows "sort_slice item_less (somes (map (live_item r) es)) out \<longleftrightarrow> out = liveItems r"
proof -
  let ?key = "\<lambda>i. (li_pos i, li_key i)"
  have less: "item_less = (\<lambda>a b. ?key a < ?key b)"
    by (intro ext) (auto simp: item_less_def greater_iff)
  have "distinct (map li_key (somes (map (live_item r) es)))"
    using assms by (intro distinct_live_items) (simp add: enumerates_def)
  then have inj: "inj_on ?key (set (somes (map (live_item r) es)))"
    by (auto simp: distinct_map intro: inj_onI dest: inj_onD)
  have "mset (somes (map (live_item r) es)) = mset (somes (map (live_item r) (sorted_list_of_fmap (al_items r))))"
    by (rule mset_somes_map [OF enumerates_mset_eq [OF assms enumerates_sorted]])
  then have eq: "sort_key ?key (somes (map (live_item r) es)) = liveItems r"
    unfolding liveItems_def by (rule sort_key_perm_eq [OF _ inj])
  show ?thesis
  proof
    assume "sort_slice item_less (somes (map (live_item r) es)) out"
    then show "out = liveItems r" unfolding less eq [symmetric] by (rule sort_slice_unique [OF _ inj])
  next
    assume "out = liveItems r"
    then show "sort_slice item_less (somes (map (live_item r) es)) out"
      unfolding less eq [symmetric] by (simp only: sort_slice_sort_key)
  qed
qed

lemma liveItems_unique:
  assumes "sorted (map (\<lambda>i. (li_pos i, li_key i)) xs)" "distinct (map li_key xs)"
    and "\<And>it. it \<in> set xs \<longleftrightarrow> (\<exists>k i. fmlookup (al_items r) k = Some i \<and> live_item r (k, i) = Some it)"
  shows "liveItems r = xs"
proof (rule strict_keys_unique [where key = "\<lambda>i. (li_pos i, li_key i)"])
  show "distinct (map (\<lambda>i. (li_pos i, li_key i)) xs)"
    using assms(2) by (auto simp: distinct_map intro: inj_onI dest: inj_onD)
qed (use assms liveItems_keys mem_liveItems in auto)

section \<open>Deduplication\<close>

abbreviation item_hash :: "liveItem \<Rightarrow> string" where
  "item_hash it \<equiv> ph_PlaintextHash (li_photo it)"

lemma dedupe_subset: "set (dedupe seen its) \<subseteq> set its"
  by (induction seen its rule: dedupe.induct) auto

lemma dedupe_hashes: "distinct (map item_hash (dedupe seen its)) \<and> item_hash ` set (dedupe seen its) \<inter> set seen = {}"
  by (induction seen its rule: dedupe.induct) auto

lemma dedupe_sorted: "sorted_wrt P its \<Longrightarrow> sorted_wrt P (dedupe seen its)"
proof (induction seen its rule: dedupe.induct)
  case (2 seen it its)
  then show ?case using dedupe_subset by fastforce
qed simp

lemma dedupe_first:
  "sorted_wrt (\<lambda>a b. key a \<le> key b) its \<Longrightarrow> it \<in> set its \<Longrightarrow> item_hash it \<notin> set seen \<Longrightarrow>
   \<exists>s \<in> set (dedupe seen its). item_hash s = item_hash it \<and> key s \<le> (key it :: 'k :: linorder)"
  by (induction seen its rule: dedupe.induct) (auto split: if_splits, force+)

lemma dedupe_append:
  "dedupe seen (xs @ [x]) =
     dedupe seen xs @ (if item_hash x \<in> set seen \<union> item_hash ` set xs then [] else [x])"
  by (induction seen xs rule: dedupe.induct) auto

section \<open>Properties\<close>

text \<open>C6: convergence of albums, where a canonical blob id has no vertical bar: logs that hold the
  same changes between them, in any order and with any duplicates, merge to the albums that fold
  them all; folding equal sets of changes gives equal albums; a snapshot of a part plus the rest is
  the whole; and every replica rejects the same changes. Hostile writes that share a key are
  included.\<close>

theorem album_convergence:
  assumes "parse_clean parse_ok" and "set (concat logs) = set cs" and "set cs = set (as @ bs)"
  shows "MergeAlbums (map (\<lambda>l. Some (album_Apply parse_ok l NewAlbums)) logs) = album_Apply parse_ok cs NewAlbums \<and>
    album_Apply parse_ok (concat logs) a = album_Apply parse_ok cs a \<and>
    album_Apply parse_ok bs (AlbumsFromSnapshot (album_Snapshot (album_Apply parse_ok as a))) = album_Apply parse_ok cs a \<and>
    set (fst (album_ApplyReport parse_ok (concat logs) a)) = set (fst (album_ApplyReport parse_ok cs a))"
proof -
  let ?valid = "filter (\<lambda>c. \<not> album_Foreign c \<and> album_Validate parse_ok c = None)"
  have skip: "fold (album_step parse_ok) cs s = fold (album_step parse_ok) (?valid cs) s" for cs s
    by (induction cs arbitrary: s) (auto simp: album_step_def)
  have S: "set (?valid cs) \<subseteq> clean_changes" for cs
    using valid_change_clean [OF assms(1)] by auto
  have vc: "?valid (concat logs) = concat (map ?valid logs)" by (simp add: filter_concat)
  have conv: "fold (album_step parse_ok) (?valid xs) s = fold (album_step parse_ok) (?valid ys) s"
    if "set xs = set ys" for xs ys s
    using that by (intro album.convergence [OF S]) auto
  have "somes (map (\<lambda>l. Some (f l)) ls) = map f ls" for f :: "AlbumChange list \<Rightarrow> Albums" and ls
    by (induction ls) (auto simp: somes_def)
  then have "MergeAlbums (map (\<lambda>l. Some (album_Apply parse_ok l NewAlbums)) logs) =
      fold (\<lambda>s out. album_merge_into out s) (map (\<lambda>l. fold (album_step parse_ok) l NewAlbums) (map ?valid logs)) NewAlbums"
    by (simp add: MergeAlbums_def fold_somes album_Apply_fold skip [symmetric] comp_def)
  also have "\<dots> = fold (album_step parse_ok) (concat (map ?valid logs)) NewAlbums"
    using S [of "concat logs"] unfolding vc by (rule album.merge_log_list)
  also have "\<dots> = album_Apply parse_ok cs NewAlbums"
    unfolding vc [symmetric] album_Apply_fold skip [of cs] by (rule conv [OF assms(2)])
  finally have merge: "MergeAlbums (map (\<lambda>l. Some (album_Apply parse_ok l NewAlbums)) logs) = album_Apply parse_ok cs NewAlbums" .
  have "fold (album_step parse_ok) (?valid bs) (AlbumsFromSnapshot (album_Snapshot (fold (album_step parse_ok) (?valid as) a))) =
      fold (album_step parse_ok) (?valid cs) a"
    using S [of "as @ bs"] assms(3) by (intro album_snap.snapshot_tail) auto
  then have "album_Apply parse_ok bs (AlbumsFromSnapshot (album_Snapshot (album_Apply parse_ok as a))) = album_Apply parse_ok cs a"
    unfolding album_Apply_fold skip [symmetric] .
  moreover have "album_Apply parse_ok (concat logs) a = album_Apply parse_ok cs a"
    unfolding album_Apply_fold skip [of "concat logs"] skip [of cs] by (rule conv [OF assms(2)])
  moreover have "set (fst (album_ApplyReport parse_ok (concat logs) a)) = set (fst (album_ApplyReport parse_ok cs a))"
    using assms(2) by (simp add: album_ApplyReport_fold del: set_concat)
  ultimately show ?thesis using merge by blast
qed

text \<open>The rendered album is a function of the write set. Its items are live adds in strictly
  increasing (position, key) order, no two with one plaintext hash; the item shown for a hash is the
  first live one with it, and every live hash is shown; the cover is the set cover if a shown item
  has that manifest, else the first item's, else empty. The live items are the adds neither
  removed nor covered by the album's tombstone, and neither map iteration nor the unstable sort can
  change their list.\<close>

theorem album_resolved:
  assumes "enumerates es (al_items r)"
  shows "(sort_slice item_less (somes (map (live_item r) es)) out \<longleftrightarrow> out = liveItems r) \<and>
    (it \<in> set (liveItems r) \<longleftrightarrow> (\<exists>k a. fmlookup (al_items r) k = Some a \<and> k |\<notin>| al_removed r \<and> \<not> k < al_delKey r \<and>
       live_item r (k, a) = Some it \<and> li_key it = k \<and> li_photo it = ai_photo a)) \<and>
    sorted_wrt (\<lambda>a b. (li_pos a, li_key a) < (li_pos b, li_key b)) (ra_Items (resolve i r)) \<and>
    distinct (map item_hash (ra_Items (resolve i r))) \<and>
    set (ra_Items (resolve i r)) \<subseteq> set (liveItems r) \<and>
    (\<forall>x \<in> set (liveItems r). \<exists>s \<in> set (ra_Items (resolve i r)).
       item_hash s = item_hash x \<and> (li_pos s, li_key s) \<le> (li_pos x, li_key x)) \<and>
    ra_Cover (resolve i r) =
      (if reg_value r (al_cover r) \<noteq> [] \<and> (\<exists>s \<in> set (ra_Items (resolve i r)). ph_Manifest (li_photo s) = reg_value r (al_cover r))
       then reg_value r (al_cover r)
       else case ra_Items (resolve i r) of [] \<Rightarrow> [] | s # _ \<Rightarrow> ph_Manifest (li_photo s))"
proof -
  let ?key = "\<lambda>i. (li_pos i, li_key i)" and ?its = "dedupe [] (liveItems r)"
  have its: "ra_Items (resolve i r) = ?its" by (simp add: resolve_def Let_def)
  have "sorted_wrt (<) (map ?key (liveItems r))"
    unfolding strict_sorted_iff using liveItems_keys(1,3) by blast
  then have strict: "sorted_wrt (\<lambda>a b. ?key a < ?key b) (liveItems r)" by (simp add: sorted_wrt_map)
  then have "sorted_wrt (\<lambda>a b. ?key a \<le> ?key b) (liveItems r)" by (rule sorted_wrt_mono_rel [rotated]) auto
  then have first: "\<exists>s \<in> set ?its. item_hash s = item_hash x \<and> ?key s \<le> ?key x" if "x \<in> set (liveItems r)" for x
    using dedupe_first [of ?key "liveItems r" x "[]"] that by simp
  have mem: "it \<in> set (liveItems r) \<longleftrightarrow> (\<exists>k a. fmlookup (al_items r) k = Some a \<and> k |\<notin>| al_removed r \<and> \<not> k < al_delKey r \<and>
      live_item r (k, a) = Some it \<and> li_key it = k \<and> li_photo it = ai_photo a)"
    unfolding mem_liveItems using live_item_Some by blast
  have cover: "ra_Cover (resolve i r) =
      (if reg_value r (al_cover r) \<noteq> [] \<and> (\<exists>s \<in> set ?its. ph_Manifest (li_photo s) = reg_value r (al_cover r))
       then reg_value r (al_cover r) else case ?its of [] \<Rightarrow> [] | s # _ \<Rightarrow> ph_Manifest (li_photo s))"
    by (auto simp: resolve_def Let_def image_iff split: list.splits)
  show ?thesis
    unfolding its
    by (intro conjI liveItems_any_order [OF assms] mem dedupe_sorted [OF strict] dedupe_subset cover ballI first)
      (simp add: dedupe_hashes)
qed

section \<open>Local writes\<close>

lemma local_write_Inr: "local_write parse_ok c a = Inr (c', a') \<Longrightarrow> c' = c \<and> a' = album_applyOne c a"
  by (auto simp: local_write_def split: option.splits)

lemma peekAt_eq: "peekAt a = sat_inc (al_counter a)"
  by (simp add: peekAt_def sat_inc_def)

lemma record_of_apply: "record_of (albums (album_applyOne c a)) (ac_AlbumID c) = joinRecord (record_of (albums a) (ac_AlbumID c)) (album_delta c)"
  by (cases "fmlookup (albums a) (ac_AlbumID c)") (simp_all add: album_applyOne_delta record_of_def)

lemma append_pos_ge: "it \<in> set its \<Longrightarrow> li_pos it \<le> append_pos its"
proof -
  assume it: "it \<in> set its"
  let ?last = "fold (\<lambda>it last. if li_pos it > last then li_pos it else last) its 0"
  have "m \<le> fold (\<lambda>it last. if li_pos it > last then li_pos it else last) xs m \<and>
      (\<forall>x \<in> set xs. li_pos x \<le> fold (\<lambda>it last. if li_pos it > last then li_pos it else last) xs m)" for xs m
    by (induction xs arbitrary: m) (auto, (meson less_imp_le order.trans not_less)+)
  then have "li_pos it \<le> ?last" using it by blast
  then show ?thesis
    using le_max_u64 [of "li_pos it"] by (auto simp: append_pos_def Let_def not_less)
qed

lemma key_order: "At k \<le> n \<Longrightarrow> n < m \<Longrightarrow> k < PosKey m w"
  by (cases k) (auto simp: less_posKey_def greater_def)

text \<open>Adding a photo appends it. On albums whose clock is not saturated, with a writer tag that
  no stored removal or move names, the live items become the old ones followed by the new one,
  wherever the position counter stands (it saturates rather than wrapping); the rendered album grows
  by it exactly if its plaintext hash was not there yet.\<close>

theorem album_add_item:
  assumes "album_inv a" and "al_counter a < max_u64" and "AddItem parse_ok tag i photo a = Inr (c, a')"
    and "\<forall>k. Writer k = tag \<longrightarrow> k |\<notin>| al_removed (record_of (albums a) i) \<and> fmlookup (al_moves (record_of (albums a) i)) k = None"
  shows "liveItems (record_of (albums a') i) = liveItems (record_of (albums a) i) @
      [\<lparr>li_key = PosKey (ac_At c) tag, li_pos = append_pos (liveItems (record_of (albums a) i)), li_photo = photo\<rparr>] \<and>
    ra_Items (resolve i (record_of (albums a') i)) = ra_Items (resolve i (record_of (albums a) i)) @
      (if ph_PlaintextHash photo \<in> item_hash ` set (liveItems (record_of (albums a) i)) then []
       else [\<lparr>li_key = PosKey (ac_At c) tag, li_pos = append_pos (liveItems (record_of (albums a) i)), li_photo = photo\<rparr>])"
proof -
  let ?r = "record_of (albums a) i" and ?r' = "record_of (albums a') i"
  let ?key = "PosKey (sat_inc (al_counter a)) tag" and ?pos = "append_pos (liveItems (record_of (albums a) i))"
  let ?new = "\<lparr>li_key = ?key, li_pos = ?pos, li_photo = photo\<rparr>" and ?it = "\<lparr>ai_photo = photo, ai_pos = ?pos\<rparr>"
  note w = local_write_Inr [OF assms(3) [unfolded AddItem_def AddItemAt_def]]
  have c: "ac_AlbumID c = i" "ac_At c = sat_inc (al_counter a)" using w by (simp_all add: mint_def peekAt_eq)
  have d: "album_delta c = newAlbumRecord\<lparr>al_items := fmupd ?key ?it fmempty\<rparr>"
    using w by (simp add: mint_def peekAt_eq album_delta_def album_ops)
  have r': "?r' = joinRecord ?r (album_delta c)" using record_of_apply [of c a] w c(1) by simp
  note below = album_inv_record [OF assms(1), of i, unfolded keys_below_def]
  have lt: "At k \<le> al_counter a \<Longrightarrow> k < ?key" for k using key_order sat_inc_gt [OF assms(2)] by blast
  have old: "k < ?key" if "fmlookup (al_items ?r) k = Some x" for k x using below that lt by blast
  then have none: "fmlookup (al_items ?r) ?key = None" by (cases "fmlookup (al_items ?r) ?key") auto
  have items: "al_items ?r' = fmupd ?key ?it (al_items ?r)"
    unfolding r' d by (simp add: joinRecord_eq newAlbumRecord_def merge_map_singleton upsert_def none)
  have fields: "al_removed ?r' = al_removed ?r" "al_delKey ?r' = al_delKey ?r" "al_moves ?r' = al_moves ?r"
    unfolding r' d by (simp_all add: joinRecord_eq newAlbumRecord_def merge_map_fmempty2)
  have same: "live_item ?r' e = live_item ?r e" for e unfolding live_item_def fields ..
  have new: "live_item ?r (?key, ?it) = Some ?new"
    using assms(4) lt [of "al_delKey ?r"] below by (auto simp: live_item_def covers_iff)
  have last: "li_key x < ?key \<and> li_pos x \<le> ?pos" if "x \<in> set (liveItems ?r)" for x
    using that append_pos_ge [OF that] old live_item_key by (auto simp: mem_liveItems)
  have live: "liveItems ?r' = liveItems ?r @ [?new]"
  proof (rule liveItems_unique)
    show "sorted (map (\<lambda>i. (li_pos i, li_key i)) (liveItems ?r @ [?new]))"
      using last liveItems_keys(1) by (auto simp: sorted_append less_imp_le le_less)
    have "?key \<notin> li_key ` set (liveItems ?r)" using last by (metis imageE less_irrefl)
    then show "distinct (map li_key (liveItems ?r @ [?new]))"
      using liveItems_keys(2) [of ?r] by simp
    show "it \<in> set (liveItems ?r @ [?new]) \<longleftrightarrow> (\<exists>k a. fmlookup (al_items ?r') k = Some a \<and> live_item ?r' (k, a) = Some it)" for it
    proof -
      have look: "fmlookup (fmupd ?key ?it (al_items ?r)) k = Some x \<longleftrightarrow> k = ?key \<and> x = ?it \<or> fmlookup (al_items ?r) k = Some x" for k x
        using none by auto
      show ?thesis unfolding same items look set_append Un_iff mem_liveItems using new by auto
    qed
  qed
  show ?thesis
    unfolding c(2) using live by (simp add: resolve_def Let_def dedupe_append)
qed

text \<open>A remove takes out exactly the item it names and a move puts exactly that item at the given
  position: the live items afterwards are the old ones without the removed one, or with its
  position replaced and sorted again. A move on a clock that is not saturated always takes effect.\<close>

theorem album_remove_move:
  assumes "album_inv a" and "al_counter a < max_u64" and "RemoveItem parse_ok tag i item a = Inr (c, a1)"
    and "MoveItem parse_ok tag i item pos a = Inr (d, a2)"
  shows "liveItems (record_of (albums a1) i) = filter (\<lambda>it. li_key it \<noteq> item) (liveItems (record_of (albums a) i)) \<and>
    liveItems (record_of (albums a2) i) = sort_key (\<lambda>it. (li_pos it, li_key it))
      (map (\<lambda>it. if li_key it = item then it\<lparr>li_pos := pos\<rparr> else it) (liveItems (record_of (albums a) i)))"
proof
  let ?r = "record_of (albums a) i" and ?ord = "\<lambda>it. (li_pos it, li_key it)"
  let ?r1 = "record_of (albums a1) i" and ?r2 = "record_of (albums a2) i"
  note w = local_write_Inr [OF assms(3) [unfolded RemoveItem_def]]
  have "album_delta c = newAlbumRecord\<lparr>al_removed := {|item|}\<rparr>" "ac_AlbumID c = i"
    using w by (simp_all add: mint_def album_delta_def album_ops)
  then have r1: "al_items ?r1 = al_items ?r" "al_removed ?r1 = finsert item (al_removed ?r)" "al_delKey ?r1 = al_delKey ?r"
      "al_moves ?r1 = al_moves ?r"
    using record_of_apply [of c a] w by (simp_all add: joinRecord_eq newAlbumRecord_def merge_map_fmempty2)
  have l1: "live_item ?r1 (k, x) = (if k = item then None else live_item ?r (k, x))" for k x
    by (simp add: live_item_def r1)
  show "liveItems ?r1 = filter (\<lambda>it. li_key it \<noteq> item) (liveItems ?r)"
  proof (rule liveItems_unique)
    show "sorted (map ?ord (filter (\<lambda>it. li_key it \<noteq> item) (liveItems ?r)))"
      using sorted_filter [OF liveItems_keys(1)] by auto
    show "distinct (map li_key (filter (\<lambda>it. li_key it \<noteq> item) (liveItems ?r)))"
      using liveItems_keys(2) by (rule distinct_map_filter)
    show "it \<in> set (filter (\<lambda>it. li_key it \<noteq> item) (liveItems ?r)) \<longleftrightarrow>
        (\<exists>k x. fmlookup (al_items ?r1) k = Some x \<and> live_item ?r1 (k, x) = Some it)" for it
      unfolding l1 r1 set_filter mem_Collect_eq mem_liveItems using live_item_key by (auto split: if_splits)
  qed
  let ?key = "PosKey (sat_inc (al_counter a)) tag" and ?mv = "\<lparr>am_pos = pos, am_key = PosKey (sat_inc (al_counter a)) tag\<rparr>"
  let ?put = "\<lambda>it. if li_key it = item then it\<lparr>li_pos := pos\<rparr> else it"
  note v = local_write_Inr [OF assms(4) [unfolded MoveItem_def]]
  have "album_delta d = newAlbumRecord\<lparr>al_moves := fmupd item ?mv fmempty\<rparr>" "ac_AlbumID d = i"
    using v by (simp_all add: mint_def peekAt_eq album_delta_def album_ops)
  then have r2: "al_items ?r2 = al_items ?r" "al_removed ?r2 = al_removed ?r" "al_delKey ?r2 = al_delKey ?r"
      "al_moves ?r2 = upsert move_join item ?mv (al_moves ?r)"
    using record_of_apply [of d a] v by (simp_all add: joinRecord_eq newAlbumRecord_def merge_map_fmempty2 merge_map_singleton)
  note below = album_inv_record [OF assms(1), of i, unfolded keys_below_def]
  have lt: "At k \<le> al_counter a \<Longrightarrow> k < ?key" for k using key_order sat_inc_gt [OF assms(2)] by blast
  have mv: "fmlookup (al_moves ?r2) item = Some ?mv"
  proof (cases "fmlookup (al_moves ?r) item")
    case (Some m)
    then have "am_key m < ?key" using below lt by blast
    with Some show ?thesis by (simp add: r2 move_join_def greater_iff less_not_sym)
  qed (simp add: r2)
  have l2: "live_item ?r2 (k, x) = map_option ?put (live_item ?r (k, x))" if "fmlookup (al_items ?r) k = Some x" for k x
  proof (cases "k = item")
    case True
    have "k < ?key" using below that lt by blast
    with True show ?thesis using mv by (simp add: live_item_def r2 greater_iff)
  next
    case False
    then show ?thesis by (simp add: live_item_def r2)
  qed
  show "liveItems ?r2 = sort_key ?ord (map ?put (liveItems ?r))"
  proof (rule liveItems_unique)
    show "sorted (map ?ord (sort_key ?ord (map ?put (liveItems ?r))))" by (rule sorted_sort_key)
    have "mset (map li_key (sort_key ?ord (map ?put (liveItems ?r)))) = mset (map li_key (map ?put (liveItems ?r)))"
      by (simp only: mset_map mset_sort)
    also have "map li_key (map ?put (liveItems ?r)) = map li_key (liveItems ?r)" by simp
    finally show "distinct (map li_key (sort_key ?ord (map ?put (liveItems ?r))))"
      by (rule mset_eq_imp_distinct_iff [THEN iffD2]) (rule liveItems_keys(2))
    show "it \<in> set (sort_key ?ord (map ?put (liveItems ?r))) \<longleftrightarrow>
        (\<exists>k x. fmlookup (al_items ?r2) k = Some x \<and> live_item ?r2 (k, x) = Some it)" for it
    proof -
      have "it \<in> set (sort_key ?ord (map ?put (liveItems ?r))) \<longleftrightarrow> (\<exists>y. y \<in> set (liveItems ?r) \<and> it = ?put y)"
        unfolding set_sort set_map image_iff Bex_def ..
      also have "\<dots> \<longleftrightarrow> (\<exists>k x. fmlookup (al_items ?r) k = Some x \<and> map_option ?put (live_item ?r (k, x)) = Some it)"
        unfolding mem_liveItems map_option_eq_Some by blast
      also have "\<dots> \<longleftrightarrow> (\<exists>k x. fmlookup (al_items ?r2) k = Some x \<and> live_item ?r2 (k, x) = Some it)"
        unfolding r2(1) by (intro ex_cong1 conj_cong refl) (simp only: l2)
      finally show ?thesis .
    qed
  qed
qed

text \<open>A deleted album that is created again starts empty: whatever it held before, it has the new
  title, no caption, no cover and no items, even if it was deleted with items, registers and moves
  in place.\<close>

theorem album_recreate_empty:
  assumes "album_inv a" and "al_counter a < max_u64 - 1"
    and "DeleteAlbum parse_ok tag i a = Inr (c, a1)" and "Create parse_ok tag2 i title a1 = Inr (d, a2)"
  shows "Album i a1 = None \<and>
    Album i a2 = Some \<lparr>ra_AlbumID = i, ra_Title = title, ra_Caption = [], ra_Cover = [], ra_Items = []\<rparr>"
proof -
  let ?r = "record_of (albums a) i" and ?r1 = "record_of (albums a1) i" and ?r2 = "record_of (albums a2) i"
  let ?k1 = "PosKey (sat_inc (al_counter a)) tag" and ?k2 = "PosKey (sat_inc (al_counter a1)) tag2"
  have ctr: "al_counter a < max_u64" "sat_inc (al_counter a) < max_u64"
    using assms(2) by (auto simp: sat_inc_def max_u64_def word_less_nat_alt unat_word_ariths)
  note w = local_write_Inr [OF assms(3) [unfolded DeleteAlbum_def]] and v = local_write_Inr [OF assms(4) [unfolded Create_def]]
  have c: "ac_AlbumID c = i" "album_delta c = newAlbumRecord\<lparr>al_delKey := ?k1\<rparr>"
    using w by (simp_all add: mint_def peekAt_eq album_delta_def album_ops)
  have d: "ac_AlbumID d = i"
      "album_delta d = newAlbumRecord\<lparr>al_createKey := ?k2, al_title := (if title \<noteq> [] then Some \<lparr>ar_value = title, ar_key = ?k2\<rparr> else None)\<rparr>"
    using v by (simp_all add: mint_def peekAt_eq album_delta_def album_ops Let_def)
  have a1: "al_counter a1 = sat_inc (al_counter a)"
    using w sat_inc_ge [of "al_counter a"] by (simp add: album_applyOne_delta mint_def peekAt_eq max_def)
  note below = album_inv_record [OF assms(1), of i, unfolded keys_below_def]
  have lt: "At k \<le> al_counter a \<Longrightarrow> k < ?k1" for k using key_order sat_inc_gt [OF ctr(1)] by blast
  have k12: "?k1 < ?k2" unfolding a1 using sat_inc_gt [OF ctr(2)] by (intro key_order [of _ "sat_inc (al_counter a)"]) simp_all
  have r1: "?r1 = joinRecord ?r (album_delta c)" using record_of_apply [of c a] w c(1) by simp
  have r2: "?r2 = joinRecord ?r1 (album_delta d)" using record_of_apply [of d a1] v d(1) by simp
  have dk: "al_delKey ?r < ?k1" and ck: "al_createKey ?r < ?k1" using lt below by blast+
  have del1: "al_delKey ?r1 = ?k1" "al_createKey ?r1 = al_createKey ?r"
    using dk by (simp_all add: r1 c joinRecord_eq newAlbumRecord_def max_absorb2)
  have "Album i a1 = None"
    using below lt del1 by (auto simp: Album_def album_live_def record_of_def greater_iff less_not_sym split: option.splits)
  have f2: "al_delKey ?r2 = ?k1" "al_createKey ?r2 = ?k2" "al_items ?r2 = al_items ?r" "al_caption ?r2 = al_caption ?r"
      "al_cover ?r2 = al_cover ?r"
      "al_title ?r2 = join_opt later_reg (al_title ?r) (if title \<noteq> [] then Some \<lparr>ar_value = title, ar_key = ?k2\<rparr> else None)"
    using del1 dk order.strict_trans [OF ck k12]
    by (simp_all add: r2 d joinRecord_eq newAlbumRecord_def merge_map_fmempty2 r1 c max_absorb2)
  have live: "album_live ?r2"
    using f2 k12 zeroKey_least [of ?k1] by (auto simp: album_live_def greater_iff)
  have "it \<notin> set (liveItems ?r2)" for it
  proof
    assume "it \<in> set (liveItems ?r2)"
    then obtain k x where "fmlookup (al_items ?r) k = Some x" "\<not> k < ?k1"
      using live_item_Some f2 unfolding mem_liveItems by metis
    with below lt show False by blast
  qed
  then have items: "liveItems ?r2 = []" by (meson last_in_set)
  have reg: "reg_value ?r2 g = []" if "\<forall>x. g = Some x \<longrightarrow> At (ar_key x) \<le> al_counter a" for g
    using that lt by (auto simp: reg_value_def covers_iff f2 split: option.splits)
  have title: "reg_value ?r2 (al_title ?r2) = title"
  proof (cases "title = []")
    case True
    then show ?thesis using reg [of "al_title ?r"] below by (simp add: f2)
  next
    case False
    have "later_reg x \<lparr>ar_value = title, ar_key = ?k2\<rparr> = \<lparr>ar_value = title, ar_key = ?k2\<rparr>" if "al_title ?r = Some x" for x
    proof -
      have "ar_key x < ?k2" using below that lt k12 by (meson order.strict_trans)
      then show ?thesis by (simp add: later_reg_def greater_iff less_not_sym)
    qed
    then have "al_title ?r2 = Some \<lparr>ar_value = title, ar_key = ?k2\<rparr>"
      using False by (cases "al_title ?r") (simp_all add: f2)
    then show ?thesis using k12 by (simp add: reg_value_def covers_iff f2 less_not_sym)
  qed
  have "resolve i ?r2 = \<lparr>ra_AlbumID = i, ra_Title = title, ra_Caption = [], ra_Cover = [], ra_Items = []\<rparr>"
    using title reg [of "al_caption ?r"] reg [of "al_cover ?r"] below by (simp add: resolve_def Let_def items f2)
  moreover have "fmlookup (albums a2) i = Some ?r2"
    using v d(1) by (cases "fmlookup (albums a1) i") (simp_all add: album_applyOne_delta record_of_def)
  ultimately show ?thesis using live \<open>Album i a1 = None\<close> by (simp add: Album_def)
qed

section \<open>Witnesses\<close>

definition ex_ok :: "string \<Rightarrow> bool" where
  "ex_ok s \<longleftrightarrow> CHR ''|'' \<notin> set s"

lemma ex_ok_clean: "parse_clean ex_ok"
  by (simp add: parse_clean_def ex_ok_def)

definition ex_photo :: "string \<Rightarrow> string \<Rightarrow> PhotoManifest" where
  "ex_photo m h = \<lparr>ph_Manifest = m, ph_Thumbnail = [], ph_Sidecar = [], ph_PlaintextHash = h, ph_Width = 4, ph_Height = 3, ph_TakenAt = 0\<rparr>"

definition ex_create :: AlbumChange where
  "ex_create = (mint ''w1'' AlbumOpCreate ''al'' NewAlbums)\<lparr>ac_Title := ''t''\<rparr>"

definition ex_add :: "string \<Rightarrow> u64 \<Rightarrow> AlbumChange" where
  "ex_add m n = (mint ''w2'' AlbumOpAddItem ''al'' NewAlbums)\<lparr>ac_Item := Some (ex_photo m ''h''), ac_Pos := 5, ac_At := n\<rparr>"

definition ex_albums :: Albums where
  "ex_albums = album_Apply ex_ok [ex_create, ex_add ''m1'' 2] NewAlbums"

lemma ex_albums_inv: "album_inv ex_albums"
  unfolding ex_albums_def by (rule album_inv_Apply [OF album_inv_New])

theorem album_convergence_witness:
  "MergeAlbums (map (\<lambda>l. Some (album_Apply ex_ok l NewAlbums)) [[ex_create, ex_add ''m1'' 2], [ex_add ''m2'' 2]]) =
     album_Apply ex_ok [ex_add ''m2'' 2, ex_add ''m1'' 2, ex_create] NewAlbums \<and>
   map_option ra_Cover (Album ''al'' (album_Apply ex_ok [ex_add ''m2'' 2, ex_add ''m1'' 2, ex_create] NewAlbums)) = Some ''m1''"
proof -
  have "map_option ra_Cover (Album ''al'' (album_Apply ex_ok [ex_add ''m2'' 2, ex_add ''m1'' 2, ex_create] NewAlbums)) = Some ''m1''"
    by code_simp
  moreover have "set (concat [[ex_create, ex_add ''m1'' 2], [ex_add ''m2'' 2]]) = set [ex_add ''m2'' 2, ex_add ''m1'' 2, ex_create]"
    by auto
  ultimately show ?thesis
    using album_convergence [OF ex_ok_clean, of "[[ex_create, ex_add ''m1'' 2], [ex_add ''m2'' 2]]"
        "[ex_add ''m2'' 2, ex_add ''m1'' 2, ex_create]" "[ex_add ''m2'' 2, ex_add ''m1'' 2, ex_create]" "[]" NewAlbums] by simp
qed

theorem album_resolved_witness:
  "distinct (map item_hash (ra_Items (resolve ''al'' (record_of (albums ex_albums) ''al'')))) \<and>
   length (ra_Items (resolve ''al'' (record_of (albums ex_albums) ''al''))) = 1"
proof -
  have "length (ra_Items (resolve ''al'' (record_of (albums ex_albums) ''al''))) = 1" by code_simp
  then show ?thesis using album_resolved [OF enumerates_sorted, of "record_of (albums ex_albums) ''al''"] by blast
qed

theorem album_add_item_witness:
  "\<exists>c a'. AddItem ex_ok ''w3'' ''al'' (ex_photo ''m3'' ''h3'') ex_albums = Inr (c, a') \<and>
     map (\<lambda>it. ph_Manifest (li_photo it)) (ra_Items (resolve ''al'' (record_of (albums a') ''al''))) = [''m1'', ''m3'']"
proof -
  let ?r = "record_of (albums ex_albums) ''al''"
  have "\<not> isl (AddItem ex_ok ''w3'' ''al'' (ex_photo ''m3'' ''h3'') ex_albums)" by code_simp
  then obtain c a' where add: "AddItem ex_ok ''w3'' ''al'' (ex_photo ''m3'' ''h3'') ex_albums = Inr (c, a')"
    by (cases "AddItem ex_ok ''w3'' ''al'' (ex_photo ''m3'' ''h3'') ex_albums") auto
  have ctr: "al_counter ex_albums < max_u64" by code_simp
  have "al_removed ?r = {||}" "al_moves ?r = fmempty" by code_simp+
  then have fresh: "\<forall>k. Writer k = ''w3'' \<longrightarrow> k |\<notin>| al_removed ?r \<and> fmlookup (al_moves ?r) k = None" by simp
  have "map (\<lambda>it. ph_Manifest (li_photo it)) (ra_Items (resolve ''al'' ?r)) = [''m1'']" "item_hash ` set (liveItems ?r) = {''h''}"
    "ph_Manifest (ex_photo ''m3'' ''h3'') = ''m3''" "ph_PlaintextHash (ex_photo ''m3'' ''h3'') = ''h3''" by code_simp+
  then show ?thesis
    using album_add_item [OF ex_albums_inv ctr add fresh] add by simp
qed

theorem album_remove_move_witness:
  "\<exists>c a1 d a2. RemoveItem ex_ok ''w3'' ''al'' (PosKey 2 ''w2'') ex_albums = Inr (c, a1) \<and>
     MoveItem ex_ok ''w3'' ''al'' (PosKey 2 ''w2'') 9 ex_albums = Inr (d, a2) \<and>
     liveItems (record_of (albums a1) ''al'') = [] \<and> map li_pos (liveItems (record_of (albums a2) ''al'')) = [9]"
proof -
  let ?r = "record_of (albums ex_albums) ''al''"
  have "\<not> isl (RemoveItem ex_ok ''w3'' ''al'' (PosKey 2 ''w2'') ex_albums)"
    "\<not> isl (MoveItem ex_ok ''w3'' ''al'' (PosKey 2 ''w2'') 9 ex_albums)" by code_simp+
  then obtain c a1 d a2 where rm: "RemoveItem ex_ok ''w3'' ''al'' (PosKey 2 ''w2'') ex_albums = Inr (c, a1)"
    and mv: "MoveItem ex_ok ''w3'' ''al'' (PosKey 2 ''w2'') 9 ex_albums = Inr (d, a2)"
    by (metis isl_def sum.exhaust surj_pair)
  have ctr: "al_counter ex_albums < max_u64" by code_simp
  have "filter (\<lambda>it. li_key it \<noteq> PosKey 2 ''w2'') (liveItems ?r) = []"
    "map li_pos (sort_key (\<lambda>it. (li_pos it, li_key it))
      (map (\<lambda>it. if li_key it = PosKey 2 ''w2'' then it\<lparr>li_pos := 9\<rparr> else it) (liveItems ?r))) = [9]" by code_simp+
  then show ?thesis
    using album_remove_move [OF ex_albums_inv ctr rm mv] rm mv by auto
qed

theorem album_recreate_empty_witness:
  "\<exists>c a1 d a2. DeleteAlbum ex_ok ''w3'' ''al'' ex_albums = Inr (c, a1) \<and> Create ex_ok ''w4'' ''al'' ''new'' a1 = Inr (d, a2) \<and>
     Album ''al'' a2 = Some \<lparr>ra_AlbumID = ''al'', ra_Title = ''new'', ra_Caption = [], ra_Cover = [], ra_Items = []\<rparr>"
proof -
  have "\<not> isl (DeleteAlbum ex_ok ''w3'' ''al'' ex_albums)"
    "\<not> isl (Create ex_ok ''w4'' ''al'' ''new'' (snd (projr (DeleteAlbum ex_ok ''w3'' ''al'' ex_albums))))" by code_simp+
  then obtain c a1 d a2 where del: "DeleteAlbum ex_ok ''w3'' ''al'' ex_albums = Inr (c, a1)"
    and cr: "Create ex_ok ''w4'' ''al'' ''new'' a1 = Inr (d, a2)"
    by (metis isl_def sum.exhaust surj_pair snd_conv sum.sel(2))
  have "al_counter ex_albums < max_u64 - 1" by code_simp
  from album_recreate_empty [OF ex_albums_inv this del cr] del cr show ?thesis by blast
qed

end
