(* ===== verification/Chunking.thy ===== *)
theory Chunking
  imports GoStd
begin

unbundle bit_operations_syntax

text \<open>
  \<^verbatim>\<open>internal/storagefabric/chunking\<close> (\<^verbatim>\<open>fastcdc.go\<close>, \<^verbatim>\<open>gear.go\<close>): the streaming FastCDC chunker. The
  digest function of \<^verbatim>\<open>void-which-binds-go/hashing\<close> is the parameter \<open>H\<close>, from bytes to digest bytes.
  An \<^verbatim>\<open>io.Reader\<close> is the sequence of pieces it delivers, each with the error that comes with it; a
  piece larger than the space offered is delivered in parts. The buffer is kept as it is in the code,
  a fixed array with the offset and the number of unconsumed bytes. Stream offsets are natural
  numbers: an \<^verbatim>\<open>int64\<close> offset overflows only after \<open>2 ^ 63\<close> bytes.
\<close>

type_synonym byte = "8 word"

section \<open>Configuration\<close>

record Config =
  cf_Min :: int
  cf_Avg :: int
  cf_Max :: int

definition DefaultConfig :: Config where
  "DefaultConfig = \<lparr>cf_Min = 262144, cf_Avg = 1048576, cf_Max = 4194304\<rparr>"

definition normalization :: nat where "normalization = 2"

definition readSize :: nat where "readSize = 262144"

datatype config_error = MinNotPositive | MinNotBelowAvg | AvgNotBelowMax | AvgNotPowerOfTwo | AvgOutOfRange

text \<open>\<^verbatim>\<open>bits.TrailingZeros\<close> of a 64-bit word.\<close>

fun TrailingZeros_below :: "nat \<Rightarrow> nat \<Rightarrow> nat" where
  "TrailingZeros_below 0 n = 0"
| "TrailingZeros_below (Suc w) n = (if n mod 2 = 1 then 0 else Suc (TrailingZeros_below w (n div 2)))"

definition TrailingZeros :: "int \<Rightarrow> nat" where
  "TrailingZeros n = TrailingZeros_below 64 (nat n)"

definition config_Validate :: "Config \<Rightarrow> config_error option" where
  "config_Validate c =
     (if cf_Min c \<le> 0 then Some MinNotPositive
      else if cf_Min c \<ge> cf_Avg c then Some MinNotBelowAvg
      else if cf_Avg c \<ge> cf_Max c then Some AvgNotBelowMax
      else if cf_Avg c AND (cf_Avg c - 1) \<noteq> 0 then Some AvgNotPowerOfTwo
      else (let avgBits = TrailingZeros (cf_Avg c) in
            if avgBits \<le> normalization \<or> avgBits + normalization > 63 then Some AvgOutOfRange else None))"

section \<open>The gear table\<close>

definition gearSeed :: "byte list" where
  "gearSeed = map (\<lambda>c. of_nat (of_char c)) ''heyarr/fastcdc/gear/v1''"

definition le32 :: "nat \<Rightarrow> byte list" where
  "le32 n = map (\<lambda>i. of_nat (n div 256 ^ i)) [0 ..< 4]"

definition of_le64 :: "byte list \<Rightarrow> u64" where
  "of_le64 bs = foldr (\<lambda>b acc. 256 * acc + ucast b) bs 0"

definition buildGear :: "(byte list \<Rightarrow> byte list) \<Rightarrow> u64 list" where
  "buildGear H =
     concat (map (\<lambda>q. let digest = H (gearSeed @ le32 (4 * q)) in
       map (\<lambda>j. of_le64 (take 8 (drop (8 * j) digest))) [0 ..< 4]) [0 ..< 64])"

lemma length_buildGear [simp]: "length (buildGear H) = 256"
  by (simp add: buildGear_def length_concat Let_def comp_def sum_list_triv)

section \<open>Cutting\<close>

record Chunk =
  ch_Offset :: nat
  ch_Length :: nat
  ch_Digest :: "byte list"

definition chunk_End :: "Chunk \<Rightarrow> nat" where
  "chunk_End c = ch_Offset c + ch_Length c"

definition maskOf :: "nat \<Rightarrow> u64" where
  "maskOf n = push_bit (64 - n) (NOT 0)"

text \<open>One of the two loops of \<open>cut\<close>: from index \<open>i\<close> up to \<open>n\<close> with the fingerprint \<open>fp\<close>. A boundary is
  \<open>Inl\<close> the length of the chunk; running through is \<open>Inr\<close> the fingerprint.\<close>

function scan :: "u64 list \<Rightarrow> u64 \<Rightarrow> byte list \<Rightarrow> nat \<Rightarrow> nat \<Rightarrow> u64 \<Rightarrow> nat + u64" where
  "scan gear mk src i n fp =
     (if i < n then
        (let fp' = push_bit 1 fp + gear ! unat (src ! i) in
         if fp' AND mk = 0 then Inl (i + 1) else scan gear mk src (i + 1) n fp')
      else Inr fp)"
  by pat_completeness auto

termination scan
  by (relation "measure (\<lambda>(_, _, _, i, n, _). n - i)") auto

declare scan.simps [simp del]

definition cut :: "u64 list \<Rightarrow> Config \<Rightarrow> u64 \<Rightarrow> u64 \<Rightarrow> byte list \<Rightarrow> nat" where
  "cut gear cfg maskS maskL src =
     (let n0 = length src in
      if int n0 \<le> cf_Min cfg then n0
      else
        (let n = (if int n0 > cf_Max cfg then nat (cf_Max cfg) else n0);
             normal = (if int n < cf_Avg cfg then n else nat (cf_Avg cfg));
             i = nat (cf_Min cfg)
         in case scan gear maskS src i normal 0 of
              Inl l \<Rightarrow> l
            | Inr fp \<Rightarrow> (case scan gear maskL src (max i normal) n fp of Inl l \<Rightarrow> l | Inr _ \<Rightarrow> n)))"

section \<open>The reader and the chunker\<close>

datatype rerr = RNil | REOF | RErr string

type_synonym reader = "(byte list \<times> rerr) list"

text \<open>One call of \<^verbatim>\<open>Read\<close> with room for \<open>k\<close> bytes.\<close>

fun Read :: "nat \<Rightarrow> reader \<Rightarrow> byte list \<times> rerr \<times> reader" where
  "Read k [] = ([], REOF, [])"
| "Read k ((bs, e) # rs) =
     (if length bs \<le> k then (bs, e, rs) else (take k bs, RNil, (drop k bs, e) # rs))"

datatype chunk_error = EOF | ReadFailed string | NoProgress

record Chunker =
  ck_r :: reader
  ck_cfg :: Config
  ck_maskS :: u64
  ck_maskL :: u64
  ck_buf :: "byte list"
  ck_off :: nat
  ck_n :: nat
  ck_offset :: nat
  ck_eof :: bool
  ck_err :: "chunk_error option"

definition New_chunker :: "reader \<Rightarrow> Config \<Rightarrow> config_error + Chunker" where
  "New_chunker r cfg =
     (case config_Validate cfg of
        Some e \<Rightarrow> Inl e
      | None \<Rightarrow>
          (let avgBits = TrailingZeros (cf_Avg cfg) in
           Inr \<lparr>ck_r = r, ck_cfg = cfg, ck_maskS = maskOf (avgBits + normalization),
                ck_maskL = maskOf (avgBits - normalization),
                ck_buf = replicate (nat (cf_Max cfg) + readSize) 0,
                ck_off = 0, ck_n = 0, ck_offset = 0, ck_eof = False, ck_err = None\<rparr>))"

text \<open>The read loop of \<open>fill\<close>, on the buffer, the count of unconsumed bytes and the reader. The result
  is the new buffer, count, reader and end-of-file flag, with the error that stopped it.\<close>

function fill_loop :: "byte list \<Rightarrow> nat \<Rightarrow> reader \<Rightarrow> byte list \<times> nat \<times> reader \<times> bool \<times> chunk_error option" where
  "fill_loop buf n r =
     (if n < length buf then
        (case Read (length buf - n) r of
           (bs, e, r') \<Rightarrow>
             let buf' = take n buf @ bs @ drop (n + length bs) buf; n' = n + length bs in
             (case e of
                REOF \<Rightarrow> (buf', n', r', True, None)
              | RErr s \<Rightarrow> (buf', n', r', False, Some (ReadFailed s))
              | RNil \<Rightarrow> if bs = [] then (buf', n', r', False, Some NoProgress) else fill_loop buf' n' r'))
      else (buf, n, r, False, None))"
  by pat_completeness auto

lemma Read_length: "Read k r = (bs, e, r') \<Longrightarrow> length bs \<le> k"
  by (cases "(k, r)" rule: Read.cases) (auto split: if_splits)

termination fill_loop
  by (relation "measure (\<lambda>(buf, n, _). length buf - n)")
    (auto simp: length_greater_0_conv [symmetric] simp del: length_greater_0_conv)

declare fill_loop.simps [simp del]

definition fill :: "Chunker \<Rightarrow> chunk_error option \<times> Chunker" where
  "fill c =
     (if ck_eof c \<or> ck_n c = length (ck_buf c) then (None, c)
      else
        (let buf = (if ck_off c > 0
                    then take (ck_n c) (drop (ck_off c) (ck_buf c)) @ drop (ck_n c) (ck_buf c)
                    else ck_buf c)
         in case fill_loop buf (ck_n c) (ck_r c) of
              (buf', n', r', eof', err) \<Rightarrow>
                (err, c\<lparr>ck_buf := buf', ck_off := 0, ck_n := n', ck_r := r', ck_eof := eof'\<rparr>)))"

definition Next :: "(byte list \<Rightarrow> byte list) \<Rightarrow> u64 list \<Rightarrow> Chunker \<Rightarrow> (chunk_error + Chunk) \<times> Chunker" where
  "Next H gear c =
     (case ck_err c of
        Some e \<Rightarrow> (Inl e, c)
      | None \<Rightarrow>
          (case fill c of
             (Some e, c1) \<Rightarrow> (Inl e, c1\<lparr>ck_err := Some e\<rparr>)
           | (None, c1) \<Rightarrow>
               if ck_n c1 = 0 then (Inl EOF, c1\<lparr>ck_err := Some EOF\<rparr>)
               else
                 (let window = take (ck_n c1) (drop (ck_off c1) (ck_buf c1));
                      len = cut gear (ck_cfg c1) (ck_maskS c1) (ck_maskL c1) window;
                      chunk = \<lparr>ch_Offset = ck_offset c1, ch_Length = len, ch_Digest = H (take len window)\<rparr>
                  in (Inr chunk, c1\<lparr>ck_off := ck_off c1 + len, ck_n := ck_n c1 - len, ck_offset := ck_offset c1 + len\<rparr>))))"

text \<open>Calling \<open>Next\<close> until it fails, at most \<open>fuel\<close> times; \<open>None\<close> is running out of fuel.\<close>

fun drain :: "nat \<Rightarrow> (byte list \<Rightarrow> byte list) \<Rightarrow> u64 list \<Rightarrow> Chunker \<Rightarrow> (Chunk list \<times> chunk_error \<times> Chunker) option" where
  "drain 0 H gear c = None"
| "drain (Suc fuel) H gear c =
     (case Next H gear c of
        (Inl e, c') \<Rightarrow> Some ([], e, c')
      | (Inr ch, c') \<Rightarrow> map_option (\<lambda>(chs, e, c''). (ch # chs, e, c'')) (drain fuel H gear c'))"

section \<open>Cut points\<close>

lemma scan_bounds: "scan gear mk src i n fp = Inl l \<Longrightarrow> i < l \<and> l \<le> n"
proof (induction gear mk src i n fp rule: scan.induct)
  case (1 gear mk src i n fp)
  then show ?case by (subst (asm) (2) scan.simps) (auto simp: Let_def split: if_splits)
qed

lemma scan_cong: "(\<And>j. j < n \<Longrightarrow> src ! j = src' ! j) \<Longrightarrow> scan gear mk src i n fp = scan gear mk src' i n fp"
proof (induction gear mk src i n fp rule: scan.induct)
  case (1 gear mk src i n fp)
  then show ?case by (simp add: scan.simps [of gear mk src i n fp] scan.simps [of gear mk src' i n fp] Let_def)
qed

lemma config_valid:
  "config_Validate cfg = None \<Longrightarrow> 0 < cf_Min cfg \<and> cf_Min cfg < cf_Avg cfg \<and> cf_Avg cfg < cf_Max cfg"
  by (auto simp: config_Validate_def split: if_splits)

lemma cut_bounds:
  assumes "config_Validate cfg = None" and "src \<noteq> []"
  shows "0 < cut gear cfg mS mL src \<and> cut gear cfg mS mL src \<le> length src \<and> int (cut gear cfg mS mL src) \<le> cf_Max cfg \<and>
    (cut gear cfg mS mL src < length src \<longrightarrow> cf_Min cfg < int (cut gear cfg mS mL src))"
proof (cases "int (length src) \<le> cf_Min cfg")
  case True
  then show ?thesis using assms config_valid [OF assms(1)] by (simp add: cut_def)
next
  case False
  let ?n = "if int (length src) > cf_Max cfg then nat (cf_Max cfg) else length src"
  let ?normal = "if int ?n < cf_Avg cfg then ?n else nat (cf_Avg cfg)"
  note v = config_valid [OF assms(1)]
  have n: "nat (cf_Min cfg) < ?n" "?n \<le> length src" "int ?n \<le> cf_Max cfg" "?normal \<le> ?n" using False v by auto
  have "nat (cf_Min cfg) < cut gear cfg mS mL src \<and> cut gear cfg mS mL src \<le> ?n"
  proof (cases "scan gear mS src (nat (cf_Min cfg)) ?normal 0")
    case (Inl l)
    then show ?thesis using False scan_bounds [OF Inl] n by (simp add: cut_def Let_def)
  next
    case (Inr fp)
    show ?thesis
    proof (cases "scan gear mL src (max (nat (cf_Min cfg)) ?normal) ?n fp")
      case (Inl l)
      then show ?thesis using False Inr scan_bounds [OF Inl] n by (simp add: cut_def Let_def)
    next
      case (Inr fp')
      then show ?thesis using False \<open>scan gear mS _ _ _ _ = Inr fp\<close> n by (simp add: cut_def Let_def)
    qed
  qed
  with n show ?thesis by auto
qed

text \<open>No byte past the maximum is looked at.\<close>

lemma cut_append:
  assumes "config_Validate cfg = None" and "cf_Max cfg \<le> int (length src)"
  shows "cut gear cfg mS mL (src @ ys) = cut gear cfg mS mL src"
proof -
  let ?i = "nat (cf_Min cfg)" and ?n = "nat (cf_Max cfg)"
  let ?normal = "if int ?n < cf_Avg cfg then ?n else nat (cf_Avg cfg)"
  note v = config_valid [OF assms(1)]
  have eq: "scan gear mk (src @ ys) i k fp = scan gear mk src i k fp" if "k \<le> ?n" for mk i k fp
  proof (rule scan_cong)
    have "?n \<le> length src" using assms(2) by simp
    then show "(src @ ys) ! j = src ! j" if "j < k" for j using that \<open>k \<le> ?n\<close> by (simp add: nth_append)
  qed
  have full: "cut gear cfg mS mL xs =
      (case scan gear mS xs ?i ?normal 0 of Inl l \<Rightarrow> l
       | Inr fp \<Rightarrow> (case scan gear mL xs (max ?i ?normal) ?n fp of Inl l \<Rightarrow> l | Inr _ \<Rightarrow> ?n))"
    if "cf_Max cfg \<le> int (length xs)" for xs
  proof -
    have "(if int (length xs) > cf_Max cfg then ?n else length xs) = ?n" "\<not> int (length xs) \<le> cf_Min cfg"
      using that v by auto
    then show ?thesis unfolding cut_def Let_def by (simp only: if_False)
  qed
  have "?normal \<le> ?n" using v by (simp add: nat_mono)
  then show ?thesis using assms(2) by (simp add: full eq split: sum.splits)
qed

section \<open>The chunks of a byte sequence\<close>

definition maskS_of :: "Config \<Rightarrow> u64" where
  "maskS_of cfg = maskOf (TrailingZeros (cf_Avg cfg) + normalization)"

definition maskL_of :: "Config \<Rightarrow> u64" where
  "maskL_of cfg = maskOf (TrailingZeros (cf_Avg cfg) - normalization)"

text \<open>The specification: cut a chunk off the front, digest it, go on with the rest.\<close>

function chunks_of :: "(byte list \<Rightarrow> byte list) \<Rightarrow> u64 list \<Rightarrow> Config \<Rightarrow> nat \<Rightarrow> byte list \<Rightarrow> Chunk list" where
  "chunks_of H gear cfg off bs =
     (let len = cut gear cfg (maskS_of cfg) (maskL_of cfg) bs in
      if bs = [] \<or> len = 0 then []
      else \<lparr>ch_Offset = off, ch_Length = len, ch_Digest = H (take len bs)\<rparr> # chunks_of H gear cfg (off + len) (drop len bs))"
  by pat_completeness auto

termination chunks_of
  by (relation "measure (\<lambda>(_, _, _, _, bs). length bs)") (auto simp: length_greater_0_conv [symmetric] simp del: length_greater_0_conv)

declare chunks_of.simps [simp del]

lemma chunks_of_Nil [simp]: "chunks_of H gear cfg off [] = []"
  by (simp add: chunks_of.simps)

definition cut_of :: "u64 list \<Rightarrow> Config \<Rightarrow> byte list \<Rightarrow> nat" where
  "cut_of gear cfg bs = cut gear cfg (maskS_of cfg) (maskL_of cfg) bs"

lemma chunks_of_Cons:
  assumes "config_Validate cfg = None" and "bs \<noteq> []"
  shows "chunks_of H gear cfg off bs =
    \<lparr>ch_Offset = off, ch_Length = cut_of gear cfg bs, ch_Digest = H (take (cut_of gear cfg bs) bs)\<rparr>
    # chunks_of H gear cfg (off + cut_of gear cfg bs) (drop (cut_of gear cfg bs) bs)"
  using cut_bounds [OF assms] assms(2) by (subst chunks_of.simps) (simp add: cut_of_def Let_def)

lemma chunks_of_induct [consumes 1, case_names empty chunk]:
  assumes "config_Validate cfg = None" and "\<And>off. P off []"
    and "\<And>off bs. bs \<noteq> [] \<Longrightarrow> P (off + cut_of gear cfg bs) (drop (cut_of gear cfg bs) bs) \<Longrightarrow> P off bs"
  shows "P off bs"
proof (induction bs arbitrary: off rule: length_induct)
  case (1 bs)
  show ?case
  proof (cases "bs = []")
    case False
    then have "length (drop (cut_of gear cfg bs) bs) < length bs"
      using cut_bounds [OF assms(1) False] by (simp add: cut_of_def)
    with 1 have "P (off + cut_of gear cfg bs) (drop (cut_of gear cfg bs) bs)" by blast
    with False show ?thesis by (rule assms(3))
  qed (simp add: assms(2))
qed

text \<open>\<open>contiguous off chs\<close>: the chunks follow each other from \<open>off\<close> without gap or overlap.\<close>

fun contiguous :: "nat \<Rightarrow> Chunk list \<Rightarrow> bool" where
  "contiguous off [] = True"
| "contiguous off (c # cs) = (ch_Offset c = off \<and> contiguous (chunk_End c) cs)"

definition total_length :: "Chunk list \<Rightarrow> nat" where
  "total_length chs = sum_list (map ch_Length chs)"

text \<open>The bytes a chunk describes in a content that starts at offset \<open>base\<close>.\<close>

definition slice :: "nat \<Rightarrow> byte list \<Rightarrow> Chunk \<Rightarrow> byte list" where
  "slice base bs c = take (ch_Length c) (drop (ch_Offset c - base) bs)"

lemma chunks_of_contiguous:
  assumes v: "config_Validate cfg = None"
  shows "contiguous off (chunks_of H gear cfg off bs)"
  using v
proof (induction off bs rule: chunks_of_induct [where gear = gear])
  case (chunk off bs)
  then show ?case by (simp add: chunks_of_Cons [OF v] chunk_End_def)
qed simp_all

lemma chunks_of_total:
  assumes v: "config_Validate cfg = None"
  shows "total_length (chunks_of H gear cfg off bs) = length bs"
  using v
proof (induction off bs rule: chunks_of_induct [where gear = gear])
  case (chunk off bs)
  then show ?case using cut_bounds [OF v chunk(1), of gear] by (auto simp: chunks_of_Cons [OF v] total_length_def cut_of_def)
qed (simp_all add: total_length_def)

lemma contiguous_ge: "contiguous off chs \<Longrightarrow> c \<in> set chs \<Longrightarrow> off \<le> ch_Offset c"
  by (induction off chs rule: contiguous.induct) (auto simp: chunk_End_def)

lemma chunks_of_slices:
  assumes v: "config_Validate cfg = None"
  shows "concat (map (slice off bs) (chunks_of H gear cfg off bs)) = bs \<and>
   (\<forall>c \<in> set (chunks_of H gear cfg off bs). ch_Digest c = H (slice off bs c))"
  using v
proof (induction off bs rule: chunks_of_induct [where gear = gear])
  case (chunk off bs)
  let ?l = "cut_of gear cfg bs"
  let ?tl = "chunks_of H gear cfg (off + ?l) (drop ?l bs)"
  have "slice off bs c = slice (off + ?l) (drop ?l bs) c" if "c \<in> set ?tl" for c
    using contiguous_ge [OF chunks_of_contiguous [OF v] that] by (simp add: slice_def)
  then have tl: "concat (map (slice off bs) ?tl) = drop ?l bs" and d: "\<forall>c \<in> set ?tl. ch_Digest c = H (slice off bs c)"
    using chunk(2) by (auto cong: map_cong)
  have hd: "slice off bs \<lparr>ch_Offset = off, ch_Length = ?l, ch_Digest = x\<rparr> = take ?l bs" for x
    by (simp add: slice_def)
  show ?case unfolding chunks_of_Cons [OF v chunk(1)] using tl d by (simp add: hd)
qed simp_all

lemma chunks_of_bounds:
  assumes v: "config_Validate cfg = None"
  shows "(\<forall>c \<in> set (chunks_of H gear cfg off bs). 0 < ch_Length c \<and> int (ch_Length c) \<le> cf_Max cfg) \<and>
   (\<forall>c \<in> set (butlast (chunks_of H gear cfg off bs)). cf_Min cfg < int (ch_Length c))"
  using v
proof (induction off bs rule: chunks_of_induct [where gear = gear])
  case (chunk off bs)
  let ?l = "cut_of gear cfg bs"
  note b = cut_bounds [OF v chunk(1), of gear "maskS_of cfg" "maskL_of cfg", folded cut_of_def]
  show ?case
  proof (cases "drop ?l bs = []")
    case True
    then have "chunks_of H gear cfg off bs = [\<lparr>ch_Offset = off, ch_Length = ?l, ch_Digest = H (take ?l bs)\<rparr>]"
      using chunk by (simp add: chunks_of_Cons [OF v])
    with b show ?thesis by simp
  next
    case False
    then have "cf_Min cfg < int ?l" using b by simp
    with b chunk show ?thesis by (auto simp: chunks_of_Cons [OF v])
  qed
qed simp_all

section \<open>Streaming\<close>

text \<open>The bytes a reader delivers before it ends, and the readers that make progress and end without
  an error.\<close>

fun delivered :: "reader \<Rightarrow> byte list" where
  "delivered [] = []"
| "delivered ((bs, e) # rs) = bs @ (if e = RNil then delivered rs else [])"

fun clean_reader :: "reader \<Rightarrow> bool" where
  "clean_reader [] = True"
| "clean_reader ((bs, e) # rs) = (case e of RNil \<Rightarrow> bs \<noteq> [] \<and> clean_reader rs | REOF \<Rightarrow> True | RErr _ \<Rightarrow> False)"

lemma Read_clean:
  assumes "Read k r = (bs, e, r')" and "clean_reader r" and "0 < k"
  shows "length bs \<le> k" and "e = RNil \<Longrightarrow> bs \<noteq> [] \<and> clean_reader r' \<and> delivered r = bs @ delivered r'"
    and "e = REOF \<Longrightarrow> delivered r = bs" and "e \<noteq> RErr s"
  using assms by (cases "(k, r)" rule: Read.cases; auto split: if_splits rerr.splits)+

lemma fill_loop_clean:
  assumes "fill_loop buf n r = (buf', n', r', eof', err)" and "n \<le> length buf" and "clean_reader r"
  shows "err = None \<and> length buf' = length buf \<and> n' \<le> length buf \<and>
    take n' buf' @ (if eof' then [] else delivered r') = take n buf @ delivered r \<and>
    (\<not> eof' \<longrightarrow> n' = length buf \<and> clean_reader r')"
  using assms
proof (induction buf n r arbitrary: buf' n' r' eof' err rule: fill_loop.induct)
  case (1 buf n r)
  show ?case
  proof (cases "n < length buf")
    case False
    with 1 show ?thesis by (simp add: fill_loop.simps [of buf n r])
  next
    case True
    obtain bs e r1 where rd: "Read (length buf - n) r = (bs, e, r1)" by (metis prod_cases3)
    let ?buf = "take n buf @ bs @ drop (n + length bs) buf"
    have k: "0 < length buf - n" using True by simp
    note R = Read_clean [OF rd 1(4) k]
    have len: "length ?buf = length buf" "n + length bs \<le> length buf" using R(1) True by auto
    have pre: "take (n + length bs) ?buf = take n buf @ bs" using True by simp
    note unf = 1(2) [unfolded fill_loop.simps [of buf n r]]
    show ?thesis
    proof (cases e)
      case REOF
      then show ?thesis using unf True rd len pre R(3) by (auto simp: Let_def)
    next
      case (RErr s)
      then show ?thesis using R(4) by blast
    next
      case RNil
      have "fill_loop ?buf (n + length bs) r1 = (buf', n', r', eof', err)"
        using unf True rd RNil R(2) by (auto simp: Let_def)
      from 1(1) [OF True rd [symmetric] refl refl refl RNil _ this] show ?thesis
        using R(2) [OF RNil] len pre by simp
    qed
  qed
qed

text \<open>The unconsumed bytes, in the buffer and in the reader.\<close>

definition window :: "Chunker \<Rightarrow> byte list" where
  "window c = take (ck_n c) (drop (ck_off c) (ck_buf c))"

definition remaining :: "Chunker \<Rightarrow> byte list" where
  "remaining c = window c @ (if ck_eof c then [] else delivered (ck_r c))"

definition chunker_ok :: "Chunker \<Rightarrow> bool" where
  "chunker_ok c \<longleftrightarrow> config_Validate (ck_cfg c) = None \<and> ck_maskS c = maskS_of (ck_cfg c) \<and> ck_maskL c = maskL_of (ck_cfg c) \<and>
     length (ck_buf c) = nat (cf_Max (ck_cfg c)) + readSize \<and> ck_off c + ck_n c \<le> length (ck_buf c) \<and> ck_err c = None \<and>
     (\<not> ck_eof c \<longrightarrow> clean_reader (ck_r c))"

lemma length_window: "chunker_ok c \<Longrightarrow> length (window c) = ck_n c"
  by (auto simp: window_def chunker_ok_def min_def)

lemma fill_ok:
  assumes "chunker_ok c"
  shows "\<exists>c1. fill c = (None, c1) \<and> chunker_ok c1 \<and> remaining c1 = remaining c \<and> ck_offset c1 = ck_offset c \<and>
    ck_cfg c1 = ck_cfg c \<and> (ck_eof c1 \<or> ck_n c1 = length (ck_buf c1))"
proof (cases "ck_eof c \<or> ck_n c = length (ck_buf c)")
  case True
  then show ?thesis using assms by (simp add: fill_def)
next
  case False
  let ?buf = "if ck_off c > 0 then take (ck_n c) (drop (ck_off c) (ck_buf c)) @ drop (ck_n c) (ck_buf c) else ck_buf c"
  have ok: "ck_off c + ck_n c \<le> length (ck_buf c)" "clean_reader (ck_r c)" using assms False by (auto simp: chunker_ok_def)
  have len: "length ?buf = length (ck_buf c)" and win: "take (ck_n c) ?buf = window c"
    using ok by (auto simp: window_def)
  obtain buf' n' r' eof' err where f: "fill_loop ?buf (ck_n c) (ck_r c) = (buf', n', r', eof', err)" by (metis prod_cases5)
  have "ck_n c \<le> length ?buf" using ok len by simp
  note l = fill_loop_clean [OF f this ok(2), unfolded len win]
  let ?c1 = "c\<lparr>ck_buf := buf', ck_off := 0, ck_n := n', ck_r := r', ck_eof := eof'\<rparr>"
  have "fill c = (None, ?c1)" using False f l by (simp add: fill_def Let_def)
  moreover have "chunker_ok ?c1" using assms l by (auto simp: chunker_ok_def)
  moreover have "remaining ?c1 = remaining c" using l False by (cases eof') (auto simp: remaining_def window_def)
  ultimately show ?thesis using l by auto
qed

lemma Next_ok:
  assumes "chunker_ok c" and "remaining c \<noteq> []"
  shows "\<exists>c'. Next H gear c = (Inr \<lparr>ch_Offset = ck_offset c, ch_Length = cut_of gear (ck_cfg c) (remaining c),
      ch_Digest = H (take (cut_of gear (ck_cfg c) (remaining c)) (remaining c))\<rparr>, c') \<and>
    chunker_ok c' \<and> remaining c' = drop (cut_of gear (ck_cfg c) (remaining c)) (remaining c) \<and>
    ck_offset c' = ck_offset c + cut_of gear (ck_cfg c) (remaining c) \<and> ck_cfg c' = ck_cfg c"
proof -
  obtain c1 where f: "fill c = (None, c1)" and ok: "chunker_ok c1" and rem: "remaining c1 = remaining c"
    and same: "ck_offset c1 = ck_offset c" "ck_cfg c1 = ck_cfg c" and full: "ck_eof c1 \<or> ck_n c1 = length (ck_buf c1)"
    using fill_ok [OF assms(1)] by blast
  have v: "config_Validate (ck_cfg c) = None" using assms(1) by (simp add: chunker_ok_def)
  have nw: "ck_n c1 = length (window c1)" using length_window [OF ok] by simp
  have wne: "window c1 \<noteq> []"
  proof
    assume "window c1 = []"
    with nw full ok config_valid [OF v] same have "ck_eof c1" by (auto simp: chunker_ok_def readSize_def)
    with \<open>window c1 = []\<close> rem assms(2) show False by (simp add: remaining_def)
  qed
  let ?l = "cut_of gear (ck_cfg c) (window c1)"
  have cut: "cut_of gear (ck_cfg c) (remaining c) = ?l"
  proof (cases "ck_eof c1")
    case True
    then show ?thesis using rem by (simp add: remaining_def)
  next
    case False
    then have "cf_Max (ck_cfg c) \<le> int (length (window c1))"
      using full nw ok same by (simp add: chunker_ok_def readSize_def)
    from cut_append [OF v this] show ?thesis
      unfolding cut_of_def rem [symmetric] unfolding remaining_def by simp
  qed
  have b: "0 < ?l" "?l \<le> length (window c1)" using cut_bounds [OF v wne] by (auto simp: cut_of_def)
  let ?c' = "c1\<lparr>ck_off := ck_off c1 + ?l, ck_n := ck_n c1 - ?l, ck_offset := ck_offset c1 + ?l\<rparr>"
  have "window ?c' = drop ?l (window c1)"
    using b by (simp add: window_def drop_take add.commute)
  then have rem': "remaining ?c' = drop ?l (remaining c)"
    using b rem [symmetric] by (simp add: remaining_def)
  have n1: "ck_n c1 \<noteq> 0" and e: "ck_err c = None" using wne nw assms(1) by (auto simp: chunker_ok_def)
  have "cut gear (ck_cfg c1) (ck_maskS c1) (ck_maskL c1) (window c1) = ?l"
    using ok same by (simp add: cut_of_def chunker_ok_def)
  moreover have "take ?l (window c1) = take ?l (remaining c)"
    using b rem [symmetric] by (simp add: remaining_def)
  ultimately have "Next H gear c = (Inr \<lparr>ch_Offset = ck_offset c, ch_Length = ?l, ch_Digest = H (take ?l (remaining c))\<rparr>, ?c')"
    unfolding Next_def Let_def window_def [symmetric] using e n1 f same by simp
  moreover have "chunker_ok ?c'" using ok b nw by (auto simp: chunker_ok_def)
  ultimately show ?thesis using cut rem' same by auto
qed

lemma Next_end:
  assumes "chunker_ok c" and "remaining c = []"
  shows "\<exists>c'. Next H gear c = (Inl EOF, c') \<and> ck_err c' = Some EOF \<and> length (ck_buf c') = length (ck_buf c)"
proof -
  obtain c1 where f: "fill c = (None, c1)" and ok: "chunker_ok c1" and rem: "remaining c1 = []"
    and same: "ck_cfg c1 = ck_cfg c" using fill_ok [OF assms(1)] assms(2) by metis
  have "ck_n c1 = length (window c1)" using length_window [OF ok] by simp
  then have "ck_n c1 = 0" using rem by (simp add: remaining_def)
  then show ?thesis using assms(1) f ok same by (simp add: Next_def chunker_ok_def)
qed

lemma drain_ok:
  assumes "chunker_ok c" and "length (remaining c) < fuel"
  shows "\<exists>c'. drain fuel H gear c = Some (chunks_of H gear (ck_cfg c) (ck_offset c) (remaining c), EOF, c') \<and> ck_err c' = Some EOF"
  using assms
proof (induction fuel arbitrary: c)
  case (Suc fuel)
  have v: "config_Validate (ck_cfg c) = None" using Suc.prems(1) by (simp add: chunker_ok_def)
  show ?case
  proof (cases "remaining c = []")
    case True
    then show ?thesis using Next_end [OF Suc.prems(1) True, of H gear] by auto
  next
    case False
    let ?l = "cut_of gear (ck_cfg c) (remaining c)"
    obtain c' where n: "Next H gear c = (Inr \<lparr>ch_Offset = ck_offset c, ch_Length = ?l, ch_Digest = H (take ?l (remaining c))\<rparr>, c')"
      and c': "chunker_ok c'" "remaining c' = drop ?l (remaining c)" "ck_offset c' = ck_offset c + ?l" "ck_cfg c' = ck_cfg c"
      using Next_ok [OF Suc.prems(1) False] by blast
    have "length (remaining c') < fuel"
      using cut_bounds [OF v False, of gear "maskS_of (ck_cfg c)" "maskL_of (ck_cfg c)", folded cut_of_def] Suc.prems(2)
      unfolding c'(2) length_drop by linarith
    from Suc.IH [OF c'(1) this] show ?thesis
      using n c' by (auto simp: chunks_of_Cons [OF v False])
  qed
qed simp

lemma New_chunker_Inr: "config_Validate cfg = None \<Longrightarrow> \<exists>c. New_chunker r cfg = Inr c"
  by (simp add: New_chunker_def Let_def)

lemma New_chunker_ok:
  assumes "New_chunker r cfg = Inr c" and "clean_reader r"
  shows "chunker_ok c \<and> remaining c = delivered r \<and> ck_offset c = 0 \<and> ck_cfg c = cfg \<and> config_Validate cfg = None"
  using assms
  by (auto simp: New_chunker_def chunker_ok_def remaining_def window_def maskS_of_def maskL_of_def Let_def split: option.splits)

section \<open>Properties\<close>

text \<open>C7: the streaming chunker computes the chunks of the bytes. Whatever pieces the reader hands the
  bytes over in, as long as it makes progress and ends without an error, calling \<^verbatim>\<open>Next\<close> until it
  fails ends after at most one call per byte and one more, with end of file, and yields exactly the
  chunks of the whole byte sequence; after that every call gives end of file. So two readers of
  the same bytes yield the same chunks.\<close>

theorem chunker_streams:
  assumes "New_chunker r cfg = Inr c" and "clean_reader r" and "length (delivered r) < fuel"
  shows "\<exists>c'. drain fuel H gear c = Some (chunks_of H gear cfg 0 (delivered r), EOF, c') \<and> Next H gear c' = (Inl EOF, c')"
proof -
  note ok = New_chunker_ok [OF assms(1,2)]
  obtain c' where "drain fuel H gear c = Some (chunks_of H gear cfg 0 (delivered r), EOF, c')" "ck_err c' = Some EOF"
    using drain_ok [of c fuel H gear] ok assms(3) by auto
  then show ?thesis by (auto simp: Next_def)
qed

text \<open>C8: the chunks are a division of the bytes within the configured sizes. They follow each other
  from offset 0 without gap or overlap and add up to the length of the content; putting the bytes they
  describe together gives the content back; each digest is the digest of the chunk's bytes; every
  chunk is non-empty and at most Max long, and every one but the last is longer than Min.\<close>

theorem chunks_divide_content:
  assumes "config_Validate cfg = None"
  shows "contiguous 0 (chunks_of H gear cfg 0 bs) \<and> total_length (chunks_of H gear cfg 0 bs) = length bs \<and>
    concat (map (slice 0 bs) (chunks_of H gear cfg 0 bs)) = bs \<and>
    (\<forall>c \<in> set (chunks_of H gear cfg 0 bs). ch_Digest c = H (slice 0 bs c) \<and> 0 < ch_Length c \<and> int (ch_Length c) \<le> cf_Max cfg) \<and>
    (\<forall>c \<in> set (butlast (chunks_of H gear cfg 0 bs)). cf_Min cfg < int (ch_Length c))"
  using chunks_of_contiguous [OF assms] chunks_of_total [OF assms] chunks_of_slices [OF assms] chunks_of_bounds [OF assms]
  by blast

section \<open>Where a chunk ends\<close>

text \<open>The fingerprint of the bytes from \<open>lo\<close> up to \<open>j\<close>, written as the sum it is: each byte's entry of the gear table, shifted
  once for every byte after it.\<close>

definition rolling :: "u64 list \<Rightarrow> byte list \<Rightarrow> nat \<Rightarrow> nat \<Rightarrow> u64" where
  "rolling gear src lo j = (\<Sum>k\<in>{lo..<j}. push_bit (j - 1 - k) (gear ! unat (src ! k)))"

text \<open>A chunk of length \<open>l\<close> may end where the top bits of the fingerprint are zero, two more of them than the average calls
  for up to the average length, and two fewer after it.\<close>

definition boundary :: "u64 list \<Rightarrow> Config \<Rightarrow> byte list \<Rightarrow> nat \<Rightarrow> bool" where
  "boundary gear cfg src l \<longleftrightarrow>
     (let bits = TrailingZeros (cf_Avg cfg) in
      drop_bit (64 - (if int l \<le> cf_Avg cfg then bits + 2 else bits - 2)) (rolling gear src (nat (cf_Min cfg)) l) = 0)"

lemma rolling_empty [simp]: "rolling gear src lo lo = 0"
  by (simp add: rolling_def)

lemma rolling_Suc:
  assumes "lo \<le> j"
  shows "rolling gear src lo (Suc j) = push_bit 1 (rolling gear src lo j) + gear ! unat (src ! j)"
proof -
  have "push_bit (j - k) (w :: u64) = push_bit 1 (push_bit (j - 1 - k) w)" if "k \<in> {lo..<j}" for k w
  proof -
    have "j - k = 1 + (j - 1 - k)" using that by auto
    then show ?thesis by (simp only: push_bit_push_bit)
  qed
  then have "(\<Sum>k\<in>{lo..<j}. push_bit (j - k) (gear ! unat (src ! k))) = (\<Sum>k\<in>{lo..<j}. push_bit 1 (push_bit (j - 1 - k) (gear ! unat (src ! k))))"
    by (intro sum.cong) auto
  also have "\<dots> = push_bit 1 (rolling gear src lo j)"
    by (simp only: rolling_def push_bit_eq_mult sum_distrib_right)
  finally show ?thesis using assms by (simp add: rolling_def)
qed

lemma rolling_window: "rolling gear src lo j = rolling gear src (max lo (j - 64)) j"
proof -
  have "push_bit (j - 1 - k) (w :: u64) = 0" if "k < j - 64" for k w
    using that by (intro bit_eqI) (simp add: bit_simps)
  then show ?thesis unfolding rolling_def by (intro sum.mono_neutral_right) auto
qed

lemma maskOf_zero:
  assumes "b \<le> 64"
  shows "fp AND maskOf b = 0 \<longleftrightarrow> drop_bit (64 - b) fp = 0"
proof -
  have "fp AND maskOf b = 0 \<longleftrightarrow> (\<forall>n. n < 64 \<longrightarrow> 64 - b \<le> n \<longrightarrow> \<not> bit fp n)"
    by (auto simp: bit_eq_iff bit_simps maskOf_def)
  also have "\<dots> \<longleftrightarrow> (\<forall>n. 64 - b \<le> n \<longrightarrow> \<not> bit fp n)"
    using bit_imp_le_length [of fp] by auto
  also have "\<dots> \<longleftrightarrow> (\<forall>n. \<not> bit fp (64 - b + n))"
    by (metis le_add1 le_add_diff_inverse)
  also have "\<dots> \<longleftrightarrow> drop_bit (64 - b) fp = 0"
    using bit_imp_le_length [of fp] by (fastforce simp: bit_eq_iff bit_drop_bit_eq)
  finally show ?thesis .
qed

lemma scan_first:
  assumes "lo \<le> i" and "fp = rolling gear src lo i"
  shows "case scan gear mk src i n fp of
      Inl l \<Rightarrow> i < l \<and> l \<le> n \<and> rolling gear src lo l AND mk = 0 \<and> (\<forall>j. i < j \<and> j < l \<longrightarrow> rolling gear src lo j AND mk \<noteq> 0)
    | Inr fp' \<Rightarrow> fp' = rolling gear src lo (max i n) \<and> (\<forall>j. i < j \<and> j \<le> n \<longrightarrow> rolling gear src lo j AND mk \<noteq> 0)"
  using assms
proof (induction gear mk src i n fp rule: scan.induct)
  case (1 gear mk src i n fp)
  let ?next = "rolling gear src lo (Suc i)"
  have e: "push_bit 1 fp + gear ! unat (src ! i) = ?next" using rolling_Suc [OF 1(2)] 1(3) by simp
  consider (stop) "\<not> i < n" | (hit) "i < n" "?next AND mk = 0" | (on) "i < n" "?next AND mk \<noteq> 0" by blast
  then show ?case
  proof cases
    case stop
    then have "scan gear mk src i n fp = Inr fp" "max i n = i" by (simp_all add: scan.simps [of gear mk src i])
    then show ?thesis using 1(3) \<open>\<not> i < n\<close> by auto
  next
    case hit
    then show ?thesis using e by (auto simp: scan.simps [of gear mk src i] Let_def)
  next
    case on
    have s: "scan gear mk src i n fp = scan gear mk src (i + 1) n ?next" using on e by (simp add: scan.simps [of gear mk src i] Let_def)
    have "case scan gear mk src (i + 1) n ?next of
        Inl l \<Rightarrow> i + 1 < l \<and> l \<le> n \<and> rolling gear src lo l AND mk = 0 \<and> (\<forall>j. i + 1 < j \<and> j < l \<longrightarrow> rolling gear src lo j AND mk \<noteq> 0)
      | Inr fp' \<Rightarrow> fp' = rolling gear src lo (max (i + 1) n) \<and> (\<forall>j. i + 1 < j \<and> j \<le> n \<longrightarrow> rolling gear src lo j AND mk \<noteq> 0)"
      using 1(1) [OF on(1) refl] on(2) e 1(2) by simp
    moreover have "i < j \<longleftrightarrow> j = Suc i \<or> i + 1 < j" for j by auto
    moreover have "max (i + 1) n = max i n" using on(1) by simp
    ultimately show ?thesis unfolding s using on(2) by (auto split: sum.splits)
  qed
qed

text \<open>The length \<open>cut\<close> returns is the first one at which a chunk may end.\<close>

lemma cut_first:
  assumes v: "config_Validate cfg = None" and mS: "mS = maskOf (TrailingZeros (cf_Avg cfg) + normalization)"
    and mL: "mL = maskOf (TrailingZeros (cf_Avg cfg) - normalization)"
    and n: "n = min (length src) (nat (cf_Max cfg))" and l: "l = cut gear cfg mS mL src"
  shows "l \<le> n \<and> (l = n \<or> nat (cf_Min cfg) < l \<and> boundary gear cfg src l) \<and>
    (\<forall>j. nat (cf_Min cfg) < j \<and> j < l \<longrightarrow> \<not> boundary gear cfg src j)"
proof (cases "int (length src) \<le> cf_Min cfg")
  case True
  then have "l = length src" using l by (simp add: cut_def)
  then show ?thesis using True n config_valid [OF v] by auto
next
  case False
  let ?lo = "nat (cf_Min cfg)" and ?bits = "TrailingZeros (cf_Avg cfg)"
  define m where "m = (if int n < cf_Avg cfg then n else nat (cf_Avg cfg))"
  note c = config_valid [OF v]
  have "\<not> (?bits \<le> normalization \<or> ?bits + normalization > 63)" using v by (auto simp: config_Validate_def Let_def split: if_splits)
  then have bits: "?bits + normalization \<le> 64" "?bits - normalization \<le> 64" by auto
  have early: "boundary gear cfg src j \<longleftrightarrow> rolling gear src ?lo j AND mS = 0" if "j \<le> m" for j
  proof -
    have "int j \<le> cf_Avg cfg" using that c by (simp add: m_def split: if_splits)
    then show ?thesis unfolding mS maskOf_zero [OF bits(1)] by (simp add: boundary_def normalization_def)
  qed
  have late: "boundary gear cfg src j \<longleftrightarrow> rolling gear src ?lo j AND mL = 0" if "m < j" "j \<le> n" for j
  proof -
    have "\<not> int j \<le> cf_Avg cfg" using that c by (simp add: m_def split: if_splits)
    then show ?thesis unfolding mL maskOf_zero [OF bits(2)] by (simp add: boundary_def normalization_def)
  qed
  have m: "?lo \<le> m" "m \<le> n" using False n c by (auto simp: m_def)
  have nn: "(if int (length src) > cf_Max cfg then nat (cf_Max cfg) else length src) = n" using n by auto
  have cut: "l = (case scan gear mS src ?lo m 0 of Inl l \<Rightarrow> l | Inr fp \<Rightarrow> (case scan gear mL src m n fp of Inl l \<Rightarrow> l | Inr _ \<Rightarrow> n))"
    unfolding l cut_def Let_def nn m_def [symmetric] using False m(1) by (simp add: max_absorb2)
  have first: "case scan gear mS src ?lo m 0 of
      Inl l \<Rightarrow> ?lo < l \<and> l \<le> m \<and> rolling gear src ?lo l AND mS = 0 \<and> (\<forall>j. ?lo < j \<and> j < l \<longrightarrow> rolling gear src ?lo j AND mS \<noteq> 0)
    | Inr fp' \<Rightarrow> fp' = rolling gear src ?lo (max ?lo m) \<and> (\<forall>j. ?lo < j \<and> j \<le> m \<longrightarrow> rolling gear src ?lo j AND mS \<noteq> 0)"
    by (rule scan_first) simp_all
  show ?thesis
  proof (cases "scan gear mS src ?lo m 0")
    case (Inl k)
    then show ?thesis using first cut m(2) early by auto
  next
    case (Inr fp)
    have none: "\<not> boundary gear cfg src j" if "?lo < j" "j \<le> m" for j using first Inr early that by simp
    have "fp = rolling gear src ?lo m" using first Inr m(1) by (simp add: max_absorb2)
    from scan_first [OF m(1) this] have second: "case scan gear mL src m n fp of
        Inl l \<Rightarrow> m < l \<and> l \<le> n \<and> rolling gear src ?lo l AND mL = 0 \<and> (\<forall>j. m < j \<and> j < l \<longrightarrow> rolling gear src ?lo j AND mL \<noteq> 0)
      | Inr fp' \<Rightarrow> fp' = rolling gear src ?lo (max m n) \<and> (\<forall>j. m < j \<and> j \<le> n \<longrightarrow> rolling gear src ?lo j AND mL \<noteq> 0)" .
    have two: "\<not> boundary gear cfg src j" if "?lo < j" "j < l" for j
      using second cut Inr none [of j] late [of j] that by (cases "j \<le> m") (auto split: sum.splits)
    show ?thesis using second cut Inr m two late by (auto split: sum.splits)
  qed
qed

text \<open>C9: A chunk ends at the first place its definition allows. With the masks a chunker is made with, the length \<open>cut\<close> returns is
  the least one that is the maximum or the end of the input, or lies beyond the minimum with the top bits of the fingerprint
  zero: two bits more than those of the average up to the average length, two fewer after it. The fingerprint at a place depends on
  the last 64 bytes before it only, so the same bytes are cut at the same places after an edit far enough before them.\<close>

theorem cut_first_boundary:
  assumes "New_chunker r cfg = Inr c"
  shows "cut gear (ck_cfg c) (ck_maskS c) (ck_maskL c) src =
      (LEAST l. l = min (length src) (nat (cf_Max cfg)) \<or> nat (cf_Min cfg) < l \<and> boundary gear cfg src l) \<and>
    rolling gear src lo j = rolling gear src (max lo (j - 64)) j"
proof -
  have v: "config_Validate cfg = None" and c: "ck_cfg c = cfg" "ck_maskS c = maskOf (TrailingZeros (cf_Avg cfg) + normalization)"
    "ck_maskL c = maskOf (TrailingZeros (cf_Avg cfg) - normalization)"
    using assms by (auto simp: New_chunker_def Let_def split: option.splits)
  let ?n = "min (length src) (nat (cf_Max cfg))" and ?l = "cut gear cfg (ck_maskS c) (ck_maskL c) src"
  note f = cut_first [OF v c(2,3) refl refl, where src = src and gear = gear]
  have "(LEAST l. l = ?n \<or> nat (cf_Min cfg) < l \<and> boundary gear cfg src l) = ?l"
    by (rule Least_equality) (use f in blast, use f in \<open>meson leI\<close>)
  then show ?thesis unfolding c(1) by (simp add: rolling_window [symmetric])
qed

section \<open>Witnesses\<close>

definition ex_cfg :: Config where
  "ex_cfg = \<lparr>cf_Min = 2, cf_Avg = 8, cf_Max = 12\<rparr>"

definition ex_gear :: "u64 list" where
  "ex_gear = map (\<lambda>i. if i mod 3 = 0 then 0 else max_u64) [0 ..< 256]"

text \<open>A trivial digest, for examples.\<close>

definition ex_hash :: "byte list \<Rightarrow> byte list" where
  "ex_hash bs = [of_nat (length bs), 1]"

theorem chunker_streams_witness:
  "\<exists>c c'. New_chunker [([1, 2], RNil), ([3, 4, 5], REOF)] ex_cfg = Inr c \<and>
     drain 6 ex_hash ex_gear c = Some (chunks_of ex_hash ex_gear ex_cfg 0 [1, 2, 3, 4, 5], EOF, c')"
proof -
  have "config_Validate ex_cfg = None" by code_simp
  then obtain c where c: "New_chunker [([1, 2], RNil), ([3, 4, 5], REOF)] ex_cfg = Inr c"
    using New_chunker_Inr by blast
  have "clean_reader [([1, 2], RNil), ([3, 4, 5], REOF)]" "length (delivered [([1, 2], RNil), ([3, 4, 5], REOF)]) < 6"
    and d: "delivered [([1, 2], RNil), ([3, 4, 5], REOF)] = [1, 2, 3, 4, 5]"
    by simp_all
  from chunker_streams [OF c this(1,2), of ex_hash ex_gear, unfolded d] c show ?thesis by blast
qed

theorem chunks_divide_content_witness:
  "contiguous 0 (chunks_of ex_hash ex_gear ex_cfg 0 (replicate 13 1)) \<and>
   map ch_Length (chunks_of ex_hash ex_gear ex_cfg 0 [3, 3, 3, 3, 3, 1, 1, 3, 1, 1]) = [3, 7]"
proof -
  have v: "config_Validate ex_cfg = None" by code_simp
  have "map ch_Length (chunks_of ex_hash ex_gear ex_cfg 0 [3, 3, 3, 3, 3, 1, 1, 3, 1, 1]) = [3, 7]" by code_simp
  with chunks_divide_content [OF v] show ?thesis by blast
qed

text \<open>The first chunk of ten bytes ends after three of them.\<close>

theorem cut_first_boundary_witness:
  "(LEAST l. l = min (length [3, 3, 3, 3, 3, 1, 1, 3, 1, 1 :: byte]) (nat (cf_Max ex_cfg)) \<or>
      nat (cf_Min ex_cfg) < l \<and> boundary ex_gear ex_cfg [3, 3, 3, 3, 3, 1, 1, 3, 1, 1] l) = 3"
proof -
  have "config_Validate ex_cfg = None" by code_simp
  then obtain c where c: "New_chunker [] ex_cfg = Inr c" using New_chunker_Inr by blast
  then have k: "ck_cfg c = ex_cfg" "ck_maskS c = maskS_of ex_cfg" "ck_maskL c = maskL_of ex_cfg"
    by (auto simp: New_chunker_def maskS_of_def maskL_of_def Let_def split: option.splits)
  have "cut ex_gear ex_cfg (maskS_of ex_cfg) (maskL_of ex_cfg) [3, 3, 3, 3, 3, 1, 1, 3, 1, 1] = 3" by code_simp
  with cut_first_boundary [OF c, of ex_gear "[3, 3, 3, 3, 3, 1, 1, 3, 1, 1]", THEN conjunct1] show ?thesis unfolding k by simp
qed

end
