(* ===== verification/Pieces.thy ===== *)
theory Pieces
  imports GoStd
begin

unbundle bit_operations_syntax

text \<open>
  \<^verbatim>\<open>internal/storagefabric/pieces\<close> (\<^verbatim>\<open>geometry.go\<close>, \<^verbatim>\<open>availability.go\<close>): how a blob is divided for exchange
  between peers, and the bitset of pieces a peer claims to hold. Sizes, lengths and indices are
  integers in the \<^verbatim>\<open>int64\<close> range; every sum and product is wrapped as Go wraps it.
\<close>

section \<open>Geometry\<close>

record Geometry =
  g_Size :: int
  g_PieceLength :: int

definition MinPieceLength :: int where "MinPieceLength = 262144"
definition MaxPieceLength :: int where "MaxPieceLength = 16777216"
definition targetPieceCount :: int where "targetPieceCount = 1024"

datatype pieces_error = ErrEmptyBlob int | ErrOutOfRange | NoSize string | NotANumber string | BadWidth int int | NotHex

text \<open>The doubling loop of \<open>For\<close>. The code starts it at \<^const>\<open>MinPieceLength\<close>, so the length is positive.\<close>

function length_loop :: "int \<Rightarrow> int \<Rightarrow> int" where
  "length_loop sz len =
     (if 0 < len \<and> len < MaxPieceLength \<and> go_div sz len > targetPieceCount then length_loop sz (wrap64 (2 * len)) else len)"
  by pat_completeness auto

termination length_loop
proof (relation "measure (\<lambda>(sz, len). nat (MaxPieceLength - len))")
  fix sz len :: int
  assume a: "0 < len \<and> len < MaxPieceLength \<and> targetPieceCount < go_div sz len"
  then have "wrap64 (2 * len) = 2 * len" by (intro wrap64_id) (auto simp: int64_range_def MaxPieceLength_def)
  with a show "((sz, wrap64 (2 * len)), sz, len) \<in> measure (\<lambda>(sz, len). nat (MaxPieceLength - len))" by simp
qed simp

declare length_loop.simps [simp del]

definition For :: "int \<Rightarrow> pieces_error + Geometry" where
  "For sz =
     (if sz \<le> 0 then Inl (ErrEmptyBlob sz)
      else Inr \<lparr>g_Size = sz, g_PieceLength = length_loop sz MinPieceLength\<rparr>)"

definition geom_Count :: "Geometry \<Rightarrow> int" where
  "geom_Count g =
     (if g_PieceLength g \<le> 0 \<or> g_Size g \<le> 0 then 0
      else go_div (wrap64 (wrap64 (g_Size g + g_PieceLength g) - 1)) (g_PieceLength g))"

definition Range :: "Geometry \<Rightarrow> int \<Rightarrow> pieces_error + int \<times> int" where
  "Range g index =
     (if index < 0 \<or> index \<ge> geom_Count g then Inl ErrOutOfRange
      else
        (let offset = wrap64 (index * g_PieceLength g);
             remaining = wrap64 (g_Size g - offset)
         in Inr (offset, if remaining < g_PieceLength g then remaining else g_PieceLength g)))"

definition IndexAt :: "Geometry \<Rightarrow> int \<Rightarrow> pieces_error + int" where
  "IndexAt g offset =
     (if offset < 0 \<or> offset \<ge> g_Size g \<or> g_PieceLength g \<le> 0 then Inl ErrOutOfRange
      else Inr (go_div offset (g_PieceLength g)))"

section \<open>Availability\<close>

record Availability =
  av_bits :: "8 word list"
  av_count :: int
  av_total :: int

definition NewAvailability :: "int \<Rightarrow> Availability" where
  "NewAvailability n =
     (if n \<le> 0 then \<lparr>av_bits = [], av_count = 0, av_total = 0\<rparr>
      else \<lparr>av_bits = replicate (nat ((n + 7) div 8)) 0, av_count = 0, av_total = n\<rparr>)"

definition Has :: "Availability \<Rightarrow> int \<Rightarrow> bool" where
  "Has a index =
     (if index < 0 \<or> index \<ge> av_total a then False
      else av_bits a ! nat (index div 8) AND push_bit (nat (index mod 8)) 1 \<noteq> 0)"

definition av_Add :: "int \<Rightarrow> Availability \<Rightarrow> Availability" where
  "av_Add index a =
     (if index < 0 \<or> index \<ge> av_total a \<or> Has a index then a
      else a\<lparr>av_bits := (av_bits a)[nat (index div 8) := av_bits a ! nat (index div 8) OR push_bit (nat (index mod 8)) 1],
             av_count := av_count a + 1\<rparr>)"

definition av_Remove :: "int \<Rightarrow> Availability \<Rightarrow> Availability" where
  "av_Remove i a =
     (if i < 0 \<or> i \<ge> av_total a \<or> \<not> Has a i then a
      else a\<lparr>av_bits := (av_bits a)[nat (i div 8) := av_bits a ! nat (i div 8) AND NOT (push_bit (nat (i mod 8)) 1)],
             av_count := av_count a - 1\<rparr>)"

definition Missing :: "Availability \<Rightarrow> int list" where
  "Missing a = filter (\<lambda>i. \<not> Has a i) [0 .. av_total a - 1]"

definition Intersect :: "Availability \<Rightarrow> Availability \<Rightarrow> int list" where
  "Intersect a want = filter (\<lambda>i. Has a i \<and> \<not> Has want i) [0 .. av_total a - 1]"

definition Complete :: "Geometry \<Rightarrow> Availability \<Rightarrow> bool" where
  "Complete g have' \<longleftrightarrow> av_count have' = geom_Count g \<and> geom_Count g > 0"

section \<open>The wire form\<close>

definition hex_digit :: "nat \<Rightarrow> char" where
  "hex_digit n = char_of (if n < 10 then 48 + n else 87 + n)"

definition hex_byte :: "8 word \<Rightarrow> string" where
  "hex_byte x = [hex_digit (unat x div 16), hex_digit (unat x mod 16)]"

definition Encode :: "Geometry \<Rightarrow> Availability \<Rightarrow> string" where
  "Encode g a =
     (if g_Size g \<le> 0 \<or> av_total a = 0 then []
      else dec (nat (g_Size g)) @ '':'' @ concat (map hex_byte (av_bits a)))"

text \<open>\<^verbatim>\<open>fmt.Sscanf\<close> on a number: leading blanks are skipped (a newline is not), a verb \<^verbatim>\<open>%d\<close> takes a sign and
  the longest run of digits, \<^verbatim>\<open>%02x\<close> at most two hex digits; what follows is ignored.\<close>

definition skip_space :: "string \<Rightarrow> string" where
  "skip_space s = dropWhile (\<lambda>c. c \<in> {CHR '' '', CHR 0x09, CHR 0x0B, CHR 0x0C, CHR 0x0D}) s"

definition scan_d :: "string \<Rightarrow> int option" where
  "scan_d s =
     (let t = skip_space s;
          (neg, u) = (case t of c # cs \<Rightarrow> if c = CHR ''-'' then (True, cs) else if c = CHR ''+'' then (False, cs) else (False, t)
                      | [] \<Rightarrow> (False, t));
          ds = takeWhile is_digit u;
          n = (if neg then - int (undec ds) else int (undec ds))
      in if ds = [] \<or> \<not> int64_range n then None else Some n)"

definition hex_value :: "char \<Rightarrow> nat option" where
  "hex_value c =
     (let n = of_char c :: nat in
      if 48 \<le> n \<and> n \<le> 57 then Some (n - 48)
      else if 97 \<le> n \<and> n \<le> 102 then Some (n - 87)
      else if 65 \<le> n \<and> n \<le> 70 then Some (n - 55)
      else None)"

definition scan_02x :: "string \<Rightarrow> (8 word) option" where
  "scan_02x s =
     (let ds = takeWhile (\<lambda>c. hex_value c \<noteq> None) (take 2 (skip_space s)) in
      if ds = [] then None else Some (of_nat (fold (\<lambda>c n. 16 * n + the (hex_value c)) ds 0)))"

fun scan_bytes :: "nat \<Rightarrow> string \<Rightarrow> (8 word list) option" where
  "scan_bytes 0 h = Some []"
| "scan_bytes (Suc k) h =
     (case scan_02x (take 2 h) of
        None \<Rightarrow> None
      | Some v \<Rightarrow> map_option (Cons v) (scan_bytes k (drop 2 h)))"

definition Decode :: "string \<Rightarrow> pieces_error + Geometry \<times> Availability" where
  "Decode s =
     (if CHR '':'' \<notin> set s then Inl (NoSize s)
      else
        (let sizeText = takeWhile (\<lambda>c. c \<noteq> CHR '':'') s; h = drop 1 (dropWhile (\<lambda>c. c \<noteq> CHR '':'') s) in
         case scan_d sizeText of
           None \<Rightarrow> Inl (NotANumber sizeText)
         | Some sz \<Rightarrow>
             (case For sz of
                Inl e \<Rightarrow> Inl e
              | Inr g \<Rightarrow>
                  (let a = NewAvailability (geom_Count g) in
                   if length h \<noteq> 2 * length (av_bits a) then Inl (BadWidth (int (length h)) sz)
                   else (case scan_bytes (length (av_bits a)) h of
                           None \<Rightarrow> Inl NotHex
                         | Some bs \<Rightarrow>
                             Inr (g, a\<lparr>av_bits := bs,
                               av_count := int (length (filter (\<lambda>i. bs ! nat (i div 8) AND push_bit (nat (i mod 8)) 1 \<noteq> 0)
                                 [0 .. geom_Count g - 1]))\<rparr>))))))"

section \<open>The division\<close>

definition max_counted_size :: int where
  "max_counted_size = 9223372036837998592"

lemma length_loop_power:
  assumes "18 \<le> k" and "k \<le> 24"
  shows "\<exists>k'. k \<le> k' \<and> k' \<le> 24 \<and> length_loop sz (2 ^ k) = 2 ^ k' \<and>
    (k' = 24 \<or> go_div sz (2 ^ k') \<le> targetPieceCount) \<and> (\<forall>j. k \<le> j \<and> j < k' \<longrightarrow> go_div sz (2 ^ j) > targetPieceCount)"
  using assms
proof (induction "24 - k" arbitrary: k)
  case 0
  then have "k = 24" by simp
  then show ?case by (intro exI [of _ 24]) (auto simp: length_loop.simps MaxPieceLength_def)
next
  case (Suc d)
  then have k: "k < 24" by simp
  have lt: "(2 :: int) ^ k < 2 ^ 24" using k by (intro power_strict_increasing) auto
  show ?case
  proof (cases "go_div sz (2 ^ k) > targetPieceCount")
    case False
    then show ?thesis using k by (intro exI [of _ k]) (simp add: length_loop.simps [of sz "2 ^ k"])
  next
    case True
    have "(2 :: int) ^ Suc k \<le> 2 ^ 24" using k by (intro power_increasing) auto
    then have "wrap64 (2 * 2 ^ k) = 2 ^ Suc k"
      using zero_le_power [of "2 :: int" k] by (subst wrap64_id) (simp_all add: int64_range_def del: zero_le_power)
    then have step: "length_loop sz (2 ^ k) = length_loop sz (2 ^ Suc k)"
      using True lt by (simp add: length_loop.simps [of sz "2 ^ k"] MaxPieceLength_def)
    obtain k' where k': "Suc k \<le> k'" "k' \<le> 24" "length_loop sz (2 ^ Suc k) = 2 ^ k'"
      "k' = 24 \<or> go_div sz (2 ^ k') \<le> targetPieceCount" "\<forall>j. Suc k \<le> j \<and> j < k' \<longrightarrow> go_div sz (2 ^ j) > targetPieceCount"
    proof -
      have "d = 24 - Suc k" "18 \<le> Suc k" "Suc k \<le> 24" using Suc.hyps(2) Suc.prems k by auto
      from Suc.hyps(1) [OF this] show thesis using that by blast
    qed
    have "go_div sz (2 ^ j) > targetPieceCount" if "k \<le> j \<and> j < k'" for j
      using that k'(5) True by (cases "j = k") auto
    then show ?thesis unfolding step using k' by (intro exI [of _ k']) auto
  qed
qed

lemma For_length:
  assumes "For sz = Inr g"
  shows "0 < sz" and "g_Size g = sz"
    and "\<exists>k. 18 \<le> k \<and> k \<le> 24 \<and> g_PieceLength g = 2 ^ k \<and> (k = 24 \<or> sz div 2 ^ k \<le> 1024) \<and>
      (\<forall>j. 18 \<le> j \<and> j < k \<longrightarrow> sz div 2 ^ j > 1024)"
proof -
  show "0 < sz" "g_Size g = sz" using assms by (auto simp: For_def split: if_splits)
  then have d: "go_div sz b = sz div b" for b by (simp add: go_div_def)
  have "g_PieceLength g = length_loop sz (2 ^ 18)"
    using assms by (auto simp: For_def MinPieceLength_def split: if_splits)
  then show "\<exists>k. 18 \<le> k \<and> k \<le> 24 \<and> g_PieceLength g = 2 ^ k \<and> (k = 24 \<or> sz div 2 ^ k \<le> 1024) \<and>
      (\<forall>j. 18 \<le> j \<and> j < k \<longrightarrow> sz div 2 ^ j > 1024)"
    using length_loop_power [of 18 sz] by (auto simp: d targetPieceCount_def)
qed

lemma wrap64_pred: "wrap64 (wrap64 a - b) = wrap64 (a - b)"
proof -
  let ?M = "18446744073709551616 :: int"
  have "wrap64 a = a - ?M * ((a + 9223372036854775808) div ?M)"
    unfolding wrap64_def minus_mult_div_eq_mod [symmetric] by simp
  then have "wrap64 a - b + 9223372036854775808 = (a - b + 9223372036854775808) + ?M * (- ((a + 9223372036854775808) div ?M))"
    by simp
  then have "(wrap64 a - b + 9223372036854775808) mod ?M = (a - b + 9223372036854775808) mod ?M"
    by (simp only: mod_mult_self2)
  then show ?thesis by (simp add: wrap64_def)
qed

lemma piece_length_bounds:
  assumes "For sz = Inr g"
  shows "262144 \<le> g_PieceLength g \<and> g_PieceLength g \<le> 16777216"
proof -
  obtain k where "18 \<le> k" "k \<le> 24" "g_PieceLength g = 2 ^ k" using For_length(3) [OF assms] by blast
  then show ?thesis using power_increasing [of 18 k "2 :: int"] power_increasing [of k 24 "2 :: int"] by simp
qed

lemma Count_eq:
  assumes "For sz = Inr g" and "sz \<le> max_counted_size"
  shows "geom_Count g = (sz - 1) div g_PieceLength g + 1"
proof -
  note b = piece_length_bounds [OF assms(1)] and f = For_length(1,2) [OF assms(1)]
  have "geom_Count g = go_div (wrap64 (sz + g_PieceLength g - 1)) (g_PieceLength g)"
    using b f by (simp add: geom_Count_def wrap64_pred)
  also have "wrap64 (sz + g_PieceLength g - 1) = (sz - 1) + g_PieceLength g"
    using b f assms(2) by (subst wrap64_id) (auto simp: int64_range_def max_counted_size_def)
  also have "go_div \<dots> (g_PieceLength g) = (sz - 1) div g_PieceLength g + 1"
    using b f by (simp add: go_div_def)
  finally show ?thesis .
qed

lemma Range_eq:
  assumes "For sz = Inr g" and "sz \<le> max_counted_size" and "0 \<le> i" and "i < geom_Count g"
  shows "i * g_PieceLength g < sz" and "Range g i = Inr (i * g_PieceLength g, min (g_PieceLength g) (sz - i * g_PieceLength g))"
proof -
  let ?L = "g_PieceLength g"
  note b = piece_length_bounds [OF assms(1)] and f = For_length(1,2) [OF assms(1)] and c = Count_eq [OF assms(1,2)]
  have "i * ?L \<le> ((sz - 1) div ?L) * ?L" using assms(4) b c by (intro mult_right_mono) auto
  also have "\<dots> \<le> sz - 1" using b using pos_mod_sign [of ?L "sz - 1"] div_mult_mod_eq [of "sz - 1" ?L] by linarith
  finally show lt: "i * ?L < sz" by simp
  have pos: "0 \<le> i * ?L" using assms(3) b by simp
  have "int64_range (i * ?L)" "int64_range (sz - i * ?L)"
    using lt assms(2) pos unfolding int64_range_def max_counted_size_def by linarith+
  then show "Range g i = Inr (i * ?L, min ?L (sz - i * ?L))"
    using assms(3,4) f by (auto simp: Range_def Let_def wrap64_id min_def)
qed

text \<open>The pieces divide the blob. For every size up to \<open>2 ^ 63 - 2 ^ 24\<close> the piece length is the
  smallest power of two from 256 KiB to 16 MiB that gives at most 1024 pieces' worth, or 16 MiB; each
  index below the count has a non-empty byte range inside the blob, all but the last of full length,
  the ranges follow each other and the last one ends at the size; \<^verbatim>\<open>IndexAt\<close> names the piece whose
  range holds the byte; other indices are errors.\<close>

theorem pieces_divide_blob:
  assumes "For sz = Inr g" and "sz \<le> max_counted_size"
  shows "(\<exists>k. 18 \<le> k \<and> k \<le> 24 \<and> g_PieceLength g = 2 ^ k \<and> (k = 24 \<or> sz div 2 ^ k \<le> 1024) \<and> (\<forall>j. 18 \<le> j \<and> j < k \<longrightarrow> sz div 2 ^ j > 1024)) \<and>
    0 < geom_Count g \<and>
    (\<forall>i. 0 \<le> i \<and> i < geom_Count g \<longrightarrow> (\<exists>len. Range g i = Inr (i * g_PieceLength g, len) \<and> 0 < len \<and> len \<le> g_PieceLength g \<and>
       (i + 1 < geom_Count g \<longrightarrow> len = g_PieceLength g) \<and> (i + 1 = geom_Count g \<longrightarrow> i * g_PieceLength g + len = sz))) \<and>
    (\<forall>i. i < 0 \<or> geom_Count g \<le> i \<longrightarrow> Range g i = Inl ErrOutOfRange) \<and>
    (\<forall>b. 0 \<le> b \<and> b < sz \<longrightarrow> (\<exists>i off len. IndexAt g b = Inr i \<and> Range g i = Inr (off, len) \<and> off \<le> b \<and> b < off + len))"
proof (intro conjI allI impI)
  let ?L = "g_PieceLength g"
  note b = piece_length_bounds [OF assms(1)] and f = For_length(1,2) [OF assms(1)] and c = Count_eq [OF assms]
  show "\<exists>k. 18 \<le> k \<and> k \<le> 24 \<and> ?L = 2 ^ k \<and> (k = 24 \<or> sz div 2 ^ k \<le> 1024) \<and> (\<forall>j. 18 \<le> j \<and> j < k \<longrightarrow> sz div 2 ^ j > 1024)"
    by (rule For_length(3) [OF assms(1)])
  show "0 < geom_Count g" using c f b by (simp add: pos_imp_zdiv_nonneg_iff)
  show "Range g i = Inl ErrOutOfRange" if "i < 0 \<or> geom_Count g \<le> i" for i
    using that by (auto simp: Range_def)
  have next': "(i + 1) * ?L < sz" if "0 \<le> i" "i + 1 < geom_Count g" for i
    using Range_eq(1) [OF assms, of "i + 1"] that by simp
  have cover: "sz \<le> geom_Count g * ?L"
  proof -
    have "(sz - 1) mod ?L < ?L" using b by simp
    then show ?thesis using div_mult_mod_eq [of "sz - 1" ?L] unfolding c distrib_right by linarith
  qed
  show "\<exists>len. Range g i = Inr (i * ?L, len) \<and> 0 < len \<and> len \<le> ?L \<and> (i + 1 < geom_Count g \<longrightarrow> len = ?L) \<and>
      (i + 1 = geom_Count g \<longrightarrow> i * ?L + len = sz)" if i: "0 \<le> i \<and> i < geom_Count g" for i
  proof -
    have r: "i * ?L < sz" "Range g i = Inr (i * ?L, min ?L (sz - i * ?L))" using Range_eq [OF assms] i by auto
    moreover have "sz \<le> i * ?L + ?L" if "i + 1 = geom_Count g"
      using cover unfolding that [symmetric] by (simp add: algebra_simps)
    moreover have "i * ?L + ?L < sz" if "i + 1 < geom_Count g"
      using next' [of i] that i by (simp add: algebra_simps)
    ultimately show ?thesis using b by (intro exI [of _ "min ?L (sz - i * ?L)"]) auto
  qed
  show "\<exists>i off len. IndexAt g x = Inr i \<and> Range g i = Inr (off, len) \<and> off \<le> x \<and> x < off + len" if x: "0 \<le> x \<and> x < sz" for x
  proof -
    let ?i = "x div ?L"
    have i: "0 \<le> ?i" "?i < geom_Count g"
      using x b unfolding c by (auto simp: pos_imp_zdiv_nonneg_iff intro: le_imp_less_Suc zdiv_mono1 order.strict_trans1 [of _ "(sz - 1) div ?L"])
    have m: "x mod ?L < ?L" "0 \<le> x mod ?L" using b by auto
    have "?i * ?L \<le> x" "x < ?i * ?L + min ?L (sz - ?i * ?L)"
      using x m div_mult_mod_eq [of x ?L] unfolding min_def by (linarith, simp split: if_split, linarith)
    moreover have "IndexAt g x = Inr ?i" using x f b by (simp add: IndexAt_def go_div_def)
    ultimately show ?thesis using Range_eq(2) [OF assms i] by blast
  qed
qed

text \<open>A size of 300 MiB and a bit: 512 KiB pieces, 601 of them, the last one short.\<close>

theorem pieces_divide_blob_witness:
  "For 314572801 = Inr \<lparr>g_Size = 314572801, g_PieceLength = 524288\<rparr> \<and>
   (\<exists>len. Range \<lparr>g_Size = 314572801, g_PieceLength = 524288\<rparr> 600 = Inr (600 * 524288, len) \<and> 600 * 524288 + len = 314572801)"
proof -
  let ?g = "\<lparr>g_Size = 314572801, g_PieceLength = 524288\<rparr>"
  have f: "For 314572801 = Inr ?g" and m: "314572801 \<le> max_counted_size" and c: "geom_Count ?g = 601" by code_simp+
  show ?thesis using pieces_divide_blob [OF f m] f unfolding c by (auto dest: spec [of _ 600])
qed

lemma digit_facts:
  assumes "is_digit c"
  shows "c \<noteq> CHR '':''" and "c \<notin> {CHR '' '', CHR 0x09, CHR 0x0B, CHR 0x0C, CHR 0x0D}" and "c \<noteq> CHR ''-''" and "c \<noteq> CHR ''+''"
  using assms by (auto simp: is_digit_def)

lemma scan_d_dec:
  assumes "int64_range (int n)"
  shows "scan_d (dec n) = Some (int n)"
proof -
  obtain c cs where d: "dec n = c # cs" by (cases "dec n") auto
  then have c: "is_digit c" using dec_digits [of n] by simp
  have "skip_space (dec n) = dec n" using digit_facts(2) [OF c] by (simp add: skip_space_def d)
  moreover have "takeWhile is_digit (dec n) = dec n" using dec_digits [of n] by (simp add: takeWhile_eq_all_conv)
  ultimately show ?thesis
    using assms undec_dec [of n] digit_facts(3,4) [OF c] unfolding scan_d_def d by (simp add: Let_def)
qed

lemma Decode_dec:
  assumes "int64_range sz" and "0 < sz"
  shows "Decode (dec (nat sz) @ '':'' @ h) =
    (case For sz of
       Inl e \<Rightarrow> Inl e
     | Inr g \<Rightarrow>
         (let a = NewAvailability (geom_Count g) in
          if length h \<noteq> 2 * length (av_bits a) then Inl (BadWidth (int (length h)) sz)
          else (case scan_bytes (length (av_bits a)) h of
                  None \<Rightarrow> Inl NotHex
                | Some bs \<Rightarrow>
                    Inr (g, a\<lparr>av_bits := bs,
                      av_count := int (length (filter (\<lambda>i. bs ! nat (i div 8) AND push_bit (nat (i mod 8)) 1 \<noteq> 0)
                        [0 .. geom_Count g - 1]))\<rparr>))))"
proof -
  have nc: "\<forall>c\<in>set (dec (nat sz)). c \<noteq> CHR '':''" using dec_digits digit_facts(1) by blast
  have "takeWhile (\<lambda>c. c \<noteq> CHR '':'') (dec (nat sz) @ '':'' @ h) = dec (nat sz)"
    "dropWhile (\<lambda>c. c \<noteq> CHR '':'') (dec (nat sz) @ '':'' @ h) = '':'' @ h"
    using nc by (simp_all add: takeWhile_append2 dropWhile_append2)
  then show ?thesis using scan_d_dec [of "nat sz"] assms unfolding Decode_def by (simp add: Let_def)
qed

lemma length_loop_large:
  assumes "For sz = Inr g" and "max_counted_size < sz"
  shows "g_PieceLength g = 16777216"
proof -
  obtain k where k: "18 \<le> k" "k \<le> 24" "g_PieceLength g = 2 ^ k" "k = 24 \<or> sz div 2 ^ k \<le> 1024"
    using For_length(3) [OF assms(1)] by blast
  have "sz div 2 ^ k > 1024" if "k < 24"
  proof -
    have "(2 :: int) ^ k \<le> 2 ^ 24" using that by (intro power_increasing) auto
    then have "1025 * (2 :: int) ^ k \<le> sz" using assms(2) by (simp add: max_counted_size_def)
    then have "1025 * 2 ^ k div 2 ^ k \<le> sz div 2 ^ k" by (intro zdiv_mono1) auto
    then show ?thesis by simp
  qed
  with k show ?thesis by force
qed

text \<open>Above that bound the count overflows. For every larger \<^verbatim>\<open>int64\<close> size the number of pieces computed is negative,
  so no index has a range, and a claim that names the size and carries no bitset is decoded without an
  error, as an availability of no pieces.\<close>

theorem piece_count_overflows:
  assumes "max_counted_size < sz" and "int64_range sz"
  shows "\<exists>g. For sz = Inr g \<and> geom_Count g < 0 \<and> (\<forall>i. Range g i = Inl ErrOutOfRange) \<and>
    Decode (dec (nat sz) @ '':'') = Inr (g, \<lparr>av_bits = [], av_count = 0, av_total = 0\<rparr>)"
proof -
  have z: "0 < sz" using assms(1) by (simp add: max_counted_size_def)
  then obtain g where f: "For sz = Inr g" by (simp add: For_def)
  note len = length_loop_large [OF f assms(1)] and sz = For_length(2) [OF f]
  have "wrap64 (sz + 16777216 - 1) = sz + 16777216 - 1 - 18446744073709551616"
  proof -
    have "(sz + 16777215 + 9223372036854775808) mod 18446744073709551616 = (sz + 16777215 + 9223372036854775808 - 18446744073709551616) mod 18446744073709551616"
      by (metis minus_mod_self2)
    also have "\<dots> = sz + 16777215 - 9223372036854775808"
      using assms by (intro mod_pos_pos_trivial[THEN trans]) (auto simp: max_counted_size_def int64_range_def)
    finally show ?thesis by (simp add: wrap64_def)
  qed
  then have "geom_Count g = go_div (sz + 16777216 - 1 - 18446744073709551616) 16777216"
    using z len sz by (simp add: geom_Count_def wrap64_pred)
  also have "\<dots> < 0"
  proof -
    have "16777216 div 16777216 \<le> (18446744073709551616 - 16777215 - sz) div 16777216"
      using assms(2) by (intro zdiv_mono1) (auto simp: int64_range_def)
    then show ?thesis using assms(2) by (auto simp: go_div_def int64_range_def)
  qed
  finally have c: "geom_Count g < 0" .
  moreover have "\<forall>i. Range g i = Inl ErrOutOfRange" using c by (auto simp: Range_def)
  moreover have "Decode (dec (nat sz) @ '':'') = Inr (g, \<lparr>av_bits = [], av_count = 0, av_total = 0\<rparr>)"
    using Decode_dec [OF assms(2) z, of "[]"] c f by (simp add: NewAvailability_def Let_def)
  ultimately show ?thesis using f by blast
qed

theorem piece_count_overflows_witness:
  "\<exists>g. For 9223372036854775807 = Inr g \<and> geom_Count g < 0"
proof -
  have "max_counted_size < 9223372036854775807" "int64_range 9223372036854775807" by code_simp+
  from piece_count_overflows [OF this] show ?thesis by blast
qed

section \<open>Availability as a set of pieces\<close>

definition av_inv :: "Availability \<Rightarrow> bool" where
  "av_inv a \<longleftrightarrow> 0 \<le> av_total a \<and> length (av_bits a) = nat ((av_total a + 7) div 8) \<and> av_count a = int (card {i. Has a i})"

declare push_bit_of_1 [simp del]

lemma and_bit: "(w :: 8 word) AND push_bit n 1 \<noteq> 0 \<longleftrightarrow> bit w n"
  by (simp add: bit_iff_and_push_bit_not_eq_0)

lemma Has_bit: "Has a i \<longleftrightarrow> 0 \<le> i \<and> i < av_total a \<and> bit (av_bits a ! nat (i div 8)) (nat (i mod 8))"
  by (auto simp: Has_def and_bit)

lemma Has_subset: "{i. Has a i} \<subseteq> {0..<av_total a}"
  by (auto simp: Has_bit)

lemma Has_finite [simp]: "finite {i. Has a i}"
  by (rule finite_subset [OF Has_subset]) simp

lemma byte_index:
  assumes "length bs = nat ((n + 7) div 8)" and "0 \<le> i" and "i < n"
  shows "nat (i div 8) < length bs"
proof -
  have "i div 8 + 1 \<le> (n + 7) div 8" using zdiv_mono1 [of "i + 8" "n + 7" 8] assms(3) by simp
  then show ?thesis using assms(1,2) by linarith
qed

lemma same_bit:
  assumes "0 \<le> i" and "0 \<le> (j :: int)"
  shows "nat (i div 8) = nat (j div 8) \<and> nat (i mod 8) = nat (j mod 8) \<longleftrightarrow> i = j"
proof
  assume "nat (i div 8) = nat (j div 8) \<and> nat (i mod 8) = nat (j mod 8)"
  then have "i div 8 = j div 8" "i mod 8 = j mod 8" using assms by (auto simp: pos_imp_zdiv_nonneg_iff nat_eq_iff2)
  then show "i = j" by (metis div_mult_mod_eq)
qed simp

lemma bit_set: "m < 8 \<Longrightarrow> bit ((w :: 8 word) OR push_bit m 1) n \<longleftrightarrow> bit w n \<or> n = m"
  by (auto simp: bit_or_iff bit_push_bit_iff bit_1_iff)

lemma bit_clear: "bit ((w :: 8 word) AND NOT (push_bit m 1)) n \<longleftrightarrow> bit w n \<and> n \<noteq> m"
  by (auto simp: bit_and_iff bit_not_iff bit_push_bit_iff bit_1_iff dest: bit_imp_le_length)

lemma bit_index_less: "nat ((i :: int) mod 8) < 8"
  by simp

lemma Has_update:
  assumes "length (av_bits a) = nat ((av_total a + 7) div 8)" and "0 \<le> i" and "i < av_total a"
    and w: "\<And>n. bit w n \<longleftrightarrow> (if n = nat (i mod 8) then b else bit (av_bits a ! nat (i div 8)) n)"
  shows "Has (a\<lparr>av_bits := (av_bits a)[nat (i div 8) := w], av_count := c\<rparr>) j \<longleftrightarrow> (if j = i then b else Has a j)"
proof -
  note l = byte_index [OF assms(1-3)]
  have e: "j = i" if "0 \<le> j" "nat (i div 8) = nat (j div 8)" "nat (j mod 8) = nat (i mod 8)"
    using same_bit [OF assms(2) that(1)] that by simp
  show ?thesis
  proof (cases "nat (i div 8) = nat (j div 8)")
    case True
    then show ?thesis using l assms(2,3) e by (auto simp: Has_bit w simp del: nat_eq_iff2)
  next
    case False
    then show ?thesis by (auto simp: Has_bit)
  qed
qed

lemma Has_Add:
  assumes "length (av_bits a) = nat ((av_total a + 7) div 8)"
  shows "Has (av_Add i a) j \<longleftrightarrow> Has a j \<or> (j = i \<and> 0 \<le> i \<and> i < av_total a)"
proof (cases "i < 0 \<or> i \<ge> av_total a \<or> Has a i")
  case True
  then show ?thesis by (auto simp: av_Add_def)
next
  case False
  then show ?thesis
    using Has_update [OF assms, of i "av_bits a ! nat (i div 8) OR push_bit (nat (i mod 8)) 1" True]
    by (simp add: av_Add_def bit_set [OF bit_index_less])
qed

lemma Has_Remove:
  assumes "length (av_bits a) = nat ((av_total a + 7) div 8)"
  shows "Has (av_Remove i a) j \<longleftrightarrow> Has a j \<and> j \<noteq> i"
proof (cases "i < 0 \<or> i \<ge> av_total a \<or> \<not> Has a i")
  case True
  then show ?thesis by (auto simp: av_Remove_def Has_bit)
next
  case False
  then show ?thesis
    using Has_update [OF assms, of i "av_bits a ! nat (i div 8) AND NOT (push_bit (nat (i mod 8)) 1)" False]
    by (simp add: av_Remove_def bit_clear)
qed

lemma count_filter: "int (length (filter P [0 .. n - 1])) = int (card {i. 0 \<le> i \<and> i < n \<and> P i})"
proof -
  have "length (filter P [0 .. n - 1]) = card (set (filter P [0 .. n - 1]))"
    by (rule distinct_card [symmetric]) simp
  also have "set (filter P [0 .. n - 1]) = {i. 0 \<le> i \<and> i < n \<and> P i}" by auto
  finally show ?thesis by simp
qed

lemma av_total_kept [simp]: "av_total (av_Add i a) = av_total a" "av_total (av_Remove i a) = av_total a"
  by (simp_all add: av_Add_def av_Remove_def)

lemma av_length_kept [simp]: "length (av_bits (av_Add i a)) = length (av_bits a)" "length (av_bits (av_Remove i a)) = length (av_bits a)"
  by (simp_all add: av_Add_def av_Remove_def)

lemma av_inv_Add:
  assumes "av_inv a"
  shows "av_inv (av_Add i a)" and "{j. Has (av_Add i a) j} = {j. Has a j} \<union> ({i} \<inter> {0..<av_total a})"
proof -
  have l: "length (av_bits a) = nat ((av_total a + 7) div 8)" using assms by (simp add: av_inv_def)
  show s: "{j. Has (av_Add i a) j} = {j. Has a j} \<union> ({i} \<inter> {0..<av_total a})" by (auto simp: Has_Add [OF l])
  show "av_inv (av_Add i a)"
  proof (cases "i < 0 \<or> i \<ge> av_total a \<or> Has a i")
    case True
    then show ?thesis using assms by (auto simp: av_Add_def)
  next
    case False
    then have "{j. Has (av_Add i a) j} = insert i {j. Has a j}" "i \<notin> {j. Has a j}" using s by auto
    moreover have "av_count (av_Add i a) = av_count a + 1" using False by (auto simp: av_Add_def)
    ultimately show ?thesis using assms by (simp add: av_inv_def)
  qed
qed

lemma av_inv_Remove:
  assumes "av_inv a"
  shows "av_inv (av_Remove i a)" and "{j. Has (av_Remove i a) j} = {j. Has a j} - {i}"
proof -
  have l: "length (av_bits a) = nat ((av_total a + 7) div 8)" using assms by (simp add: av_inv_def)
  show s: "{j. Has (av_Remove i a) j} = {j. Has a j} - {i}" by (auto simp: Has_Remove [OF l])
  show "av_inv (av_Remove i a)"
  proof (cases "i < 0 \<or> i \<ge> av_total a \<or> \<not> Has a i")
    case True
    then show ?thesis using assms by (auto simp: av_Remove_def)
  next
    case False
    then have "i \<in> {j. Has a j}" by simp
    then have "card {j. Has (av_Remove i a) j} = card {j. Has a j} - 1" "0 < card {j. Has a j}"
      unfolding s by (auto simp: card_gt_0_iff)
    moreover have "av_count (av_Remove i a) = av_count a - 1" using False by (auto simp: av_Remove_def)
    ultimately show ?thesis using assms by (simp add: av_inv_def)
  qed
qed

lemma av_inv_New: "av_inv (NewAvailability n)" and held_New: "{j. Has (NewAvailability n) j} = {}"
proof -
  show h: "{j. Has (NewAvailability n) j} = {}"
  proof -
    have "\<not> Has (NewAvailability n) j" for j
    proof
      assume a: "Has (NewAvailability n) j"
      then have j: "0 \<le> j" "j < n" by (auto simp: Has_bit NewAvailability_def split: if_splits)
      then have "nat (j div 8) < nat ((n + 7) div 8)" using byte_index [of "replicate (nat ((n + 7) div 8)) ()" n j] by simp
      with a j show False by (auto simp: Has_bit NewAvailability_def)
    qed
    then show ?thesis by simp
  qed
  show "av_inv (NewAvailability n)" unfolding av_inv_def h by (simp add: NewAvailability_def)
qed

text \<open>C10: an availability is a set of piece indices. With the representation invariant (one byte for eight
  pieces, and the counter equal to the number of set bits among them), \<^verbatim>\<open>NewAvailability\<close> is the empty
  set, \<^verbatim>\<open>Add\<close> inserts an index in range, \<^verbatim>\<open>Remove\<close> deletes one, each keeping the invariant, so that
  neither counts a piece twice; \<^verbatim>\<open>Missing\<close> is the complement in ascending order, as long as the counter
  says, and \<^verbatim>\<open>Intersect\<close> is what the receiver holds and the argument does not, in ascending order.\<close>

theorem availability_set:
  assumes "av_inv a"
  shows "av_inv (NewAvailability n) \<and> {j. Has (NewAvailability n) j} = {} \<and>
    av_inv (av_Add i a) \<and> {j. Has (av_Add i a) j} = {j. Has a j} \<union> ({i} \<inter> {0..<av_total a}) \<and>
    av_inv (av_Remove i a) \<and> {j. Has (av_Remove i a) j} = {j. Has a j} - {i} \<and>
    Missing a = sorted_list_of_set ({0..<av_total a} - {j. Has a j}) \<and> int (length (Missing a)) = av_total a - av_count a \<and>
    Intersect a b = sorted_list_of_set ({j. Has a j} - {j. Has b j})"
proof (intro conjI)
  have sf: "filter P [0 .. n] = sorted_list_of_set {x \<in> {0..n}. P x}" for P and n :: int
  proof (rule sorted_distinct_set_unique)
    have "finite {x \<in> {0..n}. P x}" by (rule finite_subset [of _ "{0..n}"]) auto
    then show "set (filter P [0 .. n]) = set (sorted_list_of_set {x \<in> {0..n}. P x})"
      by (simp only: set_sorted_list_of_set) auto
  qed (auto intro: sorted_wrt_filter)
  show m: "Missing a = sorted_list_of_set ({0..<av_total a} - {j. Has a j})"
    unfolding Missing_def sf by (rule arg_cong [of _ _ sorted_list_of_set]) auto
  show "Intersect a b = sorted_list_of_set ({j. Has a j} - {j. Has b j})"
    unfolding Intersect_def sf by (rule arg_cong [of _ _ sorted_list_of_set]) (auto simp: Has_bit)
  have "card {j. Has a j} \<le> card {0..<av_total a}" by (intro card_mono Has_subset) simp
  then show "int (length (Missing a)) = av_total a - av_count a"
    unfolding m using assms by (simp add: card_Diff_subset [OF _ Has_subset] av_inv_def of_nat_diff)
qed (rule av_inv_New held_New av_inv_Add [OF assms] av_inv_Remove [OF assms])+

theorem availability_set_witness:
  "av_inv (av_Add 3 (NewAvailability 20)) \<and> {j. Has (av_Add 3 (NewAvailability 20)) j} = {3} \<and>
   int (length (Missing (NewAvailability 20))) = 20"
proof -
  have n: "av_total (NewAvailability 20) = 20" "av_count (NewAvailability 20) = 0" by (simp_all add: NewAvailability_def)
  have three: "{} \<union> ({3} \<inter> {0..<20}) = {3 :: int}" by simp
  show ?thesis
    using availability_set [OF av_inv_New [of 20], of 0 3 "NewAvailability 20"] unfolding held_New n three by simp
qed

section \<open>The wire form\<close>

lemma hex_digit_value: "n < 16 \<Longrightarrow> hex_value (hex_digit n) = Some n"
proof -
  assume "n < 16"
  then have n: "of_char (hex_digit n) = (if n < 10 then 48 + n else 87 + n)" by (simp add: hex_digit_def)
  show ?thesis unfolding hex_value_def n Let_def using \<open>n < 16\<close> by simp
qed

lemma hex_not_space: "hex_value c = Some n \<Longrightarrow> c \<notin> {CHR '' '', CHR 0x09, CHR 0x0B, CHR 0x0C, CHR 0x0D}"
  by (auto simp: hex_value_def)

lemma scan_hex_byte: "scan_02x (hex_byte x) = Some x"
proof -
  have u: "unat x < 256" using unsigned_less [of x, where ?'a = nat] by simp
  then have h: "hex_value (hex_digit (unat x div 16)) = Some (unat x div 16)" "hex_value (hex_digit (unat x mod 16)) = Some (unat x mod 16)"
    by (auto intro!: hex_digit_value)
  then have "skip_space (hex_byte x) = hex_byte x" using hex_not_space [OF h(1)] by (simp add: skip_space_def hex_byte_def)
  then show ?thesis using h by (simp add: scan_02x_def hex_byte_def)
qed

lemma scan_hex_bytes: "scan_bytes (length bs) (concat (map hex_byte bs)) = Some bs"
proof (induction bs)
  case (Cons x bs)
  have "take 2 (hex_byte x) = hex_byte x" "drop 2 (hex_byte x @ t) = t" "length (hex_byte x) = 2" for t by (simp_all add: hex_byte_def)
  then show ?case using Cons by (simp add: scan_hex_byte)
qed simp

lemma length_hex_bytes: "length (concat (map hex_byte bs)) = 2 * length bs"
  by (induction bs) (auto simp: hex_byte_def)

lemma scan_bytes_length: "scan_bytes k h = Some bs \<Longrightarrow> length bs = k"
  by (induction k arbitrary: h bs) (auto split: option.splits)

lemma recount:
  assumes "0 \<le> n"
  shows "int (length (filter (\<lambda>i. bs ! nat (i div 8) AND push_bit (nat (i mod 8)) 1 \<noteq> 0) [0 .. n - 1])) =
    int (card {i. Has \<lparr>av_bits = bs, av_count = c, av_total = n\<rparr> i})"
  by (simp add: count_filter Has_bit and_bit conj_ac)

lemma Complete_iff:
  assumes "av_inv a" and "av_total a = geom_Count g" and "0 < geom_Count g"
  shows "Complete g a \<longleftrightarrow> (\<forall>i. 0 \<le> i \<and> i < geom_Count g \<longrightarrow> Has a i)"
proof -
  have "Complete g a \<longleftrightarrow> card {i. Has a i} = card {0..<geom_Count g}"
    using assms by (auto simp: Complete_def av_inv_def)
  also have "\<dots> \<longleftrightarrow> {i. Has a i} = {0..<geom_Count g}"
    using card_subset_eq [OF _ Has_subset [of a]] assms(2) by auto
  also have "\<dots> \<longleftrightarrow> (\<forall>i. 0 \<le> i \<and> i < geom_Count g \<longrightarrow> Has a i)"
    using Has_subset [of a] assms(2) by auto
  finally show ?thesis .
qed

lemma Count_pos:
  assumes "For sz = Inr g" and "sz \<le> max_counted_size"
  shows "0 < geom_Count g"
  using Count_eq [OF assms] For_length(1) [OF assms(1)] piece_length_bounds [OF assms(1)] by (simp add: pos_imp_zdiv_nonneg_iff)

lemma Decode_cases:
  assumes "Decode s = Inr (g, a)"
  obtains sz bs where "For sz = Inr g" and "int64_range sz"
    and "length bs = length (av_bits (NewAvailability (geom_Count g)))"
    and "a = (NewAvailability (geom_Count g))\<lparr>av_bits := bs,
      av_count := int (length (filter (\<lambda>i. bs ! nat (i div 8) AND push_bit (nat (i mod 8)) 1 \<noteq> 0) [0 .. geom_Count g - 1]))\<rparr>"
  using assms unfolding Decode_def
  by (auto simp: Let_def scan_d_def split: if_splits option.splits sum.splits list.splits dest!: scan_bytes_length)

text \<open>C11: Availability survives the wire. For a geometry of a countable size and an availability of its
  pieces that meets the invariant, decoding the encoded text gives back both.\<close>

theorem availability_roundtrip:
  assumes "For sz = Inr g" and "sz \<le> max_counted_size" and "av_inv a" and "av_total a = geom_Count g"
  shows "Decode (Encode g a) = Inr (g, a)"
proof -
  note f = For_length(1,2) [OF assms(1)] and c = Count_pos [OF assms(1,2)]
  have r: "int64_range sz" using f(1) assms(2) by (simp add: int64_range_def max_counted_size_def)
  have e: "Encode g a = dec (nat sz) @ '':'' @ concat (map hex_byte (av_bits a))"
    using f c assms(4) by (simp add: Encode_def)
  have l: "length (av_bits (NewAvailability (geom_Count g))) = length (av_bits a)"
    using assms(3,4) c by (simp add: NewAvailability_def av_inv_def)
  have t: "av_total (NewAvailability (geom_Count g)) = av_total a" using c assms(4) by (simp add: NewAvailability_def)
  have k: "int (length (filter (\<lambda>i. av_bits a ! nat (i div 8) AND push_bit (nat (i mod 8)) 1 \<noteq> 0) [0 .. geom_Count g - 1])) = av_count a"
  proof -
    have "a = \<lparr>av_bits = av_bits a, av_count = av_count a, av_total = geom_Count g\<rparr>" using assms(4) by simp
    then show ?thesis using recount [of "geom_Count g" "av_bits a" "av_count a"] c assms(3) unfolding av_inv_def by simp
  qed
  show ?thesis
    unfolding e Decode_dec [OF r f(1)] assms(1) using k l t
    by (simp add: Let_def length_hex_bytes scan_hex_bytes)
qed

lemma dec_2000000: "dec 2000000 = ''2000000''"
  by (simp add: dec.simps char_of_def bit_Suc_0_iff)

theorem availability_roundtrip_witness:
  "(let g = \<lparr>g_Size = 2000000, g_PieceLength = 262144\<rparr>; a = av_Add 6 (av_Add 3 (NewAvailability 8)) in
    Encode g a = ''2000000:48'' \<and> Decode ''2000000:48'' = Inr (g, a))"
proof -
  let ?g = "\<lparr>g_Size = 2000000, g_PieceLength = 262144\<rparr>" and ?a = "av_Add 6 (av_Add 3 (NewAvailability 8))"
  have f: "For 2000000 = Inr ?g" and m: "2000000 \<le> max_counted_size" and t: "av_total ?a = geom_Count ?g" by code_simp+
  have "av_inv ?a" by (intro av_inv_Add av_inv_New)
  from availability_roundtrip [OF f m this t] have "Decode (Encode ?g ?a) = Inr (?g, ?a)" .
  moreover have "av_bits ?a = [72]" by code_simp
  then have "Encode ?g ?a = ''2000000:48''"
    using dec_2000000 by (simp add: Encode_def NewAvailability_def hex_byte_def hex_digit_def char_of_def bit_Suc_0_iff)
  ultimately show ?thesis by (simp add: Let_def)
qed

text \<open>What \<^verbatim>\<open>Decode\<close> accepts. Whatever text a peer sends, a decoded claim about a blob of a countable size carries the
  geometry this node derives from the size and a well-formed availability of exactly its pieces, so
  that \<^verbatim>\<open>Complete\<close> holds just when every piece is claimed: bits set past the last piece do not make a
  peer look complete.\<close>

theorem decode_sound:
  assumes "Decode s = Inr (g, a)" and "g_Size g \<le> max_counted_size"
  shows "For (g_Size g) = Inr g \<and> av_inv a \<and> av_total a = geom_Count g \<and>
    (Complete g a \<longleftrightarrow> (\<forall>i. 0 \<le> i \<and> i < geom_Count g \<longrightarrow> Has a i))"
proof -
  obtain sz bs where d: "For sz = Inr g" "length bs = length (av_bits (NewAvailability (geom_Count g)))"
    and a: "a = (NewAvailability (geom_Count g))\<lparr>av_bits := bs,
      av_count := int (length (filter (\<lambda>i. bs ! nat (i div 8) AND push_bit (nat (i mod 8)) 1 \<noteq> 0) [0 .. geom_Count g - 1]))\<rparr>"
    using Decode_cases [OF assms(1)] by blast
  have sz: "g_Size g = sz" by (rule For_length(2) [OF d(1)])
  then have c: "0 < geom_Count g" using Count_pos [OF d(1)] assms(2) by simp
  have t: "av_total a = geom_Count g" using c by (simp add: a NewAvailability_def)
  have i: "av_inv a"
    using c d(2) recount [of "geom_Count g" bs] unfolding a by (simp add: NewAvailability_def av_inv_def)
  show ?thesis using Complete_iff [OF i t c] d(1) sz t i by simp
qed

text \<open>Eight pieces, and a bitset with all eight bits set.\<close>

theorem decode_sound_witness:
  "(case Decode ''2000000:ff'' of Inl e \<Rightarrow> False | Inr (g, a) \<Rightarrow> av_inv a \<and> Complete g a \<and> av_count a = 8)"
proof -
  let ?g = "\<lparr>g_Size = 2000000, g_PieceLength = 262144\<rparr>" and ?a = "\<lparr>av_bits = [255], av_count = 8, av_total = 8\<rparr>"
  have f: "For 2000000 = Inr ?g" and m: "g_Size ?g \<le> max_counted_size" and c: "Complete ?g ?a" and n: "geom_Count ?g = 8"
    and r: "int64_range 2000000" by code_simp+
  have u: "[0 .. 8 - 1] = [0, 1, 2, 3, 4, 5, 6, 7 :: int]" by code_simp
  have v: "scan_bytes 1 ''ff'' = Some [255]" by (simp add: scan_02x_def skip_space_def hex_value_def)
  have w: "length (filter (\<lambda>i. [255 :: 8 word] ! nat (i div 8) AND push_bit (nat (i mod 8)) 1 \<noteq> 0) [0 .. 8 - 1]) = 8" by code_simp
  have d: "Decode ''2000000:ff'' = Inr (?g, ?a)"
    using Decode_dec [OF r, of "''ff''"] v w dec_2000000 f n by (simp add: NewAvailability_def Let_def)
  from decode_sound [OF d m] c show ?thesis unfolding d by simp
qed

end
