(* ===== verification/Manifests.thy ===== *)
theory Manifests
  imports Chunking
begin

text \<open>
  \<^verbatim>\<open>internal/storagefabric/manifests\<close> (\<^verbatim>\<open>manifest.go\<close>, \<^verbatim>\<open>generate.go\<close>, \<^verbatim>\<open>plan.go\<close>, \<^verbatim>\<open>state.go\<close>, \<^verbatim>\<open>job.go\<close>): the chunk
  sequence of a blob, its own digest, its generation from the blob's bytes and a destination's reuse
  plan. A \<^verbatim>\<open>hashing.Hash\<close> is its digest bytes, the zero \<^verbatim>\<open>Hash\<close> is the empty list; the digest function
  \<open>H\<close> and the printed form \<open>hs\<close> of a hash are parameters. The offsets and lengths of a stored chunk are
  \<^verbatim>\<open>int64\<close> values as they come off the wire or out of the database, and their sums wrap.
\<close>

type_synonym hash = "byte list"

definition hash_IsZero :: "hash \<Rightarrow> bool" where
  "hash_IsZero h \<longleftrightarrow> h = []"

section \<open>The manifest\<close>

record MChunk =
  mc_Offset :: int
  mc_Length :: int
  mc_Digest :: hash

definition mc_End :: "MChunk \<Rightarrow> int" where
  "mc_End c = wrap64 (mc_Offset c + mc_Length c)"

definition AlgorithmFastCDC :: string where
  "AlgorithmFastCDC = ''fastcdc''"

record Manifest =
  mf_BlobHash :: hash
  mf_Algorithm :: string
  mf_Params :: Config
  mf_CoveredSize :: int
  mf_Digest :: hash
  mf_GeneratedAt :: int
  mf_Chunks :: "MChunk list"

datatype shape_error = NoBlob | NoAlgorithm | BadParams config_error | BadOffset nat int int | BadLength nat int | NoDigest nat
  | BadCovered int int

datatype manifest_error = ErrMalformed shape_error | ErrDigestMismatch hash hash

definition ChunkCount :: "Manifest \<Rightarrow> nat" where
  "ChunkCount m = length (mf_Chunks m)"

text \<open>The loop of \<open>validateShape\<close>: the index, the wanted offset, the chunks left. \<open>Inr\<close> is the end.\<close>

fun shape_loop :: "nat \<Rightarrow> int \<Rightarrow> MChunk list \<Rightarrow> shape_error + int" where
  "shape_loop i want [] = Inr want"
| "shape_loop i want (c # cs) =
     (if mc_Offset c \<noteq> want then Inl (BadOffset i (mc_Offset c) want)
      else if mc_Length c \<le> 0 then Inl (BadLength i (mc_Length c))
      else if hash_IsZero (mc_Digest c) then Inl (NoDigest i)
      else shape_loop (Suc i) (mc_End c) cs)"

definition validateShape :: "Manifest \<Rightarrow> manifest_error option" where
  "validateShape m =
     (if hash_IsZero (mf_BlobHash m) then Some (ErrMalformed NoBlob)
      else if mf_Algorithm m = [] then Some (ErrMalformed NoAlgorithm)
      else case config_Validate (mf_Params m) of
        Some e \<Rightarrow> Some (ErrMalformed (BadParams e))
      | None \<Rightarrow>
          (case shape_loop 0 0 (mf_Chunks m) of
             Inl e \<Rightarrow> Some (ErrMalformed e)
           | Inr want \<Rightarrow>
               if mf_CoveredSize m \<noteq> want then Some (ErrMalformed (BadCovered (mf_CoveredSize m) want)) else None))"

definition bytes_of :: "string \<Rightarrow> byte list" where
  "bytes_of s = map (\<lambda>c. of_nat (of_char c)) s"

text \<open>One \<open>write\<close> of \<open>ComputeDigest\<close>, and the sequence of the strings written.\<close>

definition write_field :: "string \<Rightarrow> byte list" where
  "write_field p = bytes_of (dec (length p)) @ bytes_of '':'' @ bytes_of p"

definition digest_fields :: "(hash \<Rightarrow> string) \<Rightarrow> Manifest \<Rightarrow> string list" where
  "digest_fields hs m =
     [''heyarr.chunk-manifest.v1'', hs (mf_BlobHash m), mf_Algorithm m,
      FormatInt (cf_Min (mf_Params m)), FormatInt (cf_Avg (mf_Params m)), FormatInt (cf_Max (mf_Params m)),
      FormatInt (mf_CoveredSize m), FormatInt (int (length (mf_Chunks m)))]
     @ concat (map (\<lambda>c. [FormatInt (mc_Offset c), FormatInt (mc_Length c), hs (mc_Digest c)]) (mf_Chunks m))"

definition digest_input :: "(hash \<Rightarrow> string) \<Rightarrow> Manifest \<Rightarrow> byte list" where
  "digest_input hs m = concat (map write_field (digest_fields hs m))"

definition ComputeDigest :: "(byte list \<Rightarrow> hash) \<Rightarrow> (hash \<Rightarrow> string) \<Rightarrow> Manifest \<Rightarrow> hash" where
  "ComputeDigest H hs m = H (digest_input hs m)"

definition manifest_Validate :: "(byte list \<Rightarrow> hash) \<Rightarrow> (hash \<Rightarrow> string) \<Rightarrow> Manifest \<Rightarrow> manifest_error option" where
  "manifest_Validate H hs m =
     (case validateShape m of
        Some e \<Rightarrow> Some e
      | None \<Rightarrow>
          (let got = ComputeDigest H hs m in
           if got \<noteq> mf_Digest m then Some (ErrDigestMismatch (mf_Digest m) got) else None))"

definition Build :: "(byte list \<Rightarrow> hash) \<Rightarrow> (hash \<Rightarrow> string) \<Rightarrow> hash \<Rightarrow> Config \<Rightarrow> MChunk list \<Rightarrow> int \<Rightarrow> manifest_error + Manifest" where
  "Build H hs blobHash params chunks at =
     (let m = \<lparr>mf_BlobHash = blobHash, mf_Algorithm = AlgorithmFastCDC, mf_Params = params,
               mf_CoveredSize = (if chunks \<noteq> [] then mc_End (last chunks) else 0), mf_Digest = [],
               mf_GeneratedAt = at, mf_Chunks = chunks\<rparr>
      in case validateShape m of
           Some e \<Rightarrow> Inl e
         | None \<Rightarrow> Inr (m\<lparr>mf_Digest := ComputeDigest H hs m\<rparr>))"

definition Covers :: "Manifest \<Rightarrow> int \<Rightarrow> bool" where
  "Covers m blobSize \<longleftrightarrow> mf_CoveredSize m = blobSize"

definition ComparableWith :: "Manifest \<Rightarrow> Manifest \<Rightarrow> bool" where
  "ComparableWith m other \<longleftrightarrow> mf_Algorithm m = mf_Algorithm other \<and> mf_Params m = mf_Params other"

section \<open>Generation\<close>

definition of_chunk :: "Chunk \<Rightarrow> MChunk" where
  "of_chunk c = \<lparr>mc_Offset = int (ch_Offset c), mc_Length = int (ch_Length c), mc_Digest = ch_Digest c\<rparr>"

datatype generate_error = GenManifest manifest_error | GenConfig config_error | GenCancelled | GenRead chunk_error
  | WholeObjectMismatch hash hash int

text \<open>What \<^verbatim>\<open>io.TeeReader\<close> has passed to the hasher when the reader \<open>r\<close> has been read down to \<open>r'\<close>: reads take
  the bytes of the reader off the front.\<close>

definition all_bytes :: "reader \<Rightarrow> byte list" where
  "all_bytes r = concat (map fst r)"

definition teed :: "reader \<Rightarrow> reader \<Rightarrow> byte list" where
  "teed r r' = take (length (all_bytes r) - length (all_bytes r')) (all_bytes r)"

text \<open>The loop of \<open>Generate\<close>. \<open>cancelled i\<close> says whether \<^verbatim>\<open>ctx.Err()\<close> is set at the \<open>i\<close>-th check; \<open>None\<close> is running
  out of fuel.\<close>

fun generate_loop :: "nat \<Rightarrow> (byte list \<Rightarrow> hash) \<Rightarrow> u64 list \<Rightarrow> (nat \<Rightarrow> bool) \<Rightarrow> nat \<Rightarrow> Chunker \<Rightarrow> Chunk list \<Rightarrow> int
    \<Rightarrow> (generate_error + Chunk list \<times> int \<times> Chunker) option" where
  "generate_loop 0 H gear cancelled i c chunks read = None"
| "generate_loop (Suc fuel) H gear cancelled i c chunks read =
     (if cancelled i then Some (Inl GenCancelled)
      else case Next H gear c of
        (Inl e, c') \<Rightarrow> Some (if e = EOF then Inr (chunks, read, c') else Inl (GenRead e))
      | (Inr chunk, c') \<Rightarrow>
          generate_loop fuel H gear cancelled (Suc i) c' (chunks @ [chunk]) (wrap64 (read + int (ch_Length chunk))))"

definition Generate :: "nat \<Rightarrow> (byte list \<Rightarrow> hash) \<Rightarrow> (hash \<Rightarrow> string) \<Rightarrow> u64 list \<Rightarrow> (nat \<Rightarrow> bool) \<Rightarrow> reader \<Rightarrow> hash \<Rightarrow> Config \<Rightarrow> int
    \<Rightarrow> (generate_error + Manifest) option" where
  "Generate fuel H hs gear cancelled r blob params at =
     (if hash_IsZero blob then Some (Inl (GenManifest (ErrMalformed NoBlob)))
      else case New_chunker r params of
        Inl e \<Rightarrow> Some (Inl (GenConfig e))
      | Inr c \<Rightarrow>
          (case generate_loop fuel H gear cancelled 0 c [] 0 of
             None \<Rightarrow> None
           | Some (Inl e) \<Rightarrow> Some (Inl e)
           | Some (Inr (chunks, read, c')) \<Rightarrow>
               (let actual = H (teed r (ck_r c')) in
                if actual \<noteq> blob then Some (Inl (WholeObjectMismatch blob actual read))
                else (case Build H hs blob params (map of_chunk chunks) at of
                        Inl e \<Rightarrow> Some (Inl (GenManifest e))
                      | Inr m \<Rightarrow> Some (Inr m)))))"

section \<open>States and the local index\<close>

type_synonym mstate = string

definition StatePresent :: mstate where "StatePresent = ''present''"
definition StateNotRequired :: mstate where "StateNotRequired = ''not_required''"
definition StateUndecided :: mstate where "StateUndecided = ''undecided''"

definition state_Valid :: "mstate \<Rightarrow> bool" where
  "state_Valid s \<longleftrightarrow> s = StatePresent \<or> s = StateNotRequired \<or> s = StateUndecided"

definition HasManifest :: "mstate \<Rightarrow> bool" where
  "HasManifest s \<longleftrightarrow> s = StatePresent"

definition ParseState :: "string \<Rightarrow> string + mstate" where
  "ParseState s = (if state_Valid s then Inr s else Inl s)"

record LocalChunk =
  lc_Digest :: hash
  lc_BlobHash :: hash
  lc_Offset :: int
  lc_Length :: int

definition LocalChunks :: "Manifest \<Rightarrow> LocalChunk list" where
  "LocalChunks m =
     map (\<lambda>c. \<lparr>lc_Digest = mc_Digest c, lc_BlobHash = mf_BlobHash m, lc_Offset = mc_Offset c, lc_Length = mc_Length c\<rparr>) (mf_Chunks m)"

section \<open>The reuse plan\<close>

type_synonym availability = string

definition AvailabilityKept :: availability where "AvailabilityKept = ''kept''"
definition AvailabilityLocal :: availability where "AvailabilityLocal = ''local''"
definition AvailabilityFetch :: availability where "AvailabilityFetch = ''fetch''"

definition availability_Valid :: "availability \<Rightarrow> bool" where
  "availability_Valid a \<longleftrightarrow> a = AvailabilityKept \<or> a = AvailabilityLocal \<or> a = AvailabilityFetch"

record PlanEntry =
  pe_Index :: nat
  pe_Chunk :: MChunk
  pe_Availability :: availability
  pe_Donor :: LocalChunk

record Plan =
  pl_BlobHash :: hash
  pl_Entries :: "PlanEntry list"

record PlanStats =
  ps_ChunksKept :: nat
  ps_ChunksLocal :: nat
  ps_ChunksFetch :: nat
  ps_BytesKept :: int
  ps_BytesLocal :: int
  ps_BytesFetch :: int

definition stats_step :: "PlanEntry \<Rightarrow> PlanStats \<Rightarrow> PlanStats" where
  "stats_step e s =
     (if pe_Availability e = AvailabilityKept
      then s\<lparr>ps_ChunksKept := ps_ChunksKept s + 1, ps_BytesKept := wrap64 (ps_BytesKept s + mc_Length (pe_Chunk e))\<rparr>
      else if pe_Availability e = AvailabilityLocal
      then s\<lparr>ps_ChunksLocal := ps_ChunksLocal s + 1, ps_BytesLocal := wrap64 (ps_BytesLocal s + mc_Length (pe_Chunk e))\<rparr>
      else if pe_Availability e = AvailabilityFetch
      then s\<lparr>ps_ChunksFetch := ps_ChunksFetch s + 1, ps_BytesFetch := wrap64 (ps_BytesFetch s + mc_Length (pe_Chunk e))\<rparr>
      else s)"

definition Stats :: "Plan \<Rightarrow> PlanStats" where
  "Stats p = fold stats_step (pl_Entries p)
     \<lparr>ps_ChunksKept = 0, ps_ChunksLocal = 0, ps_ChunksFetch = 0, ps_BytesKept = 0, ps_BytesLocal = 0, ps_BytesFetch = 0\<rparr>"

fun pickDonor :: "MChunk \<Rightarrow> LocalChunk list \<Rightarrow> LocalChunk option" where
  "pickDonor c [] = None"
| "pickDonor c (cand # cands) =
     (if lc_Length cand \<noteq> mc_Length c \<or> lc_Offset cand < 0 \<or> hash_IsZero (lc_BlobHash cand) then pickDonor c cands
      else if lc_Digest cand \<noteq> mc_Digest c then pickDonor c cands
      else Some cand)"

definition no_donor :: LocalChunk where
  "no_donor = \<lparr>lc_Digest = [], lc_BlobHash = [], lc_Offset = 0, lc_Length = 0\<rparr>"

definition plan_entry :: "int \<Rightarrow> (hash \<rightharpoonup> LocalChunk list) \<Rightarrow> nat \<Rightarrow> MChunk \<Rightarrow> PlanEntry" where
  "plan_entry kept held i c =
     (if int i < kept then \<lparr>pe_Index = i, pe_Chunk = c, pe_Availability = AvailabilityKept, pe_Donor = no_donor\<rparr>
      else case pickDonor c (case held (mc_Digest c) of None \<Rightarrow> [] | Some l \<Rightarrow> l) of
        Some donor \<Rightarrow> \<lparr>pe_Index = i, pe_Chunk = c, pe_Availability = AvailabilityLocal, pe_Donor = donor\<rparr>
      | None \<Rightarrow> \<lparr>pe_Index = i, pe_Chunk = c, pe_Availability = AvailabilityFetch, pe_Donor = no_donor\<rparr>)"

definition PlanFor :: "Manifest \<Rightarrow> int \<Rightarrow> (hash \<rightharpoonup> LocalChunk list) \<Rightarrow> Plan" where
  "PlanFor m keptChunks held =
     (let k1 = (if keptChunks < 0 then 0 else keptChunks);
          k2 = (if k1 > int (length (mf_Chunks m)) then int (length (mf_Chunks m)) else k1)
      in \<lparr>pl_BlobHash = mf_BlobHash m,
          pl_Entries = map (\<lambda>(i, c). plan_entry k2 held i c) (enumerate 0 (mf_Chunks m))\<rparr>)"

datatype plan_error = PlanOtherBlob | PlanCount nat nat | PlanIndex nat nat | PlanAvailability nat string | PlanChunk nat

fun plan_loop :: "nat \<Rightarrow> PlanEntry list \<Rightarrow> MChunk list \<Rightarrow> plan_error option" where
  "plan_loop i (e # es) (c # cs) =
     (if pe_Index e \<noteq> i then Some (PlanIndex i (pe_Index e))
      else if \<not> availability_Valid (pe_Availability e) then Some (PlanAvailability i (pe_Availability e))
      else if pe_Chunk e \<noteq> c then Some (PlanChunk i)
      else plan_loop (Suc i) es cs)"
| "plan_loop i es cs = None"

definition plan_Validate :: "Plan \<Rightarrow> Manifest \<Rightarrow> plan_error option" where
  "plan_Validate p m =
     (if pl_BlobHash p \<noteq> mf_BlobHash m then Some PlanOtherBlob
      else if length (pl_Entries p) \<noteq> length (mf_Chunks m) then Some (PlanCount (length (pl_Entries p)) (length (mf_Chunks m)))
      else plan_loop 0 (pl_Entries p) (mf_Chunks m))"

section \<open>Jobs\<close>

definition ChunkBlobDedupeKey :: "string \<Rightarrow> string" where
  "ChunkBlobDedupeKey blobHash = ''chunk:'' @ blobHash"

definition ThresholdBytes :: int where
  "ThresholdBytes = cf_Max DefaultConfig"

section \<open>Integrity\<close>

text \<open>The partition a manifest is meant to describe.\<close>

fun mcontiguous :: "int \<Rightarrow> MChunk list \<Rightarrow> bool" where
  "mcontiguous off [] = True"
| "mcontiguous off (c # cs) = (mc_Offset c = off \<and> mcontiguous (off + mc_Length c) cs)"

definition mchunk_ok :: "MChunk \<Rightarrow> bool" where
  "mchunk_ok c \<longleftrightarrow> 0 < mc_Length c \<and> mc_Digest c \<noteq> []"

definition span :: "MChunk list \<Rightarrow> int" where
  "span cs = sum_list (map (\<lambda>c. \<bar>mc_Length c\<bar>) cs)"

lemma span_simps [simp]: "span [] = 0" "span (c # cs) = \<bar>mc_Length c\<bar> + span cs"
  by (simp_all add: span_def)

lemma span_nonneg [simp]: "0 \<le> span cs"
  by (induction cs) auto

lemma shape_loop_iff:
  assumes "0 \<le> want" and "want + span cs < 9223372036854775808"
  shows "shape_loop i want cs = Inr e \<longleftrightarrow> mcontiguous want cs \<and> list_all mchunk_ok cs \<and> e = want + span cs"
  using assms
proof (induction cs arbitrary: i want)
  case (Cons c cs)
  have w: "mc_End c = want + mc_Length c" if "mc_Offset c = want" "0 < mc_Length c"
  proof -
    have "int64_range (mc_Offset c + mc_Length c)"
      using Cons.prems that span_nonneg [of cs] unfolding int64_range_def span_simps by linarith
    then show ?thesis using that by (simp add: mc_End_def wrap64_id)
  qed
  show ?case
  proof (cases "mc_Offset c = want \<and> mchunk_ok c")
    case True
    then have o: "mc_Offset c = want" "0 < mc_Length c" "\<not> hash_IsZero (mc_Digest c)" by (auto simp: mchunk_ok_def hash_IsZero_def)
    have "shape_loop (Suc i) (want + mc_Length c) cs = Inr e \<longleftrightarrow>
        mcontiguous (want + mc_Length c) cs \<and> list_all mchunk_ok cs \<and> e = want + mc_Length c + span cs"
      using Cons.prems o by (intro Cons.IH) auto
    then show ?thesis using True o w by auto
  qed (auto simp: mchunk_ok_def hash_IsZero_def)
qed auto

lemma validateShape_iff:
  assumes "span (mf_Chunks m) < 9223372036854775808"
  shows "validateShape m = None \<longleftrightarrow>
    mf_BlobHash m \<noteq> [] \<and> mf_Algorithm m \<noteq> [] \<and> config_Validate (mf_Params m) = None \<and> mcontiguous 0 (mf_Chunks m) \<and>
    list_all mchunk_ok (mf_Chunks m) \<and> mf_CoveredSize m = span (mf_Chunks m)"
  using shape_loop_iff [of 0 "mf_Chunks m" 0] assms
  by (auto simp: validateShape_def hash_IsZero_def split: option.splits sum.splits)

text \<open>Without that bound: each offset is the sum of the lengths before it, as a 64-bit sum that wraps around.\<close>

definition mfollows :: "MChunk list \<Rightarrow> bool" where
  "mfollows cs \<longleftrightarrow> (\<forall>i<length cs. mc_Offset (cs ! i) = wrap64 (span (take i cs)))"

lemma wrap64_add: "wrap64 (wrap64 a + b) = wrap64 (a + b)"
  by (simp add: wrap64_def mod_simps algebra_simps)

lemma shape_loop_wraps:
  "shape_loop i (wrap64 w) cs = Inr e \<longleftrightarrow>
   list_all mchunk_ok cs \<and> (\<forall>k<length cs. mc_Offset (cs ! k) = wrap64 (w + span (take k cs))) \<and> e = wrap64 (w + span cs)"
proof (induction cs arbitrary: i w)
  case (Cons c cs)
  show ?case
  proof (cases "mc_Offset c = wrap64 w \<and> mchunk_ok c")
    case True
    then have o: "mc_Offset c = wrap64 w" "0 < mc_Length c" "\<not> hash_IsZero (mc_Digest c)" by (auto simp: mchunk_ok_def hash_IsZero_def)
    have "mc_End c = wrap64 (w + mc_Length c)" unfolding mc_End_def o(1) by (rule wrap64_add)
    then have "shape_loop i (wrap64 w) (c # cs) = shape_loop (Suc i) (wrap64 (w + mc_Length c)) cs" using o by simp
    then show ?thesis using True o(2) Cons.IH [of "Suc i" "w + mc_Length c"] by (auto simp: All_less_Suc2 add.assoc)
  next
    case False
    then have "shape_loop i (wrap64 w) (c # cs) \<noteq> Inr e" by (auto simp: mchunk_ok_def hash_IsZero_def)
    then show ?thesis using False by (auto simp: All_less_Suc2)
  qed
qed auto

lemma validateShape_wraps:
  "validateShape m = None \<longleftrightarrow>
    mf_BlobHash m \<noteq> [] \<and> mf_Algorithm m \<noteq> [] \<and> config_Validate (mf_Params m) = None \<and> mfollows (mf_Chunks m) \<and>
    list_all mchunk_ok (mf_Chunks m) \<and> mf_CoveredSize m = wrap64 (span (mf_Chunks m))"
proof -
  have "wrap64 0 = 0" by (simp add: wrap64_def)
  then have "shape_loop 0 0 (mf_Chunks m) = Inr (mf_CoveredSize m) \<longleftrightarrow>
      list_all mchunk_ok (mf_Chunks m) \<and> mfollows (mf_Chunks m) \<and> mf_CoveredSize m = wrap64 (span (mf_Chunks m))"
    using shape_loop_wraps [of 0 0 "mf_Chunks m"] by (simp add: mfollows_def)
  moreover have "validateShape m = None \<longleftrightarrow> mf_BlobHash m \<noteq> [] \<and> mf_Algorithm m \<noteq> [] \<and> config_Validate (mf_Params m) = None \<and>
      shape_loop 0 0 (mf_Chunks m) = Inr (mf_CoveredSize m)"
    by (auto simp: validateShape_def hash_IsZero_def split: option.splits sum.splits)
  ultimately show ?thesis by blast
qed

text \<open>Lengths that wrap the offset around are not noticed: three chunks that claim to cover 100 bytes.\<close>

definition overlapping :: "MChunk list" where
  "overlapping = [\<lparr>mc_Offset = 0, mc_Length = 9223372036854775807, mc_Digest = [1]\<rparr>,
      \<lparr>mc_Offset = 9223372036854775807, mc_Length = 9223372036854775807, mc_Digest = [1]\<rparr>,
      \<lparr>mc_Offset = - 2, mc_Length = 102, mc_Digest = [1]\<rparr>]"

lemma overlapping_accepted: "shape_loop 0 0 overlapping = Inr 100" "\<not> mcontiguous 0 overlapping"
  by (simp_all add: overlapping_def mc_End_def wrap64_def hash_IsZero_def)

subsection \<open>The digest input\<close>

lemma bytes_of_inj: "bytes_of s = bytes_of t \<longleftrightarrow> s = t"
proof
  have "inj (\<lambda>c. of_nat (of_char c) :: byte)"
  proof (rule injI)
    fix c d :: char
    assume "(of_nat (of_char c) :: byte) = of_nat (of_char d)"
    then have "(of_char c :: nat) mod 256 = of_char d mod 256" by (simp add: unat_of_nat word_unat_eq_iff)
    then show "c = d" by simp
  qed
  moreover assume "bytes_of s = bytes_of t"
  ultimately show "s = t" by (simp add: bytes_of_def inj_map_eq_map)
qed simp

lemma bytes_of_append: "bytes_of (s @ t) = bytes_of s @ bytes_of t"
  by (simp add: bytes_of_def)

definition field_text :: "string \<Rightarrow> string" where
  "field_text p = dec (length p) @ '':'' @ p"

lemma field_text_cancel:
  assumes "field_text p @ r = field_text q @ s"
  shows "p = q \<and> r = s"
proof -
  have tw: "takeWhile (\<lambda>c. c \<noteq> CHR '':'') (field_text p @ r) = dec (length p)"
    and dw: "dropWhile (\<lambda>c. c \<noteq> CHR '':'') (field_text p @ r) = '':'' @ p @ r" for p r
  proof -
    have "\<forall>c\<in>set (dec (length p)). c \<noteq> CHR '':''" using dec_no_colon [of "length p"] by metis
    then show "takeWhile (\<lambda>c. c \<noteq> CHR '':'') (field_text p @ r) = dec (length p)"
      and "dropWhile (\<lambda>c. c \<noteq> CHR '':'') (field_text p @ r) = '':'' @ p @ r"
      by (simp_all add: field_text_def takeWhile_append2 dropWhile_append2)
  qed
  have "dec (length p) = dec (length q)" using tw [of p r] tw [of q s] assms by simp
  then have "length p = length q" by (simp add: dec_inj)
  moreover have "p @ r = q @ s" using dw [of p r] dw [of q s] assms by simp
  ultimately show ?thesis by simp
qed

lemma field_texts_inj: "concat (map field_text ps) = concat (map field_text qs) \<Longrightarrow> ps = qs"
proof (induction ps arbitrary: qs)
  case Nil
  then show ?case by (cases qs) (auto simp: field_text_def)
next
  case (Cons p ps)
  then obtain q qs' where q: "qs = q # qs'" by (cases qs) (auto simp: field_text_def)
  then show ?case using Cons field_text_cancel [of p _ q] by auto
qed

lemma digest_input_text: "digest_input hs m = bytes_of (concat (map field_text (digest_fields hs m)))"
proof -
  have "concat (map write_field ps) = bytes_of (concat (map field_text ps))" for ps
    by (induction ps) (simp_all add: write_field_def field_text_def bytes_of_def)
  then show ?thesis by (simp add: digest_input_def)
qed

lemma chunk_fields_inj:
  fixes cs ds :: "MChunk list"
  assumes "inj hs" and "length cs = length ds"
    and "concat (map (\<lambda>c. [FormatInt (mc_Offset c), FormatInt (mc_Length c), hs (mc_Digest c)]) cs) =
      concat (map (\<lambda>c. [FormatInt (mc_Offset c), FormatInt (mc_Length c), hs (mc_Digest c)]) ds)"
  shows "cs = ds"
  using assms(2,3)
  by (induction cs ds rule: list_induct2) (auto simp: FormatInt_inj inj_eq [OF assms(1)] intro!: MChunk.equality)

lemma digest_input_inj:
  assumes "inj hs" and "digest_input hs m1 = digest_input hs m2"
  shows "mf_BlobHash m1 = mf_BlobHash m2 \<and> mf_Algorithm m1 = mf_Algorithm m2 \<and> mf_Params m1 = mf_Params m2 \<and>
    mf_CoveredSize m1 = mf_CoveredSize m2 \<and> mf_Chunks m1 = mf_Chunks m2"
proof -
  have "digest_fields hs m1 = digest_fields hs m2"
    using assms(2) field_texts_inj by (simp add: digest_input_text bytes_of_inj)
  then show ?thesis
    using chunk_fields_inj [OF assms(1), of "mf_Chunks m1" "mf_Chunks m2"]
    by (auto simp: digest_fields_def FormatInt_inj inj_eq [OF assms(1)] intro: Config.equality)
qed

text \<open>C12: The integrity check of a manifest. \<^verbatim>\<open>Validate\<close> accepts a manifest just when it names a blob, an algorithm and usable
  parameters, its chunks are non-empty and have digests, each offset is the 64-bit sum of the lengths before it, the covered
  size is that of all of them, and the recorded digest is the digest of its fields. While the lengths add up to less than
  2^63 this says that the chunks follow each other from 0 without gap or overlap up to the covered size; beyond, the sum
  wraps around, and chunks that overlap are accepted. The digest is taken over a text that determines the blob, the
  parameters, the covered size and the chunk sequence in order: if the hash tells the two texts apart, two manifests have
  one digest only if they agree in all of these.\<close>

theorem manifest_integrity:
  assumes "inj hs" and "H (digest_input hs m) = H (digest_input hs m') \<Longrightarrow> digest_input hs m = digest_input hs m'"
  shows "(manifest_Validate H hs m = None \<longleftrightarrow>
      mf_BlobHash m \<noteq> [] \<and> mf_Algorithm m \<noteq> [] \<and> config_Validate (mf_Params m) = None \<and> mfollows (mf_Chunks m) \<and>
      list_all mchunk_ok (mf_Chunks m) \<and> mf_CoveredSize m = wrap64 (span (mf_Chunks m)) \<and> mf_Digest m = ComputeDigest H hs m) \<and>
    (span (mf_Chunks m) < 2 ^ 63 \<longrightarrow> (manifest_Validate H hs m = None \<longleftrightarrow>
      mf_BlobHash m \<noteq> [] \<and> mf_Algorithm m \<noteq> [] \<and> config_Validate (mf_Params m) = None \<and> mcontiguous 0 (mf_Chunks m) \<and>
      list_all mchunk_ok (mf_Chunks m) \<and> mf_CoveredSize m = span (mf_Chunks m) \<and> mf_Digest m = ComputeDigest H hs m)) \<and>
    (ComputeDigest H hs m = ComputeDigest H hs m' \<longleftrightarrow>
      mf_BlobHash m = mf_BlobHash m' \<and> ComparableWith m m' \<and> mf_CoveredSize m = mf_CoveredSize m' \<and> mf_Chunks m = mf_Chunks m') \<and>
    (\<exists>w. manifest_Validate H hs w = None \<and> mf_CoveredSize w = 100 \<and> mf_Chunks w = overlapping \<and> \<not> mcontiguous 0 (mf_Chunks w))"
proof (intro conjI impI)
  show "manifest_Validate H hs m = None \<longleftrightarrow>
      mf_BlobHash m \<noteq> [] \<and> mf_Algorithm m \<noteq> [] \<and> config_Validate (mf_Params m) = None \<and> mfollows (mf_Chunks m) \<and>
      list_all mchunk_ok (mf_Chunks m) \<and> mf_CoveredSize m = wrap64 (span (mf_Chunks m)) \<and> mf_Digest m = ComputeDigest H hs m"
    using validateShape_wraps [of m] by (auto simp: manifest_Validate_def Let_def split: option.splits)
  show "manifest_Validate H hs m = None \<longleftrightarrow>
      mf_BlobHash m \<noteq> [] \<and> mf_Algorithm m \<noteq> [] \<and> config_Validate (mf_Params m) = None \<and> mcontiguous 0 (mf_Chunks m) \<and>
      list_all mchunk_ok (mf_Chunks m) \<and> mf_CoveredSize m = span (mf_Chunks m) \<and> mf_Digest m = ComputeDigest H hs m"
    if "span (mf_Chunks m) < 2 ^ 63"
    using validateShape_iff [of m] that by (auto simp: manifest_Validate_def Let_def split: option.splits)
  show "ComputeDigest H hs m = ComputeDigest H hs m' \<longleftrightarrow>
      mf_BlobHash m = mf_BlobHash m' \<and> ComparableWith m m' \<and> mf_CoveredSize m = mf_CoveredSize m' \<and> mf_Chunks m = mf_Chunks m'"
    using digest_input_inj [OF assms(1), of m m'] assms(2)
    by (auto simp: ComputeDigest_def ComparableWith_def digest_input_def digest_fields_def)
  define w0 where "w0 = \<lparr>mf_BlobHash = [1], mf_Algorithm = AlgorithmFastCDC, mf_Params = ex_cfg, mf_CoveredSize = 100, mf_Digest = [],
    mf_GeneratedAt = 0, mf_Chunks = overlapping\<rparr>"
  define w where "w = w0\<lparr>mf_Digest := ComputeDigest H hs w0\<rparr>"
  have "config_Validate ex_cfg = None" by code_simp
  then have "validateShape w = None" using overlapping_accepted(1)
    by (simp add: validateShape_def w_def w0_def hash_IsZero_def AlgorithmFastCDC_def)
  moreover have "ComputeDigest H hs w = mf_Digest w"
    by (simp add: w_def ComputeDigest_def digest_input_def digest_fields_def)
  ultimately have "manifest_Validate H hs w = None" by (simp add: manifest_Validate_def Let_def)
  then show "\<exists>w. manifest_Validate H hs w = None \<and> mf_CoveredSize w = 100 \<and> mf_Chunks w = overlapping \<and> \<not> mcontiguous 0 (mf_Chunks w)"
    using overlapping_accepted(2) by (intro exI [of _ w]) (simp add: w_def w0_def)
qed

section \<open>Generation from the bytes\<close>

lemma Read_bytes: "Read k r = (bs, e, r') \<Longrightarrow> all_bytes r = bs @ all_bytes r'"
  by (cases "(k, r)" rule: Read.cases) (auto simp: all_bytes_def split: if_splits)

text \<open>What a refill does to any reader: it moves bytes from its front into the buffer, and it reports no error
  only if what it has read was clean.\<close>

lemma fill_loop_reads:
  assumes "fill_loop buf n r = (buf', n', r', eof', err)" and "n \<le> length buf"
  shows "length buf' = length buf \<and> n' \<le> length buf \<and> n' + length (all_bytes r') = n + length (all_bytes r) \<and>
    (\<exists>xs. all_bytes r = xs @ all_bytes r' \<and> (err = None \<longrightarrow> delivered r = xs @ (if eof' then [] else delivered r'))) \<and>
    (err = None \<longrightarrow> eof' \<or> clean_reader r' \<longrightarrow> clean_reader r) \<and> (err = None \<and> \<not> eof' \<longrightarrow> n' = length buf) \<and> err \<noteq> Some EOF"
  using assms
proof (induction buf n r arbitrary: buf' n' r' eof' err rule: fill_loop.induct)
  case (1 buf n r)
  show ?case
  proof (cases "n < length buf")
    case False
    with 1 show ?thesis by (auto simp: fill_loop.simps [of buf n r])
  next
    case True
    obtain bs e r1 where rd: "Read (length buf - n) r = (bs, e, r1)" by (metis prod_cases3)
    let ?buf = "take n buf @ bs @ drop (n + length bs) buf"
    have len: "length bs \<le> length buf - n" "length ?buf = length buf" using Read_length [OF rd] True by auto
    note ab = Read_bytes [OF rd]
    have dl: "e = RNil \<Longrightarrow> delivered r = bs @ delivered r1" "e = REOF \<Longrightarrow> delivered r = bs"
      "e = REOF \<Longrightarrow> clean_reader r" "e = RNil \<Longrightarrow> bs \<noteq> [] \<Longrightarrow> clean_reader r1 \<Longrightarrow> clean_reader r"
      using rd True by (cases "(length buf - n, r)" rule: Read.cases; auto split: if_splits rerr.splits)+
    note unf = 1(2) [unfolded fill_loop.simps [of buf n r]]
    show ?thesis
    proof (cases "e = RNil \<and> bs \<noteq> []")
      case True
      then have RNil: "e = RNil" and ne: "bs \<noteq> []" by auto
      have f: "fill_loop ?buf (n + length bs) r1 = (buf', n', r', eof', err)"
        using unf \<open>n < length buf\<close> rd RNil ne by (auto simp: Let_def)
      have "n + length bs \<le> length ?buf" using len \<open>n < length buf\<close> by auto
      note ih = 1(1) [OF \<open>n < length buf\<close> rd [symmetric] refl refl refl RNil ne f this]
      then obtain xs where "all_bytes r1 = xs @ all_bytes r'" "err = None \<longrightarrow> delivered r1 = xs @ (if eof' then [] else delivered r')"
        by blast
      then have "\<exists>xs. all_bytes r = xs @ all_bytes r' \<and> (err = None \<longrightarrow> delivered r = xs @ (if eof' then [] else delivered r'))"
        using ab dl(1) [OF RNil] by (intro exI [of _ "bs @ xs"]) simp
      then show ?thesis using ih len ab dl(4) [OF RNil ne] by auto
    next
      case False
      then show ?thesis using unf \<open>n < length buf\<close> rd len ab dl by (cases e) (auto simp: Let_def)
    qed
  qed
qed

definition buf_ok :: "Chunker \<Rightarrow> bool" where
  "buf_ok c \<longleftrightarrow> config_Validate (ck_cfg c) = None \<and> ck_off c + ck_n c \<le> length (ck_buf c) \<and> ck_buf c \<noteq> [] \<and> ck_err c = None"

definition left :: "Chunker \<Rightarrow> nat" where
  "left c = ck_n c + length (all_bytes (ck_r c))"

definition ended :: "Chunker \<Rightarrow> bool" where
  "ended c \<longleftrightarrow> ck_eof c \<or> clean_reader (ck_r c)"

definition reading :: "reader \<Rightarrow> Chunker \<Rightarrow> bool" where
  "reading r0 c \<longleftrightarrow> (\<exists>xs. all_bytes r0 = xs @ all_bytes (ck_r c) \<and> delivered r0 = xs @ (if ck_eof c then [] else delivered (ck_r c)))"

lemma fill_reads:
  assumes "fill c = (e, c1)" and "buf_ok c"
  shows "buf_ok c1 \<and> left c1 = left c \<and> e \<noteq> Some EOF \<and>
    (e = None \<longrightarrow> (ended c1 \<longrightarrow> ended c) \<and> (reading r0 c \<longrightarrow> reading r0 c1) \<and> (ck_eof c1 \<or> ck_n c1 = length (ck_buf c1)))"
proof (cases "ck_eof c \<or> ck_n c = length (ck_buf c)")
  case True
  then show ?thesis using assms by (auto simp: fill_def)
next
  case False
  let ?buf = "if ck_off c > 0 then take (ck_n c) (drop (ck_off c) (ck_buf c)) @ drop (ck_n c) (ck_buf c) else ck_buf c"
  have len: "length ?buf = length (ck_buf c)" "ck_n c \<le> length ?buf" using assms(2) by (auto simp: buf_ok_def)
  obtain buf' n' r' eof' err where f: "fill_loop ?buf (ck_n c) (ck_r c) = (buf', n', r', eof', err)" by (metis prod_cases5)
  note l = fill_loop_reads [OF f len(2), unfolded len(1)]
  have c1: "e = err" "c1 = c\<lparr>ck_buf := buf', ck_off := 0, ck_n := n', ck_r := r', ck_eof := eof'\<rparr>"
    using assms(1) False f by (auto simp: fill_def Let_def)
  obtain xs where xs: "all_bytes (ck_r c) = xs @ all_bytes r'" "err = None \<longrightarrow> delivered (ck_r c) = xs @ (if eof' then [] else delivered r')"
    using l by blast
  have "buf_ok c1" using assms(2) l unfolding buf_ok_def c1(2) by (auto simp flip: length_greater_0_conv)
  moreover have "reading r0 c1" if "reading r0 c" "err = None"
  proof -
    obtain ys where "all_bytes r0 = ys @ all_bytes (ck_r c)" "delivered r0 = ys @ delivered (ck_r c)"
      using \<open>reading r0 c\<close> False by (auto simp: reading_def)
    then show ?thesis using xs that(2) unfolding reading_def c1(2) by (intro exI [of _ "ys @ xs"]) simp
  qed
  ultimately show ?thesis using l c1 by (auto simp: left_def ended_def)
qed

lemma Next_reads:
  assumes "Next H gear c = (res, c')" and "buf_ok c"
  shows "res = Inr ch \<Longrightarrow> buf_ok c' \<and> left c' < left c \<and> (ended c' \<longrightarrow> ended c) \<and> (reading r0 c \<longrightarrow> reading r0 c')"
    and "res = Inl EOF \<Longrightarrow> ended c \<and> (reading r0 c \<longrightarrow> teed r0 (ck_r c') = delivered r0)"
proof -
  obtain e c1 where f: "fill c = (e, c1)" by fastforce
  note l = fill_reads [OF f assms(2), of r0]
  have err: "ck_err c = None" using assms(2) by (simp add: buf_ok_def)
  note nx = assms(1) [unfolded Next_def err option.case f prod.case]
  {
    assume ch: "res = Inr ch"
    then have e: "e = None" and n: "ck_n c1 \<noteq> 0" using nx by (auto split: option.splits if_splits)
    let ?w = "take (ck_n c1) (drop (ck_off c1) (ck_buf c1))"
    let ?l = "cut gear (ck_cfg c1) (ck_maskS c1) (ck_maskL c1) ?w"
    have w: "length ?w = ck_n c1" "?w \<noteq> []" using l n by (auto simp: buf_ok_def)
    have b: "0 < ?l" "?l \<le> ck_n c1" using cut_bounds [OF _ w(2)] l w(1) by (auto simp: buf_ok_def)
    have c': "c' = c1\<lparr>ck_off := ck_off c1 + ?l, ck_n := ck_n c1 - ?l, ck_offset := ck_offset c1 + ?l\<rparr>"
      using nx e n by (auto simp: Let_def)
    show "buf_ok c' \<and> left c' < left c \<and> (ended c' \<longrightarrow> ended c) \<and> (reading r0 c \<longrightarrow> reading r0 c')"
      using l e b unfolding c' by (auto simp: buf_ok_def left_def ended_def reading_def)
  next
    assume eof: "res = Inl EOF"
    then have e: "e = None" and n: "ck_n c1 = 0" and c': "c' = c1\<lparr>ck_err := Some EOF\<rparr>"
      using nx l by (auto simp: Let_def split: option.splits if_splits)
    then have ce: "ck_eof c1" using l by (auto simp: buf_ok_def)
    then have "teed r0 (ck_r c') = delivered r0" if "reading r0 c"
    proof -
      have "reading r0 c1" using l e that by blast
      then have "all_bytes r0 = delivered r0 @ all_bytes (ck_r c1)" using ce by (auto simp: reading_def)
      then show ?thesis by (simp add: teed_def c')
    qed
    then show "ended c \<and> (reading r0 c \<longrightarrow> teed r0 (ck_r c') = delivered r0)" using l e ce by (auto simp: ended_def)
  }
qed

lemma generate_loop_returns:
  assumes "buf_ok c" and "left c < fuel"
  shows "generate_loop fuel H gear cancelled i c chs rd \<noteq> None"
  using assms
proof (induction fuel arbitrary: i c chs rd)
  case (Suc fuel)
  obtain res c' where n: "Next H gear c = (res, c')" by fastforce
  show ?case
  proof (cases res)
    case (Inr ch)
    then have "buf_ok c'" "left c' < fuel" using Next_reads(1) [OF n Suc.prems(1) Inr, of "[]"] Suc.prems(2) by auto
    then show ?thesis using Suc.IH n Inr by auto
  qed (use n in auto)
qed simp

lemma generate_loop_ended:
  assumes "generate_loop fuel H gear cancelled i c chs rd = Some (Inr (chs', rd', c'))" and "buf_ok c"
  shows "ended c \<and> (reading r0 c \<longrightarrow> teed r0 (ck_r c') = delivered r0)"
  using assms
proof (induction fuel arbitrary: i c chs rd)
  case (Suc fuel)
  obtain res c1 where n: "Next H gear c = (res, c1)" by fastforce
  show ?case
  proof (cases res)
    case (Inl e)
    then show ?thesis using Next_reads(2) [OF n Suc.prems(2)] Suc.prems(1) n by (auto split: if_splits)
  next
    case (Inr ch)
    note s = Next_reads(1) [OF n Suc.prems(2) Inr, of r0]
    have "generate_loop fuel H gear cancelled (Suc i) c1 (chs @ [ch]) (wrap64 (rd + int (ch_Length ch))) = Some (Inr (chs', rd', c'))"
      using Suc.prems(1) n Inr by (auto split: if_splits)
    from Suc.IH [OF this] show ?thesis using s by blast
  qed
qed simp

lemma generate_loop_clean:
  fixes H :: "byte list \<Rightarrow> hash" and gear :: "u64 list"
  assumes "chunker_ok c" and "length (remaining c) < fuel"
  defines "chs \<equiv> chunks_of H gear (ck_cfg c) (ck_offset c) (remaining c)"
  shows "if \<exists>j \<le> length chs. cancelled (i + j) then generate_loop fuel H gear cancelled i c acc rd = Some (Inl GenCancelled)
    else \<exists>c'. generate_loop fuel H gear cancelled i c acc rd =
      Some (Inr (acc @ chs, fold (\<lambda>ch rd. wrap64 (rd + int (ch_Length ch))) chs rd, c'))"
  using assms(1,2) unfolding chs_def
proof (induction fuel arbitrary: i c acc rd)
  case (Suc fuel)
  have v: "config_Validate (ck_cfg c) = None" using Suc.prems(1) by (simp add: chunker_ok_def)
  show ?case
  proof (cases "remaining c = []")
    case True
    then show ?thesis using Next_end [OF Suc.prems(1) True, of H gear] by auto
  next
    case False
    let ?l = "cut_of gear (ck_cfg c) (remaining c)"
    let ?ch = "\<lparr>ch_Offset = ck_offset c, ch_Length = ?l, ch_Digest = H (take ?l (remaining c))\<rparr>"
    obtain c' where n: "Next H gear c = (Inr ?ch, c')"
      and c': "chunker_ok c'" "remaining c' = drop ?l (remaining c)" "ck_offset c' = ck_offset c + ?l" "ck_cfg c' = ck_cfg c"
      using Next_ok [OF Suc.prems(1) False] by blast
    have fuel: "length (remaining c') < fuel"
      using cut_bounds [OF v False, of gear "maskS_of (ck_cfg c)" "maskL_of (ck_cfg c)", folded cut_of_def] Suc.prems(2)
      unfolding c'(2) length_drop by linarith
    let ?rest = "chunks_of H gear (ck_cfg c') (ck_offset c') (remaining c')"
    have chs: "chunks_of H gear (ck_cfg c) (ck_offset c) (remaining c) = ?ch # ?rest"
      using c' by (simp add: chunks_of_Cons [OF v False])
    note ih = Suc.IH [OF c'(1) fuel, of "Suc i" "acc @ [?ch]" "wrap64 (rd + int ?l)"]
    have ex: "(\<exists>j \<le> length (?ch # ?rest). cancelled (i + j)) \<longleftrightarrow> cancelled i \<or> (\<exists>j \<le> length ?rest. cancelled (Suc i + j))"
    proof -
      have "(\<exists>j \<le> Suc k. P j) \<longleftrightarrow> P 0 \<or> (\<exists>j \<le> k. P (Suc j))" for P and k :: nat
        by (metis Suc_le_mono le0 not0_implies_Suc)
      from this [of "length ?rest" "\<lambda>j. cancelled (i + j)"] show ?thesis by simp
    qed
    show ?thesis using ih n unfolding chs ex by (cases "cancelled i") (auto split: if_splits)
  qed
qed simp

lemma fold_lengths:
  assumes "0 \<le> rd" and "rd + int (total_length chs) < 2 ^ 63"
  shows "fold (\<lambda>ch rd. wrap64 (rd + int (ch_Length ch))) chs rd = rd + int (total_length chs)"
  using assms
proof (induction chs arbitrary: rd)
  case (Cons c chs)
  have "wrap64 (rd + int (ch_Length c)) = rd + int (ch_Length c)"
    using Cons.prems by (subst wrap64_id) (auto simp: int64_range_def total_length_def)
  then show ?case using Cons.IH [of "rd + int (ch_Length c)"] Cons.prems by (simp add: total_length_def)
qed (simp add: total_length_def)

lemma of_chunks_shape:
  assumes "contiguous off chs" and "\<forall>c\<in>set chs. 0 < ch_Length c \<and> ch_Digest c \<noteq> []"
  shows "mcontiguous (int off) (map of_chunk chs) \<and> list_all mchunk_ok (map of_chunk chs) \<and> span (map of_chunk chs) = int (total_length chs)"
  using assms
proof (induction chs arbitrary: off)
  case (Cons c chs)
  then show ?case
    using Cons.IH [of "ch_Offset c + ch_Length c"] by (auto simp: of_chunk_def mchunk_ok_def total_length_def chunk_End_def)
qed (simp add: total_length_def)

lemma mcontiguous_end:
  assumes "mcontiguous off cs" and "list_all mchunk_ok cs" and "cs \<noteq> []" and "0 \<le> off" and "off + span cs < 2 ^ 63"
  shows "mc_End (last cs) = off + span cs"
  using assms
proof (induction cs arbitrary: off)
  case (Cons c cs)
  show ?case
  proof (cases "cs = []")
    case True
    then show ?thesis using Cons.prems by (auto simp: mc_End_def mchunk_ok_def int64_range_def intro!: wrap64_id)
  next
    case False
    then show ?thesis using Cons.prems Cons.IH [of "off + mc_Length c"] by (auto simp: mchunk_ok_def)
  qed
qed simp

definition generated :: "(byte list \<Rightarrow> hash) \<Rightarrow> (hash \<Rightarrow> string) \<Rightarrow> u64 list \<Rightarrow> Config \<Rightarrow> int \<Rightarrow> byte list \<Rightarrow> Manifest" where
  "generated H hs gear params at content =
     (let m = \<lparr>mf_BlobHash = H content, mf_Algorithm = AlgorithmFastCDC, mf_Params = params, mf_CoveredSize = int (length content),
               mf_Digest = [], mf_GeneratedAt = at, mf_Chunks = map of_chunk (chunks_of H gear params 0 content)\<rparr>
      in m\<lparr>mf_Digest := ComputeDigest H hs m\<rparr>)"

lemma Covers_generated: "Covers (generated H hs gear params at content) (int (length content))"
  by (simp add: Covers_def generated_def Let_def)

lemma Build_generated:
  assumes "config_Validate params = None" and "\<And>x. H x \<noteq> []" and "length content < 2 ^ 63"
  shows "Build H hs (H content) params (map of_chunk (chunks_of H gear params 0 content)) at = Inr (generated H hs gear params at content)"
    and "manifest_Validate H hs (generated H hs gear params at content) = None"
proof -
  let ?chs = "chunks_of H gear params 0 content"
  have c: "contiguous 0 ?chs" "total_length ?chs = length content" "\<forall>c\<in>set ?chs. 0 < ch_Length c \<and> ch_Digest c \<noteq> []"
    using chunks_of_contiguous [OF assms(1)] chunks_of_total [OF assms(1)] chunks_of_bounds [OF assms(1)]
      chunks_of_slices [OF assms(1)] assms(2) by metis+
  note s = of_chunks_shape [OF c(1,3)]
  have sp: "span (map of_chunk ?chs) = int (length content)" "span (map of_chunk ?chs) < 2 ^ 63" using s c(2) assms(3) by simp_all
  have cov: "(if map of_chunk ?chs \<noteq> [] then mc_End (last (map of_chunk ?chs)) else 0) = int (length content)"
  proof (cases "map of_chunk ?chs = []")
    case False
    then show ?thesis using mcontiguous_end [of 0 "map of_chunk ?chs"] s sp by simp
  qed (use sp in simp)
  let ?m = "\<lparr>mf_BlobHash = H content, mf_Algorithm = AlgorithmFastCDC, mf_Params = params, mf_CoveredSize = int (length content),
               mf_Digest = d, mf_GeneratedAt = at, mf_Chunks = map of_chunk ?chs\<rparr>"
  have v: "validateShape \<lparr>mf_BlobHash = H content, mf_Algorithm = AlgorithmFastCDC, mf_Params = params, mf_CoveredSize = int (length content),
               mf_Digest = d, mf_GeneratedAt = at, mf_Chunks = map of_chunk ?chs\<rparr> = None" for d
    using s sp assms(1,2) by (subst validateShape_iff) (auto simp: AlgorithmFastCDC_def)
  show "Build H hs (H content) params (map of_chunk ?chs) at = Inr (generated H hs gear params at content)"
    unfolding Build_def cov by (simp add: v generated_def Let_def)
  show "manifest_Validate H hs (generated H hs gear params at content) = None"
    by (simp add: manifest_Validate_def generated_def Let_def v ComputeDigest_def digest_input_def digest_fields_def)
qed

lemma New_chunker_reads:
  assumes "New_chunker r params = Inr c"
  shows "buf_ok c \<and> left c = length (all_bytes r) \<and> reading r c \<and> (ended c \<longleftrightarrow> clean_reader r) \<and> config_Validate params = None"
  using assms
  by (auto simp: New_chunker_def buf_ok_def left_def reading_def ended_def readSize_def Let_def split: option.splits)

lemma New_chunker_Inl: "New_chunker r params = Inl e \<longleftrightarrow> config_Validate params = Some e"
  by (auto simp: New_chunker_def Let_def split: option.splits)

lemma delivered_length: "length (delivered r) \<le> length (all_bytes r)"
  by (induction r rule: delivered.induct) (auto simp: all_bytes_def)

text \<open>Generation returns, and verifies itself. With more fuel than the reader has bytes, \<^verbatim>\<open>Generate\<close> gives
  a result on every reader. It is a manifest just when the blob is named, the parameters are
  usable, the reader made progress and ended without an error, no cancellation was seen at one of
  the checks, and the bytes read hash to the blob's name; then it is the manifest of exactly those
  bytes, covering all of them, and it passes \<^verbatim>\<open>Validate\<close>. Bytes that hash to something else are
  reported with both digests and their number.\<close>

theorem generate_self_verifying:
  assumes "\<And>x. H x \<noteq> []" and "length (all_bytes r) < fuel" and "length (all_bytes r) < 2 ^ 63"
  shows "\<exists>res. Generate fuel H hs gear cancelled r blob params at = Some res \<and>
    ((\<exists>m. res = Inr m) \<longleftrightarrow>
       blob \<noteq> [] \<and> config_Validate params = None \<and> clean_reader r \<and>
       (\<forall>j \<le> length (chunks_of H gear params 0 (delivered r)). \<not> cancelled j) \<and> H (delivered r) = blob) \<and>
    (\<forall>m. res = Inr m \<longrightarrow> m = generated H hs gear params at (delivered r) \<and> Covers m (int (length (delivered r))) \<and>
       manifest_Validate H hs m = None) \<and>
    (blob \<noteq> [] \<and> config_Validate params = None \<and> clean_reader r \<and> (\<forall>j. \<not> cancelled j) \<and> H (delivered r) \<noteq> blob \<longrightarrow>
       res = Inl (WholeObjectMismatch blob (H (delivered r)) (int (length (delivered r)))))"
proof (cases "blob = [] \<or> config_Validate params \<noteq> None")
  case True
  then show ?thesis
    using New_chunker_reads [of r params]
    by (cases "New_chunker r params"; cases "blob = []") (auto simp: Generate_def hash_IsZero_def)
next
  case False
  then obtain c where c: "New_chunker r params = Inr c" using New_chunker_Inr by blast
  note n = New_chunker_reads [OF c]
  let ?loop = "generate_loop fuel H gear cancelled 0 c [] 0" and ?d = "delivered r"
  let ?chs = "chunks_of H gear params 0 ?d"
  have gen: "Generate fuel H hs gear cancelled r blob params at =
      (case ?loop of None \<Rightarrow> None | Some (Inl e) \<Rightarrow> Some (Inl e)
       | Some (Inr (chunks, read, c')) \<Rightarrow>
           if H (teed r (ck_r c')) \<noteq> blob then Some (Inl (WholeObjectMismatch blob (H (teed r (ck_r c'))) read))
           else (case Build H hs blob params (map of_chunk chunks) at of
                   Inl e \<Rightarrow> Some (Inl (GenManifest e)) | Inr m \<Rightarrow> Some (Inr m)))"
    using False c unfolding Generate_def hash_IsZero_def Let_def by simp
  obtain lr where lr: "?loop = Some lr" using generate_loop_returns [of c fuel H gear cancelled 0 "[]" 0] n assms(2) by auto
  have dl: "length ?d < 2 ^ 63" using delivered_length [of r] assms(3) by simp
  show ?thesis
  proof (cases "clean_reader r \<and> \<not> (\<exists>j \<le> length ?chs. cancelled j)")
    case True
    have ok: "chunker_ok c" "remaining c = ?d" "ck_offset c = 0" "ck_cfg c = params" using New_chunker_ok [OF c] True by auto
    have fu: "length (remaining c) < fuel" using delivered_length [of r] assms(2) ok(2) by simp
    have t: "total_length ?chs = length ?d" using chunks_of_total False by blast
    obtain c' where l: "?loop = Some (Inr (?chs, int (length ?d), c'))"
      using generate_loop_clean [OF ok(1) fu, of H gear cancelled 0 "[]" 0] True fold_lengths [of 0 ?chs] dl t
      unfolding ok by auto
    have teed: "teed r (ck_r c') = ?d" using generate_loop_ended [OF l] n by blast
    show ?thesis
      using True False Build_generated [where params = params and H = H and content = ?d and hs = hs and gear = gear and at = at, OF _ assms(1) dl] unfolding gen l
      by (auto simp: teed Covers_generated)
  next
    case bad: False
    have "\<exists>e. lr = Inl e"
    proof (cases lr)
      case (Inr t)
      then obtain a b c' where l: "?loop = Some (Inr (a, b, c'))" using lr by (cases t) auto
      then have cl: "clean_reader r" using generate_loop_ended [OF l] n by blast
      then have ok: "chunker_ok c" "remaining c = ?d" "ck_offset c = 0" "ck_cfg c = params" using New_chunker_ok [OF c] by auto
      have fu: "length (remaining c) < fuel" using delivered_length [of r] assms(2) ok(2) by simp
      have "?loop = Some (Inl GenCancelled)"
        using generate_loop_clean [OF ok(1) fu, of H gear cancelled 0 "[]" 0] bad cl unfolding ok by auto
      then show ?thesis using l by simp
    qed simp
    then show ?thesis using bad lr False unfolding gen by auto
  qed
qed

text \<open>Twelve bytes in two pieces, a digest that is the length of the bytes and a mark, and the printed form
  that spells the digest out.\<close>

definition ex_hs :: "hash \<Rightarrow> string" where
  "ex_hs h = map (\<lambda>b. char_of (unat b)) h"

lemma inj_ex_hs: "inj ex_hs"
proof (rule injI)
  fix x y
  assume "ex_hs x = ex_hs y"
  moreover have "inj (\<lambda>b :: byte. char_of (unat b))"
  proof (rule injI)
    fix a b :: byte
    assume "char_of (unat a) = (char_of (unat b) :: char)"
    then have "of_char (char_of (unat a)) = (of_char (char_of (unat b)) :: nat)" by simp
    moreover have "unat a < 256" "unat b < 256"
      using unsigned_less [of a, where ?'a = nat] unsigned_less [of b, where ?'a = nat] by simp_all
    ultimately show "a = b" by (simp add: word_unat_eq_iff)
  qed
  ultimately show "x = y" by (simp add: ex_hs_def inj_map_eq_map)
qed

theorem generate_self_verifying_witness:
  "\<exists>m. Generate 20 ex_hash ex_hs ex_gear (\<lambda>_. False) [([3, 3, 3, 3, 3], RNil), ([1, 1, 3, 1, 1], REOF)] [10, 1] ex_cfg 0 = Some (Inr m) \<and>
     mf_CoveredSize m = 10 \<and> manifest_Validate ex_hash ex_hs m = None"
proof -
  let ?r = "[([3, 3, 3, 3, 3], RNil), ([1, 1, 3, 1, 1], REOF)]"
  have "config_Validate ex_cfg = None" by code_simp
  moreover have "length (all_bytes ?r) < 20" "length (all_bytes ?r) < 2 ^ 63" by (simp_all add: all_bytes_def)
  moreover have "ex_hash x \<noteq> []" for x by (simp add: ex_hash_def)
  ultimately show ?thesis
    using generate_self_verifying [of ex_hash ?r 20 ex_hs ex_gear "\<lambda>_. False" "[10, 1]" ex_cfg 0]
    by (auto simp: ex_hash_def Covers_def)
qed

text \<open>The manifest of that content and the empty one.\<close>

theorem manifest_integrity_witness:
  "\<not> ComputeDigest id ex_hs \<lparr>mf_BlobHash = [1], mf_Algorithm = AlgorithmFastCDC, mf_Params = ex_cfg, mf_CoveredSize = 5, mf_Digest = [], mf_GeneratedAt = 0,
       mf_Chunks = [\<lparr>mc_Offset = 0, mc_Length = 3, mc_Digest = [7]\<rparr>, \<lparr>mc_Offset = 3, mc_Length = 2, mc_Digest = [8]\<rparr>]\<rparr> =
     ComputeDigest id ex_hs \<lparr>mf_BlobHash = [1], mf_Algorithm = AlgorithmFastCDC, mf_Params = ex_cfg, mf_CoveredSize = 5, mf_Digest = [], mf_GeneratedAt = 0,
       mf_Chunks = [\<lparr>mc_Offset = 0, mc_Length = 3, mc_Digest = [8]\<rparr>, \<lparr>mc_Offset = 3, mc_Length = 2, mc_Digest = [7]\<rparr>]\<rparr>"
  (is "\<not> ComputeDigest id ex_hs ?m = ComputeDigest id ex_hs ?m'")
proof -
  from manifest_integrity [OF inj_ex_hs, of id ?m ?m'] show ?thesis by simp
qed

section \<open>Plans\<close>

definition usable :: "MChunk \<Rightarrow> LocalChunk \<Rightarrow> bool" where
  "usable c d \<longleftrightarrow> lc_Digest d = mc_Digest c \<and> lc_Length d = mc_Length c \<and> 0 \<le> lc_Offset d \<and> lc_BlobHash d \<noteq> []"

lemma pickDonor_find: "pickDonor c ds = find (usable c) ds"
  by (induction ds) (auto simp: usable_def hash_IsZero_def)

definition held_list :: "(hash \<rightharpoonup> LocalChunk list) \<Rightarrow> MChunk \<Rightarrow> LocalChunk list" where
  "held_list held c = (case held (mc_Digest c) of None \<Rightarrow> [] | Some l \<Rightarrow> l)"

lemma plan_entries:
  "pl_Entries (PlanFor m k held) = map (\<lambda>(i, c). plan_entry k held i c) (enumerate 0 (mf_Chunks m))"
  by (auto simp: PlanFor_def Let_def plan_entry_def enumerate_eq_zip set_zip)

lemma plan_entry_fields [simp]: "pe_Index (plan_entry k held i c) = i" "pe_Chunk (plan_entry k held i c) = c"
  by (auto simp: plan_entry_def split: option.splits)

lemmas availability_defs = AvailabilityKept_def AvailabilityLocal_def AvailabilityFetch_def

lemma plan_entry_availability:
  "pe_Availability (plan_entry k held i c) =
    (if int i < k then AvailabilityKept else if \<exists>d\<in>set (held_list held c). usable c d then AvailabilityLocal else AvailabilityFetch)"
  by (auto simp: plan_entry_def pickDonor_find held_list_def [symmetric] find_None_iff find_Some_iff split: option.splits)

lemma plan_entry_donor:
  "pe_Availability (plan_entry k held i c) = AvailabilityLocal \<Longrightarrow>
   usable c (pe_Donor (plan_entry k held i c)) \<and> pe_Donor (plan_entry k held i c) \<in> set (held_list held c)"
proof (cases "find (usable c) (held_list held c)")
  case (Some d)
  then have "usable c d" "d \<in> set (held_list held c)" by (auto simp: find_Some_iff)
  moreover assume "pe_Availability (plan_entry k held i c) = AvailabilityLocal"
  ultimately show ?thesis using Some by (auto simp: plan_entry_def pickDonor_find held_list_def [symmetric] availability_defs split: if_splits)
qed (auto simp: plan_entry_def pickDonor_find held_list_def [symmetric] availability_defs split: if_splits)

lemma plan_loop_iff:
  "length es = length cs \<Longrightarrow> plan_loop i es cs = None \<longleftrightarrow>
   map pe_Index es = [i ..< i + length cs] \<and> map pe_Chunk es = cs \<and> (\<forall>e\<in>set es. availability_Valid (pe_Availability e))"
proof (induction es cs arbitrary: i rule: list_induct2)
  case (Cons e es c cs)
  have "[i ..< i + length (c # cs)] = i # [Suc i ..< Suc i + length cs]" by (simp add: upt_conv_Cons del: upt_Suc)
  then show ?case using Cons by (auto simp del: upt_Suc)
qed simp

definition stats_total :: "PlanStats \<Rightarrow> int" where
  "stats_total s = ps_BytesKept s + ps_BytesLocal s + ps_BytesFetch s"

lemma stats_fold:
  assumes "list_all (\<lambda>e. availability_Valid (pe_Availability e) \<and> 0 \<le> mc_Length (pe_Chunk e)) es"
    and "0 \<le> ps_BytesKept s" "0 \<le> ps_BytesLocal s" "0 \<le> ps_BytesFetch s"
    and "stats_total s + span (map pe_Chunk es) < 2 ^ 63"
  shows "stats_total (fold stats_step es s) = stats_total s + span (map pe_Chunk es) \<and>
    ps_ChunksKept (fold stats_step es s) + ps_ChunksLocal (fold stats_step es s) + ps_ChunksFetch (fold stats_step es s) =
    ps_ChunksKept s + ps_ChunksLocal s + ps_ChunksFetch s + length es"
  using assms
proof (induction es arbitrary: s)
  case (Cons e es)
  have l: "0 \<le> mc_Length (pe_Chunk e)" using Cons.prems(1) by simp
  have w: "wrap64 (x + mc_Length (pe_Chunk e)) = x + mc_Length (pe_Chunk e)" if "0 \<le> x" "x \<le> stats_total s" for x
  proof -
    have "int64_range (x + mc_Length (pe_Chunk e))"
      using Cons.prems(5) that l span_nonneg [of "map pe_Chunk es"] unfolding int64_range_def list.map span_simps by (simp, linarith)
    then show ?thesis by (rule wrap64_id)
  qed
  let ?s = "stats_step e s"
  have s: "stats_total ?s = stats_total s + mc_Length (pe_Chunk e)" "0 \<le> ps_BytesKept ?s" "0 \<le> ps_BytesLocal ?s" "0 \<le> ps_BytesFetch ?s"
    "ps_ChunksKept ?s + ps_ChunksLocal ?s + ps_ChunksFetch ?s = Suc (ps_ChunksKept s + ps_ChunksLocal s + ps_ChunksFetch s)"
    using Cons.prems(1-4) l w by (auto simp: stats_step_def stats_total_def availability_Valid_def)
  show ?case using Cons.IH [OF _ s(2-4)] Cons.prems(1,5) s(1,5) l by simp
qed simp

text \<open>A reuse plan describes its manifest. \<^verbatim>\<open>PlanFor\<close> has one entry per chunk, in order, so its own \<^verbatim>\<open>Validate\<close>
  accepts it; the leading verified chunks are kept, a later chunk is taken locally just when the
  index offers bytes of the same digest and length at a place in a named blob, the donor is such a place,
  and every other chunk is fetched; the bytes counted by \<^verbatim>\<open>Stats\<close> add up to the covered size of a
  well-formed manifest. A plan that \<^verbatim>\<open>Validate\<close> accepts for a manifest, from wherever it came, is for
  that blob and lists exactly its chunk sequence.\<close>

theorem plan_describes_manifest:
  "plan_Validate (PlanFor m k held) m = None \<and>
   (\<forall>i < length (mf_Chunks m). \<exists>e. pl_Entries (PlanFor m k held) ! i = e \<and> pe_Index e = i \<and> pe_Chunk e = mf_Chunks m ! i \<and>
      pe_Availability e = (if int i < k then AvailabilityKept
        else if \<exists>d\<in>set (held_list held (mf_Chunks m ! i)). usable (mf_Chunks m ! i) d then AvailabilityLocal else AvailabilityFetch) \<and>
      (pe_Availability e = AvailabilityLocal \<longrightarrow> usable (mf_Chunks m ! i) (pe_Donor e) \<and> pe_Donor e \<in> set (held_list held (mf_Chunks m ! i)))) \<and>
   (validateShape m = None \<and> span (mf_Chunks m) < 2 ^ 63 \<longrightarrow>
      stats_total (Stats (PlanFor m k held)) = mf_CoveredSize m \<and>
      ps_ChunksKept (Stats (PlanFor m k held)) + ps_ChunksLocal (Stats (PlanFor m k held)) + ps_ChunksFetch (Stats (PlanFor m k held)) = ChunkCount m) \<and>
   (plan_Validate p m = None \<longrightarrow> pl_BlobHash p = mf_BlobHash m \<and> map pe_Chunk (pl_Entries p) = mf_Chunks m \<and>
      map pe_Index (pl_Entries p) = [0 ..< ChunkCount m])"
proof (intro conjI)
  let ?es = "pl_Entries (PlanFor m k held)"
  have len: "length ?es = length (mf_Chunks m)" by (simp add: plan_entries)
  have nth: "?es ! i = plan_entry k held i (mf_Chunks m ! i)" if "i < length (mf_Chunks m)" for i
    using that by (simp add: plan_entries nth_enumerate_eq)
  have av: "\<forall>e\<in>set ?es. availability_Valid (pe_Availability e)"
    by (auto simp: plan_entries plan_entry_availability availability_Valid_def)
  have ch: "map pe_Chunk ?es = mf_Chunks m" "map pe_Index ?es = [0 ..< length (mf_Chunks m)]"
    by (auto simp: plan_entries comp_def case_prod_beta enumerate_eq_zip map_snd_zip [unfolded comp_def] map_fst_zip [unfolded comp_def])
  show "plan_Validate (PlanFor m k held) m = None"
    using plan_loop_iff [OF len, of 0] av ch len by (simp add: plan_Validate_def PlanFor_def Let_def)
  show "\<forall>i < length (mf_Chunks m). \<exists>e. ?es ! i = e \<and> pe_Index e = i \<and> pe_Chunk e = mf_Chunks m ! i \<and>
      pe_Availability e = (if int i < k then AvailabilityKept
        else if \<exists>d\<in>set (held_list held (mf_Chunks m ! i)). usable (mf_Chunks m ! i) d then AvailabilityLocal else AvailabilityFetch) \<and>
      (pe_Availability e = AvailabilityLocal \<longrightarrow> usable (mf_Chunks m ! i) (pe_Donor e) \<and> pe_Donor e \<in> set (held_list held (mf_Chunks m ! i)))"
    using plan_entry_donor plan_entry_availability by (simp add: nth)
  show "validateShape m = None \<and> span (mf_Chunks m) < 2 ^ 63 \<longrightarrow>
      stats_total (Stats (PlanFor m k held)) = mf_CoveredSize m \<and>
      ps_ChunksKept (Stats (PlanFor m k held)) + ps_ChunksLocal (Stats (PlanFor m k held)) + ps_ChunksFetch (Stats (PlanFor m k held)) = ChunkCount m"
  proof
    assume v: "validateShape m = None \<and> span (mf_Chunks m) < 2 ^ 63"
    then have c: "list_all mchunk_ok (mf_Chunks m)" "mf_CoveredSize m = span (mf_Chunks m)" using validateShape_iff [of m] by auto
    have "list_all (\<lambda>e. availability_Valid (pe_Availability e) \<and> 0 \<le> mc_Length (pe_Chunk e)) ?es"
      using av c(1) unfolding ch(1) [symmetric] by (auto simp: list_all_iff mchunk_ok_def less_imp_le)
    from stats_fold [OF this, of "\<lparr>ps_ChunksKept = 0, ps_ChunksLocal = 0, ps_ChunksFetch = 0, ps_BytesKept = 0, ps_BytesLocal = 0, ps_BytesFetch = 0\<rparr>"]
    show "stats_total (Stats (PlanFor m k held)) = mf_CoveredSize m \<and>
      ps_ChunksKept (Stats (PlanFor m k held)) + ps_ChunksLocal (Stats (PlanFor m k held)) + ps_ChunksFetch (Stats (PlanFor m k held)) = ChunkCount m"
      using v c(2) len by (simp add: ch Stats_def stats_total_def ChunkCount_def)
  qed
  show "plan_Validate p m = None \<longrightarrow> pl_BlobHash p = mf_BlobHash m \<and> map pe_Chunk (pl_Entries p) = mf_Chunks m \<and>
      map pe_Index (pl_Entries p) = [0 ..< ChunkCount m]"
    using plan_loop_iff [of "pl_Entries p" "mf_Chunks m" 0] by (auto simp: plan_Validate_def ChunkCount_def split: if_splits)
qed

text \<open>Three chunks of the manifest generated above, the first verified, the second found locally.\<close>

theorem plan_describes_manifest_witness:
  "(let m = \<lparr>mf_BlobHash = [1], mf_Algorithm = AlgorithmFastCDC, mf_Params = ex_cfg, mf_CoveredSize = 9, mf_Digest = [], mf_GeneratedAt = 0,
        mf_Chunks = [\<lparr>mc_Offset = 0, mc_Length = 3, mc_Digest = [7]\<rparr>, \<lparr>mc_Offset = 3, mc_Length = 2, mc_Digest = [8]\<rparr>,
          \<lparr>mc_Offset = 5, mc_Length = 4, mc_Digest = [9]\<rparr>]\<rparr>;
      held = [[8] \<mapsto> [\<lparr>lc_Digest = [8], lc_BlobHash = [2], lc_Offset = 40, lc_Length = 2\<rparr>]];
      p = PlanFor m 1 held
    in map pe_Availability (pl_Entries p) = [AvailabilityKept, AvailabilityLocal, AvailabilityFetch] \<and>
       plan_Validate p m = None \<and> stats_total (Stats p) = 9)"
proof -
  let ?m = "\<lparr>mf_BlobHash = [1], mf_Algorithm = AlgorithmFastCDC, mf_Params = ex_cfg, mf_CoveredSize = 9, mf_Digest = [], mf_GeneratedAt = 0,
        mf_Chunks = [\<lparr>mc_Offset = 0, mc_Length = 3, mc_Digest = [7]\<rparr>, \<lparr>mc_Offset = 3, mc_Length = 2, mc_Digest = [8]\<rparr>,
          \<lparr>mc_Offset = 5, mc_Length = 4, mc_Digest = [9]\<rparr>]\<rparr>"
    and ?held = "[[8] \<mapsto> [\<lparr>lc_Digest = [8], lc_BlobHash = [2], lc_Offset = 40, lc_Length = 2\<rparr>]]"
  have "config_Validate ex_cfg = None" by code_simp
  then have "validateShape ?m = None" "span (mf_Chunks ?m) < 2 ^ 63"
    by (simp_all add: validateShape_iff AlgorithmFastCDC_def mchunk_ok_def)
  moreover have "map pe_Availability (pl_Entries (PlanFor ?m 1 ?held)) = [AvailabilityKept, AvailabilityLocal, AvailabilityFetch]"
    by (simp add: plan_entries plan_entry_availability held_list_def usable_def)
  ultimately show ?thesis
    using plan_describes_manifest [of ?m 1 ?held "PlanFor ?m 1 ?held"] by (simp add: Let_def)
qed

end
