(* ===== verification/Policy.thy ===== *)
theory Policy
  imports GoStd
begin

text \<open>
  \<^verbatim>\<open>internal/domain/policy\<close>: quality profiles. \<^verbatim>\<open>value.go\<close> (operands), \<^verbatim>\<open>attribute.go\<close> (the closed vocabulary and its
  comparisons), \<^verbatim>\<open>profile.go\<close> (rules, sections, validation), \<^verbatim>\<open>language.go\<close> (the household's language
  default), \<^verbatim>\<open>resolution.go\<close> and \<^verbatim>\<open>defaults.go\<close> (the seeded profiles). Attribute and comparison names are
  strings, since a profile on the wire may name anything; \<open>Validate\<close> returns the normalised profile or
  the first problem, and what it has normalised of a refused profile is not kept. The JSON codec of a
  value is not modelled.
\<close>

section \<open>Vocabulary\<close>

type_synonym Attribute = string
type_synonym Op = string

text \<open>The kinds; \<open>KindNone\<close> is the empty kind of a zero value.\<close>

datatype Kind = KindInt | KindText | KindFlag | KindNone

definition AttrResolution :: Attribute where "AttrResolution = ''resolution''"
definition AttrSource :: Attribute where "AttrSource = ''source''"
definition AttrVideoCodec :: Attribute where "AttrVideoCodec = ''video_codec''"
definition AttrAudioCodec :: Attribute where "AttrAudioCodec = ''audio_codec''"
definition AttrAudioChannels :: Attribute where "AttrAudioChannels = ''audio_channels''"
definition AttrHDR :: Attribute where "AttrHDR = ''hdr''"
definition AttrSizeBytes :: Attribute where "AttrSizeBytes = ''size_bytes''"
definition AttrLanguage :: Attribute where "AttrLanguage = ''language''"
definition AttrStore :: Attribute where "AttrStore = ''store''"
definition AttrDRMFree :: Attribute where "AttrDRMFree = ''drm_free''"
definition AttrPlatform :: Attribute where "AttrPlatform = ''platform''"
definition AttrRegion :: Attribute where "AttrRegion = ''region''"
definition AttrIndexerPrivacy :: Attribute where "AttrIndexerPrivacy = ''indexer_privacy''"

lemmas attr_defs = AttrResolution_def AttrSource_def AttrVideoCodec_def AttrAudioCodec_def AttrAudioChannels_def AttrHDR_def
  AttrSizeBytes_def AttrLanguage_def AttrStore_def AttrDRMFree_def AttrPlatform_def AttrRegion_def AttrIndexerPrivacy_def

definition attributeKinds :: "(Attribute \<times> Kind) list" where
  "attributeKinds =
     [(AttrResolution, KindInt), (AttrSource, KindText), (AttrVideoCodec, KindText), (AttrAudioCodec, KindText),
      (AttrAudioChannels, KindInt), (AttrHDR, KindFlag), (AttrSizeBytes, KindInt), (AttrLanguage, KindText),
      (AttrStore, KindText), (AttrDRMFree, KindFlag), (AttrPlatform, KindText), (AttrRegion, KindText),
      (AttrIndexerPrivacy, KindText)]"

definition KindOf :: "Attribute \<Rightarrow> Kind option" where
  "KindOf a = map_of attributeKinds a"

definition Attributes_list :: "Attribute list" where
  "Attributes_list = sort (map fst attributeKinds)"

definition OpEq :: Op where "OpEq = ''eq''"
definition OpNeq :: Op where "OpNeq = ''neq''"
definition OpGTE :: Op where "OpGTE = ''gte''"
definition OpLTE :: Op where "OpLTE = ''lte''"
definition OpIn :: Op where "OpIn = ''in''"
definition OpNotIn :: Op where "OpNotIn = ''nin''"

lemmas op_defs = OpEq_def OpNeq_def OpGTE_def OpLTE_def OpIn_def OpNotIn_def

lemma ops_distinct [simp]:
  "OpEq \<noteq> OpNeq" "OpEq \<noteq> OpGTE" "OpEq \<noteq> OpLTE" "OpEq \<noteq> OpIn" "OpEq \<noteq> OpNotIn"
  "OpNeq \<noteq> OpEq" "OpNeq \<noteq> OpGTE" "OpNeq \<noteq> OpLTE" "OpNeq \<noteq> OpIn" "OpNeq \<noteq> OpNotIn"
  "OpGTE \<noteq> OpEq" "OpGTE \<noteq> OpNeq" "OpGTE \<noteq> OpLTE" "OpGTE \<noteq> OpIn" "OpGTE \<noteq> OpNotIn"
  "OpLTE \<noteq> OpEq" "OpLTE \<noteq> OpNeq" "OpLTE \<noteq> OpGTE" "OpLTE \<noteq> OpIn" "OpLTE \<noteq> OpNotIn"
  "OpIn \<noteq> OpEq" "OpIn \<noteq> OpNeq" "OpIn \<noteq> OpGTE" "OpIn \<noteq> OpLTE" "OpIn \<noteq> OpNotIn"
  "OpNotIn \<noteq> OpEq" "OpNotIn \<noteq> OpNeq" "OpNotIn \<noteq> OpGTE" "OpNotIn \<noteq> OpLTE" "OpNotIn \<noteq> OpIn"
  by (simp_all add: op_defs)

lemma language_not_region [simp]: "AttrLanguage \<noteq> AttrRegion"
  by (simp add: attr_defs)

fun opsByKind :: "Kind \<Rightarrow> Op list" where
  "opsByKind KindInt = [OpEq, OpNeq, OpGTE, OpLTE]"
| "opsByKind KindText = [OpEq, OpNeq, OpIn, OpNotIn]"
| "opsByKind KindFlag = [OpEq, OpNeq]"
| "opsByKind KindNone = []"

definition opAllowed :: "Kind \<Rightarrow> Op \<Rightarrow> bool" where
  "opAllowed k op \<longleftrightarrow> op \<in> set (opsByKind k)"

definition normaliseText :: "string \<Rightarrow> string" where
  "normaliseText s = ToLower (TrimSpace s)"

section \<open>Operands\<close>

text \<open>\<open>v_Texts\<close> is \<open>None\<close> for a nil slice.\<close>

record Value =
  v_Kind :: Kind
  v_Num :: int
  v_Text :: string
  v_Texts :: "string list option"
  v_Flag :: bool
  v_Derived :: bool
  v_set :: bool

definition zero_Value :: Value where
  "zero_Value = \<lparr>v_Kind = KindNone, v_Num = 0, v_Text = [], v_Texts = None, v_Flag = False, v_Derived = False, v_set = False\<rparr>"

definition AsDerived :: "Value \<Rightarrow> Value" where "AsDerived v = v\<lparr>v_Derived := True\<rparr>"
definition Num :: "int \<Rightarrow> Value" where "Num n = zero_Value\<lparr>v_Kind := KindInt, v_Num := n, v_set := True\<rparr>"
definition Text :: "string \<Rightarrow> Value" where "Text s = zero_Value\<lparr>v_Kind := KindText, v_Text := normaliseText s, v_set := True\<rparr>"
definition Texts :: "string list \<Rightarrow> Value" where
  "Texts ss = zero_Value\<lparr>v_Kind := KindText, v_Texts := Some (map normaliseText ss), v_set := True\<rparr>"
definition Flag :: "bool \<Rightarrow> Value" where "Flag b = zero_Value\<lparr>v_Kind := KindFlag, v_Flag := b, v_set := True\<rparr>"
definition IsSet :: "Value \<Rightarrow> bool" where "IsSet v = v_set v"
definition isSetValue :: "Value \<Rightarrow> bool" where "isSetValue v \<longleftrightarrow> v_Texts v \<noteq> None"

definition value_String :: "Value \<Rightarrow> string" where
  "value_String v =
     (if \<not> v_set v then ''(none)''
      else case v_Kind v of
        KindInt \<Rightarrow> FormatInt (v_Num v)
      | KindFlag \<Rightarrow> (if v_Flag v then ''true'' else ''false'')
      | KindText \<Rightarrow> (case v_Texts v of Some ss \<Rightarrow> ''['' @ Join '', '' ss @ '']'' | None \<Rightarrow> v_Text v)
      | KindNone \<Rightarrow> ''(unknown)'')"

section \<open>Profiles\<close>

datatype Section = SectionAccept | SectionPrefer | SectionTerminal

definition Sections :: "Section list" where
  "Sections = [SectionAccept, SectionPrefer, SectionTerminal]"

record Rule =
  ru_Attribute :: Attribute
  ru_Op :: Op
  ru_Value :: Value
  ru_Weight :: int

record Profile =
  pr_ID :: string
  pr_Name :: string
  pr_Description :: string
  pr_ContentTypes :: "string list"
  pr_Accept :: "Rule list"
  pr_Prefer :: "Rule list"
  pr_Terminal :: "Rule list"

definition HasTerminal :: "Profile \<Rightarrow> bool" where
  "HasTerminal p \<longleftrightarrow> length (pr_Terminal p) > 0"

type_synonym SectionRule = "Section \<times> Rule"

definition Rules :: "Profile \<Rightarrow> SectionRule list" where
  "Rules p = map (Pair SectionAccept) (pr_Accept p) @ map (Pair SectionPrefer) (pr_Prefer p) @ map (Pair SectionTerminal) (pr_Terminal p)"

definition maxRules :: nat where "maxRules = 64"

datatype rule_error = NoSuchAttribute | NeedsComparison | NotApplicable Kind Op | NeedsValue | KindError Kind
  | NeedsList | NeedsSingle | EmptyList | ZeroWeight | WeightOnGate int | RegionOnGate

datatype profile_error = NeedsName | TooManyRules Section nat | BadRule Section nat rule_error | DuplicateRule Section Attribute Op

definition validateRule :: "Section \<Rightarrow> Rule \<Rightarrow> rule_error + Rule" where
  "validateRule sec r0 =
     (let r = r0\<lparr>ru_Attribute := normaliseText (ru_Attribute r0), ru_Op := normaliseText (ru_Op r0)\<rparr>;
          setOp = (ru_Op r = OpIn \<or> ru_Op r = OpNotIn)
      in case KindOf (ru_Attribute r) of
           None \<Rightarrow> Inl NoSuchAttribute
         | Some kind \<Rightarrow>
             if ru_Op r = [] then Inl NeedsComparison
             else if \<not> opAllowed kind (ru_Op r) then Inl (NotApplicable kind (ru_Op r))
             else if \<not> IsSet (ru_Value r) then Inl NeedsValue
             else if v_Kind (ru_Value r) \<noteq> kind then Inl (KindError kind)
             else if setOp \<and> \<not> isSetValue (ru_Value r) then Inl NeedsList
             else if \<not> setOp \<and> isSetValue (ru_Value r) then Inl NeedsSingle
             else if setOp \<and> v_Texts (ru_Value r) = Some [] then Inl EmptyList
             else (case sec of
                     SectionPrefer \<Rightarrow> if ru_Weight r = 0 then Inl ZeroWeight else Inr r
                   | _ \<Rightarrow> if ru_Weight r \<noteq> 0 then Inl (WeightOnGate (ru_Weight r))
                          else if ru_Attribute r = AttrRegion then Inl RegionOnGate else Inr r))"

text \<open>One section of \<open>Validate\<close>: the number of the rule, the keys seen so far, the rules left.\<close>

fun validate_rules :: "Section \<Rightarrow> nat \<Rightarrow> (Attribute \<times> Op) list \<Rightarrow> Rule list \<Rightarrow> profile_error + Rule list" where
  "validate_rules sec i seen [] = Inr []"
| "validate_rules sec i seen (r # rs) =
     (case validateRule sec r of
        Inl e \<Rightarrow> Inl (BadRule sec i e)
      | Inr r' \<Rightarrow>
          if (ru_Attribute r', ru_Op r') \<in> set seen then Inl (DuplicateRule sec (ru_Attribute r') (ru_Op r'))
          else map_sum id (Cons r') (validate_rules sec (Suc i) ((ru_Attribute r', ru_Op r') # seen) rs))"

definition validate_section :: "Section \<Rightarrow> Rule list \<Rightarrow> profile_error + Rule list" where
  "validate_section sec rs = (if length rs > maxRules then Inl (TooManyRules sec (length rs)) else validate_rules sec 1 [] rs)"

definition profile_Validate :: "Profile \<Rightarrow> profile_error + Profile" where
  "profile_Validate p0 =
     (if TrimSpace (pr_Name p0) = [] then Inl NeedsName
      else
        (let p = p0\<lparr>pr_Name := TrimSpace (pr_Name p0), pr_Description := TrimSpace (pr_Description p0)\<rparr> in
         case validate_section SectionAccept (pr_Accept p) of
           Inl e \<Rightarrow> Inl e
         | Inr acc \<Rightarrow>
             (case validate_section SectionPrefer (pr_Prefer p) of
                Inl e \<Rightarrow> Inl e
              | Inr pre \<Rightarrow>
                  (case validate_section SectionTerminal (pr_Terminal p) of
                     Inl e \<Rightarrow> Inl e
                   | Inr ter \<Rightarrow> Inr (p\<lparr>pr_Accept := acc, pr_Prefer := pre, pr_Terminal := ter\<rparr>)))))"

section \<open>Language defaults\<close>

record LanguageDefault =
  ld_Prefer :: string
  ld_Weight :: int
  ld_Foreign :: "string list"
  ld_Penalty :: int

definition Enabled :: "LanguageDefault \<Rightarrow> bool" where
  "Enabled d \<longleftrightarrow> ld_Prefer d \<noteq> []"

definition PreferRules :: "LanguageDefault \<Rightarrow> Rule list" where
  "PreferRules d =
     (if \<not> Enabled d then []
      else (if ld_Weight d > 0
            then [\<lparr>ru_Attribute = AttrLanguage, ru_Op = OpEq, ru_Value = Text (ld_Prefer d), ru_Weight = ld_Weight d\<rparr>] else []) @
           (if length (ld_Foreign d) > 0 \<and> ld_Penalty d > 0
            then [\<lparr>ru_Attribute = AttrLanguage, ru_Op = OpIn, ru_Value = Texts (ld_Foreign d), ru_Weight = - ld_Penalty d\<rparr>] else []))"

definition mentionsLanguage :: "Profile \<Rightarrow> bool" where
  "mentionsLanguage p \<longleftrightarrow> list_ex (\<lambda>sr. ru_Attribute (snd sr) = AttrLanguage) (Rules p)"

definition WithLanguageDefault :: "LanguageDefault \<Rightarrow> Profile \<Rightarrow> Profile" where
  "WithLanguageDefault d p =
     (if \<not> Enabled d \<or> mentionsLanguage p then p
      else (let add = PreferRules d in if length add = 0 then p else p\<lparr>pr_Prefer := pr_Prefer p @ add\<rparr>))"

definition isVideoProfile :: "Profile \<Rightarrow> bool" where
  "isVideoProfile p \<longleftrightarrow>
     list_ex (\<lambda>sr. ru_Attribute (snd sr) \<in> {AttrResolution, AttrVideoCodec, AttrHDR, AttrAudioCodec, AttrAudioChannels}) (Rules p)"

definition WithLanguageDefaults :: "LanguageDefault \<Rightarrow> Profile list \<Rightarrow> Profile list" where
  "WithLanguageDefaults d profiles =
     (if \<not> Enabled d then profiles else map (\<lambda>p. if isVideoProfile p then WithLanguageDefault d p else p) profiles)"

section \<open>Resolution classes\<close>

definition ResolutionClass :: "int \<Rightarrow> int \<Rightarrow> int option" where
  "ResolutionClass width height =
     (if width \<le> 0 \<and> height \<le> 0 then None
      else if width \<ge> 3840 \<or> height \<ge> 2160 then Some 2160
      else if width \<ge> 2560 \<or> height \<ge> 1440 then Some 1440
      else if width \<ge> 1920 \<or> height \<ge> 1080 then Some 1080
      else if width \<ge> 1280 \<or> height \<ge> 720 then Some 720
      else if height \<le> 0 then None else Some height)"

section \<open>The seeded profiles\<close>

definition rule :: "Attribute \<Rightarrow> Op \<Rightarrow> Value \<Rightarrow> int \<Rightarrow> Rule" where
  "rule a op v w = \<lparr>ru_Attribute = a, ru_Op = op, ru_Value = v, ru_Weight = w\<rparr>"

definition Defaults :: "Profile list" where
  "Defaults =
     [
      \<lparr>pr_ID = [], pr_Name = ''living-room'',
        pr_Description = ''A television. Accepts 1080p and up, prefers modern codecs and HDR, and is finished at a 2160p remux.'',
        pr_ContentTypes = [],
        pr_Accept = [rule AttrResolution OpGTE (Num 1080) 0,
           rule AttrSource OpNotIn (Texts [''cam'', ''telesync'']) 0],
        pr_Prefer = [rule AttrVideoCodec OpEq (Text ''hevc'') 20,
           rule AttrHDR OpEq (Flag True) 10,
           rule AttrAudioChannels OpGTE (Num 6) 5,
           rule AttrSizeBytes OpGTE (Num 68719476736) (- 15)],
        pr_Terminal = [rule AttrResolution OpGTE (Num 2160) 0,
           rule AttrSource OpEq (Text ''remux'') 0]\<rparr>,
      \<lparr>pr_ID = [], pr_Name = ''everyday'',
        pr_Description = ''A laptop or a tablet. Accepts 720p and up and is finished at 1080p '' @ [CHR 0xE2, CHR 0x80, CHR 0x94] @ '' smaller files, reached sooner.'',
        pr_ContentTypes = [],
        pr_Accept = [rule AttrResolution OpGTE (Num 720) 0,
           rule AttrSource OpNotIn (Texts [''cam'', ''telesync'']) 0],
        pr_Prefer = [rule AttrVideoCodec OpEq (Text ''hevc'') 15,
           rule AttrSizeBytes OpLTE (Num 8589934592) 10],
        pr_Terminal = [rule AttrResolution OpGTE (Num 1080) 0]\<rparr>,
      \<lparr>pr_ID = [], pr_Name = ''everyday-indexed'',
        pr_Description = ''Starting profile for searched video. Accepts 720p and up, penalises identified cam sources, and stops at 1080p. Unknown source does not block an otherwise acceptable release.'',
        pr_ContentTypes = [''movie'', ''series'', ''video''],
        pr_Accept = [rule AttrResolution OpGTE (Num 720) 0],
        pr_Prefer = [rule AttrSource OpIn (Texts [''cam'', ''telesync'', ''workprint'', ''screener'']) (- 200)],
        pr_Terminal = [rule AttrResolution OpGTE (Num 1080) 0]\<rparr>,
      \<lparr>pr_ID = [], pr_Name = ''music-indexed'',
        pr_Description = ''Starting profile for searched music. Accepts a nonempty release and stops once held; bitrate and format are not judged yet.'',
        pr_ContentTypes = [''music''],
        pr_Accept = [rule AttrSizeBytes OpGTE (Num 1) 0],
        pr_Prefer = [],
        pr_Terminal = [rule AttrSizeBytes OpGTE (Num 1) 0]\<rparr>,
      \<lparr>pr_ID = [], pr_Name = ''book-indexed'',
        pr_Description = ''Starting profile for searched books. Accepts a nonempty release and stops once held; format and edition are not judged yet.'',
        pr_ContentTypes = [''book''],
        pr_Accept = [rule AttrSizeBytes OpGTE (Num 1) 0],
        pr_Prefer = [],
        pr_Terminal = [rule AttrSizeBytes OpGTE (Num 1) 0]\<rparr>,
      \<lparr>pr_ID = [], pr_Name = ''rom-indexed'',
        pr_Description = ''Starting profile for searched ROMs. Accepts a nonempty release for the wanted platform, prefers USA, then World, then Europe, and stops once held.'',
        pr_ContentTypes = [''rom''],
        pr_Accept = [rule AttrSizeBytes OpGTE (Num 1) 0],
        pr_Prefer = [rule AttrRegion OpEq (Text ''usa'') 20,
           rule AttrRegion OpIn (Texts [''usa'', ''world'']) 10,
           rule AttrRegion OpNeq (Text ''usa'') 10,
           rule AttrRegion OpNotIn (Texts [''usa'', ''world'', ''europe'']) (- 10)],
        pr_Terminal = [rule AttrSizeBytes OpGTE (Num 1) 0]\<rparr>,
      \<lparr>pr_ID = [], pr_Name = ''archival'',
        pr_Description = ''Keep the best there is. Never terminal: there is no condition under which this profile stops looking for something better.'',
        pr_ContentTypes = [],
        pr_Accept = [rule AttrSource OpNotIn (Texts [''cam'', ''telesync'', ''workprint'']) 0],
        pr_Prefer = [rule AttrSource OpEq (Text ''remux'') 40,
           rule AttrResolution OpGTE (Num 2160) 30,
           rule AttrHDR OpEq (Flag True) 10],
        pr_Terminal = []\<rparr>,
      \<lparr>pr_ID = [], pr_Name = ''published'',
        pr_Description = ''Content taken directly from the source that publishes it '' @ [CHR 0xE2, CHR 0x80, CHR 0x94] @ '' a web article, a podcast episode. The published copy is definitive: accept it and stop looking.'',
        pr_ContentTypes = [],
        pr_Accept = [rule AttrSource OpNotIn (Texts [''cam'', ''telesync'', ''workprint'']) 0],
        pr_Prefer = [],
        pr_Terminal = [rule AttrSizeBytes OpGTE (Num 1) 0]\<rparr>,
      \<lparr>pr_ID = [], pr_Name = ''owned'',
        pr_Description = ''A game copied from a store you own it on. Accepts a copy whose store is known, prefers a DRM-free one, and stops once a DRM-free copy is held; a DRM-bound copy (a Steam depot) is kept but stays open to one.'',
        pr_ContentTypes = [''game''],
        pr_Accept = [rule AttrStore OpIn (Texts [''gog'', ''steam'', ''epic'', ''itch'', ''humble'']) 0],
        pr_Prefer = [rule AttrDRMFree OpEq (Flag True) 50],
        pr_Terminal = [rule AttrDRMFree OpEq (Flag True) 0]\<rparr>,
      \<lparr>pr_ID = [], pr_Name = ''subtitle'',
        pr_Description = ''A fetched subtitle. Accepts any subtitle bytes and stops looking: the provider chose the file, so the held caption is definitive.'',
        pr_ContentTypes = [],
        pr_Accept = [rule AttrSizeBytes OpGTE (Num 1) 0],
        pr_Prefer = [],
        pr_Terminal = [rule AttrSizeBytes OpGTE (Num 1) 0]\<rparr>]"

section \<open>Validation\<close>

text \<open>A rule that means something in its section, a section and a profile of such rules.\<close>

definition rule_ok :: "Section \<Rightarrow> Rule \<Rightarrow> bool" where
  "rule_ok sec r \<longleftrightarrow>
     (case KindOf (ru_Attribute r) of
        None \<Rightarrow> False
      | Some kind \<Rightarrow> opAllowed kind (ru_Op r) \<and> v_Kind (ru_Value r) = kind) \<and>
     normaliseText (ru_Attribute r) = ru_Attribute r \<and> normaliseText (ru_Op r) = ru_Op r \<and> v_set (ru_Value r) \<and>
     ((ru_Op r = OpIn \<or> ru_Op r = OpNotIn) \<longleftrightarrow> isSetValue (ru_Value r)) \<and> v_Texts (ru_Value r) \<noteq> Some [] \<and>
     (sec = SectionPrefer \<longleftrightarrow> ru_Weight r \<noteq> 0) \<and> (ru_Attribute r = AttrRegion \<longrightarrow> sec = SectionPrefer)"

definition rule_key :: "Rule \<Rightarrow> Attribute \<times> Op" where
  "rule_key r = (ru_Attribute r, ru_Op r)"

definition section_ok :: "Section \<Rightarrow> Rule list \<Rightarrow> bool" where
  "section_ok sec rs \<longleftrightarrow> length rs \<le> maxRules \<and> list_all (rule_ok sec) rs \<and> distinct (map rule_key rs)"

definition profile_ok :: "Profile \<Rightarrow> bool" where
  "profile_ok p \<longleftrightarrow> pr_Name p \<noteq> [] \<and> TrimSpace (pr_Name p) = pr_Name p \<and> TrimSpace (pr_Description p) = pr_Description p \<and>
     section_ok SectionAccept (pr_Accept p) \<and> section_ok SectionPrefer (pr_Prefer p) \<and> section_ok SectionTerminal (pr_Terminal p)"

lemma normaliseText_idem [simp]: "normaliseText (normaliseText s) = normaliseText s"
  by (simp add: normaliseText_def)

lemma vocabulary_normal:
  "normaliseText AttrResolution = AttrResolution" "normaliseText AttrSource = AttrSource" "normaliseText AttrVideoCodec = AttrVideoCodec"
  "normaliseText AttrAudioChannels = AttrAudioChannels" "normaliseText AttrHDR = AttrHDR" "normaliseText AttrSizeBytes = AttrSizeBytes"
  "normaliseText AttrStore = AttrStore" "normaliseText AttrDRMFree = AttrDRMFree" "normaliseText AttrRegion = AttrRegion"
  "normaliseText AttrLanguage = AttrLanguage" "normaliseText OpEq = OpEq" "normaliseText OpNeq = OpNeq" "normaliseText OpGTE = OpGTE" "normaliseText OpLTE = OpLTE"
  "normaliseText OpIn = OpIn" "normaliseText OpNotIn = OpNotIn"
  by (simp_all add: normaliseText_def ToLower_def TrimSpace_def is_space_def lower_char_def less_eq_char_def attr_defs op_defs)

lemma not_opAllowed_Nil: "\<not> opAllowed k []"
  by (cases k) (auto simp: opAllowed_def op_defs)

lemma validateRule_sound: "validateRule sec r = Inr r' \<Longrightarrow> rule_ok sec r'"
  by (cases sec) (auto simp: validateRule_def rule_ok_def Let_def IsSet_def isSetValue_def vocabulary_normal split: option.splits if_splits)

lemma validateRule_complete: "rule_ok sec r \<Longrightarrow> validateRule sec r = Inr r"
  using not_opAllowed_Nil
  by (cases sec) (auto simp: validateRule_def rule_ok_def Let_def IsSet_def isSetValue_def split: option.splits)

lemma validate_rules_sound:
  assumes "validate_rules sec i seen rs = Inr rs'"
  shows "length rs' = length rs \<and> list_all (rule_ok sec) rs' \<and> distinct (map rule_key rs') \<and> set (map rule_key rs') \<inter> set seen = {}"
  using assms
proof (induction rs arbitrary: i seen rs')
  case (Cons r rs)
  obtain r' where r': "validateRule sec r = Inr r'" "rule_key r' \<notin> set seen"
    using Cons.prems by (auto simp: rule_key_def split: sum.splits if_splits)
  then obtain rs'' where "validate_rules sec (Suc i) (rule_key r' # seen) rs = Inr rs''" and rs': "rs' = r' # rs''"
    using Cons.prems by (cases "validate_rules sec (Suc i) (rule_key r' # seen) rs") (auto simp: rule_key_def)
  from Cons.IH [OF this(1)] show ?case using r' validateRule_sound [OF r'(1)] unfolding rs' by auto
qed auto

lemma validate_rules_complete:
  assumes "list_all (rule_ok sec) rs" and "distinct (map rule_key rs)" and "set (map rule_key rs) \<inter> set seen = {}"
  shows "validate_rules sec i seen rs = Inr rs"
  using assms
proof (induction rs arbitrary: i seen)
  case (Cons r rs)
  have "validate_rules sec (Suc i) (rule_key r # seen) rs = Inr rs" using Cons.prems by (intro Cons.IH) auto
  then show ?case using Cons.prems validateRule_complete [of sec r] by (auto simp: rule_key_def)
qed simp

lemma validate_section_iff: "validate_section sec rs = Inr rs' \<Longrightarrow> section_ok sec rs'"
  and validate_section_complete: "section_ok sec rs \<Longrightarrow> validate_section sec rs = Inr rs"
  using validate_rules_sound [of sec 1 "[]" rs rs'] validate_rules_complete [of sec rs "[]" 1]
  by (auto simp: validate_section_def section_ok_def split: if_splits)

lemma profile_Validate_sound: "profile_Validate p = Inr p' \<Longrightarrow> profile_ok p'"
  by (auto simp: profile_Validate_def profile_ok_def Let_def split: if_splits sum.splits dest!: validate_section_iff)

lemma profile_Validate_complete: "profile_ok p \<Longrightarrow> profile_Validate p = Inr p"
  by (auto simp: profile_Validate_def profile_ok_def Let_def validate_section_complete)

lemma PreferRules_ok: "section_ok SectionPrefer (PreferRules d)"
proof -
  have k: "KindOf AttrLanguage = Some KindText" by (simp add: KindOf_def attributeKinds_def attr_defs)
  show ?thesis
    by (auto simp: section_ok_def PreferRules_def rule_ok_def k vocabulary_normal opAllowed_def isSetValue_def Text_def Texts_def
        zero_Value_def maxRules_def rule_key_def)
qed

lemma language_default_ok:
  assumes "profile_ok p" and "length (pr_Prefer p) \<le> 62"
  shows "profile_ok (WithLanguageDefault d p)"
proof (cases "\<not> Enabled d \<or> mentionsLanguage p \<or> PreferRules d = []")
  case True
  then show ?thesis using assms by (auto simp: WithLanguageDefault_def Let_def)
next
  case False
  have "length (PreferRules d) \<le> 2" by (auto simp: PreferRules_def)
  moreover have "r \<in> set (PreferRules d) \<Longrightarrow> ru_Attribute r = AttrLanguage" for r by (auto simp: PreferRules_def split: if_splits)
  moreover have "ru_Attribute r \<noteq> AttrLanguage" if "r \<in> set (pr_Prefer p)" for r
    using False that by (force simp: mentionsLanguage_def Rules_def list_ex_iff)
  ultimately have "section_ok SectionPrefer (pr_Prefer p @ PreferRules d)"
    using assms PreferRules_ok [of d] by (auto simp: section_ok_def profile_ok_def maxRules_def rule_key_def)
  then show ?thesis using assms(1) False by (simp add: WithLanguageDefault_def profile_ok_def Let_def)
qed

lemma vocabulary_kinds:
  "KindOf AttrResolution = Some KindInt" "KindOf AttrSource = Some KindText" "KindOf AttrVideoCodec = Some KindText"
  "KindOf AttrAudioChannels = Some KindInt" "KindOf AttrHDR = Some KindFlag" "KindOf AttrSizeBytes = Some KindInt"
  "KindOf AttrStore = Some KindText" "KindOf AttrDRMFree = Some KindFlag" "KindOf AttrRegion = Some KindText"
  by (simp_all add: KindOf_def attributeKinds_def attr_defs)

lemma vocabulary_not_region:
  "AttrResolution \<noteq> AttrRegion" "AttrSource \<noteq> AttrRegion" "AttrSizeBytes \<noteq> AttrRegion" "AttrStore \<noteq> AttrRegion" "AttrDRMFree \<noteq> AttrRegion"
  by (simp_all add: attr_defs)

lemma vocabulary_distinct:
  "distinct [AttrResolution, AttrSource, AttrVideoCodec, AttrHDR, AttrAudioChannels, AttrSizeBytes]"
  by (simp add: attr_defs)

lemma default_names:
  "list_all (\<lambda>p. pr_Name p \<noteq> [] \<and> TrimSpace (pr_Name p) = pr_Name p \<and> TrimSpace (pr_Description p) = pr_Description p) Defaults"
  by (simp add: Defaults_def TrimSpace_def is_space_def)

lemma default_rules:
  "list_all (\<lambda>p. section_ok SectionAccept (pr_Accept p) \<and> section_ok SectionPrefer (pr_Prefer p) \<and> section_ok SectionTerminal (pr_Terminal p)) Defaults"
  unfolding Defaults_def list.pred_inject Profile.simps section_ok_def rule_key_def
  using vocabulary_distinct
  by (simp add: rule_ok_def rule_def vocabulary_kinds vocabulary_normal vocabulary_not_region opAllowed_def isSetValue_def
      Num_def Text_def Texts_def Flag_def zero_Value_def maxRules_def)

text \<open>C15: what validation guarantees. An accepted profile has a name and consists of rules that mean
  something in their section: attributes of the vocabulary, comparisons and operands of the
  attribute's kind, list operands exactly for the list comparisons and not empty, weights exactly on
  preferences, no gate on the region, no comparison named twice, at most 64 rules a section. Nothing
  else is refused: a profile like this is accepted as it is, so validating again changes nothing. The seeded profiles
  are such profiles, and so is one with room for two more preferences after the household's language
  default has been applied to it.\<close>

theorem profile_validation:
  "(profile_Validate p = Inr p' \<longrightarrow> profile_ok p') \<and> (profile_ok p' \<longrightarrow> profile_Validate p' = Inr p') \<and>
   (profile_ok p' \<and> length (pr_Prefer p') \<le> 62 \<longrightarrow> profile_Validate (WithLanguageDefault d p') = Inr (WithLanguageDefault d p')) \<and>
   list_all profile_ok Defaults"
proof (intro conjI impI)
  show "list_all profile_ok Defaults"
    using default_names default_rules by (auto simp: list_all_iff profile_ok_def)
qed (auto intro: profile_Validate_sound profile_Validate_complete language_default_ok)

definition ex_profile :: Profile where
  "ex_profile = \<lparr>pr_ID = [], pr_Name = '' tv '', pr_Description = [], pr_ContentTypes = [],
     pr_Accept = [rule '' Source'' ''NIN'' (Texts [''CAM'']) 0], pr_Prefer = [], pr_Terminal = []\<rparr>"

theorem profile_validation_witness:
  "\<exists>p'. profile_Validate ex_profile = Inr p' \<and> profile_ok p' \<and> pr_Name p' = ''tv'' \<and>
     profile_Validate (WithLanguageDefault \<lparr>ld_Prefer = ''en'', ld_Weight = 50, ld_Foreign = [''fr''], ld_Penalty = 100\<rparr> p') =
       Inr (WithLanguageDefault \<lparr>ld_Prefer = ''en'', ld_Weight = 50, ld_Foreign = [''fr''], ld_Penalty = 100\<rparr> p')"
proof -
  let ?p = "\<lparr>pr_ID = [], pr_Name = ''tv'', pr_Description = [], pr_ContentTypes = [],
     pr_Accept = [rule AttrSource OpNotIn (Texts [''CAM'']) 0], pr_Prefer = [], pr_Terminal = []\<rparr>"
  have n: "normaliseText '' Source'' = AttrSource" "normaliseText ''NIN'' = OpNotIn" "TrimSpace '' tv '' = ''tv''"
    by (simp_all add: normaliseText_def ToLower_def TrimSpace_def is_space_def lower_char_def less_eq_char_def char_of_def bit_Suc_0_iff attr_defs op_defs)
  have "TrimSpace [] = []" by (simp add: TrimSpace_def)
  then have v: "profile_Validate ex_profile = Inr ?p"
    using n vocabulary_kinds vocabulary_not_region not_opAllowed_Nil [of KindText]
    by (auto simp: profile_Validate_def ex_profile_def validate_section_def maxRules_def validateRule_def rule_def Let_def IsSet_def
        isSetValue_def opAllowed_def Texts_def zero_Value_def)
  then show ?thesis
    using profile_validation [of ex_profile ?p "\<lparr>ld_Prefer = ''en'', ld_Weight = 50, ld_Foreign = [''fr''], ld_Penalty = 100\<rparr>"]
    by auto
qed

end
