(* ===== verification/Acquisition.thy ===== *)
theory Acquisition
  imports Policy
begin

text \<open>
  \<^verbatim>\<open>internal/domain/acquisition\<close>: the evaluation of release candidates (\<^verbatim>\<open>candidate.go\<close>), the match gates
  before it (\<^verbatim>\<open>match.go\<close>), content satisfaction (\<^verbatim>\<open>satisfaction.go\<close>) and the upgrade decision
  (\<^verbatim>\<open>upgrade.go\<close>). All of it is pure. Scores are \<^verbatim>\<open>int\<close> sums and wrap; a candidate's source, a credential
  the evaluator only carries, is a string.
\<close>

section \<open>Candidates and evaluations\<close>

type_synonym Attributes = "Attribute \<rightharpoonup> Value"

record ReleaseCandidate =
  rc_ID :: string
  rc_Title :: string
  rc_Provider :: string
  rc_Attributes :: Attributes
  rc_Source :: string

datatype Result = ResultPass | ResultFail | ResultBonus | ResultPenalty | ResultMiss | ResultUndetermined

record Reason =
  rs_Rule :: string
  rs_Section :: string
  rs_Result :: Result
  rs_Score :: int
  rs_Detail :: string

record Evaluation =
  ev_CandidateID :: string
  ev_Accepted :: bool
  ev_Score :: int
  ev_Terminal :: bool
  ev_Reasons :: "Reason list"

fun section_name :: "Section \<Rightarrow> string" where
  "section_name SectionAccept = ''accept''"
| "section_name SectionPrefer = ''prefer''"
| "section_name SectionTerminal = ''terminal''"

definition SectionMatch :: string where "SectionMatch = ''match''"

definition eval_Reason :: "string \<Rightarrow> Evaluation \<Rightarrow> Reason option" where
  "eval_Reason r e = find (\<lambda>x. rs_Rule x = r) (ev_Reasons e)"

definition RejectedBy :: "Evaluation \<Rightarrow> Reason list" where
  "RejectedBy e =
     filter (\<lambda>r. rs_Result r = ResultFail \<and> (rs_Section r = section_name SectionAccept \<or> rs_Section r = SectionMatch)) (ev_Reasons e)"

definition ruleID :: "Rule \<Rightarrow> string" where
  "ruleID r = ru_Attribute r @ ''.'' @ ru_Op r"

definition inSet :: "string list \<Rightarrow> string \<Rightarrow> bool" where
  "inSet s v \<longleftrightarrow> v \<in> set s"

definition overlaps :: "string list \<Rightarrow> string list \<Rightarrow> bool" where
  "overlaps a b \<longleftrightarrow> list_ex (inSet b) a"

definition equalValues :: "Value \<Rightarrow> Value \<Rightarrow> bool" where
  "equalValues a b =
     (case v_Kind a of
        KindInt \<Rightarrow> v_Num a = v_Num b
      | KindFlag \<Rightarrow> v_Flag a = v_Flag b
      | KindText \<Rightarrow> v_Text a = v_Text b
      | KindNone \<Rightarrow> False)"

text \<open>A nil list of names is an empty one to \<open>inSet\<close> and \<open>overlaps\<close>.\<close>

definition texts :: "Value \<Rightarrow> string list" where
  "texts v = (case v_Texts v of None \<Rightarrow> [] | Some ss \<Rightarrow> ss)"

definition holds :: "Value \<Rightarrow> Rule \<Rightarrow> bool" where
  "holds actual r =
     (let want = ru_Value r; op = ru_Op r in
      if v_Kind actual \<noteq> v_Kind want then False
      else if v_Texts actual \<noteq> None then
        (if op = OpEq then inSet (texts actual) (v_Text want)
         else if op = OpNeq then \<not> inSet (texts actual) (v_Text want)
         else if op = OpIn then overlaps (texts actual) (texts want)
         else if op = OpNotIn then \<not> overlaps (texts actual) (texts want)
         else False)
      else if op = OpEq then equalValues actual want
      else if op = OpNeq then \<not> equalValues actual want
      else if op = OpGTE then v_Num actual \<ge> v_Num want
      else if op = OpLTE then v_Num actual \<le> v_Num want
      else if op = OpIn then inSet (texts want) (v_Text actual)
      else if op = OpNotIn then \<not> inSet (texts want) (v_Text actual)
      else False)"

definition opProse :: "Op \<Rightarrow> string" where
  "opProse op =
     (if op = OpEq then ''equal to'' else if op = OpNeq then ''different from'' else if op = OpGTE then ''at least''
      else if op = OpLTE then ''at most'' else if op = OpIn then ''one of'' else if op = OpNotIn then ''outside'' else op)"

definition describe :: "Rule \<Rightarrow> Value \<Rightarrow> bool \<Rightarrow> string" where
  "describe r actual held =
     ru_Attribute r @ '' '' @ value_String actual @ (if v_Derived actual then '' (read from the release name)'' else [])
     @ '', which '' @ (if held then ''is'' else ''is not'') @ '' '' @ opProse (ru_Op r) @ '' '' @ value_String (ru_Value r)"

definition reason :: "Rule \<Rightarrow> Section \<Rightarrow> Result \<Rightarrow> int \<Rightarrow> string \<Rightarrow> Reason" where
  "reason r sec res sc detail =
     \<lparr>rs_Rule = ruleID r, rs_Section = section_name sec, rs_Result = res, rs_Score = sc, rs_Detail = detail\<rparr>"

text \<open>One turn of the loop of \<open>Evaluate\<close>.\<close>

definition evaluate_rule :: "Attributes \<Rightarrow> SectionRule \<Rightarrow> Evaluation \<Rightarrow> Evaluation" where
  "evaluate_rule attrs sr e =
     (let (sec, r) = sr in
      case attrs (ru_Attribute r) of
        None \<Rightarrow>
          (case sec of
             SectionAccept \<Rightarrow>
               e\<lparr>ev_Accepted := False,
                 ev_Reasons := ev_Reasons e @ [reason r sec ResultUndetermined 0
                   (''the provider could not determine '' @ ru_Attribute r @ '', so this gate cannot be shown to hold'')]\<rparr>
           | SectionTerminal \<Rightarrow>
               e\<lparr>ev_Reasons := ev_Reasons e @ [reason r sec ResultUndetermined 0
                   (''the provider could not determine '' @ ru_Attribute r @ '', so this cannot be treated as fully satisfying'')]\<rparr>
           | SectionPrefer \<Rightarrow>
               e\<lparr>ev_Reasons := ev_Reasons e @ [reason r sec ResultUndetermined 0 (''the provider could not determine '' @ ru_Attribute r)]\<rparr>)
      | Some actual \<Rightarrow>
          (let held = holds actual r in
           case sec of
             SectionAccept \<Rightarrow>
               if held then e\<lparr>ev_Reasons := ev_Reasons e @ [reason r sec ResultPass 0 (describe r actual True)]\<rparr>
               else e\<lparr>ev_Accepted := False, ev_Reasons := ev_Reasons e @ [reason r sec ResultFail 0 (describe r actual False)]\<rparr>
           | SectionPrefer \<Rightarrow>
               if \<not> held then e\<lparr>ev_Reasons := ev_Reasons e @ [reason r sec ResultMiss 0 (describe r actual False)]\<rparr>
               else e\<lparr>ev_Score := wrap64 (ev_Score e + ru_Weight r),
                      ev_Reasons := ev_Reasons e @ [reason r sec (if ru_Weight r < 0 then ResultPenalty else ResultBonus)
                        (ru_Weight r) (describe r actual True)]\<rparr>
           | SectionTerminal \<Rightarrow>
               e\<lparr>ev_Reasons := ev_Reasons e @ [reason r sec (if held then ResultPass else ResultMiss) 0 (describe r actual held)]\<rparr>))"

definition allTerminalRulesHeld :: "Evaluation \<Rightarrow> bool" where
  "allTerminalRulesHeld e =
     (let ts = filter (\<lambda>r. rs_Section r = section_name SectionTerminal) (ev_Reasons e) in
      ts \<noteq> [] \<and> list_all (\<lambda>r. rs_Result r = ResultPass) ts)"

definition Evaluate :: "ReleaseCandidate \<Rightarrow> Profile \<Rightarrow> Evaluation" where
  "Evaluate c p =
     (let e = fold (evaluate_rule (rc_Attributes c)) (Rules p)
                \<lparr>ev_CandidateID = rc_ID c, ev_Accepted = True, ev_Score = 0, ev_Terminal = False, ev_Reasons = []\<rparr>;
          e1 = e\<lparr>ev_Terminal := HasTerminal p \<and> allTerminalRulesHeld e\<rparr>
      in if \<not> ev_Accepted e1 then e1\<lparr>ev_Terminal := False\<rparr> else e1)"

section \<open>Ranking\<close>

type_synonym Ranked = "ReleaseCandidate \<times> Evaluation"

definition ranked_less :: "Ranked \<Rightarrow> Ranked \<Rightarrow> bool" where
  "ranked_less a b =
     (if ev_Accepted (snd a) \<noteq> ev_Accepted (snd b) then ev_Accepted (snd a)
      else if ev_Score (snd a) \<noteq> ev_Score (snd b) then ev_Score (snd a) > ev_Score (snd b)
      else rc_ID (fst a) < rc_ID (fst b))"

definition SortRanked :: "Ranked list \<Rightarrow> Ranked list" where
  "SortRanked = SliceStable ranked_less"

definition EvaluateAll :: "ReleaseCandidate list \<Rightarrow> Profile \<Rightarrow> Ranked list" where
  "EvaluateAll candidates p = SortRanked (map (\<lambda>c. (c, Evaluate c p)) candidates)"

definition Best :: "Ranked list \<Rightarrow> Ranked option" where
  "Best ranked = find (\<lambda>r. ev_Accepted (snd r)) ranked"

section \<open>Match gates\<close>

definition match_reason :: "string \<Rightarrow> Result \<Rightarrow> string \<Rightarrow> Reason" where
  "match_reason r res detail = \<lparr>rs_Rule = r, rs_Section = SectionMatch, rs_Result = res, rs_Score = 0, rs_Detail = detail\<rparr>"

definition joinEpisodes :: "int list \<Rightarrow> string" where
  "joinEpisodes es = Join '', '' (map FormatInt es)"

definition GateEpisode :: "int \<Rightarrow> int \<Rightarrow> bool \<Rightarrow> int \<Rightarrow> int list \<Rightarrow> Reason \<times> bool" where
  "GateEpisode wantSeason wantEpisode determined relSeason relEpisodes =
     (let want = ''S'' @ Format02 wantSeason @ ''E'' @ Format02 wantEpisode in
      if \<not> determined then
        (match_reason ''season.undetermined'' ResultUndetermined
           (''the release name does not spell out a season or episode, so it cannot be shown to contain '' @ want), False)
      else if relSeason \<noteq> wantSeason then
        (match_reason ''season.contains'' ResultFail
           (''the release is season '' @ FormatInt relSeason @ '' (read from the release name), which cannot contain '' @ want), False)
      else if relEpisodes = [] then
        (match_reason ''season.contains'' ResultPass
           (''the release is a season '' @ FormatInt relSeason @ '' pack (read from the release name), which contains '' @ want), True)
      else if wantEpisode \<in> set relEpisodes then
        (match_reason ''episode.contains'' ResultPass
           (''the release is '' @ want @ '' (read from the release name), the wanted episode''), True)
      else
        (match_reason ''episode.contains'' ResultFail
           (''the release is season '' @ FormatInt relSeason @ '' episode '' @ joinEpisodes relEpisodes
            @ '' (read from the release name), which is not '' @ want), False))"

definition GatePlatform :: "string \<Rightarrow> bool \<Rightarrow> string \<Rightarrow> string list \<Rightarrow> Reason \<times> bool" where
  "GatePlatform want determined relPlatform spelled =
     (if \<not> determined then
        (match_reason ''platform.undetermined'' ResultUndetermined
           (if length spelled > 1
            then ''the release name spells out '' @ Join '', '' spelled @ '' (read from the release name), so it cannot be shown to be for '' @ want @ '' alone''
            else ''the release name does not spell out a platform, so it cannot be shown to be for '' @ want), False)
      else if relPlatform \<noteq> want then
        (match_reason ''platform.matches'' ResultFail
           (''the release is for '' @ relPlatform @ '' (read from the release name), not '' @ want), False)
      else
        (match_reason ''platform.matches'' ResultPass
           (''the release is for '' @ want @ '' (read from the release name), the wanted platform''), True))"

definition RejectedByMatch :: "ReleaseCandidate \<Rightarrow> Reason \<Rightarrow> Ranked" where
  "RejectedByMatch c r = (c, \<lparr>ev_CandidateID = rc_ID c, ev_Accepted = False, ev_Score = 0, ev_Terminal = False, ev_Reasons = [r]\<rparr>)"

section \<open>Satisfaction\<close>

datatype Satisfaction = SatisfactionUnknown | SatisfactionNot | SatisfactionConverging | SatisfactionSatisfied | SatisfactionNotApplicable

record AssetView =
  as_ID :: string
  as_SourceClass :: string
  as_BlobHash :: string
  as_Attributes :: Attributes

definition Linked :: "AssetView \<Rightarrow> bool" where
  "Linked a \<longleftrightarrow> as_SourceClass a = ''linked'' \<or> as_BlobHash a = []"

record ContentVerdict =
  cv_Satisfaction :: Satisfaction
  cv_SatisfiedBy :: string
  cv_Evaluations :: "(string \<times> Evaluation) list"

definition asset_candidate :: "AssetView \<Rightarrow> ReleaseCandidate" where
  "asset_candidate a = \<lparr>rc_ID = as_ID a, rc_Title = [], rc_Provider = [], rc_Attributes = as_Attributes a, rc_Source = []\<rparr>"

definition EvaluateContent :: "AssetView list \<Rightarrow> Profile \<Rightarrow> ContentVerdict" where
  "EvaluateContent assets p =
     (if assets = [] then \<lparr>cv_Satisfaction = SatisfactionNot, cv_SatisfiedBy = [], cv_Evaluations = []\<rparr>
      else
        (let ranked = EvaluateAll (map asset_candidate assets) p;
             evals = map (\<lambda>r. (rc_ID (fst r), snd r)) ranked
         in case Best ranked of
              Some best \<Rightarrow> \<lparr>cv_Satisfaction = SatisfactionSatisfied, cv_SatisfiedBy = rc_ID (fst best), cv_Evaluations = evals\<rparr>
            | None \<Rightarrow> \<lparr>cv_Satisfaction = SatisfactionNot, cv_SatisfiedBy = [], cv_Evaluations = evals\<rparr>))"

section \<open>Upgrades\<close>

datatype UpgradeStatus = UpgradeAvailable | UpgradeNotMonitored | UpgradeTerminal | UpgradeNotSatisfied | UpgradeNoBetterCandidate

record Incumbent =
  in_AssetID :: string
  in_Evaluation :: Evaluation

record UpgradeVerdict =
  uv_Status :: UpgradeStatus
  uv_Detail :: string
  uv_Candidate :: "Ranked option"
  uv_Improvement :: int

record UpgradeRequest =
  ur_Monitor :: bool
  ur_Incumbent :: Incumbent
  ur_Satisfied :: bool
  ur_Candidates :: "ReleaseCandidate list"
  ur_Profile :: Profile

definition no_upgrade :: "UpgradeStatus \<Rightarrow> string \<Rightarrow> UpgradeVerdict" where
  "no_upgrade st detail = \<lparr>uv_Status = st, uv_Detail = detail, uv_Candidate = None, uv_Improvement = 0\<rparr>"

definition ConsiderUpgrade :: "UpgradeRequest \<Rightarrow> UpgradeVerdict" where
  "ConsiderUpgrade req =
     (let incumbentScore = ev_Score (in_Evaluation (ur_Incumbent req)) in
      if \<not> ur_Monitor req then
        no_upgrade UpgradeNotMonitored ''this want is not monitored, so it is finished once it is satisfied''
      else if \<not> ur_Satisfied req \<or> in_AssetID (ur_Incumbent req) = [] then
        no_upgrade UpgradeNotSatisfied ''nothing acceptable is held, so this is an acquisition rather than an upgrade''
      else if ev_Terminal (in_Evaluation (ur_Incumbent req)) then
        no_upgrade UpgradeTerminal ''what is held already meets every terminal condition, so there is nothing left to want''
      else case Best (EvaluateAll (ur_Candidates req) (ur_Profile req)) of
        None \<Rightarrow> no_upgrade UpgradeNoBetterCandidate (''no candidate is acceptable; what is held scores '' @ FormatInt incumbentScore)
      | Some best \<Rightarrow>
          (let sc = ev_Score (snd best) in
           if sc \<le> incumbentScore then
             no_upgrade UpgradeNoBetterCandidate
               (''the best candidate scores '' @ FormatInt sc @ '', which '' @ (if sc < incumbentScore then ''is worse than'' else ''matches'')
                @ '' what is held ('' @ FormatInt incumbentScore @ '')'')
           else \<lparr>uv_Status = UpgradeAvailable,
                  uv_Detail = ''a candidate scores '' @ FormatInt sc @ '' against the '' @ FormatInt incumbentScore @ '' that is held'',
                  uv_Candidate = Some best, uv_Improvement = wrap64 (sc - incumbentScore)\<rparr>))"

definition incumbentAssetID :: "bool \<Rightarrow> Evaluation \<Rightarrow> string" where
  "incumbentAssetID satisfied e = (if \<not> satisfied then [] else if ev_CandidateID e \<noteq> [] then ev_CandidateID e else ''unknown'')"

text \<open>The zero profile, which \<open>UpgradableVerdict\<close> leaves in the request.\<close>

definition zero_Profile :: Profile where
  "zero_Profile = \<lparr>pr_ID = [], pr_Name = [], pr_Description = [], pr_ContentTypes = [], pr_Accept = [], pr_Prefer = [], pr_Terminal = []\<rparr>"

definition UpgradableVerdict :: "bool \<Rightarrow> bool \<Rightarrow> Evaluation \<Rightarrow> UpgradeVerdict" where
  "UpgradableVerdict monitor satisfied e =
     ConsiderUpgrade \<lparr>ur_Monitor = monitor, ur_Incumbent = \<lparr>in_AssetID = incumbentAssetID satisfied e, in_Evaluation = e\<rparr>,
       ur_Satisfied = satisfied, ur_Candidates = [], ur_Profile = zero_Profile\<rparr>"

definition Eligible :: "bool \<Rightarrow> bool \<Rightarrow> Evaluation \<Rightarrow> bool" where
  "Eligible monitor satisfied e \<longleftrightarrow>
     uv_Status (UpgradableVerdict monitor satisfied e) \<in> {UpgradeNoBetterCandidate, UpgradeAvailable}"

definition BestOver :: "Ranked list \<Rightarrow> Incumbent \<Rightarrow> Ranked option" where
  "BestOver ranked inc =
     (case Best ranked of
        None \<Rightarrow> None
      | Some best \<Rightarrow>
          if in_AssetID inc = [] then Some best
          else if ev_Terminal (in_Evaluation inc) then None
          else if ev_Score (snd best) \<le> ev_Score (in_Evaluation inc) then None
          else Some best)"

end
