(* ===== verification/AcqProps.thy ===== *)
theory AcqProps
  imports Acquisition
begin

text \<open>
  What the evaluation of release candidates promises: the verdict, score and reasons of one candidate, the
  order of a set of them, and that the upgrade workflow settles.
\<close>

section \<open>One candidate\<close>

definition rule_held :: "Attributes \<Rightarrow> Rule \<Rightarrow> bool" where
  "rule_held attrs r = (case attrs (ru_Attribute r) of None \<Rightarrow> False | Some v \<Rightarrow> holds v r)"

definition determined :: "Attributes \<Rightarrow> Rule \<Rightarrow> bool" where
  "determined attrs r \<longleftrightarrow> attrs (ru_Attribute r) \<noteq> None"

definition result_for :: "Attributes \<Rightarrow> SectionRule \<Rightarrow> Result" where
  "result_for attrs sr =
     (if \<not> determined attrs (snd sr) then ResultUndetermined
      else if rule_held attrs (snd sr)
      then (if fst sr = SectionPrefer then (if ru_Weight (snd sr) < 0 then ResultPenalty else ResultBonus) else ResultPass)
      else (if fst sr = SectionAccept then ResultFail else ResultMiss))"

definition reason_for :: "Attributes \<Rightarrow> SectionRule \<Rightarrow> Reason" where
  "reason_for attrs sr = last (ev_Reasons (evaluate_rule attrs sr
     \<lparr>ev_CandidateID = [], ev_Accepted = True, ev_Score = 0, ev_Terminal = False, ev_Reasons = []\<rparr>))"

lemma evaluate_rule_eq:
  "evaluate_rule attrs sr e =
     e\<lparr>ev_Accepted := ev_Accepted e \<and> (fst sr = SectionAccept \<longrightarrow> rule_held attrs (snd sr)),
       ev_Score := (if fst sr = SectionPrefer \<and> rule_held attrs (snd sr) then wrap64 (ev_Score e + ru_Weight (snd sr)) else ev_Score e),
       ev_Reasons := ev_Reasons e @ [reason_for attrs sr]\<rparr>"
  by (cases sr; cases "fst sr"; cases "attrs (ru_Attribute (snd sr))")
    (auto simp: evaluate_rule_def reason_for_def rule_held_def Let_def)

lemma reason_for_fields:
  "rs_Rule (reason_for attrs sr) = ruleID (snd sr)" "rs_Section (reason_for attrs sr) = section_name (fst sr)"
  "rs_Result (reason_for attrs sr) = result_for attrs sr"
  by (cases sr; cases "fst sr"; cases "attrs (ru_Attribute (snd sr))";
      auto simp: evaluate_rule_def reason_for_def rule_held_def result_for_def determined_def reason_def Let_def)+

lemma evaluate_fold:
  "ev_Accepted (fold (evaluate_rule attrs) srs e) \<longleftrightarrow>
     ev_Accepted e \<and> (\<forall>sr\<in>set srs. fst sr = SectionAccept \<longrightarrow> rule_held attrs (snd sr))"
  "ev_Reasons (fold (evaluate_rule attrs) srs e) = ev_Reasons e @ map (reason_for attrs) srs"
  "ev_CandidateID (fold (evaluate_rule attrs) srs e) = ev_CandidateID e"
  "ev_Score (fold (evaluate_rule attrs) srs e) =
     fold (\<lambda>sr s. if fst sr = SectionPrefer \<and> rule_held attrs (snd sr) then wrap64 (s + ru_Weight (snd sr)) else s) srs (ev_Score e)"
  by (induction srs arbitrary: e) (auto simp: evaluate_rule_eq)

definition prefer_score :: "Attributes \<Rightarrow> Profile \<Rightarrow> int" where
  "prefer_score attrs p = sum_list (map ru_Weight (filter (rule_held attrs) (pr_Prefer p)))"

definition weight_bound :: "Profile \<Rightarrow> int" where
  "weight_bound p = sum_list (map (\<lambda>r. \<bar>ru_Weight r\<bar>) (pr_Prefer p))"

lemma score_fold_prefer:
  assumes "\<bar>s\<bar> + sum_list (map (\<lambda>r. \<bar>ru_Weight r\<bar>) rs) < 2 ^ 63"
  shows "fold (\<lambda>sr s. if fst sr = SectionPrefer \<and> rule_held attrs (snd sr) then wrap64 (s + ru_Weight (snd sr)) else s)
    (map (Pair SectionPrefer) rs) s = s + sum_list (map ru_Weight (filter (rule_held attrs) rs))"
  using assms
proof (induction rs arbitrary: s)
  case (Cons r rs)
  have nn: "0 \<le> sum_list (map (\<lambda>r. \<bar>ru_Weight r\<bar>) rs)" by (induction rs) auto
  then have "int64_range (s + ru_Weight r)" using Cons.prems unfolding int64_range_def by (simp, linarith)
  moreover have "\<bar>s + ru_Weight r\<bar> + sum_list (map (\<lambda>r. \<bar>ru_Weight r\<bar>) rs) < 2 ^ 63" using Cons.prems by simp
  ultimately show ?case using Cons.IH [of s] Cons.IH [of "s + ru_Weight r"] Cons.prems by (auto simp: wrap64_id)
qed simp

lemma score_fold_other:
  "sec \<noteq> SectionPrefer \<Longrightarrow>
   fold (\<lambda>sr s. if fst sr = SectionPrefer \<and> rule_held attrs (snd sr) then wrap64 (s + ru_Weight (snd sr)) else s) (map (Pair sec) rs) s = s"
  by (induction rs arbitrary: s) auto

lemma Evaluate_fields:
  fixes c p
  defines "e \<equiv> Evaluate c p"
  shows "ev_Accepted e \<longleftrightarrow> (\<forall>r\<in>set (pr_Accept p). rule_held (rc_Attributes c) r)"
    and "ev_Reasons e = map (reason_for (rc_Attributes c)) (Rules p)"
    and "ev_CandidateID e = rc_ID c"
    and "weight_bound p < 2 ^ 63 \<Longrightarrow> ev_Score e = prefer_score (rc_Attributes c) p"
    and "ev_Terminal e \<longleftrightarrow> ev_Accepted e \<and> pr_Terminal p \<noteq> [] \<and> (\<forall>r\<in>set (pr_Terminal p). rule_held (rc_Attributes c) r)"
proof -
  let ?a = "rc_Attributes c"
  let ?e = "fold (evaluate_rule ?a) (Rules p) \<lparr>ev_CandidateID = rc_ID c, ev_Accepted = True, ev_Score = 0, ev_Terminal = False, ev_Reasons = []\<rparr>"
  have e: "ev_Accepted e = ev_Accepted ?e" "ev_Reasons e = ev_Reasons ?e" "ev_CandidateID e = ev_CandidateID ?e" "ev_Score e = ev_Score ?e"
    "ev_Terminal e \<longleftrightarrow> ev_Accepted ?e \<and> HasTerminal p \<and> allTerminalRulesHeld ?e"
    by (simp_all add: e_def Evaluate_def Let_def)
  show "ev_Accepted e \<longleftrightarrow> (\<forall>r\<in>set (pr_Accept p). rule_held ?a r)"
    unfolding e evaluate_fold by (force simp: Rules_def)
  show r: "ev_Reasons e = map (reason_for ?a) (Rules p)" unfolding e evaluate_fold by simp
  show "ev_CandidateID e = rc_ID c" unfolding e evaluate_fold by simp
  show "ev_Score e = prefer_score ?a p" if "weight_bound p < 2 ^ 63"
    unfolding e evaluate_fold using that score_fold_prefer [of 0 "pr_Prefer p" ?a]
    by (simp add: Rules_def score_fold_other prefer_score_def weight_bound_def)
  have t: "filter (\<lambda>r. rs_Section r = section_name SectionTerminal) (ev_Reasons ?e) = map (reason_for ?a \<circ> Pair SectionTerminal) (pr_Terminal p)"
    unfolding evaluate_fold Rules_def by (simp add: filter_map comp_def reason_for_fields)
  have res: "result_for ?a (SectionTerminal, r) = ResultPass \<longleftrightarrow> rule_held ?a r" for r
    by (auto simp: result_for_def determined_def rule_held_def split: option.splits)
  show "ev_Terminal e \<longleftrightarrow> ev_Accepted e \<and> pr_Terminal p \<noteq> [] \<and> (\<forall>r\<in>set (pr_Terminal p). rule_held ?a r)"
    unfolding e allTerminalRulesHeld_def Let_def t HasTerminal_def
    by (auto simp: list_all_iff reason_for_fields res)
qed

text \<open>The evaluation of a candidate. It is accepted just when every gate is determined and holds; it scores
  the sum of the weights of the preferences that hold (as long as the weights cannot overflow an
  \<^verbatim>\<open>int\<close>); it is terminal just when it is accepted and the profile has stop conditions that all hold.
  There is one reason per rule, in the order of the profile, with the rule's outcome; a gate is
  reported as rejecting just when its attribute was determined and it failed. Only the
  attributes of the candidate matter.\<close>

theorem candidate_evaluation:
  assumes "weight_bound p < 2 ^ 63"
  shows "(ev_Accepted (Evaluate c p) \<longleftrightarrow> (\<forall>r\<in>set (pr_Accept p). rule_held (rc_Attributes c) r)) \<and>
    ev_Score (Evaluate c p) = prefer_score (rc_Attributes c) p \<and>
    (ev_Terminal (Evaluate c p) \<longleftrightarrow> ev_Accepted (Evaluate c p) \<and> pr_Terminal p \<noteq> [] \<and> (\<forall>r\<in>set (pr_Terminal p). rule_held (rc_Attributes c) r)) \<and>
    map rs_Rule (ev_Reasons (Evaluate c p)) = map (ruleID \<circ> snd) (Rules p) \<and>
    map rs_Result (ev_Reasons (Evaluate c p)) = map (result_for (rc_Attributes c)) (Rules p) \<and>
    map rs_Rule (RejectedBy (Evaluate c p)) =
      map ruleID (filter (\<lambda>r. determined (rc_Attributes c) r \<and> \<not> rule_held (rc_Attributes c) r) (pr_Accept p))"
proof -
  let ?a = "rc_Attributes c"
  have fail: "result_for ?a sr = ResultFail \<longleftrightarrow> fst sr = SectionAccept \<and> determined ?a (snd sr) \<and> \<not> rule_held ?a (snd sr)" for sr
    by (auto simp: result_for_def)
  have name: "section_name sec = ''accept'' \<longleftrightarrow> sec = SectionAccept" "section_name sec \<noteq> SectionMatch" for sec
    by (cases sec; simp add: SectionMatch_def)+
  have "map rs_Rule (RejectedBy (Evaluate c p)) =
      map ruleID (filter (\<lambda>r. determined ?a r \<and> \<not> rule_held ?a r) (pr_Accept p))"
    unfolding RejectedBy_def Evaluate_fields(2) Rules_def
    by (simp add: filter_map comp_def reason_for_fields fail name)
  then show ?thesis
    using Evaluate_fields(1) [of c p] Evaluate_fields(4) [OF assms, of c] Evaluate_fields(5) [of c p] Evaluate_fields(2) [of c p]
    by (simp add: comp_def reason_for_fields)
qed

definition ex_release :: "string \<Rightarrow> int \<Rightarrow> ReleaseCandidate" where
  "ex_release i n = \<lparr>rc_ID = i, rc_Title = [], rc_Provider = [],
     rc_Attributes = [AttrResolution \<mapsto> Num n], rc_Source = []\<rparr>"

definition ex_want :: Profile where
  "ex_want = \<lparr>pr_ID = [], pr_Name = ''w'', pr_Description = [], pr_ContentTypes = [],
     pr_Accept = [rule AttrResolution OpGTE (Num 720) 0], pr_Prefer = [rule AttrResolution OpGTE (Num 1080) 20, rule AttrHDR OpEq (Flag True) 5],
     pr_Terminal = [rule AttrResolution OpGTE (Num 2160) 0]\<rparr>"

lemma ex_want_held: "rule_held (rc_Attributes (ex_release i n)) (rule AttrResolution OpGTE (Num m) w) \<longleftrightarrow> m \<le> n"
  "\<not> determined (rc_Attributes (ex_release i n)) (rule AttrHDR op v w)"
  "rule_held (rc_Attributes (ex_release i n)) (rule AttrHDR op v w) \<longleftrightarrow> False"
  by (auto simp: rule_held_def determined_def ex_release_def rule_def holds_def Num_def zero_Value_def Let_def attr_defs)

lemma rule_weight: "ru_Weight (rule a op v w) = w"
  by (simp add: rule_def)

theorem candidate_evaluation_witness:
  "ev_Accepted (Evaluate (ex_release ''a'' 1080) ex_want) \<and> ev_Score (Evaluate (ex_release ''a'' 1080) ex_want) = 20 \<and>
   \<not> ev_Terminal (Evaluate (ex_release ''a'' 1080) ex_want) \<and> \<not> ev_Accepted (Evaluate (ex_release ''b'' 480) ex_want)"
proof -
  have w: "weight_bound ex_want < 2 ^ 63" by (simp add: weight_bound_def ex_want_def rule_def)
  from candidate_evaluation [OF w, of "ex_release ''a'' 1080"] candidate_evaluation [OF w, of "ex_release ''b'' 480"]
  show ?thesis by (simp add: ex_want_def prefer_score_def ex_want_held rule_weight)
qed

section \<open>The order\<close>

definition rank_key :: "Ranked \<Rightarrow> bool \<times> int \<times> string" where
  "rank_key r = (\<not> ev_Accepted (snd r), - ev_Score (snd r), rc_ID (fst r))"

lemma ranked_less_key: "ranked_less a b \<longleftrightarrow> rank_key a < rank_key b"
  by (auto simp: ranked_less_def rank_key_def less_prod_def)

interpretation rank_order: preference ranked_less rank_key
  by unfold_locales (rule ranked_less_key)

lemma SortRanked_key: "SortRanked xs = sort_key rank_key xs"
  unfolding SortRanked_def by (rule rank_order.sorted)

lemma Best_sorted:
  assumes "Best (sort_key rank_key xs) = Some r"
  shows "r \<in> set xs \<and> ev_Accepted (snd r) \<and> (\<forall>r'\<in>set xs. ev_Accepted (snd r') \<longrightarrow> rank_key r \<le> rank_key r')"
  using rank_order.first_satisfying assms unfolding Best_def .

lemma Best_sorted_None: "Best (sort_key rank_key xs) = None \<longleftrightarrow> (\<forall>r\<in>set xs. \<not> ev_Accepted (snd r))"
  unfolding Best_def find_None_iff set_sort by blast

text \<open>Ranking is a total order, whatever order the candidates arrive in. If the candidates have
  different IDs, the ranked list depends only on which candidates there are; the best one is accepted
  and no other accepted one scores more, or as much with a smaller ID; there is none just when
  no candidate is accepted.\<close>

theorem ranking_total:
  assumes "distinct (map rc_ID cs)"
  shows "(mset cs' = mset cs \<longrightarrow> EvaluateAll cs' p = EvaluateAll cs p) \<and>
    (Best (EvaluateAll cs p) = Some (c, e) \<longrightarrow> c \<in> set cs \<and> e = Evaluate c p \<and> ev_Accepted e \<and>
       (\<forall>c'\<in>set cs. ev_Accepted (Evaluate c' p) \<longrightarrow>
          ev_Score (Evaluate c' p) < ev_Score e \<or> ev_Score (Evaluate c' p) = ev_Score e \<and> rc_ID c \<le> rc_ID c')) \<and>
    (Best (EvaluateAll cs p) = None \<longleftrightarrow> (\<forall>c'\<in>set cs. \<not> ev_Accepted (Evaluate c' p)))"
proof (intro conjI impI)
  let ?f = "\<lambda>c. (c, Evaluate c p)"
  show "EvaluateAll cs' p = EvaluateAll cs p" if "mset cs' = mset cs"
    unfolding EvaluateAll_def SortRanked_key
  proof (rule rank_order.any_order)
    show "mset (map ?f cs') = mset (map ?f cs)" using that by simp
    have "inj_on rc_ID (set cs')" using assms that by (metis distinct_map set_mset_mset)
    then show "inj_on rank_key (set (map ?f cs'))" by (auto simp: inj_on_def rank_key_def)
  qed
  assume "Best (EvaluateAll cs p) = Some (c, e)"
  from Best_sorted [OF this [unfolded EvaluateAll_def SortRanked_key]]
  have "(c, e) \<in> ?f ` set cs" and acc: "ev_Accepted e"
    and le: "\<forall>r'\<in>?f ` set cs. ev_Accepted (snd r') \<longrightarrow> rank_key (c, e) \<le> rank_key r'" by auto
  then show "c \<in> set cs" "e = Evaluate c p" "ev_Accepted e" by auto
  show "\<forall>c'\<in>set cs. ev_Accepted (Evaluate c' p) \<longrightarrow>
      ev_Score (Evaluate c' p) < ev_Score e \<or> ev_Score (Evaluate c' p) = ev_Score e \<and> rc_ID c \<le> rc_ID c'"
    using le acc by (fastforce simp: rank_key_def less_eq_prod_def)
next
  show "Best (EvaluateAll cs p) = None \<longleftrightarrow> (\<forall>c'\<in>set cs. \<not> ev_Accepted (Evaluate c' p))"
    unfolding EvaluateAll_def SortRanked_key Best_sorted_None by simp
qed

theorem ranking_total_witness:
  "EvaluateAll [ex_release ''b'' 1080, ex_release ''c'' 480, ex_release ''a'' 1080] ex_want =
   EvaluateAll [ex_release ''a'' 1080, ex_release ''b'' 1080, ex_release ''c'' 480] ex_want \<and>
   Best (EvaluateAll [ex_release ''a'' 1080, ex_release ''b'' 1080, ex_release ''c'' 480] ex_want) \<noteq> None"
proof -
  have "distinct (map rc_ID [ex_release ''a'' 1080, ex_release ''b'' 1080, ex_release ''c'' 480])" by (simp add: ex_release_def)
  from ranking_total [OF this, of "[ex_release ''b'' 1080, ex_release ''c'' 480, ex_release ''a'' 1080]" ex_want]
  show ?thesis by (simp add: Evaluate_fields(1) ex_want_def ex_want_held add_mset_commute)
qed

section \<open>Upgrades\<close>

lemma Evaluate_attributes:
  assumes "rc_Attributes c = rc_Attributes c'"
  shows "ev_Accepted (Evaluate c p) = ev_Accepted (Evaluate c' p)" and "ev_Score (Evaluate c p) = ev_Score (Evaluate c' p)"
    and "ev_Terminal (Evaluate c p) = ev_Terminal (Evaluate c' p)"
proof -
  show a: "ev_Accepted (Evaluate c p) = ev_Accepted (Evaluate c' p)" by (simp add: Evaluate_fields(1) assms)
  show "ev_Terminal (Evaluate c p) = ev_Terminal (Evaluate c' p)" by (simp add: Evaluate_fields(5) a assms)
  show "ev_Score (Evaluate c p) = ev_Score (Evaluate c' p)"
    by (simp add: Evaluate_def Let_def evaluate_fold(4) assms)
qed

lemma Best_EvaluateAll:
  assumes "Best (EvaluateAll cs p) = Some r"
  obtains c where "r = (c, Evaluate c p)" and "c \<in> set cs" and "ev_Accepted (Evaluate c p)"
    and "\<And>c'. c' \<in> set cs \<Longrightarrow> ev_Accepted (Evaluate c' p) \<Longrightarrow> ev_Score (Evaluate c' p) \<le> ev_Score (Evaluate c p)"
proof -
  note b = Best_sorted [OF assms [unfolded EvaluateAll_def SortRanked_key]]
  then obtain c where c: "r = (c, Evaluate c p)" "c \<in> set cs" "ev_Accepted (Evaluate c p)" by auto
  moreover have "ev_Score (Evaluate c' p) \<le> ev_Score (Evaluate c p)" if "c' \<in> set cs" "ev_Accepted (Evaluate c' p)" for c'
    using b that c by (force simp: rank_key_def less_eq_prod_def)
  ultimately show thesis using that by blast
qed

lemma BestOver_Some:
  assumes "BestOver ranked inc = Some r"
  shows "Best ranked = Some r" and "in_AssetID inc \<noteq> [] \<Longrightarrow> \<not> ev_Terminal (in_Evaluation inc) \<and> ev_Score (in_Evaluation inc) < ev_Score (snd r)"
  using assms by (auto simp: BestOver_def split: option.splits if_splits)

text \<open>C14: the upgrade workflow settles. What it selects over something held is strictly better by the one
  scorer, and never replaces something terminal. Once the selected release is among the held
  assets, with the attributes it was offered with, the content is satisfied by an asset that scores at
  least as much, and the same releases on offer select nothing more: neither the search nor the upgrade
  scan replaces it again.\<close>

theorem upgrade_settles:
  assumes "BestOver (EvaluateAll cs p) inc = Some (c, e)"
    and "a \<in> set assets" and "as_Attributes a = rc_Attributes c" and "\<forall>x\<in>set assets. as_ID x \<noteq> []"
  shows "(in_AssetID inc \<noteq> [] \<longrightarrow> \<not> ev_Terminal (in_Evaluation inc) \<and> ev_Score (in_Evaluation inc) < ev_Score e) \<and>
    (\<exists>i eb. cv_Satisfaction (EvaluateContent assets p) = SatisfactionSatisfied \<and> cv_SatisfiedBy (EvaluateContent assets p) = i \<and>
       (i, eb) \<in> set (cv_Evaluations (EvaluateContent assets p)) \<and> ev_Score e \<le> ev_Score eb \<and>
       BestOver (EvaluateAll cs p) \<lparr>in_AssetID = i, in_Evaluation = eb\<rparr> = None \<and>
       uv_Status (ConsiderUpgrade \<lparr>ur_Monitor = m, ur_Incumbent = \<lparr>in_AssetID = i, in_Evaluation = eb\<rparr>, ur_Satisfied = True,
         ur_Candidates = cs, ur_Profile = p\<rparr>) \<noteq> UpgradeAvailable)"
proof -
  note b = BestOver_Some [OF assms(1)]
  obtain c0 where "(c, e) = (c0, Evaluate c0 p)" "ev_Accepted (Evaluate c0 p)" by (rule Best_EvaluateAll [OF b(1)]) blast
  then have c: "e = Evaluate c p" "ev_Accepted e" by auto
  let ?as = "EvaluateAll (map asset_candidate assets) p"
  have same: "ev_Accepted (Evaluate (asset_candidate a) p)" "ev_Score (Evaluate (asset_candidate a) p) = ev_Score e"
    using Evaluate_attributes [of "asset_candidate a" c p] assms(3) c by (auto simp: asset_candidate_def)
  have "Best ?as \<noteq> None"
    unfolding EvaluateAll_def SortRanked_key Best_sorted_None using assms(2) same(1) by auto
  then obtain r where r: "Best ?as = Some r" by blast
  from r obtain x where x: "r = (x, Evaluate x p)" "x \<in> set (map asset_candidate assets)"
    and ge: "\<And>c'. c' \<in> set (map asset_candidate assets) \<Longrightarrow> ev_Accepted (Evaluate c' p) \<Longrightarrow> ev_Score (Evaluate c' p) \<le> ev_Score (Evaluate x p)"
    by (rule Best_EvaluateAll) blast
  have score: "ev_Score e \<le> ev_Score (Evaluate x p)" using ge [of "asset_candidate a"] assms(2) same by simp
  have id: "rc_ID x \<noteq> []" using x(2) assms(4) by (auto simp: asset_candidate_def)
  have "r \<in> set ?as" using r by (auto simp: Best_def find_Some_iff in_set_conv_nth)
  then have mem: "(rc_ID x, Evaluate x p) \<in> set (map (\<lambda>r. (rc_ID (fst r), snd r)) ?as)" using x(1) by force
  have v: "cv_Satisfaction (EvaluateContent assets p) = SatisfactionSatisfied" "cv_SatisfiedBy (EvaluateContent assets p) = rc_ID x"
    "(rc_ID x, Evaluate x p) \<in> set (cv_Evaluations (EvaluateContent assets p))"
    using assms(2) r x(1) mem by (auto simp: EvaluateContent_def Let_def)
  have "BestOver (EvaluateAll cs p) \<lparr>in_AssetID = rc_ID x, in_Evaluation = Evaluate x p\<rparr> = None"
    using b(1) score id by (simp add: BestOver_def)
  moreover have "uv_Status (ConsiderUpgrade \<lparr>ur_Monitor = m, ur_Incumbent = \<lparr>in_AssetID = rc_ID x, in_Evaluation = Evaluate x p\<rparr>,
      ur_Satisfied = True, ur_Candidates = cs, ur_Profile = p\<rparr>) \<noteq> UpgradeAvailable"
    using b(1) score id by (simp add: ConsiderUpgrade_def no_upgrade_def Let_def)
  ultimately show ?thesis using b(2) v score by auto
qed

theorem upgrade_settles_witness:
  "\<exists>c e i. BestOver (EvaluateAll [ex_release ''x'' 1080] ex_want) \<lparr>in_AssetID = ''held'', in_Evaluation = Evaluate (ex_release ''held'' 720) ex_want\<rparr> = Some (c, e) \<and>
     cv_SatisfiedBy (EvaluateContent [\<lparr>as_ID = ''new'', as_SourceClass = ''managed'', as_BlobHash = ''h'', as_Attributes = rc_Attributes c\<rparr>] ex_want) = i \<and>
     cv_Satisfaction (EvaluateContent [\<lparr>as_ID = ''new'', as_SourceClass = ''managed'', as_BlobHash = ''h'', as_Attributes = rc_Attributes c\<rparr>] ex_want) = SatisfactionSatisfied"
proof -
  let ?x = "ex_release ''x'' 1080" and ?h = "ex_release ''held'' 720"
  have w: "weight_bound ex_want < 2 ^ 63" by (simp add: weight_bound_def ex_want_def rule_def)
  have s: "ev_Score (Evaluate ?x ex_want) = 20" "ev_Score (Evaluate ?h ex_want) = 0" "ev_Accepted (Evaluate ?x ex_want)" "\<not> ev_Terminal (Evaluate ?h ex_want)"
    using Evaluate_fields(4) [OF w] by (simp_all add: Evaluate_fields(1,5) ex_want_def prefer_score_def ex_want_held rule_weight)
  then have b: "BestOver (EvaluateAll [?x] ex_want) \<lparr>in_AssetID = ''held'', in_Evaluation = Evaluate ?h ex_want\<rparr> = Some (?x, Evaluate ?x ex_want)"
    by (simp add: BestOver_def Best_def EvaluateAll_def SortRanked_def SliceStable_def)
  let ?a = "\<lparr>as_ID = ''new'', as_SourceClass = ''managed'', as_BlobHash = ''h'', as_Attributes = rc_Attributes ?x\<rparr>"
  have "?a \<in> set [?a]" "as_Attributes ?a = rc_Attributes ?x" "\<forall>x\<in>set [?a]. as_ID x \<noteq> []" by simp_all
  from upgrade_settles [OF b this, of True] b show ?thesis by blast
qed

end
