(* ===== verification/AcqState.thy ===== *)
theory AcqState
  imports Acquisition
begin

unbundle bit_operations_syntax

text \<open>
  \<^verbatim>\<open>internal/domain/acquisition\<close>: the acquisition pipeline (\<^verbatim>\<open>state.go\<close>, \<^verbatim>\<open>transitions.go\<close>), placement and
  completeness (\<^verbatim>\<open>satisfaction.go\<close>), the search schedule (\<^verbatim>\<open>schedule.go\<close>, \<^verbatim>\<open>route.go\<close>) and what a store package
  needs of them (\<^verbatim>\<open>store.go\<close>). Phases, transitions and satisfactions are the constants of the string types;
  \<open>phase_name\<close> is the string. Durations are \<^verbatim>\<open>int64\<close> nanoseconds and wrap; times are integers.
\<close>

section \<open>Phases and states\<close>

datatype Phase = PhaseIdle | PhaseSearching | PhaseCandidatesFound | PhaseSelected | PhaseQueued | PhaseDownloading
  | PhaseVerifying | PhaseIngesting

fun phase_name :: "Phase \<Rightarrow> string" where
  "phase_name PhaseIdle = ''idle''"
| "phase_name PhaseSearching = ''searching''"
| "phase_name PhaseCandidatesFound = ''candidates_found''"
| "phase_name PhaseSelected = ''selected''"
| "phase_name PhaseQueued = ''queued''"
| "phase_name PhaseDownloading = ''downloading''"
| "phase_name PhaseVerifying = ''verifying''"
| "phase_name PhaseIngesting = ''ingesting''"

definition Phases :: "Phase list" where
  "Phases = [PhaseIdle, PhaseSearching, PhaseCandidatesFound, PhaseSelected, PhaseQueued, PhaseDownloading, PhaseVerifying, PhaseIngesting]"

definition ParsePhase :: "string \<Rightarrow> Phase option" where
  "ParsePhase s = find (\<lambda>p. phase_name p = s) Phases"

definition InFlight :: "Phase \<Rightarrow> bool" where
  "InFlight p \<longleftrightarrow> p \<noteq> PhaseIdle"

definition contentValues :: "Satisfaction list" where
  "contentValues = [SatisfactionUnknown, SatisfactionNot, SatisfactionSatisfied]"

definition placementValues :: "Satisfaction list" where
  "placementValues = [SatisfactionUnknown, SatisfactionNot, SatisfactionConverging, SatisfactionSatisfied, SatisfactionNotApplicable]"

definition valid :: "Satisfaction list \<Rightarrow> Satisfaction \<Rightarrow> bool" where
  "valid vs v \<longleftrightarrow> v \<in> set vs"

record State =
  st_Phase :: Phase
  st_Managed :: bool
  st_Content :: Satisfaction
  st_Placement :: Satisfaction

definition Initial :: State where
  "Initial = \<lparr>st_Phase = PhaseIdle, st_Managed = False, st_Content = SatisfactionUnknown, st_Placement = SatisfactionUnknown\<rparr>"

datatype Transition = TransitionSearch | TransitionCandidatesFound | TransitionNoCandidates | TransitionSelect | TransitionRejectAll
  | TransitionQueue | TransitionStartDownload | TransitionDownloaded | TransitionVerified | TransitionIngested | TransitionAdopt
  | TransitionFail | TransitionCancel | TransitionLost

datatype impossible = NotAPhase | NotAContentValue Satisfaction | NotAPlacementValue Satisfaction | SatisfiedUnmanaged
  | PlacedUnsatisfied Satisfaction Satisfaction

datatype acq_error = ErrIllegalTransition Phase Transition | ErrImpossibleState impossible

definition state_Validate :: "State \<Rightarrow> impossible option" where
  "state_Validate s =
     (if ParsePhase (phase_name (st_Phase s)) = None then Some NotAPhase
      else if \<not> valid contentValues (st_Content s) then Some (NotAContentValue (st_Content s))
      else if \<not> valid placementValues (st_Placement s) then Some (NotAPlacementValue (st_Placement s))
      else if st_Content s = SatisfactionSatisfied \<and> \<not> st_Managed s then Some SatisfiedUnmanaged
      else if (st_Placement s = SatisfactionSatisfied \<or> st_Placement s = SatisfactionConverging) \<and> st_Content s \<noteq> SatisfactionSatisfied
      then Some (PlacedUnsatisfied (st_Placement s) (st_Content s))
      else None)"

text \<open>\<^verbatim>\<open>upper\<close> on the name of a phase.\<close>

definition upper :: "string \<Rightarrow> string" where
  "upper s = map (\<lambda>c. if CHR ''a'' \<le> c \<and> c \<le> CHR ''z'' then char_of ((of_char c :: nat) - 32) else c) s"

definition state_Name :: "State \<Rightarrow> string" where
  "state_Name s =
     (if st_Phase s \<noteq> PhaseIdle then upper (phase_name (st_Phase s))
      else if \<not> st_Managed s then ''MISSING''
      else if st_Content s \<noteq> SatisfactionSatisfied then ''AVAILABLE''
      else case st_Placement s of
        SatisfactionSatisfied \<Rightarrow> ''FULLY_SATISFIED''
      | SatisfactionConverging \<Rightarrow> ''PLACEMENT_CONVERGING''
      | SatisfactionNotApplicable \<Rightarrow> ''CONTENT_SATISFIED''
      | _ \<Rightarrow> ''CONTENT_SATISFIED'')"

section \<open>Transitions\<close>

fun table :: "Phase \<Rightarrow> (Transition \<times> Phase) list" where
  "table PhaseIdle = [(TransitionSearch, PhaseSearching), (TransitionAdopt, PhaseVerifying), (TransitionLost, PhaseIdle)]"
| "table PhaseSearching = [(TransitionCandidatesFound, PhaseCandidatesFound), (TransitionNoCandidates, PhaseIdle),
     (TransitionFail, PhaseIdle), (TransitionCancel, PhaseIdle)]"
| "table PhaseCandidatesFound = [(TransitionSelect, PhaseSelected), (TransitionRejectAll, PhaseIdle),
     (TransitionFail, PhaseIdle), (TransitionCancel, PhaseIdle)]"
| "table PhaseSelected = [(TransitionQueue, PhaseQueued), (TransitionFail, PhaseIdle), (TransitionCancel, PhaseIdle)]"
| "table PhaseQueued = [(TransitionStartDownload, PhaseDownloading), (TransitionFail, PhaseIdle), (TransitionCancel, PhaseIdle)]"
| "table PhaseDownloading = [(TransitionDownloaded, PhaseVerifying), (TransitionFail, PhaseIdle), (TransitionCancel, PhaseIdle)]"
| "table PhaseVerifying = [(TransitionVerified, PhaseIngesting), (TransitionFail, PhaseIdle), (TransitionCancel, PhaseIdle)]"
| "table PhaseIngesting = [(TransitionIngested, PhaseIdle), (TransitionFail, PhaseIdle), (TransitionCancel, PhaseIdle)]"

definition Advance :: "Phase \<Rightarrow> Transition \<Rightarrow> acq_error + Phase" where
  "Advance from t = (case map_of (table from) t of None \<Rightarrow> Inl (ErrIllegalTransition from t) | Some to \<Rightarrow> Inr to)"

definition checked :: "State \<Rightarrow> acq_error + State" where
  "checked out = (case state_Validate out of Some e \<Rightarrow> Inl (ErrImpossibleState e) | None \<Rightarrow> Inr out)"

definition state_Apply :: "Transition \<Rightarrow> State \<Rightarrow> acq_error + State" where
  "state_Apply t s =
     (case Advance (st_Phase s) t of
        Inl e \<Rightarrow> Inl e
      | Inr next \<Rightarrow>
          (let out = s\<lparr>st_Phase := next\<rparr>;
               out' = (case t of
                         TransitionLost \<Rightarrow> out\<lparr>st_Managed := False, st_Content := SatisfactionNot, st_Placement := SatisfactionNot\<rparr>
                       | TransitionIngested \<Rightarrow> out\<lparr>st_Managed := True, st_Content := SatisfactionUnknown, st_Placement := SatisfactionUnknown\<rparr>
                       | _ \<Rightarrow> out)
           in checked out'))"

definition WithContent :: "Satisfaction \<Rightarrow> State \<Rightarrow> acq_error + State" where
  "WithContent v s =
     (let out = s\<lparr>st_Content := v\<rparr>;
          out' = (if v \<noteq> SatisfactionSatisfied
                  then (if st_Placement out \<noteq> SatisfactionUnknown then out\<lparr>st_Placement := SatisfactionUnknown\<rparr> else out) else out)
      in checked out')"

definition WithPlacement :: "Satisfaction \<Rightarrow> State \<Rightarrow> acq_error + State" where
  "WithPlacement v s = checked (s\<lparr>st_Placement := v\<rparr>)"

section \<open>Placement and completeness\<close>

record PeerReplica =
  re_PeerID :: string
  re_Present :: bool

record PlacementVerdict =
  pv_Satisfaction :: Satisfaction
  pv_Missing :: "string list"
  pv_Detail :: string

definition EvaluatePlacement :: "string \<Rightarrow> string list \<Rightarrow> PeerReplica list \<Rightarrow> PlacementVerdict" where
  "EvaluatePlacement blobHash required replicas =
     (if blobHash = [] then
        \<lparr>pv_Satisfaction = SatisfactionNotApplicable, pv_Missing = [],
         pv_Detail = ''the satisfying asset is linked and has no blob (ADR-0020), so there is nothing to replicate''\<rparr>
      else if required = [] then
        \<lparr>pv_Satisfaction = SatisfactionNot, pv_Missing = [], pv_Detail = ''no Full Peer is required to hold this, which cannot be right''\<rparr>
      else
        (let present = map re_PeerID (filter re_Present replicas);
             missing = sort (filter (\<lambda>peer. peer \<notin> set present) required);
             n = FormatInt (int (length required)); k = FormatInt (int (length required) - int (length missing))
         in if length missing = 0 then
              \<lparr>pv_Satisfaction = SatisfactionSatisfied, pv_Missing = [],
               pv_Detail = ''every required peer holds verified bytes ('' @ n @ '' of '' @ n @ '')''\<rparr>
            else if length missing = length required then
              \<lparr>pv_Satisfaction = SatisfactionNot, pv_Missing = missing, pv_Detail = ''no required peer holds verified bytes''\<rparr>
            else
              \<lparr>pv_Satisfaction = SatisfactionConverging, pv_Missing = missing,
               pv_Detail = k @ '' of '' @ n @ '' required peers hold verified bytes''\<rparr>))"

record CompletenessVerdict =
  co_Satisfaction :: Satisfaction
  co_Missing :: "string list"
  co_Detail :: string

type_synonym ItemVerdict = "string \<times> Satisfaction"

definition EvaluateCompleteness :: "ItemVerdict list \<Rightarrow> CompletenessVerdict" where
  "EvaluateCompleteness items =
     (if items = [] then
        \<lparr>co_Satisfaction = SatisfactionUnknown, co_Missing = [], co_Detail = ''no items have been enumerated for this source yet''\<rparr>
      else
        (let missing = sort (map fst (filter (\<lambda>it. snd it \<noteq> SatisfactionSatisfied) items));
             n = FormatInt (int (length items)); k = FormatInt (int (length items) - int (length missing))
         in if length missing = 0 then
              \<lparr>co_Satisfaction = SatisfactionSatisfied, co_Missing = [],
               co_Detail = ''every enumerated item is held ('' @ n @ '' of '' @ n @ '')''\<rparr>
            else
              \<lparr>co_Satisfaction = SatisfactionNot, co_Missing = missing, co_Detail = k @ '' of '' @ n @ '' enumerated items are held''\<rparr>))"

fun placement_rank :: "Satisfaction \<Rightarrow> nat" where
  "placement_rank SatisfactionNot = 0"
| "placement_rank SatisfactionUnknown = 1"
| "placement_rank SatisfactionConverging = 2"
| "placement_rank SatisfactionNotApplicable = 3"
| "placement_rank SatisfactionSatisfied = 3"

text \<open>The loop of \<open>EvaluatePackagePlacement\<close>: the worst verdict so far and the number of files placed.\<close>

definition package_step :: "string list \<Rightarrow> (string \<Rightarrow> PeerReplica list) \<Rightarrow> nat \<times> string \<Rightarrow> PlacementVerdict \<times> nat \<Rightarrow> PlacementVerdict \<times> nat" where
  "package_step required replicasOf ib st =
     (let (i, blob) = ib; (worst, placed) = st; v = EvaluatePlacement blob required (replicasOf blob);
          placed' = (if pv_Satisfaction v = SatisfactionSatisfied then placed + 1 else placed)
      in if i = 0 \<or> placement_rank (pv_Satisfaction v) < placement_rank (pv_Satisfaction worst) then (v, placed') else (worst, placed'))"

definition EvaluatePackagePlacement :: "string list \<Rightarrow> string list \<Rightarrow> (string \<Rightarrow> PeerReplica list) \<Rightarrow> PlacementVerdict" where
  "EvaluatePackagePlacement blobs required replicasOf =
     (if blobs = [] then \<lparr>pv_Satisfaction = SatisfactionUnknown, pv_Missing = [], pv_Detail = ''the package lists no files''\<rparr>
      else
        (let (worst, placed) = fold (package_step required replicasOf) (enumerate 0 blobs)
               (\<lparr>pv_Satisfaction = SatisfactionSatisfied, pv_Missing = [], pv_Detail = []\<rparr>, 0)
         in if pv_Satisfaction worst = SatisfactionSatisfied
            then worst\<lparr>pv_Detail := ''every required peer holds every file of the package ('' @ FormatInt (int (length blobs)) @ '' files)''\<rparr>
            else worst\<lparr>pv_Detail := FormatInt (int placed) @ '' of '' @ FormatInt (int (length blobs)) @ '' package files fully placed; worst: ''
                   @ pv_Detail worst\<rparr>))"

definition Unmet :: "(string \<times> int) list \<Rightarrow> (string \<rightharpoonup> int) \<Rightarrow> string list" where
  "Unmet files held =
     (if files = [] then [''the manifest names no files'']
      else concat (map (\<lambda>(name, sz).
             case held name of
               None \<Rightarrow> [name @ '' is missing'']
             | Some n \<Rightarrow> if sz > 0 \<and> n \<noteq> sz then [name @ '' is '' @ FormatInt n @ '' bytes, the store vouched for '' @ FormatInt sz] else []) files))"

section \<open>Schedules\<close>

datatype Route = RouteSearch | RouteDirect | RouteStore | RouteOther string

definition Searchable :: "Route \<Rightarrow> bool" where
  "Searchable r \<longleftrightarrow> r \<noteq> RouteDirect \<and> r \<noteq> RouteStore"

record Schedule =
  sc_Name :: string
  sc_Base :: int
  sc_Max :: int

definition Hour :: int where "Hour = 3600000000000"

definition MissingSearches :: Schedule where "MissingSearches = \<lparr>sc_Name = ''missing'', sc_Base = Hour, sc_Max = 24 * Hour\<rparr>"
definition UpgradeSearches :: Schedule where "UpgradeSearches = \<lparr>sc_Name = ''upgrade'', sc_Base = 24 * Hour, sc_Max = 14 * 24 * Hour\<rparr>"
definition StoreFetches :: Schedule where "StoreFetches = \<lparr>sc_Name = ''store-fetch'', sc_Base = 6 * Hour, sc_Max = 7 * 24 * Hour\<rparr>"

definition Schedules :: "Schedule list" where "Schedules = [MissingSearches, UpgradeSearches]"

definition ScheduleFor :: "State \<Rightarrow> bool \<Rightarrow> Route \<Rightarrow> Schedule option" where
  "ScheduleFor s monitored route =
     (if \<not> Searchable route then None
      else if InFlight (st_Phase s) then None
      else if st_Content s \<noteq> SatisfactionSatisfied then Some MissingSearches
      else if \<not> monitored then None
      else Some UpgradeSearches)"

definition maxDoublings :: int where "maxDoublings = 20"

definition Delay :: "Schedule \<Rightarrow> int \<Rightarrow> int" where
  "Delay s fruitless0 =
     (let fruitless = (if fruitless0 < 0 then 0 else fruitless0);
          d = wrap64 (sc_Base s * 2 ^ nat (min fruitless maxDoublings))
      in if d \<le> 0 \<or> d > sc_Max s then sc_Max s else d)"

text \<open>\<^verbatim>\<open>fnv.New64a\<close>.\<close>

definition fnv64a :: "string \<Rightarrow> u64" where
  "fnv64a s = fold (\<lambda>c h. (h XOR of_nat (of_char c)) * 1099511628211) s 14695981039346656037"

definition spread :: "string \<Rightarrow> int \<Rightarrow> int" where
  "spread key d =
     (if key = [] \<or> d \<le> 0 then 0
      else (let quarter = d div 4; bucket = int (unat (fnv64a key) mod 1024) in go_div (wrap64 (quarter * bucket)) 1024))"

definition NextAt :: "Schedule \<Rightarrow> int \<Rightarrow> int \<Rightarrow> string \<Rightarrow> int" where
  "NextAt s now fruitless spreadKey = (let d = Delay s fruitless in now + wrap64 (d + spread spreadKey d))"

section \<open>Reachable states\<close>

text \<open>What can happen to an acquisition: a pipeline event, or reconciliation recording an answer on one of
  the axes. A refused event leaves the state as it was.\<close>

datatype event = EApply Transition | EContent Satisfaction | EPlacement Satisfaction

fun acq_step :: "event \<Rightarrow> State \<Rightarrow> acq_error + State" where
  "acq_step (EApply t) s = state_Apply t s"
| "acq_step (EContent v) s = WithContent v s"
| "acq_step (EPlacement v) s = WithPlacement v s"

inductive reachable :: "State \<Rightarrow> bool" where
  init: "reachable Initial"
| step: "reachable s \<Longrightarrow> acq_step e s = Inr s' \<Longrightarrow> reachable s'"

inductive_cases reachable_cases: "reachable s"

lemma ParsePhase_name: "ParsePhase (phase_name p) = Some p"
  by (cases p) (simp_all add: ParsePhase_def Phases_def)

definition coherent :: "bool \<Rightarrow> Satisfaction \<Rightarrow> Satisfaction \<Rightarrow> bool" where
  "coherent managed c pl \<longleftrightarrow> c \<in> {SatisfactionUnknown, SatisfactionNot, SatisfactionSatisfied} \<and> (c = SatisfactionSatisfied \<longrightarrow> managed) \<and>
     (pl \<in> {SatisfactionSatisfied, SatisfactionConverging} \<longrightarrow> c = SatisfactionSatisfied)"

lemma state_Validate_iff: "state_Validate s = None \<longleftrightarrow> coherent (st_Managed s) (st_Content s) (st_Placement s)"
  by (cases "st_Placement s"; cases "st_Content s")
    (simp_all add: state_Validate_def coherent_def ParsePhase_name valid_def contentValues_def placementValues_def)

lemma checked_Inr: "checked s = Inr s' \<longleftrightarrow> s' = s \<and> state_Validate s = None"
  by (auto simp: checked_def split: option.splits)

lemma acq_step_valid: "acq_step e s = Inr s' \<Longrightarrow> state_Validate s' = None"
  by (cases e) (auto simp: state_Apply_def WithContent_def WithPlacement_def Let_def checked_Inr split: sum.splits)

lemma reachable_valid: "reachable s \<Longrightarrow> state_Validate s = None"
  by (induction rule: reachable.induct) (auto simp: acq_step_valid state_Validate_iff Initial_def coherent_def)

lemma state_Apply_valid:
  assumes "state_Validate s = None"
  shows "state_Apply t s =
    (case map_of (table (st_Phase s)) t of
       None \<Rightarrow> Inl (ErrIllegalTransition (st_Phase s) t)
     | Some next \<Rightarrow>
         Inr (if t = TransitionLost then s\<lparr>st_Phase := next, st_Managed := False, st_Content := SatisfactionNot, st_Placement := SatisfactionNot\<rparr>
              else if t = TransitionIngested
              then s\<lparr>st_Phase := next, st_Managed := True, st_Content := SatisfactionUnknown, st_Placement := SatisfactionUnknown\<rparr>
              else s\<lparr>st_Phase := next\<rparr>))"
proof (cases "map_of (table (st_Phase s)) t")
  case (Some to)
  have "checked (s\<lparr>st_Phase := to\<rparr>) = Inr (s\<lparr>st_Phase := to\<rparr>)"
    using assms by (simp add: checked_Inr state_Validate_iff)
  moreover have "checked (s\<lparr>st_Phase := to, st_Managed := m, st_Content := v, st_Placement := v\<rparr>) =
      Inr (s\<lparr>st_Phase := to, st_Managed := m, st_Content := v, st_Placement := v\<rparr>)"
    if "v = SatisfactionNot \<or> v = SatisfactionUnknown" for m v
    using that by (auto simp: checked_Inr state_Validate_iff coherent_def)
  ultimately show ?thesis using Some by (cases t) (simp_all add: state_Apply_def Advance_def Let_def)
qed (simp add: state_Apply_def Advance_def)

lemma reachable_apply:
  assumes "reachable s" and "map_of (table (st_Phase s)) t = Some next" and "t \<noteq> TransitionLost" and "t \<noteq> TransitionIngested"
  shows "reachable (s\<lparr>st_Phase := next\<rparr>)"
  using reachable.step [OF assms(1), of "EApply t"] state_Apply_valid [OF reachable_valid [OF assms(1)], of t] assms(2-4) by simp

lemma reachable_phases:
  assumes "reachable s" and "st_Phase s = PhaseIdle"
  shows "reachable (s\<lparr>st_Phase := p\<rparr>)"
proof -
  have 1: "reachable (s\<lparr>st_Phase := PhaseSearching\<rparr>)" using reachable_apply [OF assms(1), of TransitionSearch] assms(2) by simp
  have 2: "reachable (s\<lparr>st_Phase := PhaseCandidatesFound\<rparr>)" using reachable_apply [OF 1, of TransitionCandidatesFound PhaseCandidatesFound] by simp
  have 3: "reachable (s\<lparr>st_Phase := PhaseSelected\<rparr>)" using reachable_apply [OF 2, of TransitionSelect PhaseSelected] by simp
  have 4: "reachable (s\<lparr>st_Phase := PhaseQueued\<rparr>)" using reachable_apply [OF 3, of TransitionQueue PhaseQueued] by simp
  have 5: "reachable (s\<lparr>st_Phase := PhaseDownloading\<rparr>)" using reachable_apply [OF 4, of TransitionStartDownload PhaseDownloading] by simp
  have 6: "reachable (s\<lparr>st_Phase := PhaseVerifying\<rparr>)" using reachable_apply [OF 5, of TransitionDownloaded PhaseVerifying] by simp
  have 7: "reachable (s\<lparr>st_Phase := PhaseIngesting\<rparr>)" using reachable_apply [OF 6, of TransitionVerified PhaseIngesting] by simp
  have "s\<lparr>st_Phase := PhaseIdle\<rparr> = s" using assms(2) by simp
  then show ?thesis using assms(1) 1 2 3 4 5 6 7 by (cases p) simp_all
qed

lemma reachable_managed:
  "reachable \<lparr>st_Phase = PhaseIdle, st_Managed = m, st_Content = SatisfactionUnknown, st_Placement = SatisfactionUnknown\<rparr>"
proof (cases m)
  case True
  have r: "reachable (Initial\<lparr>st_Phase := PhaseIngesting\<rparr>)"
    by (rule reachable_phases [OF reachable.init]) (simp add: Initial_def)
  have "state_Apply TransitionIngested (Initial\<lparr>st_Phase := PhaseIngesting\<rparr>) =
      Inr \<lparr>st_Phase = PhaseIdle, st_Managed = True, st_Content = SatisfactionUnknown, st_Placement = SatisfactionUnknown\<rparr>"
    using state_Apply_valid [OF reachable_valid [OF r], of TransitionIngested] by (simp add: Initial_def)
  then show ?thesis using reachable.step [OF r, of "EApply TransitionIngested"] True by simp
next
  case False
  then show ?thesis using reachable.init by (simp add: Initial_def)
qed

lemma valid_reachable:
  assumes "state_Validate s = None"
  shows "reachable s"
proof -
  let ?s0 = "\<lparr>st_Phase = PhaseIdle, st_Managed = st_Managed s, st_Content = SatisfactionUnknown, st_Placement = SatisfactionUnknown\<rparr>"
  have c: "coherent (st_Managed s) (st_Content s) (st_Placement s)" using assms by (simp add: state_Validate_iff)
  have "WithContent (st_Content s) ?s0 = Inr (?s0\<lparr>st_Content := st_Content s\<rparr>)"
    using c by (auto simp: WithContent_def Let_def checked_Inr state_Validate_iff coherent_def)
  then have r1: "reachable (?s0\<lparr>st_Content := st_Content s\<rparr>)"
    using reachable.step [OF reachable_managed, of "EContent (st_Content s)"] by simp
  have "WithPlacement (st_Placement s) (?s0\<lparr>st_Content := st_Content s\<rparr>) = Inr (?s0\<lparr>st_Content := st_Content s, st_Placement := st_Placement s\<rparr>)"
    using c by (auto simp: WithPlacement_def checked_Inr state_Validate_iff)
  then have "reachable (?s0\<lparr>st_Content := st_Content s, st_Placement := st_Placement s\<rparr>)"
    using reachable.step [OF r1, of "EPlacement (st_Placement s)"] by simp
  moreover have "?s0\<lparr>st_Content := st_Content s, st_Placement := st_Placement s\<rparr>\<lparr>st_Phase := st_Phase s\<rparr> = s" by simp
  ultimately show ?thesis using reachable_phases [of _ "st_Phase s"] by (metis State.select_convs(1) State.update_convs(3,4))
qed

lemma in_flight_exits:
  "InFlight p \<Longrightarrow> map_of (table p) TransitionCancel = Some PhaseIdle \<and> map_of (table p) TransitionFail = Some PhaseIdle"
  by (cases p) (simp_all add: InFlight_def)

lemma sort_Nil: "sort xs = [] \<longleftrightarrow> xs = []"
  by (metis length_0_conv length_sort)

text \<open>Placement is satisfied just when there is a blob, someone is required to hold it, and everyone
  required holds it.\<close>

lemma EvaluatePlacement_iff:
  "pv_Satisfaction (EvaluatePlacement blob required replicas) = SatisfactionSatisfied \<longleftrightarrow>
     blob \<noteq> [] \<and> required \<noteq> [] \<and> (\<forall>peer\<in>set required. \<exists>r\<in>set replicas. re_PeerID r = peer \<and> re_Present r)"
  "set (pv_Missing (EvaluatePlacement blob required replicas)) =
     (if blob = [] then {} else {peer \<in> set required. \<not> (\<exists>r\<in>set replicas. re_PeerID r = peer \<and> re_Present r)})"
proof -
  let ?missing = "filter (\<lambda>peer. peer \<notin> set (map re_PeerID (filter re_Present replicas))) required"
  have m: "?missing = [] \<longleftrightarrow> (\<forall>peer\<in>set required. \<exists>r\<in>set replicas. re_PeerID r = peer \<and> re_Present r)"
    by (auto simp: filter_empty_conv image_iff)
  have ms: "set ?missing = {peer \<in> set required. \<not> (\<exists>r\<in>set replicas. re_PeerID r = peer \<and> re_Present r)}" by auto
  show "pv_Satisfaction (EvaluatePlacement blob required replicas) = SatisfactionSatisfied \<longleftrightarrow>
     blob \<noteq> [] \<and> required \<noteq> [] \<and> (\<forall>peer\<in>set required. \<exists>r\<in>set replicas. re_PeerID r = peer \<and> re_Present r)"
    unfolding m [symmetric] by (simp add: EvaluatePlacement_def Let_def sort_Nil)
  show "set (pv_Missing (EvaluatePlacement blob required replicas)) =
     (if blob = [] then {} else {peer \<in> set required. \<not> (\<exists>r\<in>set replicas. re_PeerID r = peer \<and> re_Present r)})"
    unfolding ms [symmetric] by (auto simp: EvaluatePlacement_def Let_def sort_Nil filter_empty_conv)
qed

text \<open>A package is not satisfied only if all its files are: a file without a blob that does not come first is passed over.\<close>

lemma package_placement_passes_over_linked:
  "pv_Satisfaction (EvaluatePackagePlacement [''h'', []] [''p''] (\<lambda>_. [\<lparr>re_PeerID = ''p'', re_Present = True\<rparr>])) = SatisfactionSatisfied"
  "pv_Satisfaction (EvaluatePackagePlacement [[], ''h''] [''p''] (\<lambda>_. [\<lparr>re_PeerID = ''p'', re_Present = True\<rparr>])) = SatisfactionNotApplicable"
  by (simp_all add: EvaluatePackagePlacement_def package_step_def EvaluatePlacement_def Let_def)

lemma placement_recorded:
  assumes "reachable s" and "st_Content s = SatisfactionSatisfied"
  shows "WithPlacement v s = Inr (s\<lparr>st_Placement := v\<rparr>)"
  using reachable_valid [OF assms(1)] assms(2)
  by (cases v) (auto simp: WithPlacement_def checked_Inr state_Validate_iff coherent_def)

text \<open>C13: the acquisition machine. The states a want can reach are exactly the coherent ones: content is
  satisfied only by managed bytes, and bytes are placed only once content is satisfied. On each of
  them the only refusal of a pipeline event is that the table has no such edge; bytes come under management
  only by ingesting and are lost only by the loss event; whatever is in flight can be cancelled or
  fail, and then rests with everything it held unchanged. On a satisfied want every placement answer
  can be recorded, and a resting want is shown as fully satisfied just when the blob is on every peer that is required to hold it.\<close>

theorem acquisition_machine:
  "(reachable s \<longleftrightarrow> state_Validate s = None) \<and>
   (reachable s \<and> state_Apply t s = Inl e \<longrightarrow> e = ErrIllegalTransition (st_Phase s) t \<and> map_of (table (st_Phase s)) t = None) \<and>
   (reachable s \<and> acq_step ev s = Inr s' \<and> st_Managed s' \<noteq> st_Managed s \<longrightarrow>
      ev = EApply (if st_Managed s' then TransitionIngested else TransitionLost)) \<and>
   (reachable s \<and> InFlight (st_Phase s) \<longrightarrow>
      state_Apply TransitionCancel s = Inr (s\<lparr>st_Phase := PhaseIdle\<rparr>) \<and> state_Apply TransitionFail s = Inr (s\<lparr>st_Phase := PhaseIdle\<rparr>)) \<and>
   (reachable s \<and> st_Content s = SatisfactionSatisfied \<longrightarrow>
      (\<exists>s2. WithPlacement (pv_Satisfaction (EvaluatePlacement blob required replicas)) s = Inr s2 \<and>
        (st_Phase s = PhaseIdle \<longrightarrow> (state_Name s2 = ''FULLY_SATISFIED'' \<longleftrightarrow>
           blob \<noteq> [] \<and> required \<noteq> [] \<and> (\<forall>peer\<in>set required. \<exists>r\<in>set replicas. re_PeerID r = peer \<and> re_Present r)))))"
proof (intro conjI impI)
  show "reachable s \<longleftrightarrow> state_Validate s = None" using reachable_valid valid_reachable by blast
  show "e = ErrIllegalTransition (st_Phase s) t" "map_of (table (st_Phase s)) t = None" if "reachable s \<and> state_Apply t s = Inl e"
    using that state_Apply_valid [OF reachable_valid, of s t] by (auto split: option.splits)
  show "ev = EApply (if st_Managed s' then TransitionIngested else TransitionLost)"
    if "reachable s \<and> acq_step ev s = Inr s' \<and> st_Managed s' \<noteq> st_Managed s"
    using that state_Apply_valid [OF reachable_valid, of s]
    by (cases ev) (auto simp: WithContent_def WithPlacement_def checked_Inr Let_def split: option.splits if_splits)
  show "state_Apply TransitionCancel s = Inr (s\<lparr>st_Phase := PhaseIdle\<rparr>)" "state_Apply TransitionFail s = Inr (s\<lparr>st_Phase := PhaseIdle\<rparr>)"
    if "reachable s \<and> InFlight (st_Phase s)"
    using that state_Apply_valid [OF reachable_valid, of s] in_flight_exits [of "st_Phase s"] by simp_all
  let ?v = "pv_Satisfaction (EvaluatePlacement blob required replicas)"
  show "\<exists>s2. WithPlacement ?v s = Inr s2 \<and>
        (st_Phase s = PhaseIdle \<longrightarrow> (state_Name s2 = ''FULLY_SATISFIED'' \<longleftrightarrow>
           blob \<noteq> [] \<and> required \<noteq> [] \<and> (\<forall>peer\<in>set required. \<exists>r\<in>set replicas. re_PeerID r = peer \<and> re_Present r)))"
    if a: "reachable s \<and> st_Content s = SatisfactionSatisfied"
  proof -
    have m: "st_Managed s" using reachable_valid [of s] a by (simp add: state_Validate_iff coherent_def)
    have "state_Name (s\<lparr>st_Placement := v\<rparr>) = ''FULLY_SATISFIED'' \<longleftrightarrow> v = SatisfactionSatisfied" if "st_Phase s = PhaseIdle" for v
      using that a m by (cases v) (simp_all add: state_Name_def)
    then show ?thesis using placement_recorded [of s ?v] a EvaluatePlacement_iff(1) by simp
  qed
qed

text \<open>A monitored want whose upgrade search is running while its content satisfies.\<close>

theorem acquisition_machine_witness:
  "reachable \<lparr>st_Phase = PhaseSearching, st_Managed = True, st_Content = SatisfactionSatisfied, st_Placement = SatisfactionConverging\<rparr> \<and>
   state_Apply TransitionCancel \<lparr>st_Phase = PhaseSearching, st_Managed = True, st_Content = SatisfactionSatisfied, st_Placement = SatisfactionConverging\<rparr> =
     Inr \<lparr>st_Phase = PhaseIdle, st_Managed = True, st_Content = SatisfactionSatisfied, st_Placement = SatisfactionConverging\<rparr>"
proof -
  let ?s = "\<lparr>st_Phase = PhaseSearching, st_Managed = True, st_Content = SatisfactionSatisfied, st_Placement = SatisfactionConverging\<rparr>"
  have "state_Validate ?s = None" by (simp add: state_Validate_iff coherent_def)
  then have "reachable ?s" using acquisition_machine [of ?s] by blast
  then show ?thesis using acquisition_machine [of ?s] by (simp add: InFlight_def)
qed

section \<open>Cadence\<close>

lemma Delay_doublings:
  assumes "s \<in> {MissingSearches, UpgradeSearches, StoreFetches}" and "k \<le> 20"
  shows "(let d = wrap64 (sc_Base s * 2 ^ k) in if d \<le> 0 \<or> d > sc_Max s then sc_Max s else d) = min (sc_Base s * 2 ^ k) (sc_Max s)"
proof -
  have "\<forall>s\<in>set [MissingSearches, UpgradeSearches, StoreFetches]. list_all (\<lambda>k.
      (let d = wrap64 (sc_Base s * 2 ^ k) in if d \<le> 0 \<or> d > sc_Max s then sc_Max s else d) = min (sc_Base s * 2 ^ k) (sc_Max s)) [0..<21]"
    by code_simp
  moreover have "k \<in> set [0..<21]" using assms(2) by simp
  ultimately show ?thesis using assms(1) unfolding list_all_iff by auto
qed

lemma schedule_reaches_max:
  assumes "s \<in> {MissingSearches, UpgradeSearches, StoreFetches}" and "20 \<le> k"
  shows "sc_Max s \<le> sc_Base s * 2 ^ k" and "0 < sc_Base s" and "sc_Base s \<le> sc_Max s" and "sc_Max s \<le> 2000000000000000"
proof -
  have b: "sc_Max s \<le> sc_Base s * 2 ^ 20" "0 < sc_Base s" "sc_Base s \<le> sc_Max s" "sc_Max s \<le> 2000000000000000"
    using assms(1) by (auto simp: MissingSearches_def UpgradeSearches_def StoreFetches_def Hour_def)
  have "(2 :: int) ^ 20 \<le> 2 ^ k" using assms(2) by (intro power_increasing) auto
  then have "sc_Base s * 2 ^ 20 \<le> sc_Base s * 2 ^ k" using b(2) by (intro mult_left_mono) auto
  with b show "sc_Max s \<le> sc_Base s * 2 ^ k" "0 < sc_Base s" "sc_Base s \<le> sc_Max s" "sc_Max s \<le> 2000000000000000" by linarith+
qed

lemma Delay_eq:
  assumes "s \<in> {MissingSearches, UpgradeSearches, StoreFetches}"
  shows "Delay s n = min (sc_Base s * 2 ^ nat n) (sc_Max s)"
proof -
  let ?k = "nat (min (if n < 0 then 0 else n) maxDoublings)"
  have k: "?k \<le> 20" by (simp add: maxDoublings_def)
  have d: "Delay s n = min (sc_Base s * 2 ^ ?k) (sc_Max s)"
    using Delay_doublings [OF assms k] by (simp add: Delay_def Let_def)
  show ?thesis
  proof (cases "n \<le> 20")
    case True
    then have "?k = nat n" by (auto simp: maxDoublings_def)
    then show ?thesis using d by simp
  next
    case False
    then have "?k = 20" "20 \<le> nat n" by (auto simp: maxDoublings_def)
    then show ?thesis using d schedule_reaches_max(1) [OF assms, of 20] schedule_reaches_max(1) [OF assms, of "nat n"] by simp
  qed
qed

lemma spread_bounds:
  assumes "4 \<le> d" and "d \<le> 2000000000000000"
  shows "0 \<le> spread key d \<and> spread key d < d div 4"
proof (cases "key = []")
  case False
  let ?q = "d div 4" and ?b = "int (unat (fnv64a key) mod 1024)"
  have q: "0 < ?q" "?q \<le> 500000000000000" using assms by auto
  have b: "0 \<le> ?b" "?b \<le> 1023" by (auto simp: of_nat_mod)
  have "?q * ?b \<le> ?q * 1023" using q b by (intro mult_left_mono) auto
  moreover have "0 \<le> ?q * ?b" using q b by simp
  ultimately have "int64_range (?q * ?b)" and lt: "?q * ?b < ?q * 1024" using q unfolding int64_range_def by linarith+
  then have w: "wrap64 (?q * ?b) = ?q * ?b" by (simp only: wrap64_id)
  have "?q * ?b div 1024 < ?q" using lt by (simp add: div_less_iff_less_mult)
  moreover have "0 \<le> ?q * ?b div 1024" using \<open>0 \<le> ?q * ?b\<close> by (simp only: pos_imp_zdiv_nonneg_iff)
  ultimately show ?thesis using False assms w \<open>0 \<le> ?q * ?b\<close> by (simp add: spread_def Let_def go_div_def)
qed (use assms in \<open>simp add: spread_def\<close>)

text \<open>The cadence of the searches. On each of the three schedules the delay after a number of fruitless
  searches is the base doubled that many times, up to the ceiling, although the shifted duration
  itself overflows an \<^verbatim>\<open>int64\<close>; it never decreases, and the next search lies at least the delay
  and less than a quarter more ahead, so a want is never searched more often than the base and never
  abandoned. A want that is in flight, direct or from a store is not searched, nor one that is satisfied and
  not monitored.\<close>

theorem search_cadence:
  assumes "s \<in> {MissingSearches, UpgradeSearches, StoreFetches}"
  shows "Delay s n = min (sc_Base s * 2 ^ nat n) (sc_Max s) \<and>
    (n \<le> n' \<longrightarrow> Delay s n \<le> Delay s n') \<and>
    now + sc_Base s \<le> NextAt s now n key \<and> now + Delay s n \<le> NextAt s now n key \<and> NextAt s now n key < now + Delay s n + Delay s n div 4 \<and>
    (ScheduleFor st monitored route = None \<longleftrightarrow>
       \<not> Searchable route \<or> InFlight (st_Phase st) \<or> st_Content st = SatisfactionSatisfied \<and> \<not> monitored)"
proof -
  note m = schedule_reaches_max [OF assms order_refl]
  have le: "sc_Base s \<le> Delay s n" "Delay s n \<le> sc_Max s"
    using m mult_left_mono [of 1 "2 ^ nat n" "sc_Base s"] by (auto simp: Delay_eq [OF assms])
  have "Delay s n \<le> Delay s n'" if "n \<le> n'"
  proof -
    have "(2 :: int) ^ nat n \<le> 2 ^ nat n'" using that by (intro power_increasing) auto
    then have "sc_Base s * 2 ^ nat n \<le> sc_Base s * 2 ^ nat n'" using m by (intro mult_left_mono) auto
    then show ?thesis by (auto simp: Delay_eq [OF assms])
  qed
  moreover have b: "4 \<le> Delay s n" "Delay s n \<le> 2000000000000000"
    using le m assms by (auto simp: MissingSearches_def UpgradeSearches_def StoreFetches_def Hour_def)
  moreover have "NextAt s now n key = now + Delay s n + spread key (Delay s n)"
  proof -
    have "int64_range (Delay s n + spread key (Delay s n))"
      using b spread_bounds [OF b, of key] unfolding int64_range_def by auto
    then show ?thesis by (simp add: NextAt_def Let_def wrap64_id)
  qed
  ultimately show ?thesis
    using le spread_bounds [OF b, of key] by (auto simp: Delay_eq [OF assms, symmetric] ScheduleFor_def)
qed

theorem search_cadence_witness:
  "Delay UpgradeSearches 17 = 14 * 24 * Hour \<and> Delay MissingSearches 3 = 8 * Hour \<and> NextAt MissingSearches 0 3 ''w'' < 10 * Hour"
proof -
  have s: "UpgradeSearches \<in> {MissingSearches, UpgradeSearches, StoreFetches}" "MissingSearches \<in> {MissingSearches, UpgradeSearches, StoreFetches}"
    by simp_all
  have u: "Delay UpgradeSearches 17 = 14 * 24 * Hour" "Delay MissingSearches 3 = 8 * Hour"
    using search_cadence [OF s(1), of 17] search_cadence [OF s(2), of 3] by (simp_all add: UpgradeSearches_def MissingSearches_def Hour_def)
  moreover have "NextAt MissingSearches 0 3 ''w'' < 0 + 8 * Hour + 8 * Hour div 4"
    using search_cadence [OF s(2), of 3 _ 0 "''w''"] unfolding u(2) by blast
  ultimately show ?thesis by (simp add: Hour_def)
qed

end
