(* ===== verification/Routing.thy ===== *)
theory Routing
  imports GoStd Prelude
begin

text \<open>
  \<^verbatim>\<open>internal/domain/routing/routing.go\<close>: which peer a read is served from. A candidate passes an ordered list
  of eligibility rules; the eligible ones are ordered by a list of keys and the first one is selected;
  every other candidate is rejected with its reasons. The map from peers to reasons is a function into
  an option, overwritten as the code does.
\<close>

record RouteCandidate =
  cd_PeerID :: string
  cd_Name :: string
  cd_Site :: string
  cd_Endpoint :: string
  cd_IsSelf :: bool
  cd_SameSite :: bool
  cd_Reachable :: bool
  cd_HealthState :: string
  cd_ReplicaState :: string

definition statePresent :: string where "statePresent = ''present''"

definition RejectNoReplica :: string where "RejectNoReplica = ''no_replica''"
definition RejectReplicaNotUsable :: string where "RejectReplicaNotUsable = ''replica_not_usable''"
definition RejectPeerUnhealthy :: string where "RejectPeerUnhealthy = ''peer_unhealthy''"
definition RejectNoEndpoint :: string where "RejectNoEndpoint = ''peer_has_no_endpoint''"
definition RejectSiteLocalPreferred :: string where "RejectSiteLocalPreferred = ''site_local_preferred''"
definition RejectAnotherSourceChosen :: string where "RejectAnotherSourceChosen = ''another_source_chosen''"
definition SelectedSiteLocal :: string where "SelectedSiteLocal = ''site_local''"
definition SelectedCrossSiteFallback :: string where "SelectedCrossSiteFallback = ''cross_site_fallback''"

lemmas route_codes = RejectNoReplica_def RejectReplicaNotUsable_def RejectPeerUnhealthy_def RejectNoEndpoint_def
  RejectSiteLocalPreferred_def RejectAnotherSourceChosen_def SelectedSiteLocal_def SelectedCrossSiteFallback_def

record RouteReason =
  rr_Code :: string
  rr_Detail :: string

record Rejection =
  rj_PeerID :: string
  rj_Name :: string
  rj_Site :: string
  rj_Reasons :: "RouteReason list"

record Decision =
  de_Found :: bool
  de_Source :: RouteCandidate
  de_Reason :: RouteReason
  de_Rejected :: "Rejection list"

definition joinDetails :: "RouteReason list \<Rightarrow> string" where
  "joinDetails rs = Join '', and '' (map rr_Detail rs)"

definition Refusal :: "Decision \<Rightarrow> string" where
  "Refusal d =
     (if de_Found d then []
      else if de_Rejected d = [] then
        ''no peer holds these bytes, and no peer was even considered '' @ emdash @ '' this deployment has no peers''
      else fold (\<lambda>r out. out @ ''; '' @ rj_Name r @ '' ('' @ rj_Site r @ ''): '' @ joinDetails (rj_Reasons r))
        (de_Rejected d) ''no healthy peer holds these bytes'')"

definition healthWord :: "string \<Rightarrow> string" where
  "healthWord state =
     (if state = ''unknown'' then ''unknown '' @ emdash @ '' nothing has ever heard from it''
      else if state = ''unreachable'' then
        ''unreachable '' @ emdash @ '' it has answered nothing for longer than the health window''
      else if state = [] then ''of unrecorded health''
      else state)"

text \<open>The rules, in order: a code, and the detail when the candidate breaks the rule.\<close>

definition fails_replica :: "RouteCandidate \<Rightarrow> string option" where
  "fails_replica c = (if cd_ReplicaState c = [] then Some ''the peer holds no replica of these bytes'' else None)"

definition fails_usable :: "RouteCandidate \<Rightarrow> string option" where
  "fails_usable c =
     (if cd_ReplicaState c \<noteq> [] \<and> cd_ReplicaState c \<noteq> statePresent
      then Some (''the peer's replica is '' @ cd_ReplicaState c @ '', which cannot be read from'') else None)"

definition fails_health :: "RouteCandidate \<Rightarrow> string option" where
  "fails_health c =
     (if \<not> cd_Reachable c then Some (''the peer is '' @ healthWord (cd_HealthState c) @ '' (M4-10)'') else None)"

definition fails_endpoint :: "RouteCandidate \<Rightarrow> string option" where
  "fails_endpoint c =
     (if \<not> cd_IsSelf c \<and> cd_Endpoint c = []
      then Some ''the peer has no endpoint the client could be sent to'' else None)"

definition eligibility :: "(string \<times> (RouteCandidate \<Rightarrow> string option)) list" where
  "eligibility =
     [(RejectNoReplica, fails_replica), (RejectReplicaNotUsable, fails_usable),
      (RejectPeerUnhealthy, fails_health), (RejectNoEndpoint, fails_endpoint)]"

definition boolKey :: "bool \<Rightarrow> int" where
  "boolKey b = (if b then 1 else 0)"

definition route_rank :: "RouteCandidate \<Rightarrow> int list" where
  "route_rank c = [boolKey (\<not> cd_SameSite c), boolKey (\<not> cd_IsSelf c)]"

text \<open>The comparison of \<open>Select\<close>: the keys from left to right (the lists have the same length), then the peer id.\<close>

fun keys_cmp :: "int list \<Rightarrow> int list \<Rightarrow> bool option" where
  "keys_cmp (k # ks) (l # ls) = (if k \<noteq> l then Some (k < l) else keys_cmp ks ls)"
| "keys_cmp _ _ = None"

definition route_less :: "RouteCandidate \<Rightarrow> RouteCandidate \<Rightarrow> bool" where
  "route_less a b =
     (case keys_cmp (route_rank a) (route_rank b) of Some r \<Rightarrow> r | None \<Rightarrow> cd_PeerID a < cd_PeerID b)"

definition selectionReason :: "RouteCandidate \<Rightarrow> RouteReason" where
  "selectionReason c =
     (if cd_SameSite c then
        \<lparr>rr_Code = SelectedSiteLocal,
         rr_Detail = ''the peer is at the client's site ('' @ cd_Site c @ ''), which '' @ sect @ ''31 prefers''\<rparr>
      else
        \<lparr>rr_Code = SelectedCrossSiteFallback,
         rr_Detail = ''no peer at the client's site can serve these bytes, so the read falls back to '' @ cd_Name c
           @ '' at '' @ cd_Site c @ ''; '' @ sect @ ''31 says cross-site streaming should be the exception''\<rparr>)"

definition runnerUpReason :: "RouteCandidate \<Rightarrow> RouteCandidate \<Rightarrow> RouteReason" where
  "runnerUpReason loser winner =
     (if \<not> cd_SameSite loser \<and> cd_SameSite winner then
        \<lparr>rr_Code = RejectSiteLocalPreferred,
         rr_Detail = cd_Name winner @ '' is at the client's site and this peer is at '' @ cd_Site loser
           @ ''; '' @ sect @ ''31 prefers the local one''\<rparr>
      else
        \<lparr>rr_Code = RejectAnotherSourceChosen,
         rr_Detail = cd_Name winner @ '' was preferred by the ordered selection ('' @ sect @ ''32)''\<rparr>)"

definition rule_reasons :: "RouteCandidate \<Rightarrow> RouteReason list" where
  "rule_reasons c =
     concat (map (\<lambda>(code, fails). case fails c of Some d \<Rightarrow> [\<lparr>rr_Code = code, rr_Detail = d\<rparr>] | None \<Rightarrow> []) eligibility)"

type_synonym rejected_for = "string \<Rightarrow> RouteReason list option"

text \<open>The first loop of \<open>Select\<close>: the eligible candidates in order, and the reasons of the others.\<close>

definition select_step :: "RouteCandidate \<Rightarrow> RouteCandidate list \<times> rejected_for \<Rightarrow> RouteCandidate list \<times> rejected_for" where
  "select_step c acc =
     (case acc of (eligible, rej) \<Rightarrow>
        if rule_reasons c \<noteq> [] then (eligible, rej(cd_PeerID c \<mapsto> rule_reasons c)) else (eligible @ [c], rej))"

text \<open>The last loop: the rejections in the order of the candidates.\<close>

definition rejections :: "rejected_for \<Rightarrow> RouteCandidate list \<Rightarrow> Rejection list" where
  "rejections rej cs =
     concat (map (\<lambda>c. case rej (cd_PeerID c) of None \<Rightarrow> []
        | Some rs \<Rightarrow> [\<lparr>rj_PeerID = cd_PeerID c, rj_Name = cd_Name c, rj_Site = cd_Site c, rj_Reasons = rs\<rparr>]) cs)"

definition zeroCandidate :: RouteCandidate where
  "zeroCandidate = \<lparr>cd_PeerID = [], cd_Name = [], cd_Site = [], cd_Endpoint = [], cd_IsSelf = False,
     cd_SameSite = False, cd_Reachable = False, cd_HealthState = [], cd_ReplicaState = []\<rparr>"

definition Select :: "RouteCandidate list \<Rightarrow> Decision" where
  "Select candidates =
     (let (eligible, rej) = fold select_step candidates ([], \<lambda>_. None)
      in case SliceStable route_less eligible of
           [] \<Rightarrow> \<lparr>de_Found = False, de_Source = zeroCandidate, de_Reason = \<lparr>rr_Code = [], rr_Detail = []\<rparr>,
                  de_Rejected = rejections rej candidates\<rparr>
         | winner # losers \<Rightarrow>
             (let rej' = fold (\<lambda>l r. r(cd_PeerID l \<mapsto> [runnerUpReason l winner])) losers rej
              in \<lparr>de_Found = True, de_Source = winner, de_Reason = selectionReason winner,
                  de_Rejected = rejections rej' candidates\<rparr>))"

section \<open>What is selected, and why not the others\<close>

text \<open>The contract: who may serve a read, and the order of preference.\<close>

definition eligible :: "RouteCandidate \<Rightarrow> bool" where
  "eligible c \<longleftrightarrow> cd_ReplicaState c = statePresent \<and> cd_Reachable c \<and> (cd_IsSelf c \<or> cd_Endpoint c \<noteq> [])"

definition route_key :: "RouteCandidate \<Rightarrow> bool \<times> bool \<times> string" where
  "route_key c = (\<not> cd_SameSite c, \<not> cd_IsSelf c, cd_PeerID c)"

text \<open>The reasons a candidate is given when \<open>w\<close> is selected.\<close>

definition reasons_against :: "RouteCandidate \<Rightarrow> RouteCandidate \<Rightarrow> RouteReason list" where
  "reasons_against w c = (if eligible c then [runnerUpReason c w] else rule_reasons c)"

definition rejection :: "RouteReason list \<Rightarrow> RouteCandidate \<Rightarrow> Rejection" where
  "rejection rs c = \<lparr>rj_PeerID = cd_PeerID c, rj_Name = cd_Name c, rj_Site = cd_Site c, rj_Reasons = rs\<rparr>"

lemma rule_reasons_eligible: "rule_reasons c = [] \<longleftrightarrow> eligible c"
  by (auto simp: rule_reasons_def eligibility_def eligible_def fails_replica_def fails_usable_def fails_health_def
      fails_endpoint_def statePresent_def split: if_splits)

lemma rule_reasons_codes:
  "map rr_Code (rule_reasons c) =
     (if cd_ReplicaState c = [] then [RejectNoReplica] else if cd_ReplicaState c \<noteq> statePresent then [RejectReplicaNotUsable] else [])
     @ (if cd_Reachable c then [] else [RejectPeerUnhealthy])
     @ (if cd_IsSelf c \<or> cd_Endpoint c \<noteq> [] then [] else [RejectNoEndpoint])"
  by (simp add: rule_reasons_def eligibility_def fails_replica_def fails_usable_def fails_health_def fails_endpoint_def
      statePresent_def)

lemma route_less_key: "route_less a b \<longleftrightarrow> route_key a < route_key b"
  by (auto simp: route_less_def route_rank_def route_key_def boolKey_def less_prod_def)

lemma select_fold:
  "fold select_step cs (es, rej) =
     (es @ filter eligible cs, rej ++ map_of (rev (map (\<lambda>c. (cd_PeerID c, rule_reasons c)) (filter (\<lambda>c. \<not> eligible c) cs))))"
  by (induction cs arbitrary: es rej) (auto simp: select_step_def rule_reasons_eligible map_add_upds fun_upd_def map_add_def split: option.splits)

interpretation route_order: preference route_less route_key
  by unfold_locales (rule route_less_key)

lemma route_key_inj: "distinct (map cd_PeerID cs) \<Longrightarrow> inj_on route_key (set cs)"
  by (auto simp: inj_on_def route_key_def distinct_map)

lemma first_reasons:
  assumes "distinct (map cd_PeerID cs)" and "c \<in> set cs"
  shows "snd (fold select_step cs ([], \<lambda>_. None)) (cd_PeerID c) = (if eligible c then None else Some (rule_reasons c))"
proof -
  let ?bad = "filter (\<lambda>c. \<not> eligible c) cs" and ?pair = "\<lambda>c. (cd_PeerID c, rule_reasons c)"
  have d: "distinct (map fst (rev (map ?pair ?bad)))"
    using assms(1) by (simp add: comp_def rev_map [symmetric] distinct_map_filter)
  have inj: "c' = c" if "c' \<in> set cs" "cd_PeerID c' = cd_PeerID c" for c'
    using assms that by (auto simp: distinct_map dest: inj_onD)
  have "map_of (rev (map ?pair ?bad)) (cd_PeerID c) = (if eligible c then None else Some (rule_reasons c))"
  proof (cases "eligible c")
    case True
    then show ?thesis using inj by (auto simp: map_of_eq_None_iff)
  next
    case False
    then show ?thesis unfolding map_of_eq_Some_iff [OF d, symmetric] using assms(2) d by (simp add: map_of_eq_Some_iff)
  qed
  then show ?thesis by (simp add: select_fold)
qed

lemma fold_runner_up:
  "fold (\<lambda>l r. r(cd_PeerID l \<mapsto> [runnerUpReason l w])) ls rej i =
     (case find (\<lambda>l. cd_PeerID l = i) (rev ls) of Some l \<Rightarrow> Some [runnerUpReason l w] | None \<Rightarrow> rej i)"
  by (induction ls rule: rev_induct) auto

lemma all_reasons:
  assumes d: "distinct (map cd_PeerID cs)" and c: "c \<in> set cs"
    and ls: "sort_key route_key (filter eligible cs) = w # ls"
  shows "fold (\<lambda>l r. r(cd_PeerID l \<mapsto> [runnerUpReason l w])) ls (snd (fold select_step cs ([], \<lambda>_. None))) (cd_PeerID c) =
    (if c = w then None else Some (reasons_against w c))"
proof -
  have es: "set (w # ls) = {c \<in> set cs. eligible c}" using arg_cong [OF ls, of set] by simp
  have inj: "c' = c" if "c' \<in> set cs" "cd_PeerID c' = cd_PeerID c" for c'
    using d c that by (auto simp: distinct_map dest: inj_onD)
  have "mset (map cd_PeerID (w # ls)) = mset (map cd_PeerID (filter eligible cs))"
    using arg_cong [OF ls, of "\<lambda>xs. mset (map cd_PeerID xs)"] by simp
  then have "distinct (map cd_PeerID (w # ls))" using d by (metis distinct_map_filter mset_eq_imp_distinct_iff)
  then have w: "w \<notin> set ls" by auto
  show ?thesis
  proof (cases "c \<in> set ls")
    case True
    then have "find (\<lambda>l. cd_PeerID l = cd_PeerID c) (rev ls) = Some c"
    proof -
      obtain l where l: "find (\<lambda>l. cd_PeerID l = cd_PeerID c) (rev ls) = Some l"
        using True by (cases "find (\<lambda>l. cd_PeerID l = cd_PeerID c) (rev ls)") (auto simp: find_None_iff)
      then have "l \<in> set ls" "cd_PeerID l = cd_PeerID c" by (auto simp: find_Some_iff) (metis nth_mem set_rev length_rev)
      with es inj [of l] l show ?thesis by auto
    qed
    moreover have "c \<noteq> w" "eligible c" using True w es by auto
    ultimately show ?thesis by (simp add: fold_runner_up reasons_against_def)
  next
    case False
    have "find (\<lambda>l. cd_PeerID l = cd_PeerID c) (rev ls) = None"
      using False inj es by (auto simp: find_None_iff)
    moreover have "eligible c \<longleftrightarrow> c = w" using es c False by auto
    ultimately show ?thesis by (simp add: fold_runner_up first_reasons [OF d c] reasons_against_def)
  qed
qed

lemma Select_none:
  assumes "distinct (map cd_PeerID cs)" and "filter eligible cs = []"
  shows "de_Found (Select cs) = False" and "de_Rejected (Select cs) = map (\<lambda>c. rejection (rule_reasons c) c) cs"
proof -
  have "rejections (snd (fold select_step cs ([], \<lambda>_. None))) cs = concat (map (\<lambda>c. [rejection (rule_reasons c) c]) cs)"
    unfolding rejections_def
    by (rule arg_cong [of _ _ concat], rule map_cong)
      (use assms in \<open>auto simp: first_reasons rejection_def filter_empty_conv\<close>)
  then show "de_Found (Select cs) = False" "de_Rejected (Select cs) = map (\<lambda>c. rejection (rule_reasons c) c) cs"
    using assms(2) by (simp_all add: Select_def select_fold route_order.sorted)
qed

lemma Select_some:
  assumes "distinct (map cd_PeerID cs)" and "sort_key route_key (filter eligible cs) = w # ls"
  shows "de_Found (Select cs)" and "de_Source (Select cs) = w" and "de_Reason (Select cs) = selectionReason w"
    and "de_Rejected (Select cs) = map (\<lambda>c. rejection (reasons_against w c) c) (filter (\<lambda>c. c \<noteq> w) cs)"
proof -
  let ?rej = "snd (fold select_step cs ([], \<lambda>_. None))"
  have e: "fst (fold select_step cs ([], \<lambda>_. None)) = filter eligible cs" by (simp add: select_fold)
  show "de_Found (Select cs)" "de_Source (Select cs) = w" "de_Reason (Select cs) = selectionReason w"
    by (simp_all add: Select_def split_beta Let_def e route_order.sorted assms(2))
  have "rejections (fold (\<lambda>l r. r(cd_PeerID l \<mapsto> [runnerUpReason l w])) ls ?rej) cs =
      concat (map (\<lambda>c. if c = w then [] else [rejection (reasons_against w c) c]) cs)"
    unfolding rejections_def
    by (rule arg_cong [of _ _ concat], rule map_cong) (use all_reasons [OF assms(1) _ assms(2)] in \<open>auto simp: rejection_def\<close>)
  also have "\<dots> = map (\<lambda>c. rejection (reasons_against w c) c) (filter (\<lambda>c. c \<noteq> w) cs)"
    by (induction cs) auto
  finally show "de_Rejected (Select cs) = map (\<lambda>c. rejection (reasons_against w c) c) (filter (\<lambda>c. c \<noteq> w) cs)"
    by (simp add: Select_def split_beta Let_def e route_order.sorted assms(2))
qed

lemma Refusal_iff: "Refusal d = [] \<longleftrightarrow> de_Found d"
proof -
  have "fold (\<lambda>r out. out @ f r) rs t = t @ concat (map f rs)" for f t and rs :: "Rejection list"
    by (induction rs arbitrary: t) auto
  from this [of "\<lambda>r. ''; '' @ rj_Name r @ '' ('' @ rj_Site r @ ''): '' @ joinDetails (rj_Reasons r)"]
  show ?thesis by (simp add: Refusal_def)
qed

lemma reasons_against_not_Nil: "c \<noteq> w \<Longrightarrow> reasons_against w c \<noteq> []"
  by (simp add: reasons_against_def rule_reasons_eligible)

text \<open>C17: the choice of a source. A source is found just when some peer holds a present replica, is reachable and
  can be addressed; it is then the first such peer in the order same site, this node, peer id, whatever
  order the candidates come in, so a peer of another site is chosen only if no peer of the client's
  site can serve. Every other candidate is rejected, in the order given: an ineligible one with
  the codes of all the rules it breaks, an eligible one with the one reason it lost. The refusal
  text is empty just when a source is found.\<close>

theorem routing_select:
  assumes "distinct (map cd_PeerID cs)"
  shows "(de_Found (Select cs) \<longleftrightarrow> (\<exists>c\<in>set cs. eligible c)) \<and>
    (let w = de_Source (Select cs) in de_Found (Select cs) \<longrightarrow>
       w \<in> set cs \<and> eligible w \<and> (\<forall>c\<in>set cs. eligible c \<longrightarrow> route_key w \<le> route_key c) \<and>
       de_Reason (Select cs) = selectionReason w \<and>
       (\<not> cd_SameSite w \<longrightarrow> (\<forall>c\<in>set cs. cd_SameSite c \<longrightarrow> \<not> eligible c)) \<and>
       de_Rejected (Select cs) = map (\<lambda>c. rejection (reasons_against w c) c) (filter (\<lambda>c. c \<noteq> w) cs)) \<and>
    (\<not> de_Found (Select cs) \<longrightarrow> de_Rejected (Select cs) = map (\<lambda>c. rejection (rule_reasons c) c) cs) \<and>
    (\<forall>r\<in>set (de_Rejected (Select cs)). rj_Reasons r \<noteq> []) \<and>
    (\<forall>c. map rr_Code (rule_reasons c) =
       (if cd_ReplicaState c = [] then [RejectNoReplica] else if cd_ReplicaState c \<noteq> statePresent then [RejectReplicaNotUsable] else [])
       @ (if cd_Reachable c then [] else [RejectPeerUnhealthy])
       @ (if cd_IsSelf c \<or> cd_Endpoint c \<noteq> [] then [] else [RejectNoEndpoint])) \<and>
    (mset cs' = mset cs \<longrightarrow> de_Found (Select cs') = de_Found (Select cs) \<and> de_Source (Select cs') = de_Source (Select cs)) \<and>
    (Refusal (Select cs) = [] \<longleftrightarrow> de_Found (Select cs))"
proof (cases "sort_key route_key (filter eligible cs)")
  case Nil
  then have none: "filter eligible cs = []" by (metis length_0_conv length_sort)
  have perm: "de_Found (Select cs') = de_Found (Select cs) \<and> de_Source (Select cs') = de_Source (Select cs)" if m: "mset cs' = mset cs"
  proof -
    have "filter eligible cs' = []" using none m by (metis mset_filter mset_zero_iff)
    then show ?thesis using none by (simp add: Select_def select_fold route_order.sorted)
  qed
  note n = Select_none [OF assms none]
  have "\<forall>r\<in>set (de_Rejected (Select cs)). rj_Reasons r \<noteq> []"
    using n(2) none by (auto simp: rejection_def rule_reasons_eligible filter_empty_conv)
  then show ?thesis using n perm none rule_reasons_codes Refusal_iff by (simp add: Let_def filter_empty_conv)
next
  case (Cons w ls)
  note s = Select_some [OF assms Cons]
  have le: "\<forall>c\<in>set cs. eligible c \<longrightarrow> route_key w \<le> route_key c" and w: "w \<in> set cs" "eligible w"
    using route_order.first [OF Cons] by auto
  moreover note w
  moreover have "\<not> cd_SameSite w \<longrightarrow> (\<forall>c\<in>set cs. cd_SameSite c \<longrightarrow> \<not> eligible c)"
    using le by (force simp: route_key_def less_eq_prod_def)
  moreover have "\<forall>r\<in>set (de_Rejected (Select cs)). rj_Reasons r \<noteq> []"
    unfolding s(4) by (auto simp: rejection_def reasons_against_not_Nil)
  moreover have "de_Found (Select cs') = de_Found (Select cs) \<and> de_Source (Select cs') = de_Source (Select cs)"
    if m: "mset cs' = mset cs"
  proof -
    have d: "distinct (map cd_PeerID cs')" using assms m by (metis mset_eq_imp_distinct_iff mset_map)
    have "sort_key route_key (filter eligible cs') = sort_key route_key (filter eligible cs)"
    proof (rule route_order.any_order)
      show "mset (filter eligible cs') = mset (filter eligible cs)" using m by simp
      show "inj_on route_key (set (filter eligible cs'))" using route_key_inj [OF d] by (rule inj_on_subset) auto
    qed
    then show ?thesis using Select_some [OF d] s Cons by metis
  qed
  moreover have "de_Found (Select cs) \<longleftrightarrow> (\<exists>c\<in>set cs. eligible c)" using s(1) w by blast
  ultimately show ?thesis unfolding Let_def s(2) using s(1,3,4) rule_reasons_codes Refusal_iff by simp
qed

definition ex_peer :: "string \<Rightarrow> bool \<Rightarrow> bool \<Rightarrow> string \<Rightarrow> RouteCandidate" where
  "ex_peer i local up st = \<lparr>cd_PeerID = i, cd_Name = i, cd_Site = (if local then ''home'' else ''away''),
     cd_Endpoint = ''https://p'', cd_IsSelf = False, cd_SameSite = local, cd_Reachable = up,
     cd_HealthState = (if up then ''reachable'' else ''unreachable''), cd_ReplicaState = st\<rparr>"

theorem routing_select_witness:
  "de_Found (Select [ex_peer ''a'' False True ''present'', ex_peer ''b'' True False ''corrupt'', ex_peer ''c'' True True ''present'']) \<and>
   de_Source (Select [ex_peer ''a'' False True ''present'', ex_peer ''b'' True False ''corrupt'', ex_peer ''c'' True True ''present'']) =
     ex_peer ''c'' True True ''present'' \<and>
   map (map rr_Code \<circ> rj_Reasons) (de_Rejected (Select
     [ex_peer ''a'' False True ''present'', ex_peer ''b'' True False ''corrupt'', ex_peer ''c'' True True ''present''])) =
     [[RejectSiteLocalPreferred], [RejectReplicaNotUsable, RejectPeerUnhealthy]]"
proof -
  let ?cs = "[ex_peer ''a'' False True ''present'', ex_peer ''b'' True False ''corrupt'', ex_peer ''c'' True True ''present'']"
  have "distinct (map cd_PeerID ?cs)" by (simp add: ex_peer_def)
  note t = routing_select [OF this, of ?cs]
  have f: "de_Found (Select ?cs)" using t by (simp add: ex_peer_def eligible_def statePresent_def)
  then have "de_Source (Select ?cs) \<in> set ?cs" "eligible (de_Source (Select ?cs))" "route_key (de_Source (Select ?cs)) \<le> route_key (?cs ! 2)"
    using t by (auto simp: Let_def ex_peer_def eligible_def statePresent_def)
  then have src: "de_Source (Select ?cs) = ex_peer ''c'' True True ''present''"
    by (auto simp: ex_peer_def eligible_def statePresent_def route_key_def less_eq_prod_def)
  have "de_Rejected (Select ?cs) = map (\<lambda>c. rejection (reasons_against (de_Source (Select ?cs)) c) c)
      (filter (\<lambda>c. c \<noteq> de_Source (Select ?cs)) ?cs)"
    using t f unfolding Let_def by blast
  then have "de_Rejected (Select ?cs) = map (\<lambda>c. rejection (reasons_against (ex_peer ''c'' True True ''present'') c) c) (take 2 ?cs)"
    unfolding src by (simp add: ex_peer_def)
  then show ?thesis using f src
    by (simp add: rejection_def reasons_against_def rule_reasons_codes runnerUpReason_def ex_peer_def eligible_def statePresent_def)
qed

end
