(* ===== verification/Replication.thy ===== *)
theory Replication
  imports GoStd Prelude "HOL-Library.Finite_Map"
begin

text \<open>
  \<^verbatim>\<open>internal/domain/transfer/session.go\<close> (the order in which the sources of a transfer are tried) and
  \<^verbatim>\<open>internal/domain/replication\<close> (\<^verbatim>\<open>replication.go\<close>: what a peer should hold and does not; \<^verbatim>\<open>transfer.go\<close>: which
  peers to pull from; \<^verbatim>\<open>job.go\<close>: the keys of the jobs). \<^verbatim>\<open>Diff\<close> sorts by all the fields of a gap, so the
  result of the unstable sort is unique and is written with \<open>sort_key\<close>.
\<close>

section \<open>Transfer sessions\<close>

definition KindPeer :: string where "KindPeer = ''peer''"
definition KindWebSeed :: string where "KindWebSeed = ''web_seed''"
definition KindExternal :: string where "KindExternal = ''external''"
definition HealthReachable :: string where "HealthReachable = ''reachable''"
definition HealthUnknown :: string where "HealthUnknown = ''unknown''"
definition HealthUnreachable :: string where "HealthUnreachable = ''unreachable''"
definition UrgencyInteractive :: string where "UrgencyInteractive = ''interactive''"
definition UrgencyBackground :: string where "UrgencyBackground = ''background''"

lemmas transfer_words = KindPeer_def KindWebSeed_def KindExternal_def HealthReachable_def HealthUnknown_def
  HealthUnreachable_def UrgencyInteractive_def UrgencyBackground_def

record TransferSource =
  ts_ID :: string
  ts_Kind :: string
  ts_Health :: string

record Session =
  se_Target :: string
  se_Sources :: "TransferSource list"
  se_Urgency :: string

datatype session_error = ErrNoSource string

definition urgency :: "Session \<Rightarrow> string" where
  "urgency s = (if se_Urgency s = [] then UrgencyBackground else se_Urgency s)"

definition healthRank :: "string \<Rightarrow> int" where
  "healthRank state = (if state = HealthReachable then 0 else if state = HealthUnreachable then 2 else 1)"

definition kindRank :: "string \<Rightarrow> int" where
  "kindRank k = (if k = KindPeer then 0 else if k = KindWebSeed then 1 else if k = KindExternal then 2 else 3)"

text \<open>The comparison of \<open>Session_Plan\<close>, and the sources its loop keeps.\<close>

definition plan_less :: "TransferSource \<Rightarrow> TransferSource \<Rightarrow> bool" where
  "plan_less a b =
     (if healthRank (ts_Health a) \<noteq> healthRank (ts_Health b) then healthRank (ts_Health a) < healthRank (ts_Health b)
      else if kindRank (ts_Kind a) \<noteq> kindRank (ts_Kind b) then kindRank (ts_Kind a) < kindRank (ts_Kind b)
      else ts_ID a < ts_ID b)"

definition plan_keeps :: "string \<Rightarrow> TransferSource \<Rightarrow> bool" where
  "plan_keeps urg src =
     (if ts_ID src = [] \<or> ts_Kind src = [] then False
      else if urg = UrgencyInteractive \<and> ts_Health src = HealthUnreachable then False
      else True)"

definition Session_Plan :: "Session \<Rightarrow> session_error + TransferSource list" where
  "Session_Plan s =
     (let out = filter (plan_keeps (urgency s)) (se_Sources s)
      in if length out = 0 then Inl (ErrNoSource (se_Target s)) else Inr (SliceStable plan_less out))"

section \<open>Sources of a replication\<close>

record ReplicaSource =
  so_PeerID :: string
  so_Name :: string
  so_Endpoint :: string
  so_PublicKey :: "8 word list"
  so_Health :: string

datatype source_error = ErrSourceNotPinnable string | ErrSourceUnreachable string

definition Usable :: "ReplicaSource \<Rightarrow> source_error option" where
  "Usable s =
     (if length (so_PublicKey s) = 0 then Some (ErrSourceNotPinnable (so_PeerID s))
      else if so_Endpoint s = [] then Some (ErrSourceUnreachable (so_PeerID s))
      else None)"

text \<open>\<open>byID\<close> starts from the zero source, which a Go map gives for a missing key.\<close>

definition zeroSource :: ReplicaSource where
  "zeroSource = \<lparr>so_PeerID = [], so_Name = [], so_Endpoint = [], so_PublicKey = [], so_Health = []\<rparr>"

definition RankSources :: "ReplicaSource list \<Rightarrow> ReplicaSource list" where
  "RankSources candidates =
     (let usable = filter (\<lambda>c. Usable c = None) candidates;
          sources = map (\<lambda>c. \<lparr>ts_ID = so_PeerID c, ts_Kind = KindPeer, ts_Health = so_Health c\<rparr>) usable
      in case Session_Plan \<lparr>se_Target = [], se_Sources = sources, se_Urgency = UrgencyBackground\<rparr> of
           Inl _ \<Rightarrow> []
         | Inr plan \<Rightarrow>
             (let byID = fold (\<lambda>c m. m(so_PeerID c := c)) usable (\<lambda>_. zeroSource)
              in map (\<lambda>p. byID (ts_ID p)) plan))"

section \<open>Peer convergence\<close>

definition ModeFull :: string where "ModeFull = ''full''"

record PeerMode =
  pm_ID :: string
  pm_Mode :: string

datatype Gap = Gap (BlobHash: string) (PeerID: string)

definition DedupeKey :: "Gap \<Rightarrow> string" where
  "DedupeKey g = ''replicate:'' @ BlobHash g @ '':'' @ PeerID g"

definition DesiredBlobSet :: "PeerMode \<Rightarrow> string list \<Rightarrow> string list" where
  "DesiredBlobSet p canonical = (if pm_Mode p \<noteq> ModeFull then [] else canonical)"

type_synonym Holdings = "(string, string fset) fmap"

definition holds_blob :: "Holdings \<Rightarrow> string \<Rightarrow> string \<Rightarrow> bool" where
  "holds_blob held p h = (case fmlookup held p of None \<Rightarrow> False | Some hs \<Rightarrow> h |\<in>| hs)"

definition gap_key :: "Gap \<Rightarrow> string \<times> string" where
  "gap_key g = (BlobHash g, PeerID g)"

text \<open>The inner loop of \<open>Diff\<close>.\<close>

definition peer_gaps :: "Holdings \<Rightarrow> string list \<Rightarrow> PeerMode \<Rightarrow> Gap list" where
  "peer_gaps held canonical p =
     map (\<lambda>hash. Gap hash (pm_ID p)) (filter (\<lambda>hash. \<not> holds_blob held (pm_ID p) hash) (DesiredBlobSet p canonical))"

definition Diff :: "PeerMode list \<Rightarrow> string list \<Rightarrow> Holdings \<Rightarrow> Gap list" where
  "Diff peers canonical held = sort_key gap_key (concat (map (peer_gaps held canonical) peers))"

definition Bound :: "Gap list \<Rightarrow> int \<Rightarrow> Gap list \<times> int" where
  "Bound gaps limit =
     (if limit \<le> 0 \<or> int (length gaps) \<le> limit then (gaps, 0)
      else (take (nat limit) gaps, int (length gaps) - limit))"

definition ReconcilePeerJobType :: string where "ReconcilePeerJobType = ''reconcile_peer''"
definition ReplicateBlobJobType :: string where "ReplicateBlobJobType = ''replicate_blob''"
definition ReconcilePeerDedupeKey :: string where "ReconcilePeerDedupeKey = ''reconcile:peer''"

definition ScopedReconcilePeerDedupeKey :: "string \<Rightarrow> string" where
  "ScopedReconcilePeerDedupeKey peerID =
     (if peerID = [] then ReconcilePeerDedupeKey else ReconcilePeerDedupeKey @ '':'' @ peerID)"

section \<open>The order of attempts\<close>

definition plan_key :: "TransferSource \<Rightarrow> int \<times> int \<times> string" where
  "plan_key s = (healthRank (ts_Health s), kindRank (ts_Kind s), ts_ID s)"

lemma plan_less_key: "plan_less a b \<longleftrightarrow> plan_key a < plan_key b"
  by (auto simp: plan_less_def plan_key_def less_prod_def)

interpretation plan_order: preference plan_less plan_key
  by unfold_locales (rule plan_less_key)

lemma Session_Plan_eq:
  "Session_Plan s = (let out = filter (plan_keeps (urgency s)) (se_Sources s)
     in if out = [] then Inl (ErrNoSource (se_Target s)) else Inr (sort_key plan_key out))"
  by (simp add: Session_Plan_def Let_def plan_order.sorted)

definition source_key :: "ReplicaSource \<Rightarrow> int \<times> string" where
  "source_key c = (healthRank (so_Health c), so_PeerID c)"

lemma fold_byID:
  "distinct (map so_PeerID cs) \<Longrightarrow> c \<in> set cs \<Longrightarrow> fold (\<lambda>c m. m(so_PeerID c := c)) cs m (so_PeerID c) = c"
proof (induction cs arbitrary: m)
  case (Cons x xs)
  have keep: "fold (\<lambda>c m. m(so_PeerID c := c)) xs m' i = m' i" if "i \<notin> so_PeerID ` set xs" for m' i
    using that by (induction xs arbitrary: m') auto
  show ?case
  proof (cases "c = x")
    case True
    then show ?thesis using Cons.prems keep [of "so_PeerID x" "m(so_PeerID x := x)"] by (simp del: fun_upd_apply) simp
  next
    case False
    then show ?thesis using Cons by auto
  qed
qed simp

lemma RankSources_eq:
  assumes "distinct (map so_PeerID cs)"
  shows "RankSources cs = sort_key source_key (filter (\<lambda>c. Usable c = None \<and> so_PeerID c \<noteq> []) cs)"
proof -
  let ?us = "filter (\<lambda>c. Usable c = None) cs" and ?t = "\<lambda>c. \<lparr>ts_ID = so_PeerID c, ts_Kind = KindPeer, ts_Health = so_Health c\<rparr>"
  let ?ks = "filter (\<lambda>c. Usable c = None \<and> so_PeerID c \<noteq> []) cs"
  have kept: "filter (plan_keeps (urgency s)) (map ?t ?us) = map ?t ?ks" if "se_Urgency s = UrgencyBackground" for s
    using that by (induction cs) (auto simp: plan_keeps_def urgency_def transfer_words)
  have d: "distinct (map so_PeerID ?us)" using assms by (rule distinct_map_filter)
  have key: "sort_key (\<lambda>c. plan_key (?t c)) ?ks = sort_key source_key ?ks"
    by (rule sort_key_same_order) (auto simp: plan_key_def source_key_def less_eq_prod_def)
  have "map (\<lambda>p. fold (\<lambda>c m. m(so_PeerID c := c)) ?us (\<lambda>_. zeroSource) (ts_ID p)) (map ?t (sort_key source_key ?ks)) = sort_key source_key ?ks"
    unfolding map_map by (rule map_idI) (use fold_byID [OF d] in auto)
  then show ?thesis
    unfolding RankSources_def Session_Plan_eq Let_def by (simp add: kept sort_key_map key)
qed

text \<open>The order in which sources are tried. A plan fails just when no source is acceptable (it has an id and
  a kind and, when somebody is waiting, is not known to be down); otherwise it is the acceptable
  sources, each once, in the order of health, then kind, then id, whatever order they were given in.
  Replication tries every peer that can be dialled and authenticated: one known to be down comes last,
  one never heard of before it, never neither; with somebody waiting the ones known to be down are
  left out.\<close>

theorem transfer_plan:
  assumes "distinct (map so_PeerID cs)" and "distinct (map (\<lambda>s. (kindRank (ts_Kind s), ts_ID s)) srcs)"
    and "mset srcs' = mset srcs" and "mset cs' = mset cs"
  shows "((\<exists>e. Session_Plan \<lparr>se_Target = t, se_Sources = srcs, se_Urgency = u\<rparr> = Inl e) \<longleftrightarrow>
      (\<forall>s\<in>set srcs. ts_ID s = [] \<or> ts_Kind s = [] \<or> u = UrgencyInteractive \<and> ts_Health s = HealthUnreachable)) \<and>
    (\<forall>out. Session_Plan \<lparr>se_Target = t, se_Sources = srcs, se_Urgency = u\<rparr> = Inr out \<longrightarrow>
      mset out = {#s \<in># mset srcs. ts_ID s \<noteq> [] \<and> ts_Kind s \<noteq> [] \<and> \<not> (u = UrgencyInteractive \<and> ts_Health s = HealthUnreachable)#} \<and>
      sorted_wrt (\<lambda>a b. plan_key a < plan_key b) out) \<and>
    Session_Plan \<lparr>se_Target = t, se_Sources = srcs', se_Urgency = u\<rparr> = Session_Plan \<lparr>se_Target = t, se_Sources = srcs, se_Urgency = u\<rparr> \<and>
    set (RankSources cs) = {c \<in> set cs. so_PublicKey c \<noteq> [] \<and> so_Endpoint c \<noteq> [] \<and> so_PeerID c \<noteq> []} \<and>
    sorted_wrt (\<lambda>a b. source_key a < source_key b) (RankSources cs) \<and>
    RankSources cs' = RankSources cs"
proof -
  let ?acc = "plan_keeps (if u = [] then UrgencyBackground else u)"
  let ?us = "\<lambda>cs. filter (\<lambda>c. Usable c = None \<and> so_PeerID c \<noteq> []) cs"
  have acc: "?acc s \<longleftrightarrow> ts_ID s \<noteq> [] \<and> ts_Kind s \<noteq> [] \<and> \<not> (u = UrgencyInteractive \<and> ts_Health s = HealthUnreachable)" for s
    by (auto simp: plan_keeps_def transfer_words)
  have inj: "inj_on plan_key (set srcs)" and ds: "distinct srcs"
    using assms(2) by (auto simp: plan_key_def inj_on_def distinct_map)
  have plan: "Session_Plan \<lparr>se_Target = t, se_Sources = ss, se_Urgency = u\<rparr> =
      (if filter ?acc ss = [] then Inl (ErrNoSource t) else Inr (sort_key plan_key (filter ?acc ss)))" for ss
    by (simp add: Session_Plan_eq Let_def urgency_def)
  have "\<exists>e. Session_Plan \<lparr>se_Target = t, se_Sources = srcs, se_Urgency = u\<rparr> = Inl e" if "\<forall>s\<in>set srcs. \<not> ?acc s"
    using that by (simp add: plan filter_empty_conv)
  then have empty: "(\<exists>e. Session_Plan \<lparr>se_Target = t, se_Sources = srcs, se_Urgency = u\<rparr> = Inl e) \<longleftrightarrow> (\<forall>s\<in>set srcs. \<not> ?acc s)"
    by (auto simp: plan filter_empty_conv split: if_splits)
  have out: "mset (sort_key plan_key (filter ?acc srcs)) = filter_mset ?acc (mset srcs)"
    "sorted_wrt (\<lambda>a b. plan_key a < plan_key b) (sort_key plan_key (filter ?acc srcs))"
    using plan_order.strict [of "filter ?acc srcs"] ds inj_on_subset [OF inj, of "set (filter ?acc srcs)"]
    by (simp_all only: mset_sort mset_filter distinct_filter) auto
  have m: "mset (filter ?acc srcs') = mset (filter ?acc srcs)" using assms(3) by simp
  have "sort_key plan_key (filter ?acc srcs') = sort_key plan_key (filter ?acc srcs)"
  proof (rule plan_order.any_order [OF m])
    show "inj_on plan_key (set (filter ?acc srcs'))" using inj assms(3) by (auto dest: mset_eq_setD intro: inj_on_subset)
  qed
  moreover have "filter ?acc srcs' = [] \<longleftrightarrow> filter ?acc srcs = []" using m by (metis mset_zero_iff)
  ultimately have same: "Session_Plan \<lparr>se_Target = t, se_Sources = srcs', se_Urgency = u\<rparr> = Session_Plan \<lparr>se_Target = t, se_Sources = srcs, se_Urgency = u\<rparr>"
    by (simp only: plan)
  have d': "distinct (map so_PeerID cs')" using assms(1,4) by (metis mset_eq_imp_distinct_iff mset_map)
  have injs: "inj_on source_key (set (?us xs))" and dxs: "distinct (?us xs)" if "distinct (map so_PeerID xs)" for xs
    using that by (auto simp: source_key_def inj_on_def distinct_map)
  have rank: "set (RankSources cs) = {c \<in> set cs. so_PublicKey c \<noteq> [] \<and> so_Endpoint c \<noteq> [] \<and> so_PeerID c \<noteq> []}"
    "sorted_wrt (\<lambda>a b. source_key a < source_key b) (RankSources cs)"
    unfolding RankSources_eq [OF assms(1)] using sort_key_strict [OF dxs injs] assms(1)
    by (auto simp: Usable_def)
  have ranks: "RankSources cs' = RankSources cs"
    unfolding RankSources_eq [OF assms(1)] RankSources_eq [OF d']
    by (rule sort_key_perm_eq) (use assms(4) injs [OF d'] in simp_all)
  have acc_eq: "?acc = (\<lambda>s. ts_ID s \<noteq> [] \<and> ts_Kind s \<noteq> [] \<and> \<not> (u = UrgencyInteractive \<and> ts_Health s = HealthUnreachable))"
    by (intro ext) (rule acc)
  have "\<forall>out. Session_Plan \<lparr>se_Target = t, se_Sources = srcs, se_Urgency = u\<rparr> = Inr out \<longrightarrow>
      mset out = filter_mset ?acc (mset srcs) \<and> sorted_wrt (\<lambda>a b. plan_key a < plan_key b) out"
    unfolding plan using out by auto
  with empty same rank ranks show ?thesis unfolding acc_eq by blast
qed

definition ex_source :: "string \<Rightarrow> string \<Rightarrow> ReplicaSource" where
  "ex_source i h = \<lparr>so_PeerID = i, so_Name = i, so_Endpoint = ''https://p'', so_PublicKey = [7], so_Health = h\<rparr>"

theorem transfer_plan_witness:
  "set (RankSources [ex_source ''a'' ''unreachable'', ex_source ''b'' ''unknown'']) = {ex_source ''a'' ''unreachable'', ex_source ''b'' ''unknown''} \<and>
   RankSources [ex_source ''b'' ''unknown'', ex_source ''a'' ''unreachable''] = RankSources [ex_source ''a'' ''unreachable'', ex_source ''b'' ''unknown''] \<and>
   (\<exists>e. Session_Plan \<lparr>se_Target = ''h'', se_Sources = [\<lparr>ts_ID = ''a'', ts_Kind = KindPeer, ts_Health = HealthUnreachable\<rparr>],
      se_Urgency = UrgencyInteractive\<rparr> = Inl e)"
proof -
  let ?cs = "[ex_source ''a'' ''unreachable'', ex_source ''b'' ''unknown'']"
    and ?cs' = "[ex_source ''b'' ''unknown'', ex_source ''a'' ''unreachable'']"
    and ?ss = "[\<lparr>ts_ID = ''a'', ts_Kind = KindPeer, ts_Health = HealthUnreachable\<rparr>]"
  have "distinct (map so_PeerID ?cs)" "distinct (map (\<lambda>s. (kindRank (ts_Kind s), ts_ID s)) ?ss)" "mset ?cs' = mset ?cs"
    by (simp_all add: ex_source_def add_mset_commute)
  note t = transfer_plan [OF this(1,2) refl this(3), of "''h''" UrgencyInteractive]
  then have "set (RankSources ?cs) = {c \<in> set ?cs. so_PublicKey c \<noteq> [] \<and> so_Endpoint c \<noteq> [] \<and> so_PeerID c \<noteq> []}"
    "RankSources ?cs' = RankSources ?cs" by blast+
  moreover have "\<exists>e. Session_Plan \<lparr>se_Target = ''h'', se_Sources = ?ss, se_Urgency = UrgencyInteractive\<rparr> = Inl e"
    by (simp add: Session_Plan_def plan_keeps_def urgency_def transfer_words)
  moreover have "{c \<in> set ?cs. so_PublicKey c \<noteq> [] \<and> so_Endpoint c \<noteq> [] \<and> so_PeerID c \<noteq> []} = set ?cs"
    by (auto simp: ex_source_def)
  ultimately show ?thesis by simp
qed

section \<open>Convergence\<close>

text \<open>What a completed transfer changes: the peer reports the blob among its holdings. One cycle enqueues a
  bounded prefix of the difference and its transfers complete.\<close>

definition land :: "Gap \<Rightarrow> Holdings \<Rightarrow> Holdings" where
  "land g held = fmupd (PeerID g)
     (finsert (BlobHash g) (case fmlookup held (PeerID g) of None \<Rightarrow> {||} | Some hs \<Rightarrow> hs)) held"

definition repl_cycle :: "PeerMode list \<Rightarrow> string list \<Rightarrow> int \<Rightarrow> Holdings \<Rightarrow> Holdings" where
  "repl_cycle peers canonical limit held = fold land (fst (Bound (Diff peers canonical held) limit)) held"

lemma holds_land: "holds_blob (land g held) p h \<longleftrightarrow> holds_blob held p h \<or> g = Gap h p"
  by (cases g) (auto simp: holds_blob_def land_def split: option.splits)

lemma holds_fold_land: "holds_blob (fold land gs held) p h \<longleftrightarrow> holds_blob held p h \<or> Gap h p \<in> set gs"
  by (induction gs arbitrary: held) (auto simp: holds_land)

lemma set_Diff:
  "set (Diff peers canonical held) =
     {Gap h (pm_ID p) | p h. p \<in> set peers \<and> pm_Mode p = ModeFull \<and> h \<in> set canonical \<and> \<not> holds_blob held (pm_ID p) h}"
  by (auto simp: Diff_def peer_gaps_def DesiredBlobSet_def split: if_splits)

lemma Diff_land: "Diff peers canonical (fold land gs held) = filter (\<lambda>g. g \<notin> set gs) (Diff peers canonical held)"
proof -
  have "map (\<lambda>hash. Gap hash i) (filter (\<lambda>hash. \<not> holds_blob (fold land gs held) i hash) hs) =
      filter (\<lambda>g. g \<notin> set gs) (map (\<lambda>hash. Gap hash i) (filter (\<lambda>hash. \<not> holds_blob held i hash) hs))" for i hs
    by (induction hs) (auto simp: holds_fold_land)
  then have "peer_gaps (fold land gs held) canonical p = filter (\<lambda>g. g \<notin> set gs) (peer_gaps held canonical p)" for p
    by (simp only: peer_gaps_def)
  then have "peer_gaps (fold land gs held) canonical = (\<lambda>p. filter (\<lambda>g. g \<notin> set gs) (peer_gaps held canonical p))" by blast
  then show ?thesis by (simp add: Diff_def filter_sort filter_concat comp_def)
qed

lemma distinct_Diff:
  assumes "distinct (map pm_ID peers)" and "distinct canonical"
  shows "distinct (Diff peers canonical held)"
proof -
  have g: "distinct (peer_gaps held canonical p)" for p
    using assms(2) by (auto simp: peer_gaps_def DesiredBlobSet_def distinct_map inj_on_def)
  have peer: "PeerID g = pm_ID p" if "g \<in> set (peer_gaps held canonical p)" for g p
    using that by (auto simp: peer_gaps_def)
  have "distinct (concat (map (peer_gaps held canonical) ps))" if "distinct (map pm_ID ps)" for ps
    using that g by (induction ps) (auto, metis image_eqI peer)
  from this [OF assms(1)] show ?thesis by (simp add: Diff_def)
qed

lemma filter_not_prefix: "distinct xs \<Longrightarrow> filter (\<lambda>x. x \<notin> set (take n xs)) xs = drop n xs"
proof -
  assume d: "distinct xs"
  then have "set (take n xs) \<inter> set (drop n xs) = {}" by (metis append_take_drop_id distinct_append)
  then have "filter (\<lambda>x. x \<notin> set (take n xs)) (take n xs @ drop n xs) = drop n xs"
    by (simp only: filter_append) (auto simp: filter_empty_conv filter_id_conv)
  then show ?thesis by simp
qed

lemma Bound_take: "0 < limit \<Longrightarrow> Bound gaps limit = (take (nat limit) gaps, int (length (drop (nat limit) gaps)))"
  by (auto simp: Bound_def)

lemma last_colon:
  assumes "x @ c # p = y @ c # q" and "c \<notin> set p" and "c \<notin> set q"
  shows "x = y \<and> p = q"
proof -
  have "takeWhile (\<lambda>d. d \<noteq> c) (rev (z @ c # r)) = rev r" if "c \<notin> set r" for z r
    using that by (auto simp: takeWhile_append takeWhile_eq_all_conv)
  from this [OF assms(2), of x] this [OF assms(3), of y] assms(1) show ?thesis by auto
qed

text \<open>Replication converges. The difference is exactly the blobs a full peer should hold and does not, each
  once, in order; the jobs of different gaps have different keys; the bound takes a prefix and reports
  what it left. When the transfers of a cycle have completed, the next difference is the
  rest of this one, so with a positive bound the fabric has converged after as many cycles as the
  bound goes into the difference, and nothing held is lost on the way.\<close>

theorem replication_converges:
  assumes "distinct (map pm_ID peers)" and "distinct canonical" and "\<forall>p\<in>set peers. CHR '':'' \<notin> set (pm_ID p)" and "0 < limit"
  shows "set (Diff peers canonical held) =
      {Gap h (pm_ID p) | p h. p \<in> set peers \<and> pm_Mode p = ModeFull \<and> h \<in> set canonical \<and> \<not> holds_blob held (pm_ID p) h} \<and>
    sorted_wrt (\<lambda>a b. gap_key a < gap_key b) (Diff peers canonical held) \<and>
    distinct (map DedupeKey (Diff peers canonical held)) \<and>
    (case Bound (Diff peers canonical held) limit of (taken, deferred) \<Rightarrow>
       int (length taken) \<le> limit \<and> Diff peers canonical held = taken @ Diff peers canonical (repl_cycle peers canonical limit held) \<and>
       deferred = int (length (Diff peers canonical (repl_cycle peers canonical limit held)))) \<and>
    (\<forall>p h. holds_blob held p h \<longrightarrow> holds_blob (repl_cycle peers canonical limit held) p h) \<and>
    (length (Diff peers canonical held) \<le> n * nat limit \<longrightarrow>
       Diff peers canonical ((repl_cycle peers canonical limit ^^ n) held) = [])"
proof (intro conjI)
  let ?d = "Diff peers canonical" and ?c = "repl_cycle peers canonical limit"
  have d: "distinct (?d held)" for held using assms(1,2) by (rule distinct_Diff)
  have inj: "inj_on gap_key A" for A by (auto simp: inj_on_def gap_key_def intro: Gap.expand)
  have next_diff: "?d (?c held) = drop (nat limit) (?d held)" for held
    by (simp add: repl_cycle_def Diff_land Bound_take [OF assms(4)] filter_not_prefix [OF d])
  show "set (?d held) = {Gap h (pm_ID p) | p h. p \<in> set peers \<and> pm_Mode p = ModeFull \<and> h \<in> set canonical \<and> \<not> holds_blob held (pm_ID p) h}"
    by (rule set_Diff)
  show "sorted_wrt (\<lambda>a b. gap_key a < gap_key b) (?d held)"
    using d [of held] sort_key_strict [of _ gap_key] inj unfolding Diff_def by simp
  have "inj_on DedupeKey (set (?d held))"
  proof (rule inj_onI)
    fix a b
    assume a: "a \<in> set (?d held)" and b: "b \<in> set (?d held)" and eq: "DedupeKey a = DedupeKey b"
    have "CHR '':'' \<notin> set (PeerID a)" "CHR '':'' \<notin> set (PeerID b)" using a b assms(3) unfolding set_Diff by auto
    then show "a = b" using last_colon [of "BlobHash a" "CHR '':''" "PeerID a" "BlobHash b" "PeerID b"] eq
      by (auto simp: DedupeKey_def intro: Gap.expand)
  qed
  then show "distinct (map DedupeKey (?d held))" using d by (simp add: distinct_map)
  show "case Bound (?d held) limit of (taken, deferred) \<Rightarrow>
      int (length taken) \<le> limit \<and> ?d held = taken @ ?d (?c held) \<and> deferred = int (length (?d (?c held)))"
    using assms(4) by (simp add: Bound_take next_diff)
  show "\<forall>p h. holds_blob held p h \<longrightarrow> holds_blob (?c held) p h" by (simp add: repl_cycle_def holds_fold_land)
  have "?d ((?c ^^ n) held) = drop (n * nat limit) (?d held)" by (induction n) (simp_all add: next_diff add.commute)
  then show "length (?d held) \<le> n * nat limit \<longrightarrow> ?d ((?c ^^ n) held) = []" by simp
qed

theorem replication_converges_witness:
  "length (Diff [\<lparr>pm_ID = ''p'', pm_Mode = ModeFull\<rparr>, \<lparr>pm_ID = ''q'', pm_Mode = ''cache''\<rparr>] [''h1'', ''h2'', ''h3''] fmempty) = 3 \<and>
   Diff [\<lparr>pm_ID = ''p'', pm_Mode = ModeFull\<rparr>, \<lparr>pm_ID = ''q'', pm_Mode = ''cache''\<rparr>] [''h1'', ''h2'', ''h3'']
     ((repl_cycle [\<lparr>pm_ID = ''p'', pm_Mode = ModeFull\<rparr>, \<lparr>pm_ID = ''q'', pm_Mode = ''cache''\<rparr>] [''h1'', ''h2'', ''h3''] 2 ^^ 2) fmempty) = []"
proof -
  let ?ps = "[\<lparr>pm_ID = ''p'', pm_Mode = ModeFull\<rparr>, \<lparr>pm_ID = ''q'', pm_Mode = ''cache''\<rparr>]" and ?hs = "[''h1'', ''h2'', ''h3'']"
  have h: "distinct (map pm_ID ?ps)" "distinct ?hs" "\<forall>p\<in>set ?ps. CHR '':'' \<notin> set (pm_ID p)" "(0::int) < 2" by simp_all
  have len: "length (Diff ?ps ?hs fmempty) = 3" by (simp add: Diff_def peer_gaps_def DesiredBlobSet_def holds_blob_def ModeFull_def)
  with replication_converges [OF h, where held = fmempty and n = 2] show ?thesis by auto
qed

end
