(* ===== verification/PeerHealth.thy ===== *)
theory PeerHealth
  imports GoStd Prelude
begin

text \<open>
  \<^verbatim>\<open>internal/peer/health\<close> (\<^verbatim>\<open>health.go\<close>, \<^verbatim>\<open>routing.go\<close>): the reachability of peers. The peers table is a list of
  rows, at most one per id; the event log is the list of committed events. A transaction is one function
  on this state; the database is assumed not to fail. The clock is a function of how often it has been
  read, so every \<^verbatim>\<open>clock.Now()\<close> of the code is one read in the model; times are nanoseconds since the
  zero \<^verbatim>\<open>time.Time\<close>, and a NULL \<^verbatim>\<open>last_seen_at\<close> is that zero. What a peer answers to a probe depends on
  the moment and is an argument, absent when no prober is configured.
\<close>

datatype PeerState = StateUnknown | StateReachable | StateUnreachable

definition DefaultWindow :: int where
  "DefaultWindow = 15 * 60 * 1000000000"

record HealthPeer =
  hp_PeerID :: string
  hp_Name :: string
  hp_Endpoint :: string
  hp_PublicKey :: "8 word list"
  hp_IsSelf :: bool
  hp_State :: PeerState
  hp_LastSeenAt :: int

definition hp_Seen :: "HealthPeer \<Rightarrow> bool" where
  "hp_Seen p \<longleftrightarrow> hp_LastSeenAt p \<noteq> 0"

text \<open>\<^verbatim>\<open>Time.Sub\<close> saturates at the ends of a \<^verbatim>\<open>Duration\<close>.\<close>

definition time_Sub :: "int \<Rightarrow> int \<Rightarrow> int" where
  "time_Sub t u = max (- (2 ^ 63)) (min (2 ^ 63 - 1) (t - u))"

definition Derive :: "int \<Rightarrow> int \<Rightarrow> int \<Rightarrow> PeerState" where
  "Derive lastSeen now window =
     (if lastSeen = 0 then StateUnknown
      else if time_Sub now lastSeen > window then StateUnreachable
      else StateReachable)"

text \<open>The payload of \<^verbatim>\<open>peer.health_changed\<close>.\<close>

record HealthEvent =
  he_PeerID :: string
  he_Name :: string
  he_From :: PeerState
  he_To :: PeerState
  he_Window :: int
  he_LastSeenAt :: "int option"

record Tracker =
  tr_peers :: "HealthPeer list"
  tr_events :: "HealthEvent list"
  tr_reads :: nat

type_synonym Clock = "nat \<Rightarrow> int"
type_synonym Prober = "(nat \<Rightarrow> HealthPeer \<Rightarrow> bool) option"

text \<open>The window \<open>New\<close> gives a tracker.\<close>

definition New_window :: "int \<Rightarrow> int" where
  "New_window opt = (if opt \<le> 0 then DefaultWindow else opt)"

definition Now :: "Clock \<Rightarrow> Tracker \<Rightarrow> int \<times> Tracker" where
  "Now clock t = (clock (tr_reads t), t\<lparr>tr_reads := tr_reads t + 1\<rparr>)"

definition emitTx :: "int \<Rightarrow> HealthPeer \<Rightarrow> PeerState \<Rightarrow> int \<Rightarrow> HealthEvent" where
  "emitTx window from to now =
     \<lparr>he_PeerID = hp_PeerID from, he_Name = hp_Name from, he_From = hp_State from, he_To = to, he_Window = window,
      he_LastSeenAt = (if to = StateReachable then Some now
                       else if hp_Seen from then Some (hp_LastSeenAt from) else None)\<rparr>"

definition set_peer :: "string \<Rightarrow> (HealthPeer \<Rightarrow> HealthPeer) \<Rightarrow> HealthPeer list \<Rightarrow> HealthPeer list" where
  "set_peer i f ps = map (\<lambda>p. if hp_PeerID p = i then f p else p) ps"

definition Answered :: "Clock \<Rightarrow> int \<Rightarrow> string \<Rightarrow> Tracker \<Rightarrow> Tracker" where
  "Answered clock window peerID t0 =
     (let (now, t) = Now clock t0
      in case find (\<lambda>p. hp_PeerID p = peerID) (tr_peers t) of
           None \<Rightarrow> t
         | Some p \<Rightarrow>
             (let t' = t\<lparr>tr_peers := set_peer peerID (\<lambda>p. p\<lparr>hp_LastSeenAt := now, hp_State := StateReachable\<rparr>) (tr_peers t)\<rparr>
              in if hp_State p = StateReachable then t'
                 else t'\<lparr>tr_events := tr_events t' @ [emitTx window p StateReachable now]\<rparr>))"

definition livenessResolution :: "int \<Rightarrow> int" where
  "livenessResolution window = go_div window 10"

definition Seen :: "Clock \<Rightarrow> int \<Rightarrow> 8 word list \<Rightarrow> Tracker \<Rightarrow> Tracker" where
  "Seen clock window publicKey t =
     (case find (\<lambda>p. hp_PublicKey p = publicKey) (tr_peers t) of
        None \<Rightarrow> t
      | Some p \<Rightarrow>
          if hp_State p = StateReachable \<and> hp_Seen p then
            (let (now, t1) = Now clock t
             in if time_Sub now (hp_LastSeenAt p) < livenessResolution window then t1
                else Answered clock window (hp_PeerID p) t1)
          else Answered clock window (hp_PeerID p) t)"

definition transition :: "Clock \<Rightarrow> int \<Rightarrow> HealthPeer \<Rightarrow> PeerState \<Rightarrow> Tracker \<Rightarrow> Tracker" where
  "transition clock window p to t0 =
     (let (now, t) = Now clock t0
      in case find (\<lambda>q. hp_PeerID q = hp_PeerID p) (tr_peers t) of
           None \<Rightarrow> t
         | Some current \<Rightarrow>
             if hp_State current = to then t
             else t\<lparr>tr_peers := set_peer (hp_PeerID p) (\<lambda>q. q\<lparr>hp_State := to\<rparr>) (tr_peers t),
                    tr_events := tr_events t @ [emitTx window current to now]\<rparr>)"

text \<open>The query of \<open>List\<close>: this node first, then by name (names are unique).\<close>

definition health_List :: "Tracker \<Rightarrow> HealthPeer list" where
  "health_List t = sort_key (\<lambda>p. (\<not> hp_IsSelf p, hp_Name p)) (tr_peers t)"

definition shouldProbe :: "Clock \<Rightarrow> int \<Rightarrow> Prober \<Rightarrow> HealthPeer \<Rightarrow> Tracker \<Rightarrow> bool \<times> Tracker" where
  "shouldProbe clock window prober p t =
     (if prober = None \<or> hp_Endpoint p = [] then (False, t)
      else if \<not> hp_Seen p then (True, t)
      else (let (now, t1) = Now clock t in (time_Sub now (hp_LastSeenAt p) \<ge> go_div window 2, t1)))"

record Summary =
  su_Swept :: nat
  su_Probed :: nat
  su_BecameReachable :: nat
  su_BecameUnreachable :: nat

text \<open>The probe of one peer: the summary, the copy of the row as the loop goes on with it, the state.\<close>

definition sweep_probe :: "Clock \<Rightarrow> int \<Rightarrow> Prober \<Rightarrow> HealthPeer \<Rightarrow> Summary \<times> Tracker \<Rightarrow> Summary \<times> HealthPeer \<times> Tracker" where
  "sweep_probe clock window prober p acc =
     (case acc of (sm, t0) \<Rightarrow>
        let (should, t) = shouldProbe clock window prober p t0
        in if \<not> should then (sm, p, t)
           else (let sm1 = sm\<lparr>su_Probed := su_Probed sm + 1\<rparr>
                 in if \<not> the prober (tr_reads t) p then (sm1, p, t)
                    else (let t1 = Answered clock window (hp_PeerID p) t;
                              sm2 = (if hp_State p \<noteq> StateReachable
                                      then sm1\<lparr>su_BecameReachable := su_BecameReachable sm1 + 1\<rparr> else sm1);
                              (now, t2) = Now clock t1
                          in (sm2, p\<lparr>hp_State := StateReachable, hp_LastSeenAt := now\<rparr>, t2))))"

text \<open>The comparison with what the clock implies.\<close>

definition sweep_check :: "Clock \<Rightarrow> int \<Rightarrow> Summary \<times> HealthPeer \<times> Tracker \<Rightarrow> Summary \<times> Tracker" where
  "sweep_check clock window acc =
     (case acc of (sm, p, t0) \<Rightarrow>
        let (now, t) = Now clock t0;
            want = Derive (hp_LastSeenAt p) now window
        in if want = hp_State p then (sm, t)
           else (let t1 = transition clock window p want t
                 in case want of
                      StateReachable \<Rightarrow> (sm\<lparr>su_BecameReachable := su_BecameReachable sm + 1\<rparr>, t1)
                    | StateUnreachable \<Rightarrow> (sm\<lparr>su_BecameUnreachable := su_BecameUnreachable sm + 1\<rparr>, t1)
                    | StateUnknown \<Rightarrow> (sm, t1)))"

definition sweep_peer :: "Clock \<Rightarrow> int \<Rightarrow> Prober \<Rightarrow> HealthPeer \<Rightarrow> Summary \<times> Tracker \<Rightarrow> Summary \<times> Tracker" where
  "sweep_peer clock window prober p acc =
     (case acc of (sm0, t) \<Rightarrow>
        let sm = sm0\<lparr>su_Swept := su_Swept sm0 + 1\<rparr>
        in if hp_IsSelf p then (sm, Answered clock window (hp_PeerID p) t)
           else sweep_check clock window (sweep_probe clock window prober p (sm, t)))"

definition Sweep :: "Clock \<Rightarrow> int \<Rightarrow> Prober \<Rightarrow> Tracker \<Rightarrow> Summary \<times> Tracker" where
  "Sweep clock window prober t =
     fold (sweep_peer clock window prober) (health_List t)
       (\<lparr>su_Swept = 0, su_Probed = 0, su_BecameReachable = 0, su_BecameUnreachable = 0\<rparr>, t)"

text \<open>\<^verbatim>\<open>routing.go\<close>.\<close>

definition Sources :: "HealthPeer list \<Rightarrow> HealthPeer list" where
  "Sources peers = filter (\<lambda>p. hp_State p = StateReachable) peers"

definition Destinations :: "HealthPeer list \<Rightarrow> HealthPeer list" where
  "Destinations peers = peers"

section \<open>One row at a time\<close>

lemma Now_simps [simp]: "Now clock t = (clock (tr_reads t), t\<lparr>tr_reads := tr_reads t + 1\<rparr>)"
  by (simp add: Now_def)

abbreviation ids :: "HealthPeer list \<Rightarrow> string list" where
  "ids ps \<equiv> map hp_PeerID ps"

lemma find_row: "distinct (ids ps) \<Longrightarrow> p \<in> set ps \<Longrightarrow> find (\<lambda>q. hp_PeerID q = hp_PeerID p) ps = Some p"
  by (induction ps) (auto simp: rev_image_eqI)

lemma set_peer_row:
  "distinct (ids ps) \<Longrightarrow> p \<in> set ps \<Longrightarrow> set_peer (hp_PeerID p) f ps = set_peer (hp_PeerID p) (\<lambda>_. f p) ps"
  by (auto simp: set_peer_def distinct_map dest: inj_onD)

lemma ids_set_peer [simp]: "(\<And>q. hp_PeerID (f q) = i) \<Longrightarrow> ids (set_peer i f ps) = ids ps"
  by (simp add: set_peer_def)

lemma mem_set_peer: "r \<in> set (set_peer i (\<lambda>_. q) ps) \<longleftrightarrow> (\<exists>p\<in>set ps. hp_PeerID p = i) \<and> r = q \<or> r \<in> set ps \<and> hp_PeerID r \<noteq> i"
  by (auto simp: set_peer_def)

lemma Answered_row:
  assumes "distinct (ids (tr_peers t))" and "p \<in> set (tr_peers t)"
  shows "Answered clock window (hp_PeerID p) t =
    t\<lparr>tr_peers := set_peer (hp_PeerID p) (\<lambda>_. p\<lparr>hp_LastSeenAt := clock (tr_reads t), hp_State := StateReachable\<rparr>) (tr_peers t),
      tr_events := tr_events t @ (if hp_State p = StateReachable then [] else [emitTx window p StateReachable (clock (tr_reads t))]),
      tr_reads := tr_reads t + 1\<rparr>"
  using set_peer_row [OF assms] find_row [OF assms] by (cases t) (auto simp: Answered_def Let_def)

lemma transition_row:
  assumes "distinct (ids (tr_peers t))" and "q \<in> set (tr_peers t)" and "hp_PeerID q = hp_PeerID p" and "hp_State q \<noteq> to"
  shows "transition clock window p to t =
    t\<lparr>tr_peers := set_peer (hp_PeerID q) (\<lambda>_. q\<lparr>hp_State := to\<rparr>) (tr_peers t),
      tr_events := tr_events t @ [emitTx window q to (clock (tr_reads t))],
      tr_reads := tr_reads t + 1\<rparr>"
  using set_peer_row [OF assms(1,2)] find_row [OF assms(1,2)] assms(3,4) by (cases t) (auto simp: transition_def Let_def)

lemma shouldProbe_eq:
  "shouldProbe clock window prober p t = (b, t') \<Longrightarrow> \<exists>k. t' = t\<lparr>tr_reads := tr_reads t + k\<rparr>"
  by (auto simp: shouldProbe_def Let_def split: if_splits intro: exI [of _ 0] exI [of _ 1])

section \<open>A sweep\<close>

definition count_to :: "string set \<Rightarrow> PeerState \<Rightarrow> HealthEvent list \<Rightarrow> nat" where
  "count_to selfs s es = length (filter (\<lambda>e. he_To e = s \<and> he_PeerID e \<notin> selfs) es)"

lemma count_to_simps [simp]:
  "count_to A s [] = 0"
  "count_to A s (es @ es') = count_to A s es + count_to A s es'"
  "count_to A s [emitTx w p to now] = (if to = s \<and> hp_PeerID p \<notin> A then 1 else 0)"
  by (auto simp: count_to_def emitTx_def)

text \<open>What a sweep leaves of a row: the stored state is the one the clock implied at some read during the
  sweep; this node has just been seen.\<close>

definition settled :: "Clock \<Rightarrow> int \<Rightarrow> nat \<Rightarrow> nat \<Rightarrow> HealthPeer \<Rightarrow> bool" where
  "settled clock window n0 n1 r \<longleftrightarrow>
     (\<exists>n. n0 \<le> n \<and> n < n1 \<and> hp_State r = Derive (hp_LastSeenAt r) (clock n) window \<and>
        (hp_IsSelf r \<longrightarrow> hp_State r = StateReachable \<and> hp_LastSeenAt r = clock n))"

lemma settled_mono: "settled clock window n0 n1 r \<Longrightarrow> m0 \<le> n0 \<Longrightarrow> n1 \<le> m1 \<Longrightarrow> settled clock window m0 m1 r"
  unfolding settled_def by (meson le_trans less_le_trans)

lemma Derive_fresh: "0 < window \<Longrightarrow> t \<noteq> 0 \<Longrightarrow> Derive t t window = StateReachable"
  by (simp add: Derive_def time_Sub_def)

lemma Derive_later: "Derive t u window = StateUnreachable \<Longrightarrow> t' \<le> t \<Longrightarrow> t' \<noteq> 0 \<Longrightarrow> Derive t' u window = StateUnreachable"
  by (auto simp: Derive_def time_Sub_def split: if_splits)

text \<open>One round of the loop on the row it holds a copy of.\<close>

definition round_ok :: "Clock \<Rightarrow> int \<Rightarrow> string set \<Rightarrow> nat \<Rightarrow> HealthPeer \<Rightarrow> Summary \<times> Tracker \<Rightarrow> Summary \<times> Tracker \<Rightarrow> bool" where
  "round_ok clock window selfs n0 p a b \<longleftrightarrow>
     (\<exists>q new. tr_peers (snd b) = set_peer (hp_PeerID p) (\<lambda>_. q) (tr_peers (snd a)) \<and> hp_PeerID q = hp_PeerID p \<and>
        hp_IsSelf q = hp_IsSelf p \<and>
        tr_events (snd b) = tr_events (snd a) @ new \<and> tr_reads (snd a) \<le> tr_reads (snd b) \<and>
        settled clock window n0 (tr_reads (snd b)) q \<and>
        su_Swept (fst b) = su_Swept (fst a) \<and>
        su_BecameReachable (fst b) = su_BecameReachable (fst a) + count_to selfs StateReachable new \<and>
        su_BecameUnreachable (fst b) = su_BecameUnreachable (fst a) + count_to selfs StateUnreachable new)"

lemma set_peer_twice: "hp_PeerID q = i \<Longrightarrow> set_peer i (\<lambda>_. q') (set_peer i (\<lambda>_. q) ps) = set_peer i (\<lambda>_. q') ps"
  by (simp add: set_peer_def)

lemma set_peer_self: "distinct (ids ps) \<Longrightarrow> p \<in> set ps \<Longrightarrow> set_peer (hp_PeerID p) (\<lambda>_. p) ps = ps"
  by (auto simp: set_peer_def distinct_map intro!: map_idI dest: inj_onD)

lemma check_ok:
  assumes "distinct (ids (tr_peers t))" and "q \<in> set (tr_peers t)" and "hp_PeerID c = hp_PeerID q" and "hp_State c = hp_State q"
    and "\<not> hp_IsSelf q" and "hp_PeerID q \<notin> selfs" and "n0 \<le> tr_reads t"
    and "hp_LastSeenAt c = hp_LastSeenAt q \<or>
      settled clock window n0 (tr_reads t) q \<and> hp_State q = StateReachable \<and> 0 < hp_LastSeenAt q \<and> hp_LastSeenAt q \<le> hp_LastSeenAt c"
  shows "round_ok clock window selfs n0 q (sm, t) (sweep_check clock window (sm, c, t))"
proof -
  let ?now = "clock (tr_reads t)" and ?t = "t\<lparr>tr_reads := tr_reads t + 1\<rparr>"
  let ?want = "Derive (hp_LastSeenAt c) ?now window"
  have same: "hp_LastSeenAt c = hp_LastSeenAt q \<or> settled clock window n0 (tr_reads t) q \<and> (?want \<noteq> hp_State q \<longrightarrow>
      ?want = StateUnreachable \<and> Derive (hp_LastSeenAt q) ?now window = StateUnreachable)"
    using assms(8) Derive_later [of "hp_LastSeenAt c" ?now window "hp_LastSeenAt q"]
    by (cases ?want) (auto simp: Derive_def split: if_splits)
  have st: "settled clock window n0 (Suc n) r" if "hp_State r = Derive (hp_LastSeenAt r) ?now window" "\<not> hp_IsSelf r" "tr_reads t \<le> n" for r n
    unfolding settled_def using that assms(7) by (intro exI [of _ "tr_reads t"]) auto
  show ?thesis
  proof (cases "?want = hp_State q")
    case True
    then have "sweep_check clock window (sm, c, t) = (sm, ?t)" using assms(4) by (simp add: sweep_check_def Let_def)
    moreover have "settled clock window n0 (Suc (tr_reads t)) q"
      using same
    proof
      assume "hp_LastSeenAt c = hp_LastSeenAt q"
      then show ?thesis using st [of q "tr_reads t"] True assms(5) by simp
    qed (metis settled_mono order_refl le_SucI)
    ultimately show ?thesis unfolding round_ok_def
      by (intro exI [of _ q] exI [of _ "[]"]) (simp add: set_peer_self [OF assms(1,2)])
  next
    case False
    let ?q = "q\<lparr>hp_State := ?want\<rparr>" and ?e = "emitTx window q ?want (clock (tr_reads t + 1))"
    have tr: "transition clock window c ?want ?t =
        t\<lparr>tr_peers := set_peer (hp_PeerID q) (\<lambda>_. ?q) (tr_peers t), tr_events := tr_events t @ [?e], tr_reads := tr_reads t + 2\<rparr>"
      using transition_row [of ?t q c ?want clock window] assms(1-3) False by (cases t) simp
    have "settled clock window n0 (Suc (Suc (tr_reads t))) ?q"
      using same False assms(5) st [of ?q "Suc (tr_reads t)"] by auto
    with tr False assms(4,6) show ?thesis unfolding round_ok_def
      by (intro exI [of _ ?q] exI [of _ "[?e]"]) (auto simp: sweep_check_def Let_def split: PeerState.split)
  qed
qed

lemma round_ok_trans:
  assumes "round_ok clock window selfs n0 p a b" and "\<And>q. q \<in> set (tr_peers (snd b)) \<Longrightarrow> hp_PeerID q = hp_PeerID p \<Longrightarrow> round_ok clock window selfs n0 q b c"
    and "p \<in> set (tr_peers (snd a))"
  shows "round_ok clock window selfs n0 p a c"
proof -
  from assms(1) obtain q new where q: "tr_peers (snd b) = set_peer (hp_PeerID p) (\<lambda>_. q) (tr_peers (snd a))" "hp_PeerID q = hp_PeerID p"
    "hp_IsSelf q = hp_IsSelf p" "tr_events (snd b) = tr_events (snd a) @ new" "tr_reads (snd a) \<le> tr_reads (snd b)"
    "su_Swept (fst b) = su_Swept (fst a)"
    "su_BecameReachable (fst b) = su_BecameReachable (fst a) + count_to selfs StateReachable new"
    "su_BecameUnreachable (fst b) = su_BecameUnreachable (fst a) + count_to selfs StateUnreachable new"
    unfolding round_ok_def by blast
  have "q \<in> set (tr_peers (snd b))" using q(1) assms(3) by (auto simp: mem_set_peer)
  from assms(2) [OF this q(2)] obtain r new' where r: "tr_peers (snd c) = set_peer (hp_PeerID q) (\<lambda>_. r) (tr_peers (snd b))" "hp_PeerID r = hp_PeerID q"
    "hp_IsSelf r = hp_IsSelf q" "tr_events (snd c) = tr_events (snd b) @ new'" "tr_reads (snd b) \<le> tr_reads (snd c)"
    "settled clock window n0 (tr_reads (snd c)) r" "su_Swept (fst c) = su_Swept (fst b)"
    "su_BecameReachable (fst c) = su_BecameReachable (fst b) + count_to selfs StateReachable new'"
    "su_BecameUnreachable (fst c) = su_BecameUnreachable (fst b) + count_to selfs StateUnreachable new'"
    unfolding round_ok_def by blast
  show ?thesis unfolding round_ok_def
    using q r by (intro exI [of _ r] exI [of _ "new @ new'"]) (simp add: set_peer_twice)
qed

lemma round_ok_start:
  assumes "round_ok clock window selfs n0 p (sm', t') c"
    and "tr_peers t' = tr_peers t" "tr_events t' = tr_events t" "tr_reads t \<le> tr_reads t'" "su_Swept sm' = su_Swept sm"
      "su_BecameReachable sm' = su_BecameReachable sm" "su_BecameUnreachable sm' = su_BecameUnreachable sm"
  shows "round_ok clock window selfs n0 p (sm, t) c"
  using assms unfolding round_ok_def by (metis fst_conv snd_conv le_trans)

lemma probe_silent:
  assumes "distinct (ids (tr_peers t))" and "p \<in> set (tr_peers t)" and "\<not> hp_IsSelf p" and "hp_PeerID p \<notin> selfs"
    and "sweep_probe clock window prober p (sm, t) = (sm', p, t')"
    and "t' = t\<lparr>tr_reads := tr_reads t + k\<rparr>" and "sm' = sm \<or> sm' = sm\<lparr>su_Probed := su_Probed sm + 1\<rparr>"
  shows "round_ok clock window selfs (tr_reads t) p (sm, t) (sweep_check clock window (sweep_probe clock window prober p (sm, t)))"
  unfolding assms(5)
  by (rule round_ok_start [OF check_ok]) (use assms in auto)

lemma probe_answered:
  assumes "distinct (ids (tr_peers t))" and "p \<in> set (tr_peers t)" and "\<not> hp_IsSelf p" and "hp_PeerID p \<notin> selfs"
    and "0 < window" and "\<forall>n. 0 < clock n" and "mono clock"
    and t': "t' = t\<lparr>tr_reads := tr_reads t + k\<rparr>"
    and sm': "su_Swept sm' = su_Swept sm" "su_BecameReachable sm' = su_BecameReachable sm + (if hp_State p \<noteq> StateReachable then 1 else 0)"
      "su_BecameUnreachable sm' = su_BecameUnreachable sm"
  shows "round_ok clock window selfs (tr_reads t) p (sm, t)
    (sweep_check clock window (sm', p\<lparr>hp_State := StateReachable, hp_LastSeenAt := clock (tr_reads t' + 1)\<rparr>,
       (Answered clock window (hp_PeerID p) t')\<lparr>tr_reads := tr_reads t' + 2\<rparr>))"
proof -
  let ?n = "tr_reads t'" and ?p = "p\<lparr>hp_LastSeenAt := clock (tr_reads t'), hp_State := StateReachable\<rparr>"
  let ?t2 = "(Answered clock window (hp_PeerID p) t')\<lparr>tr_reads := ?n + 2\<rparr>"
  have ans: "Answered clock window (hp_PeerID p) t' =
      t'\<lparr>tr_peers := set_peer (hp_PeerID p) (\<lambda>_. ?p) (tr_peers t'),
        tr_events := tr_events t' @ (if hp_State p = StateReachable then [] else [emitTx window p StateReachable (clock ?n)]),
        tr_reads := ?n + 1\<rparr>"
    by (rule Answered_row) (use assms(1,2) t' in auto)
  have le: "clock ?n \<le> clock (?n + 1)" using assms(7) by (simp add: mono_def)
  have set: "settled clock window (tr_reads t) (?n + 2) ?p"
    unfolding settled_def using t' assms(3,5,6) Derive_fresh [of window "clock ?n"]
    by (intro exI [of _ ?n]) (auto simp: less_le)
  have first: "round_ok clock window selfs (tr_reads t) p (sm, t) (sm', ?t2)"
    unfolding round_ok_def
    by (rule exI [of _ ?p], rule exI [of _ "if hp_State p = StateReachable then [] else [emitTx window p StateReachable (clock ?n)]"])
      (use set ans t' sm' assms(4) in auto)
  show ?thesis
  proof (rule round_ok_trans [OF first])
    show "p \<in> set (tr_peers (snd (sm, t)))" using assms(2) by simp
    fix q
    assume "q \<in> set (tr_peers (snd (sm', ?t2)))" and "hp_PeerID q = hp_PeerID p"
    then have q: "q = ?p" and mem: "?p \<in> set (tr_peers ?t2)" using ans t' by (auto simp: mem_set_peer)
    show "round_ok clock window selfs (tr_reads t) q (sm', ?t2)
        (sweep_check clock window (sm', p\<lparr>hp_State := StateReachable, hp_LastSeenAt := clock (?n + 1)\<rparr>, ?t2))"
      unfolding q by (rule check_ok) (use mem assms(1,3,4,6) ans t' set le in auto)
  qed
qed

lemma sweep_round:
  assumes "distinct (ids (tr_peers t))" and "p \<in> set (tr_peers t)" and "0 < window" and "\<forall>n. 0 < clock n" and "mono clock"
    and self: "hp_IsSelf p \<longleftrightarrow> hp_PeerID p \<in> selfs"
  shows "round_ok clock window selfs (tr_reads t) p (sm\<lparr>su_Swept := su_Swept sm + 1\<rparr>, t) (sweep_peer clock window prober p (sm, t))"
proof (cases "hp_IsSelf p")
  case True
  let ?p = "p\<lparr>hp_LastSeenAt := clock (tr_reads t), hp_State := StateReachable\<rparr>"
  have "settled clock window (tr_reads t) (tr_reads t + 1) ?p"
    unfolding settled_def using assms(3,4) Derive_fresh [of window "clock (tr_reads t)"] by (intro exI [of _ "tr_reads t"]) (auto simp: less_le)
  then show ?thesis unfolding round_ok_def
    by (intro exI [of _ ?p] exI [of _ "if hp_State p = StateReachable then [] else [emitTx window p StateReachable (clock (tr_reads t))]"])
      (use True self in \<open>auto simp: sweep_peer_def Let_def Answered_row [OF assms(1,2)]\<close>)
next
  case False
  let ?sm = "sm\<lparr>su_Swept := su_Swept sm + 1\<rparr>"
  obtain b t' where sp: "shouldProbe clock window prober p t = (b, t')" by fastforce
  then obtain k where t': "t' = t\<lparr>tr_reads := tr_reads t + k\<rparr>" using shouldProbe_eq by blast
  have eq: "sweep_peer clock window prober p (sm, t) = sweep_check clock window (sweep_probe clock window prober p (?sm, t))"
    using False by (simp add: sweep_peer_def Let_def)
  show ?thesis
  proof (cases "b \<and> the prober (tr_reads t') p")
    case True
    have "round_ok clock window selfs (tr_reads t) p (?sm, t)
      (sweep_check clock window (fst (sweep_probe clock window prober p (?sm, t)),
        p\<lparr>hp_State := StateReachable, hp_LastSeenAt := clock (tr_reads t' + 1)\<rparr>,
        (Answered clock window (hp_PeerID p) t')\<lparr>tr_reads := tr_reads t' + 2\<rparr>))"
      by (rule probe_answered [OF assms(1,2) _ _ assms(3-5) t']) (use False self True sp in \<open>auto simp: sweep_probe_def Let_def\<close>)
    moreover have "sweep_probe clock window prober p (?sm, t) = (fst (sweep_probe clock window prober p (?sm, t)),
        p\<lparr>hp_State := StateReachable, hp_LastSeenAt := clock (tr_reads t' + 1)\<rparr>,
        (Answered clock window (hp_PeerID p) t')\<lparr>tr_reads := tr_reads t' + 2\<rparr>)"
      using True sp t' Answered_row [of t' p clock window] assms(1,2) by (simp add: sweep_probe_def Let_def)
    ultimately show ?thesis unfolding eq by simp
  next
    case quiet: False
    let ?sm' = "if b then ?sm\<lparr>su_Probed := su_Probed ?sm + 1\<rparr> else ?sm"
    have "sweep_probe clock window prober p (?sm, t) = (?sm', p, t')"
    proof (cases b)
      case True
      with quiet have "\<not> the prober (tr_reads t') p" by simp
      with sp True show ?thesis by (simp add: sweep_probe_def Let_def)
    qed (use sp in \<open>simp add: sweep_probe_def Let_def\<close>)
    moreover have "?sm' = ?sm \<or> ?sm' = ?sm\<lparr>su_Probed := su_Probed ?sm + 1\<rparr>" by simp
    ultimately show ?thesis unfolding eq using probe_silent [OF assms(1,2) False _ _ t'] False self by blast
  qed
qed

definition rounds_ok :: "Clock \<Rightarrow> int \<Rightarrow> string set \<Rightarrow> HealthPeer list \<Rightarrow> Summary \<times> Tracker \<Rightarrow> Summary \<times> Tracker \<Rightarrow> HealthEvent list \<Rightarrow> bool" where
  "rounds_ok clock window selfs ps a b new \<longleftrightarrow>
     ids (tr_peers (snd b)) = ids (tr_peers (snd a)) \<and>
     (\<forall>r\<in>set (tr_peers (snd b)). if hp_PeerID r \<in> set (ids ps) then settled clock window (tr_reads (snd a)) (tr_reads (snd b)) r
        else r \<in> set (tr_peers (snd a))) \<and>
     tr_events (snd b) = tr_events (snd a) @ new \<and> tr_reads (snd a) \<le> tr_reads (snd b) \<and>
     su_Swept (fst b) = su_Swept (fst a) + length ps \<and>
     su_BecameReachable (fst b) = su_BecameReachable (fst a) + count_to selfs StateReachable new \<and>
     su_BecameUnreachable (fst b) = su_BecameUnreachable (fst a) + count_to selfs StateUnreachable new"

lemma rounds_ok_Cons:
  assumes "round_ok clock window selfs (tr_reads (snd a)) p (fst a\<lparr>su_Swept := su_Swept (fst a) + 1\<rparr>, snd a) b"
    and "\<exists>new. rounds_ok clock window selfs ps b c new" and "hp_PeerID p \<notin> set (ids ps)"
  shows "\<exists>new. rounds_ok clock window selfs (p # ps) a c new"
proof -
  from assms(1) obtain q new where q: "tr_peers (snd b) = set_peer (hp_PeerID p) (\<lambda>_. q) (tr_peers (snd a))" "hp_PeerID q = hp_PeerID p"
    "tr_events (snd b) = tr_events (snd a) @ new" "tr_reads (snd a) \<le> tr_reads (snd b)"
    "settled clock window (tr_reads (snd a)) (tr_reads (snd b)) q" "su_Swept (fst b) = su_Swept (fst a) + 1"
    "su_BecameReachable (fst b) = su_BecameReachable (fst a) + count_to selfs StateReachable new"
    "su_BecameUnreachable (fst b) = su_BecameUnreachable (fst a) + count_to selfs StateUnreachable new"
    unfolding round_ok_def by auto
  from assms(2) obtain new' where "rounds_ok clock window selfs ps b c new'" by blast
  note n = this [unfolded rounds_ok_def]
  have le: "tr_reads (snd b) \<le> tr_reads (snd c)" using n by blast
  have "if hp_PeerID r \<in> set (ids (p # ps)) then settled clock window (tr_reads (snd a)) (tr_reads (snd c)) r else r \<in> set (tr_peers (snd a))"
    if r: "r \<in> set (tr_peers (snd c))" for r
  proof (cases "hp_PeerID r \<in> set (ids ps)")
    case True
    then have "settled clock window (tr_reads (snd b)) (tr_reads (snd c)) r" using n r by metis
    from settled_mono [OF this q(4) order_refl] True show ?thesis by simp
  next
    case False
    then have "r \<in> set (tr_peers (snd b))" using n r by metis
    then have "r = q \<or> r \<in> set (tr_peers (snd a)) \<and> hp_PeerID r \<noteq> hp_PeerID p" unfolding q(1) mem_set_peer by blast
    then show ?thesis using False q(2) settled_mono [OF q(5) order_refl le] by auto
  qed
  moreover have "ids (tr_peers (snd c)) = ids (tr_peers (snd a))" using n q(1,2) by simp
  ultimately show ?thesis unfolding rounds_ok_def
    by (intro exI [of _ "new @ new'"]) (use n q(3,4,6-8) in simp)
qed

lemma sweep_fold:
  assumes "0 < window" and "\<forall>n. 0 < clock n" and "mono clock"
    and "distinct (ids (tr_peers (snd a)))" and "set ps \<subseteq> set (tr_peers (snd a))" and "distinct (ids ps)"
    and "\<forall>r\<in>set (tr_peers (snd a)). hp_IsSelf r \<longleftrightarrow> hp_PeerID r \<in> selfs"
  shows "\<exists>new. rounds_ok clock window selfs ps a (fold (sweep_peer clock window prober) ps a) new"
  using assms(4-7)
proof (induction ps arbitrary: a)
  case Nil
  show ?case by (rule exI [of _ "[]"]) (simp add: rounds_ok_def)
next
  case (Cons p ps)
  let ?b = "sweep_peer clock window prober p a"
  have p: "p \<in> set (tr_peers (snd a))" "hp_IsSelf p \<longleftrightarrow> hp_PeerID p \<in> selfs" using Cons.prems by auto
  have round: "round_ok clock window selfs (tr_reads (snd a)) p (fst a\<lparr>su_Swept := su_Swept (fst a) + 1\<rparr>, snd a) ?b"
    using sweep_round [OF Cons.prems(1) p(1) assms(1-3) p(2), of "fst a" prober] by simp
  then obtain q where q: "tr_peers (snd ?b) = set_peer (hp_PeerID p) (\<lambda>_. q) (tr_peers (snd a))" "hp_PeerID q = hp_PeerID p" "hp_IsSelf q = hp_IsSelf p"
    unfolding round_ok_def by auto
  have new: "hp_PeerID p \<notin> set (ids ps)" using Cons.prems(3) by simp
  have "set ps \<subseteq> set (tr_peers (snd ?b))"
  proof
    fix x
    assume x: "x \<in> set ps"
    then have "hp_PeerID x \<noteq> hp_PeerID p" using new by (auto simp: image_iff)
    with x Cons.prems(2) show "x \<in> set (tr_peers (snd ?b))" unfolding q(1) by (simp add: mem_set_peer subset_iff)
  qed
  moreover have "\<forall>r\<in>set (tr_peers (snd ?b)). hp_IsSelf r \<longleftrightarrow> hp_PeerID r \<in> selfs"
  proof
    fix r
    assume "r \<in> set (tr_peers (snd ?b))"
    then have "r = q \<or> r \<in> set (tr_peers (snd a))" unfolding q(1) mem_set_peer by blast
    then show "hp_IsSelf r \<longleftrightarrow> hp_PeerID r \<in> selfs" using Cons.prems(4) p(2) q(2,3) by metis
  qed
  moreover have "distinct (ids (tr_peers (snd ?b)))" using Cons.prems(1) q(1,2) by simp
  ultimately have "\<exists>new. rounds_ok clock window selfs ps ?b (fold (sweep_peer clock window prober) ps ?b) new"
    using Cons.IH Cons.prems(3) by simp
  from rounds_ok_Cons [OF round this new] show ?case by simp
qed

text \<open>A round that finds the state already in step with a stopped clock changes nothing.\<close>

lemma quiet_round:
  assumes "distinct (ids (tr_peers t))" and "p \<in> set (tr_peers t)" and "\<And>n. clock n = c" and "settled clock window n0 n1 p"
  shows "tr_peers (snd (sweep_peer clock window None p (sm, t))) = tr_peers t"
    and "tr_events (snd (sweep_peer clock window None p (sm, t))) = tr_events t"
proof -
  have "set_peer (hp_PeerID p) (\<lambda>_. p\<lparr>hp_LastSeenAt := c, hp_State := StateReachable\<rparr>) (tr_peers t) = tr_peers t" if "hp_IsSelf p"
    using set_peer_self [OF assms(1,2)] assms(3,4) that by (cases p) (auto simp: settled_def)
  then show "tr_peers (snd (sweep_peer clock window None p (sm, t))) = tr_peers t"
    "tr_events (snd (sweep_peer clock window None p (sm, t))) = tr_events t"
    using assms(3,4)
    by (auto simp: sweep_peer_def sweep_probe_def sweep_check_def shouldProbe_def Let_def Answered_row [OF assms(1,2)] settled_def)
qed

lemma quiet_sweep:
  assumes "distinct (ids (tr_peers t))" and "\<And>n. clock n = c" and "\<forall>p\<in>set (tr_peers t). settled clock window n0 n1 p"
  shows "tr_peers (snd (Sweep clock window None t)) = tr_peers t \<and> tr_events (snd (Sweep clock window None t)) = tr_events t"
proof -
  have "tr_peers (snd (fold (sweep_peer clock window None) ps a)) = tr_peers t \<and>
      tr_events (snd (fold (sweep_peer clock window None) ps a)) = tr_events t"
    if "set ps \<subseteq> set (tr_peers t)" "tr_peers (snd a) = tr_peers t" "tr_events (snd a) = tr_events t" for ps a
    using that
  proof (induction ps arbitrary: a)
    case (Cons p ps)
    have "tr_peers (snd (sweep_peer clock window None p (fst a, snd a))) = tr_peers (snd a)"
      "tr_events (snd (sweep_peer clock window None p (fst a, snd a))) = tr_events (snd a)"
      using quiet_round [of "snd a" p clock c window n0 n1 "fst a"] Cons.prems assms by auto
    with Cons show ?case by simp
  qed simp
  then show ?thesis by (simp add: Sweep_def health_List_def)
qed

text \<open>A sweep. With a positive window and a clock that does not go back, after a sweep every stored state is
  the one the clock implied at some moment of the sweep (this node has just been seen), so every
  peer offered as a read source has been heard from within the window, while no peer is dropped as
  a destination; the summary counts exactly the changes announced for other peers; and sweeping
  again with the clock stopped and nothing probed changes and announces nothing.\<close>

theorem health_sweep:
  assumes "distinct (ids (tr_peers t))" and "0 < window" and "\<forall>n. 0 < clock n" and "mono clock"
    and "Sweep clock window prober t = (sm, t')"
  shows "ids (tr_peers t') = ids (tr_peers t) \<and>
    (\<forall>p\<in>set (tr_peers t'). \<exists>n. tr_reads t \<le> n \<and> n < tr_reads t' \<and> hp_State p = Derive (hp_LastSeenAt p) (clock n) window \<and>
       (hp_IsSelf p \<longrightarrow> hp_State p = StateReachable \<and> hp_LastSeenAt p = clock n)) \<and>
    (\<forall>p\<in>set (Sources (tr_peers t')). \<exists>n. tr_reads t \<le> n \<and> n < tr_reads t' \<and> hp_Seen p \<and> time_Sub (clock n) (hp_LastSeenAt p) \<le> window) \<and>
    Destinations (tr_peers t') = tr_peers t' \<and>
    (\<exists>new. tr_events t' = tr_events t @ new \<and> su_Swept sm = length (tr_peers t) \<and>
       (let selfs = hp_PeerID ` {p \<in> set (tr_peers t). hp_IsSelf p} in
          su_BecameReachable sm = length (filter (\<lambda>e. he_To e = StateReachable \<and> he_PeerID e \<notin> selfs) new) \<and>
          su_BecameUnreachable sm = length (filter (\<lambda>e. he_To e = StateUnreachable \<and> he_PeerID e \<notin> selfs) new))) \<and>
    (\<forall>c. (\<forall>n. clock n = c) \<longrightarrow> tr_peers (snd (Sweep clock window None t')) = tr_peers t' \<and>
       tr_events (snd (Sweep clock window None t')) = tr_events t')"
proof -
  let ?selfs = "hp_PeerID ` {p \<in> set (tr_peers t). hp_IsSelf p}"
  have self: "\<forall>r\<in>set (tr_peers t). hp_IsSelf r \<longleftrightarrow> hp_PeerID r \<in> ?selfs"
    using assms(1) by (auto simp: distinct_map dest: inj_onD)
  have l: "set (health_List t) = set (tr_peers t)" "distinct (ids (health_List t))" "length (health_List t) = length (tr_peers t)"
    using assms(1) by (simp_all add: health_List_def distinct_map)
  let ?start = "(\<lparr>su_Swept = 0, su_Probed = 0, su_BecameReachable = 0, su_BecameUnreachable = 0\<rparr>, t)"
  have "\<exists>new. rounds_ok clock window ?selfs (health_List t) ?start (sm, t') new"
    using sweep_fold [OF assms(2-4), of ?start "health_List t" ?selfs prober] assms(1,5) l(1,2) self by (simp add: Sweep_def)
  then obtain new where "rounds_ok clock window ?selfs (health_List t) ?start (sm, t') new" by blast
  then have f: "ids (tr_peers t') = ids (tr_peers t)"
    "\<forall>r\<in>set (tr_peers t'). if hp_PeerID r \<in> set (ids (health_List t)) then settled clock window (tr_reads t) (tr_reads t') r else r \<in> set (tr_peers t)"
    "tr_events t' = tr_events t @ new" "su_Swept sm = length (tr_peers t)"
    "su_BecameReachable sm = count_to ?selfs StateReachable new" "su_BecameUnreachable sm = count_to ?selfs StateUnreachable new"
    unfolding rounds_ok_def fst_conv snd_conv using l(3) by simp_all
  have all: "settled clock window (tr_reads t) (tr_reads t') r" if "r \<in> set (tr_peers t')" for r
    using f(2) that f(1) l(1) by (metis (no_types, lifting) image_eqI list.set_map)
  have "\<forall>p\<in>set (Sources (tr_peers t')). \<exists>n. tr_reads t \<le> n \<and> n < tr_reads t' \<and> hp_Seen p \<and> time_Sub (clock n) (hp_LastSeenAt p) \<le> window"
  proof
    fix p
    assume "p \<in> set (Sources (tr_peers t'))"
    then have p: "settled clock window (tr_reads t) (tr_reads t') p" "hp_State p = StateReachable" using all by (auto simp: Sources_def)
    then obtain n where n: "tr_reads t \<le> n" "n < tr_reads t'" "Derive (hp_LastSeenAt p) (clock n) window = StateReachable"
      unfolding settled_def by metis
    then have "hp_Seen p \<and> time_Sub (clock n) (hp_LastSeenAt p) \<le> window" by (auto simp: Derive_def hp_Seen_def split: if_splits)
    with n show "\<exists>n. tr_reads t \<le> n \<and> n < tr_reads t' \<and> hp_Seen p \<and> time_Sub (clock n) (hp_LastSeenAt p) \<le> window" by blast
  qed
  moreover have "tr_peers (snd (Sweep clock window None t')) = tr_peers t' \<and> tr_events (snd (Sweep clock window None t')) = tr_events t'"
    if "\<forall>n. clock n = c" for c
    by (rule quiet_sweep) (use that all assms(1) f(1) in auto)
  moreover have "\<exists>new. tr_events t' = tr_events t @ new \<and> su_Swept sm = length (tr_peers t) \<and>
       (let selfs = hp_PeerID ` {p \<in> set (tr_peers t). hp_IsSelf p} in
          su_BecameReachable sm = length (filter (\<lambda>e. he_To e = StateReachable \<and> he_PeerID e \<notin> selfs) new) \<and>
          su_BecameUnreachable sm = length (filter (\<lambda>e. he_To e = StateUnreachable \<and> he_PeerID e \<notin> selfs) new))"
    unfolding Let_def by (rule exI [of _ new]) (use f(3-6) in \<open>simp add: count_to_def\<close>)
  moreover have "\<forall>p\<in>set (tr_peers t'). \<exists>n. tr_reads t \<le> n \<and> n < tr_reads t' \<and> hp_State p = Derive (hp_LastSeenAt p) (clock n) window \<and>
       (hp_IsSelf p \<longrightarrow> hp_State p = StateReachable \<and> hp_LastSeenAt p = clock n)"
    using all unfolding settled_def by blast
  moreover have "Destinations (tr_peers t') = tr_peers t'" by (simp add: Destinations_def)
  ultimately show ?thesis using f(1) by (intro conjI allI impI) blast+
qed

theorem health_sweep_witness:
  "Sources (tr_peers (snd (Sweep (\<lambda>n. 5000 + int n) 100 None
     \<lparr>tr_peers = [\<lparr>hp_PeerID = ''a'', hp_Name = ''a'', hp_Endpoint = [], hp_PublicKey = [1], hp_IsSelf = False, hp_State = StateReachable, hp_LastSeenAt = 7\<rparr>],
      tr_events = [], tr_reads = 0\<rparr>))) = []"
proof -
  let ?p = "\<lparr>hp_PeerID = ''a'', hp_Name = ''a'', hp_Endpoint = [], hp_PublicKey = [1], hp_IsSelf = False, hp_State = StateReachable, hp_LastSeenAt = 7\<rparr>"
  let ?t = "\<lparr>tr_peers = [?p], tr_events = [], tr_reads = 0\<rparr>" and ?clock = "\<lambda>n. 5000 + int n"
  obtain sm t' where sw: "Sweep ?clock 100 None ?t = (sm, t')" by fastforce
  then have rows: "tr_peers t' = [?p\<lparr>hp_State := StateUnreachable\<rparr>]"
    by (auto simp: Sweep_def health_List_def sweep_peer_def sweep_probe_def sweep_check_def shouldProbe_def Derive_def time_Sub_def
        transition_def set_peer_def Let_def)
  have "distinct (ids (tr_peers ?t))" "(0::int) < 100" "\<forall>n. 0 < ?clock n" "mono ?clock" by (auto simp: mono_def)
  from health_sweep [OF this sw] have "\<forall>p\<in>set (Sources (tr_peers t')). \<exists>n. hp_Seen p \<and> time_Sub (?clock n) (hp_LastSeenAt p) \<le> 100" by blast
  then show ?thesis unfolding sw snd_conv rows by (auto simp: Sources_def)
qed

section \<open>Any interleaving of transactions\<close>

text \<open>The tracker runs beside everything else the node does: peers are enrolled and removed, peers answer and
  call in, and sweeps hold copies of rows they have read while other transactions commit. \<open>hs_copies\<close>
  are all the copies read so far and \<open>hs_used\<close> the ids ever given out (they are never reused).\<close>

record HealthSystem =
  hs_tracker :: Tracker
  hs_copies :: "HealthPeer set"
  hs_used :: "string set"

inductive health_step :: "Clock \<Rightarrow> int \<Rightarrow> HealthSystem \<Rightarrow> HealthSystem \<Rightarrow> bool" for clock window where
  enrol: "hp_PeerID p \<notin> hs_used s \<Longrightarrow> hp_State p = StateUnknown \<Longrightarrow> hp_LastSeenAt p = 0 \<Longrightarrow>
    health_step clock window s (s\<lparr>hs_tracker := (hs_tracker s)\<lparr>tr_peers := tr_peers (hs_tracker s) @ [p]\<rparr>,
      hs_used := insert (hp_PeerID p) (hs_used s)\<rparr>)"
| remove: "health_step clock window s
    (s\<lparr>hs_tracker := (hs_tracker s)\<lparr>tr_peers := filter (\<lambda>p. hp_PeerID p \<noteq> i) (tr_peers (hs_tracker s))\<rparr>\<rparr>)"
| answered: "health_step clock window s (s\<lparr>hs_tracker := Answered clock window i (hs_tracker s)\<rparr>)"
| seen: "health_step clock window s (s\<lparr>hs_tracker := Seen clock window k (hs_tracker s)\<rparr>)"
| listed: "health_step clock window s (s\<lparr>hs_copies := hs_copies s \<union> set (health_List (hs_tracker s))\<rparr>)"
| probed: "p \<in> hs_copies s \<Longrightarrow> Now clock (Answered clock window (hp_PeerID p) (hs_tracker s)) = (now, t) \<Longrightarrow>
    health_step clock window s
      (s\<lparr>hs_tracker := t, hs_copies := insert (p\<lparr>hp_State := StateReachable, hp_LastSeenAt := now\<rparr>) (hs_copies s)\<rparr>)"
| read: "health_step clock window s (s\<lparr>hs_tracker := snd (Now clock (hs_tracker s))\<rparr>)"
| moved: "p \<in> hs_copies s \<Longrightarrow> Derive (hp_LastSeenAt p) (clock n) window = want \<Longrightarrow> want \<noteq> hp_State p \<Longrightarrow> n < tr_reads (hs_tracker s) \<Longrightarrow>
    health_step clock window s (s\<lparr>hs_tracker := transition clock window p want (hs_tracker s)\<rparr>)"

inductive_cases health_stepE: "health_step clock window s s'"

definition health_start :: HealthSystem where
  "health_start = \<lparr>hs_tracker = \<lparr>tr_peers = [], tr_events = [], tr_reads = 0\<rparr>, hs_copies = {}, hs_used = {}\<rparr>"

inductive health_reach :: "Clock \<Rightarrow> int \<Rightarrow> HealthSystem \<Rightarrow> bool" for clock window where
  start: "health_reach clock window health_start"
| step: "health_reach clock window s \<Longrightarrow> health_step clock window s s' \<Longrightarrow> health_reach clock window s'"

text \<open>The changes announced for one peer link up, each from where the last one ended.\<close>

fun chain :: "PeerState \<Rightarrow> HealthEvent list \<Rightarrow> PeerState \<Rightarrow> bool" where
  "chain a [] b \<longleftrightarrow> a = b"
| "chain a (e # es) b \<longleftrightarrow> he_From e = a \<and> he_To e \<noteq> a \<and> chain (he_To e) es b"

lemma chain_snoc: "chain a (es @ [e]) c \<longleftrightarrow> chain a es (he_From e) \<and> he_To e \<noteq> he_From e \<and> c = he_To e"
  by (induction es arbitrary: a) auto

definition events_of :: "string \<Rightarrow> HealthEvent list \<Rightarrow> HealthEvent list" where
  "events_of i es = filter (\<lambda>e. he_PeerID e = i) es"

definition never_seen_ok :: "HealthPeer \<Rightarrow> bool" where
  "never_seen_ok p \<longleftrightarrow> (hp_State p = StateUnknown \<longleftrightarrow> hp_LastSeenAt p = 0)"

definition event_ok :: "int \<Rightarrow> HealthEvent \<Rightarrow> bool" where
  "event_ok window e \<longleftrightarrow> he_To e \<noteq> StateUnknown \<and> he_From e \<noteq> he_To e \<and> he_LastSeenAt e \<noteq> None \<and> he_Window e = window \<and>
     (he_From e = StateUnknown \<longrightarrow> he_To e = StateReachable)"

definition health_inv :: "int \<Rightarrow> HealthSystem \<Rightarrow> bool" where
  "health_inv window s \<longleftrightarrow>
     distinct (ids (tr_peers (hs_tracker s))) \<and>
     set (ids (tr_peers (hs_tracker s))) \<subseteq> hs_used s \<and> hp_PeerID ` hs_copies s \<subseteq> hs_used s \<and>
     he_PeerID ` set (tr_events (hs_tracker s)) \<subseteq> hs_used s \<and>
     (\<forall>p\<in>set (tr_peers (hs_tracker s)) \<union> hs_copies s. never_seen_ok p) \<and>
     (\<forall>c\<in>hs_copies s. \<forall>p\<in>set (tr_peers (hs_tracker s)). hp_PeerID c = hp_PeerID p \<and> hp_Seen c \<longrightarrow> hp_Seen p) \<and>
     (\<forall>e\<in>set (tr_events (hs_tracker s)). event_ok window e) \<and>
     (\<forall>p\<in>set (tr_peers (hs_tracker s)). chain StateUnknown (events_of (hp_PeerID p) (tr_events (hs_tracker s))) (hp_State p))"

lemma inv_reads: "health_inv window s \<Longrightarrow> health_inv window (s\<lparr>hs_tracker := (hs_tracker s)\<lparr>tr_reads := n\<rparr>\<rparr>)"
  by (simp add: health_inv_def)

text \<open>One row changes and the change, if it is one, is announced.\<close>

lemma inv_update:
  assumes "health_inv window s" and "q \<in> set (tr_peers (hs_tracker s))" and "hp_PeerID q' = hp_PeerID q"
    and "never_seen_ok q'" and "hp_Seen q \<Longrightarrow> hp_Seen q'"
    and "new = [] \<and> hp_State q' = hp_State q \<or>
      (\<exists>e. new = [e] \<and> he_PeerID e = hp_PeerID q \<and> he_From e = hp_State q \<and> he_To e = hp_State q' \<and> event_ok window e)"
  shows "health_inv window (s\<lparr>hs_tracker := (hs_tracker s)\<lparr>tr_peers := set_peer (hp_PeerID q) (\<lambda>_. q') (tr_peers (hs_tracker s)),
    tr_events := tr_events (hs_tracker s) @ new, tr_reads := n\<rparr>\<rparr>)"
proof -
  let ?rows = "tr_peers (hs_tracker s)" and ?rows' = "set_peer (hp_PeerID q) (\<lambda>_. q') (tr_peers (hs_tracker s))"
  note inv = assms(1) [unfolded health_inv_def]
  have ids': "ids ?rows' = ids ?rows" using assms(3) by simp
  have used: "hp_PeerID q \<in> hs_used s" using inv assms(2) by auto
  have new: "\<forall>e\<in>set new. he_PeerID e = hp_PeerID q \<and> event_ok window e" using assms(6) by auto
  have mem: "r = q' \<or> r \<in> set ?rows \<and> hp_PeerID r \<noteq> hp_PeerID q" if "r \<in> set ?rows'" for r
    using that unfolding mem_set_peer by blast
  have chain: "chain StateUnknown (events_of (hp_PeerID r) (tr_events (hs_tracker s) @ new)) (hp_State r)" if "r \<in> set ?rows'" for r
    using mem [OF that]
  proof
    assume r: "r = q'"
    have "chain StateUnknown (events_of (hp_PeerID q) (tr_events (hs_tracker s))) (hp_State q)" using inv assms(2) by blast
    with r assms(3,6) show ?thesis by (auto simp: events_of_def chain_snoc event_ok_def)
  next
    assume r: "r \<in> set ?rows \<and> hp_PeerID r \<noteq> hp_PeerID q"
    then have "events_of (hp_PeerID r) new = []" using new by (auto simp: events_of_def filter_empty_conv)
    then show ?thesis using r inv by (simp add: events_of_def)
  qed
  have copies: "hp_PeerID c = hp_PeerID r \<and> hp_Seen c \<longrightarrow> hp_Seen r" if "c \<in> hs_copies s" "r \<in> set ?rows'" for c r
    using mem [OF that(2)] inv assms(2,3,5) that(1) by metis
  have ok: "never_seen_ok r" if "r \<in> set ?rows' \<union> hs_copies s" for r
    using that mem [of r] inv assms(4) by blast
  show ?thesis
    unfolding health_inv_def using inv ids' used new chain copies ok by (auto simp del: set_map)
qed

lemma find_mem: "find P ps = Some p \<Longrightarrow> p \<in> set ps \<and> P p"
  by (auto simp: find_Some_iff)

lemma find_unique:
  assumes "x \<in> set xs" and "\<And>y. y \<in> set xs \<Longrightarrow> P y \<Longrightarrow> y = x" and "P x"
  shows "find P xs = Some x"
proof (cases "find P xs")
  case None
  then show ?thesis using assms(1,3) by (simp add: find_None_iff)
next
  case (Some y)
  then show ?thesis using find_mem [OF Some] assms(2) by blast
qed

lemma inv_Answered:
  assumes "health_inv window s" and "\<forall>n. 0 < clock n"
  shows "health_inv window (s\<lparr>hs_tracker := Answered clock window i (hs_tracker s)\<rparr>)"
proof (cases "find (\<lambda>p. hp_PeerID p = i) (tr_peers (hs_tracker s))")
  case None
  then show ?thesis using inv_reads [OF assms(1)] by (simp add: Answered_def)
next
  case (Some p)
  from find_mem [OF this] have p: "p \<in> set (tr_peers (hs_tracker s))" "hp_PeerID p = i" by auto
  have d: "distinct (ids (tr_peers (hs_tracker s)))" using assms(1) by (simp add: health_inv_def)
  have "clock (tr_reads (hs_tracker s)) \<noteq> 0" using assms(2) by (metis less_irrefl)
  then show ?thesis
    unfolding p(2) [symmetric] Answered_row [OF d p(1)]
    by (intro inv_update [OF assms(1) p(1)]) (auto simp: never_seen_ok_def hp_Seen_def event_ok_def emitTx_def)
qed

lemma inv_Seen:
  assumes "health_inv window s" and "\<forall>n. 0 < clock n"
  shows "health_inv window (s\<lparr>hs_tracker := Seen clock window k (hs_tracker s)\<rparr>)"
  using assms inv_Answered [OF assms] inv_Answered [OF inv_reads [OF assms(1)] assms(2)] inv_reads [OF assms(1)]
  by (auto simp: Seen_def Let_def split: option.split)

lemma inv_transition:
  assumes "health_inv window s" and "p \<in> hs_copies s" and "Derive (hp_LastSeenAt p) (clock n) window = want" and "want \<noteq> hp_State p"
  shows "health_inv window (s\<lparr>hs_tracker := transition clock window p want (hs_tracker s)\<rparr>)"
proof (cases "find (\<lambda>q. hp_PeerID q = hp_PeerID p) (tr_peers (hs_tracker s))")
  case None
  then show ?thesis using inv_reads [OF assms(1)] by (simp add: transition_def)
next
  case (Some q)
  from find_mem [OF this] have q: "q \<in> set (tr_peers (hs_tracker s))" "hp_PeerID q = hp_PeerID p" by auto
  note inv = assms(1) [unfolded health_inv_def]
  show ?thesis
  proof (cases "hp_State q = want")
    case True
    then show ?thesis using Some inv_reads [OF assms(1)] by (simp add: transition_def)
  next
    case False
    have "never_seen_ok p" "never_seen_ok q" using inv assms(2) q(1) by blast+
    then have p: "hp_Seen p" "want \<noteq> StateUnknown"
      using assms(3,4) by (auto simp: never_seen_ok_def hp_Seen_def Derive_def split: if_splits)
    then have "hp_Seen q" using inv assms(2) q by metis
    with \<open>never_seen_ok q\<close> p(2) False show ?thesis
      unfolding transition_row [OF conjunct1 [OF inv] q False]
      by (intro inv_update [OF assms(1) q(1)]) (auto simp: never_seen_ok_def hp_Seen_def event_ok_def emitTx_def)
  qed
qed

lemma inv_enrol:
  assumes "health_inv window s" and "hp_PeerID p \<notin> hs_used s" and "hp_State p = StateUnknown" and "hp_LastSeenAt p = 0"
  shows "health_inv window (s\<lparr>hs_tracker := (hs_tracker s)\<lparr>tr_peers := tr_peers (hs_tracker s) @ [p]\<rparr>,
      hs_used := insert (hp_PeerID p) (hs_used s)\<rparr>)"
proof -
  note inv = assms(1) [unfolded health_inv_def]
  let ?rows = "tr_peers (hs_tracker s)"
  have none: "events_of (hp_PeerID p) (tr_events (hs_tracker s)) = []"
    using inv assms(2) by (auto simp: events_of_def filter_empty_conv)
  have fresh: "\<forall>c\<in>hs_copies s. hp_PeerID c \<noteq> hp_PeerID p" "hp_PeerID p \<notin> set (ids ?rows)"
  proof -
    have "hp_PeerID ` hs_copies s \<subseteq> hs_used s" "set (ids ?rows) \<subseteq> hs_used s" using inv by simp_all
    with assms(2) show "\<forall>c\<in>hs_copies s. hp_PeerID c \<noteq> hp_PeerID p" "hp_PeerID p \<notin> set (ids ?rows)" by auto
  qed
  have copies: "hp_PeerID c = hp_PeerID q \<and> hp_Seen c \<longrightarrow> hp_Seen q" if "c \<in> hs_copies s" "q \<in> set (?rows @ [p])" for c q
  proof (cases "q = p")
    case True
    then show ?thesis using fresh(1) that(1) by blast
  next
    case False
    then have "q \<in> set ?rows" using that(2) by simp
    then show ?thesis using inv that(1) by blast
  qed
  have chains: "chain StateUnknown (events_of (hp_PeerID q) (tr_events (hs_tracker s))) (hp_State q)" if "q \<in> set (?rows @ [p])" for q
    using that inv none assms(3) by (cases "q = p") auto
  have ok: "never_seen_ok q" if "q \<in> set (?rows @ [p]) \<union> hs_copies s" for q
    using that inv assms(3,4) by (cases "q = p") (auto simp: never_seen_ok_def)
  have used: "distinct (ids (?rows @ [p]))" "set (ids (?rows @ [p])) \<subseteq> insert (hp_PeerID p) (hs_used s)"
    "hp_PeerID ` hs_copies s \<subseteq> insert (hp_PeerID p) (hs_used s)"
    "he_PeerID ` set (tr_events (hs_tracker s)) \<subseteq> insert (hp_PeerID p) (hs_used s)" "\<forall>e\<in>set (tr_events (hs_tracker s)). event_ok window e"
    using inv fresh by (simp, auto)
  show ?thesis unfolding health_inv_def using used copies chains ok by simp
qed

lemma inv_remove:
  "health_inv window s \<Longrightarrow>
   health_inv window (s\<lparr>hs_tracker := (hs_tracker s)\<lparr>tr_peers := filter (\<lambda>p. hp_PeerID p \<noteq> i) (tr_peers (hs_tracker s))\<rparr>\<rparr>)"
  unfolding health_inv_def by (auto simp: distinct_map_filter)

lemma inv_copy:
  assumes "health_inv window s" and "hp_PeerID c \<in> hs_used s" and "never_seen_ok c"
    and "\<And>p. p \<in> set (tr_peers (hs_tracker s)) \<Longrightarrow> hp_PeerID c = hp_PeerID p \<Longrightarrow> hp_Seen c \<Longrightarrow> hp_Seen p"
  shows "health_inv window (s\<lparr>hs_copies := insert c (hs_copies s)\<rparr>)"
  using assms unfolding health_inv_def by (auto simp del: set_map)

lemma inv_listed:
  assumes "health_inv window s"
  shows "health_inv window (s\<lparr>hs_copies := hs_copies s \<union> set (health_List (hs_tracker s))\<rparr>)"
proof -
  note inv = assms [unfolded health_inv_def]
  have same: "set (health_List (hs_tracker s)) = set (tr_peers (hs_tracker s))" by (simp add: health_List_def)
  have "c = p" if "c \<in> set (tr_peers (hs_tracker s))" "p \<in> set (tr_peers (hs_tracker s))" "hp_PeerID c = hp_PeerID p" for c p
    using inv that by (meson distinct_map inj_onD)
  then show ?thesis unfolding health_inv_def same using inv by auto
qed

lemma Answered_seen:
  assumes "\<forall>n. 0 < clock n" and "p \<in> set (tr_peers (Answered clock window i t))" and "hp_PeerID p = i"
  shows "hp_Seen p"
proof -
  have now: "clock (tr_reads t) \<noteq> 0" using assms(1) by (metis less_irrefl)
  show ?thesis
  proof (cases "find (\<lambda>q. hp_PeerID q = i) (tr_peers t)")
    case None
    then have "tr_peers (Answered clock window i t) = tr_peers t" by (simp add: Answered_def)
    then show ?thesis using None assms(2,3) by (simp add: find_None_iff)
  next
    case (Some q)
    let ?f = "\<lambda>q. q\<lparr>hp_LastSeenAt := clock (tr_reads t), hp_State := StateReachable\<rparr>"
    have "tr_peers (Answered clock window i t) = set_peer i ?f (tr_peers t)" using Some by (simp add: Answered_def Let_def)
    then obtain r where "p = (if hp_PeerID r = i then ?f r else r)" using assms(2) by (auto simp only: set_peer_def set_map)
    then show ?thesis using now assms(3) by (auto simp: hp_Seen_def split: if_splits)
  qed
qed

lemma health_inv_step:
  assumes "health_step clock window s s'" and "health_inv window s" and "\<forall>n. 0 < clock n"
  shows "health_inv window s'"
  using assms(1)
proof (cases rule: health_step.cases)
  case (probed p now t)
  let ?s = "s\<lparr>hs_tracker := Answered clock window (hp_PeerID p) (hs_tracker s)\<rparr>"
  let ?t = "Answered clock window (hp_PeerID p) (hs_tracker s)"
  have t: "t = ?t\<lparr>tr_reads := tr_reads ?t + 1\<rparr>" "now = clock (tr_reads ?t)" using probed(3) by auto
  have "health_inv window (?s\<lparr>hs_tracker := t\<rparr>)" using inv_reads [OF inv_Answered [OF assms(2,3)]] unfolding t(1) by simp
  then have inv: "health_inv window (s\<lparr>hs_tracker := t\<rparr>)" by simp
  have "hp_PeerID p \<in> hs_used s" using assms(2) probed(2) unfolding health_inv_def by blast
  moreover have "now \<noteq> 0" using assms(3) t(2) by (metis less_irrefl)
  moreover have rows: "tr_peers t = tr_peers ?t" using t(1) by simp
  have "hp_Seen r" if "r \<in> set (tr_peers t)" "hp_PeerID p = hp_PeerID r" for r
    by (rule Answered_seen [OF assms(3) that(1) [unfolded rows] that(2) [symmetric]])
  ultimately have "health_inv window (s\<lparr>hs_tracker := t, hs_copies := insert (p\<lparr>hp_State := StateReachable, hp_LastSeenAt := now\<rparr>) (hs_copies s)\<rparr>)"
    using inv_copy [OF inv, of "p\<lparr>hp_State := StateReachable, hp_LastSeenAt := now\<rparr>"] by (simp add: never_seen_ok_def)
  then show ?thesis unfolding probed(1) .
next
  case (enrol p)
  then show ?thesis using inv_enrol [OF assms(2)] by simp
next
  case (remove i)
  then show ?thesis using inv_remove [OF assms(2)] by simp
next
  case (answered i)
  then show ?thesis using inv_Answered [OF assms(2,3)] by simp
next
  case (seen k)
  then show ?thesis using inv_Seen [OF assms(2,3)] by simp
next
  case listed
  then show ?thesis using inv_listed [OF assms(2)] by simp
next
  case read
  then show ?thesis using inv_reads [OF assms(2)] by simp
next
  case (moved p n want)
  then show ?thesis using inv_transition [OF assms(2)] by simp
qed

lemma reach_inv: "health_reach clock window s \<Longrightarrow> \<forall>n. 0 < clock n \<Longrightarrow> health_inv window s"
proof (induction rule: health_reach.induct)
  case start
  show ?case by (simp add: health_inv_def health_start_def)
next
  case (step s s')
  then show ?case using health_inv_step by blast
qed

text \<open>An undisturbed sweep is one of the interleavings.\<close>

lemma reach_reads: "health_reach clock window s \<Longrightarrow> health_reach clock window (s\<lparr>hs_tracker := (hs_tracker s)\<lparr>tr_reads := tr_reads (hs_tracker s) + k\<rparr>\<rparr>)"
proof (induction k)
  case (Suc k)
  from health_reach.step [OF Suc.IH [OF Suc.prems] health_step.read] show ?case by simp
qed simp

lemma reach_check:
  assumes "health_reach clock window s" and "p \<in> hs_copies s"
  shows "health_reach clock window (s\<lparr>hs_tracker := snd (sweep_check clock window (sm, p, hs_tracker s))\<rparr>)"
proof -
  let ?s = "s\<lparr>hs_tracker := (hs_tracker s)\<lparr>tr_reads := tr_reads (hs_tracker s) + 1\<rparr>\<rparr>"
  let ?want = "Derive (hp_LastSeenAt p) (clock (tr_reads (hs_tracker s))) window"
  have r: "health_reach clock window ?s" using reach_reads [OF assms(1), of 1] by simp
  have "health_step clock window ?s (?s\<lparr>hs_tracker := transition clock window p ?want (hs_tracker ?s)\<rparr>)" if "?want \<noteq> hp_State p"
    by (rule health_step.moved) (use assms(2) that in auto)
  from health_reach.step [OF r this] r show ?thesis
    by (auto simp: sweep_check_def Let_def split: PeerState.split)
qed

lemma reach_round:
  assumes "health_reach clock window s" and "p \<in> hs_copies s"
  shows "\<exists>C. hs_copies s \<subseteq> C \<and> health_reach clock window
    (s\<lparr>hs_tracker := snd (sweep_peer clock window prober p (sm, hs_tracker s)), hs_copies := C\<rparr>)"
proof (cases "hp_IsSelf p")
  case True
  then show ?thesis using health_reach.step [OF assms(1) health_step.answered]
    by (intro exI [of _ "hs_copies s"]) (simp add: sweep_peer_def Let_def)
next
  case False
  let ?sm = "sm\<lparr>su_Swept := su_Swept sm + 1\<rparr>"
  obtain b t where sp: "shouldProbe clock window prober p (hs_tracker s) = (b, t)" by fastforce
  then obtain k where k: "t = (hs_tracker s)\<lparr>tr_reads := tr_reads (hs_tracker s) + k\<rparr>" using shouldProbe_eq by blast
  have r: "health_reach clock window (s\<lparr>hs_tracker := t\<rparr>)" using reach_reads [OF assms(1)] k by simp
  have eq: "sweep_peer clock window prober p (sm, hs_tracker s) = sweep_check clock window (sweep_probe clock window prober p (?sm, hs_tracker s))"
    using False by (simp add: sweep_peer_def Let_def)
  show ?thesis
  proof (cases "b \<and> the prober (tr_reads t) p")
    case True
    let ?t1 = "Answered clock window (hp_PeerID p) t"
    let ?c = "p\<lparr>hp_State := StateReachable, hp_LastSeenAt := clock (tr_reads ?t1)\<rparr>"
    let ?s2 = "s\<lparr>hs_tracker := ?t1\<lparr>tr_reads := tr_reads ?t1 + 1\<rparr>, hs_copies := insert ?c (hs_copies s)\<rparr>"
    obtain sm' where probe: "sweep_probe clock window prober p (?sm, hs_tracker s) = (sm', ?c, hs_tracker ?s2)"
      using True sp by (auto simp: sweep_probe_def Let_def)
    have swap: "?s2\<lparr>hs_tracker := u\<rparr> = s\<lparr>hs_tracker := u, hs_copies := insert ?c (hs_copies s)\<rparr>" for u by (cases s) simp
    have "health_step clock window (s\<lparr>hs_tracker := t\<rparr>) ?s2"
      using health_step.probed [of p "s\<lparr>hs_tracker := t\<rparr>" clock window "clock (tr_reads ?t1)" "hs_tracker ?s2"] assms(2) by simp
    then have "health_reach clock window ?s2" by (rule health_reach.step [OF r])
    then have "health_reach clock window (?s2\<lparr>hs_tracker := snd (sweep_check clock window (sm', ?c, hs_tracker ?s2))\<rparr>)"
      by (rule reach_check) simp
    then show ?thesis unfolding eq probe swap by (intro exI [of _ "insert ?c (hs_copies s)"]) (simp only: subset_insertI)
  next
    case quiet: False
    have "\<exists>sm'. sweep_probe clock window prober p (?sm, hs_tracker s) = (sm', p, t)"
    proof (cases b)
      case True
      with quiet have "\<not> the prober (tr_reads t) p" by simp
      with sp True show ?thesis by (simp add: sweep_probe_def Let_def)
    qed (use sp in \<open>simp add: sweep_probe_def Let_def\<close>)
    then show ?thesis unfolding eq using reach_check [OF r, of p] assms(2)
      by (intro exI [of _ "hs_copies s"]) auto
  qed
qed

lemma reach_sweep:
  assumes "health_reach clock window s"
  shows "\<exists>C. health_reach clock window (s\<lparr>hs_tracker := snd (Sweep clock window prober (hs_tracker s)), hs_copies := C\<rparr>)"
proof -
  have "\<exists>C. health_reach clock window (s\<lparr>hs_tracker := snd (fold (sweep_peer clock window prober) ps (sm, hs_tracker s)), hs_copies := C\<rparr>)"
    if "health_reach clock window s" "set ps \<subseteq> hs_copies s" for ps sm s
    using that
  proof (induction ps arbitrary: sm s)
    case Nil
    then have "health_reach clock window (s\<lparr>hs_copies := hs_copies s\<rparr>)" by simp
    then show ?case by (intro exI [of _ "hs_copies s"]) simp
  next
    case (Cons p ps)
    obtain C where C: "hs_copies s \<subseteq> C"
      "health_reach clock window (s\<lparr>hs_tracker := snd (sweep_peer clock window prober p (sm, hs_tracker s)), hs_copies := C\<rparr>)"
      using reach_round [OF Cons.prems(1), of p prober sm] Cons.prems(2) by auto
    from Cons.IH [OF C(2), of "fst (sweep_peer clock window prober p (sm, hs_tracker s))"] C(1) Cons.prems(2) show ?case by auto
  qed
  from this [OF health_reach.step [OF assms health_step.listed]] show ?thesis unfolding Sweep_def by auto
qed

text \<open>C16: the announced changes, under any interleaving of enrolments, removals, answers, calls and the transactions
  of sweeps. The changes announced for a peer link up from unknown to the stored state, and each is a
  change (never a heartbeat); none leads to unknown, the first leads to reachable, and each says when
  the peer was last alive. A stored state is unknown exactly while nothing has been heard from the
  peer. An undisturbed sweep is one of these interleavings.\<close>

theorem health_edges:
  assumes "health_reach clock window s" and "\<forall>n. 0 < clock n"
  shows "(\<forall>p\<in>set (tr_peers (hs_tracker s)).
      chain StateUnknown (filter (\<lambda>e. he_PeerID e = hp_PeerID p) (tr_events (hs_tracker s))) (hp_State p) \<and>
      (hp_State p = StateUnknown \<longleftrightarrow> \<not> hp_Seen p)) \<and>
    (\<forall>e\<in>set (tr_events (hs_tracker s)). he_To e \<noteq> StateUnknown \<and> he_From e \<noteq> he_To e \<and> he_LastSeenAt e \<noteq> None \<and>
      he_Window e = window \<and> (he_From e = StateUnknown \<longrightarrow> he_To e = StateReachable)) \<and>
    (\<exists>C. health_reach clock window (s\<lparr>hs_tracker := snd (Sweep clock window prober (hs_tracker s)), hs_copies := C\<rparr>))"
  using reach_inv [OF assms] reach_sweep [OF assms(1), of prober]
  unfolding health_inv_def events_of_def event_ok_def never_seen_ok_def hp_Seen_def by simp

theorem health_edges_witness:
  "\<exists>s e. health_reach (\<lambda>n. 5000 + int n) 100 s \<and> tr_events (hs_tracker s) = [e] \<and>
     he_From e = StateUnknown \<and> he_To e = StateReachable \<and>
     (\<forall>p\<in>set (tr_peers (hs_tracker s)). chain StateUnknown [e] (hp_State p))"
proof -
  let ?clock = "\<lambda>n. 5000 + int n"
  let ?p = "\<lparr>hp_PeerID = ''a'', hp_Name = ''a'', hp_Endpoint = [], hp_PublicKey = [1], hp_IsSelf = False, hp_State = StateUnknown, hp_LastSeenAt = 0\<rparr>"
  let ?s1 = "health_start\<lparr>hs_tracker := (hs_tracker health_start)\<lparr>tr_peers := tr_peers (hs_tracker health_start) @ [?p]\<rparr>,
      hs_used := insert (hp_PeerID ?p) (hs_used health_start)\<rparr>"
  let ?s2 = "?s1\<lparr>hs_tracker := Answered ?clock 100 ''a'' (hs_tracker ?s1)\<rparr>"
  have "health_step ?clock 100 health_start ?s1" by (rule health_step.enrol) (simp_all add: health_start_def)
  from health_reach.step [OF health_reach.start this] have r: "health_reach ?clock 100 ?s2"
    by (rule health_reach.step) (rule health_step.answered)
  have ev: "tr_events (hs_tracker ?s2) = [emitTx 100 ?p StateReachable 5000]" "\<forall>p\<in>set (tr_peers (hs_tracker ?s2)). hp_PeerID p = ''a''"
    by (simp_all add: health_start_def Answered_def set_peer_def Let_def)
  have "\<forall>p\<in>set (tr_peers (hs_tracker ?s2)).
      chain StateUnknown (filter (\<lambda>e. he_PeerID e = hp_PeerID p) (tr_events (hs_tracker ?s2))) (hp_State p)"
    using health_edges [OF r] by simp
  then show ?thesis using r ev by (intro exI [of _ ?s2] exI [of _ "emitTx 100 ?p StateReachable 5000"]) (auto simp: emitTx_def)
qed

text \<open>A sweep can overtake an answer. The verdict is taken on the copy read at the start of the sweep, and the
  transaction that stores it looks only at the stored state: if the silent peer answers in between,
  it is stored and announced as unreachable although it has just been heard from, with the moment of
  that answer as the time it was last seen. The next request the peer makes puts it right, the
  throttle on recording them notwithstanding.\<close>

theorem sweep_overtakes_answer:
  assumes "distinct (ids (tr_peers t))" and "p \<in> set (tr_peers t)" and "hp_State p = StateReachable"
    and "Derive (hp_LastSeenAt p) verdict window = StateUnreachable"
    and "\<forall>n. 0 < clock n" and "clock (tr_reads t + 1) - clock (tr_reads t) \<le> window" and "0 < window" and "window < 2 ^ 63 - 1"
    and "\<forall>q\<in>set (tr_peers t). hp_PublicKey q = hp_PublicKey p \<longrightarrow> q = p"
  shows "let t1 = Answered clock window (hp_PeerID p) t;
      t2 = transition clock window p (Derive (hp_LastSeenAt p) verdict window) t1;
      q = p\<lparr>hp_LastSeenAt := clock (tr_reads t), hp_State := StateUnreachable\<rparr> in
    q \<in> set (tr_peers t2) \<and> Derive (hp_LastSeenAt q) (clock (tr_reads t1)) window = StateReachable \<and>
    tr_events t2 = tr_events t @ [\<lparr>he_PeerID = hp_PeerID p, he_Name = hp_Name p, he_From = StateReachable, he_To = StateUnreachable,
      he_Window = window, he_LastSeenAt = Some (clock (tr_reads t))\<rparr>] \<and>
    q\<lparr>hp_LastSeenAt := clock (tr_reads t2), hp_State := StateReachable\<rparr> \<in> set (tr_peers (Seen clock window (hp_PublicKey p) t2))"
proof -
  let ?n = "tr_reads t" and ?w = "Derive (hp_LastSeenAt p) verdict window"
  let ?p1 = "p\<lparr>hp_LastSeenAt := clock ?n, hp_State := StateReachable\<rparr>"
    and ?q = "p\<lparr>hp_LastSeenAt := clock ?n, hp_State := StateUnreachable\<rparr>"
  let ?t1 = "Answered clock window (hp_PeerID p) t" and ?t2 = "transition clock window p ?w (Answered clock window (hp_PeerID p) t)"
  have now: "clock ?n \<noteq> 0" using assms(5) by (metis less_irrefl)
  have t1: "?t1 = t\<lparr>tr_peers := set_peer (hp_PeerID p) (\<lambda>_. ?p1) (tr_peers t), tr_reads := ?n + 1\<rparr>"
    using Answered_row [OF assms(1,2)] assms(3) by simp
  have row: "?p1 \<in> set (tr_peers ?t1)" "distinct (ids (tr_peers ?t1))"
    unfolding t1 using assms(1,2) by (auto simp: mem_set_peer)
  have t2: "?t2 = t\<lparr>tr_peers := set_peer (hp_PeerID p) (\<lambda>_. ?q) (tr_peers t), tr_events := tr_events t @ [emitTx window ?p1 StateUnreachable (clock (?n + 1))],
      tr_reads := ?n + 2\<rparr>"
    using transition_row [OF row(2,1), of p ?w clock window] assms(4) unfolding t1 by (simp add: set_peer_twice)
  have q: "?q \<in> set (tr_peers ?t2)" "distinct (ids (tr_peers ?t2))" unfolding t2 using assms(1,2) by (auto simp: mem_set_peer)
  have fresh: "Derive (clock ?n) (clock (?n + 1)) window = StateReachable"
    using now assms(6-8) by (auto simp: Derive_def time_Sub_def)
  have "find (\<lambda>r. hp_PublicKey r = hp_PublicKey p) (tr_peers ?t2) = Some ?q"
  proof (rule find_unique [OF q(1)])
    fix r
    assume r: "r \<in> set (tr_peers ?t2)" "hp_PublicKey r = hp_PublicKey p"
    then have "r = ?q \<or> r \<in> set (tr_peers t) \<and> hp_PeerID r \<noteq> hp_PeerID p" unfolding t2 by (auto simp: mem_set_peer)
    then show "r = ?q" using r(2) assms(9) by blast
  qed simp
  then have "Seen clock window (hp_PublicKey p) ?t2 = Answered clock window (hp_PeerID ?q) ?t2" by (simp add: Seen_def)
  then have "?q\<lparr>hp_LastSeenAt := clock (tr_reads ?t2), hp_State := StateReachable\<rparr> \<in> set (tr_peers (Seen clock window (hp_PublicKey p) ?t2))"
  proof (simp add: Answered_row [OF q(2,1), simplified] mem_set_peer)
    show "\<exists>r\<in>set (tr_peers ?t2). hp_PeerID r = hp_PeerID p" by (rule bexI [OF _ q(1)]) simp
  qed
  moreover have "tr_events ?t2 = tr_events t @ [\<lparr>he_PeerID = hp_PeerID p, he_Name = hp_Name p, he_From = StateReachable, he_To = StateUnreachable,
      he_Window = window, he_LastSeenAt = Some (clock ?n)\<rparr>]"
    unfolding t2 using now by (simp add: emitTx_def hp_Seen_def)
  ultimately show ?thesis using q(1) fresh unfolding Let_def by (simp add: t1)
qed

theorem sweep_overtakes_answer_witness:
  "\<exists>t. set (tr_peers (transition (\<lambda>n. 5000 + int n) 100 
      \<lparr>hp_PeerID = ''a'', hp_Name = ''a'', hp_Endpoint = [], hp_PublicKey = [1], hp_IsSelf = False, hp_State = StateReachable, hp_LastSeenAt = 7\<rparr>
      (Derive 7 5000 100) (Answered (\<lambda>n. 5000 + int n) 100 ''a'' t))) =
    {\<lparr>hp_PeerID = ''a'', hp_Name = ''a'', hp_Endpoint = [], hp_PublicKey = [1], hp_IsSelf = False, hp_State = StateUnreachable, hp_LastSeenAt = 5000\<rparr>}"
proof -
  let ?p = "\<lparr>hp_PeerID = ''a'', hp_Name = ''a'', hp_Endpoint = [], hp_PublicKey = [1], hp_IsSelf = False, hp_State = StateReachable, hp_LastSeenAt = 7\<rparr>"
  let ?t = "\<lparr>tr_peers = [?p], tr_events = [], tr_reads = 0\<rparr>" and ?clock = "\<lambda>n. 5000 + int n"
  have "distinct (ids (tr_peers ?t))" "?p \<in> set (tr_peers ?t)" "hp_State ?p = StateReachable"
    "Derive (hp_LastSeenAt ?p) 5000 100 = StateUnreachable" "\<forall>n. 0 < ?clock n" "?clock (tr_reads ?t + 1) - ?clock (tr_reads ?t) \<le> 100"
    "(0::int) < 100" "(100::int) < 2 ^ 63 - 1" "\<forall>q\<in>set (tr_peers ?t). hp_PublicKey q = hp_PublicKey ?p \<longrightarrow> q = ?p"
    by (simp_all add: Derive_def time_Sub_def)
  note q = sweep_overtakes_answer [OF this, unfolded Let_def, THEN conjunct1]
  have "length (tr_peers (transition ?clock 100 ?p (Derive 7 5000 100) (Answered ?clock 100 ''a'' ?t))) = 1"
    by (simp add: transition_def Answered_def set_peer_def Let_def Derive_def time_Sub_def)
  then obtain r where "tr_peers (transition ?clock 100 ?p (Derive 7 5000 100) (Answered ?clock 100 ''a'' ?t)) = [r]"
    by (auto simp: length_Suc_conv)
  with q show ?thesis by (intro exI [of _ ?t]) simp
qed

end
