(* ===== verification/Jobs.thy ===== *)
theory Jobs
  imports GoStd "HOL-Library.Finite_Map"
begin

text \<open>
  \<^verbatim>\<open>internal/jobs/jobs.go\<close> and the table of migration \<^verbatim>\<open>00003_jobs.sql\<close>: the durable job queue. The table is the
  list of its rows in the order SQLite walks them, which the theorems do not depend on; the event log is the
  list of committed events. Each operation is one transaction and reads the clock once (\<open>now\<close>);
  statements do not fail except on the unique index over live dedupe keys, as the code expects. Times
  are nanoseconds since the zero time, and a NULL time or text is the zero one, as \<^verbatim>\<open>coalesce\<close> and \<^verbatim>\<open>parse\<close> read
  it. The identifier of a new job and the random jitter are arguments, and so is the encoding of a
  payload, which may fail.
\<close>

datatype JobState = Pending | Leased | Succeeded | Failed | Dead

record Job =
  jb_ID :: string
  jb_Type :: string
  jb_Payload :: string
  jb_State :: JobState
  jb_Priority :: int
  jb_DedupeKey :: string
  jb_RequiredCapability :: string
  jb_RunAfter :: int
  jb_Attempts :: nat
  jb_MaxAttempts :: int
  jb_LeaseOwner :: string
  jb_LeaseExpiresAt :: int
  jb_LastError :: string
  jb_CreatedAt :: int
  jb_UpdatedAt :: int
  jb_FinishedAt :: int

datatype job_error =
  TypeUnset | PayloadUnencodable | EnqueueFailed | OwnerUnset | ErrNotFound | ErrNoWork | ErrLeaseLost string | DedupeConflict string

text \<open>A failure as a handler reports it: its text, and which of the two sentinels it wraps.\<close>

record Cause =
  ca_Message :: string
  ca_Permanent :: bool
  ca_Transient :: bool

definition second :: int where "second = 1000000000"
definition DefaultMaxAttempts :: int where "DefaultMaxAttempts = 5"
definition DefaultPriority :: int where "DefaultPriority = 100"
definition DefaultLeaseTTL :: int where "DefaultLeaseTTL = 60 * second"
definition defaultBaseBackoff :: int where "defaultBaseBackoff = 2 * second"
definition defaultMaxBackoff :: int where "defaultMaxBackoff = 15 * 60 * second"
definition transientBaseBackoff :: int where "transientBaseBackoff = 60 * second"
definition transientMaxBackoff :: int where "transientMaxBackoff = 6 * 3600 * second"

lemmas backoff_constants = second_def defaultBaseBackoff_def defaultMaxBackoff_def transientBaseBackoff_def transientMaxBackoff_def

definition TypeJobEnqueued :: string where "TypeJobEnqueued = ''job.enqueued''"
definition TypeJobSucceeded :: string where "TypeJobSucceeded = ''job.succeeded''"
definition TypeJobFailed :: string where "TypeJobFailed = ''job.failed''"

text \<open>The values of an event's payload.\<close>

datatype pval = PText string | PNum int | PBool bool | PTime int | PState JobState

record JobEvent =
  je_Type :: string
  je_Job :: string
  je_Payload :: "string \<rightharpoonup> pval"

record Queue =
  qu_jobs :: "Job list"
  qu_events :: "JobEvent list"

definition transitionPayload :: "Job \<Rightarrow> (string \<times> pval) list \<Rightarrow> string \<rightharpoonup> pval" where
  "transitionPayload job extra =
     ([''type'' \<mapsto> PText (jb_Type job), ''state'' \<mapsto> PState (jb_State job), ''attempts'' \<mapsto> PNum (int (jb_Attempts job)),
       ''max_attempts'' \<mapsto> PNum (jb_MaxAttempts job)]
      ++ (if jb_DedupeKey job \<noteq> [] then [''dedupe_key'' \<mapsto> PText (jb_DedupeKey job)] else Map.empty)
      ++ (if jb_LastError job \<noteq> [] then [''error'' \<mapsto> PText (jb_LastError job)] else Map.empty)
      ++ map_of extra)"

definition emit :: "string \<Rightarrow> Job \<Rightarrow> (string \<times> pval) list \<Rightarrow> Queue \<Rightarrow> Queue" where
  "emit ty job extra q =
     q\<lparr>qu_events := qu_events q @ [\<lparr>je_Type = ty, je_Job = jb_ID job, je_Payload = transitionPayload job extra\<rparr>]\<rparr>"

definition live :: "Job \<Rightarrow> bool" where
  "live j \<longleftrightarrow> jb_State j = Pending \<or> jb_State j = Leased"

text \<open>\<^verbatim>\<open>UPDATE jobs SET ... WHERE ...\<close>: the rows that match are changed.\<close>

definition update :: "(Job \<Rightarrow> bool) \<Rightarrow> (Job \<Rightarrow> Job) \<Rightarrow> Queue \<Rightarrow> Queue" where
  "update P f q = q\<lparr>qu_jobs := map (\<lambda>j. if P j then f j else j) (qu_jobs q)\<rparr>"

definition matches :: "(Job \<Rightarrow> bool) \<Rightarrow> Queue \<Rightarrow> bool" where
  "matches P q \<longleftrightarrow> (\<exists>j\<in>set (qu_jobs q). P j)"

definition Get :: "string \<Rightarrow> Queue \<Rightarrow> job_error + Job" where
  "Get i q = (case find (\<lambda>j. jb_ID j = i) (qu_jobs q) of None \<Rightarrow> Inl ErrNotFound | Some j \<Rightarrow> Inr j)"

definition findLiveByDedupeKey :: "string \<Rightarrow> Queue \<Rightarrow> job_error + Job" where
  "findLiveByDedupeKey key q =
     (case find (\<lambda>j. jb_DedupeKey j = key \<and> key \<noteq> [] \<and> live j) (qu_jobs q) of None \<Rightarrow> Inl ErrNotFound | Some j \<Rightarrow> Inr j)"

section \<open>Enqueueing\<close>

datatype job_payload = NoPayload | Encoded string | Unencodable

record EnqueueOptions =
  eo_Type :: string
  eo_Payload :: job_payload
  eo_DedupeKey :: string
  eo_Priority :: "int option"
  eo_RequiredCapability :: string
  eo_RunAfter :: int
  eo_MaxAttempts :: int

definition new_job :: "string \<Rightarrow> int \<Rightarrow> string \<Rightarrow> EnqueueOptions \<Rightarrow> Job" where
  "new_job newID now payload opts =
     \<lparr>jb_ID = newID, jb_Type = eo_Type opts, jb_Payload = payload, jb_State = Pending,
      jb_Priority = (case eo_Priority opts of None \<Rightarrow> DefaultPriority | Some p \<Rightarrow> p),
      jb_DedupeKey = eo_DedupeKey opts, jb_RequiredCapability = eo_RequiredCapability opts,
      jb_RunAfter = (if eo_RunAfter opts = 0 then now else eo_RunAfter opts), jb_Attempts = 0,
      jb_MaxAttempts = (if eo_MaxAttempts opts \<le> 0 then DefaultMaxAttempts else eo_MaxAttempts opts),
      jb_LeaseOwner = [], jb_LeaseExpiresAt = 0, jb_LastError = [], jb_CreatedAt = now, jb_UpdatedAt = now, jb_FinishedAt = 0\<rparr>"

text \<open>The primary key and the index \<^verbatim>\<open>jobs_dedupe\<close>.\<close>

definition violates :: "Job \<Rightarrow> Queue \<Rightarrow> bool" where
  "violates job q \<longleftrightarrow>
     matches (\<lambda>j. jb_ID j = jb_ID job) q \<or>
     jb_DedupeKey job \<noteq> [] \<and> matches (\<lambda>j. jb_DedupeKey j = jb_DedupeKey job \<and> live j) q"

definition Enqueue :: "string \<Rightarrow> int \<Rightarrow> EnqueueOptions \<Rightarrow> Queue \<Rightarrow> (job_error + Job) \<times> Queue" where
  "Enqueue newID now opts q =
     (if eo_Type opts = [] then (Inl TypeUnset, q)
      else case (case eo_Payload opts of NoPayload \<Rightarrow> Some ''{}'' | Encoded s \<Rightarrow> Some s | Unencodable \<Rightarrow> None) of
             None \<Rightarrow> (Inl PayloadUnencodable, q)
           | Some payload \<Rightarrow>
               (let job = new_job newID now payload opts
                in if violates job q then
                     (if eo_DedupeKey opts \<noteq> [] then
                        (case findLiveByDedupeKey (eo_DedupeKey opts) q of Inr existing \<Rightarrow> (Inr existing, q) | Inl _ \<Rightarrow> (Inl EnqueueFailed, q))
                      else (Inl EnqueueFailed, q))
                   else (Inr job, emit TypeJobEnqueued job [] (q\<lparr>qu_jobs := qu_jobs q @ [job]\<rparr>))))"

definition LiveDedupeKeys :: "string \<Rightarrow> Queue \<Rightarrow> string fset" where
  "LiveDedupeKeys jobType q =
     fset_of_list (map jb_DedupeKey (filter (\<lambda>j. jb_Type j = jobType \<and> jb_DedupeKey j \<noteq> [] \<and> live j) (qu_jobs q)))"

section \<open>Claiming and leases\<close>

record ClaimOptions =
  co_Owner :: string
  co_Capabilities :: "string list"
  co_LeaseTTL :: int
  co_Types :: "string list"

text \<open>The subquery of \<open>Claim\<close>. Rows of the same priority and due time come in the order of the table.\<close>

definition claimable :: "ClaimOptions \<Rightarrow> int \<Rightarrow> Job \<Rightarrow> bool" where
  "claimable opts now j \<longleftrightarrow>
     jb_State j = Pending \<and> jb_RunAfter j \<le> now \<and> jb_RequiredCapability j \<in> set ([] # co_Capabilities opts) \<and>
     (co_Types opts \<noteq> [] \<longrightarrow> jb_Type j \<in> set (co_Types opts))"

definition claim_key :: "Job \<Rightarrow> int \<times> int" where
  "claim_key j = (jb_Priority j, jb_RunAfter j)"

definition chosen :: "ClaimOptions \<Rightarrow> int \<Rightarrow> Queue \<Rightarrow> Job option" where
  "chosen opts now q = (case sort_key claim_key (filter (claimable opts now) (qu_jobs q)) of [] \<Rightarrow> None | j # _ \<Rightarrow> Some j)"

definition lease_ttl :: "int \<Rightarrow> int" where
  "lease_ttl ttl = (if ttl \<le> 0 then DefaultLeaseTTL else ttl)"

definition take_lease :: "string \<Rightarrow> int \<Rightarrow> int \<Rightarrow> Job \<Rightarrow> Job" where
  "take_lease owner expires now j =
     j\<lparr>jb_State := Leased, jb_LeaseOwner := owner, jb_LeaseExpiresAt := expires, jb_Attempts := jb_Attempts j + 1, jb_UpdatedAt := now\<rparr>"

definition Claim :: "int \<Rightarrow> ClaimOptions \<Rightarrow> Queue \<Rightarrow> (job_error + Job) \<times> Queue" where
  "Claim now opts q =
     (if co_Owner opts = [] then (Inl OwnerUnset, q)
      else let expires = now + lease_ttl (co_LeaseTTL opts)
           in case chosen opts now q of
                None \<Rightarrow> (Inl ErrNoWork, q)
              | Some j \<Rightarrow> (Inr (take_lease (co_Owner opts) expires now j),
                            update (\<lambda>k. jb_ID k = jb_ID j) (take_lease (co_Owner opts) expires now) q))"

definition holds_lease :: "string \<Rightarrow> string \<Rightarrow> Job \<Rightarrow> bool" where
  "holds_lease i owner j \<longleftrightarrow> jb_ID j = i \<and> jb_LeaseOwner j = owner \<and> jb_State j = Leased"

definition Heartbeat :: "int \<Rightarrow> string \<Rightarrow> string \<Rightarrow> int \<Rightarrow> Queue \<Rightarrow> job_error option \<times> Queue" where
  "Heartbeat now i owner ttl q =
     (if matches (holds_lease i owner) q
      then (None, update (holds_lease i owner) (\<lambda>j. j\<lparr>jb_LeaseExpiresAt := now + lease_ttl ttl, jb_UpdatedAt := now\<rparr>) q)
      else (Some (ErrLeaseLost i), q))"

text \<open>A transaction that changes the held row, reads it back and emits.\<close>

definition unlease :: "Job \<Rightarrow> Job" where
  "unlease j = j\<lparr>jb_LeaseOwner := [], jb_LeaseExpiresAt := 0\<rparr>"

definition read_emit :: "string \<Rightarrow> string \<Rightarrow> (string \<times> pval) list \<Rightarrow> Queue \<Rightarrow> Queue" where
  "read_emit ty i extra q = (case Get i q of Inl _ \<Rightarrow> q | Inr job \<Rightarrow> emit ty job extra q)"

definition job_Complete :: "int \<Rightarrow> string \<Rightarrow> string \<Rightarrow> Queue \<Rightarrow> job_error option \<times> Queue" where
  "job_Complete now i owner q =
     (if matches (holds_lease i owner) q
      then (None, read_emit TypeJobSucceeded i []
              (update (holds_lease i owner) (\<lambda>j. (unlease j)\<lparr>jb_State := Succeeded, jb_FinishedAt := now, jb_UpdatedAt := now, jb_LastError := []\<rparr>) q))
      else (Some (ErrLeaseLost i), q))"

section \<open>Failing and retrying\<close>

text \<open>\<^verbatim>\<open>rand.Int64N d\<close> is the argument \<open>rnd d\<close>.\<close>

definition backoffWithin :: "(int \<Rightarrow> int) \<Rightarrow> nat \<Rightarrow> int \<Rightarrow> int \<Rightarrow> int" where
  "backoffWithin rnd attempt0 base maxd =
     (let attempt = (if attempt0 < 1 then 1 else attempt0);
          d0 = wrap64 (base * 2 ^ min (attempt - 1) 20);
          d = (if d0 > maxd \<or> d0 \<le> 0 then maxd else d0)
      in wrap64 (rnd d + base))"

definition backoff :: "(int \<Rightarrow> int) \<Rightarrow> nat \<Rightarrow> int" where
  "backoff rnd attempt = backoffWithin rnd attempt defaultBaseBackoff defaultMaxBackoff"

definition retryBackoff :: "(int \<Rightarrow> int) \<Rightarrow> bool \<Rightarrow> nat \<Rightarrow> int" where
  "retryBackoff rnd transient attempt =
     (if transient then backoffWithin rnd attempt transientBaseBackoff transientMaxBackoff else backoff rnd attempt)"

text \<open>The job is read before the transaction; here nothing commits in between.\<close>

definition Fail :: "(int \<Rightarrow> int) \<Rightarrow> int \<Rightarrow> string \<Rightarrow> string \<Rightarrow> Cause option \<Rightarrow> Queue \<Rightarrow> job_error option \<times> Queue" where
  "Fail rnd now i owner cause q =
     (case Get i q of
        Inl e \<Rightarrow> (Some e, q)
      | Inr job \<Rightarrow>
          (let message = (case cause of None \<Rightarrow> [] | Some c \<Rightarrow> ca_Message c);
               permanent = (case cause of None \<Rightarrow> False | Some c \<Rightarrow> ca_Permanent c);
               transient = (\<not> permanent \<and> (case cause of None \<Rightarrow> False | Some c \<Rightarrow> ca_Transient c))
           in if permanent \<or> (\<not> transient \<and> int (jb_Attempts job) \<ge> jb_MaxAttempts job) then
                (if matches (holds_lease i owner) q
                 then (None, emit TypeJobFailed (job\<lparr>jb_State := Dead, jb_LastError := message\<rparr>)
                         [(''terminal'', PBool True), (''permanent'', PBool permanent)]
                         (update (holds_lease i owner) (\<lambda>j. (unlease j)\<lparr>jb_State := Dead, jb_LastError := message, jb_FinishedAt := now, jb_UpdatedAt := now\<rparr>) q))
                 else (Some (ErrLeaseLost i), q))
              else
                (let retryAt = now + retryBackoff rnd transient (jb_Attempts job)
                 in if matches (holds_lease i owner) q
                    then (None, emit TypeJobFailed (job\<lparr>jb_State := Pending, jb_LastError := message\<rparr>)
                            [(''terminal'', PBool False), (''transient'', PBool transient), (''run_after'', PTime retryAt)]
                            (update (holds_lease i owner) (\<lambda>j. (unlease j)\<lparr>jb_State := Pending, jb_RunAfter := retryAt, jb_LastError := message, jb_UpdatedAt := now\<rparr>) q))
                    else (Some (ErrLeaseLost i), q))))"

definition reap_reason :: string where
  "reap_reason = ''lease expired; the worker holding this job stopped reporting''"

definition reclaim_reason :: string where
  "reclaim_reason = ''control plane restored; leases from the previous node are void''"

text \<open>One round of the loops of \<open>ReapExpiredLeases\<close> and \<open>ReclaimAllLeases\<close>.\<close>

definition take_back :: "int \<Rightarrow> string \<Rightarrow> string \<Rightarrow> string \<Rightarrow> Queue \<Rightarrow> Queue" where
  "take_back now reason flag i q =
     read_emit TypeJobFailed i [(''terminal'', PBool False), (flag, PBool True)]
       (update (\<lambda>j. jb_ID j = i \<and> jb_State j = Leased)
          (\<lambda>j. (unlease j)\<lparr>jb_State := Pending, jb_LastError := reason, jb_UpdatedAt := now\<rparr>) q)"

definition expiredLeaseIDs :: "int \<Rightarrow> Queue \<Rightarrow> string list" where
  "expiredLeaseIDs now q = map jb_ID (filter (\<lambda>j. jb_State j = Leased \<and> jb_LeaseExpiresAt j \<le> now) (qu_jobs q))"

definition allLeasedIDs :: "Queue \<Rightarrow> string list" where
  "allLeasedIDs q = map jb_ID (filter (\<lambda>j. jb_State j = Leased) (qu_jobs q))"

definition ReapExpiredLeases :: "int \<Rightarrow> Queue \<Rightarrow> nat \<times> Queue" where
  "ReapExpiredLeases now q =
     (let ids = expiredLeaseIDs now q in (length ids, fold (take_back now reap_reason ''reaped'') ids q))"

definition ReclaimAllLeases :: "int \<Rightarrow> Queue \<Rightarrow> nat \<times> Queue" where
  "ReclaimAllLeases now q =
     (let ids = allLeasedIDs q in (length ids, fold (take_back now reclaim_reason ''reclaimed'') ids q))"

definition retryable :: "string \<Rightarrow> Job \<Rightarrow> bool" where
  "retryable i j \<longleftrightarrow> jb_ID j = i \<and> (jb_State j = Dead \<or> jb_State j = Failed \<or> jb_State j = Succeeded)"

definition Retry :: "int \<Rightarrow> string \<Rightarrow> Queue \<Rightarrow> job_error option \<times> Queue" where
  "Retry now i q =
     (case find (retryable i) (qu_jobs q) of
        None \<Rightarrow> (Some (ErrLeaseLost i), q)
      | Some j \<Rightarrow>
          (case findLiveByDedupeKey (jb_DedupeKey j) q of
             Inr l \<Rightarrow> (Some (DedupeConflict (jb_ID l)), q)
           | Inl _ \<Rightarrow>
               (None, read_emit TypeJobEnqueued i [(''retried'', PBool True)]
                  (update (retryable i)
                     (\<lambda>j. (unlease j)\<lparr>jb_State := Pending, jb_Attempts := 0, jb_RunAfter := now, jb_FinishedAt := 0, jb_UpdatedAt := now\<rparr>) q))))"

definition pendingMatching :: "string \<Rightarrow> (Job \<Rightarrow> bool) \<Rightarrow> Queue \<Rightarrow> Job list" where
  "pendingMatching jobType mat q =
     filter mat (sort_key jb_ID (filter (\<lambda>j. jb_Type j = jobType \<and> jb_State j = Pending) (qu_jobs q)))"

definition cancel_one :: "int \<Rightarrow> string \<Rightarrow> Job \<Rightarrow> nat \<times> Queue \<Rightarrow> nat \<times> Queue" where
  "cancel_one now reason job acc =
     (case acc of (n, q) \<Rightarrow>
        if matches (\<lambda>j. jb_ID j = jb_ID job \<and> jb_State j = Pending) q
        then (n + 1, emit TypeJobFailed (job\<lparr>jb_State := Dead, jb_LastError := reason\<rparr>)
                [(''terminal'', PBool True), (''permanent'', PBool True), (''cancelled'', PBool True)]
                (update (\<lambda>j. jb_ID j = jb_ID job \<and> jb_State j = Pending)
                   (\<lambda>j. j\<lparr>jb_State := Dead, jb_LastError := reason, jb_FinishedAt := now, jb_UpdatedAt := now\<rparr>) q))
        else (n, q))"

definition CancelPending :: "int \<Rightarrow> string \<Rightarrow> (Job \<Rightarrow> bool) \<Rightarrow> string \<Rightarrow> Queue \<Rightarrow> nat \<times> Queue" where
  "CancelPending now jobType mat reason q = fold (cancel_one now reason) (pendingMatching jobType mat q) (0, q)"

text \<open>\<^verbatim>\<open>GROUP BY state\<close>: a state no job is in has no row.\<close>

definition job_Stats :: "Queue \<Rightarrow> JobState \<rightharpoonup> nat" where
  "job_Stats q = (\<lambda>s. let n = length (filter (\<lambda>j. jb_State j = s) (qu_jobs q)) in if n = 0 then None else Some n)"

end
