(* ===== verification/JobProps.thy ===== *)
theory JobProps
  imports Jobs
begin

text \<open>
  What the job queue promises: the invariant of its table and its event log, exclusive claims, the budget of
  attempts and the pace of retries, and the idempotence of enqueueing.
\<close>

section \<open>One row at a time\<close>

definition put_row :: "Job \<Rightarrow> Queue \<Rightarrow> Queue" where
  "put_row j' q = q\<lparr>qu_jobs := map (\<lambda>k. if jb_ID k = jb_ID j' then j' else k) (qu_jobs q)\<rparr>"

abbreviation job_ids :: "Queue \<Rightarrow> string list" where
  "job_ids q \<equiv> map jb_ID (qu_jobs q)"

lemma same_row: "distinct (job_ids q) \<Longrightarrow> j \<in> set (qu_jobs q) \<Longrightarrow> k \<in> set (qu_jobs q) \<Longrightarrow> jb_ID j = jb_ID k \<Longrightarrow> j = k"
  by (auto simp: distinct_map dest: inj_onD)

lemma update_row:
  assumes "distinct (job_ids q)" and "j \<in> set (qu_jobs q)" and "P j" and "\<And>k. P k \<Longrightarrow> jb_ID k = jb_ID j" and "jb_ID (f j) = jb_ID j"
  shows "update P f q = put_row (f j) q"
proof -
  have "(if P k then f k else k) = (if jb_ID k = jb_ID j then f j else k)" if "k \<in> set (qu_jobs q)" for k
  proof (cases "k = j")
    case True
    with assms(3) show ?thesis by simp
  next
    case False
    then have "jb_ID k \<noteq> jb_ID j" using same_row [OF assms(1) that assms(2)] by blast
    moreover from this have "\<not> P k" using assms(4) by blast
    ultimately show ?thesis by simp
  qed
  then have "map (\<lambda>k. if P k then f k else k) (qu_jobs q) = map (\<lambda>k. if jb_ID k = jb_ID j then f j else k) (qu_jobs q)"
    by (rule map_cong [OF refl])
  then show ?thesis by (simp only: update_def put_row_def assms(5))
qed

lemma update_none: "\<not> matches P q \<Longrightarrow> update P f q = q"
  by (cases q) (auto simp: update_def matches_def intro!: map_idI)

lemma put_row_simps [simp]:
  "qu_events (put_row j q) = qu_events q"
  "map jb_ID (qu_jobs (put_row j q)) = job_ids q"
  by (simp_all add: put_row_def)

lemma mem_put_row: "k \<in> set (qu_jobs (put_row j q)) \<longleftrightarrow> k = j \<and> jb_ID j \<in> set (job_ids q) \<or> k \<in> set (qu_jobs q) \<and> jb_ID k \<noteq> jb_ID j"
proof
  assume "k \<in> set (qu_jobs (put_row j q))"
  then obtain r where "r \<in> set (qu_jobs q)" "k = (if jb_ID r = jb_ID j then j else r)" by (auto simp: put_row_def)
  then show "k = j \<and> jb_ID j \<in> set (job_ids q) \<or> k \<in> set (qu_jobs q) \<and> jb_ID k \<noteq> jb_ID j"
    by (cases "jb_ID r = jb_ID j") (auto intro: image_eqI [of _ _ r])
qed (auto simp: put_row_def image_iff)

lemma emit_simps [simp]:
  "qu_jobs (emit ty j extra q) = qu_jobs q"
  "qu_events (emit ty j extra q) = qu_events q @ [\<lparr>je_Type = ty, je_Job = jb_ID j, je_Payload = transitionPayload j extra\<rparr>]"
  by (simp_all add: emit_def)

lemma find_id:
  assumes "distinct (job_ids q)" and "j \<in> set (qu_jobs q)" and "P j" and "\<And>k. P k \<Longrightarrow> jb_ID k = jb_ID j"
  shows "find P (qu_jobs q) = Some j"
proof (cases "find P (qu_jobs q)")
  case None
  then show ?thesis using assms(2,3) by (simp add: find_None_iff)
next
  case (Some k)
  then have "k \<in> set (qu_jobs q)" "P k" by (auto simp: find_Some_iff)
  then show ?thesis using Some same_row [OF assms(1) _ assms(2)] assms(4) by simp
qed

lemma Get_row: "distinct (job_ids q) \<Longrightarrow> j \<in> set (qu_jobs q) \<Longrightarrow> Get (jb_ID j) q = Inr j"
  using find_id [of q j "\<lambda>k. jb_ID k = jb_ID j"] by (simp add: Get_def)

lemma Get_Inr: "Get i q = Inr j \<Longrightarrow> j \<in> set (qu_jobs q) \<and> jb_ID j = i"
  by (auto simp: Get_def find_Some_iff split: option.splits)

lemma Get_put_row: "distinct (job_ids q) \<Longrightarrow> jb_ID j \<in> set (job_ids q) \<Longrightarrow> Get (jb_ID j) (put_row j q) = Inr j"
  by (rule Get_row) (auto simp: mem_put_row)

lemma read_emit_row: "distinct (job_ids q) \<Longrightarrow> jb_ID j \<in> set (job_ids q) \<Longrightarrow> read_emit ty (jb_ID j) extra (put_row j q) = emit ty j extra (put_row j q)"
  by (simp add: read_emit_def Get_put_row)

lemma held_row: "matches (holds_lease i owner) q \<Longrightarrow> (\<And>j. j \<in> set (qu_jobs q) \<Longrightarrow> holds_lease i owner j \<Longrightarrow> thesis) \<Longrightarrow> thesis"
  by (auto simp: matches_def)

lemma held_not_matches: "(\<And>j. j \<in> set (qu_jobs q) \<Longrightarrow> \<not> holds_lease i owner j) \<Longrightarrow> \<not> matches (holds_lease i owner) q"
  by (auto simp: matches_def)

lemma matchesI: "j \<in> set (qu_jobs q) \<Longrightarrow> P j \<Longrightarrow> matches P q"
  by (auto simp: matches_def)

lemma row_id: "j \<in> set (qu_jobs q) \<Longrightarrow> jb_ID j \<in> set (job_ids q)"
  by simp

lemma update_held:
  assumes "distinct (job_ids q)" and "j \<in> set (qu_jobs q)" and "holds_lease i owner j" and "jb_ID (f j) = jb_ID j"
  shows "update (holds_lease i owner) f q = put_row (f j) q"
  by (rule update_row [where P = "holds_lease i owner"]) (use assms in \<open>auto simp: holds_lease_def\<close>)

section \<open>The operations on the row they concern\<close>

definition heartbeat_row :: "int \<Rightarrow> int \<Rightarrow> Job \<Rightarrow> Job" where
  "heartbeat_row now ttl j = j\<lparr>jb_LeaseExpiresAt := now + lease_ttl ttl, jb_UpdatedAt := now\<rparr>"

definition complete_row :: "int \<Rightarrow> Job \<Rightarrow> Job" where
  "complete_row now j = (unlease j)\<lparr>jb_State := Succeeded, jb_FinishedAt := now, jb_UpdatedAt := now, jb_LastError := []\<rparr>"

definition dead_row :: "int \<Rightarrow> string \<Rightarrow> Job \<Rightarrow> Job" where
  "dead_row now message j = (unlease j)\<lparr>jb_State := Dead, jb_LastError := message, jb_FinishedAt := now, jb_UpdatedAt := now\<rparr>"

definition again_row :: "int \<Rightarrow> int \<Rightarrow> string \<Rightarrow> Job \<Rightarrow> Job" where
  "again_row now retryAt message j = (unlease j)\<lparr>jb_State := Pending, jb_RunAfter := retryAt, jb_LastError := message, jb_UpdatedAt := now\<rparr>"

definition back_row :: "int \<Rightarrow> string \<Rightarrow> Job \<Rightarrow> Job" where
  "back_row now reason j = (unlease j)\<lparr>jb_State := Pending, jb_LastError := reason, jb_UpdatedAt := now\<rparr>"

definition retry_row :: "int \<Rightarrow> Job \<Rightarrow> Job" where
  "retry_row now j = (unlease j)\<lparr>jb_State := Pending, jb_Attempts := 0, jb_RunAfter := now, jb_FinishedAt := 0, jb_UpdatedAt := now\<rparr>"

definition cancel_row :: "int \<Rightarrow> string \<Rightarrow> Job \<Rightarrow> Job" where
  "cancel_row now reason j = j\<lparr>jb_State := Dead, jb_LastError := reason, jb_FinishedAt := now, jb_UpdatedAt := now\<rparr>"

lemmas row_defs = heartbeat_row_def complete_row_def dead_row_def again_row_def back_row_def retry_row_def cancel_row_def
  take_lease_def unlease_def

definition gives_up :: "Cause option \<Rightarrow> Job \<Rightarrow> bool" where
  "gives_up cause j \<longleftrightarrow> (case cause of None \<Rightarrow> int (jb_Attempts j) \<ge> jb_MaxAttempts j
     | Some c \<Rightarrow> ca_Permanent c \<or> \<not> ca_Transient c \<and> int (jb_Attempts j) \<ge> jb_MaxAttempts j)"

definition is_transient :: "Cause option \<Rightarrow> bool" where
  "is_transient cause \<longleftrightarrow> (case cause of None \<Rightarrow> False | Some c \<Rightarrow> \<not> ca_Permanent c \<and> ca_Transient c)"

definition message_of :: "Cause option \<Rightarrow> string" where
  "message_of cause = (case cause of None \<Rightarrow> [] | Some c \<Rightarrow> ca_Message c)"

lemma Claim_row:
  assumes "distinct (job_ids q)" and "co_Owner opts \<noteq> []" and "chosen opts now q = Some j" and "j \<in> set (qu_jobs q)"
  shows "Claim now opts q =
    (let j' = take_lease (co_Owner opts) (now + lease_ttl (co_LeaseTTL opts)) now j in (Inr j', put_row j' q))"
  using update_row [OF assms(1,4), of "\<lambda>k. jb_ID k = jb_ID j"] assms(2,3) by (simp add: Claim_def take_lease_def Let_def)

lemma Heartbeat_row:
  assumes "distinct (job_ids q)" and "j \<in> set (qu_jobs q)" and "holds_lease i owner j"
  shows "Heartbeat now i owner ttl q = (None, put_row (heartbeat_row now ttl j) q)"
  using update_held [where f = "heartbeat_row now ttl", OF assms] matchesI [where P = "holds_lease i owner", OF assms(2,3)]
  by (simp add: Heartbeat_def heartbeat_row_def [abs_def])

lemma Complete_row:
  assumes "distinct (job_ids q)" and "j \<in> set (qu_jobs q)" and "holds_lease i owner j"
  shows "job_Complete now i owner q = (None, emit TypeJobSucceeded (complete_row now j) [] (put_row (complete_row now j) q))"
proof -
  have i: "jb_ID j = i" "jb_ID (complete_row now j) = i" using assms(3) by (simp_all add: row_defs holds_lease_def)
  have e: "read_emit TypeJobSucceeded i [] (put_row (complete_row now j) q) = emit TypeJobSucceeded (complete_row now j) [] (put_row (complete_row now j) q)"
    using read_emit_row [OF assms(1), of "complete_row now j"] row_id [OF assms(2)] i by simp
  have "update (holds_lease i owner) (\<lambda>j. (unlease j)\<lparr>jb_State := Succeeded, jb_FinishedAt := now, jb_UpdatedAt := now, jb_LastError := []\<rparr>) q =
      put_row (complete_row now j) q"
    using update_held [where f = "complete_row now", OF assms] i by (simp add: complete_row_def [abs_def])
  then show ?thesis
    using matchesI [where P = "holds_lease i owner", OF assms(2,3)] e by (simp add: job_Complete_def)
qed

lemma Fail_row:
  assumes "distinct (job_ids q)" and "j \<in> set (qu_jobs q)" and "holds_lease i owner j"
  shows "Fail rnd now i owner cause q =
    (if gives_up cause j
     then (None, emit TypeJobFailed (j\<lparr>jb_State := Dead, jb_LastError := message_of cause\<rparr>)
             [(''terminal'', PBool True), (''permanent'', PBool (case cause of None \<Rightarrow> False | Some c \<Rightarrow> ca_Permanent c))]
             (put_row (dead_row now (message_of cause) j) q))
     else (let retryAt = now + retryBackoff rnd (is_transient cause) (jb_Attempts j)
           in (None, emit TypeJobFailed (j\<lparr>jb_State := Pending, jb_LastError := message_of cause\<rparr>)
                 [(''terminal'', PBool False), (''transient'', PBool (is_transient cause)), (''run_after'', PTime retryAt)]
                 (put_row (again_row now retryAt (message_of cause) j) q))))"
proof -
  have i: "jb_ID j = i" using assms(3) by (simp add: holds_lease_def)
  note get = Get_row [OF assms(1,2), unfolded i] and m = matchesI [where P = "holds_lease i owner", OF assms(2,3)]
  have up: "update (holds_lease i owner) f q = put_row (f j) q" if "jb_ID (f j) = jb_ID j" for f
    using update_held [where f = f, OF assms that] .
  show ?thesis
    by (cases cause; cases "gives_up cause j")
      (auto simp: Fail_def get m up Let_def gives_up_def is_transient_def message_of_def dead_row_def again_row_def unlease_def)
qed

lemma take_back_row:
  assumes "distinct (job_ids q)" and "j \<in> set (qu_jobs q)" and "jb_State j = Leased"
  shows "take_back now reason flag (jb_ID j) q =
    emit TypeJobFailed (back_row now reason j) [(''terminal'', PBool False), (flag, PBool True)] (put_row (back_row now reason j) q)"
proof -
  have i: "jb_ID (back_row now reason j) = jb_ID j" by (simp add: row_defs)
  have "update (\<lambda>k. jb_ID k = jb_ID j \<and> jb_State k = Leased) (back_row now reason) q = put_row (back_row now reason j) q"
    by (rule update_row) (use assms i in auto)
  then show ?thesis
    using read_emit_row [OF assms(1), of "back_row now reason j"] row_id [OF assms(2)] i
    by (simp add: take_back_def back_row_def [abs_def])
qed

lemma Retry_row:
  assumes "distinct (job_ids q)" and "j \<in> set (qu_jobs q)" and "retryable i j"
  shows "Retry now i q =
    (case findLiveByDedupeKey (jb_DedupeKey j) q of
       Inr l \<Rightarrow> (Some (DedupeConflict (jb_ID l)), q)
     | Inl _ \<Rightarrow> (None, emit TypeJobEnqueued (retry_row now j) [(''retried'', PBool True)] (put_row (retry_row now j) q)))"
proof -
  have i: "jb_ID j = i" "jb_ID (retry_row now j) = i" using assms(3) by (simp_all add: row_defs retryable_def)
  have u: "update (retryable i) (retry_row now) q = put_row (retry_row now j) q"
    by (rule update_row [where P = "retryable i"]) (use assms i in \<open>auto simp: retryable_def\<close>)
  have f: "find (retryable i) (qu_jobs q) = Some j"
    by (rule find_id) (use assms i in \<open>auto simp: retryable_def\<close>)
  show ?thesis
    using u f read_emit_row [OF assms(1), of "retry_row now j"] row_id [OF assms(2)] i
    by (simp add: Retry_def retry_row_def [abs_def] split: sum.split)
qed

section \<open>Every operation is a sequence of row changes\<close>

text \<open>
  One row changes and, except when it is claimed or its lease renewed, one event is written. \<open>lapsed\<close> tells
  a change that takes a lease from a worker that did not give it up.
\<close>

inductive change :: "Queue \<Rightarrow> Queue \<Rightarrow> bool" where
  added: "\<not> violates (new_job i now payload opts) q \<Longrightarrow>
    change q (emit TypeJobEnqueued (new_job i now payload opts) [] (q\<lparr>qu_jobs := qu_jobs q @ [new_job i now payload opts]\<rparr>))"
| leased: "j \<in> set (qu_jobs q) \<Longrightarrow> jb_State j = Pending \<Longrightarrow> owner \<noteq> [] \<Longrightarrow> change q (put_row (take_lease owner e now j) q)"
| renewed: "j \<in> set (qu_jobs q) \<Longrightarrow> jb_State j = Leased \<Longrightarrow> change q (put_row (heartbeat_row now ttl j) q)"
| completed: "j \<in> set (qu_jobs q) \<Longrightarrow> jb_State j = Leased \<Longrightarrow> now \<noteq> 0 \<Longrightarrow>
    change q (emit TypeJobSucceeded (complete_row now j) [] (put_row (complete_row now j) q))"
| buried: "j \<in> set (qu_jobs q) \<Longrightarrow> jb_State j = Leased \<Longrightarrow> now \<noteq> 0 \<Longrightarrow>
    change q (emit TypeJobFailed (j\<lparr>jb_State := Dead, jb_LastError := message\<rparr>) [(''terminal'', PBool True), (''permanent'', PBool permanent)]
      (put_row (dead_row now message j) q))"
| again: "j \<in> set (qu_jobs q) \<Longrightarrow> jb_State j = Leased \<Longrightarrow>
    change q (emit TypeJobFailed (j\<lparr>jb_State := Pending, jb_LastError := message\<rparr>)
      [(''terminal'', PBool False), (''transient'', PBool transient), (''run_after'', PTime retryAt)] (put_row (again_row now retryAt message j) q))"
| taken_back: "j \<in> set (qu_jobs q) \<Longrightarrow> jb_State j = Leased \<Longrightarrow> flag \<noteq> ''state'' \<Longrightarrow> flag \<noteq> ''attempts'' \<Longrightarrow>
    change q (emit TypeJobFailed (back_row now reason j) [(''terminal'', PBool False), (flag, PBool True)] (put_row (back_row now reason j) q))"
| retried: "j \<in> set (qu_jobs q) \<Longrightarrow> jb_State j = Dead \<or> jb_State j = Failed \<or> jb_State j = Succeeded \<Longrightarrow>
    findLiveByDedupeKey (jb_DedupeKey j) q = Inl e \<Longrightarrow>
    change q (emit TypeJobEnqueued (retry_row now j) [(''retried'', PBool True)] (put_row (retry_row now j) q))"
| cancelled: "j \<in> set (qu_jobs q) \<Longrightarrow> jb_State j = Pending \<Longrightarrow> now \<noteq> 0 \<Longrightarrow>
    change q (emit TypeJobFailed (j\<lparr>jb_State := Dead, jb_LastError := reason\<rparr>)
      [(''terminal'', PBool True), (''permanent'', PBool True), (''cancelled'', PBool True)] (put_row (cancel_row now reason j) q))"

definition shown :: "Job \<Rightarrow> JobState \<times> int" where
  "shown j = (if jb_State j = Leased then (Pending, int (jb_Attempts j) - 1) else (jb_State j, int (jb_Attempts j)))"

text \<open>What the log says last of a job.\<close>

definition logged :: "Queue \<Rightarrow> string \<Rightarrow> (JobState \<times> int) option" where
  "logged q i = (case rev (filter (\<lambda>e. je_Job e = i) (qu_events q)) of
     [] \<Rightarrow> None
   | e # _ \<Rightarrow> (case (je_Payload e ''state'', je_Payload e ''attempts'') of (Some (PState s), Some (PNum n)) \<Rightarrow> Some (s, n) | _ \<Rightarrow> None))"

definition row_ok :: "Job \<Rightarrow> bool" where
  "row_ok j \<longleftrightarrow> (jb_State j = Leased \<longleftrightarrow> jb_LeaseOwner j \<noteq> []) \<and> jb_State j \<noteq> Failed \<and>
     (jb_FinishedAt j \<noteq> 0 \<longleftrightarrow> jb_State j = Succeeded \<or> jb_State j = Dead)"

definition wf_queue :: "Queue \<Rightarrow> bool" where
  "wf_queue q \<longleftrightarrow> distinct (job_ids q) \<and> (\<forall>j\<in>set (qu_jobs q). row_ok j) \<and>
     (\<forall>j\<in>set (qu_jobs q). \<forall>k\<in>set (qu_jobs q). live j \<and> live k \<and> jb_DedupeKey j = jb_DedupeKey k \<and> jb_DedupeKey j \<noteq> [] \<longrightarrow> j = k) \<and>
     (\<forall>j\<in>set (qu_jobs q). logged q (jb_ID j) = Some (shown j))"

text \<open>The parts of the invariant, for a changed row.\<close>

lemma logged_emit:
  assumes "map_of extra ''state'' = None" and "map_of extra ''attempts'' = None"
  shows "logged (emit ty j extra q) i = (if i = jb_ID j then Some (jb_State j, int (jb_Attempts j)) else logged q i)"
  using assms by (simp add: logged_def transitionPayload_def map_add_def)

lemma logged_jobs [simp]: "logged (put_row j q) = logged q" "logged (q\<lparr>qu_jobs := js\<rparr>) = logged q"
  by (simp_all add: logged_def put_row_def fun_eq_iff)

lemma wf_queueD:
  assumes "wf_queue q"
  shows "distinct (job_ids q)" and "j \<in> set (qu_jobs q) \<Longrightarrow> row_ok j" and "j \<in> set (qu_jobs q) \<Longrightarrow> logged q (jb_ID j) = Some (shown j)"
    and "j \<in> set (qu_jobs q) \<Longrightarrow> k \<in> set (qu_jobs q) \<Longrightarrow> live j \<Longrightarrow> live k \<Longrightarrow> jb_DedupeKey j = jb_DedupeKey k \<Longrightarrow> jb_DedupeKey j \<noteq> [] \<Longrightarrow> j = k"
  using assms unfolding wf_queue_def by blast+

lemma wf_put_row:
  assumes wf: "wf_queue q" and j: "j \<in> set (qu_jobs q)" and id: "jb_ID j' = jb_ID j" and key: "jb_DedupeKey j' = jb_DedupeKey j"
    and ok: "row_ok j'"
    and lv: "live j' \<Longrightarrow> live j \<or> (\<forall>k\<in>set (qu_jobs q). live k \<longrightarrow> jb_DedupeKey k = jb_DedupeKey j \<longrightarrow> jb_DedupeKey j = [])"
    and jobs: "qu_jobs q' = qu_jobs (put_row j' q)"
    and lg: "\<And>i. logged q' i = (if i = jb_ID j then Some (shown j') else logged q i)"
  shows "wf_queue q'"
  unfolding wf_queue_def
proof (intro conjI ballI impI)
  show "distinct (job_ids q')" using wf_queueD(1) [OF wf] jobs by simp
next
  fix k assume "k \<in> set (qu_jobs q')"
  then have k: "k = j' \<or> k \<in> set (qu_jobs q) \<and> jb_ID k \<noteq> jb_ID j" using jobs id by (auto simp: mem_put_row)
  show "row_ok k" using k ok wf_queueD(2) [OF wf] by blast
  show "logged q' (jb_ID k) = Some (shown k)" using k lg id wf_queueD(3) [OF wf] by auto
next
  fix k l
  assume kl: "k \<in> set (qu_jobs q')" "l \<in> set (qu_jobs q')"
    and a: "live k \<and> live l \<and> jb_DedupeKey k = jb_DedupeKey l \<and> jb_DedupeKey k \<noteq> []"
  have other: "\<not> (r \<in> set (qu_jobs q) \<and> jb_ID r \<noteq> jb_ID j \<and> live r \<and> live j' \<and> jb_DedupeKey r = jb_DedupeKey j \<and> jb_DedupeKey j \<noteq> [])" for r
    using lv wf_queueD(4) [OF wf, of r j] j by metis
  have "k = j' \<or> k \<in> set (qu_jobs q) \<and> jb_ID k \<noteq> jb_ID j" "l = j' \<or> l \<in> set (qu_jobs q) \<and> jb_ID l \<noteq> jb_ID j"
    using kl jobs id by (auto simp: mem_put_row)
  then show "k = l" using a other [of k] other [of l] key wf_queueD(4) [OF wf, of k l] by metis
qed

lemma logged_ops: "map_of extra ''state'' = None \<Longrightarrow> map_of extra ''attempts'' = None \<Longrightarrow> jb_ID r = jb_ID j \<Longrightarrow> shown j' = (jb_State r, int (jb_Attempts r)) \<Longrightarrow>
    logged (emit ty r extra (put_row j' q)) i = (if i = jb_ID j then Some (shown j') else logged q i)"
  by (simp add: logged_emit)

lemma wf_added:
  assumes wf: "wf_queue q" and ok: "\<not> violates j q" and j: "row_ok j" "shown j = (jb_State j, int (jb_Attempts j))" "live j"
  shows "wf_queue (emit ty j [] (q\<lparr>qu_jobs := qu_jobs q @ [j]\<rparr>))"
proof -
  have fresh: "jb_ID k \<noteq> jb_ID j" "jb_DedupeKey j \<noteq> [] \<Longrightarrow> live k \<Longrightarrow> jb_DedupeKey k \<noteq> jb_DedupeKey j" if "k \<in> set (qu_jobs q)" for k
    using ok that by (auto simp: violates_def matches_def)
  have new: "jb_ID j \<notin> set (job_ids q)" using fresh(1) by (force simp: image_iff)
  let ?q = "emit ty j [] (q\<lparr>qu_jobs := qu_jobs q @ [j]\<rparr>)"
  have lg: "logged ?q i = (if i = jb_ID j then Some (shown j) else logged q i)" for i
    using j(2) by (simp add: logged_emit)
  show ?thesis unfolding wf_queue_def
  proof (intro conjI ballI impI)
    show "distinct (job_ids ?q)" using wf_queueD(1) [OF wf] new by simp
  next
    fix k assume "k \<in> set (qu_jobs ?q)"
    then have k: "k \<in> set (qu_jobs q) \<or> k = j" by auto
    show "row_ok k" using k j(1) wf_queueD(2) [OF wf] by blast
    show "logged ?q (jb_ID k) = Some (shown k)" using k lg wf_queueD(3) [OF wf] fresh(1) by auto
  next
    fix k l
    assume "k \<in> set (qu_jobs ?q)" "l \<in> set (qu_jobs ?q)" and a: "live k \<and> live l \<and> jb_DedupeKey k = jb_DedupeKey l \<and> jb_DedupeKey k \<noteq> []"
    then have "k \<in> set (qu_jobs q) \<or> k = j" "l \<in> set (qu_jobs q) \<or> l = j" by auto
    then show "k = l" using a fresh(2) [of k] fresh(2) [of l] wf_queueD(4) [OF wf, of k l] by metis
  qed
qed

lemma find_live_Inl: "findLiveByDedupeKey key q = Inl e \<Longrightarrow> k \<in> set (qu_jobs q) \<Longrightarrow> live k \<Longrightarrow> jb_DedupeKey k = key \<Longrightarrow> key = []"
  by (auto simp: findLiveByDedupeKey_def find_None_iff split: option.splits)

lemma find_live_Inr: "findLiveByDedupeKey key q = Inr k \<Longrightarrow> k \<in> set (qu_jobs q) \<and> live k \<and> jb_DedupeKey k = key \<and> key \<noteq> []"
  by (auto simp: findLiveByDedupeKey_def find_Some_iff split: option.splits)

lemmas row_facts = row_defs row_ok_def live_def shown_def

lemma change_wf: "change q q' \<Longrightarrow> wf_queue q \<Longrightarrow> wf_queue q'"
proof (induction rule: change.induct)
  case (added i now payload opts q)
  then show ?case by (intro wf_added) (auto simp: new_job_def row_ok_def shown_def live_def)
next
  case (leased j q owner e now)
  show ?case
    by (rule wf_put_row [of q j "take_lease owner e now j"])
      (use leased wf_queueD(2,3) [OF leased(4,1)] in \<open>auto simp: row_facts\<close>)
next
  case (renewed j q now ttl)
  show ?case
    by (rule wf_put_row [of q j "heartbeat_row now ttl j"])
      (use renewed wf_queueD(2,3) [OF renewed(3,1)] in \<open>auto simp: row_facts\<close>)
next
  case (completed j q now)
  show ?case
    by (rule wf_put_row [of q j "complete_row now j"])
      (use completed wf_queueD(2) [OF completed(4,1)] in \<open>auto simp: row_facts logged_ops\<close>)
next
  case (buried j q now message permanent)
  show ?case
    by (rule wf_put_row [of q j "dead_row now message j"])
      (use buried wf_queueD(2) [OF buried(4,1)] in \<open>auto simp: row_facts logged_ops\<close>)
next
  case (again j q message transient retryAt now)
  show ?case
    by (rule wf_put_row [of q j "again_row now retryAt message j"])
      (use again wf_queueD(2) [OF again(3,1)] in \<open>auto simp: row_facts logged_ops\<close>)
next
  case (taken_back j q flag now reason)
  show ?case
    by (rule wf_put_row [of q j "back_row now reason j"])
      (use taken_back wf_queueD(2) [OF taken_back(5,1)] in \<open>auto simp: row_facts logged_ops\<close>)
next
  case (retried j q e now)
  show ?case
    by (rule wf_put_row [of q j "retry_row now j"])
      (use retried wf_queueD(2) [OF retried(4,1)] find_live_Inl [OF retried(3)] in \<open>auto simp: row_facts logged_ops\<close>)
next
  case (cancelled j q now reason)
  show ?case
    by (rule wf_put_row [of q j "cancel_row now reason j"])
      (use cancelled wf_queueD(2) [OF cancelled(4,1)] in \<open>auto simp: row_facts logged_ops\<close>)
qed

section \<open>Runs of operations\<close>

datatype job_op =
  OpEnqueue string int EnqueueOptions
| OpClaim int ClaimOptions
| OpHeartbeat int string string int
| OpComplete int string string
| OpFail "int \<Rightarrow> int" int string string "Cause option"
| OpReap int
| OpReclaim int
| OpRetry int string
| OpCancel int string "Job \<Rightarrow> bool" string

fun job_step :: "job_op \<Rightarrow> Queue \<Rightarrow> Queue" where
  "job_step (OpEnqueue i now opts) q = snd (Enqueue i now opts q)"
| "job_step (OpClaim now opts) q = snd (Claim now opts q)"
| "job_step (OpHeartbeat now i owner ttl) q = snd (Heartbeat now i owner ttl q)"
| "job_step (OpComplete now i owner) q = snd (job_Complete now i owner q)"
| "job_step (OpFail rnd now i owner cause) q = snd (Fail rnd now i owner cause q)"
| "job_step (OpReap now) q = snd (ReapExpiredLeases now q)"
| "job_step (OpReclaim now) q = snd (ReclaimAllLeases now q)"
| "job_step (OpRetry now i) q = snd (Retry now i q)"
| "job_step (OpCancel now jobType mat reason) q = snd (CancelPending now jobType mat reason q)"

fun op_now :: "job_op \<Rightarrow> int" where
  "op_now (OpEnqueue i now opts) = now"
| "op_now (OpClaim now opts) = now"
| "op_now (OpHeartbeat now i owner ttl) = now"
| "op_now (OpComplete now i owner) = now"
| "op_now (OpFail rnd now i owner cause) = now"
| "op_now (OpReap now) = now"
| "op_now (OpReclaim now) = now"
| "op_now (OpRetry now i) = now"
| "op_now (OpCancel now jobType mat reason) = now"

definition empty_queue :: Queue where
  "empty_queue = \<lparr>qu_jobs = [], qu_events = []\<rparr>"

lemma wf_empty: "wf_queue empty_queue"
  by (simp add: wf_queue_def empty_queue_def)

lemma changes_wf: "change\<^sup>*\<^sup>* q q' \<Longrightarrow> wf_queue q \<Longrightarrow> wf_queue q'"
  by (induction rule: rtranclp_induct) (auto dest: change_wf)

text \<open>Which rows the loops take back or cancel: each in turn, as it was when they were listed.\<close>

lemma take_back_changes:
  assumes "wf_queue q" and "distinct ids" and "\<forall>i\<in>set ids. \<exists>j\<in>set (qu_jobs q). jb_ID j = i \<and> jb_State j = Leased"
    and "flag \<noteq> ''state''" and "flag \<noteq> ''attempts''"
  shows "change\<^sup>*\<^sup>* q (fold (take_back now reason flag) ids q)"
  using assms(1-3)
proof (induction ids arbitrary: q)
  case (Cons i ids)
  then obtain j where j: "j \<in> set (qu_jobs q)" "jb_ID j = i" "jb_State j = Leased" by auto
  let ?q = "take_back now reason flag i q"
  have eq: "?q = emit TypeJobFailed (back_row now reason j) [(''terminal'', PBool False), (flag, PBool True)] (put_row (back_row now reason j) q)"
    using take_back_row [OF wf_queueD(1) [OF Cons.prems(1)] j(1,3)] j(2) by simp
  have c: "change q ?q" unfolding eq using j assms(4,5) by (intro taken_back)
  have rest: "\<forall>i\<in>set ids. \<exists>j\<in>set (qu_jobs ?q). jb_ID j = i \<and> jb_State j = Leased"
  proof
    fix i' assume i': "i' \<in> set ids"
    then obtain k where k: "k \<in> set (qu_jobs q)" "jb_ID k = i'" "jb_State k = Leased" using Cons.prems(3) by auto
    with i' Cons.prems(2) j have "jb_ID k \<noteq> jb_ID (back_row now reason j)" by (auto simp: row_defs)
    with k show "\<exists>j\<in>set (qu_jobs ?q). jb_ID j = i' \<and> jb_State j = Leased" by (auto simp: eq mem_put_row)
  qed
  have "change\<^sup>*\<^sup>* ?q (fold (take_back now reason flag) ids ?q)"
    using Cons.IH [OF change_wf [OF c Cons.prems(1)] _ rest] Cons.prems(2) by simp
  with c show ?case by (simp add: converse_rtranclp_into_rtranclp)
qed simp

lemma cancel_changes:
  assumes "wf_queue q" and "distinct (map jb_ID js)" and "\<forall>j\<in>set js. j \<in> set (qu_jobs q) \<and> jb_State j = Pending" and "now \<noteq> 0"
  shows "change\<^sup>*\<^sup>* q (snd (fold (cancel_one now reason) js (n, q)))"
  using assms(1-3)
proof (induction js arbitrary: q n)
  case (Cons j js)
  then have j: "j \<in> set (qu_jobs q)" "jb_State j = Pending" by auto
  let ?q = "snd (cancel_one now reason j (n, q))"
  have up: "update (\<lambda>k. jb_ID k = jb_ID j \<and> jb_State k = Pending) (cancel_row now reason) q = put_row (cancel_row now reason j) q"
    by (rule update_row) (use wf_queueD(1) [OF Cons.prems(1)] j in \<open>auto simp: row_defs\<close>)
  have eq: "cancel_one now reason j (n, q) = (n + 1, emit TypeJobFailed (j\<lparr>jb_State := Dead, jb_LastError := reason\<rparr>)
      [(''terminal'', PBool True), (''permanent'', PBool True), (''cancelled'', PBool True)] (put_row (cancel_row now reason j) q))"
    using matchesI [OF j(1), of "\<lambda>k. jb_ID k = jb_ID j \<and> jb_State k = Pending"] j(2) up
    by (simp add: cancel_one_def cancel_row_def [abs_def])
  have c: "change q ?q" unfolding eq snd_conv using j assms(4) by (intro cancelled)
  have rest: "\<forall>k\<in>set js. k \<in> set (qu_jobs ?q) \<and> jb_State k = Pending"
  proof
    fix k assume k: "k \<in> set js"
    then have "jb_ID k \<noteq> jb_ID (cancel_row now reason j)" using Cons.prems(2) by (auto simp: row_defs image_iff)
    with k Cons.prems(3) show "k \<in> set (qu_jobs ?q) \<and> jb_State k = Pending" by (simp add: eq mem_put_row)
  qed
  have "change\<^sup>*\<^sup>* ?q (snd (fold (cancel_one now reason) js (n + 1, ?q)))"
    using Cons.IH [OF change_wf [OF c Cons.prems(1)] _ rest] Cons.prems(2) by simp
  with c show ?case by (simp add: eq converse_rtranclp_into_rtranclp)
qed simp

lemma chosen_Some: "chosen opts now q = Some j \<Longrightarrow> j \<in> set (qu_jobs q) \<and> claimable opts now j \<and>
    (\<forall>k\<in>set (qu_jobs q). claimable opts now k \<longrightarrow> claim_key j \<le> claim_key k)"
proof -
  assume "chosen opts now q = Some j"
  then obtain js where s: "sort_key claim_key (filter (claimable opts now) (qu_jobs q)) = j # js"
    by (auto simp: chosen_def split: list.splits)
  then have "sorted (map claim_key (j # js))" by (metis sorted_sort_key)
  moreover have "set (j # js) = {k \<in> set (qu_jobs q). claimable opts now k}" by (metis s set_sort set_filter)
  ultimately show ?thesis by auto
qed

lemma chosen_None: "chosen opts now q = None \<longleftrightarrow> (\<forall>k\<in>set (qu_jobs q). \<not> claimable opts now k)"
proof -
  have "chosen opts now q = None \<longleftrightarrow> sort_key claim_key (filter (claimable opts now) (qu_jobs q)) = []"
    by (simp add: chosen_def split: list.splits)
  also have "\<dots> \<longleftrightarrow> set (sort_key claim_key (filter (claimable opts now) (qu_jobs q))) = {}" by (simp only: set_empty)
  finally show ?thesis by auto
qed

lemma Enqueue_cases:
  "Enqueue i now opts q = (r, q') \<Longrightarrow>
     (\<exists>payload. r = Inr (new_job i now payload opts) \<and> \<not> violates (new_job i now payload opts) q \<and>
        q' = emit TypeJobEnqueued (new_job i now payload opts) [] (q\<lparr>qu_jobs := qu_jobs q @ [new_job i now payload opts]\<rparr>)) \<or>
     q' = q \<and> ((\<exists>e. r = Inl e) \<or> (\<exists>j. r = Inr j \<and> findLiveByDedupeKey (eo_DedupeKey opts) q = Inr j))"
  by (cases "findLiveByDedupeKey (eo_DedupeKey opts) q")
    (auto simp: Enqueue_def Let_def split: if_splits job_payload.splits)

lemma not_matches_held: "\<not> matches (holds_lease i owner) q \<Longrightarrow>
    Heartbeat now i owner ttl q = (Some (ErrLeaseLost i), q) \<and> job_Complete now i owner q = (Some (ErrLeaseLost i), q) \<and>
    snd (Fail rnd now i owner cause q) = q \<and> fst (Fail rnd now i owner cause q) \<in> {Some (ErrLeaseLost i), Some ErrNotFound}"
  by (auto simp: Heartbeat_def job_Complete_def Fail_def Let_def Get_def split: sum.splits option.splits)

lemma take_back_run:
  assumes "wf_queue q" and "ids = map jb_ID (filter P (qu_jobs q))" and "\<And>j. P j \<Longrightarrow> jb_State j = Leased"
    and "flag \<noteq> ''state''" and "flag \<noteq> ''attempts''"
  shows "change\<^sup>*\<^sup>* q (fold (take_back now reason flag) ids q)"
  by (rule take_back_changes) (use assms wf_queueD(1) [OF assms(1)] in \<open>auto intro!: distinct_map_filter\<close>)

lemma step_changes:
  assumes wf: "wf_queue q" and now: "op_now op \<noteq> 0"
  shows "change\<^sup>*\<^sup>* q (job_step op q)"
proof (cases op)
  case (OpEnqueue i t opts)
  obtain r q' where e: "Enqueue i t opts q = (r, q')" by fastforce
  consider "q' = q" | p where "\<not> violates (new_job i t p opts) q"
      "q' = emit TypeJobEnqueued (new_job i t p opts) [] (q\<lparr>qu_jobs := qu_jobs q @ [new_job i t p opts]\<rparr>)"
    using Enqueue_cases [OF e] by blast
  then have "change\<^sup>*\<^sup>* q q'"
  proof cases
    case (2 p)
    then show ?thesis using added [of i t p opts q] by simp
  qed simp
  then show ?thesis using OpEnqueue e by simp
next
  case (OpClaim t opts)
  show ?thesis
  proof (cases "co_Owner opts = [] \<or> chosen opts t q = None")
    case True
    then show ?thesis using OpClaim by (auto simp: Claim_def Let_def)
  next
    case False
    then obtain j where j: "chosen opts t q = Some j" "co_Owner opts \<noteq> []" by auto
    then show ?thesis
      using OpClaim chosen_Some [OF j(1)] Claim_row [OF wf_queueD(1) [OF wf] j(2,1)]
      by (auto simp: Let_def claimable_def intro!: r_into_rtranclp leased)
  qed
next
  case (OpHeartbeat t i owner ttl)
  show ?thesis
  proof (cases "matches (holds_lease i owner) q")
    case True
    then obtain j where j: "j \<in> set (qu_jobs q)" "holds_lease i owner j" by (rule held_row)
    then show ?thesis using OpHeartbeat Heartbeat_row [OF wf_queueD(1) [OF wf] j]
      by (auto simp: holds_lease_def intro!: r_into_rtranclp renewed)
  qed (use OpHeartbeat not_matches_held in simp)
next
  case (OpComplete t i owner)
  show ?thesis
  proof (cases "matches (holds_lease i owner) q")
    case True
    then obtain j where j: "j \<in> set (qu_jobs q)" "holds_lease i owner j" by (rule held_row)
    then show ?thesis using OpComplete now Complete_row [OF wf_queueD(1) [OF wf] j]
      by (auto simp: holds_lease_def intro!: r_into_rtranclp completed)
  qed (use OpComplete not_matches_held in simp)
next
  case (OpFail rnd t i owner cause)
  show ?thesis
  proof (cases "matches (holds_lease i owner) q")
    case True
    then obtain j where j: "j \<in> set (qu_jobs q)" "holds_lease i owner j" by (rule held_row)
    then show ?thesis using OpFail now Fail_row [OF wf_queueD(1) [OF wf] j]
      by (auto simp: holds_lease_def Let_def intro!: r_into_rtranclp buried again)
  qed (use OpFail not_matches_held in simp)
next
  case (OpReap t)
  then show ?thesis using take_back_run [OF wf expiredLeaseIDs_def [of t q]]
    by (simp add: ReapExpiredLeases_def Let_def)
next
  case (OpReclaim t)
  then show ?thesis using take_back_run [OF wf allLeasedIDs_def [of q]]
    by (simp add: ReclaimAllLeases_def Let_def)
next
  case (OpRetry t i)
  show ?thesis
  proof (cases "find (retryable i) (qu_jobs q)")
    case None
    then show ?thesis using OpRetry by (simp add: Retry_def)
  next
    case (Some j)
    then have j: "j \<in> set (qu_jobs q)" "retryable i j" by (auto simp: find_Some_iff)
    then show ?thesis using OpRetry Retry_row [OF wf_queueD(1) [OF wf] j]
      by (auto simp: retryable_def split: sum.split intro!: r_into_rtranclp retried)
  qed
next
  case (OpCancel t jobType mat reason)
  have d: "distinct (map jb_ID (pendingMatching jobType mat q))"
    unfolding pendingMatching_def using wf_queueD(1) [OF wf] by (intro distinct_map_filter) (simp add: distinct_map inj_on_def)
  have "\<forall>j\<in>set (pendingMatching jobType mat q). j \<in> set (qu_jobs q) \<and> jb_State j = Pending"
    by (simp add: pendingMatching_def)
  then show ?thesis using OpCancel now cancel_changes [OF wf d, of t reason 0] by (simp add: CancelPending_def)
qed

lemma steps_changes:
  assumes "wf_queue q" and "\<forall>op\<in>set ops. op_now op \<noteq> 0"
  shows "change\<^sup>*\<^sup>* q (fold job_step ops q)"
  using assms
proof (induction ops arbitrary: q)
  case (Cons op ops)
  then have c: "change\<^sup>*\<^sup>* q (job_step op q)" by (simp add: step_changes)
  have "change\<^sup>*\<^sup>* (job_step op q) (fold job_step ops (job_step op q))"
    by (rule Cons.IH [OF changes_wf [OF c Cons.prems(1)]]) (use Cons.prems(2) in simp)
  with c show ?case by (simp add: rtranclp_trans [of change])
qed simp

section \<open>A lease is exclusive\<close>

text \<open>An operation that may not touch a row held under a lease: another job's, another owner's, or a reap before
  the lease runs out.\<close>

fun spares :: "Job \<Rightarrow> job_op \<Rightarrow> bool" where
  "spares j (OpHeartbeat now i owner ttl) \<longleftrightarrow> (i, owner) \<noteq> (jb_ID j, jb_LeaseOwner j)"
| "spares j (OpComplete now i owner) \<longleftrightarrow> (i, owner) \<noteq> (jb_ID j, jb_LeaseOwner j)"
| "spares j (OpFail rnd now i owner cause) \<longleftrightarrow> (i, owner) \<noteq> (jb_ID j, jb_LeaseOwner j)"
| "spares j (OpReap now) \<longleftrightarrow> now < jb_LeaseExpiresAt j"
| "spares j (OpReclaim now) \<longleftrightarrow> False"
| "spares j _ \<longleftrightarrow> True"

lemma update_keeps: "j \<in> set (qu_jobs q) \<Longrightarrow> \<not> P j \<Longrightarrow> j \<in> set (qu_jobs (update P f q))"
  by (force simp: update_def)

lemma read_emit_jobs [simp]: "qu_jobs (read_emit ty i extra q) = qu_jobs q"
  by (simp add: read_emit_def split: sum.split)

lemma take_back_keeps: "j \<in> set (qu_jobs q) \<Longrightarrow> jb_ID j \<notin> set ids \<Longrightarrow> j \<in> set (qu_jobs (fold (take_back now reason flag) ids q))"
proof (induction ids arbitrary: q)
  case (Cons i ids)
  have "j \<in> set (qu_jobs (take_back now reason flag i q))"
    unfolding take_back_def read_emit_jobs by (rule update_keeps) (use Cons.prems in auto)
  with Cons.IH [of "take_back now reason flag i q"] Cons.prems(2) show ?case by simp
qed simp

lemma cancel_keeps: "j \<in> set (qu_jobs q) \<Longrightarrow> jb_State j \<noteq> Pending \<Longrightarrow> j \<in> set (qu_jobs (snd (fold (cancel_one now reason) js (n, q))))"
proof (induction js arbitrary: n q)
  case (Cons r js)
  have "j \<in> set (qu_jobs (snd (cancel_one now reason r (n, q))))"
    using Cons.prems by (auto simp: cancel_one_def intro: update_keeps)
  with Cons.IH [of "snd (cancel_one now reason r (n, q))" "fst (cancel_one now reason r (n, q))"] Cons.prems(2)
  show ?case by simp
qed simp

lemma step_spares:
  assumes wf: "wf_queue q" and j: "j \<in> set (qu_jobs q)" "jb_State j = Leased" and sp: "spares j op"
  shows "j \<in> set (qu_jobs (job_step op q))"
proof (cases op)
  case (OpEnqueue i t opts)
  then show ?thesis using j Enqueue_cases [of i t opts q "fst (Enqueue i t opts q)" "snd (Enqueue i t opts q)"] by auto
next
  case (OpClaim t opts)
  have "jb_ID j \<noteq> jb_ID k" if "chosen opts t q = Some k" for k
    using chosen_Some [OF that] j same_row [OF wf_queueD(1) [OF wf] j(1), of k] by (auto simp: claimable_def)
  then show ?thesis using OpClaim j by (auto simp: Claim_def Let_def intro: update_keeps split: option.split)
next
  case (OpHeartbeat t i owner ttl)
  then show ?thesis using j sp by (auto simp: Heartbeat_def holds_lease_def intro!: update_keeps)
next
  case (OpComplete t i owner)
  then show ?thesis using j sp by (auto simp: job_Complete_def holds_lease_def intro!: update_keeps)
next
  case (OpFail rnd t i owner cause)
  have "j \<in> set (qu_jobs (update (holds_lease i owner) f q))" for f
    using OpFail j sp by (auto simp: holds_lease_def intro!: update_keeps)
  then show ?thesis using OpFail j by (auto simp: Fail_def Let_def split: sum.split)
next
  case (OpReap t)
  have "jb_ID j \<notin> set (expiredLeaseIDs t q)"
  proof
    assume "jb_ID j \<in> set (expiredLeaseIDs t q)"
    then obtain k where k: "k \<in> set (qu_jobs q)" "jb_ID j = jb_ID k" "jb_LeaseExpiresAt k \<le> t" by (auto simp: expiredLeaseIDs_def)
    from same_row [OF wf_queueD(1) [OF wf] j(1) k(1,2)] k(3) OpReap sp show False by simp
  qed
  then show ?thesis using OpReap j by (simp add: ReapExpiredLeases_def Let_def take_back_keeps)
next
  case (OpRetry t i)
  have "\<not> retryable i j" using j(2) by (simp add: retryable_def)
  then show ?thesis using OpRetry j by (auto simp: Retry_def intro: update_keeps split: option.split sum.split)
next
  case (OpCancel t jobType mat reason)
  then show ?thesis using j by (simp add: CancelPending_def cancel_keeps)
qed (use sp in simp)

lemma steps_spare:
  assumes "wf_queue q" and "j \<in> set (qu_jobs q)" and "jb_State j = Leased" and "\<forall>op\<in>set ops. op_now op \<noteq> 0 \<and> spares j op"
  shows "j \<in> set (qu_jobs (fold job_step ops q)) \<and> wf_queue (fold job_step ops q)"
  using assms
proof (induction ops arbitrary: q)
  case (Cons op ops)
  then have "wf_queue (job_step op q)" "j \<in> set (qu_jobs (job_step op q))"
    by (auto intro: changes_wf [OF step_changes] step_spares)
  with Cons show ?case by simp
qed simp

end
