(* ===== verification/JobSpec.thy ===== *)
theory JobSpec
  imports JobProps
begin

text \<open>
  The properties of the job queue: its invariant, the life cycle it implements, exclusive leases, the order of
  work, the outcome of failures and their pace, and the idempotence of enqueueing.
\<close>

section \<open>The invariant\<close>

text \<open>C18: After any operations, in any order and by any workers, ids are distinct, a job has an owner just
  while it is leased, no job is in the state \<^verbatim>\<open>failed\<close>, a job has a finishing time just when it has succeeded or
  died, at most one live job has a given dedupe key, and the last event of each job shows its state and attempts,
  except that a claim is not shown: a leased job appears pending with the attempt not yet counted.\<close>

theorem job_queue_invariant:
  assumes "\<forall>op\<in>set ops. op_now op \<noteq> 0"
  shows "let q = fold job_step ops empty_queue in
    distinct (map jb_ID (qu_jobs q)) \<and>
    (\<forall>j\<in>set (qu_jobs q).
       (jb_State j = Leased \<longleftrightarrow> jb_LeaseOwner j \<noteq> []) \<and> jb_State j \<noteq> Failed \<and>
       (jb_FinishedAt j \<noteq> 0 \<longleftrightarrow> jb_State j = Succeeded \<or> jb_State j = Dead) \<and>
       logged q (jb_ID j) = Some (if jb_State j = Leased then (Pending, int (jb_Attempts j) - 1) else (jb_State j, int (jb_Attempts j)))) \<and>
    (\<forall>j\<in>set (qu_jobs q). \<forall>k\<in>set (qu_jobs q). live j \<and> live k \<and> jb_DedupeKey j = jb_DedupeKey k \<and> jb_DedupeKey j \<noteq> [] \<longrightarrow> j = k)"
  using changes_wf [OF steps_changes [OF wf_empty assms] wf_empty]
  unfolding wf_queue_def row_ok_def shown_def Let_def by blast

definition demo_opts :: EnqueueOptions where
  "demo_opts = \<lparr>eo_Type = ''t'', eo_Payload = NoPayload, eo_DedupeKey = ''k'', eo_Priority = None, eo_RequiredCapability = [],
     eo_RunAfter = 0, eo_MaxAttempts = 0\<rparr>"

definition demo_claim :: "string \<Rightarrow> ClaimOptions" where
  "demo_claim w = \<lparr>co_Owner = w, co_Capabilities = [], co_LeaseTTL = 10, co_Types = []\<rparr>"

definition demo_queue :: Queue where
  "demo_queue = job_step (OpEnqueue ''a'' 1 demo_opts) empty_queue"

lemma demo_row: "qu_jobs demo_queue = [new_job ''a'' 1 ''{}'' demo_opts]"
  by (simp add: demo_queue_def Enqueue_def demo_opts_def empty_queue_def violates_def matches_def Let_def)

lemma demo_fold: "fold job_step [OpEnqueue ''a'' 1 demo_opts] empty_queue = demo_queue"
  by (simp add: demo_queue_def)

lemma demo_wf: "wf_queue demo_queue"
  unfolding demo_queue_def by (rule changes_wf [OF step_changes wf_empty]) (simp_all add: wf_empty)

lemma job_queue_invariant_witness:
  "let q = fold job_step [OpEnqueue ''a'' 1 demo_opts] empty_queue in qu_jobs q \<noteq> [] \<and> distinct (map jb_ID (qu_jobs q))"
  using job_queue_invariant [of "[OpEnqueue ''a'' 1 demo_opts]"] demo_row by (simp add: Let_def demo_queue_def)

section \<open>The life cycle\<close>

definition row_of :: "Queue \<Rightarrow> string \<Rightarrow> Job option" where
  "row_of q i = find (\<lambda>j. jb_ID j = i) (qu_jobs q)"

definition state_of :: "Queue \<Rightarrow> string \<Rightarrow> JobState option" where
  "state_of q i = map_option jb_State (row_of q i)"

text \<open>The state machine of a job: which moves an operation may make.\<close>

fun moves :: "job_op \<Rightarrow> (JobState option \<times> JobState option) set" where
  "moves (OpEnqueue _ _ _) = {(None, Some Pending)}"
| "moves (OpClaim _ _) = {(Some Pending, Some Leased)}"
| "moves (OpHeartbeat _ _ _ _) = {}"
| "moves (OpComplete _ _ _) = {(Some Leased, Some Succeeded)}"
| "moves (OpFail _ _ _ _ _) = {(Some Leased, Some Dead), (Some Leased, Some Pending)}"
| "moves (OpReap _) = {(Some Leased, Some Pending)}"
| "moves (OpReclaim _) = {(Some Leased, Some Pending)}"
| "moves (OpRetry _ _) = {(Some Dead, Some Pending), (Some Failed, Some Pending), (Some Succeeded, Some Pending)}"
| "moves (OpCancel _ _ _ _) = {(Some Pending, Some Dead)}"

lemma find_map_same: "(\<And>j. jb_ID (g j) = jb_ID j) \<Longrightarrow> find (\<lambda>j. jb_ID j = i) (map g js) = map_option g (find (\<lambda>j. jb_ID j = i) js)"
  by (induction js) auto

lemma row_of_update: "(\<And>j. jb_ID (f j) = jb_ID j) \<Longrightarrow> row_of (update P f q) i = map_option (\<lambda>j. if P j then f j else j) (row_of q i)"
  by (simp add: row_of_def update_def find_map_same)

lemma row_of_emit [simp]: "row_of (emit ty j extra q) = row_of q" "row_of (read_emit ty k extra q) = row_of q"
  by (simp_all add: row_of_def fun_eq_iff)

lemma state_of_emit [simp]: "state_of (emit ty j extra q) = state_of q" "state_of (read_emit ty k extra q) = state_of q"
  by (simp_all add: state_of_def fun_eq_iff)

lemma row_of_Some: "row_of q i = Some j \<Longrightarrow> j \<in> set (qu_jobs q) \<and> jb_ID j = i"
  by (auto simp: row_of_def find_Some_iff)

lemma state_of_update:
  assumes "\<And>j. jb_ID (f j) = jb_ID j" and "\<And>j. j \<in> set (qu_jobs q) \<Longrightarrow> P j \<Longrightarrow> (Some (jb_State j), Some (jb_State (f j))) \<in> M"
  shows "(state_of q i, state_of (update P f q) i) \<in> M \<union> Id"
proof (cases "row_of q i")
  case (Some j)
  then show ?thesis using assms(2) [of j] row_of_Some [OF Some] by (simp add: state_of_def row_of_update assms(1))
qed (simp add: state_of_def row_of_update assms(1))

lemma take_back_state: "(state_of q i, state_of (fold (take_back now reason flag) ids q) i) \<in> {(Some Leased, Some Pending)} \<union> Id"
proof (induction ids arbitrary: q)
  case (Cons k ids)
  have "(state_of q i, state_of (take_back now reason flag k q) i) \<in> {(Some Leased, Some Pending)} \<union> Id"
    unfolding take_back_def state_of_emit by (rule state_of_update) (simp_all add: unlease_def)
  with Cons.IH [of "take_back now reason flag k q"] show ?case by auto
qed simp

lemma cancel_state: "(state_of q i, state_of (snd (fold (cancel_one now reason) js (n, q))) i) \<in> {(Some Pending, Some Dead)} \<union> Id"
proof (induction js arbitrary: q n)
  case (Cons j js)
  have "(state_of q i, state_of (snd (cancel_one now reason j (n, q))) i) \<in> {(Some Pending, Some Dead)} \<union> Id"
  proof (cases "matches (\<lambda>k. jb_ID k = jb_ID j \<and> jb_State k = Pending) q")
    case True
    have "(state_of q i, state_of (update (\<lambda>k. jb_ID k = jb_ID j \<and> jb_State k = Pending)
        (\<lambda>j. j\<lparr>jb_State := Dead, jb_LastError := reason, jb_FinishedAt := now, jb_UpdatedAt := now\<rparr>) q) i) \<in> {(Some Pending, Some Dead)} \<union> Id"
      by (rule state_of_update) simp_all
    with True show ?thesis by (simp add: cancel_one_def)
  qed (simp add: cancel_one_def)
  with Cons.IH [of "snd (cancel_one now reason j (n, q))" "fst (cancel_one now reason j (n, q))"] show ?case by auto
qed simp

lemma state_of_added: "jb_ID j \<notin> set (job_ids q) \<Longrightarrow> jb_State j = Pending \<Longrightarrow>
    (state_of q i, state_of (emit ty j extra (q\<lparr>qu_jobs := qu_jobs q @ [j]\<rparr>)) i) \<in> {(None, Some Pending)} \<union> Id"
proof -
  assume new: "jb_ID j \<notin> set (job_ids q)" and p: "jb_State j = Pending"
  have "find P (xs @ [j]) = (case find P xs of None \<Rightarrow> if P j then Some j else None | Some k \<Rightarrow> Some k)" for P xs
    by (induction xs) auto
  moreover have "find (\<lambda>k. jb_ID k = jb_ID j) (qu_jobs q) = None" using new by (auto simp: find_None_iff image_iff)
  ultimately show ?thesis using p by (auto simp: state_of_def row_of_def split: option.split)
qed

lemma enqueue_state: "(state_of q i, state_of (snd (Enqueue k t opts q)) i) \<in> {(None, Some Pending)} \<union> Id"
proof -
  obtain r q' where e: "Enqueue k t opts q = (r, q')" by fastforce
  consider "q' = q" | p where "\<not> violates (new_job k t p opts) q"
      "q' = emit TypeJobEnqueued (new_job k t p opts) [] (q\<lparr>qu_jobs := qu_jobs q @ [new_job k t p opts]\<rparr>)"
    using Enqueue_cases [OF e] by blast
  then have "(state_of q i, state_of q' i) \<in> {(None, Some Pending)} \<union> Id"
  proof cases
    case (2 p)
    then have "jb_ID (new_job k t p opts) \<notin> set (job_ids q)" by (auto simp: violates_def matches_def image_iff)
    then show ?thesis unfolding 2 by (rule state_of_added) (simp add: new_job_def)
  qed simp
  then show ?thesis using e by simp
qed

lemma claim_state:
  assumes "wf_queue q"
  shows "(state_of q i, state_of (snd (Claim t opts q)) i) \<in> {(Some Pending, Some Leased)} \<union> Id"
proof -
  have "(state_of q i, state_of (update (\<lambda>k. jb_ID k = jb_ID j) (take_lease (co_Owner opts) e t) q) i) \<in> {(Some Pending, Some Leased)} \<union> Id"
    if "chosen opts t q = Some j" for j e
  proof (rule state_of_update)
    fix k assume "k \<in> set (qu_jobs q)" "jb_ID k = jb_ID j"
    then have "k = j" using chosen_Some [OF that] same_row [OF wf_queueD(1) [OF assms]] by blast
    then show "(Some (jb_State k), Some (jb_State (take_lease (co_Owner opts) e t k))) \<in> {(Some Pending, Some Leased)}"
      using chosen_Some [OF that] by (simp add: claimable_def take_lease_def)
  qed (simp add: take_lease_def)
  then show ?thesis by (simp add: Claim_def Let_def split: option.split)
qed

lemma heartbeat_state: "state_of (snd (Heartbeat t k owner ttl q)) i = state_of q i"
proof -
  have "(state_of q i, state_of (update (holds_lease k owner) (\<lambda>j. j\<lparr>jb_LeaseExpiresAt := t + lease_ttl ttl, jb_UpdatedAt := t\<rparr>) q) i) \<in> Id \<union> Id"
    by (rule state_of_update) simp_all
  then show ?thesis by (simp add: Heartbeat_def)
qed

lemma complete_state: "(state_of q i, state_of (snd (job_Complete t k owner q)) i) \<in> {(Some Leased, Some Succeeded)} \<union> Id"
proof -
  have "(state_of q i, state_of (update (holds_lease k owner)
      (\<lambda>j. (unlease j)\<lparr>jb_State := Succeeded, jb_FinishedAt := t, jb_UpdatedAt := t, jb_LastError := []\<rparr>) q) i) \<in> {(Some Leased, Some Succeeded)} \<union> Id"
    by (rule state_of_update) (simp_all add: unlease_def holds_lease_def)
  then show ?thesis by (simp add: job_Complete_def)
qed

lemma fail_state: "(state_of q i, state_of (snd (Fail rnd t k owner cause q)) i) \<in> {(Some Leased, Some Dead), (Some Leased, Some Pending)} \<union> Id"
proof -
  have "(state_of q i, state_of (update (holds_lease k owner)
      (\<lambda>j. (unlease j)\<lparr>jb_State := Dead, jb_LastError := m, jb_FinishedAt := t, jb_UpdatedAt := t\<rparr>) q) i)
        \<in> {(Some Leased, Some Dead), (Some Leased, Some Pending)} \<union> Id"
    "(state_of q i, state_of (update (holds_lease k owner)
      (\<lambda>j. (unlease j)\<lparr>jb_State := Pending, jb_RunAfter := r, jb_LastError := m, jb_UpdatedAt := t\<rparr>) q) i)
        \<in> {(Some Leased, Some Dead), (Some Leased, Some Pending)} \<union> Id" for m r
    by (rule state_of_update; simp add: unlease_def holds_lease_def)+
  then show ?thesis by (simp add: Fail_def Let_def split: sum.split)
qed

lemma retry_state: "(state_of q i, state_of (snd (Retry t k q)) i) \<in> moves (OpRetry t k) \<union> Id"
proof -
  have "(state_of q i, state_of (update (retryable k)
      (\<lambda>j. (unlease j)\<lparr>jb_State := Pending, jb_Attempts := 0, jb_RunAfter := t, jb_FinishedAt := 0, jb_UpdatedAt := t\<rparr>) q) i) \<in> moves (OpRetry t k) \<union> Id"
    by (rule state_of_update) (auto simp: unlease_def retryable_def)
  then show ?thesis by (simp add: Retry_def split: option.split sum.split)
qed

lemma step_moves: "wf_queue q \<Longrightarrow> (state_of q i, state_of (job_step op q) i) \<in> moves op \<union> Id"
  using enqueue_state claim_state heartbeat_state complete_state fail_state take_back_state retry_state cancel_state [where n = 0]
  by (cases op) (simp_all add: ReapExpiredLeases_def ReclaimAllLeases_def CancelPending_def Let_def del: Un_insert_left insert_iff Un_iff)

text \<open>C19: The queue implements the state machine of a job: from any state reached from the empty queue, every
  operation either leaves the state of a job alone or makes one of its own moves, and no job disappears.\<close>

theorem job_lifecycle:
  assumes "\<forall>op\<in>set ops. op_now op \<noteq> 0"
  shows "let q = fold job_step ops empty_queue in
    (state_of q i, state_of (job_step op q) i) \<in> moves op \<union> Id"
  unfolding Let_def by (rule step_moves, rule changes_wf [OF steps_changes [OF wf_empty assms] wf_empty])

lemma job_lifecycle_witness:
  "(state_of demo_queue ''a'', state_of (job_step (OpClaim 2 (demo_claim ''w'')) demo_queue) ''a'') \<in> {(Some Pending, Some Leased)} \<union> Id"
  using job_lifecycle [of "[OpEnqueue ''a'' 1 demo_opts]" "''a''" "OpClaim 2 (demo_claim ''w'')"] by (simp add: Let_def demo_queue_def)

section \<open>Claims\<close>

lemma Claim_Inr:
  assumes wf: "wf_queue q" and c: "Claim now opts q = (Inr j, q')"
  obtains k where "k \<in> set (qu_jobs q)" "claimable opts now k" "\<forall>r\<in>set (qu_jobs q). claimable opts now r \<longrightarrow> claim_key k \<le> claim_key r"
    "j = take_lease (co_Owner opts) (now + lease_ttl (co_LeaseTTL opts)) now k" "q' = put_row j q" "co_Owner opts \<noteq> []"
    "chosen opts now q = Some k"
proof -
  have o: "co_Owner opts \<noteq> []" using c by (auto simp: Claim_def split: if_splits)
  obtain k where k: "chosen opts now q = Some k" using c o by (auto simp: Claim_def Let_def split: option.splits)
  show thesis
    using that [of k] chosen_Some [OF k] Claim_row [OF wf_queueD(1) [OF wf] o k] k o c by (simp add: Let_def)
qed

lemma claim_row:
  assumes wf: "wf_queue q" and c: "Claim now opts q = (Inr j, q')" and now: "now \<noteq> 0"
  shows "wf_queue q' \<and> j \<in> set (qu_jobs q') \<and> jb_State j = Leased \<and> jb_LeaseOwner j = co_Owner opts \<and>
    jb_LeaseExpiresAt j = now + lease_ttl (co_LeaseTTL opts)"
proof -
  obtain k where k: "k \<in> set (qu_jobs q)" "j = take_lease (co_Owner opts) (now + lease_ttl (co_LeaseTTL opts)) now k" "q' = put_row j q"
    by (rule Claim_Inr [OF wf c]) blast
  have "q' = job_step (OpClaim now opts) q" using c by simp
  then have "wf_queue q'" using changes_wf [OF step_changes [OF wf, of "OpClaim now opts"] wf] now by simp
  moreover have "jb_ID j \<in> set (job_ids q)" using row_id [OF k(1)] k(2) by (simp add: take_lease_def)
  ultimately show ?thesis using k by (simp add: mem_put_row) (simp add: take_lease_def)
qed

text \<open>C20: A claim finds work just when some job is pending, due, and of a type and capability the worker asked for,
  and takes the first by priority and due time. Until the lease runs out, whatever other workers and the reaper do,
  short of a restore, the row is exactly as it was claimed and no claim returns the job again.\<close>

theorem claim_exclusive:
  assumes "\<forall>op\<in>set before. op_now op \<noteq> 0" and "q = fold job_step before empty_queue"
    and "Claim now opts q = (r, q')" and "now \<noteq> 0" and "co_Owner opts \<noteq> []"
  shows "(r = Inl ErrNoWork \<longleftrightarrow> (\<forall>k\<in>set (qu_jobs q). \<not> claimable opts now k)) \<and>
    (\<forall>j. r = Inr j \<longrightarrow>
      (\<exists>k\<in>set (qu_jobs q). claimable opts now k \<and> (\<forall>l\<in>set (qu_jobs q). claimable opts now l \<longrightarrow> claim_key k \<le> claim_key l) \<and>
        j = k\<lparr>jb_State := Leased, jb_LeaseOwner := co_Owner opts, jb_LeaseExpiresAt := now + lease_ttl (co_LeaseTTL opts),
              jb_Attempts := jb_Attempts k + 1, jb_UpdatedAt := now\<rparr>) \<and>
      (\<forall>ops. (\<forall>op\<in>set ops. op_now op \<noteq> 0 \<and> spares j op) \<longrightarrow>
        (let q2 = fold job_step ops q' in
          Get (jb_ID j) q2 = Inr j \<and> (\<forall>t o2 k. fst (Claim t o2 q2) = Inr k \<longrightarrow> jb_ID k \<noteq> jb_ID j))))"
proof (intro conjI allI impI)
  have wf: "wf_queue q" unfolding assms(2) by (rule changes_wf [OF steps_changes [OF wf_empty assms(1)] wf_empty])
  have "r = Inl ErrNoWork \<longleftrightarrow> chosen opts now q = None"
    using assms(3,5) by (auto simp: Claim_def Let_def split: option.splits)
  then show "r = Inl ErrNoWork \<longleftrightarrow> (\<forall>k\<in>set (qu_jobs q). \<not> claimable opts now k)" by (simp add: chosen_None)
  fix j assume r: "r = Inr j"
  note c = assms(3) [unfolded r]
  show "\<exists>k\<in>set (qu_jobs q). claimable opts now k \<and> (\<forall>l\<in>set (qu_jobs q). claimable opts now l \<longrightarrow> claim_key k \<le> claim_key l) \<and>
      j = k\<lparr>jb_State := Leased, jb_LeaseOwner := co_Owner opts, jb_LeaseExpiresAt := now + lease_ttl (co_LeaseTTL opts),
            jb_Attempts := jb_Attempts k + 1, jb_UpdatedAt := now\<rparr>"
    by (rule Claim_Inr [OF wf c]) (auto simp: take_lease_def)
  fix ops assume ops: "\<forall>op\<in>set ops. op_now op \<noteq> 0 \<and> spares j op"
  have j: "wf_queue q'" "j \<in> set (qu_jobs q')" "jb_State j = Leased" using claim_row [OF wf c assms(4)] by auto
  define q2 where "q2 = fold job_step ops q'"
  have q2: "wf_queue q2" "j \<in> set (qu_jobs q2)" using steps_spare [OF j ops] by (auto simp: q2_def)
  have "jb_ID k \<noteq> jb_ID j" if "fst (Claim t o2 q2) = Inr k" for t o2 k
  proof -
    obtain q3 where "Claim t o2 q2 = (Inr k, q3)" using \<open>fst (Claim t o2 q2) = Inr k\<close> by (cases "Claim t o2 q2") simp
    then obtain l where "l \<in> set (qu_jobs q2)" "claimable o2 t l" "jb_ID k = jb_ID l"
      by (rule Claim_Inr [OF q2(1)]) (simp add: take_lease_def)
    with q2(2) j(3) same_row [OF wf_queueD(1) [OF q2(1)], of l j] show ?thesis by (auto simp: claimable_def)
  qed
  then show "let q2 = fold job_step ops q' in
      Get (jb_ID j) q2 = Inr j \<and> (\<forall>t o2 k. fst (Claim t o2 q2) = Inr k \<longrightarrow> jb_ID k \<noteq> jb_ID j)"
    using Get_row [OF wf_queueD(1) [OF q2(1)] q2(2)] by (simp add: q2_def Let_def)
qed

definition demo_leased :: Job where
  "demo_leased = take_lease ''w'' 12 2 (new_job ''a'' 1 ''{}'' demo_opts)"

lemma demo_claimed: "Claim 2 (demo_claim ''w'') demo_queue = (Inr demo_leased, demo_queue\<lparr>qu_jobs := [demo_leased]\<rparr>)"
  by (simp add: Claim_def demo_claim_def chosen_def demo_row claimable_def new_job_def demo_opts_def demo_leased_def lease_ttl_def update_def Let_def)

lemma claim_exclusive_witness:
  "let q2 = fold job_step [OpClaim 3 (demo_claim ''v''), OpReap 11, OpFail (\<lambda>d. 0) 4 ''a'' ''v'' None] (demo_queue\<lparr>qu_jobs := [demo_leased]\<rparr>) in
     Get ''a'' q2 = Inr demo_leased"
proof -
  let ?ops = "[OpClaim 3 (demo_claim ''v''), OpReap 11, OpFail (\<lambda>d. 0) 4 ''a'' ''v'' None]"
  have lease: "jb_ID demo_leased = ''a''" "jb_LeaseOwner demo_leased = ''w''" "jb_LeaseExpiresAt demo_leased = 12"
    by (simp_all add: demo_leased_def take_lease_def new_job_def)
  have ops: "\<forall>op\<in>set ?ops. op_now op \<noteq> 0 \<and> spares demo_leased op" by (simp add: lease)
  show ?thesis
    using claim_exclusive [OF _ _ demo_claimed, of "[OpEnqueue ''a'' 1 demo_opts]", THEN conjunct2, rule_format, of demo_leased, THEN conjunct2,
      rule_format, of ?ops, unfolded Let_def] ops
    by (simp only: Let_def lease) (simp add: demo_queue_def demo_claim_def)
qed

section \<open>Draining the queue\<close>

text \<open>The ids a worker gets that asks \<open>n\<close> times in a row.\<close>

fun claims :: "int \<Rightarrow> ClaimOptions \<Rightarrow> nat \<Rightarrow> Queue \<Rightarrow> string list" where
  "claims now opts 0 q = []"
| "claims now opts (Suc n) q =
     (case Claim now opts q of (Inl _, _) \<Rightarrow> [] | (Inr j, q') \<Rightarrow> jb_ID j # claims now opts n q')"

lemma filter_put_row:
  assumes "distinct (job_ids q)" and "jb_ID j' = jb_ID j" and "\<not> P j'" and "j \<in> set (qu_jobs q)"
  shows "filter P (qu_jobs (put_row j' q)) = filter (\<lambda>k. k \<noteq> j) (filter P (qu_jobs q))"
proof -
  have "filter P (map (\<lambda>k. if jb_ID k = jb_ID j then j' else k) js) = filter (\<lambda>k. k \<noteq> j) (filter P js)"
    if "\<forall>k\<in>set js. jb_ID k = jb_ID j \<longrightarrow> k = j" for js
    using that assms(3) by (induction js) auto
  moreover have "\<forall>k\<in>set (qu_jobs q). jb_ID k = jb_ID j \<longrightarrow> k = j" using same_row [OF assms(1) _ assms(4)] by blast
  ultimately show ?thesis unfolding put_row_def assms(2) by simp
qed

lemma claims_in_order:
  assumes "wf_queue q" and "now \<noteq> 0" and "co_Owner opts \<noteq> []"
  shows "claims now opts n q = take n (map jb_ID (sort_key claim_key (filter (claimable opts now) (qu_jobs q))))"
  using assms(1)
proof (induction n arbitrary: q)
  case (Suc n)
  show ?case
  proof (cases "sort_key claim_key (filter (claimable opts now) (qu_jobs q))")
    case Nil
    then show ?thesis using assms(3) by (simp add: Claim_def chosen_def)
  next
    case (Cons k ks)
    then have ch: "chosen opts now q = Some k" by (simp add: chosen_def)
    define j where "j = take_lease (co_Owner opts) (now + lease_ttl (co_LeaseTTL opts)) now k"
    have c: "Claim now opts q = (Inr j, put_row j q)"
      using Claim_row [OF wf_queueD(1) [OF Suc.prems] assms(3) ch] chosen_Some [OF ch] by (simp add: j_def Let_def)
    have "distinct (k # ks)"
      using wf_queueD(1) [OF Suc.prems] unfolding Cons [symmetric] by (simp add: distinct_map)
    then have ks: "filter (\<lambda>r. r \<noteq> k) (k # ks) = ks" by (auto simp: filter_id_conv)
    have j: "jb_ID j = jb_ID k" "\<not> claimable opts now j" by (simp_all add: j_def take_lease_def claimable_def)
    have rest: "sort_key claim_key (filter (claimable opts now) (qu_jobs (put_row j q))) = ks"
    proof -
      have "filter (claimable opts now) (qu_jobs (put_row j q)) = filter (\<lambda>r. r \<noteq> k) (filter (claimable opts now) (qu_jobs q))"
        using filter_put_row [where P = "claimable opts now", OF wf_queueD(1) [OF Suc.prems] j] chosen_Some [OF ch] by blast
      then show ?thesis using filter_sort [of "\<lambda>r. r \<noteq> k" claim_key "filter (claimable opts now) (qu_jobs q)"] Cons ks by metis
    qed
    have "wf_queue (put_row j q)" using claim_row [OF Suc.prems c assms(2)] by simp
    then show ?thesis using Suc.IH rest c Cons by (simp add: j_def take_lease_def)
  qed
qed simp

text \<open>A worker that keeps asking at one moment is given every job it may run, each exactly once, in the order of
  priority and due time, and then learns that there is no work.\<close>

theorem claims_drain:
  assumes "\<forall>op\<in>set before. op_now op \<noteq> 0" and "now \<noteq> 0" and "co_Owner opts \<noteq> []"
  shows "let q = fold job_step before empty_queue; due = filter (claimable opts now) (qu_jobs q) in
    claims now opts (length due) q = map jb_ID (sort_key claim_key due) \<and>
    (\<forall>n. claims now opts n q = take n (map jb_ID (sort_key claim_key due))) \<and>
    distinct (claims now opts (length due) q)"
proof -
  define q where "q = fold job_step before empty_queue"
  have wf: "wf_queue q" unfolding q_def by (rule changes_wf [OF steps_changes [OF wf_empty assms(1)] wf_empty])
  have "distinct (map jb_ID (sort_key claim_key (filter (claimable opts now) (qu_jobs q))))"
    using wf_queueD(1) [OF wf] by (simp add: distinct_map inj_on_def)
  then show ?thesis using claims_in_order [OF wf assms(2,3)] by (simp add: Let_def q_def)
qed

lemma claims_drain_witness: "claims 2 (demo_claim ''w'') 1 demo_queue = [''a'']"
proof -
  have due: "filter (claimable (demo_claim ''w'') 2) (qu_jobs demo_queue) = [new_job ''a'' 1 ''{}'' demo_opts]"
    by (simp add: demo_row claimable_def new_job_def demo_opts_def demo_claim_def)
  have "claims 2 (demo_claim ''w'') (length [new_job ''a'' 1 ''{}'' demo_opts]) demo_queue = map jb_ID (sort_key claim_key [new_job ''a'' 1 ''{}'' demo_opts])"
    unfolding due [symmetric] demo_fold [symmetric]
    by (rule claims_drain [unfolded Let_def, THEN conjunct1]) (simp_all add: demo_claim_def)
  then show ?thesis by (simp add: new_job_def)
qed

section \<open>Failures\<close>

text \<open>The schedules are within the width of a \<^verbatim>\<open>time.Duration\<close>; \<^verbatim>\<open>rand.Int64N d\<close> is below \<open>d\<close>.\<close>

lemma backoffWithin_bounds:
  assumes rnd: "\<And>d. 0 < d \<Longrightarrow> 0 \<le> rnd d \<and> rnd d < d" and base: "0 < base" "base \<le> 60 * second" and top: "base \<le> maxd" "maxd \<le> 6 * 3600 * second"
  shows "base \<le> backoffWithin rnd a base maxd \<and> backoffWithin rnd a base maxd < base + min maxd (base * 2 ^ min (a - 1) 20)"
proof -
  define n where "n = min (a - 1) 20"
  have e: "min ((if a < 1 then 1 else a) - 1) 20 = n" by (auto simp: n_def)
  define x where "x = base * 2 ^ n"
  have "(2::int) ^ n \<le> 2 ^ 20" by (rule power_increasing) (simp_all add: n_def)
  then have "x \<le> (60 * second) * 2 ^ 20" unfolding x_def using base by (intro mult_mono) auto
  moreover have pos: "0 < x" using base by (simp add: x_def)
  ultimately have w: "wrap64 (base * 2 ^ n) = x" unfolding x_def [symmetric] by (intro wrap64_id) (simp add: int64_range_def second_def)
  define d where "d = (if x > maxd \<or> x \<le> 0 then maxd else x)"
  have d: "d = min maxd x" "0 < d" "d \<le> maxd" using pos base top by (auto simp: d_def)
  have "wrap64 (rnd d + base) = rnd d + base"
    using rnd [OF d(2)] d(3) base top by (intro wrap64_id) (simp add: int64_range_def second_def)
  then have "backoffWithin rnd a base maxd = rnd d + base"
    unfolding backoffWithin_def Let_def e w by (simp add: d_def)
  then show ?thesis using rnd [OF d(2)] d(1) by (simp add: n_def x_def)
qed

text \<open>A failure that its worker still holds buries the job just when it is declared permanent, or is not declared
  transient and the attempts are used up; otherwise the job waits at least the base of its schedule and less than
  the base beyond the exponential delay, which the ceiling bounds. A worker that does not hold the job changes nothing.\<close>

theorem fail_outcome:
  assumes "\<forall>op\<in>set before. op_now op \<noteq> 0" and "q = fold job_step before empty_queue"
    and "\<And>d. 0 < d \<Longrightarrow> 0 \<le> rnd d \<and> rnd d < d" and "j \<in> set (qu_jobs q)"
    and "Fail rnd now (jb_ID j) owner cause q = (err, q')"
  shows "if holds_lease (jb_ID j) owner j
    then err = None \<and> (\<exists>j'. Get (jb_ID j) q' = Inr j' \<and>
      jb_LeaseOwner j' = [] \<and> jb_Attempts j' = jb_Attempts j \<and> jb_LastError j' = message_of cause \<and>
      (if gives_up cause j then jb_State j' = Dead \<and> jb_FinishedAt j' = now
       else jb_State j' = Pending \<and>
         (let base = (if is_transient cause then transientBaseBackoff else defaultBaseBackoff);
              ceiling = (if is_transient cause then transientMaxBackoff else defaultMaxBackoff)
          in now + base \<le> jb_RunAfter j' \<and> jb_RunAfter j' < now + base + min ceiling (base * 2 ^ min (jb_Attempts j - 1) 20))))
    else err = Some (ErrLeaseLost (jb_ID j)) \<and> q' = q"
proof -
  have wf: "wf_queue q" unfolding assms(2) by (rule changes_wf [OF steps_changes [OF wf_empty assms(1)] wf_empty])
  note d = wf_queueD(1) [OF wf]
  show ?thesis
  proof (cases "holds_lease (jb_ID j) owner j")
    case True
    have id: "jb_ID j \<in> set (job_ids q)" using assms(4) by simp
    have get: "Get (jb_ID j) (emit ty r extra (put_row j' q)) = Inr j'" if "jb_ID j' = jb_ID j" for ty r extra j'
      using Get_put_row [OF d, of j'] that id by (simp add: Get_def)
    define base where "base = (if is_transient cause then transientBaseBackoff else defaultBaseBackoff)"
    define ceiling where "ceiling = (if is_transient cause then transientMaxBackoff else defaultMaxBackoff)"
    have "0 < base" "base \<le> 60 * second" "base \<le> ceiling" "ceiling \<le> 6 * 3600 * second"
      by (simp_all add: base_def ceiling_def backoff_constants)
    then have b: "base \<le> retryBackoff rnd (is_transient cause) (jb_Attempts j)"
        "retryBackoff rnd (is_transient cause) (jb_Attempts j) < base + min ceiling (base * 2 ^ min (jb_Attempts j - 1) 20)"
      using backoffWithin_bounds [where rnd = rnd, OF assms(3), of base ceiling "jb_Attempts j"]
      by (auto simp: retryBackoff_def backoff_def base_def ceiling_def split: if_splits)
    show ?thesis
    proof (cases "gives_up cause j")
      case True
      with \<open>holds_lease (jb_ID j) owner j\<close> assms(5) show ?thesis
        unfolding Fail_row [OF d assms(4) \<open>holds_lease (jb_ID j) owner j\<close>]
        by (auto simp: get dead_row_def unlease_def)
    next
      case False
      with \<open>holds_lease (jb_ID j) owner j\<close> assms(5) b show ?thesis
        unfolding Fail_row [OF d assms(4) \<open>holds_lease (jb_ID j) owner j\<close>]
        by (auto simp: get again_row_def unlease_def Let_def base_def [symmetric] ceiling_def [symmetric])
    qed
  next
    case False
    have "\<not> matches (holds_lease (jb_ID j) owner) q"
      using False same_row [OF d _ assms(4)] by (auto simp: matches_def holds_lease_def)
    then show ?thesis using False assms(5) Get_row [OF d assms(4)] by (auto simp: Fail_def Let_def split: if_splits)
  qed
qed

lemma demo_fold2: "fold job_step [OpEnqueue ''a'' 1 demo_opts, OpClaim 2 (demo_claim ''w'')] empty_queue = demo_queue\<lparr>qu_jobs := [demo_leased]\<rparr>"
  using demo_claimed by (simp add: demo_queue_def)

lemma fail_outcome_witness:
  "let q' = snd (Fail (\<lambda>d. 0) 5 ''a'' ''w'' None (demo_queue\<lparr>qu_jobs := [demo_leased]\<rparr>)) in
    \<exists>j'. Get ''a'' q' = Inr j' \<and> jb_State j' = Pending \<and> 2000000005 \<le> jb_RunAfter j'"
proof -
  let ?q = "demo_queue\<lparr>qu_jobs := [demo_leased]\<rparr>"
  have lease: "jb_ID demo_leased = ''a''" "holds_lease ''a'' ''w'' demo_leased" "\<not> gives_up None demo_leased" "\<not> is_transient None"
    by (simp_all add: demo_leased_def take_lease_def new_job_def holds_lease_def gives_up_def is_transient_def demo_opts_def DefaultMaxAttempts_def)
  obtain err q' where f: "Fail (\<lambda>d. 0) 5 ''a'' ''w'' None ?q = (err, q')" by fastforce
  have "(\<exists>j'. Get ''a'' q' = Inr j' \<and> jb_State j' = Pending \<and> 5 + defaultBaseBackoff \<le> jb_RunAfter j')"
    using fail_outcome [of "[OpEnqueue ''a'' 1 demo_opts, OpClaim 2 (demo_claim ''w'')]" ?q "\<lambda>d. 0" demo_leased 5 "''w''" None err q', OF _ demo_fold2 [symmetric]]
      f lease by (auto simp: Let_def)
  then show ?thesis using f by (simp add: Let_def backoff_constants)
qed

section \<open>Attempts\<close>

text \<open>Operations that count attempts towards the budget: no lease is taken back and no failure is declared transient.\<close>

fun budgeted :: "job_op \<Rightarrow> bool" where
  "budgeted (OpFail rnd now i owner cause) \<longleftrightarrow> \<not> is_transient cause"
| "budgeted (OpReap now) \<longleftrightarrow> False"
| "budgeted (OpReclaim now) \<longleftrightarrow> False"
| "budgeted _ \<longleftrightarrow> True"

definition within_budget :: "Job \<Rightarrow> bool" where
  "within_budget j \<longleftrightarrow> 1 \<le> jb_MaxAttempts j \<and> int (jb_Attempts j) \<le> jb_MaxAttempts j \<and>
     (jb_State j = Pending \<longrightarrow> int (jb_Attempts j) < jb_MaxAttempts j)"

lemma update_all:
  assumes "\<forall>j\<in>set (qu_jobs q). Q j" and "\<And>j. j \<in> set (qu_jobs q) \<Longrightarrow> P j \<Longrightarrow> Q j \<Longrightarrow> Q (f j)"
  shows "\<forall>j\<in>set (qu_jobs (update P f q)). Q j"
  using assms by (auto simp: update_def)

lemma cancel_budget: "\<forall>j\<in>set (qu_jobs q). within_budget j \<Longrightarrow> \<forall>j\<in>set (qu_jobs (snd (fold (cancel_one now reason) js (n, q)))). within_budget j"
proof (induction js arbitrary: n q)
  case (Cons r js)
  have "\<forall>j\<in>set (qu_jobs (snd (cancel_one now reason r (n, q)))). within_budget j"
    using Cons.prems update_all [OF Cons.prems, of "\<lambda>j. jb_ID j = jb_ID r \<and> jb_State j = Pending"
      "\<lambda>j. j\<lparr>jb_State := Dead, jb_LastError := reason, jb_FinishedAt := now, jb_UpdatedAt := now\<rparr>"]
    by (simp add: cancel_one_def within_budget_def)
  with Cons.IH [of "snd (cancel_one now reason r (n, q))" "fst (cancel_one now reason r (n, q))"] show ?case by simp
qed simp

lemma step_budget:
  assumes wf: "wf_queue q" and b: "\<forall>j\<in>set (qu_jobs q). within_budget j" and op: "budgeted op"
  shows "\<forall>j\<in>set (qu_jobs (job_step op q)). within_budget j"
proof (cases op)
  case (OpEnqueue i t opts)
  have "within_budget (new_job i t p opts)" for p by (simp add: within_budget_def new_job_def DefaultMaxAttempts_def)
  then show ?thesis
    using OpEnqueue b Enqueue_cases [of i t opts q "fst (Enqueue i t opts q)" "snd (Enqueue i t opts q)"] by auto
next
  case (OpClaim t opts)
  have "\<forall>r\<in>set (qu_jobs (update (\<lambda>k. jb_ID k = jb_ID j) (take_lease (co_Owner opts) e t) q)). within_budget r"
    if "chosen opts t q = Some j" for j e
  proof (rule update_all [OF b])
    fix k assume "k \<in> set (qu_jobs q)" "jb_ID k = jb_ID j" "within_budget k"
    moreover from this have "k = j" using chosen_Some [OF that] same_row [OF wf_queueD(1) [OF wf]] by blast
    ultimately show "within_budget (take_lease (co_Owner opts) e t k)"
      using chosen_Some [OF that] by (simp add: within_budget_def take_lease_def claimable_def)
  qed
  then show ?thesis using OpClaim b by (simp add: Claim_def Let_def split: option.split)
next
  case (OpHeartbeat t i owner ttl)
  have "\<forall>j\<in>set (qu_jobs (update (holds_lease i owner) (\<lambda>j. j\<lparr>jb_LeaseExpiresAt := t + lease_ttl ttl, jb_UpdatedAt := t\<rparr>) q)). within_budget j"
    by (rule update_all [OF b]) (simp add: within_budget_def)
  then show ?thesis using OpHeartbeat b by (simp add: Heartbeat_def)
next
  case (OpComplete t i owner)
  have "\<forall>j\<in>set (qu_jobs (update (holds_lease i owner)
      (\<lambda>j. (unlease j)\<lparr>jb_State := Succeeded, jb_FinishedAt := t, jb_UpdatedAt := t, jb_LastError := []\<rparr>) q)). within_budget j"
    by (rule update_all [OF b]) (simp add: within_budget_def unlease_def)
  then show ?thesis using OpComplete b by (simp add: job_Complete_def)
next
  case (OpFail rnd t i owner cause)
  show ?thesis
  proof (cases "matches (holds_lease i owner) q")
    case True
    then obtain j where j: "j \<in> set (qu_jobs q)" "holds_lease i owner j" by (rule held_row)
    have "within_budget (dead_row t m j)" "\<not> gives_up cause j \<Longrightarrow> within_budget (again_row t r m j)" for m r
      using b j OpFail op by (auto simp: within_budget_def dead_row_def again_row_def unlease_def gives_up_def is_transient_def split: option.splits)
    then show ?thesis using OpFail b Fail_row [OF wf_queueD(1) [OF wf] j]
      by (auto simp: mem_put_row Let_def)
  qed (use OpFail b not_matches_held in simp)
next
  case (OpRetry t i)
  have "\<forall>j\<in>set (qu_jobs (update (retryable i)
      (\<lambda>j. (unlease j)\<lparr>jb_State := Pending, jb_Attempts := 0, jb_RunAfter := t, jb_FinishedAt := 0, jb_UpdatedAt := t\<rparr>) q)). within_budget j"
    by (rule update_all [OF b]) (simp add: within_budget_def unlease_def)
  then show ?thesis using OpRetry b by (simp add: Retry_def split: option.split sum.split)
next
  case (OpCancel t jobType mat reason)
  then show ?thesis using b cancel_budget by (simp add: CancelPending_def)
qed (use op in simp_all)

text \<open>C21: While no lease is taken back and no failure is declared transient, a job is never attempted more often than
  its budget, and a job that waits has an attempt left.\<close>

theorem attempts_within_budget:
  assumes "\<forall>op\<in>set ops. op_now op \<noteq> 0 \<and> budgeted op"
  shows "\<forall>j\<in>set (qu_jobs (fold job_step ops empty_queue)).
    1 \<le> jb_MaxAttempts j \<and> int (jb_Attempts j) \<le> jb_MaxAttempts j \<and> (jb_State j = Pending \<longrightarrow> int (jb_Attempts j) < jb_MaxAttempts j)"
proof -
  have "\<forall>j\<in>set (qu_jobs (fold job_step ops q)). within_budget j"
    if "wf_queue q" "\<forall>j\<in>set (qu_jobs q). within_budget j" for q
    using assms that
  proof (induction ops arbitrary: q)
    case (Cons op ops)
    have "wf_queue (job_step op q)" using Cons.prems by (auto intro: changes_wf [OF step_changes])
    moreover have "\<forall>j\<in>set (qu_jobs (job_step op q)). within_budget j"
      by (rule step_budget [OF Cons.prems(2,3)]) (use Cons.prems(1) in simp)
    ultimately show ?case using Cons.IH Cons.prems(1) by simp
  qed simp
  from this [OF wf_empty] show ?thesis by (simp add: empty_queue_def within_budget_def)
qed

lemma attempts_within_budget_witness:
  "list_all (\<lambda>j. int (jb_Attempts j) \<le> jb_MaxAttempts j) (qu_jobs (fold job_step [OpEnqueue ''a'' 1 demo_opts, OpClaim 2 (demo_claim ''w'')] empty_queue))"
  using attempts_within_budget [of "[OpEnqueue ''a'' 1 demo_opts, OpClaim 2 (demo_claim ''w'')]"] by (simp add: list_all_iff)

text \<open>A worker that claims a job and dies, \<open>n\<close> times over.\<close>

definition lost_round :: "job_op list" where
  "lost_round = [OpClaim 2 (demo_claim ''w''), OpReap 100]"

fun lost_rounds :: "nat \<Rightarrow> job_op list" where
  "lost_rounds 0 = []"
| "lost_rounds (Suc n) = lost_rounds n @ lost_round"

definition waits :: "nat \<Rightarrow> Job \<Rightarrow> bool" where
  "waits n j \<longleftrightarrow> jb_ID j = ''a'' \<and> jb_State j = Pending \<and> jb_Attempts j = n \<and> jb_MaxAttempts j = 5 \<and> jb_RunAfter j = 1 \<and>
     jb_RequiredCapability j = []"

lemma lost_round_row:
  assumes "qu_jobs q = [j]" and "waits n j"
  shows "\<exists>j'. qu_jobs (fold job_step lost_round q) = [j'] \<and> waits (Suc n) j'"
proof -
  define l where "l = take_lease ''w'' 12 2 j"
  have "Claim 2 (demo_claim ''w'') q = (Inr l, q\<lparr>qu_jobs := [l]\<rparr>)"
    using assms by (simp add: Claim_def demo_claim_def chosen_def claimable_def waits_def lease_ttl_def update_def Let_def l_def)
  moreover have "snd (ReapExpiredLeases 100 (q\<lparr>qu_jobs := [l]\<rparr>)) = take_back 100 reap_reason ''reaped'' ''a'' (q\<lparr>qu_jobs := [l]\<rparr>)"
    using assms(2) by (simp add: ReapExpiredLeases_def expiredLeaseIDs_def l_def take_lease_def waits_def Let_def)
  ultimately show ?thesis
    using assms(2) by (simp add: lost_round_def take_back_def update_def l_def take_lease_def waits_def unlease_def)
qed

lemma lost_rounds_row: "\<exists>j. qu_jobs (fold job_step (lost_rounds n) demo_queue) = [j] \<and> waits n j"
proof (induction n)
  case 0
  then show ?case by (simp add: demo_row waits_def new_job_def demo_opts_def DefaultMaxAttempts_def)
next
  case (Suc n)
  then obtain j where "qu_jobs (fold job_step (lost_rounds n) demo_queue) = [j]" "waits n j" by blast
  then show ?case using lost_round_row by simp
qed

text \<open>C22: Only a reported failure or a cancellation buries a job. A job whose worker dies every time is claimed and
  taken back without end: for every number there is a run in which it has been attempted that often, with a
  budget of five, and is waiting to be claimed once more.\<close>

theorem lost_worker_never_buries:
  shows "wf_queue q \<Longrightarrow> state_of q i \<noteq> Some Dead \<Longrightarrow>
      \<forall>op\<in>set ops. op_now op \<noteq> 0 \<and> (\<forall>rnd now k owner cause. op \<noteq> OpFail rnd now k owner cause) \<and> (\<forall>now ty mat reason. op \<noteq> OpCancel now ty mat reason) \<Longrightarrow>
      state_of (fold job_step ops q) i \<noteq> Some Dead \<and>
      (\<exists>j. Get ''a'' (fold job_step (lost_rounds n) demo_queue) = Inr j \<and> jb_State j = Pending \<and> jb_Attempts j = n \<and> jb_MaxAttempts j = 5)"
proof (intro conjI)
  show "wf_queue q \<Longrightarrow> state_of q i \<noteq> Some Dead \<Longrightarrow>
      \<forall>op\<in>set ops. op_now op \<noteq> 0 \<and> (\<forall>rnd now k owner cause. op \<noteq> OpFail rnd now k owner cause) \<and> (\<forall>now ty mat reason. op \<noteq> OpCancel now ty mat reason) \<Longrightarrow>
      state_of (fold job_step ops q) i \<noteq> Some Dead"
  proof (induction ops arbitrary: q)
    case (Cons op ops)
    have "(state_of q i, state_of (job_step op q) i) \<in> moves op \<union> Id" by (rule step_moves [OF Cons.prems(1)])
    then have "state_of (job_step op q) i \<noteq> Some Dead" using Cons.prems(2,3) by (cases op) auto
    moreover have "wf_queue (job_step op q)" using Cons.prems by (auto intro: changes_wf [OF step_changes])
    ultimately show ?case using Cons.IH Cons.prems(3) by simp
  qed simp
  show "\<exists>j. Get ''a'' (fold job_step (lost_rounds n) demo_queue) = Inr j \<and> jb_State j = Pending \<and> jb_Attempts j = n \<and> jb_MaxAttempts j = 5"
    using lost_rounds_row [of n] by (auto simp: Get_def waits_def)
qed

lemma lost_worker_never_buries_witness:
  "state_of (fold job_step (lost_rounds 7) demo_queue) ''a'' \<noteq> Some Dead"
  using lost_worker_never_buries [of demo_queue "''a''" "lost_rounds 7"] demo_wf
  by (simp add: state_of_def row_of_def demo_row new_job_def eval_nat_numeral lost_round_def)

section \<open>Enqueueing twice and retrying\<close>

text \<open>What a job keeps for its whole life.\<close>

lemma row_of_put: "row_of q i = Some j \<Longrightarrow> jb_ID j' = jb_ID k \<Longrightarrow> row_of (put_row j' q) i = Some (if jb_ID k = i then j' else j)"
proof -
  assume "row_of q i = Some j" and id: "jb_ID j' = jb_ID k"
  then have f: "find (\<lambda>j. jb_ID j = i) (qu_jobs q) = Some j" by (simp add: row_of_def)
  have "find (\<lambda>j. jb_ID j = i) (map (\<lambda>r. if jb_ID r = jb_ID j' then j' else r) js) =
      map_option (\<lambda>r. if jb_ID r = jb_ID j' then j' else r) (find (\<lambda>j. jb_ID j = i) js)" for js
    by (rule find_map_same) simp
  with f id show ?thesis by (auto simp: row_of_def put_row_def find_Some_iff)
qed

lemma row_of_mem: "distinct (job_ids q) \<Longrightarrow> j \<in> set (qu_jobs q) \<Longrightarrow> row_of q (jb_ID j) = Some j"
  using find_id [of q j "\<lambda>k. jb_ID k = jb_ID j"] by (simp add: row_of_def)

definition kept :: "Job \<Rightarrow> string \<times> string \<times> string \<times> int \<times> string \<times> int \<times> int" where
  "kept j = (jb_Type j, jb_Payload j, jb_DedupeKey j, jb_Priority j, jb_RequiredCapability j, jb_MaxAttempts j, jb_CreatedAt j)"

lemma change_kept: "change q q' \<Longrightarrow> distinct (job_ids q) \<Longrightarrow> row_of q i = Some j \<Longrightarrow> \<exists>j'. row_of q' i = Some j' \<and> kept j' = kept j"
proof (induction rule: change.induct)
  case (added k now payload opts q)
  have "find P xs = Some r \<Longrightarrow> find P (xs @ ys) = Some r" for P r and xs ys :: "Job list" by (induction xs) auto
  with added show ?case by (simp add: row_of_def)
qed (auto simp: row_of_put [where k = _] row_defs kept_def dest: row_of_mem)

lemma steps_kept:
  assumes "wf_queue q" and "\<forall>op\<in>set ops. op_now op \<noteq> 0" and "row_of q i = Some j"
  shows "\<exists>j'. row_of (fold job_step ops q) i = Some j' \<and> kept j' = kept j"
proof -
  have "\<exists>j'. row_of q' i = Some j' \<and> kept j' = kept j" if "change\<^sup>*\<^sup>* q q'" for q'
    using that
  proof (induction rule: rtranclp_induct)
    case (step q1 q2)
    then obtain j1 where j1: "row_of q1 i = Some j1" "kept j1 = kept j" by blast
    have "distinct (job_ids q1)" using changes_wf [OF step(1) assms(1)] by (rule wf_queueD(1))
    from change_kept [OF step(2) this j1(1)] j1(2) show ?case by auto
  qed (use assms(3) in simp)
  then show ?thesis using steps_changes [OF assms(1,2)] by blast
qed

lemma live_key_unique:
  assumes "wf_queue q" and "j \<in> set (qu_jobs q)" and "live j" and "jb_DedupeKey j = key" and "key \<noteq> []"
  shows "findLiveByDedupeKey key q = Inr j"
proof (cases "findLiveByDedupeKey key q")
  case (Inl e)
  then show ?thesis using find_live_Inl assms by blast
next
  case (Inr k)
  then show ?thesis using find_live_Inr [OF Inr] wf_queueD(4) [OF assms(1), of k j] assms by simp
qed

text \<open>Enqueueing under a dedupe key is idempotent: while the job that the key first gave is live, whatever has
  been done to it in the meantime, enqueueing under the key again returns that job as it now is and changes
  neither the table nor the log. Nothing of what was enqueued has changed.\<close>

theorem enqueue_idempotent:
  assumes "\<forall>op\<in>set (before @ ops). op_now op \<noteq> 0" and "now \<noteq> 0" and "q = fold job_step before empty_queue"
    and "Enqueue i now opts q = (Inr j, q1)" and "eo_DedupeKey opts \<noteq> []"
    and "Get (jb_ID j) (fold job_step ops q1) = Inr j2" and "live j2"
    and "eo_DedupeKey opts2 = eo_DedupeKey opts" and "eo_Type opts2 \<noteq> []" and "eo_Payload opts2 \<noteq> Unencodable"
  shows "Enqueue i2 now2 opts2 (fold job_step ops q1) = (Inr j2, fold job_step ops q1) \<and>
    jb_Type j2 = jb_Type j \<and> jb_Payload j2 = jb_Payload j \<and> jb_DedupeKey j2 = eo_DedupeKey opts"
proof -
  have wf: "wf_queue q" unfolding assms(3) by (rule changes_wf [OF steps_changes [OF wf_empty] wf_empty]) (use assms(1) in simp)
  have q1: "q1 = job_step (OpEnqueue i now opts) q" using assms(4) by simp
  have wf1: "wf_queue q1" unfolding q1 by (rule changes_wf [OF step_changes [OF wf] wf]) (use assms(2) in simp)
  have j: "j \<in> set (qu_jobs q1)" "jb_DedupeKey j = eo_DedupeKey opts"
    using Enqueue_cases [OF assms(4)] find_live_Inr by (auto simp: new_job_def dest: sym)
  define q2 where "q2 = fold job_step ops q1"
  have wf2: "wf_queue q2" unfolding q2_def by (rule changes_wf [OF steps_changes [OF wf1] wf1]) (use assms(1) in simp)
  obtain j' where j': "row_of q2 (jb_ID j) = Some j'" "kept j' = kept j"
    using steps_kept [OF wf1 _ row_of_mem [OF wf_queueD(1) [OF wf1] j(1)], of ops] assms(1) by (auto simp: q2_def)
  with assms(6) have "j' = j2" by (simp add: Get_def row_of_def q2_def)
  with j' have k: "kept j2 = kept j" "j2 \<in> set (qu_jobs q2)" using row_of_Some [OF j'(1)] by auto
  have f: "findLiveByDedupeKey (eo_DedupeKey opts2) q2 = Inr j2"
    by (rule live_key_unique [OF wf2 k(2) assms(7)]) (use k(1) j(2) assms(5,8) in \<open>simp_all add: kept_def\<close>)
  have "violates (new_job i2 now2 p opts2) q2" for p
    using k(2) assms(5,7,8) k(1) j(2) by (auto simp: violates_def matches_def new_job_def kept_def)
  then show ?thesis
    using f assms(5,8-10) k(1) j(2) by (auto simp: q2_def [symmetric] Enqueue_def Let_def kept_def split: job_payload.split)
qed

lemma enqueue_idempotent_witness:
  "Enqueue ''b'' 9 demo_opts (fold job_step [OpClaim 2 (demo_claim ''w'')] demo_queue) =
    (Inr demo_leased, fold job_step [OpClaim 2 (demo_claim ''w'')] demo_queue)"
proof -
  have e: "Enqueue ''a'' 1 demo_opts empty_queue = (Inr (new_job ''a'' 1 ''{}'' demo_opts), demo_queue)"
    by (simp add: demo_queue_def Enqueue_def demo_opts_def empty_queue_def violates_def matches_def Let_def)
  have "jb_ID (new_job ''a'' 1 ''{}'' demo_opts) = ''a''" "jb_ID demo_leased = ''a''" "live demo_leased"
    by (simp_all add: new_job_def demo_leased_def take_lease_def live_def)
  then show ?thesis
    using enqueue_idempotent [of "[]" "[OpClaim 2 (demo_claim ''w'')]" 1 empty_queue "''a''" demo_opts "new_job ''a'' 1 ''{}'' demo_opts" demo_queue
        demo_leased demo_opts "''b''" 9] e demo_claimed
    by (simp add: demo_opts_def [THEN arg_cong [where f = eo_DedupeKey]] demo_opts_def [THEN arg_cong [where f = eo_Type]]
        demo_opts_def [THEN arg_cong [where f = eo_Payload]] Get_def)
qed

text \<open>Retrying by hand brings back only a job that has finished, whose dedupe key no live job has taken in the
  meantime: the job waits with no attempts used and its last error still shown. Otherwise nothing changes, and the
  operator is told which live job holds the key.\<close>

theorem retry_outcome:
  assumes "\<forall>op\<in>set ops. op_now op \<noteq> 0" and "q = fold job_step ops empty_queue" and "Retry now i q = (err, q')"
  shows "case err of
      None \<Rightarrow> (\<exists>j j'. Get i q = Inr j \<and> (jb_State j = Dead \<or> jb_State j = Succeeded) \<and> Get i q' = Inr j' \<and>
        jb_State j' = Pending \<and> jb_Attempts j' = 0 \<and> jb_RunAfter j' = now \<and> jb_FinishedAt j' = 0 \<and> jb_LastError j' = jb_LastError j \<and>
        (\<forall>k\<in>set (qu_jobs q). live k \<and> jb_DedupeKey k = jb_DedupeKey j \<longrightarrow> jb_DedupeKey j = []))
    | Some (DedupeConflict l) \<Rightarrow> q' = q \<and> (\<exists>j k. Get i q = Inr j \<and> \<not> live j \<and> Get l q = Inr k \<and> live k \<and> jb_DedupeKey k = jb_DedupeKey j)
    | Some e \<Rightarrow> q' = q \<and> e = ErrLeaseLost i \<and> (\<forall>j. Get i q = Inr j \<longrightarrow> live j)"
proof -
  have wf: "wf_queue q" unfolding assms(2) by (rule changes_wf [OF steps_changes [OF wf_empty assms(1)] wf_empty])
  note d = wf_queueD(1) [OF wf]
  show ?thesis
  proof (cases "find (retryable i) (qu_jobs q)")
    case None
    then have "\<forall>j\<in>set (qu_jobs q). jb_ID j = i \<longrightarrow> live j"
      using wf_queueD(2) [OF wf] by (auto simp: find_None_iff retryable_def live_def row_ok_def intro: JobState.exhaust)
    then show ?thesis using None assms(3) Get_Inr by (auto simp: Retry_def)
  next
    case (Some j)
    then have j: "j \<in> set (qu_jobs q)" "retryable i j" by (auto simp: find_Some_iff)
    then have g: "Get i q = Inr j" "\<not> live j" "jb_State j = Dead \<or> jb_State j = Succeeded" "jb_ID j = i"
      using Get_row [OF d j(1)] wf_queueD(2) [OF wf j(1)] by (auto simp: retryable_def live_def row_ok_def)
    show ?thesis
    proof (cases "findLiveByDedupeKey (jb_DedupeKey j) q")
      case (Inl e)
      have "Get i (emit TypeJobEnqueued (retry_row now j) [(''retried'', PBool True)] (put_row (retry_row now j) q)) = Inr (retry_row now j)"
        using Get_put_row [OF d, of "retry_row now j"] row_id [OF j(1)] g(4) by (simp add: Get_def row_defs)
      then show ?thesis using Inl g assms(3) find_live_Inl [OF Inl] unfolding Retry_row [OF d j]
        by (auto simp: row_defs)
    next
      case (Inr k)
      then show ?thesis using g assms(3) find_live_Inr [OF Inr] Get_row [OF d, of k] unfolding Retry_row [OF d j] by auto
    qed
  qed
qed

lemma retry_outcome_witness: "Retry 9 ''a'' demo_queue = (Some (ErrLeaseLost ''a''), demo_queue)"
proof -
  obtain err q' where r: "Retry 9 ''a'' demo_queue = (err, q')" by fastforce
  moreover have "err = Some (ErrLeaseLost ''a'')" using r by (auto simp: Retry_def demo_row retryable_def new_job_def)
  ultimately show ?thesis using retry_outcome [of "[OpEnqueue ''a'' 1 demo_opts]" demo_queue 9 "''a''" err q'] demo_fold by simp
qed

end
