(* ===== verification/Converge.thy ===== *)
theory Converge
  imports Replication Manifests JobSpec
begin

text \<open>
  How a node brings the fabric together: \<^verbatim>\<open>internal/persistence/catalog/convergence.go\<close> (what is desired, held and
  pinned, and the plan that follows from it) and \<^verbatim>\<open>internal/worker/reconcilepeer.go\<close> (the cycle that turns the plan
  into jobs of the queue). The tables a query reads are lists of the columns it selects; reading them does not
  fail. The content store and the parser of digests are arguments, because they are outside the code modelled here.
\<close>

section \<open>What the fabric should hold\<close>

record PeerRow =
  pr_ID :: string
  pr_Mode :: string

record AssetRow =
  ar_BlobHash :: "string option"
  ar_Missing :: bool

record ReplicaRow =
  rr_PeerID :: string
  rr_BlobHash :: string
  rr_State :: string

datatype PlacementPin = PlacementPin (pin_BlobHash: string) (pin_PeerID: string)

record Fabric =
  fa_peers :: "PeerRow list"
  fa_assets :: "AssetRow list"
  fa_replicas :: "ReplicaRow list"
  fa_placement_pins :: "PlacementPin list"
  fa_peer_placements :: "string list"
  fa_blobs :: "string list"

definition requiredPeers :: "Fabric \<Rightarrow> string list" where
  "requiredPeers f = sort (map pr_ID (filter (\<lambda>p. pr_Mode p = ModeFull) (fa_peers f)))"

definition desired_asset :: "AssetRow \<Rightarrow> bool" where
  "desired_asset a \<longleftrightarrow> ar_BlobHash a \<noteq> None \<and> \<not> ar_Missing a"

definition canonicalBlobs :: "Fabric \<Rightarrow> string list" where
  "canonicalBlobs f = sort (remdups (map (\<lambda>a. the (ar_BlobHash a)) (filter desired_asset (fa_assets f))))"

definition IsBlobDesired :: "Fabric \<Rightarrow> string \<Rightarrow> bool" where
  "IsBlobDesired f blobHash \<longleftrightarrow> list_ex (\<lambda>a. ar_BlobHash a = Some blobHash \<and> \<not> ar_Missing a) (fa_assets f)"

definition hold_replica :: "ReplicaRow \<Rightarrow> Holdings \<Rightarrow> Holdings" where
  "hold_replica r held =
     fmupd (rr_PeerID r) (finsert (rr_BlobHash r) (case fmlookup held (rr_PeerID r) of None \<Rightarrow> {||} | Some hs \<Rightarrow> hs)) held"

definition presentReplicas :: "Fabric \<Rightarrow> Holdings" where
  "presentReplicas f = fold hold_replica (filter (\<lambda>r. rr_State r = ''present'') (fa_replicas f)) fmempty"

definition AllPlacementPins :: "Fabric \<Rightarrow> PlacementPin list" where
  "AllPlacementPins f = sort_key (\<lambda>p. (pin_BlobHash p, pin_PeerID p)) (fa_placement_pins f)"

definition takenPlacementHashes :: "Fabric \<Rightarrow> string list" where
  "takenPlacementHashes f = sort (remdups (fa_peer_placements f))"

definition pinnedBlobsKnown :: "Fabric \<Rightarrow> string set" where
  "pinnedBlobsKnown f = (set (map pin_BlobHash (fa_placement_pins f)) \<union> set (fa_peer_placements f)) \<inter> set (fa_blobs f)"

section \<open>Pins\<close>

text \<open>What the loop over the pins reads: this node, the full peers of the cycle, the holdings, the placements taken
  from siblings, the blobs with a row, the siblings, and the local store, if there is one, with the parser of digests.\<close>

record PinEnv =
  pv_self :: string
  pv_full :: "string fset"
  pv_held :: Holdings
  pv_taken :: "string list"
  pv_known :: "string set"
  pv_siblings :: "string list"
  pv_store :: "(string \<Rightarrow> bool option) option"
  pv_parse :: "string \<Rightarrow> bool"

record PinState =
  pn_already :: "string fset"
  pn_out :: "Gap list"
  pn_missing :: int
  pn_offered :: int
  pn_seen :: "string fset"
  pn_offeredBlobs :: "string list"

datatype plan_failure = StoreFailed string

definition lackedBy :: "Holdings \<Rightarrow> string fset \<Rightarrow> string list \<Rightarrow> string \<Rightarrow> bool" where
  "lackedBy held full peers blob = list_ex (\<lambda>peer. peer |\<in>| full \<and> \<not> holds_blob held peer blob) peers"

definition heldElsewhere :: "Holdings \<Rightarrow> string \<Rightarrow> string \<Rightarrow> bool" where
  "heldElsewhere held self blob \<longleftrightarrow> fBex (fmdom held) (\<lambda>peer. peer \<noteq> self \<and> holds_blob held peer blob)"

definition gap_slot :: "string \<Rightarrow> string \<Rightarrow> string" where
  "gap_slot blobHash peerID = blobHash @ CHR 0x00 # peerID"

definition offer_blob :: "string \<Rightarrow> PinState \<Rightarrow> PinState" where
  "offer_blob h st = st\<lparr>pn_seen := finsert h (pn_seen st), pn_offeredBlobs := pn_offeredBlobs st @ [h]\<rparr>"

definition other_pin :: "PinEnv \<Rightarrow> PlacementPin \<Rightarrow> PinState \<Rightarrow> PinState" where
  "other_pin env p st =
     (if holds_blob (pv_held env) (pv_self env) (pin_BlobHash p)
      then let st = st\<lparr>pn_offered := pn_offered st + 1\<rparr>
           in if pin_BlobHash p |\<notin>| pn_seen st \<and> pin_PeerID p |\<in>| pv_full env \<and> \<not> holds_blob (pv_held env) (pin_PeerID p) (pin_BlobHash p)
              then offer_blob (pin_BlobHash p) st else st
      else st)"

definition offer_upload :: "PinEnv \<Rightarrow> PlacementPin \<Rightarrow> PinState \<Rightarrow> PinState" where
  "offer_upload env p st =
     (if holds_blob (pv_held env) (pv_self env) (pin_BlobHash p) \<and> length (pv_siblings env) > 0 \<and>
         pin_BlobHash p \<notin> set (pv_taken env) \<and> lackedBy (pv_held env) (pv_full env) (pv_siblings env) (pin_BlobHash p) \<and>
         pin_BlobHash p |\<notin>| pn_seen st
      then offer_blob (pin_BlobHash p) st else st)"

definition plan_pin :: "PlacementPin \<Rightarrow> PinState \<Rightarrow> PinState" where
  "plan_pin p st =
     (let key = gap_slot (pin_BlobHash p) (pin_PeerID p)
      in if key |\<in>| pn_already st then st
         else st\<lparr>pn_already := finsert key (pn_already st), pn_out := pn_out st @ [Gap (pin_BlobHash p) (pin_PeerID p)]\<rparr>)"

definition miss_pin :: "PinState \<Rightarrow> PinState" where
  "miss_pin st = st\<lparr>pn_missing := pn_missing st + 1\<rparr>"

definition self_pin :: "PinEnv \<Rightarrow> PlacementPin \<Rightarrow> PinState \<Rightarrow> plan_failure + PinState" where
  "self_pin env p st =
     (if pin_PeerID p |\<notin>| pv_full env then Inr st
      else if holds_blob (pv_held env) (pin_PeerID p) (pin_BlobHash p) then Inr st
      else if pin_BlobHash p \<in> set (pv_taken env) \<and> \<not> heldElsewhere (pv_held env) (pv_self env) (pin_BlobHash p) then Inr (miss_pin st)
      else if pin_BlobHash p \<in> pv_known env then Inr (plan_pin p st)
      else case pv_store env of
             None \<Rightarrow> Inr (plan_pin p st)
           | Some has \<Rightarrow>
               (if \<not> pv_parse env (pin_BlobHash p) then Inr (miss_pin st)
                else case has (pin_BlobHash p) of
                       None \<Rightarrow> Inl (StoreFailed (pin_BlobHash p))
                     | Some h \<Rightarrow> (if \<not> h then Inr (miss_pin st) else Inr (plan_pin p st))))"

fun pin_loop :: "PinEnv \<Rightarrow> PlacementPin list \<Rightarrow> PinState \<Rightarrow> plan_failure + PinState" where
  "pin_loop env [] st = Inr st"
| "pin_loop env (p # ps) st =
     (if pin_PeerID p \<noteq> pv_self env then pin_loop env ps (other_pin env p st)
      else case self_pin env p (offer_upload env p st) of Inl e \<Rightarrow> Inl e | Inr st' \<Rightarrow> pin_loop env ps st')"

definition no_pins :: "Gap list \<Rightarrow> PinState" where
  "no_pins have_gaps = \<lparr>pn_already = fset_of_list (map (\<lambda>g. gap_slot (BlobHash g) (PeerID g)) have_gaps), pn_out = [],
     pn_missing = 0, pn_offered = 0, pn_seen = {||}, pn_offeredBlobs = []\<rparr>"

text \<open>What the catalog is configured with.\<close>

record CatalogConfig =
  ca_self :: string
  ca_siblings :: "string list"
  ca_store :: "(string \<Rightarrow> bool option) option"
  ca_parse :: "string \<Rightarrow> bool"

definition pinGaps :: "CatalogConfig \<Rightarrow> Fabric \<Rightarrow> string list \<Rightarrow> Holdings \<Rightarrow> Gap list \<Rightarrow> plan_failure + PinState" where
  "pinGaps c f required held have_gaps =
     (let taken = takenPlacementHashes f;
          pins = AllPlacementPins f @ map (\<lambda>h. PlacementPin h (ca_self c)) taken
      in if length pins = 0 then Inr (no_pins [])
         else pin_loop \<lparr>pv_self = ca_self c, pv_full = fset_of_list required, pv_held = held, pv_taken = taken,
                pv_known = pinnedBlobsKnown f, pv_siblings = ca_siblings c, pv_store = ca_store c, pv_parse = ca_parse c\<rparr>
                pins (no_pins have_gaps))"

section \<open>The plan\<close>

record PeerConvergence =
  pc_Scope :: string
  pc_Peers :: "string list"
  pc_Desired :: int
  pc_Gaps :: "Gap list"
  pc_Missing :: int
  pc_Offered :: int
  pc_OfferedBlobs :: "string list"

definition PlanPeerConvergence :: "CatalogConfig \<Rightarrow> Fabric \<Rightarrow> string \<Rightarrow> plan_failure + PeerConvergence" where
  "PlanPeerConvergence c f scope =
     (let required = (if scope \<noteq> [] then filter (\<lambda>i. i = scope) (requiredPeers f) else requiredPeers f);
          plan = \<lparr>pc_Scope = scope, pc_Peers = required, pc_Desired = 0, pc_Gaps = [], pc_Missing = 0, pc_Offered = 0, pc_OfferedBlobs = []\<rparr>
      in if length required = 0 then Inr plan
         else let canonical = canonicalBlobs f;
                  held = presentReplicas f;
                  peers = map (\<lambda>i. \<lparr>pm_ID = i, pm_Mode = ModeFull\<rparr>) required;
                  gaps = Diff peers canonical held
              in case pinGaps c f required held gaps of
                   Inl e \<Rightarrow> Inl e
                 | Inr st \<Rightarrow>
                     Inr (plan\<lparr>pc_Desired := int (length canonical), pc_Missing := pn_missing st, pc_Offered := pn_offered st,
                       pc_OfferedBlobs := pn_offeredBlobs st,
                       pc_Gaps := (if length (pn_out st) > 0 then sort_key gap_key (gaps @ pn_out st) else gaps)\<rparr>))"

section \<open>What the plan contains\<close>

definition slot :: "Gap \<Rightarrow> string" where
  "slot g = gap_slot (BlobHash g) (PeerID g)"

lemma slot_inj: "CHR 0x00 \<notin> set (BlobHash a) \<Longrightarrow> CHR 0x00 \<notin> set (BlobHash b) \<Longrightarrow> slot a = slot b \<Longrightarrow> a = b"
proof (rule Gap.expand)
  assume n: "CHR 0x00 \<notin> set (BlobHash a)" "CHR 0x00 \<notin> set (BlobHash b)" and eq: "slot a = slot b"
  have "takeWhile (\<lambda>c. c \<noteq> CHR 0x00) (gap_slot h p) = h" if "CHR 0x00 \<notin> set h" for h p
    using that by (simp add: gap_slot_def takeWhile_append takeWhile_eq_all_conv) 
  with n eq have h: "BlobHash a = BlobHash b" unfolding slot_def by metis
  with eq show "BlobHash a = BlobHash b \<and> PeerID a = PeerID b" by (simp add: slot_def gap_slot_def)
qed

text \<open>The pins that become gaps.\<close>

definition wanted :: "PinEnv \<Rightarrow> PlacementPin \<Rightarrow> bool" where
  "wanted env p \<longleftrightarrow> pin_PeerID p = pv_self env \<and> pv_self env |\<in>| pv_full env \<and> \<not> holds_blob (pv_held env) (pv_self env) (pin_BlobHash p) \<and>
     (pin_BlobHash p \<in> set (pv_taken env) \<longrightarrow> heldElsewhere (pv_held env) (pv_self env) (pin_BlobHash p)) \<and>
     (pin_BlobHash p \<in> pv_known env \<or> pv_store env = None \<or>
      pv_parse env (pin_BlobHash p) \<and> (\<exists>has. pv_store env = Some has \<and> has (pin_BlobHash p) = Some True))"

lemma self_pin_cases:
  assumes "self_pin env p st = Inr st'" and "pin_PeerID p = pv_self env"
  shows "st' = (if wanted env p then plan_pin p st else st) \<or> \<not> wanted env p \<and> st' = miss_pin st"
  using assms by (auto simp: self_pin_def wanted_def split: if_splits option.splits)

lemma other_pin_out [simp]: "pn_out (other_pin env p st) = pn_out st" "pn_already (other_pin env p st) = pn_already st"
  by (simp_all add: other_pin_def offer_blob_def Let_def)

lemma offer_upload_out [simp]: "pn_out (offer_upload env p st) = pn_out st" "pn_already (offer_upload env p st) = pn_already st"
  by (simp_all add: offer_upload_def offer_blob_def)

lemma self_pin_out:
  assumes "self_pin env p (offer_upload env p st) = Inr st'" and "pin_PeerID p = pv_self env"
  shows "pn_out st' = pn_out st @ (if wanted env p \<and> gap_slot (pin_BlobHash p) (pv_self env) |\<notin>| pn_already st then [Gap (pin_BlobHash p) (pv_self env)] else [])"
    and "pn_already st' = (if wanted env p then finsert (gap_slot (pin_BlobHash p) (pv_self env)) (pn_already st) else pn_already st)"
  using self_pin_cases [OF assms] assms(2) by (auto simp: plan_pin_def miss_pin_def Let_def split: if_splits)

lemma pin_loop_out:
  assumes "pin_loop env ps st = Inr st'"
  shows "\<exists>new. pn_out st' = pn_out st @ new \<and> distinct (map slot new) \<and> (\<forall>g\<in>set new. slot g |\<notin>| pn_already st) \<and>
    set new \<subseteq> {Gap (pin_BlobHash p) (pv_self env) | p. p \<in> set ps \<and> wanted env p} \<and>
    (\<forall>p\<in>set ps. wanted env p \<longrightarrow> gap_slot (pin_BlobHash p) (pv_self env) |\<in>| pn_already st |\<union>| fset_of_list (map slot new))"
  using assms
proof (induction ps arbitrary: st)
  case (Cons p ps)
  show ?case
  proof (cases "pin_PeerID p = pv_self env")
    case False
    then have "pin_loop env ps (other_pin env p st) = Inr st'" using Cons.prems by simp
    from Cons.IH [OF this] False show ?thesis by (fastforce simp: wanted_def)
  next
    case True
    then obtain st1 where st1: "self_pin env p (offer_upload env p st) = Inr st1" "pin_loop env ps st1 = Inr st'"
      using Cons.prems by (auto split: sum.splits)
    note o = self_pin_out [OF st1(1) True]
    obtain new where new: "pn_out st' = pn_out st1 @ new" "distinct (map slot new)" "\<forall>g\<in>set new. slot g |\<notin>| pn_already st1"
        "set new \<subseteq> {Gap (pin_BlobHash p) (pv_self env) | p. p \<in> set ps \<and> wanted env p}"
        "\<forall>p\<in>set ps. wanted env p \<longrightarrow> gap_slot (pin_BlobHash p) (pv_self env) |\<in>| pn_already st1 |\<union>| fset_of_list (map slot new)"
      using Cons.IH [OF st1(2)] by blast
    define here where "here = (if wanted env p \<and> gap_slot (pin_BlobHash p) (pv_self env) |\<notin>| pn_already st then [Gap (pin_BlobHash p) (pv_self env)] else [])"
    have al: "pn_already st1 = pn_already st |\<union>| fset_of_list (map slot here)"
      using o(2) by (auto simp: here_def slot_def)
    show ?thesis
    proof (intro exI [of _ "here @ new"] conjI ballI impI)
      show "pn_out st' = pn_out st @ here @ new" using new(1) o(1) by (simp add: here_def)
      show "distinct (map slot (here @ new))" using new(2,3) al by (auto simp: here_def fset_of_list_elem)
      show "set (here @ new) \<subseteq> {Gap (pin_BlobHash r) (pv_self env) | r. r \<in> set (p # ps) \<and> wanted env r}"
        using new(4) by (auto simp: here_def)
    next
      fix g assume "g \<in> set (here @ new)"
      then show "slot g |\<notin>| pn_already st" using new(3) al by (auto simp: here_def slot_def split: if_splits)
    next
      fix r assume "r \<in> set (p # ps)" "wanted env r"
      then show "gap_slot (pin_BlobHash r) (pv_self env) |\<in>| pn_already st |\<union>| fset_of_list (map slot (here @ new))"
        using new(5) al by (auto simp: here_def slot_def)
    qed
  qed
qed simp

definition offered_ok :: "PinEnv \<Rightarrow> PinState \<Rightarrow> bool" where
  "offered_ok env st \<longleftrightarrow> pn_seen st = fset_of_list (pn_offeredBlobs st) \<and> distinct (pn_offeredBlobs st) \<and>
    (\<forall>h\<in>set (pn_offeredBlobs st). holds_blob (pv_held env) (pv_self env) h \<and> (\<exists>q. q |\<in>| pv_full env \<and> \<not> holds_blob (pv_held env) q h))"

lemma offered_blob_ok:
  "offered_ok env st \<Longrightarrow> h |\<notin>| pn_seen st \<Longrightarrow> holds_blob (pv_held env) (pv_self env) h \<Longrightarrow> q |\<in>| pv_full env \<Longrightarrow> \<not> holds_blob (pv_held env) q h \<Longrightarrow>
    offered_ok env (offer_blob h st)"
  by (auto simp: offered_ok_def offer_blob_def fset_of_list_elem)

lemma offered_same: "pn_seen st' = pn_seen st \<Longrightarrow> pn_offeredBlobs st' = pn_offeredBlobs st \<Longrightarrow> offered_ok env st' = offered_ok env st"
  by (simp add: offered_ok_def)

lemma other_pin_ok: "offered_ok env st \<Longrightarrow> offered_ok env (other_pin env p st)"
  using offered_blob_ok [of env "st\<lparr>pn_offered := pn_offered st + 1\<rparr>" "pin_BlobHash p" "pin_PeerID p"]
    offered_same [of "st\<lparr>pn_offered := pn_offered st + 1\<rparr>" st env]
  by (simp add: other_pin_def Let_def)

lemma offer_upload_ok: "offered_ok env st \<Longrightarrow> offered_ok env (offer_upload env p st)"
  using offered_blob_ok [of env st "pin_BlobHash p"] by (auto simp: offer_upload_def lackedBy_def list_ex_iff)

lemma self_pin_ok: "self_pin env p st = Inr st' \<Longrightarrow> offered_ok env st \<Longrightarrow> offered_ok env st'"
proof -
  assume "self_pin env p st = Inr st'"
  then have "st' = st \<or> st' = miss_pin st \<or> st' = plan_pin p st"
    by (auto simp: self_pin_def split: if_splits option.splits)
  moreover have "pn_seen (plan_pin p st) = pn_seen st" "pn_offeredBlobs (plan_pin p st) = pn_offeredBlobs st"
    "pn_seen (miss_pin st) = pn_seen st" "pn_offeredBlobs (miss_pin st) = pn_offeredBlobs st"
    by (simp_all add: miss_pin_def plan_pin_def Let_def)
  ultimately have "pn_seen st' = pn_seen st \<and> pn_offeredBlobs st' = pn_offeredBlobs st" by blast
  then show "offered_ok env st \<Longrightarrow> offered_ok env st'" using offered_same [of st' st env] by blast
qed

lemma pin_loop_offered: "offered_ok env st \<Longrightarrow> pin_loop env ps st = Inr st' \<Longrightarrow> offered_ok env st'"
proof (induction ps arbitrary: st)
  case (Cons p ps)
  show ?case
  proof (cases "pin_PeerID p = pv_self env")
    case True
    then obtain st1 where "self_pin env p (offer_upload env p st) = Inr st1" "pin_loop env ps st1 = Inr st'"
      using Cons.prems by (auto split: sum.splits)
    then show ?thesis using Cons.IH [of st1] self_pin_ok offer_upload_ok [OF Cons.prems(1)] by blast
  next
    case False
    then show ?thesis using Cons.IH [OF other_pin_ok [OF Cons.prems(1)]] Cons.prems(2) by simp
  qed
qed simp

text \<open>The environment \<open>pinGaps\<close> builds.\<close>

definition pin_env :: "CatalogConfig \<Rightarrow> Fabric \<Rightarrow> string list \<Rightarrow> PinEnv" where
  "pin_env c f required = \<lparr>pv_self = ca_self c, pv_full = fset_of_list required, pv_held = presentReplicas f, pv_taken = takenPlacementHashes f,
     pv_known = pinnedBlobsKnown f, pv_siblings = ca_siblings c, pv_store = ca_store c, pv_parse = ca_parse c\<rparr>"

definition all_pins :: "CatalogConfig \<Rightarrow> Fabric \<Rightarrow> PlacementPin list" where
  "all_pins c f = AllPlacementPins f @ map (\<lambda>h. PlacementPin h (ca_self c)) (takenPlacementHashes f)"

lemma pinGaps_eq: "pinGaps c f required (presentReplicas f) gaps =
    (if all_pins c f = [] then Inr (no_pins []) else pin_loop (pin_env c f required) (all_pins c f) (no_pins gaps))"
  by (simp add: pinGaps_def all_pins_def pin_env_def Let_def)

lemma pinGaps_out:
  assumes "pinGaps c f required (presentReplicas f) gaps = Inr st"
  shows "distinct (map slot (pn_out st)) \<and> slot ` set (pn_out st) \<inter> slot ` set gaps = {} \<and>
    set (pn_out st) \<subseteq> {Gap (pin_BlobHash p) (ca_self c) | p. p \<in> set (all_pins c f) \<and> wanted (pin_env c f required) p} \<and>
    (\<forall>p\<in>set (all_pins c f). wanted (pin_env c f required) p \<longrightarrow> gap_slot (pin_BlobHash p) (ca_self c) \<in> slot ` set (gaps @ pn_out st)) \<and>
    distinct (pn_offeredBlobs st) \<and>
    (\<forall>h\<in>set (pn_offeredBlobs st). holds_blob (presentReplicas f) (ca_self c) h \<and> (\<exists>q\<in>set required. \<not> holds_blob (presentReplicas f) q h))"
proof (cases "all_pins c f = []")
  case True
  then show ?thesis using assms by (auto simp: pinGaps_eq no_pins_def)
next
  case False
  let ?e = "pin_env c f required"
  have env: "pv_self ?e = ca_self c" "pv_held ?e = presentReplicas f" "pv_full ?e = fset_of_list required" by (simp_all add: pin_env_def)
  have l: "pin_loop ?e (all_pins c f) (no_pins gaps) = Inr st" using assms False by (simp add: pinGaps_eq)
  have al: "pn_already (no_pins gaps) = fset_of_list (map slot gaps)" "pn_out (no_pins gaps) = []"
    by (simp_all add: no_pins_def slot_def [abs_def])
  from pin_loop_out [OF l] obtain new where new: "pn_out st = new" "distinct (map slot new)" "\<forall>g\<in>set new. slot g |\<notin>| fset_of_list (map slot gaps)"
      "set new \<subseteq> {Gap (pin_BlobHash p) (ca_self c) | p. p \<in> set (all_pins c f) \<and> wanted ?e p}"
      "\<forall>p\<in>set (all_pins c f). wanted ?e p \<longrightarrow> gap_slot (pin_BlobHash p) (ca_self c) |\<in>| fset_of_list (map slot gaps) |\<union>| fset_of_list (map slot new)"
    unfolding al env by auto
  have "distinct (pn_offeredBlobs st) \<and> (\<forall>h\<in>set (pn_offeredBlobs st). holds_blob (presentReplicas f) (ca_self c) h \<and>
      (\<exists>q. q |\<in>| fset_of_list required \<and> \<not> holds_blob (presentReplicas f) q h))"
    using pin_loop_offered [OF _ l] unfolding offered_ok_def env by (simp add: no_pins_def)
  moreover have "slot ` set (pn_out st) \<inter> slot ` set gaps = {}" using new(1,3) by (auto simp: fset_of_list_elem)
  moreover have "\<forall>p\<in>set (all_pins c f). wanted ?e p \<longrightarrow> gap_slot (pin_BlobHash p) (ca_self c) \<in> slot ` set (gaps @ pn_out st)"
    using new(1,5) by (auto simp: fset_of_list_elem image_Un)
  ultimately show ?thesis using new(1,2,4) by (auto simp: fset_of_list_elem)
qed

text \<open>The gaps the holdings leave, for the peers of the cycle.\<close>

definition cycle_peers :: "Fabric \<Rightarrow> string \<Rightarrow> string list" where
  "cycle_peers f scope = (if scope \<noteq> [] then filter (\<lambda>i. i = scope) (requiredPeers f) else requiredPeers f)"

definition diff_gaps :: "Fabric \<Rightarrow> string list \<Rightarrow> Gap list" where
  "diff_gaps f required = Diff (map (\<lambda>i. \<lparr>pm_ID = i, pm_Mode = ModeFull\<rparr>) required) (canonicalBlobs f) (presentReplicas f)"

lemma set_diff_gaps:
  "set (diff_gaps f required) = {Gap h p | h p. p \<in> set required \<and> h \<in> set (canonicalBlobs f) \<and> \<not> holds_blob (presentReplicas f) p h}"
  unfolding diff_gaps_def set_Diff by (force simp: image_iff)

lemma distinct_diff_gaps: "distinct required \<Longrightarrow> distinct (diff_gaps f required)"
  unfolding diff_gaps_def by (rule distinct_Diff) (simp_all add: comp_def canonicalBlobs_def)

lemma desired_canonical: "IsBlobDesired f h \<longleftrightarrow> h \<in> set (canonicalBlobs f)"
  by (force simp: IsBlobDesired_def canonicalBlobs_def desired_asset_def list_ex_iff image_iff)

lemma inj_gap_key: "inj_on gap_key A"
  by (auto simp: inj_on_def gap_key_def intro: Gap.expand)

lemma distinct_keys:
  assumes "distinct gaps" and "\<forall>g\<in>set gaps. CHR '':'' \<notin> set (PeerID g)"
  shows "distinct (map DedupeKey gaps)"
proof -
  have "inj_on DedupeKey (set gaps)"
  proof (rule inj_onI)
    fix a b
    assume "a \<in> set gaps" "b \<in> set gaps" "DedupeKey a = DedupeKey b"
    then show "a = b"
      using last_colon [of "BlobHash a" "CHR '':''" "PeerID a" "BlobHash b" "PeerID b"] assms(2)
      by (auto simp: DedupeKey_def intro: Gap.expand)
  qed
  with assms(1) show ?thesis by (simp add: distinct_map)
qed

lemma plan_cases:
  assumes "PlanPeerConvergence c f scope = Inr plan"
  shows "pc_Peers plan = cycle_peers f scope" and
    "\<exists>st. pinGaps c f (cycle_peers f scope) (presentReplicas f) (diff_gaps f (cycle_peers f scope)) = Inr st \<and>
      pc_Gaps plan = sort_key gap_key (diff_gaps f (cycle_peers f scope) @ pn_out st) \<and> pc_OfferedBlobs plan = pn_offeredBlobs st \<or>
     cycle_peers f scope = [] \<and> pc_Gaps plan = [] \<and> pc_OfferedBlobs plan = []"
proof -
  have sorted: "sort_key gap_key (diff_gaps f r) = diff_gaps f r" for r
    by (simp add: diff_gaps_def Diff_def sort_key_id_if_sorted)
  note unf = assms [unfolded PlanPeerConvergence_def cycle_peers_def [symmetric] Let_def diff_gaps_def [symmetric]]
  show "pc_Peers plan = cycle_peers f scope" using unf by (auto split: if_splits sum.splits)
  show "\<exists>st. pinGaps c f (cycle_peers f scope) (presentReplicas f) (diff_gaps f (cycle_peers f scope)) = Inr st \<and>
      pc_Gaps plan = sort_key gap_key (diff_gaps f (cycle_peers f scope) @ pn_out st) \<and> pc_OfferedBlobs plan = pn_offeredBlobs st \<or>
     cycle_peers f scope = [] \<and> pc_Gaps plan = [] \<and> pc_OfferedBlobs plan = []"
    using unf sorted by (auto split: if_splits sum.splits)
qed

text \<open>What the pins add, in a cycle over \<open>required\<close>.\<close>

lemma pins_planned:
  assumes "pinGaps c f required (presentReplicas f) (diff_gaps f required) = Inr st"
    and nul: "\<forall>h\<in>set (canonicalBlobs f) \<union> pin_BlobHash ` set (all_pins c f). CHR 0x00 \<notin> set h"
  shows "set (diff_gaps f required) \<union> set (pn_out st) =
    set (diff_gaps f required) \<union> {Gap (pin_BlobHash p) (ca_self c) | p. p \<in> set (all_pins c f) \<and> wanted (pin_env c f required) p}"
proof -
  note o = pinGaps_out [OF assms(1)]
  have n: "CHR 0x00 \<notin> set (BlobHash g)" if "g \<in> set (diff_gaps f required) \<union> set (pn_out st)" for g
  proof -
    have "BlobHash g \<in> set (canonicalBlobs f) \<union> pin_BlobHash ` set (all_pins c f)"
      using that o unfolding set_diff_gaps by auto
    with nul show ?thesis by blast
  qed
  have "Gap (pin_BlobHash p) (ca_self c) \<in> set (diff_gaps f required) \<union> set (pn_out st)"
    if p: "p \<in> set (all_pins c f)" "wanted (pin_env c f required) p" for p
  proof -
    have "gap_slot (pin_BlobHash p) (ca_self c) \<in> slot ` set (diff_gaps f required @ pn_out st)" using o p by blast
    then obtain g where "g \<in> set (diff_gaps f required @ pn_out st)" "gap_slot (pin_BlobHash p) (ca_self c) = slot g" by blast
    then have g: "g \<in> set (diff_gaps f required) \<union> set (pn_out st)" "slot g = slot (Gap (pin_BlobHash p) (ca_self c))" by (simp_all add: slot_def)
    have "CHR 0x00 \<notin> set (pin_BlobHash p)" using nul p(1) by auto
    then show ?thesis using slot_inj [of g "Gap (pin_BlobHash p) (ca_self c)"] n [OF g(1)] g by simp
  qed
  then show ?thesis using o by blast
qed

lemma plan_facts:
  assumes "distinct (map pr_ID (fa_peers f))" and "\<forall>p\<in>set (fa_peers f). CHR '':'' \<notin> set (pr_ID p)"
    and "\<forall>h\<in>set (canonicalBlobs f) \<union> pin_BlobHash ` set (all_pins c f). CHR 0x00 \<notin> set h"
    and "PlanPeerConvergence c f scope = Inr plan"
  shows "set (pc_Peers plan) = {i \<in> set (requiredPeers f). scope \<noteq> [] \<longrightarrow> i = scope} \<and>
    set (pc_Gaps plan) =
      {Gap h p | h p. p \<in> set (pc_Peers plan) \<and> h \<in> set (canonicalBlobs f) \<and> \<not> holds_blob (presentReplicas f) p h} \<union>
      {Gap (pin_BlobHash p) (ca_self c) | p. p \<in> set (all_pins c f) \<and> wanted (pin_env c f (pc_Peers plan)) p} \<and>
    sorted_wrt (\<lambda>a b. gap_key a < gap_key b) (pc_Gaps plan) \<and> distinct (map DedupeKey (pc_Gaps plan)) \<and>
    (\<forall>h. IsBlobDesired f h \<longleftrightarrow> h \<in> set (canonicalBlobs f)) \<and>
    distinct (pc_OfferedBlobs plan) \<and>
    (\<forall>h\<in>set (pc_OfferedBlobs plan). holds_blob (presentReplicas f) (ca_self c) h \<and> (\<exists>q\<in>set (pc_Peers plan). \<not> holds_blob (presentReplicas f) q h))"
proof -
  let ?r = "cycle_peers f scope"
  have dr: "distinct ?r" "set ?r = {i \<in> set (requiredPeers f). scope \<noteq> [] \<longrightarrow> i = scope}"
    using distinct_map_filter [OF assms(1)] by (auto simp: cycle_peers_def requiredPeers_def)
  have colon: "\<forall>p\<in>set ?r. CHR '':'' \<notin> set p" using dr(2) assms(2) by (auto simp: requiredPeers_def)
  note peers = plan_cases(1) [OF assms(4)]
  consider st where "pinGaps c f ?r (presentReplicas f) (diff_gaps f ?r) = Inr st"
      "pc_Gaps plan = sort_key gap_key (diff_gaps f ?r @ pn_out st)" "pc_OfferedBlobs plan = pn_offeredBlobs st"
    | "?r = []" "pc_Gaps plan = []" "pc_OfferedBlobs plan = []" using plan_cases(2) [OF assms(4)] by blast
  then show ?thesis
  proof cases
    case (1 st)
    note o = pinGaps_out [OF 1(1)]
    have set: "set (pc_Gaps plan) = set (diff_gaps f ?r) \<union> {Gap (pin_BlobHash p) (ca_self c) | p. p \<in> set (all_pins c f) \<and> wanted (pin_env c f ?r) p}"
      using pins_planned [OF 1(1) assms(3)] by (simp add: 1(2))
    have "distinct (diff_gaps f ?r @ pn_out st)" using distinct_diff_gaps [OF dr(1)] o by (auto simp: distinct_map)
    then have d: "distinct (pc_Gaps plan)" "sorted_wrt (\<lambda>a b. gap_key a < gap_key b) (pc_Gaps plan)"
      using sort_key_strict [of "diff_gaps f ?r @ pn_out st" gap_key] inj_gap_key unfolding 1(2) by simp_all
    have "distinct (map DedupeKey (pc_Gaps plan))"
      by (rule distinct_keys [OF d(1)])
        (use colon in \<open>auto simp: set set_diff_gaps wanted_def pin_env_def fset_of_list_elem\<close>)
    then show ?thesis using set d(2) dr(2) o by (simp add: peers set_diff_gaps desired_canonical 1(3))
  next
    case 2
    then show ?thesis using dr(2) by (simp add: peers desired_canonical wanted_def pin_env_def)
  qed
qed

text \<open>The plan asks for exactly what is missing: every canonical blob a full peer of the cycle does not hold, and every
  pin or taken placement of this node that it may act on, each once and in order, with a different job key each. A
  blob a client may have fetched on request is one of the canonical blobs. What the node
  is to chunk for others it holds itself and some full peer lacks.\<close>

theorem plan_convergence:
  assumes "distinct (map pr_ID (fa_peers f))" and "\<forall>p\<in>set (fa_peers f). CHR '':'' \<notin> set (pr_ID p)"
    and "\<forall>h\<in>set (canonicalBlobs f) \<union> pin_BlobHash ` set (all_pins c f). CHR 0x00 \<notin> set h"
    and "PlanPeerConvergence c f scope = Inr plan"
  shows "set (pc_Peers plan) = {i \<in> set (requiredPeers f). scope \<noteq> [] \<longrightarrow> i = scope} \<and>
    set (pc_Gaps plan) =
      {Gap h p | h p. p \<in> set (pc_Peers plan) \<and> h \<in> set (canonicalBlobs f) \<and> \<not> holds_blob (presentReplicas f) p h} \<union>
      {Gap (pin_BlobHash p) (ca_self c) | p. p \<in> set (all_pins c f) \<and> wanted (pin_env c f (pc_Peers plan)) p} \<and>
    sorted_wrt (\<lambda>a b. gap_key a < gap_key b) (pc_Gaps plan) \<and> distinct (map DedupeKey (pc_Gaps plan)) \<and>
    (\<forall>h. IsBlobDesired f h \<longleftrightarrow> h \<in> set (canonicalBlobs f)) \<and>
    distinct (pc_OfferedBlobs plan) \<and>
    (\<forall>h\<in>set (pc_OfferedBlobs plan). holds_blob (presentReplicas f) (ca_self c) h \<and> (\<exists>q\<in>set (pc_Peers plan). \<not> holds_blob (presentReplicas f) q h))"
  by (rule plan_facts [OF assms])

definition demo_fabric :: Fabric where
  "demo_fabric = \<lparr>fa_peers = [\<lparr>pr_ID = ''me'', pr_Mode = ''full''\<rparr>, \<lparr>pr_ID = ''you'', pr_Mode = ''full''\<rparr>],
     fa_assets = [\<lparr>ar_BlobHash = Some ''h1'', ar_Missing = False\<rparr>, \<lparr>ar_BlobHash = None, ar_Missing = False\<rparr>],
     fa_replicas = [\<lparr>rr_PeerID = ''me'', rr_BlobHash = ''h1'', rr_State = ''present''\<rparr>],
     fa_placement_pins = [PlacementPin ''h2'' ''me''], fa_peer_placements = [], fa_blobs = [''h1'', ''h2'']\<rparr>"

definition demo_catalog :: CatalogConfig where
  "demo_catalog = \<lparr>ca_self = ''me'', ca_siblings = [], ca_store = None, ca_parse = (\<lambda>_. True)\<rparr>"

definition demo_plan :: PeerConvergence where
  "demo_plan = \<lparr>pc_Scope = [], pc_Peers = [''me'', ''you''], pc_Desired = 1, pc_Gaps = [Gap ''h1'' ''you'', Gap ''h2'' ''me''],
     pc_Missing = 0, pc_Offered = 0, pc_OfferedBlobs = []\<rparr>"

lemmas demo_fabric_simps = demo_fabric_def demo_catalog_def requiredPeers_def canonicalBlobs_def desired_asset_def presentReplicas_def hold_replica_def
  AllPlacementPins_def takenPlacementHashes_def pinnedBlobsKnown_def ModeFull_def holds_blob_def

lemma demo_planned: "PlanPeerConvergence demo_catalog demo_fabric [] = Inr demo_plan"
  by (simp add: demo_fabric_simps PlanPeerConvergence_def demo_plan_def Diff_def peer_gaps_def DesiredBlobSet_def gap_key_def pinGaps_def
      self_pin_def offer_upload_def plan_pin_def gap_slot_def no_pins_def Let_def)

lemma plan_convergence_witness: "PlanPeerConvergence demo_catalog demo_fabric [] = Inr demo_plan \<and> distinct (map DedupeKey (pc_Gaps demo_plan))"
  using plan_convergence [OF _ _ _ demo_planned] demo_planned
  by (simp add: demo_fabric_simps all_pins_def)

end
