(* ===== verification/PeerCycle.thy ===== *)
theory PeerCycle
  imports Converge
begin

text \<open>
  \<^verbatim>\<open>internal/worker/reconcilepeer.go\<close>: one cycle of peer convergence on the job queue. The payloads are
  encoded by arguments (\<^verbatim>\<open>encoding/json\<close> on structs of strings), the ids of new jobs and the readings of the clock
  are numbered by the calls of \<open>Enqueue\<close>, and the tests of \<^verbatim>\<open>ctx.Err()\<close> are numbered in order: \<open>cancelled n\<close> is the
  answer of the n-th. Logging is left out.
\<close>

definition replicateBatch :: int where "replicateBatch = 250"
definition ChunkBlobJobType :: string where "ChunkBlobJobType = ''chunk_blob''"

record PeerReconcileSummary =
  rs_Scope :: string
  rs_Peers :: int
  rs_Desired :: int
  rs_UnderReplicated :: int
  rs_InFlight :: int
  rs_Enqueued :: int
  rs_Deferred :: int
  rs_Missing :: int

record CycleEnv =
  ce_newid :: "nat \<Rightarrow> string"
  ce_clock :: "nat \<Rightarrow> int"
  ce_cancelled :: "nat \<Rightarrow> bool"
  ce_ReplicateBlobPayload :: "string \<Rightarrow> string \<Rightarrow> string"
  ce_ChunkBlobPayload :: "string \<Rightarrow> string"

record CycleState =
  cy_queue :: Queue
  cy_calls :: nat
  cy_tests :: nat
  cy_asked :: "string fset"
  cy_enqueued :: int
  cy_offered :: int

definition replicate_opts :: "CycleEnv \<Rightarrow> Gap \<Rightarrow> EnqueueOptions" where
  "replicate_opts env gap =
     \<lparr>eo_Type = ReplicateBlobJobType, eo_Payload = Encoded (ce_ReplicateBlobPayload env (BlobHash gap) (PeerID gap)),
      eo_DedupeKey = DedupeKey gap, eo_Priority = None, eo_RequiredCapability = [], eo_RunAfter = 0, eo_MaxAttempts = 0\<rparr>"

definition chunk_opts :: "CycleEnv \<Rightarrow> string \<Rightarrow> EnqueueOptions" where
  "chunk_opts env hash =
     \<lparr>eo_Type = ChunkBlobJobType, eo_Payload = Encoded (ce_ChunkBlobPayload env hash),
      eo_DedupeKey = ChunkBlobDedupeKey hash, eo_Priority = None, eo_RequiredCapability = [], eo_RunAfter = 0, eo_MaxAttempts = 0\<rparr>"

definition cycle_enqueue :: "CycleEnv \<Rightarrow> EnqueueOptions \<Rightarrow> CycleState \<Rightarrow> bool \<times> CycleState" where
  "cycle_enqueue env opts st =
     (case Enqueue (ce_newid env (cy_calls st)) (ce_clock env (cy_calls st)) opts (cy_queue st) of
        (Inl _, q) \<Rightarrow> (False, st\<lparr>cy_queue := q, cy_calls := cy_calls st + 1\<rparr>)
      | (Inr _, q) \<Rightarrow> (True, st\<lparr>cy_queue := q, cy_calls := cy_calls st + 1\<rparr>))"

definition undecided :: "(string, mstate) fmap \<Rightarrow> string \<Rightarrow> bool" where
  "undecided states hash \<longleftrightarrow> fmlookup states hash = Some StateUndecided"

text \<open>The body of the loop over the gaps taken.\<close>

definition take_gap :: "CycleEnv \<Rightarrow> (string, mstate) fmap \<Rightarrow> string \<Rightarrow> Gap \<Rightarrow> CycleState \<Rightarrow> CycleState" where
  "take_gap env states self gap st0 =
     (case cycle_enqueue env (replicate_opts env gap) st0 of
        (False, st) \<Rightarrow> st
      | (True, st) \<Rightarrow>
          (let st = st\<lparr>cy_enqueued := cy_enqueued st + 1\<rparr>
           in if PeerID gap = self then st
              else if BlobHash gap |\<in>| cy_asked st then st
              else let st = st\<lparr>cy_asked := finsert (BlobHash gap) (cy_asked st)\<rparr>
                   in if \<not> undecided states (BlobHash gap) then st
                      else snd (cycle_enqueue env (chunk_opts env (BlobHash gap)) st)))"

fun take_gaps :: "CycleEnv \<Rightarrow> (string, mstate) fmap \<Rightarrow> string \<Rightarrow> Gap list \<Rightarrow> CycleState \<Rightarrow> CycleState" where
  "take_gaps env states self [] st = st"
| "take_gaps env states self (gap # gaps) st =
     (let st' = st\<lparr>cy_tests := cy_tests st + 1\<rparr>
      in if ce_cancelled env (cy_tests st) then st' else take_gaps env states self gaps (take_gap env states self gap st'))"

text \<open>The body of the loop over the offered blobs.\<close>

definition offer_chunk :: "CycleEnv \<Rightarrow> (string, mstate) fmap \<Rightarrow> string fset \<Rightarrow> string \<Rightarrow> CycleState \<Rightarrow> CycleState" where
  "offer_chunk env states liveChunks hash st0 =
     (if hash |\<in>| cy_asked st0 then st0
      else let st = st0\<lparr>cy_asked := finsert hash (cy_asked st0)\<rparr>
           in if ChunkBlobDedupeKey hash |\<in>| liveChunks then st
              else if \<not> undecided states hash then st
              else case cycle_enqueue env (chunk_opts env hash) st of
                     (False, st) \<Rightarrow> st
                   | (True, st) \<Rightarrow> st\<lparr>cy_offered := cy_offered st + 1\<rparr>)"

fun offer_chunks :: "CycleEnv \<Rightarrow> (string, mstate) fmap \<Rightarrow> string fset \<Rightarrow> int \<Rightarrow> string list \<Rightarrow> CycleState \<Rightarrow> CycleState" where
  "offer_chunks env states liveChunks limit [] st = st"
| "offer_chunks env states liveChunks limit (hash # hashes) st =
     (if limit > 0 \<and> cy_offered st \<ge> limit then st
      else let st' = st\<lparr>cy_tests := cy_tests st + 1\<rparr>
           in if ce_cancelled env (cy_tests st) then st'
              else offer_chunks env states liveChunks limit hashes (offer_chunk env states liveChunks hash st'))"

definition in_flight :: "Queue \<Rightarrow> Gap \<Rightarrow> bool" where
  "in_flight q gap \<longleftrightarrow> DedupeKey gap |\<in>| LiveDedupeKeys ReplicateBlobJobType q"

definition cycle_start :: "nat \<Rightarrow> Queue \<Rightarrow> CycleState" where
  "cycle_start calls q = \<lparr>cy_queue = q, cy_calls = calls, cy_tests = 0, cy_asked = {||}, cy_enqueued = 0, cy_offered = 0\<rparr>"

text \<open>The handler, from the plan on: the summary it records, unless it was stopped, and the state of the cycle.\<close>

definition reconcilePeer ::
  "CycleEnv \<Rightarrow> (string, mstate) fmap \<Rightarrow> string \<Rightarrow> int \<Rightarrow> PeerConvergence \<Rightarrow> nat \<Rightarrow> Queue \<Rightarrow> PeerReconcileSummary option \<times> CycleState" where
  "reconcilePeer env states0 self limit plan calls q =
     (let inFlight = filter (in_flight q) (pc_Gaps plan);
          outstanding = filter (\<lambda>gap. \<not> in_flight q gap) (pc_Gaps plan)
      in case Bound outstanding limit of (taken, deferred) \<Rightarrow>
        (let states = (if length taken > 0 \<or> length (pc_OfferedBlobs plan) > 0 then states0 else fmempty);
             st1 = take_gaps env states self taken (cycle_start calls q);
             liveChunks = (if length (pc_OfferedBlobs plan) > 0 then LiveDedupeKeys ChunkBlobJobType (cy_queue st1) else {||});
             st2 = offer_chunks env states liveChunks limit (pc_OfferedBlobs plan) st1;
             summary = \<lparr>rs_Scope = pc_Scope plan, rs_Peers = int (length (pc_Peers plan)), rs_Desired = pc_Desired plan,
               rs_UnderReplicated = int (length (pc_Gaps plan)), rs_InFlight = int (length inFlight), rs_Enqueued = cy_enqueued st2,
               rs_Deferred = deferred, rs_Missing = (if pc_Missing plan > 0 then pc_Missing plan else 0)\<rparr>
         in (if ce_cancelled env (cy_tests st2) then None else Some summary, st2)))"

definition reconcilePeerHandler ::
  "CycleEnv \<Rightarrow> (string, mstate) fmap \<Rightarrow> CatalogConfig \<Rightarrow> int \<Rightarrow> Fabric \<Rightarrow> string \<Rightarrow> nat \<Rightarrow> Queue \<Rightarrow>
     plan_failure + (PeerReconcileSummary option \<times> CycleState)" where
  "reconcilePeerHandler env states c limit f scope calls q =
     (case PlanPeerConvergence c f scope of
        Inl e \<Rightarrow> Inl e
      | Inr plan \<Rightarrow> Inr (reconcilePeer env states (ca_self c) limit plan calls q))"

text \<open>The event of a cycle.\<close>

definition RecordPeerReconciled :: "PeerReconcileSummary \<Rightarrow> string \<rightharpoonup> pval" where
  "RecordPeerReconciled s =
     [''scope'' \<mapsto> PText (if rs_Scope s = [] then ''fabric'' else rs_Scope s), ''peers'' \<mapsto> PNum (rs_Peers s),
      ''desired'' \<mapsto> PNum (rs_Desired s), ''under_replicated'' \<mapsto> PNum (rs_UnderReplicated s), ''in_flight'' \<mapsto> PNum (rs_InFlight s),
      ''enqueued'' \<mapsto> PNum (rs_Enqueued s), ''deferred'' \<mapsto> PNum (rs_Deferred s), ''missing'' \<mapsto> PNum (rs_Missing s)]"

section \<open>What a cycle adds to the queue\<close>

definition fresh_ids :: "CycleEnv \<Rightarrow> CycleState \<Rightarrow> bool" where
  "fresh_ids env st \<longleftrightarrow> (\<forall>n\<ge>cy_calls st. \<forall>j\<in>set (qu_jobs (cy_queue st)). jb_ID j \<noteq> ce_newid env n)"

definition queued_keys :: "Queue \<Rightarrow> string set" where
  "queued_keys q = jb_DedupeKey ` {j \<in> set (qu_jobs q). live j}"

text \<open>The queue grew by live jobs, whose replications have the keys \<open>ks\<close>.\<close>

definition added_jobs :: "CycleState \<Rightarrow> CycleState \<Rightarrow> string list \<Rightarrow> bool" where
  "added_jobs st st' ks \<longleftrightarrow> (\<exists>new. qu_jobs (cy_queue st') = qu_jobs (cy_queue st) @ new \<and> (\<forall>j\<in>set new. live j \<and> jb_Type j \<in> {ReplicateBlobJobType, ChunkBlobJobType}) \<and>
     map jb_DedupeKey (filter (\<lambda>j. jb_Type j = ReplicateBlobJobType) new) = ks \<and>
     (\<forall>j\<in>set new. jb_Type j = ChunkBlobJobType \<longrightarrow> (\<exists>h. jb_DedupeKey j = ChunkBlobDedupeKey h)))"

lemma added_refl: "qu_jobs (cy_queue st') = qu_jobs (cy_queue st) \<Longrightarrow> added_jobs st st' []"
  by (simp add: added_jobs_def)

lemma added_trans: "added_jobs a b ks \<Longrightarrow> added_jobs b c ls \<Longrightarrow> added_jobs a c (ks @ ls)"
  unfolding added_jobs_def by (elim exE conjE, rename_tac new1 new2, rule_tac x = "new1 @ new2" in exI) auto

lemma key_kinds: "ChunkBlobDedupeKey h \<noteq> DedupeKey g" "ChunkBlobDedupeKey h \<noteq> []" "DedupeKey g \<noteq> []" "ReplicateBlobJobType \<noteq> ChunkBlobJobType"
  by (simp_all add: ChunkBlobDedupeKey_def DedupeKey_def ReplicateBlobJobType_def ChunkBlobJobType_def)

lemma added_queued_keys: "added_jobs a b ks \<Longrightarrow> DedupeKey g \<in> queued_keys (cy_queue b) \<longleftrightarrow> DedupeKey g \<in> queued_keys (cy_queue a) \<or> DedupeKey g \<in> set ks"
proof -
  assume "added_jobs a b ks"
  then obtain new where n: "qu_jobs (cy_queue b) = qu_jobs (cy_queue a) @ new" "\<forall>j\<in>set new. live j \<and> jb_Type j \<in> {ReplicateBlobJobType, ChunkBlobJobType}"
      "ks = map jb_DedupeKey (filter (\<lambda>j. jb_Type j = ReplicateBlobJobType) new)"
      "\<forall>j\<in>set new. jb_Type j = ChunkBlobJobType \<longrightarrow> (\<exists>h. jb_DedupeKey j = ChunkBlobDedupeKey h)"
    by (auto simp: added_jobs_def)
  have "DedupeKey g \<in> queued_keys (cy_queue b) \<longleftrightarrow> DedupeKey g \<in> queued_keys (cy_queue a) \<or> (\<exists>j\<in>set new. jb_DedupeKey j = DedupeKey g)"
    using n(1,2) unfolding queued_keys_def by (force simp: image_iff)
  moreover have "(\<exists>j\<in>set new. jb_DedupeKey j = DedupeKey g) \<longleftrightarrow> DedupeKey g \<in> set ks"
    using n(2-4) key_kinds(1) [of _ g] by (auto simp: image_iff) metis+
  ultimately show ?thesis by simp
qed

lemma cycle_enqueue_run:
  assumes fr: "fresh_ids env st" and inj: "inj (ce_newid env)" and o: "eo_Type opts \<noteq> []" "eo_Payload opts = Encoded p" "eo_DedupeKey opts \<noteq> []"
  shows "\<exists>q. cycle_enqueue env opts st = (True, st\<lparr>cy_queue := q, cy_calls := cy_calls st + 1\<rparr>) \<and>
    fresh_ids env (st\<lparr>cy_queue := q, cy_calls := cy_calls st + 1\<rparr>) \<and>
    qu_jobs q = qu_jobs (cy_queue st) @
      (if eo_DedupeKey opts \<in> queued_keys (cy_queue st) then [] else [new_job (ce_newid env (cy_calls st)) (ce_clock env (cy_calls st)) p opts])"
proof -
  let ?q = "cy_queue st" and ?i = "ce_newid env (cy_calls st)" and ?t = "ce_clock env (cy_calls st)"
  let ?j = "new_job ?i ?t p opts"
  have noid: "\<not> matches (\<lambda>j. jb_ID j = jb_ID ?j) ?q" using fr by (auto simp: matches_def new_job_def fresh_ids_def)
  have key: "matches (\<lambda>j. jb_DedupeKey j = jb_DedupeKey ?j \<and> live j) ?q \<longleftrightarrow> eo_DedupeKey opts \<in> queued_keys ?q"
    by (force simp: matches_def queued_keys_def new_job_def image_iff)
  have v: "violates ?j ?q \<longleftrightarrow> eo_DedupeKey opts \<in> queued_keys ?q" using noid key o(3) by (simp add: violates_def new_job_def)
  have old: "fresh_ids env (st\<lparr>cy_queue := q, cy_calls := cy_calls st + 1\<rparr>)" if "qu_jobs q = qu_jobs ?q" for q
    using fr that by (simp add: fresh_ids_def)
  have new: "fresh_ids env (st\<lparr>cy_queue := q, cy_calls := cy_calls st + 1\<rparr>)" if "qu_jobs q = qu_jobs ?q @ [?j]" for q
    using fr that injD [OF inj] by (force simp: fresh_ids_def new_job_def)
  show ?thesis
  proof (cases "eo_DedupeKey opts \<in> queued_keys ?q")
    case True
    then obtain k where k: "findLiveByDedupeKey (eo_DedupeKey opts) ?q = Inr k"
      using find_live_Inl o(3) by (cases "findLiveByDedupeKey (eo_DedupeKey opts) ?q") (auto simp: queued_keys_def)
    then show ?thesis using True v o old [of ?q]
      by (intro exI [of _ ?q]) (simp add: cycle_enqueue_def Enqueue_def Let_def)
  next
    case False
    then show ?thesis using v o new [of "emit TypeJobEnqueued ?j [] (?q\<lparr>qu_jobs := qu_jobs ?q @ [?j]\<rparr>)"]
      by (intro exI [of _ "emit TypeJobEnqueued ?j [] (?q\<lparr>qu_jobs := qu_jobs ?q @ [?j]\<rparr>)"]) (simp add: cycle_enqueue_def Enqueue_def Let_def)
  qed
qed

lemma replicate_run:
  assumes "fresh_ids env st" and "inj (ce_newid env)" and "DedupeKey g \<notin> queued_keys (cy_queue st)"
  shows "\<exists>q. cycle_enqueue env (replicate_opts env g) st = (True, st\<lparr>cy_queue := q, cy_calls := cy_calls st + 1\<rparr>) \<and>
    fresh_ids env (st\<lparr>cy_queue := q, cy_calls := cy_calls st + 1\<rparr>) \<and> added_jobs st (st\<lparr>cy_queue := q, cy_calls := cy_calls st + 1\<rparr>) [DedupeKey g]"
  using cycle_enqueue_run [OF assms(1,2), of "replicate_opts env g"] assms(3) key_kinds
  by (auto simp: replicate_opts_def added_jobs_def new_job_def live_def ReplicateBlobJobType_def)

lemma chunk_run:
  assumes "fresh_ids env st" and "inj (ce_newid env)"
  shows "\<exists>q. cycle_enqueue env (chunk_opts env h) st = (True, st\<lparr>cy_queue := q, cy_calls := cy_calls st + 1\<rparr>) \<and>
    fresh_ids env (st\<lparr>cy_queue := q, cy_calls := cy_calls st + 1\<rparr>) \<and> added_jobs st (st\<lparr>cy_queue := q, cy_calls := cy_calls st + 1\<rparr>) []"
proof -
  obtain q where q: "cycle_enqueue env (chunk_opts env h) st = (True, st\<lparr>cy_queue := q, cy_calls := cy_calls st + 1\<rparr>)"
      "fresh_ids env (st\<lparr>cy_queue := q, cy_calls := cy_calls st + 1\<rparr>)"
      "qu_jobs q = qu_jobs (cy_queue st) @ (if ChunkBlobDedupeKey h \<in> queued_keys (cy_queue st) then []
        else [new_job (ce_newid env (cy_calls st)) (ce_clock env (cy_calls st)) (ce_ChunkBlobPayload env h) (chunk_opts env h)])"
    using cycle_enqueue_run [OF assms, of "chunk_opts env h"] key_kinds(2) [of h] by (auto simp: chunk_opts_def ChunkBlobJobType_def)
  moreover have "added_jobs st (st\<lparr>cy_queue := q, cy_calls := cy_calls st + 1\<rparr>) []"
    unfolding added_jobs_def using q(3) key_kinds(4)
    by (auto simp: new_job_def chunk_opts_def live_def)
  ultimately show ?thesis by blast
qed

text \<open>The loops, when nothing cancels them.\<close>

lemma added_same [simp]:
  "added_jobs (st\<lparr>cy_tests := n\<rparr>) st' ks = added_jobs st st' ks" "added_jobs (st\<lparr>cy_enqueued := m\<rparr>) st' ks = added_jobs st st' ks"
  "added_jobs (st\<lparr>cy_asked := a\<rparr>) st' ks = added_jobs st st' ks" "added_jobs st (st'\<lparr>cy_enqueued := m\<rparr>) ks = added_jobs st st' ks"
  "added_jobs st (st'\<lparr>cy_asked := a\<rparr>) ks = added_jobs st st' ks" "added_jobs st (st'\<lparr>cy_offered := m\<rparr>) ks = added_jobs st st' ks"
  by (simp_all add: added_jobs_def)

lemma fresh_same [simp]:
  "fresh_ids env (st\<lparr>cy_tests := n\<rparr>) = fresh_ids env st" "fresh_ids env (st\<lparr>cy_enqueued := m\<rparr>) = fresh_ids env st"
  "fresh_ids env (st\<lparr>cy_asked := a\<rparr>) = fresh_ids env st" "fresh_ids env (st\<lparr>cy_offered := m\<rparr>) = fresh_ids env st"
  by (simp_all add: fresh_ids_def)

lemma take_gap_run:
  assumes "fresh_ids env st" and "inj (ce_newid env)" and "DedupeKey g \<notin> queued_keys (cy_queue st)"
  shows "added_jobs st (take_gap env states self g st) [DedupeKey g] \<and> fresh_ids env (take_gap env states self g st) \<and>
    cy_enqueued (take_gap env states self g st) = cy_enqueued st + 1 \<and> cy_offered (take_gap env states self g st) = cy_offered st"
proof -
  obtain q where q: "cycle_enqueue env (replicate_opts env g) st = (True, st\<lparr>cy_queue := q, cy_calls := cy_calls st + 1\<rparr>)"
      "fresh_ids env (st\<lparr>cy_queue := q, cy_calls := cy_calls st + 1\<rparr>)" "added_jobs st (st\<lparr>cy_queue := q, cy_calls := cy_calls st + 1\<rparr>) [DedupeKey g]"
    using replicate_run [OF assms] by blast
  define st1 where "st1 = st\<lparr>cy_queue := q, cy_calls := cy_calls st + 1\<rparr>"
  define st2 where "st2 = st1\<lparr>cy_enqueued := cy_enqueued st1 + 1, cy_asked := finsert (BlobHash g) (cy_asked st1)\<rparr>"
  have f1: "fresh_ids env st1" "added_jobs st st1 [DedupeKey g]" "cy_enqueued st1 = cy_enqueued st" "cy_offered st1 = cy_offered st"
    using q(2,3) by (simp_all add: st1_def)
  then have f2: "fresh_ids env st2" by (simp add: st2_def)
  obtain q2 where c: "cycle_enqueue env (chunk_opts env (BlobHash g)) st2 = (True, st2\<lparr>cy_queue := q2, cy_calls := cy_calls st2 + 1\<rparr>)"
      "fresh_ids env (st2\<lparr>cy_queue := q2, cy_calls := cy_calls st2 + 1\<rparr>)" "added_jobs st2 (st2\<lparr>cy_queue := q2, cy_calls := cy_calls st2 + 1\<rparr>) []"
    using chunk_run [OF f2 assms(2)] by blast
  have "added_jobs st st2 [DedupeKey g]" using f1(2) by (simp add: st2_def)
  from added_trans [OF this c(3)] have "added_jobs st (st2\<lparr>cy_queue := q2, cy_calls := cy_calls st2 + 1\<rparr>) [DedupeKey g]" by simp
  moreover have "cy_enqueued st2 = cy_enqueued st + 1" "cy_offered st2 = cy_offered st" using f1 by (simp_all add: st2_def)
  moreover have "take_gap env states self g st =
      (if PeerID g = self \<or> BlobHash g |\<in>| cy_asked st1 then st1\<lparr>cy_enqueued := cy_enqueued st1 + 1\<rparr>
       else if \<not> undecided states (BlobHash g) then st2 else st2\<lparr>cy_queue := q2, cy_calls := cy_calls st2 + 1\<rparr>)"
    using c(1) unfolding take_gap_def q(1) st1_def [symmetric] by (simp add: Let_def st2_def)
  ultimately show ?thesis using f1 f2 c(2) by (simp add: st2_def)
qed

lemma take_gaps_run:
  assumes "fresh_ids env st" and "inj (ce_newid env)" and "\<And>n. \<not> ce_cancelled env n"
    and "distinct (map DedupeKey gs)" and "\<forall>g\<in>set gs. DedupeKey g \<notin> queued_keys (cy_queue st)"
  shows "added_jobs st (take_gaps env states self gs st) (map DedupeKey gs) \<and> fresh_ids env (take_gaps env states self gs st) \<and>
    cy_enqueued (take_gaps env states self gs st) = cy_enqueued st + int (length gs) \<and>
    cy_offered (take_gaps env states self gs st) = cy_offered st"
  using assms(1,4,5)
proof (induction gs arbitrary: st)
  case Nil
  then show ?case by (simp add: added_refl)
next
  case (Cons g gs)
  let ?st = "take_gap env states self g (st\<lparr>cy_tests := cy_tests st + 1\<rparr>)"
  have g: "added_jobs st ?st [DedupeKey g]" "fresh_ids env ?st" "cy_enqueued ?st = cy_enqueued st + 1" "cy_offered ?st = cy_offered st"
    using take_gap_run [of env "st\<lparr>cy_tests := cy_tests st + 1\<rparr>" g states self] Cons.prems assms(2) by auto
  have "\<forall>h\<in>set gs. DedupeKey h \<notin> queued_keys (cy_queue ?st)"
    using Cons.prems(2,3) added_queued_keys [OF g(1)] by (force simp: image_iff)
  with Cons.IH [OF g(2)] Cons.prems(2) g
  have "added_jobs ?st (take_gaps env states self gs ?st) (map DedupeKey gs) \<and> fresh_ids env (take_gaps env states self gs ?st) \<and>
      cy_enqueued (take_gaps env states self gs ?st) = cy_enqueued st + 1 + int (length gs) \<and> cy_offered (take_gaps env states self gs ?st) = cy_offered st"
    by simp
  moreover from this have "added_jobs st (take_gaps env states self gs ?st) ([DedupeKey g] @ map DedupeKey gs)"
    using added_trans [OF g(1)] by blast
  ultimately show ?case using assms(3) by (simp add: Let_def)
qed

lemma offer_chunk_run:
  assumes "fresh_ids env st" and "inj (ce_newid env)"
  shows "added_jobs st (offer_chunk env states liveChunks h st) [] \<and> fresh_ids env (offer_chunk env states liveChunks h st) \<and>
    cy_enqueued (offer_chunk env states liveChunks h st) = cy_enqueued st"
proof -
  let ?st = "st\<lparr>cy_asked := finsert h (cy_asked st)\<rparr>"
  obtain q where "cycle_enqueue env (chunk_opts env h) ?st = (True, ?st\<lparr>cy_queue := q, cy_calls := cy_calls ?st + 1\<rparr>)"
      "fresh_ids env (?st\<lparr>cy_queue := q, cy_calls := cy_calls ?st + 1\<rparr>)" "added_jobs ?st (?st\<lparr>cy_queue := q, cy_calls := cy_calls ?st + 1\<rparr>) []"
    using chunk_run [of env ?st h] assms by auto
  then show ?thesis using assms(1) by (auto simp: offer_chunk_def Let_def added_refl)
qed

lemma offer_chunks_run:
  assumes "fresh_ids env st" and "inj (ce_newid env)"
  shows "added_jobs st (offer_chunks env states liveChunks limit hs st) [] \<and> fresh_ids env (offer_chunks env states liveChunks limit hs st) \<and>
    cy_enqueued (offer_chunks env states liveChunks limit hs st) = cy_enqueued st"
  using assms(1)
proof (induction hs arbitrary: st)
  case Nil
  then show ?case by (simp add: added_refl)
next
  case (Cons h hs)
  let ?u = "st\<lparr>cy_tests := cy_tests st + 1\<rparr>"
  let ?st = "offer_chunk env states liveChunks h ?u"
  have h: "added_jobs st ?st []" "fresh_ids env ?st" "cy_enqueued ?st = cy_enqueued st"
    using offer_chunk_run [of env ?u states liveChunks h] Cons.prems assms(2) by auto
  have "added_jobs st (offer_chunks env states liveChunks limit hs ?st) ([] @ [])"
    by (rule added_trans [OF h(1)]) (use Cons.IH [OF h(2)] in blast)
  then show ?case using Cons.IH [OF h(2)] Cons.prems h(3) by (simp add: Let_def added_refl)
qed

section \<open>The cycle\<close>

lemma in_flight_live: "in_flight q g \<longleftrightarrow> (\<exists>j\<in>set (qu_jobs q). jb_Type j = ReplicateBlobJobType \<and> live j \<and> jb_DedupeKey j = DedupeKey g)"
  unfolding in_flight_def LiveDedupeKeys_def fset_of_list_elem set_map set_filter using key_kinds(3) [of g] by (auto simp: image_iff)

lemma cycle_result:
  assumes "\<forall>n. \<not> ce_cancelled env n" and "0 < limit" and "reconcilePeer env states self limit plan calls q = (summary, st)"
    and outs: "outs = filter (\<lambda>g. \<not> in_flight q g) (pc_Gaps plan)"
  shows "\<exists>states' lc s. st = offer_chunks env states' lc limit (pc_OfferedBlobs plan) (take_gaps env states' self (take (nat limit) outs) (cycle_start calls q)) \<and>
    summary = Some s \<and> rs_Enqueued s = cy_enqueued st \<and> rs_Deferred s = int (length (drop (nat limit) outs)) \<and>
    rs_InFlight s = int (length (filter (in_flight q) (pc_Gaps plan))) \<and> rs_UnderReplicated s = int (length (pc_Gaps plan))"
proof -
  define taken where "taken = take (nat limit) outs"
  define states' where "states' = (if length taken > 0 \<or> length (pc_OfferedBlobs plan) > 0 then states else fmempty)"
  define st1 where "st1 = take_gaps env states' self taken (cycle_start calls q)"
  define lc where "lc = (if length (pc_OfferedBlobs plan) > 0 then LiveDedupeKeys ChunkBlobJobType (cy_queue st1) else {||})"
  define st2 where "st2 = offer_chunks env states' lc limit (pc_OfferedBlobs plan) st1"
  have "reconcilePeer env states self limit plan calls q =
      (Some \<lparr>rs_Scope = pc_Scope plan, rs_Peers = int (length (pc_Peers plan)), rs_Desired = pc_Desired plan,
         rs_UnderReplicated = int (length (pc_Gaps plan)), rs_InFlight = int (length (filter (in_flight q) (pc_Gaps plan))),
         rs_Enqueued = cy_enqueued st2, rs_Deferred = int (length (drop (nat limit) outs)),
         rs_Missing = (if pc_Missing plan > 0 then pc_Missing plan else 0)\<rparr>, st2)"
    unfolding reconcilePeer_def Let_def outs [symmetric] Bound_take [OF assms(2)] prod.case taken_def [symmetric]
      states'_def [symmetric] st1_def [symmetric] lc_def [symmetric] st2_def [symmetric]
    using assms(1) by simp
  with assms(3) have "st = st2" and "\<exists>s. summary = Some s \<and> rs_Enqueued s = cy_enqueued st2 \<and> rs_Deferred s = int (length (drop (nat limit) outs)) \<and>
      rs_InFlight s = int (length (filter (in_flight q) (pc_Gaps plan))) \<and> rs_UnderReplicated s = int (length (pc_Gaps plan))"
    by auto
  then show ?thesis unfolding taken_def [symmetric] st2_def st1_def by blast
qed

text \<open>What is in flight after a cycle has grown the queue.\<close>

lemma flight_grown:
  assumes "qu_jobs q' = qu_jobs q @ new" and "\<forall>j\<in>set new. live j"
    and "map jb_DedupeKey (filter (\<lambda>j. jb_Type j = ReplicateBlobJobType) new) = map DedupeKey taken"
    and "distinct (map DedupeKey gaps)" and "set taken \<subseteq> set gaps" and "g \<in> set gaps"
  shows "in_flight q' g \<longleftrightarrow> in_flight q g \<or> g \<in> set taken"
proof -
  have "in_flight q' g \<longleftrightarrow> in_flight q g \<or> DedupeKey g \<in> set (map jb_DedupeKey (filter (\<lambda>j. jb_Type j = ReplicateBlobJobType) new))"
    using assms(1,2) unfolding in_flight_live by (auto simp: image_iff) (metis+)?
  also have "\<dots> \<longleftrightarrow> in_flight q g \<or> g \<in> set taken"
    unfolding assms(3) using assms(4-6) by (auto simp: distinct_map image_iff dest: inj_onD)
  finally show ?thesis .
qed

text \<open>C23: A cycle that is not cancelled enqueues a replication for exactly the gaps it takes, the first of those not in
  flight up to the limit, creates no second live job for any key, and accounts for every gap as in flight, enqueued or
  deferred. Afterwards the gaps not in flight are exactly the deferred ones: with the same plan the next
  cycle goes on where this one stopped, and once all are in flight it creates no replication.\<close>

theorem peer_cycle:
  assumes "inj (ce_newid env)" and "\<forall>n. \<not> ce_cancelled env n" and "0 < limit"
    and "\<forall>n\<ge>calls. \<forall>j\<in>set (qu_jobs q). jb_ID j \<noteq> ce_newid env n"
    and "distinct (map DedupeKey (pc_Gaps plan))"
    and "\<forall>j\<in>set (qu_jobs q). \<forall>g\<in>set (pc_Gaps plan). live j \<and> jb_DedupeKey j = DedupeKey g \<longrightarrow> jb_Type j = ReplicateBlobJobType"
    and "reconcilePeer env states self limit plan calls q = (summary, st)"
  shows "let outstanding = filter (\<lambda>g. \<not> in_flight q g) (pc_Gaps plan); taken = take (nat limit) outstanding in
    (\<exists>s. summary = Some s \<and> rs_Enqueued s = int (length taken) \<and> rs_Enqueued s \<le> limit \<and>
      rs_InFlight s + rs_Enqueued s + rs_Deferred s = rs_UnderReplicated s) \<and>
    (\<exists>new. qu_jobs (cy_queue st) = qu_jobs q @ new \<and> (\<forall>j\<in>set new. live j) \<and>
      map jb_DedupeKey (filter (\<lambda>j. jb_Type j = ReplicateBlobJobType) new) = map DedupeKey taken) \<and>
    filter (\<lambda>g. \<not> in_flight (cy_queue st) g) (pc_Gaps plan) = drop (nat limit) outstanding"
proof -
  define outs where "outs = filter (\<lambda>g. \<not> in_flight q g) (pc_Gaps plan)"
  define taken where "taken = take (nat limit) outs"
  define st0 where "st0 = cycle_start calls q"
  have s0: "cy_queue st0 = q" "cy_enqueued st0 = 0" "fresh_ids env st0"
    using assms(4) by (simp_all add: st0_def cycle_start_def fresh_ids_def)
  have d: "distinct (map DedupeKey outs)" unfolding outs_def by (rule distinct_map_filter [OF assms(5)])
  then have dt: "distinct (map DedupeKey taken)" by (simp add: taken_def take_map [symmetric] distinct_take)
  have sub: "set taken \<subseteq> set outs" by (simp add: taken_def set_take_subset)
  have "DedupeKey g \<notin> queued_keys q" if "g \<in> set (pc_Gaps plan)" "\<not> in_flight q g" for g
    using assms(6) that unfolding in_flight_live queued_keys_def by (auto simp: image_iff) (metis+)?
  with sub have nl: "\<forall>g\<in>set taken. DedupeKey g \<notin> queued_keys (cy_queue st0)" by (auto simp: s0(1) outs_def)
  obtain states' lc s where r: "st = offer_chunks env states' lc limit (pc_OfferedBlobs plan) (take_gaps env states' self taken st0)"
      "summary = Some s" "rs_Enqueued s = cy_enqueued st" "rs_Deferred s = int (length (drop (nat limit) outs))"
      "rs_InFlight s = int (length (filter (in_flight q) (pc_Gaps plan)))" "rs_UnderReplicated s = int (length (pc_Gaps plan))"
    using cycle_result [OF assms(2,3,7) outs_def] unfolding taken_def [symmetric] st0_def [symmetric] by blast
  have t: "added_jobs st0 (take_gaps env states' self taken st0) (map DedupeKey taken)" "fresh_ids env (take_gaps env states' self taken st0)"
      "cy_enqueued (take_gaps env states' self taken st0) = int (length taken)"
    using take_gaps_run [OF s0(3) assms(1) _ dt nl] assms(2) s0(2) by simp_all
  have "added_jobs st0 st (map DedupeKey taken @ [])" "cy_enqueued st = int (length taken)"
    using offer_chunks_run [OF t(2) assms(1), of states' lc limit "pc_OfferedBlobs plan"] added_trans [OF t(1), of st "[]"] t(3)
    by (simp_all add: r(1))
  then obtain new where new: "qu_jobs (cy_queue st) = qu_jobs q @ new" "\<forall>j\<in>set new. live j"
      "map jb_DedupeKey (filter (\<lambda>j. jb_Type j = ReplicateBlobJobType) new) = map DedupeKey taken" "cy_enqueued st = int (length taken)"
    using s0(1) by (auto simp: added_jobs_def)
  have "filter (\<lambda>g. \<not> in_flight (cy_queue st) g) (pc_Gaps plan) = filter (\<lambda>g. g \<notin> set taken) outs"
    using flight_grown [OF new(1-3) assms(5)] sub by (auto simp: outs_def intro!: filter_cong)
  also have "\<dots> = drop (nat limit) outs" unfolding taken_def by (rule filter_not_prefix) (use d in \<open>simp add: distinct_map\<close>)
  finally have rest: "filter (\<lambda>g. \<not> in_flight (cy_queue st) g) (pc_Gaps plan) = drop (nat limit) outs" .
  have "length (filter (in_flight q) (pc_Gaps plan)) + length taken + length (drop (nat limit) outs) = length (pc_Gaps plan)"
    "int (length taken) \<le> limit"
    using sum_length_filter_compl [of "in_flight q" "pc_Gaps plan"] assms(3) by (simp_all add: taken_def outs_def)
  then show ?thesis
    using r new rest unfolding Let_def outs_def [symmetric] taken_def [symmetric]
    by (intro conjI exI [of _ s] exI [of _ new]) simp_all
qed

lemma peer_cycle_witness:
  "let env = \<lparr>ce_newid = dec, ce_clock = (\<lambda>n. int n + 1), ce_cancelled = (\<lambda>_. False), ce_ReplicateBlobPayload = (\<lambda>b p. b @ p), ce_ChunkBlobPayload = (\<lambda>b. b)\<rparr>
   in filter (\<lambda>g. \<not> in_flight (cy_queue (snd (reconcilePeer env fmempty ''me'' 1 demo_plan 0 empty_queue))) g) (pc_Gaps demo_plan) = [Gap ''h2'' ''me'']"
proof -
  let ?env = "\<lparr>ce_newid = dec, ce_clock = (\<lambda>n. int n + 1), ce_cancelled = (\<lambda>_. False), ce_ReplicateBlobPayload = (\<lambda>b p. b @ p), ce_ChunkBlobPayload = (\<lambda>b. b)\<rparr>"
  obtain summary st where r: "reconcilePeer ?env fmempty ''me'' 1 demo_plan 0 empty_queue = (summary, st)" by fastforce
  have i: "inj (ce_newid ?env)" by (simp add: inj_def dec_inj)
  have n: "\<not> in_flight empty_queue g" for g by (simp add: in_flight_live empty_queue_def)
  have "filter (\<lambda>g. \<not> in_flight (cy_queue st) g) (pc_Gaps demo_plan) = drop (nat 1) (filter (\<lambda>g. \<not> in_flight empty_queue g) (pc_Gaps demo_plan))"
    using peer_cycle [OF i _ _ _ _ _ r] by (simp add: Let_def empty_queue_def demo_plan_def DedupeKey_def)
  moreover have "drop (nat 1) (filter (\<lambda>g. \<not> in_flight empty_queue g) (pc_Gaps demo_plan)) = [Gap ''h2'' ''me'']"
    by (simp add: n demo_plan_def)
  ultimately show ?thesis by (simp only: Let_def r snd_conv)
qed

end
