(* ===== verification/Site.thy ===== *)
theory Site
  imports Prelude
begin

text \<open>
  What a node knows of the blobs it stores, and the catalog's side of garbage collection:
  \<^verbatim>\<open>internal/persistence/catalog/integrity.go\<close>, \<^verbatim>\<open>releases.go\<close>, \<^verbatim>\<open>durability.go\<close> and the pins of
  \<^verbatim>\<open>placementpins.go\<close>. A table is the list of its rows with the columns these operations read; a transaction is a
  function on the site. Times are nanoseconds, and 0 is NULL and the zero time, at which no sweep runs. Statements do not fail, except where
  a foreign key refuses the delete. The payloads of events are kept where a theorem speaks of them.
\<close>

section \<open>The tables\<close>

record BlobRow =
  bw_Hash :: string
  bw_Size :: int
  bw_UnreferencedSince :: int

record ThumbRow =
  tr_Source :: string
  tr_Thumb :: string
  tr_Ready :: bool

record ReleaseRow =
  rl_Hash :: string
  rl_Cause :: string
  rl_Source :: string
  rl_At :: int

record PeerInfo =
  pi_PeerID :: string
  pi_Name :: string
  pi_Endpoint :: string
  pi_Health :: string
  pi_IsSelf :: bool

record ReplicaInfo =
  ri_Hash :: string
  ri_PeerID :: string
  ri_State :: string
  ri_BytesPresent :: int
  ri_VerifiedAt :: int
  ri_ReportedAt :: int

datatype Basis = BasisVerifiedRemote | BasisSolePeer | BasisReleased

record Evidence =
  ev_BlobHash :: string
  ev_Size :: int
  ev_Basis :: Basis
  ev_PeerID :: string
  ev_PeerName :: string
  ev_Endpoint :: string
  ev_ReportedAt :: int
  ev_VerifiedAt :: int
  ev_RecordedAt :: int
  ev_ReleasedAt :: int
  ev_UnreferencedSince :: int

datatype SiteEvent =
  BlobReleased string string string int
| BlobReleaseCleared string string
| BlobReclaimed string int bool int
| ReplicaMissing string string string
| ThumbnailDeleted string string
| BlobCreated string int
| ReplicaPresent string string int

record FileRow =
  fr_Hash :: string
  fr_Size :: int
  fr_ModTime :: int

record TempFile =
  tf_Name :: string
  tf_Size :: int
  tf_ModTime :: int

record Site =
  si_blobs :: "BlobRow list"
  si_assets :: "string list"
  si_pins :: "(string \<times> string) list"
  si_placements :: "(string \<times> string) list"
  si_scanned :: "string list"
  si_thumbs :: "ThumbRow list"
  si_releases :: "ReleaseRow list"
  si_peers :: "PeerInfo list"
  si_replicas :: "ReplicaInfo list"
  si_evidence :: "Evidence list"
  si_events :: "SiteEvent list"
  si_files :: "FileRow list"
  si_temps :: "TempFile list"

definition site_emit :: "SiteEvent \<Rightarrow> Site \<Rightarrow> Site" where
  "site_emit e s = s\<lparr>si_events := si_events s @ [e]\<rparr>"

section \<open>Who wants a blob\<close>

definition pinned :: "Site \<Rightarrow> string \<Rightarrow> bool" where
  "pinned s h = list_ex (\<lambda>p. fst p = h) (si_pins s)"

definition placed :: "Site \<Rightarrow> string \<Rightarrow> bool" where
  "placed s h = list_ex (\<lambda>p. snd p = h) (si_placements s)"

definition scanned :: "Site \<Rightarrow> string \<Rightarrow> bool" where
  "scanned s h = list_ex (\<lambda>f. f = h) (si_scanned s)"

definition ready_thumb :: "Site \<Rightarrow> string \<Rightarrow> bool" where
  "ready_thumb s h = list_ex (\<lambda>t. tr_Thumb t = h \<and> tr_Ready t) (si_thumbs s)"

definition has_asset :: "Site \<Rightarrow> string \<Rightarrow> bool" where
  "has_asset s h = list_ex (\<lambda>a. a = h) (si_assets s)"

definition has_row :: "Site \<Rightarrow> string \<Rightarrow> bool" where
  "has_row s h = list_ex (\<lambda>b. bw_Hash b = h) (si_blobs s)"

definition IsVaultBlob :: "Site \<Rightarrow> string \<Rightarrow> bool" where
  "IsVaultBlob s h \<longleftrightarrow> (pinned s h \<or> placed s h) \<and> \<not> has_asset s h \<and> \<not> scanned s h"

definition SelfPinnedHashes :: "Site \<Rightarrow> string list" where
  "SelfPinnedHashes s =
     map fst (filter (\<lambda>p. list_ex (\<lambda>i. pi_PeerID i = snd p \<and> pi_IsSelf i) (si_peers s)) (si_pins s)) @ map snd (si_placements s)"

definition Known :: "Site \<Rightarrow> string list \<Rightarrow> string \<rightharpoonup> bool" where
  "Known s hashes = map_of (map (\<lambda>h. (h, has_row s h)) hashes)"

section \<open>Blobs as the collector reads them\<close>

record Blob =
  bl_Hash :: string
  bl_Size :: int
  bl_References :: nat
  bl_UnreferencedSince :: int
  bl_ReleasedAt :: int
  bl_ReleaseCause :: string

definition references :: "Site \<Rightarrow> string \<Rightarrow> nat" where
  "references s h =
     length (filter (\<lambda>a. a = h) (si_assets s)) + length (filter (\<lambda>p. fst p = h) (si_pins s)) +
     length (filter (\<lambda>p. snd p = h) (si_placements s)) + length (filter (\<lambda>t. tr_Thumb t = h \<and> tr_Ready t) (si_thumbs s))"

definition release_of :: "Site \<Rightarrow> string \<Rightarrow> ReleaseRow option" where
  "release_of s h = find (\<lambda>r. rl_Hash r = h) (si_releases s)"

definition scanBlob :: "Site \<Rightarrow> BlobRow \<Rightarrow> Blob" where
  "scanBlob s b =
     (let r = (if scanned s (bw_Hash b) then None else release_of s (bw_Hash b))
      in \<lparr>bl_Hash = bw_Hash b, bl_Size = bw_Size b, bl_References = references s (bw_Hash b),
          bl_UnreferencedSince = bw_UnreferencedSince b,
          bl_ReleasedAt = (case r of None \<Rightarrow> 0 | Some x \<Rightarrow> rl_At x),
          bl_ReleaseCause = (case r of None \<Rightarrow> [] | Some x \<Rightarrow> rl_Cause x)\<rparr>)"

definition Blobs :: "Site \<Rightarrow> Blob list" where
  "Blobs s = map (scanBlob s) (sort_key bw_Hash (si_blobs s))"

section \<open>Marks, releases and pins\<close>

definition set_mark :: "(BlobRow \<Rightarrow> bool) \<Rightarrow> int \<Rightarrow> Site \<Rightarrow> Site" where
  "set_mark P t s = s\<lparr>si_blobs := map (\<lambda>b. if P b then b\<lparr>bw_UnreferencedSince := t\<rparr> else b) (si_blobs s)\<rparr>"

definition MarkUnreferenced :: "string list \<Rightarrow> int \<Rightarrow> Site \<Rightarrow> Site" where
  "MarkUnreferenced hashes at s = fold (\<lambda>h. set_mark (\<lambda>b. bw_Hash b = h \<and> bw_UnreferencedSince b = 0) at) hashes s"

definition clearRelease :: "string \<Rightarrow> string \<Rightarrow> Site \<Rightarrow> Site" where
  "clearRelease h why s =
     (if list_ex (\<lambda>r. rl_Hash r = h) (si_releases s)
      then site_emit (BlobReleaseCleared h why) (s\<lparr>si_releases := filter (\<lambda>r. rl_Hash r \<noteq> h) (si_releases s)\<rparr>)
      else s)"

definition markWanted :: "string \<Rightarrow> string \<Rightarrow> Site \<Rightarrow> Site" where
  "markWanted h why s = clearRelease h why (set_mark (\<lambda>b. bw_Hash b = h \<and> bw_UnreferencedSince b \<noteq> 0) 0 s)"

definition ClearUnreferenced :: "string list \<Rightarrow> Site \<Rightarrow> Site" where
  "ClearUnreferenced hashes s = fold (\<lambda>h s. clearRelease h ''referenced'' (set_mark (\<lambda>b. bw_Hash b = h) 0 s)) hashes s"

definition recordReleaseIfUnwanted :: "string \<Rightarrow> string \<Rightarrow> string \<Rightarrow> int \<Rightarrow> Site \<Rightarrow> Site" where
  "recordReleaseIfUnwanted h cause source now s =
     (if pinned s h \<or> placed s h \<or> has_asset s h \<or> scanned s h then s
      else let row = \<lparr>rl_Hash = h, rl_Cause = cause, rl_Source = source, rl_At = now\<rparr>;
               s1 = s\<lparr>si_releases := (if list_ex (\<lambda>r. rl_Hash r = h) (si_releases s)
                        then map (\<lambda>r. if rl_Hash r = h then row else r) (si_releases s) else si_releases s @ [row])\<rparr>;
               s2 = set_mark (\<lambda>b. bw_Hash b = h \<and> bw_UnreferencedSince b \<noteq> 0) 0 s1
           in site_emit (BlobReleased h cause source now) s2)"

definition PinPlacement :: "string \<Rightarrow> string \<Rightarrow> Site \<Rightarrow> Site option" where
  "PinPlacement h peer s =
     (if h = [] \<or> peer = [] then None
      else Some (markWanted h ''pinned'' (if (h, peer) \<in> set (si_pins s) then s else s\<lparr>si_pins := si_pins s @ [(h, peer)]\<rparr>)))"

definition UnpinPlacement :: "string \<Rightarrow> string \<Rightarrow> int \<Rightarrow> Site \<Rightarrow> Site" where
  "UnpinPlacement h peer now s =
     (if (h, peer) \<notin> set (si_pins s) then s
      else recordReleaseIfUnwanted h ''unpinned'' [] now (s\<lparr>si_pins := filter (\<lambda>p. p \<noteq> (h, peer)) (si_pins s)\<rparr>))"

section \<open>Other peers and evidence\<close>

definition Peers :: "Site \<Rightarrow> PeerInfo list" where
  "Peers s = sort_key pi_PeerID (filter (\<lambda>p. \<not> pi_IsSelf p) (si_peers s))"

text \<open>A row of \<^verbatim>\<open>replicas\<close> joined to the peer it names.\<close>

definition Replicas :: "Site \<Rightarrow> string \<Rightarrow> (PeerInfo \<times> ReplicaInfo) list" where
  "Replicas s h =
     concat (map (\<lambda>p. map (\<lambda>r. (p, r)) (filter (\<lambda>r. ri_Hash r = h \<and> ri_PeerID r = pi_PeerID p) (si_replicas s))) (Peers s))"

definition MarkReplicaMissing :: "string \<Rightarrow> string \<Rightarrow> Site \<Rightarrow> Site" where
  "MarkReplicaMissing h peer s =
     (case find (\<lambda>r. ri_Hash r = h \<and> ri_PeerID r = peer) (si_replicas s) of
        None \<Rightarrow> s
      | Some r \<Rightarrow>
          (if ri_State r = ''missing'' then s
           else site_emit (ReplicaMissing h peer (ri_State r))
             (s\<lparr>si_replicas := map (\<lambda>r. if ri_Hash r = h \<and> ri_PeerID r = peer then r\<lparr>ri_State := ''missing'', ri_BytesPresent := 0\<rparr> else r)
                  (si_replicas s)\<rparr>)))"

definition RecordDurability :: "Evidence \<Rightarrow> Site \<Rightarrow> Site option" where
  "RecordDurability e s =
     (if ev_Basis e = BasisReleased \<and> (ev_ReleasedAt e = 0 \<or> ev_UnreferencedSince e = 0) then None
      else Some (s\<lparr>si_evidence := si_evidence s @ [e]\<rparr>))"

definition hasDurabilityEvidence :: "Site \<Rightarrow> string \<Rightarrow> bool" where
  "hasDurabilityEvidence s h = list_ex (\<lambda>e. ev_BlobHash e = h) (si_evidence s)"

section \<open>Reclaiming\<close>

definition DeleteThumbnailsForSource :: "string \<Rightarrow> Site \<Rightarrow> Site" where
  "DeleteThumbnailsForSource h s =
     s\<lparr>si_thumbs := filter (\<lambda>t. tr_Source t \<noteq> h) (si_thumbs s),
       si_events := si_events s @ map (\<lambda>t. ThumbnailDeleted h (tr_Thumb t)) (filter (\<lambda>t. tr_Source t = h) (si_thumbs s))\<rparr>"

definition same_time :: "int \<Rightarrow> int \<Rightarrow> bool" where
  "same_time a b \<longleftrightarrow> a \<noteq> 0 \<and> b \<noteq> 0 \<and> a = b"

definition mark_of :: "Site \<Rightarrow> string \<Rightarrow> int" where
  "mark_of s h = (case find (\<lambda>b. bw_Hash b = h) (si_blobs s) of None \<Rightarrow> 0 | Some b \<Rightarrow> bw_UnreferencedSince b)"

definition released_at :: "Site \<Rightarrow> string \<Rightarrow> int" where
  "released_at s h = (case release_of s h of None \<Rightarrow> 0 | Some r \<Rightarrow> rl_At r)"

definition reached :: "Site \<Rightarrow> string \<Rightarrow> bool" where
  "reached s h \<longleftrightarrow> pinned s h \<or> placed s h \<or> scanned s h \<or> ready_thumb s h"

definition wantedAtReclaim :: "Site \<Rightarrow> string \<Rightarrow> int \<Rightarrow> bool" where
  "wantedAtReclaim s h stamp =
     (case find (\<lambda>e. ev_BlobHash e = h \<and> ev_Basis e = BasisReleased \<and> ev_RecordedAt e = stamp) (rev (si_evidence s)) of
        None \<Rightarrow> reached s h
      | Some e \<Rightarrow> reached s h \<or> \<not> same_time (ev_ReleasedAt e) (released_at s h) \<or> \<not> same_time (ev_UnreferencedSince e) (mark_of s h))"

datatype reclaim_error = ErrWantedAgain string | NoEvidence string | StillReferenced string | BadEvidence string | NegativeGrace

definition Reclaim :: "string \<Rightarrow> int \<Rightarrow> bool \<Rightarrow> int \<Rightarrow> Site \<Rightarrow> reclaim_error option \<times> Site" where
  "Reclaim h sz tracked at s =
     (if tracked then
        (if wantedAtReclaim s h at then
           (Some (ErrWantedAgain h), s\<lparr>si_evidence := filter (\<lambda>e. \<not> (ev_BlobHash e = h \<and> ev_RecordedAt e = at)) (si_evidence s)\<rparr>)
         else if \<not> hasDurabilityEvidence s h then (Some (NoEvidence h), s)
         else if has_row s h \<and> has_asset s h then (Some (StillReferenced h), s)
         else let s1 = DeleteThumbnailsForSource h s
              in if \<not> has_row s h then (None, s1)
                 else (None, site_emit (BlobReclaimed h sz True at)
                        (s1\<lparr>si_blobs := filter (\<lambda>b. bw_Hash b \<noteq> h) (si_blobs s1),
                            si_replicas := filter (\<lambda>r. ri_Hash r \<noteq> h) (si_replicas s1),
                            si_releases := filter (\<lambda>r. rl_Hash r \<noteq> h) (si_releases s1)\<rparr>)))
      else (None, site_emit (BlobReclaimed h sz False at) s))"

definition store_Delete :: "string \<Rightarrow> Site \<Rightarrow> Site" where
  "store_Delete h s = s\<lparr>si_files := filter (\<lambda>f. fr_Hash f \<noteq> h) (si_files s)\<rparr>"

definition GuardUnlink :: "string \<Rightarrow> (Site \<Rightarrow> Site) \<Rightarrow> Site \<Rightarrow> reclaim_error option \<times> Site" where
  "GuardUnlink h unlink s = (if has_row s h \<or> reached s h then (Some (ErrWantedAgain h), s) else (None, unlink s))"

section \<open>Recording a vault blob\<close>

definition adoptBlob :: "string \<Rightarrow> int \<Rightarrow> Site \<Rightarrow> bool \<times> Site" where
  "adoptBlob h sz s =
     (if has_row s h then (False, s)
      else (True, s\<lparr>si_blobs := si_blobs s @ [\<lparr>bw_Hash = h, bw_Size = sz, bw_UnreferencedSince = 0\<rparr>]\<rparr>))"

definition upsert_replica :: "string \<Rightarrow> int \<Rightarrow> string \<Rightarrow> int \<Rightarrow> Site \<Rightarrow> bool \<times> Site" where
  "upsert_replica h sz peer now s =
     (case find (\<lambda>r. ri_Hash r = h \<and> ri_PeerID r = peer) (si_replicas s) of
        None \<Rightarrow> (True, s\<lparr>si_replicas := si_replicas s @
          [\<lparr>ri_Hash = h, ri_PeerID = peer, ri_State = ''present'', ri_BytesPresent = sz, ri_VerifiedAt = now, ri_ReportedAt = 0\<rparr>]\<rparr>)
      | Some r \<Rightarrow>
          (if ri_State r = ''present'' \<and> ri_BytesPresent r = sz then (False, s)
           else (True, s\<lparr>si_replicas := map (\<lambda>r. if ri_Hash r = h \<and> ri_PeerID r = peer
             then r\<lparr>ri_State := ''present'', ri_BytesPresent := sz, ri_VerifiedAt := now\<rparr> else r) (si_replicas s)\<rparr>)))"

datatype vault_error = NoHashOrPeer | ErrBytesGone string | UnknownPeer string

definition RecordVaultBlob :: "string \<Rightarrow> int \<Rightarrow> string \<Rightarrow> (Site \<Rightarrow> bool) option \<Rightarrow> int \<Rightarrow> Site \<Rightarrow> vault_error option \<times> Site" where
  "RecordVaultBlob h sz peer present now s =
     (if h = [] \<or> peer = [] then (Some NoHashOrPeer, s)
      else if (case present of None \<Rightarrow> False | Some p \<Rightarrow> \<not> p s) then (Some (ErrBytesGone h), s)
      else if \<not> list_ex (\<lambda>p. pi_PeerID p = peer) (si_peers s) then (Some (UnknownPeer peer), s)
      else let (adopted, s1) = adoptBlob h sz s;
               s2 = (if adopted then site_emit (BlobCreated h sz) s1 else s1);
               (changed, s3) = upsert_replica h sz peer now s2;
               s4 = (if changed then site_emit (ReplicaPresent h peer sz) s3 else s3);
               s5 = (if (h, peer) \<in> set (si_pins s4) then s4 else s4\<lparr>si_pins := si_pins s4 @ [(h, peer)]\<rparr>)
           in (None, markWanted h ''pinned'' s5))"

text \<open>The check the upload passes as \<^verbatim>\<open>present\<close>: the store still has the bytes, at their size.\<close>

definition store_Has :: "string \<Rightarrow> int \<Rightarrow> Site \<Rightarrow> bool" where
  "store_Has h sz s = list_ex (\<lambda>f. fr_Hash f = h \<and> fr_Size f = sz) (si_files s)"

end
