(* ===== verification/Gc.thy ===== *)
theory Gc
  imports Site
begin

text \<open>
  \<^verbatim>\<open>internal/storagefabric/integrity\<close>: the garbage collector of \<^verbatim>\<open>collect.go\<close> and its deletion gate, \<^verbatim>\<open>gate.go\<close> and
  \<^verbatim>\<open>durability.go\<close>. The catalog and the store are the tables and files of \<open>Site\<close>. Between any two of the
  collector's transactions others may change the site: \<open>ge_world n\<close> is what they do before its n-th transaction. What
  the collector deletes is recorded with the site it deleted it from (\<open>ru_trace\<close>), which the program does not do. A
  failing statement or a cancelled context abandons the sweep where it stands and is left out, and so are the
  sentences shown to the operator.
\<close>

section \<open>Vocabulary\<close>

definition hour :: int where "hour = 3600 * 1000000000"
definition DefaultGrace :: int where "DefaultGrace = 7 * 24 * hour"
definition DefaultTempGrace :: int where "DefaultTempGrace = 24 * hour"
definition DefaultFreshness :: int where "DefaultFreshness = hour"
definition VacuityFloor :: nat where "VacuityFloor = 8"

datatype RefusalReason =
  ReasonNoOtherPeer | ReasonReplicaNotPresent | ReasonStaleInventory | ReasonPeerUnreachable | ReasonUnverifiable | ReasonRemoteLacksBlob
| ReasonDurabilityUnwired | ReasonControllerUnreachable | ReasonWantedAgain | ReasonCatalogVacuous

fun refusal_rank :: "RefusalReason \<Rightarrow> int" where
  "refusal_rank ReasonRemoteLacksBlob = 5"
| "refusal_rank ReasonUnverifiable = 4"
| "refusal_rank ReasonPeerUnreachable = 3"
| "refusal_rank ReasonStaleInventory = 2"
| "refusal_rank ReasonReplicaNotPresent = 1"
| "refusal_rank _ = 0"

datatype Sparing = Sparing (sp_Hash: string) (sp_Size: int) (sp_Reason: RefusalReason) (sp_PeerID: string)

datatype Answer = Holds | PeerLacksBlob | PeerUnreachable | OtherFailure

record Durability =
  du_Controller :: bool
  du_Holds :: "string \<Rightarrow> string \<Rightarrow> Answer"

record GcEnv =
  ge_durability :: "Durability option"
  ge_HonourReleases :: bool
  ge_Freshness :: int
  ge_reaper :: bool
  ge_world :: "nat \<Rightarrow> Site \<Rightarrow> Site"

definition Reachable :: "PeerInfo \<Rightarrow> bool" where "Reachable p \<longleftrightarrow> pi_Health p = ''reachable''"
definition Present :: "ReplicaInfo \<Rightarrow> bool" where "Present r \<longleftrightarrow> ri_State r = ''present''"

definition Fresh :: "ReplicaInfo \<Rightarrow> int \<Rightarrow> int \<Rightarrow> bool" where
  "Fresh r now within = (if ri_ReportedAt r = 0 then False else now - ri_ReportedAt r \<le> within)"

text \<open>What the collector is doing: the site, how many transactions it has made, and its deletions.\<close>

datatype Moment = RowDeleted Evidence | BytesUnlinked Evidence | OrphanUnlinked

record Run =
  ru_site :: Site
  ru_ticks :: nat
  ru_trace :: "(Moment \<times> string \<times> Site) list"

definition pause :: "GcEnv \<Rightarrow> Run \<Rightarrow> Run" where
  "pause env r = r\<lparr>ru_site := ge_world env (ru_ticks r) (ru_site r), ru_ticks := ru_ticks r + 1\<rparr>"

definition note_deletion :: "Moment \<Rightarrow> string \<Rightarrow> Run \<Rightarrow> Run" where
  "note_deletion m h r = r\<lparr>ru_trace := ru_trace r @ [(m, h, ru_site r)]\<rparr>"

section \<open>The gate\<close>

record Gate =
  ga_sole :: bool
  ga_refusals :: "RefusalReason list"

definition gate :: "GcEnv \<Rightarrow> Site \<Rightarrow> Gate" where
  "gate env s =
     (let peers = Peers s; sole = (length peers = 0)
      in case ge_durability env of
           None \<Rightarrow> (if length peers > 0 then \<lparr>ga_sole = sole, ga_refusals = [ReasonDurabilityUnwired]\<rparr> else \<lparr>ga_sole = sole, ga_refusals = []\<rparr>)
         | Some d \<Rightarrow> \<lparr>ga_sole = sole, ga_refusals = (if \<not> du_Controller d then [ReasonControllerUnreachable] else [])\<rparr>)"

text \<open>One claimed replica. It is asked only after the checks of the catalog's beliefs.\<close>

definition check :: "GcEnv \<Rightarrow> Blob \<Rightarrow> PeerInfo \<times> ReplicaInfo \<Rightarrow> int \<Rightarrow> bool \<Rightarrow> Run \<Rightarrow> Sparing option \<times> Run" where
  "check env b pr now app r0 =
     (case pr of (p, r) \<Rightarrow>
        let spare = (\<lambda>reason. Some (Sparing (bl_Hash b) (bl_Size b) reason (pi_PeerID p)))
        in if \<not> Present r then (spare ReasonReplicaNotPresent, r0)
           else if \<not> Fresh r now (ge_Freshness env) then (spare ReasonStaleInventory, r0)
           else if \<not> Reachable p then (spare ReasonPeerUnreachable, r0)
           else case ge_durability env of
                  None \<Rightarrow> (spare ReasonUnverifiable, r0)
                | Some d \<Rightarrow>
                    (case du_Holds d (pi_PeerID p) (bl_Hash b) of
                       Holds \<Rightarrow> (None, r0)
                     | PeerLacksBlob \<Rightarrow>
                         (spare ReasonRemoteLacksBlob,
                          if app then (let r1 = pause env r0 in r1\<lparr>ru_site := MarkReplicaMissing (bl_Hash b) (pi_PeerID p) (ru_site r1)\<rparr>) else r0)
                     | PeerUnreachable \<Rightarrow> (spare ReasonPeerUnreachable, r0)
                     | OtherFailure \<Rightarrow> (spare ReasonUnverifiable, r0)))"

definition remote_evidence :: "Blob \<Rightarrow> PeerInfo \<times> ReplicaInfo \<Rightarrow> int \<Rightarrow> Evidence" where
  "remote_evidence b pr now = (case pr of (p, r) \<Rightarrow>
     \<lparr>ev_BlobHash = bl_Hash b, ev_Size = bl_Size b, ev_Basis = BasisVerifiedRemote, ev_PeerID = pi_PeerID p, ev_PeerName = pi_Name p,
      ev_Endpoint = pi_Endpoint p, ev_ReportedAt = ri_ReportedAt r, ev_VerifiedAt = ri_VerifiedAt r, ev_RecordedAt = now,
      ev_ReleasedAt = 0, ev_UnreferencedSince = 0\<rparr>)"

fun check_all ::
  "GcEnv \<Rightarrow> Blob \<Rightarrow> int \<Rightarrow> bool \<Rightarrow> (PeerInfo \<times> ReplicaInfo) list \<Rightarrow> Sparing option \<Rightarrow> Run \<Rightarrow> (Evidence + Sparing option) \<times> Run" where
  "check_all env b now app [] worst r = (Inr worst, r)"
| "check_all env b now app (pr # prs) worst r =
     (case check env b pr now app r of
        (None, r1) \<Rightarrow> (Inl (remote_evidence b pr now), r1)
      | (Some sp, r1) \<Rightarrow>
          check_all env b now app prs
            (case worst of None \<Rightarrow> Some sp
             | Some wst \<Rightarrow> (if refusal_rank (sp_Reason sp) > refusal_rank (sp_Reason wst) then Some sp else worst)) r1)"

definition plain_evidence :: "Blob \<Rightarrow> Basis \<Rightarrow> int \<Rightarrow> Evidence" where
  "plain_evidence b basis now =
     \<lparr>ev_BlobHash = bl_Hash b, ev_Size = bl_Size b, ev_Basis = basis, ev_PeerID = [], ev_PeerName = [], ev_Endpoint = [],
      ev_ReportedAt = 0, ev_VerifiedAt = 0, ev_RecordedAt = now,
      ev_ReleasedAt = (if basis = BasisReleased then bl_ReleasedAt b else 0),
      ev_UnreferencedSince = (if basis = BasisReleased then bl_UnreferencedSince b else 0)\<rparr>"

definition establish :: "GcEnv \<Rightarrow> Gate \<Rightarrow> Blob \<Rightarrow> int \<Rightarrow> bool \<Rightarrow> Run \<Rightarrow> (Evidence + Sparing) \<times> Run" where
  "establish env g b now app r0 =
     (case ga_refusals g of
        reason # _ \<Rightarrow> (Inr (Sparing (bl_Hash b) (bl_Size b) reason []), r0)
      | [] \<Rightarrow>
          (if ge_HonourReleases env \<and> bl_ReleasedAt b \<noteq> 0 then (Inl (plain_evidence b BasisReleased now), r0)
           else if ga_sole g then (Inl (plain_evidence b BasisSolePeer now), r0)
           else let r1 = pause env r0; replicas = Replicas (ru_site r1) (bl_Hash b)
                in if length replicas = 0 then (Inr (Sparing (bl_Hash b) (bl_Size b) ReasonNoOtherPeer []), r1)
                   else case check_all env b now app (sort_key (pi_PeerID \<circ> fst) replicas) None r1 of
                          (Inl ev, r2) \<Rightarrow> (Inl ev, r2)
                        | (Inr (Some sp), r2) \<Rightarrow> (Inr sp, r2)
                        | (Inr None, r2) \<Rightarrow> (Inr (Sparing (bl_Hash b) (bl_Size b) ReasonNoOtherPeer []), r2)))"

section \<open>Reclaiming\<close>

definition reclaim_tracked :: "GcEnv \<Rightarrow> Evidence \<Rightarrow> string \<Rightarrow> int \<Rightarrow> bool \<Rightarrow> int \<Rightarrow> Run \<Rightarrow> reclaim_error option \<times> Run" where
  "reclaim_tracked env ev h sz released at r0 =
     (let r1 = pause env r0
      in case Reclaim h sz True at (ru_site r1) of
           (Some e, s) \<Rightarrow> (Some e, r1\<lparr>ru_site := s\<rparr>)
         | (None, s) \<Rightarrow>
             (let r2 = pause env ((note_deletion (RowDeleted ev) h r1)\<lparr>ru_site := s\<rparr>)
              in if released then
                   (case GuardUnlink h (store_Delete h) (ru_site r2) of
                      (Some e, s) \<Rightarrow> (Some e, r2\<lparr>ru_site := s\<rparr>)
                    | (None, s) \<Rightarrow> (None, (note_deletion (BytesUnlinked ev) h r2)\<lparr>ru_site := s\<rparr>))
                 else (None, (note_deletion (BytesUnlinked ev) h r2)\<lparr>ru_site := store_Delete h (ru_site r2)\<rparr>)))"

definition reclaim_untracked :: "GcEnv \<Rightarrow> string \<Rightarrow> int \<Rightarrow> int \<Rightarrow> Run \<Rightarrow> Run" where
  "reclaim_untracked env h sz at r0 =
     (let r1 = pause env r0;
          r2 = pause env ((note_deletion OrphanUnlinked h r1)\<lparr>ru_site := store_Delete h (ru_site r1)\<rparr>)
      in r2\<lparr>ru_site := snd (Reclaim h sz False at (ru_site r2))\<rparr>)"

section \<open>The sweep\<close>

datatype Candidate = Candidate (cd_Hash: string) (cd_Size: int) (cd_UnreferencedSince: int) (cd_EligibleAt: int)

record Collection =
  gc_DryRun :: bool
  gc_Grace :: int
  gc_Considered :: nat
  gc_Referenced :: nat
  gc_Marked :: "Candidate list"
  gc_Waiting :: "Candidate list"
  gc_Reclaimed :: "Candidate list"
  gc_Spared :: "Sparing list"
  gc_Refusals :: "RefusalReason list"
  gc_Untracked :: "Candidate list"
  gc_UntrackedSpared :: "Sparing list"
  gc_UntrackedWaiting :: nat
  gc_PinnedUntracked :: "Candidate list"
  gc_TempRemoved :: "(string \<times> int) list"
  gc_BytesReclaimed :: int

record CollectOptions =
  op_Apply :: bool
  op_Grace :: int
  op_TempGrace :: int

definition candidate :: "Blob \<Rightarrow> int \<Rightarrow> int \<Rightarrow> Candidate" where
  "candidate b since grace =
     (if since \<noteq> 0 then Candidate (bl_Hash b) (bl_Size b) since (since + grace) else Candidate (bl_Hash b) (bl_Size b) 0 0)"

text \<open>The loop that sorts the blobs.\<close>

record Sorted =
  so_toMark :: "string list"
  so_toClear :: "string list"
  so_eligible :: "Blob list"
  so_out :: Collection

definition sort_blob :: "int \<Rightarrow> int \<Rightarrow> int \<Rightarrow> Blob \<Rightarrow> Sorted \<Rightarrow> Sorted" where
  "sort_blob now grace cutoff b st =
     (let out = so_out st
      in if bl_References b > 0 then
           st\<lparr>so_out := out\<lparr>gc_Referenced := gc_Referenced out + 1\<rparr>,
              so_toClear := so_toClear st @ (if bl_UnreferencedSince b \<noteq> 0 \<or> bl_ReleasedAt b \<noteq> 0 then [bl_Hash b] else [])\<rparr>
         else if bl_UnreferencedSince b = 0 then
           st\<lparr>so_out := out\<lparr>gc_Marked := gc_Marked out @ [candidate b now grace]\<rparr>, so_toMark := so_toMark st @ [bl_Hash b]\<rparr>
         else if bl_UnreferencedSince b > cutoff then
           st\<lparr>so_out := out\<lparr>gc_Waiting := gc_Waiting out @ [candidate b (bl_UnreferencedSince b) grace]\<rparr>\<rparr>
         else st\<lparr>so_eligible := so_eligible st @ [b]\<rparr>)"

definition empty_collection :: "bool \<Rightarrow> int \<Rightarrow> Collection" where
  "empty_collection app grace =
     \<lparr>gc_DryRun = (\<not> app), gc_Grace = grace, gc_Considered = 0, gc_Referenced = 0, gc_Marked = [], gc_Waiting = [], gc_Reclaimed = [],
      gc_Spared = [], gc_Refusals = [], gc_Untracked = [], gc_UntrackedSpared = [], gc_UntrackedWaiting = 0, gc_PinnedUntracked = [],
      gc_TempRemoved = [], gc_BytesReclaimed = 0\<rparr>"

text \<open>One eligible blob. An error other than \<open>ErrWantedAgain\<close> ends the sweep.\<close>

definition reclaimed :: "Blob \<Rightarrow> int \<Rightarrow> Collection \<Rightarrow> Collection" where
  "reclaimed b grace out =
     out\<lparr>gc_Reclaimed := gc_Reclaimed out @ [candidate b (bl_UnreferencedSince b) grace], gc_BytesReclaimed := gc_BytesReclaimed out + bl_Size b\<rparr>"

definition sweep_blob :: "GcEnv \<Rightarrow> Gate \<Rightarrow> int \<Rightarrow> int \<Rightarrow> bool \<Rightarrow> Blob \<Rightarrow> Collection \<Rightarrow> Run \<Rightarrow> (reclaim_error + Collection) \<times> Run" where
  "sweep_blob env g now grace app b out r0 =
     (case establish env g b now app r0 of
        (Inr sp, r1) \<Rightarrow> (Inr (out\<lparr>gc_Spared := gc_Spared out @ [sp]\<rparr>), r1)
      | (Inl ev, r1) \<Rightarrow>
          (if \<not> app then (Inr (reclaimed b grace out), r1)
           else let r2 = pause env r1
                in case RecordDurability ev (ru_site r2) of
                     None \<Rightarrow> (Inl (BadEvidence (bl_Hash b)), r2)
                   | Some s \<Rightarrow>
                       (case reclaim_tracked env ev (bl_Hash b) (bl_Size b) (ev_Basis ev = BasisReleased) now (r2\<lparr>ru_site := s\<rparr>) of
                          (Some (ErrWantedAgain _), r3) \<Rightarrow>
                            (Inr (out\<lparr>gc_Spared := gc_Spared out @ [Sparing (bl_Hash b) (bl_Size b) ReasonWantedAgain []]\<rparr>), r3)
                        | (Some e, r3) \<Rightarrow> (Inl e, r3)
                        | (None, r3) \<Rightarrow> (Inr (reclaimed b grace out), r3))))"

fun sweep_blobs :: "GcEnv \<Rightarrow> Gate \<Rightarrow> int \<Rightarrow> int \<Rightarrow> bool \<Rightarrow> Blob list \<Rightarrow> Collection \<Rightarrow> Run \<Rightarrow> (reclaim_error + Collection) \<times> Run" where
  "sweep_blobs env g now grace app [] out r = (Inr out, r)"
| "sweep_blobs env g now grace app (b # bs) out r =
     (case sweep_blob env g now grace app b out r of
        (Inl e, r1) \<Rightarrow> (Inl e, r1)
      | (Inr out1, r1) \<Rightarrow> sweep_blobs env g now grace app bs out1 r1)"

section \<open>Bytes without a row\<close>

definition walk_file :: "string set \<Rightarrow> string set \<Rightarrow> int \<Rightarrow> FileRow \<Rightarrow> FileRow list \<times> Collection \<Rightarrow> FileRow list \<times> Collection" where
  "walk_file known selfPinned cutoff d acc =
     (case acc of (candidates, out) \<Rightarrow>
        if fr_Hash d \<in> known then (candidates, out)
        else if fr_Hash d \<in> selfPinned then
          (candidates, out\<lparr>gc_PinnedUntracked := gc_PinnedUntracked out @ [Candidate (fr_Hash d) (fr_Size d) 0 0]\<rparr>)
        else if \<not> fr_ModTime d < cutoff then (candidates, out\<lparr>gc_UntrackedWaiting := gc_UntrackedWaiting out + 1\<rparr>)
        else (candidates @ [d], out))"

definition vacuity :: "Collection \<Rightarrow> nat \<Rightarrow> nat \<Rightarrow> RefusalReason option" where
  "vacuity out untracked walked =
     (if untracked < VacuityFloor then None
      else if gc_Considered out = 0 then Some ReasonCatalogVacuous
      else if untracked * 2 > walked then Some ReasonCatalogVacuous
      else None)"

definition spareAll :: "FileRow list \<Rightarrow> RefusalReason \<Rightarrow> Collection \<Rightarrow> Collection" where
  "spareAll candidates reason out =
     out\<lparr>gc_UntrackedSpared := gc_UntrackedSpared out @ map (\<lambda>d. Sparing (fr_Hash d) (fr_Size d) reason []) candidates\<rparr>"

fun unlink_orphans :: "GcEnv \<Rightarrow> int \<Rightarrow> bool \<Rightarrow> (string \<rightharpoonup> bool) \<Rightarrow> FileRow list \<Rightarrow> Collection \<Rightarrow> Run \<Rightarrow> Collection \<times> Run" where
  "unlink_orphans env now app appeared [] out r = (out, r)"
| "unlink_orphans env now app appeared (d # ds) out r =
     (if appeared (fr_Hash d) = Some True
      then unlink_orphans env now app appeared ds (out\<lparr>gc_UntrackedWaiting := gc_UntrackedWaiting out + 1\<rparr>) r
      else unlink_orphans env now app appeared ds
        (out\<lparr>gc_Untracked := gc_Untracked out @ [Candidate (fr_Hash d) (fr_Size d) 0 0], gc_BytesReclaimed := gc_BytesReclaimed out + fr_Size d\<rparr>)
        (if app then reclaim_untracked env (fr_Hash d) (fr_Size d) now r else r))"

definition collectUntracked :: "GcEnv \<Rightarrow> Gate \<Rightarrow> string set \<Rightarrow> int \<Rightarrow> int \<Rightarrow> bool \<Rightarrow> Collection \<Rightarrow> Run \<Rightarrow> Collection \<times> Run" where
  "collectUntracked env g known cutoff now app out0 r0 =
     (let r1 = pause env r0;
          selfPinned = set (SelfPinnedHashes (ru_site r1));
          r2 = pause env r1;
          files = si_files (ru_site r2);
          walked = length files
      in case fold (walk_file known selfPinned cutoff) files ([], out0) of (candidates, out) \<Rightarrow>
           if length candidates = 0 then (out, r2)
           else case vacuity out (length candidates) walked of
                  Some reason \<Rightarrow> (spareAll candidates reason (out\<lparr>gc_Refusals := gc_Refusals out @ [reason]\<rparr>), r2)
                | None \<Rightarrow>
                    (case ga_refusals g of
                       reason # _ \<Rightarrow> (spareAll candidates reason out, r2)
                     | [] \<Rightarrow> (let r3 = pause env r2
                             in unlink_orphans env now app (Known (ru_site r3) (map fr_Hash candidates)) candidates out r3)))"

definition collect_temp :: "int \<Rightarrow> bool \<Rightarrow> TempFile \<Rightarrow> Collection \<times> Run \<Rightarrow> Collection \<times> Run" where
  "collect_temp cutoff app f acc =
     (case acc of (out, r) \<Rightarrow>
        if \<not> tf_ModTime f < cutoff then (out, r)
        else (out\<lparr>gc_TempRemoved := gc_TempRemoved out @ [(tf_Name f, tf_Size f)], gc_BytesReclaimed := gc_BytesReclaimed out + tf_Size f\<rparr>,
              if app then r\<lparr>ru_site := (ru_site r)\<lparr>si_temps := filter (\<lambda>t. tf_Name t \<noteq> tf_Name f) (si_temps (ru_site r))\<rparr>\<rparr> else r))"

definition collectTemp :: "GcEnv \<Rightarrow> int \<Rightarrow> bool \<Rightarrow> Collection \<Rightarrow> Run \<Rightarrow> Collection \<times> Run" where
  "collectTemp env cutoff app out r0 =
     (if \<not> ge_reaper env then (out, r0)
      else let r1 = pause env r0
           in fold (collect_temp cutoff app) (sort_key tf_Name (si_temps (ru_site r1))) (out, r1))"

text \<open>The sweep up to the gate: what the blobs are, the two passes of marks, and the moment the gate reads the site.\<close>

definition listing :: "GcEnv \<Rightarrow> Run \<Rightarrow> Blob list" where
  "listing env r = Blobs (ru_site (pause env r))"

definition sort_blobs :: "int \<Rightarrow> int \<Rightarrow> bool \<Rightarrow> Blob list \<Rightarrow> Sorted" where
  "sort_blobs now grace app blobs =
     fold (sort_blob now grace (now - grace)) blobs
       \<lparr>so_toMark = [], so_toClear = [], so_eligible = [], so_out = (empty_collection app grace)\<lparr>gc_Considered := length blobs\<rparr>\<rparr>"

definition gate_run :: "GcEnv \<Rightarrow> int \<Rightarrow> bool \<Rightarrow> Sorted \<Rightarrow> Run \<Rightarrow> Run" where
  "gate_run env now app st r1 =
     pause env (if app then
        (let r2 = pause env r1; r3 = pause env (r2\<lparr>ru_site := ClearUnreferenced (so_toClear st) (ru_site r2)\<rparr>)
         in r3\<lparr>ru_site := MarkUnreferenced (so_toMark st) now (ru_site r3)\<rparr>)
      else r1)"

definition grace_of :: "CollectOptions \<Rightarrow> int" where
  "grace_of opts = (if op_Grace opts = 0 then DefaultGrace else op_Grace opts)"

definition tempGrace_of :: "CollectOptions \<Rightarrow> int" where
  "tempGrace_of opts = (if op_TempGrace opts = 0 then DefaultTempGrace else op_TempGrace opts)"

definition Collect :: "GcEnv \<Rightarrow> CollectOptions \<Rightarrow> int \<Rightarrow> Run \<Rightarrow> (reclaim_error + Collection) \<times> Run" where
  "Collect env opts now r0 =
     (let grace = grace_of opts; tempGrace = tempGrace_of opts; app = op_Apply opts
      in if grace < 0 \<or> tempGrace < 0 then (Inl NegativeGrace, r0)
         else let blobs = listing env r0;
                  st = sort_blobs now grace app blobs;
                  r4 = gate_run env now app st (pause env r0);
                  g = gate env (ru_site r4);
                  out = (so_out st)\<lparr>gc_Refusals := gc_Refusals (so_out st) @ ga_refusals g\<rparr>
              in case sweep_blobs env g now grace app (so_eligible st) out r4 of
                   (Inl e, r5) \<Rightarrow> (Inl e, r5)
                 | (Inr out1, r5) \<Rightarrow>
                     (case collectUntracked env g (set (map bl_Hash blobs)) (now - grace) now app out1 r5 of
                        (out2, r6) \<Rightarrow> (case collectTemp env (now - tempGrace) app out2 r6 of (out3, r7) \<Rightarrow> (Inr out3, r7))))"

end
