(* ===== verification/GcSpec.thy ===== *)
theory GcSpec
  imports Gc
begin

text \<open>
  What garbage collection promises: what may be deleted and why, whatever others do to the site in the meantime; that
  a dry run changes nothing; that every blob is accounted for; and the life of a release.
\<close>

section \<open>What authorises a deletion\<close>

definition unwanted :: "Site \<Rightarrow> string \<Rightarrow> bool" where
  "unwanted s h \<longleftrightarrow> \<not> reached s h \<and> (has_row s h \<longrightarrow> \<not> has_asset s h)"

definition authorised :: "GcEnv \<Rightarrow> Gate \<Rightarrow> int \<Rightarrow> Blob \<Rightarrow> Evidence \<Rightarrow> bool" where
  "authorised env g now b ev \<longleftrightarrow>
     ga_refusals g = [] \<and> ev_BlobHash ev = bl_Hash b \<and> ev_RecordedAt ev = now \<and>
     (case ev_Basis ev of
        BasisReleased \<Rightarrow> ge_HonourReleases env \<and> bl_ReleasedAt b \<noteq> 0 \<and> ev_ReleasedAt ev = bl_ReleasedAt b \<and> ev_UnreferencedSince ev = bl_UnreferencedSince b
      | BasisSolePeer \<Rightarrow> ga_sole g
      | BasisVerifiedRemote \<Rightarrow>
          (\<exists>d. ge_durability env = Some d \<and> du_Holds d (ev_PeerID ev) (bl_Hash b) = Holds) \<and>
          ev_ReportedAt ev \<noteq> 0 \<and> now - ev_ReportedAt ev \<le> ge_Freshness env)"

text \<open>The blobs a sweep may reclaim: read unreferenced, marked at least the grace window ago.\<close>

definition ripe :: "int \<Rightarrow> Blob \<Rightarrow> bool" where
  "ripe cutoff b \<longleftrightarrow> bl_References b = 0 \<and> bl_UnreferencedSince b \<noteq> 0 \<and> bl_UnreferencedSince b \<le> cutoff"

text \<open>The world leaves the evidence of this instant alone.\<close>

definition world_ok :: "GcEnv \<Rightarrow> int \<Rightarrow> bool" where
  "world_ok env now \<longleftrightarrow>
     (\<forall>n s. filter (\<lambda>e. ev_RecordedAt e = now) (si_evidence (ge_world env n s)) = filter (\<lambda>e. ev_RecordedAt e = now) (si_evidence s))"

definition deletion_ok :: "GcEnv \<Rightarrow> Gate \<Rightarrow> int \<Rightarrow> int \<Rightarrow> Blob list \<Rightarrow> Moment \<times> string \<times> Site \<Rightarrow> bool" where
  "deletion_ok env g now cutoff blobs d =
     (case d of (m, h, s) \<Rightarrow>
        (case m of
           RowDeleted ev \<Rightarrow> (\<exists>b\<in>set blobs. bl_Hash b = h \<and> ripe cutoff b \<and> authorised env g now b ev) \<and> unwanted s h \<and>
             (ev_Basis ev = BasisReleased \<longrightarrow> released_at s h = ev_ReleasedAt ev \<and> mark_of s h = ev_UnreferencedSince ev)
         | BytesUnlinked ev \<Rightarrow> (\<exists>b\<in>set blobs. bl_Hash b = h \<and> ripe cutoff b \<and> authorised env g now b ev) \<and>
             (ev_Basis ev = BasisReleased \<longrightarrow> \<not> has_row s h \<and> \<not> reached s h)
         | OrphanUnlinked \<Rightarrow> ga_refusals g = [] \<and> h \<notin> set (map bl_Hash blobs)))"

lemma pause_simps [simp]: "ru_trace (pause env r) = ru_trace r" "ru_ticks (pause env r) = ru_ticks r + 1"
  "ru_site (pause env r) = ge_world env (ru_ticks r) (ru_site r)"
  by (simp_all add: pause_def)

lemma note_simps [simp]: "ru_trace (note_deletion m h r) = ru_trace r @ [(m, h, ru_site r)]" "ru_site (note_deletion m h r) = ru_site r"
  "ru_ticks (note_deletion m h r) = ru_ticks r"
  by (simp_all add: note_deletion_def)

lemma check_trace [simp]: "ru_trace (snd (check env b pr now app r)) = ru_trace r"
  by (auto simp: check_def Let_def split: prod.splits option.splits Answer.splits)

lemma check_None:
  assumes "check env b pr now app r = (None, r1)"
  shows "Present (snd pr) \<and> Fresh (snd pr) now (ge_Freshness env) \<and> Reachable (fst pr) \<and>
    (\<exists>d. ge_durability env = Some d \<and> du_Holds d (pi_PeerID (fst pr)) (bl_Hash b) = Holds)"
  using assms by (auto simp: check_def Let_def split: prod.splits option.splits Answer.splits if_splits)

lemma check_all_facts:
  assumes "check_all env b now app prs worst r = (res, r1)"
  shows "ru_trace r1 = ru_trace r \<and> (\<forall>ev. res = Inl ev \<longrightarrow> (\<exists>pr\<in>set prs. ev = remote_evidence b pr now \<and> Fresh (snd pr) now (ge_Freshness env) \<and>
    (\<exists>d. ge_durability env = Some d \<and> du_Holds d (pi_PeerID (fst pr)) (bl_Hash b) = Holds)))"
  using assms
proof (induction prs arbitrary: worst r)
  case (Cons pr prs)
  obtain c r2 where c: "check env b pr now app r = (c, r2)" by fastforce
  have t: "ru_trace r2 = ru_trace r" using check_trace [of env b pr now app r] c by simp
  show ?case
  proof (cases c)
    case None
    then show ?thesis using Cons.prems c t check_None [of env b pr now app r r2] by auto
  next
    case (Some sp)
    then obtain wst where "check_all env b now app prs wst r2 = (res, r1)" using Cons.prems c by (auto split: if_splits)
    from Cons.IH [OF this] t show ?thesis by auto
  qed
qed auto

lemma establish_facts:
  assumes "establish env g b now app r = (res, r1)"
  shows "ru_trace r1 = ru_trace r \<and> (\<forall>ev. res = Inl ev \<longrightarrow> authorised env g now b ev)"
proof -
  consider reason rest where "ga_refusals g = reason # rest" | "ga_refusals g = []" by (cases "ga_refusals g") auto
  then show ?thesis
  proof cases
    case 1
    then show ?thesis using assms by (auto simp: establish_def)
  next
    case 2
    note e = assms [unfolded establish_def 2 list.case]
    show ?thesis
    proof (cases "ge_HonourReleases env \<and> bl_ReleasedAt b \<noteq> 0 \<or> ga_sole g \<or> Replicas (ru_site (pause env r)) (bl_Hash b) = []")
      case True
      then show ?thesis using e 2 by (auto simp: authorised_def plain_evidence_def Let_def split: if_splits)
    next
      case False
      define prs where "prs = sort_key (pi_PeerID \<circ> fst) (Replicas (ru_site (pause env r)) (bl_Hash b))"
      obtain c r2 where c: "check_all env b now app prs None (pause env r) = (c, r2)" by fastforce
      note f = check_all_facts [OF c]
      have e2: "(case c of Inl ev \<Rightarrow> (Inl ev, r2) | Inr None \<Rightarrow> (Inr (Sparing (bl_Hash b) (bl_Size b) ReasonNoOtherPeer []), r2) | Inr (Some sp) \<Rightarrow> (Inr sp, r2)) = (res, r1)"
        using e False c unfolding prs_def by (auto simp: Let_def split: sum.splits option.splits)
      have "authorised env g now b ev" if ev: "c = Inl ev" for ev
      proof -
        obtain pr where "ev = remote_evidence b pr now" "Fresh (snd pr) now (ge_Freshness env)"
            "\<exists>d. ge_durability env = Some d \<and> du_Holds d (pi_PeerID (fst pr)) (bl_Hash b) = Holds"
          using f ev by blast
        then show ?thesis using 2 by (cases pr) (auto simp: authorised_def remote_evidence_def Fresh_def split: if_splits)
      qed
      then show ?thesis using e2 f by (auto split: sum.splits option.splits)
    qed
  qed
qed

text \<open>What a passing \<open>Reclaim\<close> found.\<close>

lemma Reclaim_None:
  assumes "Reclaim h sz True now s = (None, s')"
  shows "unwanted s h \<and> \<not> wantedAtReclaim s h now"
  using assms
  by (auto simp: Reclaim_def unwanted_def wantedAtReclaim_def Let_def split: if_splits option.splits)

lemma find_rev_last:
  assumes "filter P xs = ys @ [e]" and "\<And>x. Q x \<Longrightarrow> P x" and "Q e"
  shows "find Q (rev xs) = Some e"
proof -
  have "find Q zs = (case filter Q zs of [] \<Rightarrow> None | x # _ \<Rightarrow> Some x)" for zs by (induction zs) auto
  moreover have "filter Q xs = filter Q (filter P xs)" using assms(2) by (auto intro: filter_cong)
  ultimately show ?thesis using assms(1,3) by (simp add: rev_filter [symmetric])
qed

section \<open>The trace of a sweep\<close>

text \<open>What every step of the sweep after the gate keeps: the deletions recorded so far are in order.\<close>

abbreviation trace_ok :: "GcEnv \<Rightarrow> Gate \<Rightarrow> int \<Rightarrow> int \<Rightarrow> Blob list \<Rightarrow> Run \<Rightarrow> bool" where
  "trace_ok env g now cutoff blobs r \<equiv> (\<forall>d\<in>set (ru_trace r). deletion_ok env g now cutoff blobs d)"

lemma reclaim_tracked_trace:
  assumes w: "world_ok env now" and rec: "RecordDurability ev s0 = Some s" and r: "ru_site r = s"
    and b: "b \<in> set blobs" "ripe cutoff b" "authorised env g now b ev" and ok: "trace_ok env g now cutoff blobs r"
    and run: "reclaim_tracked env ev (bl_Hash b) (bl_Size b) (ev_Basis ev = BasisReleased) now r = (e, r')"
  shows "trace_ok env g now cutoff blobs r'"
proof -
  define s1 where "s1 = ge_world env (ru_ticks r) s"
  have ev: "ev_RecordedAt ev = now" "ev_BlobHash ev = bl_Hash b" using b(3) by (simp_all add: authorised_def)
  have "filter (\<lambda>e. ev_RecordedAt e = now) (si_evidence s) = filter (\<lambda>e. ev_RecordedAt e = now) (si_evidence s0) @ [ev]"
    using rec ev by (auto simp: RecordDurability_def split: if_splits)
  then have "filter (\<lambda>e. ev_RecordedAt e = now) (si_evidence s1) = filter (\<lambda>e. ev_RecordedAt e = now) (si_evidence s0) @ [ev]"
    using w by (simp add: world_ok_def s1_def)
  then have found: "find (\<lambda>e. ev_BlobHash e = bl_Hash b \<and> ev_Basis e = BasisReleased \<and> ev_RecordedAt e = now) (rev (si_evidence s1)) = Some ev"
    if "ev_Basis ev = BasisReleased"
    using that ev by (intro find_rev_last [where P = "\<lambda>e. ev_RecordedAt e = now"]) auto
  obtain x s2 where R: "Reclaim (bl_Hash b) (bl_Size b) True now s1 = (x, s2)" by fastforce
  show ?thesis
  proof (cases x)
    case None
    note p = Reclaim_None [OF R [unfolded None]]
    have gen: "ev_Basis ev = BasisReleased \<longrightarrow> released_at s1 (bl_Hash b) = ev_ReleasedAt ev \<and> mark_of s1 (bl_Hash b) = ev_UnreferencedSince ev"
      using p found by (auto simp: wantedAtReclaim_def same_time_def)
    have row: "deletion_ok env g now cutoff blobs (RowDeleted ev, bl_Hash b, s1)"
      using b p gen by (auto simp: deletion_ok_def)
    have bytes: "deletion_ok env g now cutoff blobs (BytesUnlinked ev, bl_Hash b, s3)"
      if "ev_Basis ev = BasisReleased \<longrightarrow> \<not> has_row s3 (bl_Hash b) \<and> \<not> reached s3 (bl_Hash b)" for s3
      using b that by (auto simp: deletion_ok_def)
    show ?thesis
      using run ok row bytes R None r
      by (auto simp: reclaim_tracked_def Let_def s1_def GuardUnlink_def split: if_splits)
  next
    case (Some y)
    then show ?thesis using run ok R r by (auto simp: reclaim_tracked_def Let_def s1_def)
  qed
qed

lemma sweep_blob_trace:
  assumes w: "world_ok env now" and b: "b \<in> set blobs" "ripe cutoff b" and ok: "trace_ok env g now cutoff blobs r"
    and run: "sweep_blob env g now grace app b out r = (res, r')"
  shows "trace_ok env g now cutoff blobs r'"
proof -
  obtain e r1 where e: "establish env g b now app r = (e, r1)" by fastforce
  note f = establish_facts [OF e]
  show ?thesis
  proof (cases e)
    case (Inr sp)
    then show ?thesis using run e f ok by (auto simp: sweep_blob_def)
  next
    case (Inl ev)
    note run2 = run [unfolded sweep_blob_def e Inl prod.case sum.case Let_def]
    show ?thesis
    proof (cases "app \<and> RecordDurability ev (ru_site (pause env r1)) \<noteq> None")
      case True
      then obtain s where s: "RecordDurability ev (ru_site (pause env r1)) = Some s" by auto
      obtain x r3 where x: "reclaim_tracked env ev (bl_Hash b) (bl_Size b) (ev_Basis ev = BasisReleased) now ((pause env r1)\<lparr>ru_site := s\<rparr>) = (x, r3)"
        by fastforce
      have "trace_ok env g now cutoff blobs r3"
        using reclaim_tracked_trace [OF w s _ b _ _ x] f ok Inl by simp
      then show ?thesis using run2 True s x by (auto split: option.splits reclaim_error.splits)
    next
      case False
      then show ?thesis using run2 f ok by (auto split: if_splits)
    qed
  qed
qed

lemma sweep_blobs_trace:
  assumes "world_ok env now" and "\<forall>b\<in>set bs. b \<in> set blobs \<and> ripe cutoff b" and "trace_ok env g now cutoff blobs r"
    and "sweep_blobs env g now grace app bs out r = (res, r')"
  shows "trace_ok env g now cutoff blobs r'"
  using assms(2-)
proof (induction bs arbitrary: out r)
  case (Cons b bs)
  obtain x r1 where x: "sweep_blob env g now grace app b out r = (x, r1)" by fastforce
  have "trace_ok env g now cutoff blobs r1"
    using sweep_blob_trace [OF assms(1) _ _ Cons.prems(2) x] Cons.prems(1) by auto
  then show ?case using Cons.IH [of r1] Cons.prems x by (auto split: sum.splits)
qed auto

text \<open>Which blobs the loop over the listing finds eligible.\<close>

lemma sort_blobs_eligible:
  "so_eligible (fold (sort_blob now grace cutoff) bs st) = so_eligible st @ filter (ripe cutoff) bs"
  by (induction bs arbitrary: st) (auto simp: sort_blob_def ripe_def Let_def)

lemma eligible_ripe [simp]: "so_eligible (sort_blobs now grace app blobs) = filter (ripe (now - grace)) blobs"
  by (simp add: sort_blobs_def sort_blobs_eligible)

lemma gate_run_trace [simp]: "ru_trace (gate_run env now app st r) = ru_trace r"
  by (simp add: gate_run_def Let_def)

lemma walk_file_candidates:
  "fst (fold (walk_file known self cutoff) files acc) =
     fst acc @ filter (\<lambda>d. fr_Hash d \<notin> known \<and> fr_Hash d \<notin> self \<and> fr_ModTime d < cutoff) files"
  by (induction files arbitrary: acc) (auto simp: walk_file_def split: prod.splits)

lemma unlink_orphans_trace:
  assumes "trace_ok env g now cutoff blobs r" and "ga_refusals g = []" and "\<forall>d\<in>set ds. fr_Hash d \<notin> set (map bl_Hash blobs)"
  shows "trace_ok env g now cutoff blobs (snd (unlink_orphans env now app ap ds out r))"
  using assms(1,3)
proof (induction ds arbitrary: out r)
  case (Cons d ds)
  have "deletion_ok env g now cutoff blobs (OrphanUnlinked, fr_Hash d, s)" for s
    using Cons.prems(2) assms(2) by (simp add: deletion_ok_def)
  then have "trace_ok env g now cutoff blobs (if app then reclaim_untracked env (fr_Hash d) (fr_Size d) now r else r)"
    using Cons.prems(1) by (auto simp: reclaim_untracked_def Let_def)
  then show ?case using Cons.IH Cons.prems by simp
qed simp

lemma collectUntracked_trace:
  assumes "trace_ok env g now cutoff blobs r"
  shows "trace_ok env g now cutoff blobs (snd (collectUntracked env g (set (map bl_Hash blobs)) cutoff now app out r))"
proof -
  define files where "files = si_files (ru_site (pause env (pause env r)))"
  define self where "self = set (SelfPinnedHashes (ru_site (pause env r)))"
  obtain cs out1 where c: "fold (walk_file (set (map bl_Hash blobs)) self cutoff) files ([], out) = (cs, out1)" by fastforce
  have "\<forall>d\<in>set cs. fr_Hash d \<notin> set (map bl_Hash blobs)"
    using walk_file_candidates [of "set (map bl_Hash blobs)" self cutoff files "([], out)"] c by auto
  then have "trace_ok env g now cutoff blobs (snd (unlink_orphans env now app ap cs out2 (pause env (pause env (pause env r)))))"
    if "ga_refusals g = []" for ap out2
    using unlink_orphans_trace [of "pause env (pause env (pause env r))" env g now cutoff blobs cs app ap out2] assms that by simp
  then show ?thesis
    using assms c unfolding collectUntracked_def files_def self_def
    by (auto simp: Let_def split: option.splits list.splits simp del: pause_simps(3))
qed

lemma collectTemp_trace [simp]: "ru_trace (snd (collectTemp env cutoff app out r)) = ru_trace r"
proof -
  have "ru_trace (snd (fold (collect_temp cutoff app) fs acc)) = ru_trace (snd acc)" for fs acc
    by (induction fs arbitrary: acc) (auto simp: collect_temp_def split: prod.splits)
  then show ?thesis by (simp add: collectTemp_def Let_def)
qed

text \<open>C24: Garbage collection deletes nothing wanted. Whatever others do to the site between any two transactions of a
  sweep (adding assets, pins, placements or rows, releasing, clearing marks), every deletion it makes is in order. A
  row is deleted only when the blob is unreferenced at that instant, was read marked for the whole grace window, and
  the gate has recorded, at this attempt, why it may go: a peer that is fresh enough and answered that it holds it, no
  other peer at all, or a release that is still the row's. The bytes of a released blob are unlinked only if it has
  no row and nothing reaches it at that instant. Bytes without a row are deleted only without a refusal, and only if
  the listing had no row for them.\<close>

theorem gc_safety:
  assumes "world_ok env now" and "ru_trace r = []" and "Collect env opts now r = (res, r')"
    and "d \<in> set (ru_trace r')"
  shows "let blobs = listing env r; st = sort_blobs now (grace_of opts) (op_Apply opts) blobs;
             g = gate env (ru_site (gate_run env now (op_Apply opts) st (pause env r)))
         in deletion_ok env g now (now - grace_of opts) blobs d"
proof -
  define blobs where "blobs = listing env r"
  define st where "st = sort_blobs now (grace_of opts) (op_Apply opts) blobs"
  define r4 where "r4 = gate_run env now (op_Apply opts) st (pause env r)"
  define g where "g = gate env (ru_site r4)"
  define out where "out = (so_out st)\<lparr>gc_Refusals := gc_Refusals (so_out st) @ ga_refusals g\<rparr>"
  obtain x r5 where x: "sweep_blobs env g now (grace_of opts) (op_Apply opts) (so_eligible st) out r4 = (x, r5)" by fastforce
  have "trace_ok env g now (now - grace_of opts) blobs r4" using assms(2) by (simp add: r4_def)
  then have t5: "trace_ok env g now (now - grace_of opts) blobs r5"
    using sweep_blobs_trace [OF assms(1) _ _ x] by (auto simp: st_def)
  have c: "Collect env opts now r = (if grace_of opts < 0 \<or> tempGrace_of opts < 0 then (Inl NegativeGrace, r)
     else case x of Inl e \<Rightarrow> (Inl e, r5)
        | Inr out1 \<Rightarrow> (case collectUntracked env g (set (map bl_Hash blobs)) (now - grace_of opts) now (op_Apply opts) out1 r5 of
            (out2, r6) \<Rightarrow> (case collectTemp env (now - tempGrace_of opts) (op_Apply opts) out2 r6 of (out3, r7) \<Rightarrow> (Inr out3, r7))))"
    using x unfolding Collect_def blobs_def [symmetric] st_def [symmetric] r4_def [symmetric] g_def [symmetric] out_def [symmetric] Let_def
    by (auto split: sum.splits)
  have "trace_ok env g now (now - grace_of opts) blobs r'"
  proof (cases x)
    case (Inl e)
    then show ?thesis using c assms(2,3) t5 by (auto split: if_splits)
  next
    case (Inr out1)
    obtain out2 r6 where u: "collectUntracked env g (set (map bl_Hash blobs)) (now - grace_of opts) now (op_Apply opts) out1 r5 = (out2, r6)"
      by fastforce
    have "trace_ok env g now (now - grace_of opts) blobs r6"
      using collectUntracked_trace [OF t5, of "op_Apply opts" out1] u by simp
    moreover obtain out3 r7 where "collectTemp env (now - tempGrace_of opts) (op_Apply opts) out2 r6 = (out3, r7)" "ru_trace r7 = ru_trace r6"
      using collectTemp_trace [of env "now - tempGrace_of opts" "op_Apply opts" out2 r6] by (metis prod.collapse)
    ultimately show ?thesis using c assms(2,3) u Inr by (auto split: if_splits)
  qed
  then show ?thesis using assms(4) by (simp add: Let_def blobs_def st_def g_def r4_def)
qed

section \<open>A dry run\<close>

definition quiet :: "GcEnv \<Rightarrow> bool" where
  "quiet env \<longleftrightarrow> (\<forall>n s. ge_world env n s = s)"

abbreviation untouched :: "Run \<Rightarrow> Run \<Rightarrow> bool" where
  "untouched r r' \<equiv> ru_site r' = ru_site r \<and> ru_trace r' = ru_trace r"

lemma check_dry:
  "quiet env \<Longrightarrow> untouched r (snd (check env b pr now False r))"
  by (auto simp: check_def Let_def split: prod.splits option.splits Answer.splits)

lemma check_all_dry:
  "quiet env \<Longrightarrow> untouched r (snd (check_all env b now False prs worst r))"
proof (induction prs arbitrary: worst r)
  case (Cons pr prs)
  obtain c r1 where "check env b pr now False r = (c, r1)" by fastforce
  then show ?case using Cons check_dry [OF Cons.prems, where r = r and b = b and pr = pr and now = now] by (auto split: option.splits)
qed simp

lemma establish_dry:
  assumes "quiet env"
  shows "untouched r (snd (establish env g b now False r))"
proof -
  have q: "untouched r (pause env r)" using assms by (simp add: quiet_def)
  show ?thesis
    using q check_all_dry [OF assms, where r = "pause env r" and b = b and now = now and worst = None] unfolding establish_def Let_def
    by (auto split: list.splits prod.splits sum.splits option.splits simp del: pause_simps) (metis snd_conv)+
qed

lemma sweep_blobs_dry:
  assumes "quiet env"
  shows "untouched r (snd (sweep_blobs env g now grace False bs out r)) \<and> \<not> isl (fst (sweep_blobs env g now grace False bs out r))"
proof (induction bs arbitrary: out r)
  case (Cons b bs)
  obtain e r1 where "establish env g b now False r = (e, r1)" by fastforce
  then show ?case using Cons establish_dry [OF assms, where r = r and g = g and b = b and now = now] by (auto simp: sweep_blob_def split: sum.splits)
qed simp

lemma unlink_orphans_dry: "snd (unlink_orphans env now False ap ds out r) = r"
  by (induction ds arbitrary: out) auto

lemma collectUntracked_dry:
  assumes "quiet env"
  shows "untouched r (snd (collectUntracked env g known cutoff now False out r))"
  using assms by (auto simp: collectUntracked_def quiet_def Let_def unlink_orphans_dry split: prod.splits option.splits list.splits)

lemma collectTemp_dry:
  assumes "quiet env"
  shows "untouched r (snd (collectTemp env cutoff False out r))"
proof -
  have "snd (fold (collect_temp cutoff False) fs acc) = snd acc" for fs acc
    by (induction fs arbitrary: acc) (auto simp: collect_temp_def split: prod.splits)
  then show ?thesis using assms by (simp add: collectTemp_def Let_def quiet_def)
qed

text \<open>A dry run deletes nothing and writes nothing. Without \<open>Apply\<close> the site a sweep leaves is the site it found, whatever
  peers answer (a peer found to lack a blob is not even marked so), nothing is deleted, and the only error it can end
  with is the refusal of a negative window.\<close>

theorem gc_dry_run:
  assumes "quiet env" and "\<not> op_Apply opts" and "Collect env opts now r = (res, r')"
  shows "ru_site r' = ru_site r \<and> ru_trace r' = ru_trace r \<and>
    (\<forall>e. res = Inl e \<longrightarrow> e = NegativeGrace \<and> (grace_of opts < 0 \<or> tempGrace_of opts < 0))"
proof -
  define st where "st = sort_blobs now (grace_of opts) False (listing env r)"
  define r4 where "r4 = gate_run env now False st (pause env r)"
  define g where "g = gate env (ru_site r4)"
  define out where "out = (so_out st)\<lparr>gc_Refusals := gc_Refusals (so_out st) @ ga_refusals g\<rparr>"
  obtain x r5 where x: "sweep_blobs env g now (grace_of opts) False (so_eligible st) out r4 = (x, r5)" by fastforce
  have "untouched r r4" using assms(1) by (simp add: r4_def gate_run_def quiet_def)
  moreover have "untouched r4 r5 \<and> \<not> isl x" using sweep_blobs_dry [OF assms(1), where r = r4 and g = g and now = now and grace = "grace_of opts" and bs = "so_eligible st" and out = out] x by simp
  ultimately have u5: "untouched r r5" "\<not> isl x" by simp_all
  then obtain out1 where o1: "x = Inr out1" by (cases x) auto
  obtain out2 r6 where u: "collectUntracked env g (set (map bl_Hash (listing env r))) (now - grace_of opts) now False out1 r5 = (out2, r6)" by fastforce
  obtain out3 r7 where v: "collectTemp env (now - tempGrace_of opts) False out2 r6 = (out3, r7)" by fastforce
  have "untouched r r7"
    using u5(1) collectUntracked_dry [OF assms(1), where r = r5 and g = g and known = "set (map bl_Hash (listing env r))" and cutoff = "now - grace_of opts" and now = now and out = out1]
      collectTemp_dry [OF assms(1), where r = r6 and cutoff = "now - tempGrace_of opts" and out = out2] u v by simp
  moreover have "Collect env opts now r = (if grace_of opts < 0 \<or> tempGrace_of opts < 0 then (Inl NegativeGrace, r) else (Inr out3, r7))"
    using assms(2) x o1 u v unfolding Collect_def st_def [symmetric] Let_def
    by (simp add: r4_def [symmetric] g_def [symmetric] out_def [symmetric] st_def [symmetric])
  ultimately show ?thesis using assms(3) by (auto split: if_splits)
qed

section \<open>Every blob is accounted for\<close>

text \<open>The blobs a sweep has decided, and the bytes it says it freed.\<close>

abbreviation decided :: "Collection \<Rightarrow> nat" where
  "decided out \<equiv> gc_Referenced out + length (gc_Marked out) + length (gc_Waiting out) + length (gc_Reclaimed out) + length (gc_Spared out)"

definition freed :: "Collection \<Rightarrow> int" where
  "freed out = sum_list (map cd_Size (gc_Reclaimed out)) + sum_list (map cd_Size (gc_Untracked out)) + sum_list (map snd (gc_TempRemoved out))"

lemma candidate_size [simp]: "cd_Size (candidate b since grace) = bl_Size b"
  by (simp add: candidate_def)

lemma sort_blobs_account:
  "decided (so_out (fold (sort_blob now grace cutoff) bs st)) + length (so_eligible (fold (sort_blob now grace cutoff) bs st)) =
     decided (so_out st) + length (so_eligible st) + length bs \<and>
   gc_Considered (so_out (fold (sort_blob now grace cutoff) bs st)) = gc_Considered (so_out st) \<and>
   freed (so_out (fold (sort_blob now grace cutoff) bs st)) = freed (so_out st) \<and>
   gc_BytesReclaimed (so_out (fold (sort_blob now grace cutoff) bs st)) = gc_BytesReclaimed (so_out st)"
proof (induction bs arbitrary: st)
  case (Cons b bs)
  have "decided (so_out (sort_blob now grace cutoff b st)) + length (so_eligible (sort_blob now grace cutoff b st)) =
      decided (so_out st) + length (so_eligible st) + 1 \<and>
    gc_Considered (so_out (sort_blob now grace cutoff b st)) = gc_Considered (so_out st) \<and>
    freed (so_out (sort_blob now grace cutoff b st)) = freed (so_out st) \<and>
    gc_BytesReclaimed (so_out (sort_blob now grace cutoff b st)) = gc_BytesReclaimed (so_out st)"
    by (simp add: sort_blob_def Let_def freed_def)
  then show ?case using Cons.IH [of "sort_blob now grace cutoff b st"] by simp
qed simp

lemma sweep_blob_account:
  assumes "sweep_blob env g now grace app b out r = (Inr out', r')"
  shows "decided out' = decided out + 1 \<and> gc_Considered out' = gc_Considered out \<and>
    freed out' - gc_BytesReclaimed out' = freed out - gc_BytesReclaimed out \<and> gc_Untracked out' = gc_Untracked out"
  using assms
  by (auto simp: sweep_blob_def reclaimed_def freed_def Let_def split: prod.splits sum.splits if_splits option.splits reclaim_error.splits)

lemma sweep_blobs_account:
  assumes "sweep_blobs env g now grace app bs out r = (Inr out', r')"
  shows "decided out' = decided out + length bs \<and> gc_Considered out' = gc_Considered out \<and>
    freed out' - gc_BytesReclaimed out' = freed out - gc_BytesReclaimed out \<and> gc_Untracked out' = gc_Untracked out"
  using assms
proof (induction bs arbitrary: out r)
  case (Cons b bs)
  then obtain out1 r1 where "sweep_blob env g now grace app b out r = (Inr out1, r1)" "sweep_blobs env g now grace app bs out1 r1 = (Inr out', r')"
    by (auto split: prod.splits sum.splits)
  then show ?case using sweep_blob_account [of env g now grace app b out r out1 r1] Cons.IH [of out1 r1] by simp
qed simp

text \<open>The counts no later step touches.\<close>

abbreviation same_account :: "Collection \<Rightarrow> Collection \<Rightarrow> bool" where
  "same_account out out' \<equiv> decided out' = decided out \<and> gc_Considered out' = gc_Considered out \<and>
     freed out' - gc_BytesReclaimed out' = freed out - gc_BytesReclaimed out"

lemma walk_account:
  "same_account (snd acc) (snd (fold (walk_file known self cutoff) files acc)) \<and>
   gc_Untracked (snd (fold (walk_file known self cutoff) files acc)) = gc_Untracked (snd acc)"
proof (induction files arbitrary: acc)
  case (Cons f files)
  have "same_account (snd acc) (snd (walk_file known self cutoff f acc)) \<and> gc_Untracked (snd (walk_file known self cutoff f acc)) = gc_Untracked (snd acc)"
    by (simp add: walk_file_def freed_def split: prod.splits)
  then show ?case using Cons.IH [of "walk_file known self cutoff f acc"] by simp
qed simp

lemma unlink_orphans_account:
  "same_account out (fst (unlink_orphans env now app ap ds out r)) \<and>
   length (gc_Untracked (fst (unlink_orphans env now app ap ds out r))) \<le> length (gc_Untracked out) + length ds"
proof (induction ds arbitrary: out r)
  case (Cons d ds)
  let ?w = "out\<lparr>gc_UntrackedWaiting := gc_UntrackedWaiting out + 1\<rparr>"
  let ?u = "out\<lparr>gc_Untracked := gc_Untracked out @ [Candidate (fr_Hash d) (fr_Size d) 0 0], gc_BytesReclaimed := gc_BytesReclaimed out + fr_Size d\<rparr>"
  show ?case using Cons.IH [of ?w r] Cons.IH [of ?u "if app then reclaim_untracked env (fr_Hash d) (fr_Size d) now r else r"]
    by (auto simp: freed_def)
qed simp

text \<open>How a walk over bytes without a row ends: it unlinks none, or the guard let it unlink those it found.\<close>

lemma collectUntracked_cases:
  assumes "collectUntracked env g known cutoff now app out r = (out', r')"
  obtains "same_account out out'" "gc_Untracked out' = gc_Untracked out"
  | cs o1 ap q where "same_account out o1" "gc_Untracked o1 = gc_Untracked out"
      "vacuity o1 (length cs) (length (si_files (ru_site (pause env (pause env r))))) = None"
      "(out', r') = unlink_orphans env now app ap cs o1 q"
proof -
  define files where "files = si_files (ru_site (pause env (pause env r)))"
  define self where "self = set (SelfPinnedHashes (ru_site (pause env r)))"
  define r3 where "r3 = pause env (pause env (pause env r))"
  obtain cs o1 where c: "fold (walk_file known self cutoff) files ([], out) = (cs, o1)" by fastforce
  have w: "same_account out o1" "gc_Untracked o1 = gc_Untracked out"
    using walk_account [where acc = "([], out)" and known = known and self = self and cutoff = cutoff and files = files] c by simp_all
  have e: "collectUntracked env g known cutoff now app out r =
      (if length cs = 0 then (o1, pause env (pause env r))
       else case vacuity o1 (length cs) (length files) of
         Some reason \<Rightarrow> (spareAll cs reason (o1\<lparr>gc_Refusals := gc_Refusals o1 @ [reason]\<rparr>), pause env (pause env r))
       | None \<Rightarrow> (case ga_refusals g of reason # _ \<Rightarrow> (spareAll cs reason o1, pause env (pause env r))
          | [] \<Rightarrow> unlink_orphans env now app (Known (ru_site r3) (map fr_Hash cs)) cs o1 r3))"
    unfolding collectUntracked_def Let_def files_def [symmetric] self_def [symmetric] r3_def [symmetric] c by simp
  show thesis
  proof (cases "length cs = 0 \<or> vacuity o1 (length cs) (length files) \<noteq> None \<or> ga_refusals g \<noteq> []")
    case True
    then have "same_account o1 out' \<and> gc_Untracked out' = gc_Untracked o1"
      using e assms by (auto simp: spareAll_def freed_def split: if_splits option.splits list.splits)
    then show thesis using w that(1) by simp
  next
    case False
    then show thesis using e assms w that(2) [of o1 cs] by (simp add: files_def)
  qed
qed

text \<open>The vacuity guard bounds what a sweep may take for orphans. Eight or more files are unlinked as bytes without a
  row only when the catalog listed at least one blob and they are at most half of the files in the store, so an
  emptied or a wrong catalog does not empty the store.\<close>

theorem gc_vacuity:
  assumes "collectUntracked env g known cutoff now app out r = (out', r')" and "gc_Untracked out = []"
    and "length (gc_Untracked out') \<ge> VacuityFloor"
  shows "gc_Considered out > 0 \<and> 2 * length (gc_Untracked out') \<le> length (si_files (ru_site (pause env (pause env r))))"
  using assms(1)
proof (cases rule: collectUntracked_cases)
  case 1
  then show ?thesis using assms(2,3) by (simp add: VacuityFloor_def)
next
  case (2 cs o1 ap q)
  have "length (gc_Untracked out') \<le> length cs"
    using unlink_orphans_account [where out = o1 and env = env and now = now and app = app and ap = ap and ds = cs and r = q] 2(2,4) assms(2)
    by (metis add_0 fst_conv list.size(3))
  then show ?thesis using 2(1,3) assms(3) by (auto simp: vacuity_def split: if_splits)
qed

text \<open>A sweep accounts for every blob. Each row of the listing is counted once, as referenced, marked, waiting,
  reclaimed or spared, and the bytes a sweep reports are the sizes of what it lists as reclaimed, untracked or
  temporary. This holds for dry runs and applied ones, whatever others do in the meantime.\<close>

theorem gc_accounting:
  assumes "Collect env opts now r = (Inr out, r')"
  shows "gc_Considered out = length (listing env r) \<and>
    gc_Considered out = gc_Referenced out + length (gc_Marked out) + length (gc_Waiting out) + length (gc_Reclaimed out) + length (gc_Spared out) \<and>
    gc_BytesReclaimed out = sum_list (map cd_Size (gc_Reclaimed out)) + sum_list (map cd_Size (gc_Untracked out)) + sum_list (map snd (gc_TempRemoved out))"
proof -
  define st where "st = sort_blobs now (grace_of opts) (op_Apply opts) (listing env r)"
  define r4 where "r4 = gate_run env now (op_Apply opts) st (pause env r)"
  define g where "g = gate env (ru_site r4)"
  define out0 where "out0 = (so_out st)\<lparr>gc_Refusals := gc_Refusals (so_out st) @ ga_refusals g\<rparr>"
  have "\<not> (grace_of opts < 0 \<or> tempGrace_of opts < 0)" using assms by (auto simp: Collect_def Let_def)
  then obtain out1 r5 out2 r6 where
    x: "sweep_blobs env g now (grace_of opts) (op_Apply opts) (so_eligible st) out0 r4 = (Inr out1, r5)" and
    u: "collectUntracked env g (set (map bl_Hash (listing env r))) (now - grace_of opts) now (op_Apply opts) out1 r5 = (out2, r6)" and
    v: "collectTemp env (now - tempGrace_of opts) (op_Apply opts) out2 r6 = (out, r')"
    using assms unfolding Collect_def Let_def st_def [symmetric] r4_def [symmetric] g_def [symmetric] out0_def [symmetric]
    by (auto split: prod.splits sum.splits)
  have a: "decided (so_out st) + length (so_eligible st) = length (listing env r)" "gc_Considered (so_out st) = length (listing env r)"
      "freed (so_out st) = gc_BytesReclaimed (so_out st)"
    using sort_blobs_account [of now "grace_of opts" "now - grace_of opts" "listing env r"
        "\<lparr>so_toMark = [], so_toClear = [], so_eligible = [], so_out = (empty_collection (op_Apply opts) (grace_of opts))\<lparr>gc_Considered := length (listing env r)\<rparr>\<rparr>"]
    by (simp_all add: st_def sort_blobs_def empty_collection_def freed_def)
  have o0: "decided out0 = decided (so_out st)" "gc_Considered out0 = gc_Considered (so_out st)"
      "freed out0 = freed (so_out st)" "gc_BytesReclaimed out0 = gc_BytesReclaimed (so_out st)"
    by (simp_all add: out0_def freed_def)
  have "decided out1 = length (listing env r)" "gc_Considered out1 = length (listing env r)" "freed out1 = gc_BytesReclaimed out1"
    using sweep_blobs_account [OF x] a o0 by simp_all
  moreover have "same_account out1 out2"
    using u
  proof (cases rule: collectUntracked_cases)
    case (2 cs o1 ap q)
    have "out2 = fst (unlink_orphans env now (op_Apply opts) ap cs o1 q)" using 2(4) by (metis fst_conv)
    then show ?thesis using 2(1) unlink_orphans_account [where out = o1 and env = env and now = now and app = "op_Apply opts" and ap = ap and ds = cs and r = q]
      by simp
  qed simp
  moreover have "same_account out2 out"
  proof -
    have "same_account (fst acc) (fst (fold (collect_temp cutoff app) fs acc))" for fs acc cutoff app
    proof (induction fs arbitrary: acc)
      case (Cons f fs)
      have "same_account (fst acc) (fst (collect_temp cutoff app f acc))" by (simp add: collect_temp_def freed_def split: prod.splits)
      then show ?case using Cons.IH [of "collect_temp cutoff app f acc"] by simp
    qed simp
    note t = this
    show ?thesis
    proof (cases "ge_reaper env")
      case True
      then have "out = fst (fold (collect_temp (now - tempGrace_of opts) (op_Apply opts)) (sort_key tf_Name (si_temps (ru_site (pause env r6)))) (out2, pause env r6))"
        using v by (simp add: collectTemp_def Let_def del: pause_simps)
      then show ?thesis using t [where acc = "(out2, pause env r6)"] by simp
    next
      case False
      then show ?thesis using v by (simp add: collectTemp_def)
    qed
  qed
  ultimately show ?thesis by (simp add: freed_def)
qed

section \<open>The properties at work\<close>

text \<open>A released blob, marked for more than a week, and a file without a row.\<close>

definition sample_site :: Site where
  "sample_site =
     \<lparr>si_blobs = [\<lparr>bw_Hash = ''r'', bw_Size = 5, bw_UnreferencedSince = 20\<rparr>], si_assets = [], si_pins = [], si_placements = [], si_scanned = [],
      si_thumbs = [], si_releases = [\<lparr>rl_Hash = ''r'', rl_Cause = ''unpinned'', rl_Source = [], rl_At = 10\<rparr>],
      si_peers = [\<lparr>pi_PeerID = ''p'', pi_Name = ''p'', pi_Endpoint = [], pi_Health = ''reachable'', pi_IsSelf = True\<rparr>], si_replicas = [], si_evidence = [], si_events = [],
      si_files = [\<lparr>fr_Hash = ''r'', fr_Size = 5, fr_ModTime = 1\<rparr>], si_temps = []\<rparr>"

definition sample_env :: "(nat \<Rightarrow> Site \<Rightarrow> Site) \<Rightarrow> GcEnv" where
  "sample_env w = \<lparr>ge_durability = None, ge_HonourReleases = True, ge_Freshness = DefaultFreshness, ge_reaper = False, ge_world = w\<rparr>"

definition sample_opts :: "bool \<Rightarrow> CollectOptions" where
  "sample_opts app = \<lparr>op_Apply = app, op_Grace = 50, op_TempGrace = 0\<rparr>"

definition sample_run :: Run where "sample_run = \<lparr>ru_site = sample_site, ru_ticks = 0, ru_trace = []\<rparr>"

lemma sample_sweep:
  "(case Collect (sample_env (\<lambda>n s. s)) (sample_opts True) 100 sample_run of (res, r) \<Rightarrow>
      map (\<lambda>d. fst (snd d)) (ru_trace r) = [''r'', ''r''] \<and> si_files (ru_site r) = [] \<and> si_blobs (ru_site r) = [])"
  by code_simp

lemma gc_safety_witness:
  "\<exists>d. d \<in> set (ru_trace (snd (Collect (sample_env (\<lambda>n s. s)) (sample_opts True) 100 sample_run))) \<and>
     (let env = sample_env (\<lambda>n s. s); blobs = listing env sample_run; st = sort_blobs 100 (grace_of (sample_opts True)) (op_Apply (sample_opts True)) blobs;
          g = gate env (ru_site (gate_run env 100 (op_Apply (sample_opts True)) st (pause env sample_run)))
      in deletion_ok env g 100 (100 - grace_of (sample_opts True)) blobs d)"
proof -
  obtain res r where c: "Collect (sample_env (\<lambda>n s. s)) (sample_opts True) 100 sample_run = (res, r)" by fastforce
  then have "ru_trace r \<noteq> []" using sample_sweep by auto
  then obtain d where d: "d \<in> set (ru_trace r)" by (cases "ru_trace r") auto
  have w: "world_ok (sample_env (\<lambda>n s. s)) 100" "ru_trace sample_run = []" by (simp_all add: world_ok_def sample_env_def sample_run_def)
  have "d \<in> set (ru_trace (snd (Collect (sample_env (\<lambda>n s. s)) (sample_opts True) 100 sample_run)))" using c d by simp
  then show ?thesis using gc_safety [OF w c d] unfolding Let_def by blast
qed

lemma gc_dry_run_witness:
  "ru_site (snd (Collect (sample_env (\<lambda>n s. s)) (sample_opts False) 100 sample_run)) = sample_site"
proof -
  obtain res r where c: "Collect (sample_env (\<lambda>n s. s)) (sample_opts False) 100 sample_run = (res, r)" by fastforce
  have "quiet (sample_env (\<lambda>n s. s))" "\<not> op_Apply (sample_opts False)" by (simp_all add: quiet_def sample_env_def sample_opts_def)
  from gc_dry_run [OF this c] have "ru_site r = ru_site sample_run" by simp
  then show ?thesis unfolding c by (simp add: sample_run_def)
qed

text \<open>Sixteen files, the catalog knowing half of them.\<close>

definition half_known :: Run where
  "half_known = sample_run\<lparr>ru_site := sample_site\<lparr>si_files := map (\<lambda>n. \<lparr>fr_Hash = replicate n CHR ''a'', fr_Size = 1, fr_ModTime = 1\<rparr>) [0..<16]\<rparr>\<rparr>"

lemma gc_vacuity_witness:
  "length (gc_Untracked (fst (collectUntracked (sample_env (\<lambda>n s. s)) \<lparr>ga_sole = True, ga_refusals = []\<rparr>
      (set (map (\<lambda>n. replicate n CHR ''a'') [0..<8])) 50 100 True ((empty_collection True 50)\<lparr>gc_Considered := 8\<rparr>) half_known))) = 8 \<and>
   2 * (8::nat) \<le> 16"
proof -
  let ?out = "(empty_collection True 50)\<lparr>gc_Considered := 8\<rparr>" and ?env = "sample_env (\<lambda>n s. s)"
  let ?K = "set (map (\<lambda>n. replicate n CHR ''a'') [0..<8])" and ?g = "\<lparr>ga_sole = True, ga_refusals = []\<rparr>"
  obtain o1 r1 where c: "collectUntracked ?env ?g ?K 50 100 True ?out half_known = (o1, r1)" by fastforce
  have e: "length (gc_Untracked (fst (collectUntracked ?env ?g ?K 50 100 True ?out half_known))) = 8" by code_simp
  have "gc_Untracked ?out = []" "VacuityFloor \<le> length (gc_Untracked o1)"
    using e c by (simp_all add: empty_collection_def VacuityFloor_def)
  from gc_vacuity [OF c this] have "2 * length (gc_Untracked o1) \<le> 16"
    by (simp add: half_known_def sample_env_def)
  then show ?thesis using e c by simp
qed

lemma gc_accounting_witness:
  "\<exists>out. fst (Collect (sample_env (\<lambda>n s. s)) (sample_opts True) 100 sample_run) = Inr out \<and> gc_Considered out = 1"
proof -
  have "(case fst (Collect (sample_env (\<lambda>n s. s)) (sample_opts True) 100 sample_run) of Inl _ \<Rightarrow> False | Inr _ \<Rightarrow> True)" by code_simp
  then obtain out r where c: "Collect (sample_env (\<lambda>n s. s)) (sample_opts True) 100 sample_run = (Inr out, r)"
    by (cases "Collect (sample_env (\<lambda>n s. s)) (sample_opts True) 100 sample_run") (auto split: sum.splits)
  have "length (listing (sample_env (\<lambda>n s. s)) sample_run) = 1" by code_simp
  then show ?thesis using gc_accounting [OF c] c by simp
qed

end
