(* ===== verification/Releases.thy ===== *)
theory Releases
  imports GcSpec
begin

text \<open>
  Releases over the life of a site, and what an upload that arrives while the collector is unlinking finds: the
  invariant that ties a release to its grace window, and the window between a row's delete and its bytes'.
\<close>

section \<open>What the operations leave alone\<close>

lemma set_mark_simps [simp]:
  "si_pins (set_mark P t s) = si_pins s" "si_releases (set_mark P t s) = si_releases s" "si_files (set_mark P t s) = si_files s"
  "si_peers (set_mark P t s) = si_peers s"
  "si_blobs (set_mark P t s) = map (\<lambda>b. if P b then b\<lparr>bw_UnreferencedSince := t\<rparr> else b) (si_blobs s)"
  by (simp_all add: set_mark_def)

lemma site_emit_simps [simp]:
  "si_pins (site_emit e s) = si_pins s" "si_releases (site_emit e s) = si_releases s" "si_blobs (site_emit e s) = si_blobs s"
  "si_files (site_emit e s) = si_files s" "si_peers (site_emit e s) = si_peers s"
  by (simp_all add: site_emit_def)

lemma clearRelease_simps [simp]:
  "si_pins (clearRelease h why s) = si_pins s" "si_blobs (clearRelease h why s) = si_blobs s" "si_files (clearRelease h why s) = si_files s"
  "si_releases (clearRelease h why s) = filter (\<lambda>r. rl_Hash r \<noteq> h) (si_releases s)"
  by (auto simp: clearRelease_def list_ex_iff filter_id_conv)

lemma mark_hash [simp]: "bw_Hash (if c then b\<lparr>bw_UnreferencedSince := t\<rparr> else b) = bw_Hash b"
  by simp

lemma has_row_image: "has_row s h \<longleftrightarrow> h \<in> bw_Hash ` set (si_blobs s)"
  by (auto simp: has_row_def list_ex_iff)

section \<open>The invariant\<close>

text \<open>
  A release stands only for a blob no pin wants, it is not from the future, and a mark on its blob is at most \<open>d\<close> older
  than it, where \<open>d\<close> bounds how long before its transaction an operation may have read the clock.
\<close>

definition release_ok :: "int \<Rightarrow> int \<Rightarrow> Site \<Rightarrow> bool" where
  "release_ok d t s \<longleftrightarrow> distinct (map bw_Hash (si_blobs s)) \<and> distinct (map rl_Hash (si_releases s)) \<and>
     (\<forall>b\<in>set (si_blobs s). bw_UnreferencedSince b \<le> t) \<and>
     (\<forall>r\<in>set (si_releases s). rl_At r \<le> t \<and> rl_Hash r \<notin> fst ` set (si_pins s) \<and>
        (\<forall>b\<in>set (si_blobs s). bw_Hash b = rl_Hash r \<longrightarrow> bw_UnreferencedSince b = 0 \<or> rl_At r \<le> bw_UnreferencedSince b + d))"

text \<open>
  The transactions on pins, placements, marks and rows, and the clock. Each is stamped with a time \<open>u\<close> the operation read
  before: a sweep stamps its marks with the time it began (\<^verbatim>\<open>collect.go\<close>), an unpin with the time it was called. The parts
  of the operations that take placements from a sibling, withdraw them (\<^verbatim>\<open>ReplacePlacements\<close>) or purge them
  (\<^verbatim>\<open>retireTakenPlacements\<close>, \<^verbatim>\<open>unpinBlob\<close>) are steps of their own: rows of the other tables may change in any way, and
  releases may be recorded or ended for any blob.
\<close>

inductive site_step :: "int \<Rightarrow> int \<times> Site \<Rightarrow> int \<times> Site \<Rightarrow> bool" for d where
  tick: "t \<le> u \<Longrightarrow> site_step d (t, s) (u, s)"
| marked: "t - d \<le> u \<Longrightarrow> u \<le> t \<Longrightarrow> site_step d (t, s) (t, MarkUnreferenced hashes u s)"
| cleared: "site_step d (t, s) (t, ClearUnreferenced hashes s)"
| pinned_again: "PinPlacement h p s = Some s' \<Longrightarrow> site_step d (t, s) (t, s')"
| unpinned: "u \<le> t \<Longrightarrow> site_step d (t, s) (t, UnpinPlacement h p u s)"
| unpinned_all: "site_step d (t, s) (t, s\<lparr>si_pins := filter (\<lambda>q. fst q \<noteq> h) (si_pins s)\<rparr>)"
| withdrawn: "u \<le> t \<Longrightarrow> site_step d (t, s) (t, recordReleaseIfUnwanted h cause source u s)"
| taken: "site_step d (t, s) (t, markWanted h why s)"
| adopted: "site_step d (t, s) (t, snd (adoptBlob h sz s))"
| elsewhere: "si_blobs s' = si_blobs s \<Longrightarrow> si_pins s' = si_pins s \<Longrightarrow> si_releases s' = si_releases s \<Longrightarrow> site_step d (t, s) (t, s')"
| vault: "site_step d (t, s) (t, snd (RecordVaultBlob h sz p present u s))"
| evidence: "RecordDurability ev s = Some s' \<Longrightarrow> site_step d (t, s) (t, s')"
| lacking: "site_step d (t, s) (t, MarkReplicaMissing h p s)"
| reclaimed: "site_step d (t, s) (t, snd (Reclaim h sz tracked u s))"
| unlinked: "site_step d (t, s) (t, store_Delete h s)"
| guarded: "site_step d (t, s) (t, snd (GuardUnlink h (store_Delete h) s))"

inductive site_reach :: "int \<Rightarrow> int \<Rightarrow> Site \<Rightarrow> int \<times> Site \<Rightarrow> bool" for d t0 s0 where
  start: "site_reach d t0 s0 (t0, s0)"
| step: "site_reach d t0 s0 st \<Longrightarrow> site_step d st st' \<Longrightarrow> site_reach d t0 s0 st'"

lemma release_okD:
  "release_ok d t s \<Longrightarrow> r \<in> set (si_releases s) \<Longrightarrow> rl_Hash r \<notin> fst ` set (si_pins s) \<and> rl_At r \<le> t"
  by (simp add: release_ok_def)

lemma release_ok_mark:
  assumes "release_ok d t s" and "0 \<le> t"
  shows "t - d \<le> u \<Longrightarrow> u \<le> t \<Longrightarrow> release_ok d t (set_mark (\<lambda>b. bw_Hash b = h \<and> bw_UnreferencedSince b = 0) u s)"
    and "release_ok d t (set_mark P 0 s)"
  using assms by (auto simp: release_ok_def o_def)

lemma release_ok_shrink:
  assumes "release_ok d t s" and "set (si_releases s') \<subseteq> set (si_releases s)" and "distinct (map rl_Hash (si_releases s'))"
    and "si_blobs s' = filter P (si_blobs s)" and "set (si_pins s') \<subseteq> set (si_pins s)"
  shows "release_ok d t s'"
proof -
  have "distinct (map bw_Hash (si_blobs s'))" using assms(1,4) by (simp add: release_ok_def distinct_map_filter)
  moreover have "set (si_blobs s') \<subseteq> set (si_blobs s)" using assms(4) by auto
  ultimately show ?thesis using assms(1,2,3,5) unfolding release_ok_def by (meson image_mono in_mono)
qed

lemma release_ok_clear:
  assumes "release_ok d t s"
  shows "release_ok d t (clearRelease h why s)"
  using assms by (intro release_ok_shrink [OF assms, where P = "\<lambda>_. True"]) (auto simp: release_ok_def distinct_map_filter)

lemma release_ok_same:
  "release_ok d t s \<Longrightarrow> si_releases s' = si_releases s \<Longrightarrow> si_blobs s' = si_blobs s \<Longrightarrow> si_pins s' = si_pins s \<Longrightarrow> release_ok d t s'"
  by (simp add: release_ok_def)

lemma release_ok_fold:
  assumes "\<And>h s. release_ok d t s \<Longrightarrow> release_ok d t (f h s)" and "release_ok d t s"
  shows "release_ok d t (fold f hs s)"
  using assms(2) by (induction hs arbitrary: s) (auto intro: assms(1))

text \<open>Marks are reset, and the releases that stay are old ones or of blobs without a mark.\<close>

lemma release_ok_update:
  assumes ok: "release_ok d t s" and "0 \<le> t" and bl: "si_blobs s' = map (\<lambda>b. if P b then b\<lparr>bw_UnreferencedSince := 0\<rparr> else b) (si_blobs s)"
    and d: "distinct (map rl_Hash (si_releases s'))"
    and rel: "\<And>r. r \<in> set (si_releases s') \<Longrightarrow> rl_Hash r \<notin> fst ` set (si_pins s') \<and> rl_At r \<le> t \<and>
      (r \<in> set (si_releases s) \<or> (\<forall>b\<in>set (si_blobs s'). bw_Hash b = rl_Hash r \<longrightarrow> bw_UnreferencedSince b = 0))"
  shows "release_ok d t s'"
proof -
  have "map bw_Hash (si_blobs s') = map bw_Hash (si_blobs s)" using bl by (simp add: o_def)
  moreover have old: "\<exists>b0\<in>set (si_blobs s). bw_Hash b = bw_Hash b0 \<and> (bw_UnreferencedSince b = 0 \<or> bw_UnreferencedSince b = bw_UnreferencedSince b0)"
    if "b \<in> set (si_blobs s')" for b
    using that bl by (auto split: if_splits)
  have "\<forall>b\<in>set (si_blobs s'). bw_UnreferencedSince b \<le> t"
  proof
    fix b assume "b \<in> set (si_blobs s')"
    from old [OF this] show "bw_UnreferencedSince b \<le> t" using ok assms(2) by (auto simp: release_ok_def)
  qed
  moreover have "bw_UnreferencedSince b = 0 \<or> rl_At r \<le> bw_UnreferencedSince b + d"
    if "r \<in> set (si_releases s')" "b \<in> set (si_blobs s')" "bw_Hash b = rl_Hash r" for r b
    using rel [OF that(1)] old [OF that(2)] that ok unfolding release_ok_def by metis
  ultimately show ?thesis using ok d rel unfolding release_ok_def by auto
qed

text \<open>A pin is recorded together with the end of the blob's release.\<close>

lemma markWanted_fields [simp]:
  "si_pins (markWanted h why s) = si_pins s" "si_files (markWanted h why s) = si_files s"
  "si_releases (markWanted h why s) = filter (\<lambda>r. rl_Hash r \<noteq> h) (si_releases s)"
  "si_blobs (markWanted h why s) = map (\<lambda>b. if bw_Hash b = h \<and> bw_UnreferencedSince b \<noteq> 0 then b\<lparr>bw_UnreferencedSince := 0\<rparr> else b) (si_blobs s)"
  by (simp_all add: markWanted_def)

lemma release_ok_pin:
  assumes "release_ok d t s" and "0 \<le> t"
  shows "release_ok d t (markWanted h why (if (h, p) \<in> set (si_pins s) then s else s\<lparr>si_pins := si_pins s @ [(h, p)]\<rparr>))"
proof -
  define s1 where "s1 = (if (h, p) \<in> set (si_pins s) then s else s\<lparr>si_pins := si_pins s @ [(h, p)]\<rparr>)"
  have s1: "si_releases s1 = si_releases s" "si_blobs s1 = si_blobs s" "fst ` set (si_pins s1) \<subseteq> insert h (fst ` set (si_pins s))"
    by (auto simp: s1_def)
  have "distinct (map rl_Hash (si_releases s))" using assms(1) by (simp add: release_ok_def)
  moreover have "rl_Hash r \<notin> fst ` set (si_pins s1) \<and> rl_At r \<le> t" if "r \<in> set (si_releases s)" "rl_Hash r \<noteq> h" for r
    using release_okD [OF assms(1) that(1)] that(2) s1(3) by blast
  ultimately have "release_ok d t (markWanted h why s1)"
    by (intro release_ok_update [OF assms, where P = "\<lambda>b. bw_Hash b = h \<and> bw_UnreferencedSince b \<noteq> 0"])
      (auto simp: s1(1,2) distinct_map_filter)
  then show ?thesis by (simp add: s1_def)
qed

lemma release_ok_adopt:
  assumes "release_ok d t s" and "0 \<le> t"
  shows "release_ok d t (snd (adoptBlob h sz s))"
  using assms by (auto simp: adoptBlob_def release_ok_def has_row_image)

lemma upsert_replica_simps [simp]:
  "si_releases (snd (upsert_replica h sz p u s)) = si_releases s" "si_blobs (snd (upsert_replica h sz p u s)) = si_blobs s"
  "si_pins (snd (upsert_replica h sz p u s)) = si_pins s" "si_files (snd (upsert_replica h sz p u s)) = si_files s"
  by (auto simp: upsert_replica_def split: option.splits)

lemma RecordVaultBlob_ok:
  assumes "release_ok d t s" and "0 \<le> t"
  shows "release_ok d t (snd (RecordVaultBlob h sz p present u s))"
proof -
  obtain a s1 where a: "adoptBlob h sz s = (a, s1)" by fastforce
  define s2 where "s2 = (if a then site_emit (BlobCreated h sz) s1 else s1)"
  obtain c s3 where c: "upsert_replica h sz p u s2 = (c, s3)" by fastforce
  define s4 where "s4 = (if c then site_emit (ReplicaPresent h p sz) s3 else s3)"
  have "release_ok d t s1" using release_ok_adopt [OF assms, of h sz] a by simp
  then have "release_ok d t s4"
    using upsert_replica_simps [of h sz p u s2] unfolding c by (intro release_ok_same [of d t s1 s4]) (auto simp: s2_def s4_def)
  from release_ok_pin [OF this assms(2), of h "''pinned''" p] show ?thesis
    using assms(1) unfolding RecordVaultBlob_def a prod.case Let_def s2_def [symmetric] c s4_def [symmetric] by simp
qed

lemma recordRelease_ok:
  assumes "release_ok d t s" and "0 \<le> t" and "u \<le> t"
  shows "release_ok d t (recordReleaseIfUnwanted h cause source u s)"
proof (cases "pinned s h \<or> placed s h \<or> has_asset s h \<or> scanned s h")
  case True
  then show ?thesis using assms by (auto simp: recordReleaseIfUnwanted_def)
next
  case False
  let ?s = "recordReleaseIfUnwanted h cause source u s"
  define row where "row = \<lparr>rl_Hash = h, rl_Cause = cause, rl_Source = source, rl_At = u\<rparr>"
  have m: "map rl_Hash (map (\<lambda>r. if rl_Hash r = h then row else r) rs) = map rl_Hash rs" for rs
    by (induction rs) (auto simp: row_def)
  have rel: "si_releases ?s = (if list_ex (\<lambda>r. rl_Hash r = h) (si_releases s)
      then map (\<lambda>r. if rl_Hash r = h then row else r) (si_releases s) else si_releases s @ [row])"
    using False by (simp add: recordReleaseIfUnwanted_def Let_def row_def)
  have other: "si_pins ?s = si_pins s"
      "si_blobs ?s = map (\<lambda>b. if bw_Hash b = h \<and> bw_UnreferencedSince b \<noteq> 0 then b\<lparr>bw_UnreferencedSince := 0\<rparr> else b) (si_blobs s)"
    using False by (simp_all add: recordReleaseIfUnwanted_def Let_def)
  have fresh: "h \<notin> fst ` set (si_pins s)" using False by (auto simp: pinned_def list_ex_iff)
  have old: "r = row \<or> r \<in> set (si_releases s)" if "r \<in> set (si_releases ?s)" for r
    using that unfolding rel by (auto split: if_splits)
  have d: "distinct (map rl_Hash (si_releases ?s))"
  proof (cases "list_ex (\<lambda>r. rl_Hash r = h) (si_releases s)")
    case True
    then have "map rl_Hash (si_releases ?s) = map rl_Hash (si_releases s)" unfolding rel if_P [OF True] m by simp
    moreover have "distinct (map rl_Hash (si_releases s))" using assms(1) by (simp add: release_ok_def)
    ultimately show ?thesis by (rule ssubst)
  next
    case False
    then have new: "h \<notin> set (map rl_Hash (si_releases s))" by (auto simp: list_ex_iff)
    have "map rl_Hash (si_releases ?s) = map rl_Hash (si_releases s) @ [h]" unfolding rel if_not_P [OF False] by (simp add: row_def)
    moreover have "distinct (map rl_Hash (si_releases s))" using assms(1) by (simp add: release_ok_def)
    ultimately show ?thesis using new by simp
  qed
  have z: "\<forall>b\<in>set (si_blobs ?s). bw_Hash b = rl_Hash row \<longrightarrow> bw_UnreferencedSince b = 0" 
  proof
    fix b assume "b \<in> set (si_blobs ?s)"
    then obtain b0 where "b = (if bw_Hash b0 = h \<and> bw_UnreferencedSince b0 \<noteq> 0 then b0\<lparr>bw_UnreferencedSince := 0\<rparr> else b0)"
      unfolding other(2) set_map image_iff by blast
    then show "bw_Hash b = rl_Hash row \<longrightarrow> bw_UnreferencedSince b = 0" by (auto simp: row_def)
  qed
  have r0: "rl_Hash row \<notin> fst ` set (si_pins ?s) \<and> rl_At row \<le> t" unfolding other(1) using fresh assms(3) by (simp add: row_def)
  show ?thesis
  proof (rule release_ok_update [OF assms(1,2) other(2) d])
    fix r assume "r \<in> set (si_releases ?s)"
    from old [OF this] show "rl_Hash r \<notin> fst ` set (si_pins ?s) \<and> rl_At r \<le> t \<and>
        (r \<in> set (si_releases s) \<or> (\<forall>b\<in>set (si_blobs ?s). bw_Hash b = rl_Hash r \<longrightarrow> bw_UnreferencedSince b = 0))"
    proof
      assume "r = row"
      then show ?thesis using r0 z by blast
    next
      assume "r \<in> set (si_releases s)"
      then show ?thesis using release_okD [OF assms(1)] other(1) by simp
    qed
  qed
qed

lemma UnpinPlacement_ok:
  assumes "release_ok d t s" and "0 \<le> t" and "u \<le> t"
  shows "release_ok d t (UnpinPlacement h p u s)"
proof -
  have "release_ok d t (s\<lparr>si_pins := filter (\<lambda>q. q \<noteq> (h, p)) (si_pins s)\<rparr>)" using assms(1) by (auto simp: release_ok_def)
  from recordRelease_ok [OF this assms(2,3)] show ?thesis using assms(1) by (simp add: UnpinPlacement_def)
qed

lemma Reclaim_ok:
  assumes "release_ok d t s"
  shows "release_ok d t (snd (Reclaim h sz tracked u s))"
proof -
  have "release_ok d t (s\<lparr>si_thumbs := x, si_events := y, si_blobs := filter (\<lambda>b. bw_Hash b \<noteq> h) (si_blobs s),
      si_replicas := z, si_releases := filter (\<lambda>r. rl_Hash r \<noteq> h) (si_releases s)\<rparr>)" for x y z
    using assms by (intro release_ok_shrink [OF assms, where P = "\<lambda>b. bw_Hash b \<noteq> h"]) (auto simp: release_ok_def distinct_map_filter)
  moreover have "release_ok d t (s\<lparr>si_thumbs := x, si_events := y\<rparr>)" "release_ok d t (s\<lparr>si_evidence := w\<rparr>)" for x y w
    using assms by (simp_all add: release_ok_def)
  ultimately show ?thesis
    using assms by (auto simp: Reclaim_def DeleteThumbnailsForSource_def Let_def site_emit_def release_ok_def)
qed

lemma site_step_ok:
  assumes "site_step d st st'" and "release_ok d (fst st) (snd st)" and "0 \<le> fst st"
  shows "release_ok d (fst st') (snd st') \<and> 0 \<le> fst st'"
  using assms
proof (induction rule: site_step.induct)
  case (tick t u s)
  then show ?case by (force simp: release_ok_def)
next
  case (marked t u s hashes)
  then show ?case by (auto simp: MarkUnreferenced_def intro!: release_ok_fold release_ok_mark)
next
  case (cleared t s hashes)
  then show ?case by (auto simp: ClearUnreferenced_def intro!: release_ok_fold release_ok_clear release_ok_mark(2))
next
  case (pinned_again h p s s' t)
  then show ?case using release_ok_pin [of d t s h "''pinned''" p] by (auto simp: PinPlacement_def split: if_splits)
next
  case (unpinned_all t s h)
  then show ?case by (auto simp: release_ok_def)
next
  case (taken t s h why)
  then show ?case by (auto simp: markWanted_def intro!: release_ok_clear release_ok_mark(2))
next
  case (elsewhere s' s t)
  then show ?case by (auto intro: release_ok_same)
next
  case (evidence ev s s' t)
  then show ?case by (auto simp: RecordDurability_def split: if_splits intro: release_ok_same)
next
  case (lacking t s h p)
  then show ?case by (auto simp: MarkReplicaMissing_def split: option.splits intro: release_ok_same)
next
  case (unlinked t s h)
  then show ?case by (auto simp: store_Delete_def intro: release_ok_same)
next
  case (guarded t s h)
  then show ?case by (auto simp: GuardUnlink_def store_Delete_def intro: release_ok_same)
qed (simp_all add: UnpinPlacement_ok recordRelease_ok release_ok_adopt RecordVaultBlob_ok Reclaim_ok)

text \<open>C25: A release is honoured only after its own window, short of the time a sweep takes to write its marks. On a site that
  starts with no release, whatever transactions of sweeps, pins, unpins, uploads, placements, reclaims and library changes
  follow on a clock that does not go back, when a sweep writes its marks at most \<open>d\<close> after it began: a released blob is
  pinned nowhere, the release is not from the future, and a blob marked for the grace window has been released for
  that window less \<open>d\<close>.\<close>

theorem release_window:
  assumes "site_reach d t0 s0 (t, s)" and "0 \<le> t0" and "si_releases s0 = []" and "distinct (map bw_Hash (si_blobs s0))"
    and "\<forall>b\<in>set (si_blobs s0). bw_UnreferencedSince b \<le> t0" and "release_of s h = Some r"
  shows "\<not> pinned s h \<and> rl_At r \<le> t \<and> (\<forall>grace. mark_of s h \<noteq> 0 \<and> mark_of s h \<le> t - grace \<longrightarrow> rl_At r \<le> t - grace + d)"
proof -
  have "release_ok d (fst st) (snd st) \<and> 0 \<le> fst st" if "site_reach d t0 s0 st" for st
    using that
  proof (induction rule: site_reach.induct)
    case start
    then show ?case using assms(2-5) by (simp add: release_ok_def)
  next
    case (step st st')
    then show ?case using site_step_ok by blast
  qed
  then have ok: "release_ok d t s" using assms(1) by fastforce
  have r: "r \<in> set (si_releases s)" "rl_Hash r = h" using assms(6) by (auto simp: release_of_def find_Some_iff)
  have "mark_of s h = 0 \<or> rl_At r \<le> mark_of s h + d"
  proof (cases "find (\<lambda>b. bw_Hash b = h) (si_blobs s)")
    case None
    then show ?thesis by (simp add: mark_of_def)
  next
    case (Some b)
    then have "b \<in> set (si_blobs s)" "bw_Hash b = h" by (auto simp: find_Some_iff)
    then show ?thesis using ok r Some by (auto simp: release_ok_def mark_of_def)
  qed
  moreover have "\<not> pinned s h" using ok r by (force simp: release_ok_def pinned_def list_ex_iff)
  ultimately show ?thesis using ok r by (fastforce simp: release_ok_def)
qed

text \<open>A pin, its end a tick later, and a mark after that.\<close>

lemma release_window_witness:
  "let s0 = sample_site\<lparr>si_releases := []\<rparr>; s1 = UnpinPlacement ''r'' ''q'' 30 (the (PinPlacement ''r'' ''q'' s0)); s2 = MarkUnreferenced [''r''] 40 s1
   in site_reach 0 20 s0 (90, s2) \<and> (\<exists>r. release_of s2 ''r'' = Some r \<and> mark_of s2 ''r'' = 40 \<and> rl_At r \<le> 90 - 50)"
proof -
  define s0 where "s0 = sample_site\<lparr>si_releases := []\<rparr>"
  define s1 where "s1 = UnpinPlacement ''r'' ''q'' 30 (the (PinPlacement ''r'' ''q'' s0))"
  define s2 where "s2 = MarkUnreferenced [''r''] 40 s1"
  have p: "PinPlacement ''r'' ''q'' s0 = Some (the (PinPlacement ''r'' ''q'' s0))" by (simp add: PinPlacement_def)
  have "site_reach 0 20 s0 (20, the (PinPlacement ''r'' ''q'' s0))"
    using site_reach.start pinned_again [OF p] by (rule site_reach.step)
  then have "site_reach 0 20 s0 (30, the (PinPlacement ''r'' ''q'' s0))" by (rule site_reach.step) (simp add: tick)
  then have "site_reach 0 20 s0 (30, s1)" unfolding s1_def by (rule site_reach.step) (simp add: unpinned)
  then have "site_reach 0 20 s0 (40, s1)" by (rule site_reach.step) (simp add: tick)
  then have "site_reach 0 20 s0 (40, s2)" unfolding s2_def by (rule site_reach.step) (simp add: marked)
  then have reach: "site_reach 0 20 s0 (90, s2)" by (rule site_reach.step) (simp add: tick)
  have m: "mark_of s2 ''r'' = 40" "release_of s2 ''r'' \<noteq> None" unfolding s2_def s1_def s0_def by code_simp+
  then obtain r where r: "release_of s2 ''r'' = Some r" by auto
  have z: "si_releases s0 = []" "distinct (map bw_Hash (si_blobs s0))" "\<forall>b\<in>set (si_blobs s0). bw_UnreferencedSince b \<le> 20"
    by (simp_all add: s0_def sample_site_def)
  from release_window [OF reach _ z r] have "mark_of s2 ''r'' \<noteq> 0 \<and> mark_of s2 ''r'' \<le> 90 - 50 \<longrightarrow> rl_At r \<le> 90 - 50 + 0"
    by (metis zero_le_numeral)
  then show ?thesis unfolding Let_def s0_def [symmetric] s1_def [symmetric] s2_def [symmetric] using reach m r by simp
qed

section \<open>A release during a sweep\<close>

lemma MarkUnreferenced_simps [simp]:
  "si_pins (MarkUnreferenced hs u s) = si_pins s" "si_releases (MarkUnreferenced hs u s) = si_releases s"
  "si_assets (MarkUnreferenced hs u s) = si_assets s" "si_placements (MarkUnreferenced hs u s) = si_placements s"
  "si_scanned (MarkUnreferenced hs u s) = si_scanned s" "si_thumbs (MarkUnreferenced hs u s) = si_thumbs s"
  "si_evidence (MarkUnreferenced hs u s) = si_evidence s"
  by (induction hs arbitrary: s) (simp_all add: MarkUnreferenced_def set_mark_def)

lemma MarkUnreferenced_blobs:
  assumes "u \<noteq> 0"
  shows "si_blobs (MarkUnreferenced hs u s) =
    map (\<lambda>b. if bw_Hash b \<in> set hs \<and> bw_UnreferencedSince b = 0 then b\<lparr>bw_UnreferencedSince := u\<rparr> else b) (si_blobs s)"
proof (induction hs arbitrary: s)
  case (Cons h hs)
  have "MarkUnreferenced (h # hs) u s = MarkUnreferenced hs u (set_mark (\<lambda>b. bw_Hash b = h \<and> bw_UnreferencedSince b = 0) u s)"
    by (simp add: MarkUnreferenced_def)
  then show ?case using assms by (simp add: Cons.IH o_def)
qed (simp add: MarkUnreferenced_def)

text \<open>The end of the last pin of a blob nothing else wants.\<close>

lemma UnpinPlacement_last:
  assumes "(h, p) \<in> set (si_pins s)" and "\<forall>q\<in>set (si_pins s). fst q = h \<longrightarrow> q = (h, p)"
    and "\<not> placed s h" and "\<not> has_asset s h" and "\<not> scanned s h" and s1: "s1 = UnpinPlacement h p v s"
  shows "si_blobs s1 = map (\<lambda>b. if bw_Hash b = h \<and> bw_UnreferencedSince b \<noteq> 0 then b\<lparr>bw_UnreferencedSince := 0\<rparr> else b) (si_blobs s)"
    and "released_at s1 h = v" and "\<not> pinned s1 h" and "si_assets s1 = si_assets s" and "si_placements s1 = si_placements s"
    and "si_scanned s1 = si_scanned s" and "si_thumbs s1 = si_thumbs s" and "si_evidence s1 = si_evidence s"
proof -
  let ?s = "s\<lparr>si_pins := filter (\<lambda>q. q \<noteq> (h, p)) (si_pins s)\<rparr>"
  have n: "\<not> (pinned ?s h \<or> placed ?s h \<or> has_asset ?s h \<or> scanned ?s h)"
    using assms(2-5) by (auto simp: pinned_def placed_def has_asset_def scanned_def list_ex_iff)
  then have e: "s1 = recordReleaseIfUnwanted h ''unpinned'' [] v ?s" using assms(1) s1 by (simp add: UnpinPlacement_def)
  show "si_blobs s1 = map (\<lambda>b. if bw_Hash b = h \<and> bw_UnreferencedSince b \<noteq> 0 then b\<lparr>bw_UnreferencedSince := 0\<rparr> else b) (si_blobs s)"
    "si_assets s1 = si_assets s" "si_placements s1 = si_placements s" "si_scanned s1 = si_scanned s" "si_thumbs s1 = si_thumbs s"
    "si_evidence s1 = si_evidence s"
    using n unfolding e by (simp_all add: recordReleaseIfUnwanted_def Let_def site_emit_def set_mark_def)
  show "\<not> pinned s1 h" using n unfolding e by (simp add: recordReleaseIfUnwanted_def Let_def pinned_def)
  have new: "find (\<lambda>r. rl_Hash r = h) (map (\<lambda>r. if rl_Hash r = h then row else r) rs) = Some row"
    if "rl_Hash row = h" "list_ex (\<lambda>r. rl_Hash r = h) rs" for row rs using that by (induction rs) auto
  have add: "find (\<lambda>r. rl_Hash r = h) (rs @ [row]) = Some row"
    if "rl_Hash row = h" "\<not> list_ex (\<lambda>r. rl_Hash r = h) rs" for row rs using that by (induction rs) auto
  show "released_at s1 h = v"
    using n unfolding e by (simp add: recordReleaseIfUnwanted_def Let_def released_at_def release_of_def new add)
qed

text \<open>The \<open>d\<close> of \<open>release_window\<close> is real: a release made while a sweep runs is honoured too early. When the last pin of a blob ends at \<open>v\<close>, and then a sweep that
  began at \<open>u\<close>, before that, writes its marks, the blob is marked with \<open>u\<close>. The sweep that begins one grace window after \<open>u\<close>
  finds it eligible, decides on the basis of the release, passes the check of the reclaim and the guard of the unlink, and
  deletes the last copy of a blob that was released for less than the window.\<close>

theorem released_early:
  assumes "distinct (map bw_Hash (si_blobs s))" and "has_row s h" and "(h, p) \<in> set (si_pins s)"
    and "\<forall>q\<in>set (si_pins s). fst q = h \<longrightarrow> q = (h, p)"
    and "\<not> placed s h" and "\<not> has_asset s h" and "\<not> scanned s h" and "\<not> ready_thumb s h"
    and "0 < u" and "u < v" and "h \<in> set hs" and "s2 = MarkUnreferenced hs u (UnpinPlacement h p v s)"
  shows "\<exists>b\<in>set (so_eligible (sort_blobs (u + grace) grace app (Blobs s2))).
    bl_Hash b = h \<and> bl_ReleasedAt b = v \<and> u + grace - bl_ReleasedAt b < grace \<and>
    (ga_refusals g = [] \<and> ge_HonourReleases env \<longrightarrow>
       establish env g b (u + grace) app r = (Inl (plain_evidence b BasisReleased (u + grace)), r)) \<and>
    (\<exists>s3 s4. RecordDurability (plain_evidence b BasisReleased (u + grace)) s2 = Some s3 \<and>
       Reclaim h (bl_Size b) True (u + grace) s3 = (None, s4) \<and> \<not> has_row s4 h \<and>
       GuardUnlink h (store_Delete h) s4 = (None, store_Delete h s4))"
proof -
  define s1 where "s1 = UnpinPlacement h p v s"
  note un = UnpinPlacement_last [OF assms(3-7) s1_def]
  have s2: "s2 = MarkUnreferenced hs u s1" using assms(12) by (simp add: s1_def)
  have bl: "si_blobs s2 = map (\<lambda>b. if bw_Hash b \<in> set hs \<and> bw_UnreferencedSince b = 0 then b\<lparr>bw_UnreferencedSince := u\<rparr> else b) (si_blobs s1)"
    unfolding s2 using assms(9) by (intro MarkUnreferenced_blobs) simp
  obtain b0 where b0: "b0 \<in> set (si_blobs s)" "bw_Hash b0 = h" using assms(2) by (auto simp: has_row_image)
  define row where "row = \<lparr>bw_Hash = h, bw_Size = bw_Size b0, bw_UnreferencedSince = u\<rparr>"
  have "b0\<lparr>bw_UnreferencedSince := 0\<rparr> \<in> set (si_blobs s1)"
    unfolding un(1) set_map by (rule rev_image_eqI [OF b0(1)]) (use b0(2) in \<open>cases b0; simp\<close>)
  then have "(b0\<lparr>bw_UnreferencedSince := 0\<rparr>)\<lparr>bw_UnreferencedSince := u\<rparr> \<in> set (si_blobs s2)"
    unfolding bl set_map by (rule rev_image_eqI) (use b0(2) assms(11) in simp)
  then have row: "row \<in> set (si_blobs s2)" using b0(2) by (cases b0) (simp add: row_def)
  have "map bw_Hash (si_blobs s2) = map bw_Hash (si_blobs s)" unfolding bl un(1) by (simp add: o_def)
  then have d: "distinct (map bw_Hash (si_blobs s2))" using assms(1) by simp
  have "find (\<lambda>b. bw_Hash b = h) bs = Some row" if "row \<in> set bs" "distinct (map bw_Hash bs)" for bs
    using that by (induction bs) (auto simp: row_def image_iff)
  then have f: "find (\<lambda>b. bw_Hash b = h) (si_blobs s2) = Some row" using row d by blast
  have free: "\<not> pinned s2 h" "\<not> placed s2 h" "\<not> scanned s2 h" "\<not> ready_thumb s2 h" "\<not> has_asset s2 h"
    using un(3-7) assms(5-8) by (simp_all add: s2 pinned_def placed_def scanned_def ready_thumb_def has_asset_def)
  have rel: "released_at s2 h = v" using un(2) by (simp add: s2 released_at_def release_of_def)
  then obtain r0 where r0: "release_of s2 h = Some r0" "rl_At r0 = v" using assms(9,10) by (auto simp: released_at_def split: option.splits)
  let ?b = "scanBlob s2 row"
  have "references s2 h = 0" using free by (auto simp: references_def filter_empty_conv pinned_def placed_def ready_thumb_def has_asset_def list_ex_iff)
  then have b: "bl_Hash ?b = h" "bl_ReleasedAt ?b = v" "bl_UnreferencedSince ?b = u" "bl_References ?b = 0" "bl_Size ?b = bw_Size b0"
    using free(3) r0 by (simp_all add: scanBlob_def row_def)
  have "?b \<in> set (Blobs s2)" using row by (auto simp: Blobs_def)
  then have elig: "?b \<in> set (so_eligible (sort_blobs (u + grace) grace app (Blobs s2)))"
    using b(3,4) assms(9) by (simp add: ripe_def)
  have est: "establish env g ?b (u + grace) app r = (Inl (plain_evidence ?b BasisReleased (u + grace)), r)"
    if "ga_refusals g = [] \<and> ge_HonourReleases env" using that b(2) assms(9,10) by (simp add: establish_def)
  let ?e = "plain_evidence ?b BasisReleased (u + grace)"
  define s3 where "s3 = s2\<lparr>si_evidence := si_evidence s2 @ [?e]\<rparr>"
  have rd: "RecordDurability ?e s2 = Some s3" using b(2,3) assms(9,10) by (simp add: RecordDurability_def plain_evidence_def s3_def)
  have m: "mark_of s3 h = u" "released_at s3 h = v" "has_row s3 h" "\<not> has_asset s3 h"
    using f rel free(5) row by (auto simp: s3_def mark_of_def row_def released_at_def release_of_def has_row_image has_asset_def intro: rev_image_eqI)
  have nr: "\<not> reached s3 h" using free by (simp add: s3_def reached_def pinned_def placed_def scanned_def ready_thumb_def)
  have "find (\<lambda>e. ev_BlobHash e = h \<and> ev_Basis e = BasisReleased \<and> ev_RecordedAt e = u + grace) (rev (si_evidence s3)) = Some ?e"
    using b(1) by (simp add: s3_def plain_evidence_def)
  then have nw: "\<not> wantedAtReclaim s3 h (u + grace)"
    using nr m b(2,3) assms(9,10) by (simp add: wantedAtReclaim_def same_time_def plain_evidence_def)
  have he: "hasDurabilityEvidence s3 h" using b(1) by (simp add: hasDurabilityEvidence_def s3_def plain_evidence_def)
  obtain s4 where s4: "Reclaim h (bl_Size ?b) True (u + grace) s3 = (None, s4)" "si_blobs s4 = filter (\<lambda>b. bw_Hash b \<noteq> h) (si_blobs s3)"
    "si_pins s4 = si_pins s3" "si_placements s4 = si_placements s3" "si_scanned s4 = si_scanned s3"
    "set (si_thumbs s4) \<subseteq> set (si_thumbs s3)"
    using nw he m(3,4) by (auto simp: Reclaim_def Let_def DeleteThumbnailsForSource_def site_emit_def)
  have gone: "\<not> has_row s4 h" using s4(2) by (auto simp: has_row_image)
  moreover have "\<not> reached s4 h" using nr s4(3-6) by (auto simp: reached_def pinned_def placed_def scanned_def ready_thumb_def list_ex_iff)
  ultimately have "GuardUnlink h (store_Delete h) s4 = (None, store_Delete h s4)" by (simp add: GuardUnlink_def)
  then show ?thesis using elig b est rd s4(1) gone assms(10) by (intro bexI [of _ ?b]) auto
qed

text \<open>A sweep begins at 40, the pin ends at 45, and the sweep writes its marks.\<close>

lemma released_early_witness:
  "let s2 = MarkUnreferenced [''r''] 40 (UnpinPlacement ''r'' ''q'' 45 (the (PinPlacement ''r'' ''q'' sample_site)))
   in \<exists>s3 s4. Reclaim ''r'' 5 True 90 s3 = (None, s4) \<and> \<not> has_row s4 ''r'' \<and> si_releases s3 = si_releases s2 \<and> released_at s2 ''r'' = 45"
proof -
  define s where "s = the (PinPlacement ''r'' ''q'' sample_site)"
  define s2 where "s2 = MarkUnreferenced [''r''] 40 (UnpinPlacement ''r'' ''q'' 45 s)"
  have "distinct (map bw_Hash (si_blobs s)) \<and> has_row s ''r'' \<and> (''r'', ''q'') \<in> set (si_pins s) \<and>
      list_all (\<lambda>q. fst q = ''r'' \<longrightarrow> q = (''r'', ''q'')) (si_pins s) \<and>
      \<not> placed s ''r'' \<and> \<not> has_asset s ''r'' \<and> \<not> scanned s ''r'' \<and> \<not> ready_thumb s ''r''"
    unfolding s_def by code_simp
  then have a: "distinct (map bw_Hash (si_blobs s))" "has_row s ''r''" "(''r'', ''q'') \<in> set (si_pins s)"
      "\<forall>q\<in>set (si_pins s). fst q = ''r'' \<longrightarrow> q = (''r'', ''q'')" "\<not> placed s ''r''" "\<not> has_asset s ''r''" "\<not> scanned s ''r''" "\<not> ready_thumb s ''r''"
    unfolding list_all_iff by blast+
  obtain b s3 s4 where r: "b \<in> set (so_eligible (sort_blobs (40 + 50) 50 True (Blobs s2)))" "bl_Hash b = ''r''"
      "RecordDurability (plain_evidence b BasisReleased (40 + 50)) s2 = Some s3" "Reclaim ''r'' (bl_Size b) True (40 + 50) s3 = (None, s4)" "\<not> has_row s4 ''r''"
    using released_early [OF a, of 40 45 "[''r'']" s2 50 True undefined undefined undefined] unfolding s2_def by auto
  have "map bl_Size (Blobs s2) = [5] \<and> released_at s2 ''r'' = 45" unfolding s2_def s_def by code_simp
  moreover from this have "bl_Size b = 5" using r(1) by (auto simp: map_eq_Cons_conv)
  moreover have "si_releases s3 = si_releases s2" using r(3) by (auto simp: RecordDurability_def split: if_splits)
  ultimately show ?thesis using r(4,5) unfolding Let_def s_def [symmetric] s2_def [symmetric] by auto
qed

section \<open>Between the row and the bytes\<close>

lemma markWanted_row [simp]: "has_row (markWanted h why s) x = has_row s x"
  by (simp add: has_row_image image_image del: if_image_distrib)

lemma RecordVaultBlob_recorded:
  assumes "RecordVaultBlob h sz p present t s = (None, s')"
  shows "has_row s' h \<and> pinned s' h \<and> si_files s' = si_files s"
proof -
  obtain a s1 where a: "adoptBlob h sz s = (a, s1)" by fastforce
  have row: "has_row s1 h" "si_files s1 = si_files s" using a by (auto simp: adoptBlob_def has_row_def split: if_splits)
  define s2 where "s2 = (if a then site_emit (BlobCreated h sz) s1 else s1)"
  obtain c s3 where c: "upsert_replica h sz p t s2 = (c, s3)" by fastforce
  define s4 where "s4 = (if c then site_emit (ReplicaPresent h p sz) s3 else s3)"
  have "has_row s4 h" "si_files s4 = si_files s"
    using upsert_replica_simps [of h sz p t s2] row unfolding c by (auto simp: s2_def s4_def has_row_def)
  moreover have "s' = markWanted h ''pinned'' (if (h, p) \<in> set (si_pins s4) then s4 else s4\<lparr>si_pins := si_pins s4 @ [(h, p)]\<rparr>)"
    using assms unfolding RecordVaultBlob_def a prod.case Let_def s2_def [symmetric] c s4_def [symmetric] by (simp split: if_splits)
  moreover have "has_row (s4\<lparr>si_pins := x\<rparr>) h = has_row s4 h" for x by (simp add: has_row_def)
  ultimately show ?thesis by (auto simp: pinned_def list_ex_iff intro: bexI [of _ "(h, p)"])
qed

text \<open>C26: The window between a row's delete and its bytes'. Suppose the collector has deleted a blob's row, and before it
  unlinks the bytes an upload of the same content is recorded, which checks that the store holds them. For a released
  blob the guarded unlink then finds the row and keeps the bytes. On any other basis the bytes are unlinked: the
  acknowledged upload's row and pin stand for bytes this node no longer has, and under the sole-peer basis no other
  peer has them either.\<close>

theorem unlink_window:
  assumes "Reclaim h sz True at (ru_site (pause env r)) = (None, s1)"
    and "ge_world env (ru_ticks r + 1) s1 = s2" and "RecordVaultBlob h sz p (Some (store_Has h sz)) t s1 = (None, s2)"
  shows "(\<exists>e. reclaim_tracked env ev h sz True at r = (Some (ErrWantedAgain h), e) \<and>
        has_row (ru_site e) h \<and> pinned (ru_site e) h \<and> store_Has h sz (ru_site e)) \<and>
    (\<exists>e. reclaim_tracked env ev h sz False at r = (None, e) \<and>
        has_row (ru_site e) h \<and> pinned (ru_site e) h \<and> \<not> store_Has h sz (ru_site e))"
proof -
  note rec = RecordVaultBlob_recorded [OF assms(3)]
  have "store_Has h sz s1" using assms(3) by (auto simp: RecordVaultBlob_def split: if_splits)
  then have "store_Has h sz s2" using rec by (simp add: store_Has_def)
  moreover have "\<not> store_Has h sz (store_Delete h s2)" by (simp add: store_Has_def store_Delete_def list_ex_iff)
  moreover have "has_row (store_Delete h s2) h" "pinned (store_Delete h s2) h" using rec by (simp_all add: has_row_def pinned_def store_Delete_def)
  ultimately show ?thesis
    using assms(1,2) rec by (simp add: reclaim_tracked_def Let_def GuardUnlink_def del: One_nat_def)
qed

text \<open>The library's copy of a file goes, and the owner puts the same file in the vault.\<close>

lemma unlink_window_witness:
  "let env = sample_env (\<lambda>n s. if n = 1 then snd (RecordVaultBlob ''r'' 5 ''p'' (Some (store_Has ''r'' 5)) 100 s) else s);
       s = sample_site\<lparr>si_releases := [], si_evidence := [plain_evidence (scanBlob sample_site \<lparr>bw_Hash = ''r'', bw_Size = 5, bw_UnreferencedSince = 20\<rparr>) BasisSolePeer 100]\<rparr>;
       r = \<lparr>ru_site = s, ru_ticks = 0, ru_trace = []\<rparr>
   in \<exists>e. reclaim_tracked env undefined ''r'' 5 False 100 r = (None, e) \<and> pinned (ru_site e) ''r'' \<and> \<not> store_Has ''r'' 5 (ru_site e)"
proof -
  define env where "env = sample_env (\<lambda>n s. if n = 1 then snd (RecordVaultBlob ''r'' 5 ''p'' (Some (store_Has ''r'' 5)) 100 s) else s)"
  define s where "s = sample_site\<lparr>si_releases := [], si_evidence := [plain_evidence (scanBlob sample_site \<lparr>bw_Hash = ''r'', bw_Size = 5, bw_UnreferencedSince = 20\<rparr>) BasisSolePeer 100]\<rparr>"
  define r where "r = \<lparr>ru_site = s, ru_ticks = 0, ru_trace = []\<rparr>"
  obtain x s1 where R: "Reclaim ''r'' 5 True 100 (ru_site (pause env r)) = (x, s1)" by fastforce
  have "fst (Reclaim ''r'' 5 True 100 (ru_site (pause env r))) = None" unfolding env_def r_def s_def by code_simp
  then have R: "Reclaim ''r'' 5 True 100 (ru_site (pause env r)) = (None, s1)" using R by simp
  have "fst (RecordVaultBlob ''r'' 5 ''p'' (Some (store_Has ''r'' 5)) 100 (snd (Reclaim ''r'' 5 True 100 (ru_site (pause env r))))) = None"
    unfolding env_def r_def s_def by code_simp
  then have V: "RecordVaultBlob ''r'' 5 ''p'' (Some (store_Has ''r'' 5)) 100 s1 = (None, ge_world env (ru_ticks r + 1) s1)"
    using R by (simp add: prod_eq_iff env_def sample_env_def r_def)
  from unlink_window [OF R refl V, of undefined] show ?thesis
    unfolding Let_def env_def [symmetric] s_def [symmetric] r_def [symmetric] by blast
qed

end
