(* ===== verification/Protocol.thy ===== *)
theory Protocol
  imports Manifests
begin

text \<open>
  \<^verbatim>\<open>internal/personalstate/protocol\<close> (\<^verbatim>\<open>change.go\<close>, \<^verbatim>\<open>snapshot.go\<close>, \<^verbatim>\<open>snapshot_envelope.go\<close>, \<^verbatim>\<open>reconcile.go\<close>): encrypted changes and
  snapshots under content-addressed ids, the envelope that binds a snapshot to its causal point, and the questions two
  replicas ask each other over the graph of changes. \<open>D\<close> is the digest of a byte sequence in its printed form. Lengths
  are written as they are; a Go slice is shorter than 2 to the 64.
\<close>

section \<open>Framing\<close>

fun PutUvarint :: "nat \<Rightarrow> byte list" where
  "PutUvarint n = (if n < 128 then [of_nat n] else of_nat (n mod 128 + 128) # PutUvarint (n div 128))"

declare PutUvarint.simps [simp del]

text \<open>\<^verbatim>\<open>binary.Uvarint\<close> with the index of the byte it reads: the value and what follows it. \<open>None\<close> is \<^verbatim>\<open>k <= 0\<close>.\<close>

fun Uvarint :: "nat \<Rightarrow> byte list \<Rightarrow> (nat \<times> byte list) option" where
  "Uvarint i [] = None"
| "Uvarint i (b # bs) =
     (if i = 10 then None
      else if unat b < 128 then (if i = 9 \<and> unat b > 1 then None else Some (unat b, bs))
      else case Uvarint (i + 1) bs of None \<Rightarrow> None | Some (v, rest) \<Rightarrow> Some (unat b mod 128 + 128 * v, rest))"

definition writeField :: "byte list \<Rightarrow> byte list" where
  "writeField b = PutUvarint (length b) @ b"

definition readField :: "byte list \<Rightarrow> (byte list \<times> byte list) option" where
  "readField r =
     (case Uvarint 0 r of
        None \<Rightarrow> None
      | Some (n, r) \<Rightarrow> (if n > length r then None else Some (take n r, drop n r)))"

section \<open>Changes and snapshots\<close>

datatype protocol_error = ErrIncomplete | ErrIDMismatch | ErrSnapshotIncomplete | ErrSnapshotIDMismatch
  | ErrSnapshotBindingMismatch | ErrSnapshotEnvelopeMalformed

record EncryptedChange =
  ec_SpaceID :: string
  ec_ChangeID :: string
  ec_Parents :: "string list"
  ec_Ciphertext :: "byte list"

record EncryptedSnapshot =
  es_SpaceID :: string
  es_SnapshotID :: string
  es_Frontier :: "string list"
  es_Ciphertext :: "byte list"

definition canonicalParents :: "string list \<Rightarrow> string list" where
  "canonicalParents parents = sort (remdups (filter (\<lambda>p. p \<noteq> []) parents))"

definition id_preimage :: "string \<Rightarrow> string \<Rightarrow> string list \<Rightarrow> byte list \<Rightarrow> byte list" where
  "id_preimage domain spaceID parents ciphertext =
     writeField (bytes_of domain) @ writeField (bytes_of spaceID) @ PutUvarint (length parents) @
     concat (map (\<lambda>p. writeField (bytes_of p)) parents) @ writeField ciphertext"

definition change_domain :: string where "change_domain = ''heyarr/personalstate/change/v1''"
definition snapshot_domain :: string where "snapshot_domain = ''heyarr/personalstate/snapshot/v1''"
definition SnapshotEnvelopeDomain :: string where "SnapshotEnvelopeDomain = ''heyarr/personalstate/snapshot-envelope/v2''"

definition computeID :: "(byte list \<Rightarrow> string) \<Rightarrow> string \<Rightarrow> string list \<Rightarrow> byte list \<Rightarrow> string" where
  "computeID D spaceID parents ciphertext = D (id_preimage change_domain spaceID parents ciphertext)"

definition computeSnapshotID :: "(byte list \<Rightarrow> string) \<Rightarrow> string \<Rightarrow> string list \<Rightarrow> byte list \<Rightarrow> string" where
  "computeSnapshotID D spaceID frontier ciphertext = D (id_preimage snapshot_domain spaceID frontier ciphertext)"

definition NewChange :: "(byte list \<Rightarrow> string) \<Rightarrow> string \<Rightarrow> string list \<Rightarrow> byte list \<Rightarrow> protocol_error + EncryptedChange" where
  "NewChange D spaceID parents ciphertext =
     (if spaceID = [] \<or> length ciphertext = 0 then Inl ErrIncomplete
      else let sorted = canonicalParents parents
           in Inr \<lparr>ec_SpaceID = spaceID, ec_ChangeID = computeID D spaceID sorted ciphertext, ec_Parents = sorted, ec_Ciphertext = ciphertext\<rparr>)"

definition change_Validate :: "(byte list \<Rightarrow> string) \<Rightarrow> EncryptedChange \<Rightarrow> protocol_error option" where
  "change_Validate D c =
     (if ec_SpaceID c = [] \<or> ec_ChangeID c = [] \<or> length (ec_Ciphertext c) = 0 then Some ErrIncomplete
      else let want = computeID D (ec_SpaceID c) (canonicalParents (ec_Parents c)) (ec_Ciphertext c)
           in if ec_ChangeID c \<noteq> want then Some ErrIDMismatch else None)"

definition NewSnapshot :: "(byte list \<Rightarrow> string) \<Rightarrow> string \<Rightarrow> string list \<Rightarrow> byte list \<Rightarrow> protocol_error + EncryptedSnapshot" where
  "NewSnapshot D spaceID frontier ciphertext =
     (if spaceID = [] \<or> length ciphertext = 0 then Inl ErrSnapshotIncomplete
      else let sorted = canonicalParents frontier
           in Inr \<lparr>es_SpaceID = spaceID, es_SnapshotID = computeSnapshotID D spaceID sorted ciphertext, es_Frontier = sorted,
                   es_Ciphertext = ciphertext\<rparr>)"

definition snapshot_Validate :: "(byte list \<Rightarrow> string) \<Rightarrow> EncryptedSnapshot \<Rightarrow> protocol_error option" where
  "snapshot_Validate D s =
     (if es_SpaceID s = [] \<or> es_SnapshotID s = [] \<or> length (es_Ciphertext s) = 0 then Some ErrSnapshotIncomplete
      else let want = computeSnapshotID D (es_SpaceID s) (canonicalParents (es_Frontier s)) (es_Ciphertext s)
           in if es_SnapshotID s \<noteq> want then Some ErrSnapshotIDMismatch else None)"

section \<open>The envelope of a snapshot\<close>

definition envelopeMagic :: "byte list" where
  "envelopeMagic = writeField (bytes_of SnapshotEnvelopeDomain)"

definition SealSnapshotPlaintext :: "string \<Rightarrow> string list \<Rightarrow> byte list \<Rightarrow> byte list" where
  "SealSnapshotPlaintext spaceID frontier state =
     (let canon = canonicalParents frontier
      in envelopeMagic @ writeField (bytes_of spaceID) @ PutUvarint (length canon) @
         concat (map (\<lambda>f. writeField (bytes_of f)) canon) @ writeField state)"

definition string_of :: "byte list \<Rightarrow> string" where
  "string_of bs = map (\<lambda>b. char_of (unat b)) bs"

fun read_fields :: "nat \<Rightarrow> byte list \<Rightarrow> (string list \<times> byte list) option" where
  "read_fields 0 r = Some ([], r)"
| "read_fields (Suc n) r =
     (case readField r of
        None \<Rightarrow> None
      | Some (f, r) \<Rightarrow> (case read_fields n r of None \<Rightarrow> None | Some (fs, r) \<Rightarrow> Some (string_of f # fs, r)))"

definition OpenSnapshotPlaintext :: "EncryptedSnapshot \<Rightarrow> byte list \<Rightarrow> protocol_error + byte list \<times> bool" where
  "OpenSnapshotPlaintext snap plaintext =
     (if take (length envelopeMagic) plaintext \<noteq> envelopeMagic then Inr (plaintext, False)
      else case readField (drop (length envelopeMagic) plaintext) of
        None \<Rightarrow> Inl ErrSnapshotEnvelopeMalformed
      | Some (space, r) \<Rightarrow>
          (case Uvarint 0 r of
             None \<Rightarrow> Inl ErrSnapshotEnvelopeMalformed
           | Some (n, r') \<Rightarrow>
               (if n > length r then Inl ErrSnapshotEnvelopeMalformed
                else case read_fields n r' of
                  None \<Rightarrow> Inl ErrSnapshotEnvelopeMalformed
                | Some (frontier, r'') \<Rightarrow>
                    (case readField r'' of
                       None \<Rightarrow> Inl ErrSnapshotEnvelopeMalformed
                     | Some (state, rest) \<Rightarrow>
                         (if rest \<noteq> [] then Inl ErrSnapshotEnvelopeMalformed
                          else if string_of space \<noteq> es_SpaceID snap \<or> frontier \<noteq> canonicalParents (es_Frontier snap)
                               then Inl ErrSnapshotBindingMismatch
                          else Inr (state, True))))))"

section \<open>The graph of changes\<close>

definition Heads :: "EncryptedChange list \<Rightarrow> string list" where
  "Heads changes = sort (remdups (filter (\<lambda>i. i \<notin> set (concat (map ec_Parents changes))) (map ec_ChangeID changes)))"

text \<open>The map the questions build first: of two changes with one i the later one counts.\<close>

definition byID :: "EncryptedChange list \<Rightarrow> string \<Rightarrow> EncryptedChange option" where
  "byID have i = find (\<lambda>c. ec_ChangeID c = i) (rev have)"

lemma byID_Some: "byID have i = Some c \<Longrightarrow> c \<in> set have \<and> ec_ChangeID c = i"
  by (auto simp: byID_def find_Some_iff) (metis nth_mem length_rev set_rev)

text \<open>The loop over a stack of ids. Go appends to the end of a slice and pops there; here the top is the first element.\<close>

definition unseen :: "EncryptedChange list \<Rightarrow> string fset \<Rightarrow> nat" where
  "unseen have seen = fcard (fset_of_list (map ec_ChangeID have) |-| seen)"

lemma unseen_less:
  assumes "byID have i = Some c" and "i |\<notin>| seen"
  shows "unseen have (finsert i seen) < unseen have seen"
  unfolding unseen_def
proof (rule pfsubset_fcard_mono)
  have "i |\<in>| fset_of_list (map ec_ChangeID have)" using byID_Some [OF assms(1)] by (auto simp: fset_of_list_elem)
  then show "fset_of_list (map ec_ChangeID have) |-| finsert i seen |\<subset>| fset_of_list (map ec_ChangeID have) |-| seen" using assms(2) by auto
qed

function walk :: "EncryptedChange list \<Rightarrow> string fset \<Rightarrow> string list \<Rightarrow> string fset" where
  "walk have seen [] = seen"
| "walk have seen (i # queue) =
     (if i |\<in>| seen then walk have seen queue
      else case byID have i of
             None \<Rightarrow> walk have seen queue
           | Some c \<Rightarrow> walk have (finsert i seen) (rev (ec_Parents c) @ queue))"
  by pat_completeness auto
termination
  by (relation "measures [\<lambda>(have, seen, _). unseen have seen, \<lambda>(_, _, q). length q]")
    (auto dest: unseen_less)

definition CausalHistory :: "EncryptedChange list \<Rightarrow> string list \<Rightarrow> string fset" where
  "CausalHistory have heads = walk have {||} (rev heads)"

definition Missing :: "EncryptedChange list \<Rightarrow> string list \<Rightarrow> EncryptedChange list" where
  "Missing have knownHeads =
     (let known = walk have {||} (rev knownHeads)
      in sort_key ec_ChangeID (filter (\<lambda>c. ec_ChangeID c |\<notin>| known) have))"

definition Subsumes :: "EncryptedSnapshot \<Rightarrow> EncryptedChange list \<Rightarrow> string \<Rightarrow> bool" where
  "Subsumes s have changeID \<longleftrightarrow> changeID |\<in>| CausalHistory have (es_Frontier s)"

function have_all :: "EncryptedChange list \<Rightarrow> string fset \<Rightarrow> string list \<Rightarrow> bool \<times> string" where
  "have_all have seen [] = (True, [])"
| "have_all have seen (i # queue) =
     (if i |\<in>| seen then have_all have seen queue
      else case byID have i of
             None \<Rightarrow> (False, i)
           | Some c \<Rightarrow> have_all have (finsert i seen) (rev (ec_Parents c) @ queue))"
  by pat_completeness auto
termination
  by (relation "measures [\<lambda>(have, seen, _). unseen have seen, \<lambda>(_, _, q). length q]")
    (auto dest: unseen_less)

definition HaveAll :: "EncryptedChange list \<Rightarrow> string list \<Rightarrow> bool \<times> string" where
  "HaveAll have wantHeads = have_all have {||} (rev wantHeads)"

end
