(* ===== verification/ProtocolSpec.thy ===== *)
theory ProtocolSpec
  imports Protocol
begin

text \<open>
  What the protocol promises: an id determines the change it names, an envelope binds a snapshot to its space and
  frontier, and the questions over the graph of changes are answered exactly, so that a pull leaves nothing out.
\<close>

section \<open>Framing is prefix-free\<close>

lemma unat_byte: "k < 256 \<Longrightarrow> unat (of_nat k :: byte) = k"
  by (simp add: unat_of_nat)

lemma PutUvarint_not_Nil [simp]: "PutUvarint n \<noteq> []"
  by (subst PutUvarint.simps) simp

lemma PutUvarint_prefix: "PutUvarint m @ xs = PutUvarint n @ ys \<Longrightarrow> m = n \<and> xs = ys"
proof (induction m arbitrary: n rule: PutUvarint.induct)
  case (1 m)
  have head: "unat (hd (PutUvarint k @ zs)) = (if k < 128 then k else k mod 128 + 128)" for k zs
    using unat_byte [of "k mod 128 + 128"] by (subst PutUvarint.simps) (simp add: unat_byte del: of_nat_add)
  have tail: "tl (PutUvarint k @ zs) = (if k < 128 then zs else PutUvarint (k div 128) @ zs)" for k zs
    by (subst PutUvarint.simps) simp
  have h: "(if m < 128 then m else m mod 128 + 128) = (if n < 128 then n else n mod 128 + 128)"
    using arg_cong [OF "1.prems", of "\<lambda>zs. unat (hd zs)"] unfolding head .
  have t: "(if m < 128 then xs else PutUvarint (m div 128) @ xs) = (if n < 128 then ys else PutUvarint (n div 128) @ ys)"
    using arg_cong [OF "1.prems", of tl] unfolding tail .
  show ?case
  proof (cases "m < 128")
    case True
    then have "n < 128" using h by (auto split: if_splits)
    then show ?thesis using h t True by simp
  next
    case False
    then have n: "\<not> n < 128" using h by (auto split: if_splits)
    then have "m div 128 = n div 128 \<and> xs = ys" using "1.IH" [OF False, of "n div 128"] t False by simp
    moreover have "m mod 128 = n mod 128" using h False n by simp
    ultimately show ?thesis by (metis div_mult_mod_eq)
  qed
qed

lemma Uvarint_PutUvarint: "n < 2 ^ (64 - 7 * i) \<Longrightarrow> i \<le> 9 \<Longrightarrow> Uvarint i (PutUvarint n @ r) = Some (n, r)"
proof (induction n arbitrary: i rule: PutUvarint.induct)
  case (1 n)
  show ?case
  proof (cases "n < 128")
    case True
    have "n \<le> 1" if "i = 9" using "1.prems"(1) that by simp
    then show ?thesis using True "1.prems" by (subst PutUvarint.simps) (auto simp: unat_byte)
  next
    case False
    have i: "i \<le> 8"
    proof (rule ccontr)
      assume "\<not> i \<le> 8"
      then have "i = 9" using "1.prems"(2) by simp
      then show False using "1.prems"(1) False by simp
    qed
    have "n < 2 ^ (64 - 7 * (i + 1)) * 128"
    proof -
      have "64 - 7 * i = (64 - 7 * (i + 1)) + 7" using i by simp
      then have "(2::nat) ^ (64 - 7 * i) = 2 ^ (64 - 7 * (i + 1)) * 2 ^ 7" by (metis power_add)
      then show ?thesis using "1.prems"(1) by simp
    qed
    then have "n div 128 < 2 ^ (64 - 7 * (i + 1))" by (simp add: less_mult_imp_div_less)
    then have "Uvarint (i + 1) (PutUvarint (n div 128) @ r) = Some (n div 128, r)" using "1.IH" [OF False] i by simp
    moreover have "unat (of_nat (n mod 128 + 128) :: byte) = n mod 128 + 128" by (rule unat_byte) simp
    ultimately show ?thesis using False i by (subst PutUvarint.simps) simp
  qed
qed

lemma writeField_prefix: "writeField a @ xs = writeField b @ ys \<Longrightarrow> a = b \<and> xs = ys"
  using PutUvarint_prefix [of "length a" "a @ xs" "length b" "b @ ys"] by (auto simp: writeField_def)

lemma readField_writeField: "length b < 2 ^ 64 \<Longrightarrow> readField (writeField b @ r) = Some (b, r)"
  using Uvarint_PutUvarint [of "length b" 0 "b @ r"] by (simp add: readField_def writeField_def)

lemma string_of_bytes_of [simp]: "string_of (bytes_of s) = s"
proof -
  have "char_of (unat (of_nat (of_char c) :: byte)) = c" for c :: char
  proof -
    have "(of_char c :: nat) < 256" by (simp add: nat_of_char_less_256)
    then show ?thesis by (simp add: unat_byte)
  qed
  then show ?thesis by (simp add: string_of_def bytes_of_def o_def)
qed

lemma fields_prefix:
  "length ps = length qs \<Longrightarrow>
   concat (map (\<lambda>p. writeField (bytes_of p)) ps) @ xs = concat (map (\<lambda>p. writeField (bytes_of p)) qs) @ ys \<Longrightarrow> ps = qs \<and> xs = ys"
proof (induction ps arbitrary: qs)
  case (Cons p ps)
  then obtain q qs' where q: "qs = q # qs'" by (cases qs) auto
  have "writeField (bytes_of p) @ concat (map (\<lambda>p. writeField (bytes_of p)) ps) @ xs =
      writeField (bytes_of q) @ concat (map (\<lambda>p. writeField (bytes_of p)) qs') @ ys" using Cons.prems(2) by (simp add: q)
  then have "bytes_of p = bytes_of q \<and> concat (map (\<lambda>p. writeField (bytes_of p)) ps) @ xs = concat (map (\<lambda>p. writeField (bytes_of p)) qs') @ ys"
    by (rule writeField_prefix)
  then show ?case using Cons.IH [of qs'] Cons.prems(1) by (simp add: q bytes_of_inj)
qed simp

lemma id_preimage_inj:
  assumes "id_preimage d s ps c = id_preimage d' s' ps' c'"
  shows "d = d' \<and> s = s' \<and> ps = ps' \<and> c = c'"
proof -
  note w = writeField_prefix PutUvarint_prefix
  have 1: "bytes_of d = bytes_of d'" and
    2: "writeField (bytes_of s) @ PutUvarint (length ps) @ concat (map (\<lambda>p. writeField (bytes_of p)) ps) @ writeField c =
        writeField (bytes_of s') @ PutUvarint (length ps') @ concat (map (\<lambda>p. writeField (bytes_of p)) ps') @ writeField c'"
    using w(1) [OF assms [unfolded id_preimage_def]] by blast+
  have 3: "bytes_of s = bytes_of s'" and
    4: "PutUvarint (length ps) @ concat (map (\<lambda>p. writeField (bytes_of p)) ps) @ writeField c =
        PutUvarint (length ps') @ concat (map (\<lambda>p. writeField (bytes_of p)) ps') @ writeField c'"
    using w(1) [OF 2] by blast+
  have 5: "length ps = length ps'" and
    6: "concat (map (\<lambda>p. writeField (bytes_of p)) ps) @ writeField c = concat (map (\<lambda>p. writeField (bytes_of p)) ps') @ writeField c'"
    using w(2) [OF 4] by blast+
  have "ps = ps'" "writeField c = writeField c'" using fields_prefix [OF 5 6] by blast+
  then show ?thesis using 1 3 w(1) [of c "[]" c' "[]"] by (simp add: bytes_of_inj)
qed

section \<open>Identity\<close>

lemma canonicalParents_set: "canonicalParents ps = canonicalParents qs \<longleftrightarrow> set ps - {[]} = set qs - {[]}"
proof -
  have s: "set (canonicalParents xs) = set xs - {[]}" for xs by (auto simp: canonicalParents_def)
  have "canonicalParents xs = sorted_list_of_set (set xs - {[]})" for xs
  proof -
    have "sorted (canonicalParents xs)" "distinct (canonicalParents xs)" by (simp_all add: canonicalParents_def)
    then show ?thesis using s [of xs] by (metis sorted_list_of_set.idem_if_sorted_distinct)
  qed
  then show ?thesis using s by metis
qed

lemma canonicalParents_idem [simp]: "canonicalParents (canonicalParents ps) = canonicalParents ps"
  by (subst canonicalParents_set) (auto simp: canonicalParents_def)

abbreviation change_preimage :: "EncryptedChange \<Rightarrow> byte list" where
  "change_preimage c \<equiv> id_preimage change_domain (ec_SpaceID c) (canonicalParents (ec_Parents c)) (ec_Ciphertext c)"

abbreviation snapshot_preimage :: "EncryptedSnapshot \<Rightarrow> byte list" where
  "snapshot_preimage s \<equiv> id_preimage snapshot_domain (es_SpaceID s) (canonicalParents (es_Frontier s)) (es_Ciphertext s)"

text \<open>C27: An id names one change. Two changes that pass validation under one id have the same space, the same set of
  parents and the same ciphertext, unless the two themselves collide under the digest; so a change cannot be pointed
  at another space, given other parents or altered without a new id. A validated snapshot and a validated change never
  share an id without such a collision. What \<open>NewChange\<close> mints passes, whatever order and repetition the parents came
  in.\<close>

theorem change_identity:
  assumes "change_Validate D c = None"
  shows "(change_Validate D d = None \<and> ec_ChangeID d = ec_ChangeID c \<longrightarrow>
      ec_SpaceID d = ec_SpaceID c \<and> set (ec_Parents d) - {[]} = set (ec_Parents c) - {[]} \<and> ec_Ciphertext d = ec_Ciphertext c \<or>
      change_preimage d \<noteq> change_preimage c \<and> D (change_preimage d) = D (change_preimage c)) \<and>
    (snapshot_Validate D s = None \<and> es_SnapshotID s = ec_ChangeID c \<longrightarrow>
      snapshot_preimage s \<noteq> change_preimage c \<and> D (snapshot_preimage s) = D (change_preimage c)) \<and>
    NewChange D (ec_SpaceID c) ps (ec_Ciphertext c) =
      Inr (c\<lparr>ec_ChangeID := D (change_preimage (c\<lparr>ec_Parents := ps\<rparr>)), ec_Parents := canonicalParents ps\<rparr>) \<and>
    (set ps - {[]} = set (ec_Parents c) - {[]} \<longrightarrow> D (change_preimage (c\<lparr>ec_Parents := ps\<rparr>)) = ec_ChangeID c)"
proof -
  have c: "ec_ChangeID c = D (change_preimage c)" "ec_SpaceID c \<noteq> []" "ec_Ciphertext c \<noteq> []"
    using assms by (auto simp: change_Validate_def computeID_def Let_def split: if_splits)
  have "ec_ChangeID d = D (change_preimage d)" if "change_Validate D d = None"
    using that by (auto simp: change_Validate_def computeID_def Let_def split: if_splits)
  moreover have "es_SnapshotID s = D (snapshot_preimage s)" if "snapshot_Validate D s = None"
    using that by (auto simp: snapshot_Validate_def computeSnapshotID_def Let_def split: if_splits)
  moreover have "ec_SpaceID d = ec_SpaceID c \<and> set (ec_Parents d) - {[]} = set (ec_Parents c) - {[]} \<and> ec_Ciphertext d = ec_Ciphertext c"
    if "change_preimage d = change_preimage c"
    using id_preimage_inj [OF that] canonicalParents_set by blast
  moreover have "snapshot_preimage s \<noteq> change_preimage c"
    using id_preimage_inj [of snapshot_domain _ _ _ change_domain] by (auto simp: snapshot_domain_def change_domain_def)
  moreover have "NewChange D (ec_SpaceID c) ps (ec_Ciphertext c) =
      Inr (c\<lparr>ec_ChangeID := D (change_preimage (c\<lparr>ec_Parents := ps\<rparr>)), ec_Parents := canonicalParents ps\<rparr>)"
    using c(2,3) by (simp add: NewChange_def computeID_def Let_def)
  moreover have "D (change_preimage (c\<lparr>ec_Parents := ps\<rparr>)) = ec_ChangeID c" if "set ps - {[]} = set (ec_Parents c) - {[]}"
  proof -
    have "canonicalParents ps = canonicalParents (ec_Parents c)" using that canonicalParents_set by blast
    then show ?thesis using c(1) by simp
  qed
  ultimately show ?thesis using c(1) by metis
qed

text \<open>C28: The envelope of a snapshot survives, and binds. Opening what was sealed for a space and a frontier returns the
  state, authenticated, to a snapshot that names the same space and the same set of heads, and refuses every other
  snapshot it is presented under; a plaintext without the envelope is handed back unauthenticated.\<close>

theorem envelope_binds:
  assumes "length space < 2 ^ 64" and "length frontier < 2 ^ 64" and "\<forall>f\<in>set frontier. length f < 2 ^ 64" and "length state < 2 ^ 64"
  shows "OpenSnapshotPlaintext snap (SealSnapshotPlaintext space frontier state) =
      (if es_SpaceID snap = space \<and> set (es_Frontier snap) - {[]} = set frontier - {[]} then Inr (state, True) else Inl ErrSnapshotBindingMismatch) \<and>
    (take (length envelopeMagic) plain \<noteq> envelopeMagic \<longrightarrow> OpenSnapshotPlaintext snap plain = Inr (plain, False))"
proof -
  define canon where "canon = canonicalParents frontier"
  define fields where "fields = concat (map (\<lambda>f. writeField (bytes_of f)) canon)"
  have len: "length (bytes_of f) = length f" for f by (simp add: bytes_of_def)
  have cs: "set canon \<subseteq> set frontier" "length canon \<le> length frontier"
    by (auto simp: canon_def canonicalParents_def intro: order_trans [OF length_remdups_leq length_filter_le])
  have "read_fields (length fs) (concat (map (\<lambda>f. writeField (bytes_of f)) fs) @ r) = Some (fs, r)"
    if "\<forall>f\<in>set fs. length f < 2 ^ 64" for fs r
    using that by (induction fs) (simp_all add: readField_writeField len)
  then have rf: "read_fields (length canon) (fields @ r) = Some (canon, r)" for r using cs(1) assms(3) by (auto simp: fields_def)
  have "length fs \<le> length (concat (map (\<lambda>f. writeField (bytes_of f)) fs))" for fs
  proof (induction fs)
    case (Cons f fs)
    have "1 \<le> length (writeField (bytes_of f))" by (simp add: writeField_def Suc_le_eq)
    then show ?case using Cons by simp
  qed simp
  then have cnt: "length canon \<le> length fields" by (simp add: fields_def)
  have uv: "Uvarint 0 (PutUvarint (length canon) @ r) = Some (length canon, r)" for r
    using cs(2) assms(2) by (intro Uvarint_PutUvarint) simp_all
  have seal: "SealSnapshotPlaintext space frontier state =
      envelopeMagic @ writeField (bytes_of space) @ PutUvarint (length canon) @ fields @ writeField state"
    by (simp add: SealSnapshotPlaintext_def canon_def fields_def Let_def)
  have last: "readField (writeField state) = Some (state, [])" using readField_writeField [of state "[]"] assms(4) by simp
  have "OpenSnapshotPlaintext snap (SealSnapshotPlaintext space frontier state) =
      (if space \<noteq> es_SpaceID snap \<or> canon \<noteq> canonicalParents (es_Frontier snap) then Inl ErrSnapshotBindingMismatch else Inr (state, True))"
    using assms(1) cnt unfolding seal OpenSnapshotPlaintext_def
    by (simp add: readField_writeField len uv rf last)
  then show ?thesis unfolding canon_def by (auto simp: canonicalParents_set OpenSnapshotPlaintext_def)
qed

section \<open>The causal history\<close>

text \<open>The ids some heads lead to in a set of changes, whether held or not.\<close>

inductive reaches :: "EncryptedChange list \<Rightarrow> string set \<Rightarrow> string \<Rightarrow> bool" for cs heads where
  head: "i \<in> heads \<Longrightarrow> reaches cs heads i"
| parent: "reaches cs heads j \<Longrightarrow> byID cs j = Some c \<Longrightarrow> i \<in> set (ec_Parents c) \<Longrightarrow> reaches cs heads i"

lemma reaches_mono:
  assumes "reaches cs A x" and "\<And>i. i \<in> A \<Longrightarrow> reaches cs B i"
  shows "reaches cs B x"
  using assms(1) by induction (auto intro: assms(2) reaches.parent)

text \<open>What the loop adds is held and reached; what it ends with is closed.\<close>

lemma walk_sound:
  "x |\<in>| walk cs seen queue \<Longrightarrow> x |\<in>| seen \<or> byID cs x \<noteq> None \<and> reaches cs (set queue) x"
proof (induction cs seen queue rule: walk.induct)
  case (2 cs seen i queue)
  have tail: "reaches cs (set queue) x \<Longrightarrow> reaches cs (set (i # queue)) x" by (erule reaches_mono) (simp add: reaches.head)
  show ?case
  proof (cases "i |\<in>| seen \<or> byID cs i = None")
    case True
    then show ?thesis using 2 tail by (auto split: option.splits)
  next
    case False
    then obtain c where c: "byID cs i = Some c" by auto
    have "x |\<in>| finsert i seen \<or> byID cs x \<noteq> None \<and> reaches cs (set (rev (ec_Parents c) @ queue)) x"
      using "2.IH"(3) [OF _ c] "2.prems" False c by simp
    moreover have "reaches cs (set (i # queue)) x" if "reaches cs (set (rev (ec_Parents c) @ queue)) x"
    proof (rule reaches_mono [OF that])
      fix j assume "j \<in> set (rev (ec_Parents c) @ queue)"
      moreover have "reaches cs (set (i # queue)) i" by (rule reaches.head) simp
      ultimately show "reaches cs (set (i # queue)) j" using c by (auto intro: reaches.head reaches.parent)
    qed
    moreover have "reaches cs (set (i # queue)) i" by (rule reaches.head) simp
    ultimately show ?thesis using c by auto
  qed
qed simp

text \<open>The parents of what was seen were seen too, or are still to come, or may be passed over.\<close>

definition closed_but :: "EncryptedChange list \<Rightarrow> string set \<Rightarrow> string fset \<Rightarrow> string set \<Rightarrow> bool" where
  "closed_but cs skip seen rest \<longleftrightarrow>
     (\<forall>j c p. j |\<in>| seen \<longrightarrow> byID cs j = Some c \<longrightarrow> p \<in> set (ec_Parents c) \<longrightarrow> p |\<in>| seen \<or> p \<in> rest \<or> p \<in> skip)"

lemma closed_but_empty [simp]: "closed_but cs skip {||} rest"
  by (simp add: closed_but_def)

lemma closed_but_drop: "closed_but cs skip seen (insert i rest) \<Longrightarrow> i |\<in>| seen \<or> i \<in> skip \<Longrightarrow> closed_but cs skip seen rest"
  unfolding closed_but_def by blast

lemma closed_but_insert:
  "closed_but cs skip seen (insert i rest) \<Longrightarrow> byID cs i = Some c \<Longrightarrow> closed_but cs skip (finsert i seen) (set (ec_Parents c) \<union> rest)"
  unfolding closed_but_def by (metis Un_iff finsert_iff insert_iff option.inject)

lemma closed_butD:
  "closed_but cs skip seen rest \<Longrightarrow> j |\<in>| seen \<Longrightarrow> byID cs j = Some c \<Longrightarrow> p \<in> set (ec_Parents c) \<Longrightarrow> p |\<in>| seen \<or> p \<in> rest \<or> p \<in> skip"
  by (simp add: closed_but_def)

lemma walk_closed:
  "closed_but cs {p. byID cs p = None} seen (set queue) \<Longrightarrow>
   (\<forall>i. i |\<in>| seen \<or> i \<in> set queue \<and> byID cs i \<noteq> None \<longrightarrow> i |\<in>| walk cs seen queue) \<and>
   closed_but cs {p. byID cs p = None} (walk cs seen queue) {}"
proof (induction cs seen queue rule: walk.induct)
  case (1 cs seen)
  then show ?case by simp
next
  case (2 cs seen i queue)
  let ?skip = "{p. byID cs p = None}"
  consider "i |\<in>| seen" | "i |\<notin>| seen" "byID cs i = None" | c where "i |\<notin>| seen" "byID cs i = Some c" by (cases "byID cs i") auto
  then show ?case
  proof cases
    case 1
    then have "closed_but cs ?skip seen (set queue)" using closed_but_drop "2.prems" by simp
    from "2.IH"(1) [OF 1 this] 1 show ?thesis by auto
  next
    case 2
    then have "closed_but cs ?skip seen (set queue)" using closed_but_drop "2.prems" by simp
    from "2.IH"(2) [OF 2 this] 2 show ?thesis by auto
  next
    case (3 c)
    then have "closed_but cs ?skip (finsert i seen) (set (rev (ec_Parents c) @ queue))"
      using closed_but_insert [of cs ?skip seen i "set queue" c] "2.prems" by simp
    from "2.IH"(3) [OF 3 this] 3 show ?thesis by auto
  qed
qed

lemma walk_reaches: "x |\<in>| walk cs {||} queue \<longleftrightarrow> byID cs x \<noteq> None \<and> reaches cs (set queue) x"
proof
  assume "x |\<in>| walk cs {||} queue"
  then show "byID cs x \<noteq> None \<and> reaches cs (set queue) x" using walk_sound by fastforce
next
  have w: "\<forall>i. i \<in> set queue \<and> byID cs i \<noteq> None \<longrightarrow> i |\<in>| walk cs {||} queue" "closed_but cs {p. byID cs p = None} (walk cs {||} queue) {}"
    using walk_closed [of cs "{||}" queue] by auto
  assume "byID cs x \<noteq> None \<and> reaches cs (set queue) x"
  then have "reaches cs (set queue) x" "byID cs x \<noteq> None" by auto
  then show "x |\<in>| walk cs {||} queue"
  proof (induction)
    case (head i)
    then show ?case using w(1) by blast
  next
    case (parent j c i)
    then have "j |\<in>| walk cs {||} queue" by simp
    from closed_butD [OF w(2) this parent.hyps(2,3)] show ?case using parent.prems by auto
  qed
qed

lemma byID_held: "(\<exists>c. byID cs x = Some c) \<longleftrightarrow> x \<in> ec_ChangeID ` set cs" "byID cs x = None \<longleftrightarrow> x \<notin> ec_ChangeID ` set cs"
  by (auto simp: byID_def find_None_iff not_None_eq [symmetric] simp del: not_None_eq)

lemma CausalHistory_reaches: "x |\<in>| CausalHistory cs heads \<longleftrightarrow> x \<in> ec_ChangeID ` set cs \<and> reaches cs (set heads) x"
  by (simp add: CausalHistory_def walk_reaches byID_held)

lemma set_Missing: "set (Missing cs heads) = {c \<in> set cs. \<not> reaches cs (set heads) (ec_ChangeID c)}"
  by (auto simp: Missing_def walk_reaches byID_held)

lemma have_all_correct:
  "closed_but cs {} seen (set queue) \<Longrightarrow> (\<forall>i. i |\<in>| seen \<longrightarrow> byID cs i \<noteq> None) \<Longrightarrow>
   (case have_all cs seen queue of
      (True, i) \<Rightarrow> i = [] \<and> (\<forall>x. reaches cs (fset seen \<union> set queue) x \<longrightarrow> byID cs x \<noteq> None)
    | (False, i) \<Rightarrow> byID cs i = None \<and> reaches cs (set queue) i)"
proof (induction cs seen queue rule: have_all.induct)
  case (1 cs seen)
  have "x |\<in>| seen" if "reaches cs (fset seen) x" for x
    using that
  proof induction
    case (parent j c i)
    then show ?case using "1.prems"(1) unfolding closed_but_def by auto
  qed
  then show ?case using 1 by auto
next
  case (2 cs seen i queue)
  have tail: "reaches cs (set queue) x \<Longrightarrow> reaches cs (set (i # queue)) x" for x by (erule reaches_mono) (simp add: reaches.head)
  have i: "reaches cs (set (i # queue)) i" by (rule reaches.head) simp
  consider "i |\<in>| seen" | "i |\<notin>| seen" "byID cs i = None" | c where "i |\<notin>| seen" "byID cs i = Some c" by (cases "byID cs i") auto
  then show ?case
  proof cases
    case 1
    then have "closed_but cs {} seen (set queue)" using closed_but_drop "2.prems"(1) by simp
    note ih = "2.IH"(1) [OF 1 this "2.prems"(2)]
    have "fset seen \<union> set (i # queue) = fset seen \<union> set queue" using 1 by auto
    then show ?thesis using ih 1 tail by (auto split: prod.splits bool.splits)
  next
    case 2
    then show ?thesis using i by simp
  next
    case (3 c)
    define q where "q = rev (ec_Parents c) @ queue"
    have h1: "closed_but cs {} (finsert i seen) (set q)"
      using closed_but_insert [of cs "{}" seen i "set queue" c] "2.prems"(1) 3(2) by (simp add: q_def)
    have h2: "\<forall>j. j |\<in>| finsert i seen \<longrightarrow> byID cs j \<noteq> None" using "2.prems"(2) 3(2) by auto
    note ih = "2.IH"(2) [OF 3, folded q_def, OF h1 h2]
    have "reaches cs (set (i # queue)) x" if "reaches cs (set q) x" for x
    proof (rule reaches_mono [OF that])
      fix j assume "j \<in> set q"
      then consider "j \<in> set (ec_Parents c)" | "j \<in> set queue" by (auto simp: q_def)
      then show "reaches cs (set (i # queue)) j"
      proof cases
        case 1
        then show ?thesis by (rule reaches.parent [OF i 3(2)])
      next
        case 2
        then show ?thesis by (intro reaches.head) simp
      qed
    qed
    moreover have "reaches cs (fset (finsert i seen) \<union> set q) x" if "reaches cs (fset seen \<union> set (i # queue)) x" for x
      by (rule reaches_mono [OF that]) (auto simp: q_def intro: reaches.head)
    moreover obtain b j where "have_all cs (finsert i seen) q = (b, j)" by fastforce
    ultimately show ?thesis using ih 3 by (cases b) (simp_all add: q_def [symmetric])
  qed
qed

text \<open>C29: The three questions over the graph are answered exactly. \<open>CausalHistory\<close> is the held ids the heads lead to through
  held changes; \<open>Missing\<close> is the other changes, in order of their ids, so that a head this holder does not know hides
  nothing; \<open>HaveAll\<close> says yes just when everything the heads lead to is held, and otherwise names something they
  lead to that is not. The loops end on every input, cyclic parents included.\<close>

theorem causal_questions:
  "fset (CausalHistory cs heads) = {i \<in> ec_ChangeID ` set cs. reaches cs (set heads) i} \<and>
   set (Missing cs heads) = {c \<in> set cs. \<not> reaches cs (set heads) (ec_ChangeID c)} \<and>
   sorted (map ec_ChangeID (Missing cs heads)) \<and>
   (case HaveAll cs heads of
      (True, i) \<Rightarrow> i = [] \<and> (\<forall>x. reaches cs (set heads) x \<longrightarrow> x \<in> ec_ChangeID ` set cs)
    | (False, i) \<Rightarrow> reaches cs (set heads) i \<and> i \<notin> ec_ChangeID ` set cs)"
proof -
  obtain b i where h: "HaveAll cs heads = (b, i)" by fastforce
  have "case have_all cs {||} (rev heads) of
      (True, i) \<Rightarrow> i = [] \<and> (\<forall>x. reaches cs (fset {||} \<union> set (rev heads)) x \<longrightarrow> byID cs x \<noteq> None)
    | (False, i) \<Rightarrow> byID cs i = None \<and> reaches cs (set (rev heads)) i"
    by (rule have_all_correct) simp_all
  then have "case (b, i) of
      (True, i) \<Rightarrow> i = [] \<and> (\<forall>x. reaches cs (set heads) x \<longrightarrow> x \<in> ec_ChangeID ` set cs)
    | (False, i) \<Rightarrow> reaches cs (set heads) i \<and> i \<notin> ec_ChangeID ` set cs"
    using h byID_held(2) [of cs i] by (cases b) (auto simp: HaveAll_def byID_held)
  moreover have "sorted (map ec_ChangeID (Missing cs heads))" by (simp add: Missing_def Let_def)
  moreover have "fset (CausalHistory cs heads) = {i \<in> ec_ChangeID ` set cs. reaches cs (set heads) i}"
    using CausalHistory_reaches by blast
  ultimately show ?thesis unfolding h using set_Missing by blast
qed

section \<open>Pulling what is missing\<close>

text \<open>Every parent of a held change is held.\<close>

definition parent_closed :: "EncryptedChange list \<Rightarrow> bool" where
  "parent_closed cs \<longleftrightarrow> (\<forall>c\<in>set cs. set (ec_Parents c) \<subseteq> ec_ChangeID ` set cs)"

text \<open>Two holders have the same change under the same id.\<close>

definition agree :: "EncryptedChange list \<Rightarrow> EncryptedChange list \<Rightarrow> bool" where
  "agree cs ds \<longleftrightarrow> (\<forall>c\<in>set cs. \<forall>d\<in>set ds. ec_ChangeID c = ec_ChangeID d \<longrightarrow> ec_Parents c = ec_Parents d)"

lemma reaches_inside:
  assumes "reaches cs heads x" and "heads \<subseteq> ec_ChangeID ` set ds" and "parent_closed ds" and "agree cs ds"
  shows "x \<in> ec_ChangeID ` set ds"
  using assms(1)
proof induction
  case (head i)
  then show ?case using assms(2) by auto
next
  case (parent j c i)
  then obtain d where d: "d \<in> set ds" "ec_ChangeID d = j" by auto
  have "c \<in> set cs" "ec_ChangeID c = j" using byID_Some [OF parent.hyps(2)] by auto
  then have "ec_Parents c = ec_Parents d" using assms(4) d by (auto simp: agree_def)
  then show ?case using assms(3) d(1) parent.hyps(3) by (auto simp: parent_closed_def)
qed

text \<open>Parents come before their children, so every held change lies below a head.\<close>

lemma Heads_cover:
  assumes "\<forall>c\<in>set ds. \<forall>p\<in>set (ec_Parents c). rank p < (rank (ec_ChangeID c) :: nat)" and "agree cs ds"
    and "ec_ChangeID ` set ds \<subseteq> ec_ChangeID ` set cs" and "d \<in> set ds"
  shows "reaches cs (set (Heads ds)) (ec_ChangeID d)"
  using assms(4)
proof (induction "Max (rank ` ec_ChangeID ` set ds) - rank (ec_ChangeID d)" arbitrary: d rule: less_induct)
  case less
  show ?case
  proof (cases "ec_ChangeID d \<in> set (concat (map ec_Parents ds))")
    case False
    then show ?thesis using less.prems by (intro reaches.head) (auto simp: Heads_def)
  next
    case True
    then obtain e where e: "e \<in> set ds" "ec_ChangeID d \<in> set (ec_Parents e)" by auto
    have "rank (ec_ChangeID d) < rank (ec_ChangeID e)" using assms(1) e by blast
    moreover have "rank (ec_ChangeID e) \<le> Max (rank ` ec_ChangeID ` set ds)" using e(1) by simp
    ultimately have "reaches cs (set (Heads ds)) (ec_ChangeID e)" using less.hyps [OF _ e(1)] by linarith
    moreover obtain c where c: "byID cs (ec_ChangeID e) = Some c" using assms(3) e(1) byID_held(1) [of cs "ec_ChangeID e"] by blast
    moreover have "ec_Parents c = ec_Parents e" using byID_Some [OF c] assms(2) e(1) by (auto simp: agree_def)
    ultimately show ?thesis using e(2) by (metis reaches.parent)
  qed
qed

text \<open>C30: A pull leaves nothing out. Between two holders that agree on what an id names, when
  the one that pulls holds the parents of what it holds, everything the other holds is then held by both, whatever
  heads of its own it named, and it holds the parents of what it holds again when the other did. When it offers \<open>Heads\<close> and
  holds no change the other lacks, on acyclic parents exactly the changes it lacks are sent: nothing is sent twice.\<close>

theorem pull_complete:
  assumes "agree cs ds" and "parent_closed ds" and "set heads \<subseteq> ec_ChangeID ` set ds"
  shows "(\<forall>c\<in>set cs. ec_ChangeID c \<in> ec_ChangeID ` set ds \<or> c \<in> set (Missing cs heads)) \<and>
    (parent_closed cs \<longrightarrow> parent_closed (ds @ Missing cs heads)) \<and>
    ((\<forall>d\<in>set ds. \<forall>p\<in>set (ec_Parents d). rank p < (rank (ec_ChangeID d) :: nat)) \<and> ec_ChangeID ` set ds \<subseteq> ec_ChangeID ` set cs \<longrightarrow>
      set (Missing cs (Heads ds)) = {c \<in> set cs. ec_ChangeID c \<notin> ec_ChangeID ` set ds})"
proof -
  have all: "ec_ChangeID c \<in> ec_ChangeID ` set ds \<or> c \<in> set (Missing cs hs)"
    if "c \<in> set cs" "set hs \<subseteq> ec_ChangeID ` set ds" for c hs
    using that reaches_inside [OF _ that(2) assms(2,1)] by (auto simp: set_Missing)
  have "set (ec_Parents c) \<subseteq> ec_ChangeID ` set (ds @ Missing cs heads)" if "parent_closed cs" "c \<in> set (ds @ Missing cs heads)" for c
  proof (cases "c \<in> set ds")
    case True
    then show ?thesis using assms(2) by (auto simp: parent_closed_def)
  next
    case False
    then have "c \<in> set cs" using that(2) by (auto simp: set_Missing)
    then have "set (ec_Parents c) \<subseteq> ec_ChangeID ` set cs" using that(1) by (auto simp: parent_closed_def)
    then show ?thesis using all [OF _ assms(3)] by fastforce
  qed
  then have "parent_closed cs \<longrightarrow> parent_closed (ds @ Missing cs heads)" by (auto simp: parent_closed_def)
  moreover have "set (Missing cs (Heads ds)) = {c \<in> set cs. ec_ChangeID c \<notin> ec_ChangeID ` set ds}"
    if r: "\<forall>d\<in>set ds. \<forall>p\<in>set (ec_Parents d). rank p < (rank (ec_ChangeID d) :: nat)" and sub: "ec_ChangeID ` set ds \<subseteq> ec_ChangeID ` set cs"
  proof -
    have "set (Heads ds) \<subseteq> ec_ChangeID ` set ds" by (auto simp: Heads_def)
    moreover have "\<not> (c \<in> set (Missing cs (Heads ds)) \<and> ec_ChangeID c \<in> ec_ChangeID ` set ds)" for c
      using Heads_cover [OF r assms(1) sub] by (auto simp: set_Missing)
    ultimately show ?thesis using all [of _ "Heads ds"] by (auto simp: set_Missing)
  qed
  ultimately show ?thesis using all assms(3) by blast
qed

section \<open>The properties at work\<close>

text \<open>A digest without collisions, and a chain of three changes of which the puller holds the first.\<close>

definition plain_digest :: "byte list \<Rightarrow> string" where
  "plain_digest bs = string_of bs"

definition link :: "string \<Rightarrow> string list \<Rightarrow> EncryptedChange" where
  "link i ps = \<lparr>ec_SpaceID = ''s'', ec_ChangeID = i, ec_Parents = ps, ec_Ciphertext = [1]\<rparr>"

definition chain3 :: "EncryptedChange list" where
  "chain3 = [link ''a'' [], link ''b'' [''a''], link ''c'' [''b'']]"

definition minted :: EncryptedChange where
  "minted = \<lparr>ec_SpaceID = ''s'', ec_ChangeID = computeID plain_digest ''s'' (canonicalParents [''q'', ''p'', ''q'']) [1],
     ec_Parents = canonicalParents [''q'', ''p'', ''q''], ec_Ciphertext = [1]\<rparr>"

lemma plain_id [simp]: "computeID plain_digest s ps c \<noteq> []"
  by (simp add: computeID_def plain_digest_def string_of_def id_preimage_def writeField_def)

lemma minted_valid: "change_Validate plain_digest minted = None"
  by (simp add: change_Validate_def minted_def Let_def)

lemma change_identity_witness:
  "change_Validate plain_digest minted = None \<and> NewChange plain_digest ''s'' [''p'', ''q''] [1] = Inr minted"
proof -
  note i = change_identity [OF minted_valid, where ps = "[''p'', ''q'']", THEN conjunct2, THEN conjunct2]
  have k: "canonicalParents [''p'', ''q''] = ec_Parents minted" by (simp add: minted_def canonicalParents_set insert_commute)
  have "set [''p'', ''q''] - {[]} = set (ec_Parents minted) - {[]}"
    by (simp add: minted_def canonicalParents_def insert_commute)
  from mp [OF i [THEN conjunct2] this] i [THEN conjunct1, unfolded k]
  have "NewChange plain_digest (ec_SpaceID minted) [''p'', ''q''] (ec_Ciphertext minted) = Inr minted" by simp
  then show ?thesis using minted_valid by (simp add: minted_def)
qed

lemma envelope_binds_witness:
  "OpenSnapshotPlaintext \<lparr>es_SpaceID = ''s'', es_SnapshotID = [], es_Frontier = [''b'', ''a''], es_Ciphertext = []\<rparr>
     (SealSnapshotPlaintext ''s'' [''a'', ''b''] [7]) = Inr ([7], True)"
  using envelope_binds [of "''s''" "[''a'', ''b'']" "[7]" "\<lparr>es_SpaceID = ''s'', es_SnapshotID = [], es_Frontier = [''b'', ''a''], es_Ciphertext = []\<rparr>" "[]"]
  by (simp add: insert_commute)

lemma pull_complete_witness:
  "set (Missing chain3 (Heads [link ''a'' []])) = {link ''b'' [''a''], link ''c'' [''b'']}"
proof -
  have a: "agree chain3 [link ''a'' []]" "parent_closed [link ''a'' []]" "set [''a''] \<subseteq> ec_ChangeID ` set [link ''a'' []]"
    by (simp_all add: agree_def parent_closed_def chain3_def link_def)
  have b: "(\<forall>d\<in>set [link ''a'' []]. \<forall>p\<in>set (ec_Parents d). length p < length (ec_ChangeID d)) \<and> ec_ChangeID ` set [link ''a'' []] \<subseteq> ec_ChangeID ` set chain3"
    by (simp add: chain3_def link_def)
  have f: "filter (\<lambda>c. ec_ChangeID c \<notin> ec_ChangeID ` set [link ''a'' []]) chain3 = [link ''b'' [''a''], link ''c'' [''b'']]"
    by (simp add: chain3_def link_def)
  have "set (Missing chain3 (Heads [link ''a'' []])) = {c \<in> set chain3. ec_ChangeID c \<notin> ec_ChangeID ` set [link ''a'' []]}"
    by (rule mp [OF pull_complete [where rank = length, OF a, THEN conjunct2, THEN conjunct2] b])
  also have "\<dots> = set (filter (\<lambda>c. ec_ChangeID c \<notin> ec_ChangeID ` set [link ''a'' []]) chain3)" by (rule set_filter [symmetric])
  finally show ?thesis unfolding f by (simp only: list.set)
qed

text \<open>A holder of the chain that is asked for a head it does not know names that head.\<close>

lemma causal_questions_witness:
  "fst (HaveAll chain3 [''c'', ''x'']) = False \<and> reaches chain3 {''c'', ''x''} (snd (HaveAll chain3 [''c'', ''x''])) \<and>
   snd (HaveAll chain3 [''c'', ''x'']) \<notin> ec_ChangeID ` set chain3"
proof -
  have e: "HaveAll chain3 [''c'', ''x''] = (False, ''x'')" by code_simp
  show ?thesis using causal_questions [of chain3 "[''c'', ''x'']", unfolded e] by (simp add: e)
qed

end
