(* ===== verification/StateStore.thy ===== *)
theory StateStore
  imports Protocol
begin

text \<open>
  \<^verbatim>\<open>internal/personalstate/store\<close>: the tables in which a peer keeps personal state it cannot read, and every operation on
  them. \<^verbatim>\<open>store.go\<close> keeps the spaces and the wrapped copies of their keys, \<^verbatim>\<open>keyepoch.go\<close> rotates keys,
  \<^verbatim>\<open>members.go\<close>, \<^verbatim>\<open>recipients.go\<close> and \<^verbatim>\<open>grants.go\<close> decide for whom a key may be wrapped, \<^verbatim>\<open>changes.go\<close> and
  \<^verbatim>\<open>snapshots.go\<close> keep the log and its compaction. An operation is one step: it returns the refusal, and the
  tables are untouched, or the tables after it. What an operation reads and what it changes are one transaction, but for
  \<open>CompactChanges\<close>, which reads before the transaction that deletes. A table is the list of its rows; a query without \<^verbatim>\<open>ORDER BY\<close> is used as a
  set or reads one row by its key. \<open>D\<close> is the digest of the protocol, \<open>is_uuid\<close> is \<^verbatim>\<open>uuid.Parse\<close> succeeding, \<open>mint n\<close> the
  UUIDs made, numbered by the events recorded before, and \<open>now\<close> the clock in nanoseconds since 1970.
\<close>

section \<open>Times as text\<close>

text \<open>\<^verbatim>\<open>time.RFC3339Nano\<close> in UTC, the form of every time column: the fraction has no trailing zeros and no fixed
  width. The rows below keep the time itself, which the text determines; where a query orders by the column, it orders by the
  text.\<close>

definition pad :: "nat \<Rightarrow> nat \<Rightarrow> string" where
  "pad w n = replicate (w - length (dec n)) CHR ''0'' @ dec n"

text \<open>Year, month and day of the day that many days after 1970-01-01.\<close>

definition civil :: "int \<Rightarrow> int \<times> int \<times> int" where
  "civil days =
     (let z = days + 719468; era = z div 146097; doe = z mod 146097;
          yoe = (doe - doe div 1460 + doe div 36524 - doe div 146096) div 365;
          doy = doe - (365 * yoe + yoe div 4 - yoe div 100); mp = (5 * doy + 2) div 153;
          m = (if mp < 10 then mp + 3 else mp - 9)
      in (yoe + era * 400 + (if m \<le> 2 then 1 else 0), m, doy - (153 * mp + 2) div 5 + 1))"

definition seconds_text :: "int \<Rightarrow> string" where
  "seconds_text t =
     (let (y, m, d) = civil (t div 86400); s = t mod 86400
      in pad 4 (nat y) @ ''-'' @ pad 2 (nat m) @ ''-'' @ pad 2 (nat d) @ ''T'' @
         pad 2 (nat (s div 3600)) @ '':'' @ pad 2 (nat (s div 60 mod 60)) @ '':'' @ pad 2 (nat (s mod 60)))"

definition fraction_text :: "nat \<Rightarrow> string" where
  "fraction_text n = (if n = 0 then [] else ''.'' @ rev (dropWhile (\<lambda>c. c = CHR ''0'') (rev (pad 9 n))))"

definition RFC3339Nano :: "int \<Rightarrow> string" where
  "RFC3339Nano t = seconds_text (t div 1000000000) @ fraction_text (nat (t mod 1000000000)) @ ''Z''"

section \<open>The tables\<close>

record EncryptedSpace =
  spc_ID :: string
  spc_Kind :: string
  spc_CreatedAt :: int

record SpaceRow = EncryptedSpace +
  spc_Owner :: "string option"

datatype MemberRole = RoleOwner | RoleMember

record SpaceMember =
  sm_SpaceID :: string
  sm_PrincipalID :: string
  sm_Role :: MemberRole
  sm_AddedAt :: int
  sm_AddedByPrincipal :: string
  sm_AddedByDevice :: string
  sm_RemovedAt :: "int option"

record WrappedKey =
  wk_ID :: string
  wk_SpaceID :: string
  wk_Recipient :: string
  wk_Wrapped :: "byte list"
  wk_Epoch :: int
  wk_CreatedAt :: int

record KeyHistoryEntry =
  kh_SpaceID :: string
  kh_Epoch :: int
  kh_SealedPrev :: "byte list"
  kh_CreatedAt :: int

record ServiceRecipient =
  sr_ID :: string
  sr_PrincipalID :: string
  sr_Recipient :: string
  sr_Label :: string
  sr_Fingerprint :: string
  sr_RegisteredByPrincipal :: string
  sr_RegisteredByDevice :: string
  sr_CreatedAt :: int

record RecipientRow = ServiceRecipient +
  sr_RevokedAt :: "int option"

record SpaceGrant =
  sg_SpaceID :: string
  sg_PrincipalID :: string
  sg_Caps :: string
  sg_GrantedByPrincipal :: string
  sg_GrantedByDevice :: string
  sg_GrantedAt :: int
  sg_ExpiresAt :: "int option"

record GrantRow = SpaceGrant +
  sg_RevokedAt :: "int option"

record ChangeRow =
  cr_ChangeID :: string
  cr_SpaceID :: string
  cr_Parents :: string
  cr_Ciphertext :: "byte list"
  cr_CreatedAt :: int
  cr_Seq :: int

record SnapshotRow =
  sn_SnapshotID :: string
  sn_SpaceID :: string
  sn_Frontier :: string
  sn_Ciphertext :: "byte list"
  sn_CreatedAt :: int

text \<open>The events a transaction records, with what tells them apart.\<close>

datatype StoreEvent =
    SpaceCreated string string
  | SpaceKeyWrapped string string int
  | SpaceKeyRevoked string string "int option"
  | SpaceKeyRotated string int nat nat
  | SpaceKeyRotationReplicated string int nat
  | SpaceKeyHistoryBackfilled string int int
  | SpaceMemberAdded string string string string bool
  | SpaceMemberRemoved string string string string
  | ServiceRecipientRegistered string string string string string
  | ServiceRecipientRemoved string string string string nat
  | SpaceAccessGranted string string string string "int option" "string list"
  | SpaceAccessRevoked string string string nat
  | ChangeStored string string
  | SnapshotWritten string string
  | ChangesCompacted string string nat

record PStore =
  ps_spaces :: "SpaceRow list"
  ps_members :: "SpaceMember list"
  ps_wraps :: "WrappedKey list"
  ps_history :: "KeyHistoryEntry list"
  ps_recipients :: "RecipientRow list"
  ps_grants :: "GrantRow list"
  ps_changes :: "ChangeRow list"
  ps_snapshots :: "SnapshotRow list"
  ps_events :: "StoreEvent list"

definition empty_store :: PStore where
  "empty_store = \<lparr>ps_spaces = [], ps_members = [], ps_wraps = [], ps_history = [], ps_recipients = [], ps_grants = [],
     ps_changes = [], ps_snapshots = [], ps_events = []\<rparr>"

datatype store_error = ErrUnknownSpace | ErrEmptyWrapped | ErrEmptyRecipient | ErrStaleKeyEpoch | ErrFutureKeyEpoch
  | ErrKeyEpochConflict | ErrChangeKeyEpoch | ErrKeyHistoryConflict | ErrInvalidKeyEpoch | ErrEmptySealedPrev
  | ErrRotationDropsPreserved string | ErrRotationRecipientsChanged "string list" "string list"
  | ErrRotationRevokesRewrapped string | ErrNoRotationWraps
  | ErrNotMember | ErrOwnerNotRemovable | ErrEmptyMember
  | ErrRecipientTaken | ErrUnknownRecipient | ErrNotServiceRecipient string | ErrServiceRecipientUngranted string | ErrRecipientIsMemberKey
  | ErrInvalidCaps | ErrNotSpaceOwner | ErrNoGrant | ErrInvalidExpiry
  | ErrUnknownKind | ErrSpaceKind string | ErrNotUUID | ErrRefused protocol_error | ErrCheckConstraint

definition EmitTx :: "StoreEvent \<Rightarrow> PStore \<Rightarrow> PStore" where
  "EmitTx e s = s\<lparr>ps_events := ps_events s @ [e]\<rparr>"

definition mint_now :: "(nat \<Rightarrow> string) \<Rightarrow> PStore \<Rightarrow> string" where
  "mint_now mint s = mint (length (ps_events s))"

section \<open>Spaces\<close>

definition kind_valid :: "string \<Rightarrow> bool" where
  "kind_valid k \<longleftrightarrow> k \<in> {''personal'', ''family'', ''shared'', ''research''}"

definition space_row :: "PStore \<Rightarrow> string \<Rightarrow> SpaceRow option" where
  "space_row s i = find (\<lambda>r. spc_ID r = i) (ps_spaces s)"

definition Space :: "PStore \<Rightarrow> string \<Rightarrow> store_error + EncryptedSpace" where
  "Space s i = (case space_row s i of None \<Rightarrow> Inl ErrUnknownSpace | Some r \<Rightarrow> Inr (EncryptedSpace.truncate r))"

definition ListSpaces :: "PStore \<Rightarrow> EncryptedSpace list" where
  "ListSpaces s = rev (sort_key (\<lambda>r. (RFC3339Nano (spc_CreatedAt r), spc_ID r)) (map EncryptedSpace.truncate (ps_spaces s)))"

definition CreateSpace :: "(nat \<Rightarrow> string) \<Rightarrow> int \<Rightarrow> string \<Rightarrow> PStore \<Rightarrow> store_error + EncryptedSpace \<times> PStore" where
  "CreateSpace mint now kind s =
     (if \<not> kind_valid kind then Inl ErrUnknownKind
      else let sp = \<lparr>spc_ID = mint_now mint s, spc_Kind = kind, spc_CreatedAt = now\<rparr>
           in Inr (sp, EmitTx (SpaceCreated (spc_ID sp) kind)
                (s\<lparr>ps_spaces := ps_spaces s @ [EncryptedSpace.extend sp \<lparr>spc_Owner = None\<rparr>]\<rparr>)))"

definition insertOwnerRowTx :: "string \<Rightarrow> string \<Rightarrow> string \<Rightarrow> int \<Rightarrow> PStore \<Rightarrow> PStore" where
  "insertOwnerRowTx spaceID owner device now s =
     s\<lparr>ps_members := ps_members s @ [\<lparr>sm_SpaceID = spaceID, sm_PrincipalID = owner, sm_Role = RoleOwner, sm_AddedAt = now,
        sm_AddedByPrincipal = owner, sm_AddedByDevice = device, sm_RemovedAt = None\<rparr>]\<rparr>"

definition PutSpaceOwnedFrom ::
    "(string \<Rightarrow> bool) \<Rightarrow> int \<Rightarrow> string \<Rightarrow> string \<Rightarrow> string \<Rightarrow> string \<Rightarrow> PStore \<Rightarrow> store_error + EncryptedSpace \<times> PStore" where
  "PutSpaceOwnedFrom is_uuid now i kind owner device s =
     (if \<not> kind_valid kind then Inl ErrUnknownKind
      else if \<not> is_uuid i then Inl ErrNotUUID
      else case space_row s i of
        Some r \<Rightarrow> (if spc_Kind r \<noteq> kind then Inl (ErrSpaceKind (spc_Kind r)) else Inr (EncryptedSpace.truncate r, s))
      | None \<Rightarrow>
          (let sp = \<lparr>spc_ID = i, spc_Kind = kind, spc_CreatedAt = now\<rparr>;
               s1 = s\<lparr>ps_spaces := ps_spaces s @ [EncryptedSpace.extend sp \<lparr>spc_Owner = (if owner = [] then None else Some owner)\<rparr>]\<rparr>;
               s2 = (if owner = [] then s1 else insertOwnerRowTx i owner device now s1)
           in Inr (sp, EmitTx (SpaceCreated i kind) s2)))"

definition PutSpaceOwned where
  "PutSpaceOwned is_uuid now i kind owner s = PutSpaceOwnedFrom is_uuid now i kind owner [] s"

definition PutSpace where
  "PutSpace is_uuid now i kind s = PutSpaceOwned is_uuid now i kind [] s"

section \<open>Key epochs and wrapped copies\<close>

text \<open>The current epoch: the largest of the rows of the history, 0 with none.\<close>

definition keyEpochTx :: "PStore \<Rightarrow> string \<Rightarrow> int" where
  "keyEpochTx s spaceID = fold max (map kh_Epoch (filter (\<lambda>h. kh_SpaceID h = spaceID) (ps_history s))) 0"

definition spaceExistsTx :: "PStore \<Rightarrow> string \<Rightarrow> store_error option" where
  "spaceExistsTx s spaceID = (if space_row s spaceID = None then Some ErrUnknownSpace else None)"

definition KeyEpoch :: "PStore \<Rightarrow> string \<Rightarrow> store_error + int" where
  "KeyEpoch s spaceID = (case Space s spaceID of Inl e \<Rightarrow> Inl e | Inr _ \<Rightarrow> Inr (keyEpochTx s spaceID))"

definition wrappedKeysTx :: "PStore \<Rightarrow> string \<Rightarrow> WrappedKey list" where
  "wrappedKeysTx s spaceID = sort_key wk_Recipient (filter (\<lambda>w. wk_SpaceID w = spaceID) (ps_wraps s))"

definition WrappedKeysFor :: "PStore \<Rightarrow> string \<Rightarrow> store_error + WrappedKey list" where
  "WrappedKeysFor s spaceID = (case Space s spaceID of Inl e \<Rightarrow> Inl e | Inr _ \<Rightarrow> Inr (wrappedKeysTx s spaceID))"

definition KeyState :: "PStore \<Rightarrow> string \<Rightarrow> store_error + int \<times> WrappedKey list" where
  "KeyState s spaceID =
     (case spaceExistsTx s spaceID of Some e \<Rightarrow> Inl e | None \<Rightarrow> Inr (keyEpochTx s spaceID, wrappedKeysTx s spaceID))"

definition KeyHistory :: "PStore \<Rightarrow> string \<Rightarrow> store_error + KeyHistoryEntry list" where
  "KeyHistory s spaceID =
     (case Space s spaceID of Inl e \<Rightarrow> Inl e
      | Inr _ \<Rightarrow> Inr (sort_key kh_Epoch (filter (\<lambda>h. kh_SpaceID h = spaceID) (ps_history s))))"

definition checkWrapEpoch :: "int \<Rightarrow> int \<Rightarrow> store_error option" where
  "checkWrapEpoch current epoch = (if epoch < current then Some ErrStaleKeyEpoch else if epoch > current then Some ErrFutureKeyEpoch else None)"

definition same_wrap :: "string \<Rightarrow> string \<Rightarrow> WrappedKey \<Rightarrow> bool" where
  "same_wrap spaceID recipient w \<longleftrightarrow> wk_SpaceID w = spaceID \<and> wk_Recipient w = recipient"

definition upsertWrapTx ::
    "(nat \<Rightarrow> string) \<Rightarrow> string \<Rightarrow> string \<Rightarrow> byte list \<Rightarrow> int \<Rightarrow> int \<Rightarrow> PStore \<Rightarrow> WrappedKey \<times> PStore" where
  "upsertWrapTx mint spaceID recipient wrapped epoch now s =
     (let w = \<lparr>wk_ID = mint_now mint s, wk_SpaceID = spaceID, wk_Recipient = recipient, wk_Wrapped = wrapped, wk_Epoch = epoch,
               wk_CreatedAt = now\<rparr>;
          rows = (if list_ex (same_wrap spaceID recipient) (ps_wraps s)
                  then map (\<lambda>v. if same_wrap spaceID recipient v then w else v) (ps_wraps s) else ps_wraps s @ [w])
      in (w, EmitTx (SpaceKeyWrapped spaceID recipient epoch) (s\<lparr>ps_wraps := rows\<rparr>)))"

text \<open>A recipient registered by an executor may hold a copy only while the executor has an active grant.\<close>

definition live_recipient :: "PStore \<Rightarrow> string \<Rightarrow> RecipientRow option" where
  "live_recipient s recipient = find (\<lambda>r. sr_Recipient r = recipient \<and> sr_RevokedAt r = None) (ps_recipients s)"

definition unrevoked_grant :: "PStore \<Rightarrow> string \<Rightarrow> string \<Rightarrow> GrantRow option" where
  "unrevoked_grant s spaceID pid =
     find (\<lambda>g. sg_SpaceID g = spaceID \<and> sg_PrincipalID g = pid \<and> sg_RevokedAt g = None) (ps_grants s)"

definition before_expiry :: "int \<Rightarrow> int option \<Rightarrow> bool" where
  "before_expiry now expires \<longleftrightarrow> (case expires of None \<Rightarrow> True | Some e \<Rightarrow> now < e)"

definition serviceWrapAllowedTx :: "PStore \<Rightarrow> string \<Rightarrow> string \<Rightarrow> int \<Rightarrow> store_error option" where
  "serviceWrapAllowedTx s spaceID recipient now =
     (case live_recipient s recipient of
        None \<Rightarrow> None
      | Some r \<Rightarrow>
          (case unrevoked_grant s spaceID (sr_PrincipalID r) of
             None \<Rightarrow> Some (ErrServiceRecipientUngranted recipient)
           | Some g \<Rightarrow> (if before_expiry now (sg_ExpiresAt g) then None else Some (ErrServiceRecipientUngranted recipient))))"

definition PutWrappedKey ::
    "(nat \<Rightarrow> string) \<Rightarrow> int \<Rightarrow> string \<Rightarrow> string \<Rightarrow> byte list \<Rightarrow> int \<Rightarrow> PStore \<Rightarrow> store_error + WrappedKey \<times> PStore" where
  "PutWrappedKey mint now spaceID recipient wrapped epoch s =
     (if recipient = [] then Inl ErrEmptyRecipient
      else if wrapped = [] then Inl ErrEmptyWrapped
      else if space_row s spaceID = None then Inl ErrUnknownSpace
      else case checkWrapEpoch (keyEpochTx s spaceID) epoch of
        Some e \<Rightarrow> Inl e
      | None \<Rightarrow> (case serviceWrapAllowedTx s spaceID recipient now of
          Some e \<Rightarrow> Inl e
        | None \<Rightarrow> Inr (upsertWrapTx mint spaceID recipient wrapped epoch now s)))"

definition DeleteWrappedKey :: "string \<Rightarrow> string \<Rightarrow> PStore \<Rightarrow> store_error + PStore" where
  "DeleteWrappedKey spaceID recipient s =
     (case Space s spaceID of Inl e \<Rightarrow> Inl e
      | Inr _ \<Rightarrow>
          (if \<not> list_ex (same_wrap spaceID recipient) (ps_wraps s) then Inr s
           else Inr (EmitTx (SpaceKeyRevoked spaceID recipient None)
                  (s\<lparr>ps_wraps := filter (\<lambda>w. \<not> same_wrap spaceID recipient w) (ps_wraps s)\<rparr>))))"

section \<open>Rotation\<close>

definition dropStaleWrapsTx :: "string \<Rightarrow> int \<Rightarrow> PStore \<Rightarrow> string list \<times> PStore" where
  "dropStaleWrapsTx spaceID epoch s =
     (sort (map wk_Recipient (filter (\<lambda>w. wk_SpaceID w = spaceID \<and> wk_Epoch w < epoch) (ps_wraps s))),
      s\<lparr>ps_wraps := filter (\<lambda>w. \<not> (wk_SpaceID w = spaceID \<and> wk_Epoch w < epoch)) (ps_wraps s)\<rparr>)"

record RecipientWrap =
  rw_Recipient :: string
  rw_Wrapped :: "byte list"

fun check_wraps :: "RecipientWrap list \<Rightarrow> store_error option" where
  "check_wraps [] = None"
| "check_wraps (w # ws) =
     (if rw_Recipient w = [] then Some ErrEmptyRecipient else if rw_Wrapped w = [] then Some ErrEmptyWrapped else check_wraps ws)"

fun check_revokes :: "string list \<Rightarrow> string list \<Rightarrow> store_error option" where
  "check_revokes rewrapping [] = None"
| "check_revokes rewrapping (r # rs) =
     (if r = [] then Some ErrEmptyRecipient
      else if r \<in> set rewrapping then Some (ErrRotationRevokesRewrapped r) else check_revokes rewrapping rs)"

text \<open>The two lists of the refusal: who holds a current copy and is not accounted for, and who is named without holding
  one.\<close>

definition checkRotationRecipients :: "WrappedKey list \<Rightarrow> int \<Rightarrow> string list \<Rightarrow> string list \<Rightarrow> store_error option" where
  "checkRotationRecipients held current rewrapping revoking =
     (let holding = map wk_Recipient (filter (\<lambda>h. wk_Epoch h = current) held);
          added = filter (\<lambda>r. r \<notin> set rewrapping \<and> r \<notin> set revoking) holding;
          gone = filter (\<lambda>r. r \<notin> set holding) (remdups rewrapping @ remdups revoking)
      in if added = [] \<and> gone = [] then None else Some (ErrRotationRecipientsChanged (sort added) (sort gone)))"

fun first_error :: "('a \<Rightarrow> store_error option) \<Rightarrow> 'a list \<Rightarrow> store_error option" where
  "first_error f [] = None"
| "first_error f (x # xs) = (case f x of Some e \<Rightarrow> Some e | None \<Rightarrow> first_error f xs)"

definition upsert_all :: "(nat \<Rightarrow> string) \<Rightarrow> string \<Rightarrow> int \<Rightarrow> int \<Rightarrow> RecipientWrap list \<Rightarrow> PStore \<Rightarrow> PStore" where
  "upsert_all mint spaceID epoch now ws s =
     fold (\<lambda>w s. snd (upsertWrapTx mint spaceID (rw_Recipient w) (rw_Wrapped w) epoch now s)) ws s"

definition add_history :: "string \<Rightarrow> int \<Rightarrow> byte list \<Rightarrow> int \<Rightarrow> PStore \<Rightarrow> PStore" where
  "add_history spaceID epoch sealedPrev now s =
     s\<lparr>ps_history := ps_history s @ [\<lparr>kh_SpaceID = spaceID, kh_Epoch = epoch, kh_SealedPrev = sealedPrev, kh_CreatedAt = now\<rparr>]\<rparr>"

definition revoked_events :: "string \<Rightarrow> int \<Rightarrow> string list \<Rightarrow> PStore \<Rightarrow> PStore" where
  "revoked_events spaceID epoch rs s = fold (\<lambda>r. EmitTx (SpaceKeyRevoked spaceID r (Some epoch))) rs s"

text \<open>\<^verbatim>\<open>expectedEpoch + 1\<close> is a 64-bit sum, and the table admits only epochs from 1 on.\<close>

definition RotateKey ::
    "(nat \<Rightarrow> string) \<Rightarrow> int \<Rightarrow> string \<Rightarrow> int \<Rightarrow> byte list \<Rightarrow> RecipientWrap list \<Rightarrow> string list \<Rightarrow> (string \<Rightarrow> bool) \<Rightarrow> PStore \<Rightarrow>
      store_error + int \<times> PStore" where
  "RotateKey mint now spaceID expectedEpoch sealedPrev wraps revoke preserve s =
     (if expectedEpoch < 0 then Inl ErrInvalidKeyEpoch
      else if sealedPrev = [] then Inl ErrEmptySealedPrev
      else if wraps = [] then Inl ErrNoRotationWraps
      else case check_wraps wraps of Some e \<Rightarrow> Inl e | None \<Rightarrow>
        (let rewrapping = map rw_Recipient wraps in
         case check_revokes rewrapping revoke of Some e \<Rightarrow> Inl e | None \<Rightarrow>
         (case spaceExistsTx s spaceID of Some e \<Rightarrow> Inl e | None \<Rightarrow>
          (let current = keyEpochTx s spaceID; held = wrappedKeysTx s spaceID in
           if current \<noteq> expectedEpoch then Inl ErrKeyEpochConflict
           else case first_error (\<lambda>w. serviceWrapAllowedTx s spaceID (rw_Recipient w) now) wraps of Some e \<Rightarrow> Inl e | None \<Rightarrow>
            (case checkRotationRecipients held current rewrapping revoke of Some e \<Rightarrow> Inl e | None \<Rightarrow>
              (case find (\<lambda>h. wk_Epoch h = current \<and> preserve (wk_Recipient h) \<and> wk_Recipient h \<notin> set rewrapping) held of
                 Some h \<Rightarrow> Inl (ErrRotationDropsPreserved (wk_Recipient h))
               | None \<Rightarrow>
                   (let nxt = wrap64 (expectedEpoch + 1) in
                    if nxt < 1 then Inl ErrCheckConstraint
                    else let s1 = upsert_all mint spaceID nxt now wraps (add_history spaceID nxt sealedPrev now s);
                             (dropped, s2) = dropStaleWrapsTx spaceID nxt s1;
                             s3 = revoked_events spaceID nxt dropped s2
                         in Inr (nxt, EmitTx (SpaceKeyRotated spaceID nxt (length (remdups rewrapping)) (length dropped)) s3))))))))"

definition history_row :: "PStore \<Rightarrow> string \<Rightarrow> int \<Rightarrow> KeyHistoryEntry option" where
  "history_row s spaceID epoch = find (\<lambda>h. kh_SpaceID h = spaceID \<and> kh_Epoch h = epoch) (ps_history s)"

definition PutKeyHistory :: "int \<Rightarrow> string \<Rightarrow> int \<Rightarrow> byte list \<Rightarrow> PStore \<Rightarrow> store_error + PStore" where
  "PutKeyHistory now spaceID epoch sealedPrev s =
     (if epoch < 1 then Inl ErrInvalidKeyEpoch
      else if sealedPrev = [] then Inl ErrEmptySealedPrev
      else case spaceExistsTx s spaceID of Some e \<Rightarrow> Inl e | None \<Rightarrow>
        (case history_row s spaceID epoch of
           Some h \<Rightarrow> (if kh_SealedPrev h = sealedPrev then Inr s else Inl ErrKeyHistoryConflict)
         | None \<Rightarrow>
             (let current = keyEpochTx s spaceID; s1 = add_history spaceID epoch sealedPrev now s
              in if epoch > current
                 then let (dropped, s2) = dropStaleWrapsTx spaceID epoch s1
                      in Inr (EmitTx (SpaceKeyRotationReplicated spaceID epoch (length dropped)) (revoked_events spaceID epoch dropped s2))
                 else Inr (EmitTx (SpaceKeyHistoryBackfilled spaceID epoch current) s1))))"

section \<open>Executors' keys\<close>

definition deleteRecipientWrapsTx :: "string \<Rightarrow> string \<Rightarrow> PStore \<Rightarrow> string list \<times> PStore" where
  "deleteRecipientWrapsTx spaceID recipient s =
     (let hit = (\<lambda>w. wk_Recipient w = recipient \<and> (spaceID \<noteq> [] \<longrightarrow> wk_SpaceID w = spaceID))
      in (map wk_SpaceID (filter hit (ps_wraps s)), s\<lparr>ps_wraps := filter (\<lambda>w. \<not> hit w) (ps_wraps s)\<rparr>))"

text \<open>What was deleted, as pairs of a space and a recipient.\<close>

fun deleteWrapsForTx :: "string \<Rightarrow> string list \<Rightarrow> PStore \<Rightarrow> (string \<times> string) list \<times> PStore" where
  "deleteWrapsForTx spaceID [] s = ([], s)"
| "deleteWrapsForTx spaceID (r # rs) s =
     (let (hit, s1) = deleteRecipientWrapsTx spaceID r s;
          s2 = fold (\<lambda>i. EmitTx (SpaceKeyRevoked i r None)) hit s1;
          (gone, s3) = deleteWrapsForTx spaceID rs s2
      in (map (\<lambda>i. (i, r)) hit @ gone, s3))"

text \<open>\<open>member_key\<close> says that a key is an enrolled device's or a recovery key, rows of another component's tables.\<close>

definition RegisterServiceRecipient ::
    "(nat \<Rightarrow> string) \<Rightarrow> (string \<Rightarrow> bool) \<Rightarrow> int \<Rightarrow> string \<Rightarrow> string \<Rightarrow> string \<Rightarrow> string \<Rightarrow> string \<Rightarrow> string \<Rightarrow> PStore \<Rightarrow>
      store_error + ServiceRecipient \<times> bool \<times> PStore" where
  "RegisterServiceRecipient mint member_key now principalID recipient label fingerprint by device s =
     (if recipient = [] then Inl ErrEmptyRecipient
      else case live_recipient s recipient of
        Some r \<Rightarrow> (if sr_PrincipalID r \<noteq> principalID then Inl ErrRecipientTaken else Inr (ServiceRecipient.truncate r, False, s))
      | None \<Rightarrow>
          (if member_key recipient then Inl ErrRecipientIsMemberKey
           else let sr = \<lparr>sr_ID = mint_now mint s, sr_PrincipalID = principalID, sr_Recipient = recipient, sr_Label = label,
                          sr_Fingerprint = fingerprint, sr_RegisteredByPrincipal = by, sr_RegisteredByDevice = device,
                          sr_CreatedAt = now\<rparr>
                in Inr (sr, True, EmitTx (ServiceRecipientRegistered (sr_ID sr) principalID recipient fingerprint device)
                     (s\<lparr>ps_recipients := ps_recipients s @ [ServiceRecipient.extend sr \<lparr>sr_RevokedAt = None\<rparr>]\<rparr>))))"

definition RemoveServiceRecipient :: "int \<Rightarrow> string \<Rightarrow> string \<Rightarrow> PStore \<Rightarrow> store_error + ServiceRecipient \<times> string list \<times> PStore" where
  "RemoveServiceRecipient now ref device s =
     (case find (\<lambda>r. (sr_ID r = ref \<or> sr_Recipient r = ref) \<and> sr_RevokedAt r = None) (ps_recipients s) of
        None \<Rightarrow> Inl ErrUnknownRecipient
      | Some sr \<Rightarrow>
          (let s1 = s\<lparr>ps_recipients := map (\<lambda>r. if sr_ID r = sr_ID sr then r\<lparr>sr_RevokedAt := Some now\<rparr> else r) (ps_recipients s)\<rparr>;
               (gone, s2) = deleteWrapsForTx [] [sr_Recipient sr] s1
           in Inr (ServiceRecipient.truncate sr, map fst gone,
                EmitTx (ServiceRecipientRemoved (sr_ID sr) (sr_PrincipalID sr) (sr_Recipient sr) device (length gone)) s2)))"

definition ServiceRecipients :: "PStore \<Rightarrow> ServiceRecipient list" where
  "ServiceRecipients s =
     sort_key (\<lambda>r. (RFC3339Nano (sr_CreatedAt r), sr_ID r))
       (map ServiceRecipient.truncate (filter (\<lambda>r. sr_RevokedAt r = None) (ps_recipients s)))"

definition RecipientsOf :: "PStore \<Rightarrow> string \<Rightarrow> string fset" where
  "RecipientsOf s principalID =
     fset_of_list (map sr_Recipient (filter (\<lambda>r. sr_PrincipalID r = principalID \<and> sr_RevokedAt r = None) (ps_recipients s)))"

definition GrantedServiceRecipients :: "int \<Rightarrow> PStore \<Rightarrow> string \<Rightarrow> string fset" where
  "GrantedServiceRecipients now s spaceID =
     fset_of_list (map (sr_Recipient \<circ> fst) (filter (\<lambda>(r, g). before_expiry now (sg_ExpiresAt g))
       (filter (\<lambda>(r, g). sg_PrincipalID g = sr_PrincipalID r \<and> sg_SpaceID g = spaceID \<and> sg_RevokedAt g = None \<and> sr_RevokedAt r = None)
         (List.product (ps_recipients s) (ps_grants s)))))"

section \<open>Grants\<close>

definition CapsRead :: string where "CapsRead = ''read''"
definition CapsReadWrite :: string where "CapsReadWrite = ''read,write''"

record GrantWrap =
  gw_Recipient :: string
  gw_Wrapped :: "byte list"
  gw_Epoch :: int

definition ownerMayAct :: "PStore \<Rightarrow> string \<Rightarrow> string \<Rightarrow> store_error option" where
  "ownerMayAct s spaceID by =
     (case space_row s spaceID of
        None \<Rightarrow> Some ErrUnknownSpace
      | Some r \<Rightarrow> (case spc_Owner r of None \<Rightarrow> None | Some ow \<Rightarrow> if ow \<noteq> by then Some ErrNotSpaceOwner else None))"

fun put_grant_wraps ::
    "(nat \<Rightarrow> string) \<Rightarrow> string \<Rightarrow> string fset \<Rightarrow> int \<Rightarrow> int \<Rightarrow> GrantWrap list \<Rightarrow> PStore \<Rightarrow> store_error + PStore" where
  "put_grant_wraps mint spaceID own current now [] s = Inr s"
| "put_grant_wraps mint spaceID own current now (w # ws) s =
     (if gw_Recipient w = [] then Inl ErrEmptyRecipient
      else if gw_Wrapped w = [] then Inl ErrEmptyWrapped
      else if gw_Recipient w |\<notin>| own then Inl (ErrNotServiceRecipient (gw_Recipient w))
      else case checkWrapEpoch current (gw_Epoch w) of
        Some e \<Rightarrow> Inl e
      | None \<Rightarrow> (case serviceWrapAllowedTx s spaceID (gw_Recipient w) now of
          Some e \<Rightarrow> Inl e
        | None \<Rightarrow> put_grant_wraps mint spaceID own current now ws
                   (snd (upsertWrapTx mint spaceID (gw_Recipient w) (gw_Wrapped w) (gw_Epoch w) now s))))"

definition putGrantWrapsTx where
  "putGrantWrapsTx mint spaceID principalID wraps now s =
     (if wraps = [] then Inr s
      else put_grant_wraps mint spaceID (RecipientsOf s principalID) (keyEpochTx s spaceID) now wraps s)"

definition same_grant :: "string \<Rightarrow> string \<Rightarrow> GrantRow \<Rightarrow> bool" where
  "same_grant spaceID pid g \<longleftrightarrow> sg_SpaceID g = spaceID \<and> sg_PrincipalID g = pid"

definition GrantAccess ::
    "(nat \<Rightarrow> string) \<Rightarrow> int \<Rightarrow> string \<Rightarrow> string \<Rightarrow> string \<Rightarrow> string \<Rightarrow> string \<Rightarrow> int option \<Rightarrow> GrantWrap list \<Rightarrow> PStore \<Rightarrow>
      store_error + SpaceGrant \<times> PStore" where
  "GrantAccess mint now spaceID principalID caps by device expiresAt wraps s =
     (if caps \<noteq> CapsRead \<and> caps \<noteq> CapsReadWrite then Inl ErrInvalidCaps
      else if (case expiresAt of None \<Rightarrow> False | Some e \<Rightarrow> \<not> e > now) then Inl ErrInvalidExpiry
      else case ownerMayAct s spaceID by of Some e \<Rightarrow> Inl e | None \<Rightarrow>
        (let g = \<lparr>sg_SpaceID = spaceID, sg_PrincipalID = principalID, sg_Caps = caps, sg_GrantedByPrincipal = by,
                  sg_GrantedByDevice = device, sg_GrantedAt = now, sg_ExpiresAt = expiresAt\<rparr>;
             row = SpaceGrant.extend g \<lparr>sg_RevokedAt = None\<rparr>;
             rows = (if list_ex (same_grant spaceID principalID) (ps_grants s)
                     then map (\<lambda>h. if same_grant spaceID principalID h then row else h) (ps_grants s) else ps_grants s @ [row])
         in case putGrantWrapsTx mint spaceID principalID wraps now (s\<lparr>ps_grants := rows\<rparr>) of
              Inl e \<Rightarrow> Inl e
            | Inr s1 \<Rightarrow> Inr (g, EmitTx (SpaceAccessGranted spaceID principalID caps device expiresAt (map gw_Recipient wraps)) s1)))"

definition RevokeAccess :: "int \<Rightarrow> string \<Rightarrow> string \<Rightarrow> string \<Rightarrow> string \<Rightarrow> PStore \<Rightarrow> store_error + string list \<times> PStore" where
  "RevokeAccess now spaceID principalID by device s =
     (case ownerMayAct s spaceID by of Some e \<Rightarrow> Inl e | None \<Rightarrow>
        (let active = (case unrevoked_grant s spaceID principalID of None \<Rightarrow> False | Some g \<Rightarrow> before_expiry now (sg_ExpiresAt g));
             s1 = (if active
                   then s\<lparr>ps_grants := map (\<lambda>g. if same_grant spaceID principalID g \<and> sg_RevokedAt g = None
                                              then g\<lparr>sg_RevokedAt := Some now\<rparr> else g) (ps_grants s)\<rparr>
                   else s);
             keys = sort (remdups (map sr_Recipient (filter (\<lambda>r. sr_PrincipalID r = principalID) (ps_recipients s1))));
             (hit, s2) = deleteWrapsForTx spaceID keys s1
         in if \<not> active \<and> hit = [] then Inl ErrNoGrant
            else Inr (map snd hit,
                   if active then EmitTx (SpaceAccessRevoked spaceID principalID device (length hit)) s2 else s2)))"

definition ActiveGrant :: "int \<Rightarrow> PStore \<Rightarrow> string \<Rightarrow> string \<Rightarrow> SpaceGrant option" where
  "ActiveGrant now s spaceID principalID =
     (case find (same_grant spaceID principalID) (ps_grants s) of
        None \<Rightarrow> None
      | Some g \<Rightarrow> (if sg_RevokedAt g \<noteq> None then None
                  else if \<not> before_expiry now (sg_ExpiresAt g) then None else Some (SpaceGrant.truncate g)))"

definition grantedSpaces :: "int \<Rightarrow> PStore \<Rightarrow> string \<Rightarrow> bool \<Rightarrow> string fset" where
  "grantedSpaces now s principalID writeOnly =
     fset_of_list (map sg_SpaceID (filter (\<lambda>g. before_expiry now (sg_ExpiresAt g))
       (filter (\<lambda>g. sg_PrincipalID g = principalID \<and> sg_RevokedAt g = None \<and> (writeOnly \<longrightarrow> sg_Caps g = CapsReadWrite)) (ps_grants s))))"

definition GrantedSpaceIDs :: "int \<Rightarrow> PStore \<Rightarrow> string \<Rightarrow> string fset" where
  "GrantedSpaceIDs now s principalID = grantedSpaces now s principalID False"

definition HasAnyGrant :: "int \<Rightarrow> PStore \<Rightarrow> string \<Rightarrow> bool" where
  "HasAnyGrant now s principalID \<longleftrightarrow> grantedSpaces now s principalID False \<noteq> {||}"

definition HasAnyWriteGrant :: "int \<Rightarrow> PStore \<Rightarrow> string \<Rightarrow> bool" where
  "HasAnyWriteGrant now s principalID \<longleftrightarrow> grantedSpaces now s principalID True \<noteq> {||}"

section \<open>Members\<close>

definition memberRowTx :: "PStore \<Rightarrow> string \<Rightarrow> string \<Rightarrow> SpaceMember option" where
  "memberRowTx s spaceID principalID = find (\<lambda>m. sm_SpaceID m = spaceID \<and> sm_PrincipalID m = principalID) (ps_members s)"

definition Current_member :: "SpaceMember \<Rightarrow> bool" where
  "Current_member m \<longleftrightarrow> sm_RemovedAt m = None"

text \<open>The kind and the recorded owner, empty for none.\<close>

definition memberChangeAllowed :: "PStore \<Rightarrow> string \<Rightarrow> string \<Rightarrow> store_error + string \<times> string" where
  "memberChangeAllowed s spaceID by =
     (case space_row s spaceID of
        None \<Rightarrow> Inl ErrUnknownSpace
      | Some r \<Rightarrow>
          (if spc_Kind r \<noteq> ''family'' \<and> (case spc_Owner r of None \<Rightarrow> False | Some ow \<Rightarrow> ow \<noteq> by) then Inl ErrNotSpaceOwner
           else Inr (spc_Kind r, case spc_Owner r of None \<Rightarrow> [] | Some ow \<Rightarrow> ow)))"

definition ensureOwnerRowTx :: "string \<Rightarrow> string \<Rightarrow> int \<Rightarrow> PStore \<Rightarrow> PStore" where
  "ensureOwnerRowTx spaceID owner now s =
     (if owner = [] \<or> memberRowTx s spaceID owner \<noteq> None then s else insertOwnerRowTx spaceID owner [] now s)"

text \<open>A member who is in already is returned before anything is committed: the tables stay as they were.\<close>

definition AddMember :: "int \<Rightarrow> string \<Rightarrow> string \<Rightarrow> string \<Rightarrow> string \<Rightarrow> PStore \<Rightarrow> store_error + SpaceMember \<times> PStore" where
  "AddMember now spaceID principalID by device s =
     (if principalID = [] then Inl ErrEmptyMember
      else case memberChangeAllowed s spaceID by of
        Inl e \<Rightarrow> Inl e
      | Inr (kind, owner) \<Rightarrow>
          (let s1 = ensureOwnerRowTx spaceID owner now s; existing = memberRowTx s1 spaceID principalID
           in case existing of
                Some m \<Rightarrow>
                  (if Current_member m then Inr (m, s)
                   else let n = \<lparr>sm_SpaceID = spaceID, sm_PrincipalID = principalID, sm_Role = RoleMember, sm_AddedAt = now,
                                 sm_AddedByPrincipal = by, sm_AddedByDevice = device, sm_RemovedAt = None\<rparr>
                        in Inr (n, EmitTx (SpaceMemberAdded spaceID principalID kind device True)
                             (s1\<lparr>ps_members := map (\<lambda>r. if sm_SpaceID r = spaceID \<and> sm_PrincipalID r = principalID then n else r)
                                                  (ps_members s1)\<rparr>)))
              | None \<Rightarrow>
                  (let n = \<lparr>sm_SpaceID = spaceID, sm_PrincipalID = principalID, sm_Role = RoleMember, sm_AddedAt = now,
                            sm_AddedByPrincipal = by, sm_AddedByDevice = device, sm_RemovedAt = None\<rparr>
                   in Inr (n, EmitTx (SpaceMemberAdded spaceID principalID kind device False)
                        (s1\<lparr>ps_members := ps_members s1 @ [n]\<rparr>)))))"

definition RemoveMember :: "int \<Rightarrow> string \<Rightarrow> string \<Rightarrow> string \<Rightarrow> string \<Rightarrow> PStore \<Rightarrow> store_error + SpaceMember \<times> PStore" where
  "RemoveMember now spaceID principalID by device s =
     (if principalID = [] then Inl ErrEmptyMember
      else case memberChangeAllowed s spaceID by of
        Inl e \<Rightarrow> Inl e
      | Inr (kind, owner) \<Rightarrow>
          (if owner \<noteq> [] \<and> principalID = owner then Inl ErrOwnerNotRemovable
           else case memberRowTx s spaceID principalID of
             None \<Rightarrow> Inl ErrNotMember
           | Some m \<Rightarrow>
               (if \<not> Current_member m then Inl ErrNotMember
                else if sm_Role m = RoleOwner then Inl ErrOwnerNotRemovable
                else Inr (m\<lparr>sm_RemovedAt := Some now\<rparr>,
                       EmitTx (SpaceMemberRemoved spaceID principalID kind device)
                         (s\<lparr>ps_members := map (\<lambda>r. if sm_SpaceID r = spaceID \<and> sm_PrincipalID r = principalID
                                                   then r\<lparr>sm_RemovedAt := Some now\<rparr> else r) (ps_members s)\<rparr>)))))"

fun role_rank :: "MemberRole \<Rightarrow> nat" where
  "role_rank RoleOwner = 0"
| "role_rank RoleMember = 1"

definition Members :: "PStore \<Rightarrow> string \<Rightarrow> store_error + SpaceMember list" where
  "Members s spaceID =
     (case Space s spaceID of Inl e \<Rightarrow> Inl e
      | Inr _ \<Rightarrow> Inr (sort_key (\<lambda>m. (role_rank (sm_Role m), RFC3339Nano (sm_AddedAt m), sm_PrincipalID m))
                     (filter (\<lambda>m. sm_SpaceID m = spaceID) (ps_members s))))"

record Membership =
  mb_Kind :: string
  mb_Current :: "string fset"
  mb_Removed :: "string fset"

definition Gated :: "Membership \<Rightarrow> bool" where
  "Gated m \<longleftrightarrow> mb_Kind m \<noteq> ''family'' \<and> (mb_Current m \<noteq> {||} \<or> mb_Removed m \<noteq> {||})"

definition SpaceMembership :: "PStore \<Rightarrow> string \<Rightarrow> store_error + Membership" where
  "SpaceMembership s spaceID =
     (case Space s spaceID of Inl e \<Rightarrow> Inl e
      | Inr sp \<Rightarrow>
          (let rows = filter (\<lambda>m. sm_SpaceID m = spaceID) (ps_members s)
           in Inr \<lparr>mb_Kind = spc_Kind sp, mb_Current = fset_of_list (map sm_PrincipalID (filter Current_member rows)),
                   mb_Removed = fset_of_list (map sm_PrincipalID (filter (\<lambda>m. \<not> Current_member m) rows))\<rparr>))"

end
