(* ===== verification/StateLog.thy ===== *)
theory StateLog
  imports StateStore
begin

text \<open>
  \<^verbatim>\<open>internal/personalstate/store/changes.go\<close> and \<^verbatim>\<open>snapshots.go\<close>: the log of changes a peer holds, read whole or after a
  cursor, the snapshots and the compaction of the log; and \<^verbatim>\<open>internal/personalstate/replication/reconcile.go\<close>, which carries
  all of it to another peer. The other peer is reached through the operations of \<^verbatim>\<open>Pusher\<close>, each of which can fail;
  \<open>peer_pusher\<close> is the peer that answers with its own store (\<^verbatim>\<open>internal/api/peerapi/state.go\<close>) until the connection drops.
\<close>

section \<open>Lists of ids in a column\<close>

definition ids_text :: "string list \<Rightarrow> string" where
  "ids_text ids = join_with CHR '','' ids"

definition text_ids :: "string \<Rightarrow> string list" where
  "text_ids t = (if t \<noteq> [] then split_on CHR '','' t else [])"

section \<open>Changes\<close>

definition next_seq :: "PStore \<Rightarrow> int" where
  "next_seq s = (if ps_changes s = [] then 0 else Max (set (map cr_Seq (ps_changes s)))) + 1"

definition holds_change :: "PStore \<Rightarrow> string \<Rightarrow> bool" where
  "holds_change s i \<longleftrightarrow> list_ex (\<lambda>r. cr_ChangeID r = i) (ps_changes s)"

definition change_row :: "int \<Rightarrow> int \<Rightarrow> EncryptedChange \<Rightarrow> ChangeRow" where
  "change_row now sq ch = \<lparr>cr_ChangeID = ec_ChangeID ch, cr_SpaceID = ec_SpaceID ch, cr_Parents = ids_text (ec_Parents ch),
     cr_Ciphertext = ec_Ciphertext ch, cr_CreatedAt = now, cr_Seq = sq\<rparr>"

definition putChange ::
    "(byte list \<Rightarrow> string) \<Rightarrow> int \<Rightarrow> EncryptedChange \<Rightarrow> int option \<Rightarrow> PStore \<Rightarrow> store_error + PStore" where
  "putChange D now ch epoch s =
     (case change_Validate D ch of
        Some e \<Rightarrow> Inl (ErrRefused e)
      | None \<Rightarrow>
          (if space_row s (ec_SpaceID ch) = None then Inl ErrUnknownSpace
           else if epoch \<noteq> None \<and> holds_change s (ec_ChangeID ch) then Inr s
           else if epoch \<noteq> None \<and> epoch \<noteq> Some (keyEpochTx s (ec_SpaceID ch)) then Inl ErrChangeKeyEpoch
           else if holds_change s (ec_ChangeID ch) then Inr s
           else Inr (EmitTx (ChangeStored (ec_ChangeID ch) (ec_SpaceID ch))
                  (s\<lparr>ps_changes := ps_changes s @ [change_row now (next_seq s) ch]\<rparr>))))"

definition PutChange where
  "PutChange D now ch s = putChange D now ch None s"

definition PutChangeAtEpoch where
  "PutChangeAtEpoch D now ch epoch s = (if epoch < 0 then Inl ErrInvalidKeyEpoch else putChange D now ch (Some epoch) s)"

definition row_change :: "ChangeRow \<Rightarrow> EncryptedChange" where
  "row_change r = \<lparr>ec_SpaceID = cr_SpaceID r, ec_ChangeID = cr_ChangeID r, ec_Parents = text_ids (cr_Parents r),
     ec_Ciphertext = cr_Ciphertext r\<rparr>"

definition space_changes :: "PStore \<Rightarrow> string \<Rightarrow> ChangeRow list" where
  "space_changes s spaceID = sort_key cr_Seq (filter (\<lambda>r. cr_SpaceID r = spaceID) (ps_changes s))"

definition ChangesFor :: "PStore \<Rightarrow> string \<Rightarrow> store_error + EncryptedChange list" where
  "ChangesFor s spaceID =
     (case Space s spaceID of Inl e \<Rightarrow> Inl e | Inr _ \<Rightarrow> Inr (map row_change (space_changes s spaceID)))"

definition ChangesSince :: "PStore \<Rightarrow> string \<Rightarrow> int \<Rightarrow> store_error + EncryptedChange list \<times> int" where
  "ChangesSince s spaceID cursor =
     (case Space s spaceID of
        Inl e \<Rightarrow> Inl e
      | Inr _ \<Rightarrow>
          (let rows = filter (\<lambda>r. cr_Seq r > cursor) (space_changes s spaceID)
           in Inr (map row_change rows, if rows = [] then cursor else cr_Seq (last rows))))"

definition HeadsFor :: "PStore \<Rightarrow> string \<Rightarrow> store_error + string list" where
  "HeadsFor s spaceID = (case ChangesFor s spaceID of Inl e \<Rightarrow> Inl e | Inr cs \<Rightarrow> Inr (Heads cs))"

section \<open>Snapshots and compaction\<close>

definition PutSnapshot :: "(byte list \<Rightarrow> string) \<Rightarrow> int \<Rightarrow> EncryptedSnapshot \<Rightarrow> PStore \<Rightarrow> store_error + PStore" where
  "PutSnapshot D now snap s =
     (case snapshot_Validate D snap of
        Some e \<Rightarrow> Inl (ErrRefused e)
      | None \<Rightarrow>
          (if space_row s (es_SpaceID snap) = None then Inl ErrUnknownSpace
           else if list_ex (\<lambda>r. sn_SnapshotID r = es_SnapshotID snap) (ps_snapshots s) then Inr s
           else Inr (EmitTx (SnapshotWritten (es_SpaceID snap) (es_SnapshotID snap))
                  (s\<lparr>ps_snapshots := ps_snapshots s @ [\<lparr>sn_SnapshotID = es_SnapshotID snap, sn_SpaceID = es_SpaceID snap,
                     sn_Frontier = ids_text (es_Frontier snap), sn_Ciphertext = es_Ciphertext snap, sn_CreatedAt = now\<rparr>]\<rparr>))))"

definition row_snapshot :: "SnapshotRow \<Rightarrow> EncryptedSnapshot" where
  "row_snapshot r = \<lparr>es_SpaceID = sn_SpaceID r, es_SnapshotID = sn_SnapshotID r, es_Frontier = text_ids (sn_Frontier r),
     es_Ciphertext = sn_Ciphertext r\<rparr>"

definition LatestSnapshotFor :: "PStore \<Rightarrow> string \<Rightarrow> store_error + EncryptedSnapshot option" where
  "LatestSnapshotFor s spaceID =
     (case Space s spaceID of
        Inl e \<Rightarrow> Inl e
      | Inr _ \<Rightarrow>
          (let rows = sort_key (\<lambda>r. (RFC3339Nano (sn_CreatedAt r), sn_SnapshotID r)) (filter (\<lambda>r. sn_SpaceID r = spaceID) (ps_snapshots s))
           in Inr (if rows = [] then None else Some (row_snapshot (last rows)))))"

definition droppable :: "EncryptedSnapshot \<Rightarrow> EncryptedChange list \<Rightarrow> string list \<Rightarrow> string list" where
  "droppable snap changes ackedFrontier =
     (let acked = CausalHistory changes ackedFrontier
      in filter (\<lambda>i. Subsumes snap changes i \<and> i |\<in>| acked) (map ec_ChangeID changes))"

fun delete_changes :: "string \<Rightarrow> string list \<Rightarrow> nat \<Rightarrow> PStore \<Rightarrow> nat \<times> PStore" where
  "delete_changes spaceID [] dropped s = (dropped, s)"
| "delete_changes spaceID (i # ids) dropped s =
     (let hit = (\<lambda>r. cr_ChangeID r = i \<and> cr_SpaceID r = spaceID)
      in delete_changes spaceID ids (if list_ex hit (ps_changes s) then dropped + 1 else dropped)
           (s\<lparr>ps_changes := filter (\<lambda>r. \<not> hit r) (ps_changes s)\<rparr>))"

text \<open>The code reads the latest snapshot and the log first, and deletes in a transaction of its own; here both are one step, so
  a snapshot or a change that is stored in between is not seen.\<close>

definition CompactChanges :: "string \<Rightarrow> string list \<Rightarrow> PStore \<Rightarrow> store_error + nat \<times> PStore" where
  "CompactChanges spaceID ackedFrontier s =
     (case LatestSnapshotFor s spaceID of
        Inl e \<Rightarrow> Inl e
      | Inr None \<Rightarrow> Inr (0, s)
      | Inr (Some snap) \<Rightarrow>
          (case ChangesFor s spaceID of
             Inl e \<Rightarrow> Inl e
           | Inr changes \<Rightarrow>
               (let ids = droppable snap changes ackedFrontier
                in if ids = [] then Inr (0, s)
                   else let (dropped, s1) = delete_changes spaceID ids 0 s
                        in Inr (dropped, if dropped = 0 then s1 else EmitTx (ChangesCompacted spaceID (es_SnapshotID snap) dropped) s1))))"

section \<open>Replication to another peer\<close>

text \<open>The answers of the other peer, over whatever state \<open>'t\<close> it is in: the call may fail and leave it changed or not.
  \<open>Superseded\<close> is \<^verbatim>\<open>ErrWrapSuperseded\<close>.\<close>

datatype push_error = Superseded | Refused_by store_error | Unreachable

record 't Pusher =
  pu_Space :: "string \<Rightarrow> string \<Rightarrow> 't \<Rightarrow> push_error option \<times> 't"
  pu_KeyHistory :: "string \<Rightarrow> int \<Rightarrow> byte list \<Rightarrow> 't \<Rightarrow> push_error option \<times> 't"
  pu_WrappedKey :: "string \<Rightarrow> string \<Rightarrow> byte list \<Rightarrow> int \<Rightarrow> 't \<Rightarrow> push_error option \<times> 't"
  pu_Heads :: "string \<Rightarrow> 't \<Rightarrow> (push_error + string list) \<times> 't"
  pu_Change :: "EncryptedChange \<Rightarrow> 't \<Rightarrow> push_error option \<times> 't"
  pu_Snapshot :: "EncryptedSnapshot \<Rightarrow> 't \<Rightarrow> push_error option \<times> 't"

datatype repl_error = Local_error store_error | Push_error push_error

text \<open>A loop of pushes that stops at the first error, other than one that is skipped.\<close>

fun push_each :: "(push_error \<Rightarrow> bool) \<Rightarrow> ('x \<Rightarrow> 't \<Rightarrow> push_error option \<times> 't) \<Rightarrow> 'x list \<Rightarrow> 't \<Rightarrow> push_error option \<times> 't" where
  "push_each skipped push [] t = (None, t)"
| "push_each skipped push (x # xs) t =
     (case push x t of
        (None, t) \<Rightarrow> push_each skipped push xs t
      | (Some e, t) \<Rightarrow> if skipped e then push_each skipped push xs t else (Some e, t))"

definition push_log :: "'t Pusher \<Rightarrow> PStore \<Rightarrow> string \<Rightarrow> 't \<Rightarrow> (repl_error + nat) \<times> 't" where
  "push_log p local i t =
     (case pu_Heads p i t of
        (Inl e, t) \<Rightarrow> (Inl (Push_error e), t)
      | (Inr targetHeads, t) \<Rightarrow>
          (case ChangesFor local i of
             Inl e \<Rightarrow> (Inl (Local_error e), t)
           | Inr changes \<Rightarrow>
               (let missing = Missing changes targetHeads
                in case push_each (\<lambda>_. False) (pu_Change p) missing t of
                     (Some e, t) \<Rightarrow> (Inl (Push_error e), t)
                   | (None, t) \<Rightarrow>
                       (case LatestSnapshotFor local i of
                          Inl e \<Rightarrow> (Inl (Local_error e), t)
                        | Inr None \<Rightarrow> (Inr (length missing), t)
                        | Inr (Some snap) \<Rightarrow>
                            (case pu_Snapshot p snap t of
                               (Some e, t) \<Rightarrow> (Inl (Push_error e), t)
                             | (None, t) \<Rightarrow> (Inr (length missing), t))))))"

definition replicateSpace :: "'t Pusher \<Rightarrow> PStore \<Rightarrow> EncryptedSpace \<Rightarrow> 't \<Rightarrow> (repl_error + nat) \<times> 't" where
  "replicateSpace p local sp t =
     (case pu_Space p (spc_ID sp) (spc_Kind sp) t of
        (Some e, t) \<Rightarrow> (Inl (Push_error e), t)
      | (None, t) \<Rightarrow>
          (case KeyHistory local (spc_ID sp) of
             Inl e \<Rightarrow> (Inl (Local_error e), t)
           | Inr history \<Rightarrow>
               (case push_each (\<lambda>_. False) (\<lambda>h. pu_KeyHistory p (spc_ID sp) (kh_Epoch h) (kh_SealedPrev h)) history t of
                  (Some e, t) \<Rightarrow> (Inl (Push_error e), t)
                | (None, t) \<Rightarrow>
                    (case WrappedKeysFor local (spc_ID sp) of
                       Inl e \<Rightarrow> (Inl (Local_error e), t)
                     | Inr keys \<Rightarrow>
                         (case push_each (\<lambda>e. e = Superseded) (\<lambda>k. pu_WrappedKey p (spc_ID sp) (wk_Recipient k) (wk_Wrapped k) (wk_Epoch k)) keys t of
                            (Some e, t) \<Rightarrow> (Inl (Push_error e), t)
                          | (None, t) \<Rightarrow> push_log p local (spc_ID sp) t)))))"

datatype Outcome = Replicated string nat | Deferred string repl_error

text \<open>The spaces of one target, up to the first that fails.\<close>

fun reconcile_target :: "'t Pusher \<Rightarrow> PStore \<Rightarrow> EncryptedSpace list \<Rightarrow> 't \<Rightarrow> Outcome list \<times> 't" where
  "reconcile_target p local [] t = ([], t)"
| "reconcile_target p local (sp # sps) t =
     (case replicateSpace p local sp t of
        (Inl e, t) \<Rightarrow> ([Deferred (spc_ID sp) e], t)
      | (Inr n, t) \<Rightarrow> (case reconcile_target p local sps t of (os, t) \<Rightarrow> (Replicated (spc_ID sp) n # os, t)))"

fun Reconcile :: "PStore \<Rightarrow> (string \<times> 't Pusher \<times> 't) list \<Rightarrow> (string \<times> Outcome list \<times> 't) list" where
  "Reconcile local [] = []"
| "Reconcile local ((peer, p, t) # targets) =
     (case reconcile_target p local (ListSpaces local) t of (os, t) \<Rightarrow> (peer, os, t) # Reconcile local targets)"

definition ReconcileAll :: "PStore \<Rightarrow> (string \<times> 't Pusher \<times> 't) list \<Rightarrow> nat \<times> nat" where
  "ReconcileAll local targets =
     (let os = concat (map (\<lambda>(_, os, _). os) (Reconcile local targets));
          deferred = length (filter (\<lambda>q. case q of Deferred _ _ \<Rightarrow> True | _ \<Rightarrow> False) os)
      in (length os - deferred, deferred))"

section \<open>A peer that answers from its store\<close>

text \<open>What the store refuses, as the sibling sees it (\<^verbatim>\<open>translateStateErr\<close> and the problem code).\<close>

definition seen_as :: "store_error \<Rightarrow> push_error" where
  "seen_as e = (case e of ErrStaleKeyEpoch \<Rightarrow> Superseded | ErrServiceRecipientUngranted r \<Rightarrow> Superseded | _ \<Rightarrow> Refused_by e)"

text \<open>The other peer and the number of requests it still answers.\<close>

type_synonym link_state = "PStore \<times> nat"

definition answer :: "(PStore \<Rightarrow> store_error + PStore) \<Rightarrow> link_state \<Rightarrow> push_error option \<times> link_state" where
  "answer f t =
     (case t of (s, k) \<Rightarrow>
        if k = 0 then (Some Unreachable, (s, k))
        else case f s of Inl e \<Rightarrow> (Some (seen_as e), (s, k - 1)) | Inr s' \<Rightarrow> (None, (s', k - 1)))"

definition answer_heads :: "string \<Rightarrow> link_state \<Rightarrow> (push_error + string list) \<times> link_state" where
  "answer_heads i t =
     (case t of (s, k) \<Rightarrow>
        if k = 0 then (Inl Unreachable, (s, k))
        else (case HeadsFor s i of Inl e \<Rightarrow> Inl (seen_as e) | Inr hs \<Rightarrow> Inr hs, (s, k - 1)))"

definition handleStateChangePush :: "(byte list \<Rightarrow> string) \<Rightarrow> int \<Rightarrow> EncryptedChange \<Rightarrow> PStore \<Rightarrow> store_error + PStore" where
  "handleStateChangePush D now ch s =
     (case change_Validate D ch of Some e \<Rightarrow> Inl (ErrRefused e) | None \<Rightarrow> PutChange D now ch s)"

definition handleStateSnapshotPush :: "(byte list \<Rightarrow> string) \<Rightarrow> int \<Rightarrow> EncryptedSnapshot \<Rightarrow> PStore \<Rightarrow> store_error + PStore" where
  "handleStateSnapshotPush D now snap s =
     (case snapshot_Validate D snap of Some e \<Rightarrow> Inl (ErrRefused e) | None \<Rightarrow> PutSnapshot D now snap s)"

definition peer_pusher ::
    "(byte list \<Rightarrow> string) \<Rightarrow> (string \<Rightarrow> bool) \<Rightarrow> (nat \<Rightarrow> string) \<Rightarrow> int \<Rightarrow> link_state Pusher" where
  "peer_pusher D is_uuid mint now = \<lparr>
     pu_Space = (\<lambda>i kind. answer (\<lambda>s. map_sum (\<lambda>e. e) snd (PutSpace is_uuid now i kind s))),
     pu_KeyHistory = (\<lambda>i epoch sealedPrev. answer (PutKeyHistory now i epoch sealedPrev)),
     pu_WrappedKey = (\<lambda>i recipient wrapped epoch. answer (\<lambda>s. map_sum (\<lambda>e. e) snd (PutWrappedKey mint now i recipient wrapped epoch s))),
     pu_Heads = answer_heads,
     pu_Change = (\<lambda>ch. answer (handleStateChangePush D now ch)),
     pu_Snapshot = (\<lambda>snap. answer (handleStateSnapshotPush D now snap))\<rparr>"

text \<open>What a sibling that pulls is served: everything, or what the heads it names do not cover.\<close>

definition handleStateChanges :: "PStore \<Rightarrow> string \<Rightarrow> string list \<Rightarrow> store_error + EncryptedChange list" where
  "handleStateChanges s i known =
     (case ChangesFor s i of Inl e \<Rightarrow> Inl e | Inr changes \<Rightarrow> Inr (if known \<noteq> [] then Missing changes known else changes))"

end
