(* ===== verification/StateSpec.thy ===== *)
theory StateSpec
  imports StateLog
begin

text \<open>
  What the store of personal state keeps whatever is asked of it: the steps are the committed operations of
  \<^verbatim>\<open>internal/personalstate/store\<close>, and the invariant says that only copies of the current key are held, that the tables
  have their keys, and that an owner stays a member. On it rest the properties of rotation and revocation.
\<close>

section \<open>Which tables an operation leaves alone\<close>

named_theorems frame \<open>tables that an operation does not touch\<close>

lemma EmitTx_frame [frame, simp]:
  "ps_spaces (EmitTx e s) = ps_spaces s" "ps_members (EmitTx e s) = ps_members s" "ps_wraps (EmitTx e s) = ps_wraps s"
  "ps_history (EmitTx e s) = ps_history s" "ps_recipients (EmitTx e s) = ps_recipients s" "ps_grants (EmitTx e s) = ps_grants s"
  "ps_changes (EmitTx e s) = ps_changes s" "ps_snapshots (EmitTx e s) = ps_snapshots s"
  by (simp_all add: EmitTx_def)

text \<open>Operations on the wrapped copies: everything but the copies and the events stays.\<close>

definition only_wraps :: "PStore \<Rightarrow> PStore \<Rightarrow> bool" where
  "only_wraps s t \<longleftrightarrow> (\<exists>ws es. t = s\<lparr>ps_wraps := ws, ps_events := es\<rparr>)"

lemma only_wraps_fields:
  assumes "only_wraps s t"
  shows "ps_spaces t = ps_spaces s" "ps_members t = ps_members s" "ps_history t = ps_history s" "ps_recipients t = ps_recipients s"
    "ps_grants t = ps_grants s" "ps_changes t = ps_changes s" "ps_snapshots t = ps_snapshots s"
  using assms by (auto simp: only_wraps_def)

lemma only_wraps_refl [simp]: "only_wraps s s"
  unfolding only_wraps_def by (rule exI [of _ "ps_wraps s"], rule exI [of _ "ps_events s"]) simp

lemma only_wraps_trans: "only_wraps s t \<Longrightarrow> only_wraps t u \<Longrightarrow> only_wraps s u"
  unfolding only_wraps_def by (elim exE) (simp, blast)

lemma only_wraps_Emit: "only_wraps s (EmitTx e s)"
  unfolding only_wraps_def EmitTx_def by (rule exI [of _ "ps_wraps s"]) auto

lemma only_wraps_upsert: "only_wraps s (snd (upsertWrapTx mint i r w e now s))"
  by (auto simp: upsertWrapTx_def Let_def EmitTx_def only_wraps_def)

lemma only_wraps_fold:
  assumes "\<And>x s. only_wraps s (f x s)"
  shows "only_wraps s (fold f xs s)"
  using assms by (induction xs arbitrary: s) (auto intro: only_wraps_trans)

lemma only_wraps_upsert_all: "only_wraps s (upsert_all mint i e now ws s)"
  unfolding upsert_all_def by (rule only_wraps_fold) (rule only_wraps_upsert)

lemma only_wraps_drop: "only_wraps s (snd (dropStaleWrapsTx i e s))"
  unfolding dropStaleWrapsTx_def only_wraps_def snd_conv by (intro exI [of _ "filter _ _"] exI [of _ "ps_events s"]) simp

lemma only_wraps_revoked: "only_wraps s (revoked_events i e rs s)"
  unfolding revoked_events_def by (rule only_wraps_fold) (rule only_wraps_Emit)

lemma only_wraps_delete: "only_wraps s (snd (deleteWrapsForTx i rs s))"
proof (induction rs arbitrary: s)
  case (Cons r rs)
  let ?d = "deleteRecipientWrapsTx i r s"
  let ?s2 = "fold (\<lambda>j. EmitTx (SpaceKeyRevoked j r None)) (fst ?d) (snd ?d)"
  have "only_wraps s (snd ?d)"
    unfolding deleteRecipientWrapsTx_def only_wraps_def Let_def snd_conv by (intro exI [of _ "filter _ _"] exI [of _ "ps_events s"]) simp
  moreover have "only_wraps (snd ?d) ?s2" by (rule only_wraps_fold) (rule only_wraps_Emit)
  ultimately have "only_wraps s ?s2" by (rule only_wraps_trans)
  from only_wraps_trans [OF this Cons.IH] show ?case by (simp add: Let_def case_prod_unfold)
qed simp

lemma only_wraps_grants: "put_grant_wraps mint i own e now ws s = Inr t \<Longrightarrow> only_wraps s t"
proof (induction mint i own e now ws s rule: put_grant_wraps.induct)
  case (2 mint i own e now w ws s)
  then show ?case by (auto split: if_splits option.splits intro: only_wraps_trans [OF only_wraps_upsert])
qed simp

section \<open>The copies after an operation\<close>

definition wrap_key :: "WrappedKey \<Rightarrow> string \<times> string" where
  "wrap_key w = (wk_SpaceID w, wk_Recipient w)"

definition epoch_of :: "KeyHistoryEntry list \<Rightarrow> string \<Rightarrow> int" where
  "epoch_of hs i = Max (insert 0 (kh_Epoch ` {h \<in> set hs. kh_SpaceID h = i}))"

lemma keyEpoch_of: "keyEpochTx s i = epoch_of (ps_history s) i"
  unfolding keyEpochTx_def epoch_of_def
  by (simp add: Max.set_eq_fold [symmetric] del: Max_insert)

lemma epoch_of_append: "epoch_of (hs @ [h]) i = (if kh_SpaceID h = i then max (epoch_of hs i) (kh_Epoch h) else epoch_of hs i)"
proof (cases "kh_SpaceID h = i")
  case True
  then have "insert 0 (kh_Epoch ` {g \<in> set (hs @ [h]). kh_SpaceID g = i}) = insert (kh_Epoch h) (insert 0 (kh_Epoch ` {g \<in> set hs. kh_SpaceID g = i}))"
    by auto
  then show ?thesis using True by (simp add: epoch_of_def max.commute del: Max_insert) (subst Max_insert, auto simp: max.commute)
next
  case False
  then have "{g \<in> set (hs @ [h]). kh_SpaceID g = i} = {g \<in> set hs. kh_SpaceID g = i}" by auto
  then show ?thesis using False by (simp add: epoch_of_def)
qed

lemma epoch_of_nonneg: "0 \<le> epoch_of hs i"
  unfolding epoch_of_def by (rule Max_ge) auto

lemma wraps_upsert:
  "ps_wraps (snd (upsertWrapTx mint i r b e now s)) =
     (let w = \<lparr>wk_ID = mint_now mint s, wk_SpaceID = i, wk_Recipient = r, wk_Wrapped = b, wk_Epoch = e, wk_CreatedAt = now\<rparr>
      in if (i, r) \<in> wrap_key ` set (ps_wraps s) then map (\<lambda>v. if wrap_key v = (i, r) then w else v) (ps_wraps s) else ps_wraps s @ [w])"
proof -
  have "list_ex (same_wrap i r) ws \<longleftrightarrow> (i, r) \<in> wrap_key ` set ws" for ws
    by (induction ws) (auto simp: same_wrap_def wrap_key_def)
  moreover have "same_wrap i r = (\<lambda>v. wrap_key v = (i, r))" by (auto simp: same_wrap_def wrap_key_def fun_eq_iff)
  ultimately show ?thesis by (simp add: upsertWrapTx_def Let_def)
qed

lemma upsert_keys:
  "map wrap_key (ps_wraps (snd (upsertWrapTx mint i r b e now s))) =
     map wrap_key (ps_wraps s) @ (if (i, r) \<in> wrap_key ` set (ps_wraps s) then [] else [(i, r)])"
  by (auto simp: wraps_upsert Let_def wrap_key_def)

lemma upsert_set:
  "w \<in> set (ps_wraps (snd (upsertWrapTx mint i r b e now s))) \<longleftrightarrow>
     (w \<in> set (ps_wraps s) \<and> wrap_key w \<noteq> (i, r)) \<or>
     w = \<lparr>wk_ID = mint_now mint s, wk_SpaceID = i, wk_Recipient = r, wk_Wrapped = b, wk_Epoch = e, wk_CreatedAt = now\<rparr>"
  by (auto simp: wraps_upsert Let_def wrap_key_def)

lemma drop_wraps: "ps_wraps (snd (dropStaleWrapsTx i e s)) = filter (\<lambda>w. \<not> (wk_SpaceID w = i \<and> wk_Epoch w < e)) (ps_wraps s)"
  by (simp add: dropStaleWrapsTx_def)

lemma revoked_wraps [simp]: "ps_wraps (revoked_events i e rs s) = ps_wraps s"
  unfolding revoked_events_def by (induction rs arbitrary: s) auto

lemma delete_wraps:
  "ps_wraps (snd (deleteWrapsForTx i rs s)) = filter (\<lambda>w. \<not> (wk_Recipient w \<in> set rs \<and> (i \<noteq> [] \<longrightarrow> wk_SpaceID w = i))) (ps_wraps s)"
proof (induction rs arbitrary: s)
  case (Cons r rs)
  have f: "ps_wraps (fold (\<lambda>j. EmitTx (SpaceKeyRevoked j r None)) xs u) = ps_wraps u" for xs u
    by (induction xs arbitrary: u) auto
  show ?case
    by (auto simp: Let_def case_prod_unfold Cons.IH f deleteRecipientWrapsTx_def intro!: filter_cong)
qed simp

lemma upsert_all_Cons:
  "upsert_all mint i e now (w # ws) s = upsert_all mint i e now ws (snd (upsertWrapTx mint i (rw_Recipient w) (rw_Wrapped w) e now s))"
  by (simp add: upsert_all_def)

lemma upsert_all_distinct:
  "distinct (map wrap_key (ps_wraps s)) \<Longrightarrow> distinct (map wrap_key (ps_wraps (upsert_all mint i e now ws s)))"
proof (induction ws arbitrary: s)
  case (Cons w ws)
  show ?case unfolding upsert_all_Cons by (rule Cons.IH) (use Cons.prems in \<open>auto simp: upsert_keys\<close>)
qed (simp add: upsert_all_def)

lemma upsert_all_set:
  assumes "w \<in> set (ps_wraps (upsert_all mint i e now ws s))"
  shows "(w \<in> set (ps_wraps s) \<and> wrap_key w \<notin> (\<lambda>x. (i, rw_Recipient x)) ` set ws) \<or>
    (wrap_key w \<in> (\<lambda>x. (i, rw_Recipient x)) ` set ws \<and> wk_Epoch w = e \<and> wk_Wrapped w \<in> rw_Wrapped ` set ws)"
  using assms
proof (induction ws arbitrary: s)
  case (Cons x ws)
  from Cons.IH [OF Cons.prems [unfolded upsert_all_Cons]] show ?case by (auto simp: upsert_set wrap_key_def)
qed (simp add: upsert_all_def)

lemma upsert_all_keys:
  "wrap_key ` set (ps_wraps (upsert_all mint i e now ws s)) = wrap_key ` set (ps_wraps s) \<union> (\<lambda>x. (i, rw_Recipient x)) ` set ws"
proof (induction ws arbitrary: s)
  case (Cons x ws)
  have "wrap_key ` set (ps_wraps (snd (upsertWrapTx mint i r b e now s))) = insert (i, r) (wrap_key ` set (ps_wraps s))" for r b
    using arg_cong [OF upsert_keys, of set mint i r b e now s] by (auto split: if_splits)
  then show ?case unfolding upsert_all_Cons Cons.IH by auto
qed (simp add: upsert_all_def)

lemma upsert_all_kept:
  "w \<in> set (ps_wraps s) \<Longrightarrow> wrap_key w \<notin> (\<lambda>x. (i, rw_Recipient x)) ` set ws \<Longrightarrow> w \<in> set (ps_wraps (upsert_all mint i e now ws s))"
proof (induction ws arbitrary: s)
  case (Cons x ws)
  show ?case unfolding upsert_all_Cons by (rule Cons.IH) (use Cons.prems in \<open>auto simp: upsert_set\<close>)
qed (simp add: upsert_all_def)

section \<open>The invariant\<close>

definition wraps_ok :: "PStore \<Rightarrow> bool" where
  "wraps_ok s \<longleftrightarrow> (\<forall>w\<in>set (ps_wraps s). wk_Epoch w = keyEpochTx s (wk_SpaceID w)) \<and> distinct (map wrap_key (ps_wraps s))"

definition history_ok :: "PStore \<Rightarrow> bool" where
  "history_ok s \<longleftrightarrow> (\<forall>h\<in>set (ps_history s). 1 \<le> kh_Epoch h \<and> int64_range (kh_Epoch h)) \<and>
     distinct (map (\<lambda>h. (kh_SpaceID h, kh_Epoch h)) (ps_history s))"

definition owner_listed :: "PStore \<Rightarrow> string \<Rightarrow> string \<Rightarrow> bool" where
  "owner_listed s i ow \<longleftrightarrow> (\<exists>n\<in>set (ps_members s). sm_SpaceID n = i \<and> sm_PrincipalID n = ow \<and> sm_Role n = RoleOwner)"

definition member_row_ok :: "PStore \<Rightarrow> SpaceMember \<Rightarrow> bool" where
  "member_row_ok s m \<longleftrightarrow> (\<exists>r. space_row s (sm_SpaceID m) = Some r \<and>
     (sm_Role m = RoleOwner \<longrightarrow> sm_RemovedAt m = None \<and> spc_Owner r = Some (sm_PrincipalID m)) \<and>
     (\<forall>ow. spc_Owner r = Some ow \<longrightarrow> owner_listed s (sm_SpaceID m) ow))"

definition members_ok :: "PStore \<Rightarrow> bool" where
  "members_ok s \<longleftrightarrow> distinct (map (\<lambda>m. (sm_SpaceID m, sm_PrincipalID m)) (ps_members s)) \<and> (\<forall>m\<in>set (ps_members s). member_row_ok s m)"

lemma member_row_ok_mono:
  assumes "member_row_ok s m" and "\<And>r. space_row s (sm_SpaceID m) = Some r \<Longrightarrow> space_row t (sm_SpaceID m) = Some r"
    and "\<And>ow. owner_listed s (sm_SpaceID m) ow \<Longrightarrow> owner_listed t (sm_SpaceID m) ow"
  shows "member_row_ok t m"
  using assms unfolding member_row_ok_def by blast

definition access_ok :: "PStore \<Rightarrow> bool" where
  "access_ok s \<longleftrightarrow> distinct (map sr_Recipient (filter (\<lambda>r. sr_RevokedAt r = None) (ps_recipients s))) \<and>
     distinct (map (\<lambda>g. (sg_SpaceID g, sg_PrincipalID g)) (ps_grants s))"

definition log_ok :: "PStore \<Rightarrow> bool" where
  "log_ok s \<longleftrightarrow> distinct (map cr_ChangeID (ps_changes s)) \<and> sorted_wrt (\<lambda>a b. cr_Seq a < cr_Seq b) (ps_changes s) \<and>
     (\<forall>r\<in>set (ps_changes s). 1 \<le> cr_Seq r) \<and> distinct (map sn_SnapshotID (ps_snapshots s))"

definition owners_named :: "PStore \<Rightarrow> bool" where
  "owners_named s \<longleftrightarrow> (\<forall>r\<in>set (ps_spaces s). spc_Owner r \<noteq> Some [])"

definition store_inv :: "PStore \<Rightarrow> bool" where
  "store_inv s \<longleftrightarrow> wraps_ok s \<and> history_ok s \<and> members_ok s \<and> access_ok s \<and> log_ok s \<and> owners_named s"

lemma wraps_ok_frame: "ps_wraps t = ps_wraps s \<Longrightarrow> ps_history t = ps_history s \<Longrightarrow> wraps_ok t \<longleftrightarrow> wraps_ok s"
  by (simp add: wraps_ok_def keyEpoch_of)

lemma history_ok_frame: "ps_history t = ps_history s \<Longrightarrow> history_ok t \<longleftrightarrow> history_ok s"
  by (simp add: history_ok_def)

lemma members_ok_frame: "ps_members t = ps_members s \<Longrightarrow> ps_spaces t = ps_spaces s \<Longrightarrow> members_ok t \<longleftrightarrow> members_ok s"
  by (simp add: members_ok_def member_row_ok_def owner_listed_def space_row_def)

lemma access_ok_frame: "ps_recipients t = ps_recipients s \<Longrightarrow> ps_grants t = ps_grants s \<Longrightarrow> access_ok t \<longleftrightarrow> access_ok s"
  by (simp add: access_ok_def)

lemma log_ok_frame: "ps_changes t = ps_changes s \<Longrightarrow> ps_snapshots t = ps_snapshots s \<Longrightarrow> log_ok t \<longleftrightarrow> log_ok s"
  by (simp add: log_ok_def)

lemma owners_named_frame: "ps_spaces t = ps_spaces s \<Longrightarrow> owners_named t \<longleftrightarrow> owners_named s"
  by (simp add: owners_named_def)

lemmas ok_frames = wraps_ok_frame history_ok_frame members_ok_frame access_ok_frame log_ok_frame owners_named_frame

lemma only_wraps_inv: "only_wraps s t \<Longrightarrow> store_inv s \<Longrightarrow> wraps_ok t \<Longrightarrow> store_inv t"
  using only_wraps_fields [of s t] by (simp add: store_inv_def ok_frames [of t s])

lemma wraps_ok_filter: "wraps_ok s \<Longrightarrow> ps_wraps t = filter P (ps_wraps s) \<Longrightarrow> ps_history t = ps_history s \<Longrightarrow> wraps_ok t"
  by (auto simp: wraps_ok_def keyEpoch_of distinct_map_filter)

lemma wraps_ok_upsert:
  assumes "wraps_ok s" and "e = keyEpochTx s i"
  shows "wraps_ok (snd (upsertWrapTx mint i r b e now s))"
  using assms only_wraps_fields [OF only_wraps_upsert [of s mint i r b e now]]
  by (auto simp: wraps_ok_def upsert_set upsert_keys keyEpoch_of)

section \<open>Each operation keeps it\<close>

lemma find_append: "find P (xs @ ys) = (case find P xs of None \<Rightarrow> find P ys | Some x \<Rightarrow> Some x)"
  by (induction xs) auto

lemma space_row_set: "space_row s i = Some r \<Longrightarrow> r \<in> set (ps_spaces s) \<and> spc_ID r = i"
  by (auto simp: space_row_def find_Some_iff)

lemma members_ok_spaces:
  assumes "members_ok s" and "ps_spaces t = ps_spaces s @ xs" and "ps_members t = ps_members s"
  shows "members_ok t"
proof -
  have "space_row t i = Some r" if "space_row s i = Some r" for i r
    using that assms(2) by (simp add: space_row_def find_append)
  then have "member_row_ok t m" if "member_row_ok s m" for m
    by (rule member_row_ok_mono [OF that]) (simp_all add: owner_listed_def assms(3))
  then show ?thesis using assms(1,3) by (simp add: members_ok_def)
qed

lemma space_row_None: "space_row s i = None \<Longrightarrow> members_ok s \<Longrightarrow> m \<in> set (ps_members s) \<Longrightarrow> sm_SpaceID m \<noteq> i"
  by (auto simp: members_ok_def member_row_ok_def)

lemma CreateSpace_inv: "CreateSpace mint now kind s = Inr (sp, t) \<Longrightarrow> store_inv s \<Longrightarrow> store_inv t"
proof -
  assume "CreateSpace mint now kind s = Inr (sp, t)" and i: "store_inv s"
  then have t: "ps_spaces t = ps_spaces s @ [EncryptedSpace.extend sp \<lparr>spc_Owner = None\<rparr>]" "ps_members t = ps_members s"
    "ps_wraps t = ps_wraps s" "ps_history t = ps_history s" "ps_recipients t = ps_recipients s" "ps_grants t = ps_grants s"
    "ps_changes t = ps_changes s" "ps_snapshots t = ps_snapshots s"
    by (auto simp: CreateSpace_def Let_def split: if_splits)
  moreover have "owners_named t" using i t(1) by (simp add: owners_named_def store_inv_def EncryptedSpace.extend_def)
  ultimately show ?thesis using i members_ok_spaces [OF _ t(1,2)] by (simp add: store_inv_def ok_frames [of t s])
qed

lemma PutSpace_inv:
  assumes "PutSpaceOwnedFrom is_uuid now i kind owner device s = Inr (sp, t)" and inv: "store_inv s"
  shows "store_inv t"
proof (cases "space_row s i")
  case (Some r)
  then show ?thesis using assms by (auto simp: PutSpaceOwnedFrom_def split: if_splits)
next
  case None
  let ?r = "EncryptedSpace.extend \<lparr>spc_ID = i, spc_Kind = kind, spc_CreatedAt = now\<rparr> \<lparr>spc_Owner = (if owner = [] then None else Some owner)\<rparr>"
  let ?m = "\<lparr>sm_SpaceID = i, sm_PrincipalID = owner, sm_Role = RoleOwner, sm_AddedAt = now, sm_AddedByPrincipal = owner,
              sm_AddedByDevice = device, sm_RemovedAt = None\<rparr>"
  have t: "ps_spaces t = ps_spaces s @ [?r]" "ps_members t = ps_members s @ (if owner = [] then [] else [?m])"
    "ps_wraps t = ps_wraps s" "ps_history t = ps_history s" "ps_recipients t = ps_recipients s" "ps_grants t = ps_grants s"
    "ps_changes t = ps_changes s" "ps_snapshots t = ps_snapshots s"
    using assms None by (auto simp: PutSpaceOwnedFrom_def Let_def insertOwnerRowTx_def split: if_splits)
  have old: "space_row t j = Some r" if "space_row s j = Some r" for j r
    using that t(1) by (simp add: space_row_def find_append)
  have new: "space_row t i = Some ?r" using None t(1) by (simp add: space_row_def find_append EncryptedSpace.extend_def)
  have m: "members_ok s" using inv by (simp add: store_inv_def)
  have fresh: "sm_SpaceID n \<noteq> i" if "n \<in> set (ps_members s)" for n by (rule space_row_None [OF None m that])
  have "members_ok t"
  proof (cases "owner = []")
    case True
    then show ?thesis using members_ok_spaces [OF m t(1)] t(2) by simp
  next
    case False
    have d: "distinct (map (\<lambda>m. (sm_SpaceID m, sm_PrincipalID m)) (ps_members t))"
      using m fresh False by (auto simp: members_ok_def t(2))
    have "member_row_ok t n" if n: "n \<in> set (ps_members t)" for n
    proof (cases "n = ?m")
      case True
      then show ?thesis using new False by (auto simp: member_row_ok_def owner_listed_def EncryptedSpace.extend_def t(2))
    next
      case False
      then have "member_row_ok s n" using n m by (auto simp: t(2) members_ok_def split: if_splits)
      then show ?thesis by (rule member_row_ok_mono) (auto simp: owner_listed_def t(2) old)
    qed
    then show ?thesis using d by (simp add: members_ok_def)
  qed
  moreover have "owners_named t" using inv by (simp add: owners_named_def store_inv_def t(1) EncryptedSpace.extend_def)
  ultimately show ?thesis using inv t(3-) by (simp add: store_inv_def ok_frames [of t s])
qed

lemma PutWrappedKey_inv: "PutWrappedKey mint now i r b e s = Inr (w, t) \<Longrightarrow> store_inv s \<Longrightarrow> store_inv t"
proof -
  assume p: "PutWrappedKey mint now i r b e s = Inr (w, t)" and inv: "store_inv s"
  then have u: "upsertWrapTx mint i r b e now s = (w, t)" and e: "e = keyEpochTx s i"
    by (auto simp: PutWrappedKey_def checkWrapEpoch_def split: if_splits option.splits)
  from u have t: "t = snd (upsertWrapTx mint i r b e now s)" by simp
  show ?thesis unfolding t
    by (rule only_wraps_inv [OF only_wraps_upsert inv]) (use inv e in \<open>simp add: store_inv_def wraps_ok_upsert\<close>)
qed

lemma DeleteWrappedKey_inv: "DeleteWrappedKey i r s = Inr t \<Longrightarrow> store_inv s \<Longrightarrow> store_inv t"
proof -
  assume d: "DeleteWrappedKey i r s = Inr t" and inv: "store_inv s"
  show ?thesis
  proof (cases "list_ex (same_wrap i r) (ps_wraps s)")
    case True
    then have t: "t = EmitTx (SpaceKeyRevoked i r None) (s\<lparr>ps_wraps := filter (\<lambda>w. \<not> same_wrap i r w) (ps_wraps s)\<rparr>)"
      using d by (auto simp: DeleteWrappedKey_def split: sum.splits)
    have "wraps_ok t" by (rule wraps_ok_filter [of s]) (use inv in \<open>simp_all add: t store_inv_def\<close>)
    moreover have "only_wraps s t" unfolding t only_wraps_def EmitTx_def by auto
    ultimately show ?thesis using inv by (rule only_wraps_inv [rotated 2])
  next
    case False
    then show ?thesis using d inv by (auto simp: DeleteWrappedKey_def split: sum.splits)
  qed
qed

lemma RotateKey_Inr:
  assumes "RotateKey mint now i e sealed ws rv pres s = Inr (n, t)"
  shows "e = keyEpochTx s i" "n = wrap64 (e + 1)" "1 \<le> n" "0 \<le> e" "sealed \<noteq> []" "ws \<noteq> []" "check_wraps ws = None"
    "check_revokes (map rw_Recipient ws) rv = None" "space_row s i \<noteq> None"
    "first_error (\<lambda>w. serviceWrapAllowedTx s i (rw_Recipient w) now) ws = None"
    "checkRotationRecipients (wrappedKeysTx s i) e (map rw_Recipient ws) rv = None"
    "\<forall>h\<in>set (wrappedKeysTx s i). wk_Epoch h = e \<and> pres (wk_Recipient h) \<longrightarrow> wk_Recipient h \<in> rw_Recipient ` set ws"
    "ps_history t = ps_history s @ [\<lparr>kh_SpaceID = i, kh_Epoch = n, kh_SealedPrev = sealed, kh_CreatedAt = now\<rparr>]"
    "ps_wraps t = filter (\<lambda>w. \<not> (wk_SpaceID w = i \<and> wk_Epoch w < n)) (ps_wraps (upsert_all mint i n now ws (add_history i n sealed now s)))"
    "only_wraps (add_history i n sealed now s) t"
proof -
  let ?s1 = "upsert_all mint i (wrap64 (e + 1)) now ws (add_history i (wrap64 (e + 1)) sealed now s)"
  let ?d = "dropStaleWrapsTx i (wrap64 (e + 1)) ?s1"
  let ?s3 = "revoked_events i (wrap64 (e + 1)) (fst ?d) (snd ?d)"
  from assms show g: "e = keyEpochTx s i" "n = wrap64 (e + 1)" "1 \<le> n" "0 \<le> e" "sealed \<noteq> []" "ws \<noteq> []" "check_wraps ws = None"
    "check_revokes (map rw_Recipient ws) rv = None" "space_row s i \<noteq> None"
    "first_error (\<lambda>w. serviceWrapAllowedTx s i (rw_Recipient w) now) ws = None"
    "checkRotationRecipients (wrappedKeysTx s i) e (map rw_Recipient ws) rv = None"
    "\<forall>h\<in>set (wrappedKeysTx s i). wk_Epoch h = e \<and> pres (wk_Recipient h) \<longrightarrow> wk_Recipient h \<in> rw_Recipient ` set ws"
    by (auto simp: RotateKey_def Let_def case_prod_unfold spaceExistsTx_def find_None_iff split: if_splits option.splits)
  have t: "t = EmitTx (SpaceKeyRotated i n (length (remdups (map rw_Recipient ws))) (length (fst ?d))) ?s3"
    using assms by (auto simp: RotateKey_def Let_def case_prod_unfold split: if_splits option.splits)
  have o: "only_wraps (add_history i n sealed now s) t"
    unfolding t g(2) by (intro only_wraps_trans [OF _ only_wraps_Emit] only_wraps_trans [OF _ only_wraps_revoked]
      only_wraps_trans [OF _ only_wraps_drop] only_wraps_upsert_all)
  then show "only_wraps (add_history i n sealed now s) t" .
  show "ps_history t = ps_history s @ [\<lparr>kh_SpaceID = i, kh_Epoch = n, kh_SealedPrev = sealed, kh_CreatedAt = now\<rparr>]"
    using only_wraps_fields(3) [OF o] by (simp add: add_history_def)
  show "ps_wraps t = filter (\<lambda>w. \<not> (wk_SpaceID w = i \<and> wk_Epoch w < n)) (ps_wraps (upsert_all mint i n now ws (add_history i n sealed now s)))"
    by (simp add: t drop_wraps g(2))
qed

lemma epoch_le: "h \<in> set (ps_history s) \<Longrightarrow> kh_Epoch h \<le> keyEpochTx s (kh_SpaceID h)"
  unfolding keyEpoch_of epoch_of_def by (rule Max_ge) auto

lemma epoch_held: "keyEpochTx s i = 0 \<or> (\<exists>h\<in>set (ps_history s). kh_SpaceID h = i \<and> kh_Epoch h = keyEpochTx s i)"
proof -
  have "epoch_of (ps_history s) i \<in> insert 0 (kh_Epoch ` {h \<in> set (ps_history s). kh_SpaceID h = i})"
    unfolding epoch_of_def by (rule Max_in) auto
  then show ?thesis unfolding keyEpoch_of by auto
qed

lemma epoch_range: "history_ok s \<Longrightarrow> int64_range (keyEpochTx s i)"
  using epoch_held [of s i] by (auto simp: history_ok_def int64_range_def)

lemma wrap_next: "int64_range e \<Longrightarrow> 0 \<le> e \<Longrightarrow> 1 \<le> wrap64 (e + 1) \<Longrightarrow> wrap64 (e + 1) = e + 1 \<and> int64_range (e + 1)"
proof -
  assume r: "int64_range e" "0 \<le> e" "1 \<le> wrap64 (e + 1)"
  have "e \<noteq> 9223372036854775807" using r(3) by (auto simp: wrap64_def)
  then have "int64_range (e + 1)" using r by (auto simp: int64_range_def)
  then show ?thesis by (simp add: wrap64_id)
qed

lemma history_ok_add:
  assumes "history_ok s" and "1 \<le> e" and "int64_range e" and "history_row s i e = None"
    and "ps_history t = ps_history s @ [\<lparr>kh_SpaceID = i, kh_Epoch = e, kh_SealedPrev = b, kh_CreatedAt = now\<rparr>]"
  shows "history_ok t"
  using assms by (auto simp: history_ok_def history_row_def find_None_iff)

lemma only_wraps_add_inv:
  assumes "only_wraps (add_history i e b now s) t" and "store_inv s" and "wraps_ok t" and "history_ok t"
  shows "store_inv t"
proof -
  note f = only_wraps_fields [OF assms(1)]
  show ?thesis using assms(2-4) f by (simp add: store_inv_def add_history_def ok_frames(3-) [of t s])
qed

lemma RotateKey_epoch:
  assumes "RotateKey mint now i e sealed ws rv pres s = Inr (n, t)" and "store_inv s"
  shows "n = keyEpochTx s i + 1" "int64_range n" "keyEpochTx t j = (if j = i then n else keyEpochTx s j)"
proof -
  note r = RotateKey_Inr [OF assms(1)]
  have "int64_range e" using epoch_range assms(2) r(1) by (simp add: store_inv_def)
  then show n: "n = keyEpochTx s i + 1" "int64_range n" using wrap_next [of e] r(1-4) by auto
  show "keyEpochTx t j = (if j = i then n else keyEpochTx s j)"
    using n(1) unfolding keyEpoch_of r(13) epoch_of_append by (simp add: keyEpoch_of)
qed

lemma RotateKey_inv:
  assumes "RotateKey mint now i e sealed ws rv pres s = Inr (n, t)" and "store_inv s"
  shows "store_inv t"
proof -
  note r = RotateKey_Inr [OF assms(1)] and n = RotateKey_epoch [OF assms]
  have none: "history_row s i n = None"
    using epoch_le n(1) by (fastforce simp: history_row_def find_None_iff)
  have old: "wraps_ok s" "history_ok s" using assms(2) by (simp_all add: store_inv_def)
  have a: "ps_wraps (add_history i n sealed now s) = ps_wraps s" by (simp add: add_history_def)
  have "wk_Epoch w = keyEpochTx t (wk_SpaceID w)" if "w \<in> set (ps_wraps t)" for w
  proof -
    have w: "w \<in> set (ps_wraps (upsert_all mint i n now ws (add_history i n sealed now s)))" "\<not> (wk_SpaceID w = i \<and> wk_Epoch w < n)"
      using that r(14) by auto
    from upsert_all_set [OF w(1)] show ?thesis
    proof
      assume o: "w \<in> set (ps_wraps (add_history i n sealed now s)) \<and> wrap_key w \<notin> (\<lambda>x. (i, rw_Recipient x)) ` set ws"
      then have "wk_Epoch w = keyEpochTx s (wk_SpaceID w)" using old(1) by (simp add: wraps_ok_def a)
      then show ?thesis using w(2) n by auto
    qed (auto simp: n(3) wrap_key_def)
  qed
  moreover have "distinct (map wrap_key (ps_wraps t))"
    unfolding r(14) by (intro distinct_map_filter upsert_all_distinct) (use old(1) in \<open>simp add: wraps_ok_def a\<close>)
  ultimately have "wraps_ok t" by (simp add: wraps_ok_def)
  moreover have "history_ok t" by (rule history_ok_add [OF old(2) r(3) n(2) none r(13)])
  ultimately show ?thesis by (rule only_wraps_add_inv [OF r(15) assms(2)])
qed

lemma PutKeyHistory_new:
  assumes "PutKeyHistory now i e b s = Inr t" and "history_row s i e = None"
  shows "1 \<le> e" "b \<noteq> []" "only_wraps (add_history i e b now s) t"
    "ps_history t = ps_history s @ [\<lparr>kh_SpaceID = i, kh_Epoch = e, kh_SealedPrev = b, kh_CreatedAt = now\<rparr>]"
    "ps_wraps t = (if e > keyEpochTx s i then filter (\<lambda>w. \<not> (wk_SpaceID w = i \<and> wk_Epoch w < e)) (ps_wraps s) else ps_wraps s)"
proof -
  let ?s1 = "add_history i e b now s" let ?d = "dropStaleWrapsTx i e ?s1"
  let ?t = "if e > keyEpochTx s i
            then EmitTx (SpaceKeyRotationReplicated i e (length (fst ?d))) (revoked_events i e (fst ?d) (snd ?d))
            else EmitTx (SpaceKeyHistoryBackfilled i e (keyEpochTx s i)) ?s1"
  from assms show "1 \<le> e" "b \<noteq> []"
    by (auto simp: PutKeyHistory_def split: if_splits option.splits)
  have t: "t = ?t" using assms
    by (auto simp: PutKeyHistory_def Let_def case_prod_unfold split: if_splits option.splits)
  show o: "only_wraps ?s1 t"
  proof (cases "e > keyEpochTx s i")
    case True
    show ?thesis unfolding t if_P [OF True]
      by (intro only_wraps_trans [OF _ only_wraps_Emit] only_wraps_trans [OF _ only_wraps_revoked] only_wraps_drop)
  next
    case False
    show ?thesis unfolding t if_not_P [OF False] by (rule only_wraps_Emit)
  qed
  show "ps_history t = ps_history s @ [\<lparr>kh_SpaceID = i, kh_Epoch = e, kh_SealedPrev = b, kh_CreatedAt = now\<rparr>]"
    using only_wraps_fields(3) [OF o] by (simp add: add_history_def)
  show "ps_wraps t = (if e > keyEpochTx s i then filter (\<lambda>w. \<not> (wk_SpaceID w = i \<and> wk_Epoch w < e)) (ps_wraps s) else ps_wraps s)"
    unfolding t by (simp add: drop_wraps) (simp add: add_history_def)
qed

lemma PutKeyHistory_held: "PutKeyHistory now i e b s = Inr t \<Longrightarrow> history_row s i e \<noteq> None \<Longrightarrow> t = s"
  by (auto simp: PutKeyHistory_def split: if_splits option.splits)

lemma PutKeyHistory_inv:
  assumes "PutKeyHistory now i e b s = Inr t" and "int64_range e" and "store_inv s"
  shows "store_inv t"
proof (cases "history_row s i e")
  case None
  note p = PutKeyHistory_new [OF assms(1) None]
  have old: "wraps_ok s" "history_ok s" using assms(3) by (simp_all add: store_inv_def)
  have ep: "keyEpochTx t j = (if j = i then max (keyEpochTx s i) e else keyEpochTx s j)" for j
    unfolding keyEpoch_of p(4) epoch_of_append by simp
  have "wk_Epoch w = keyEpochTx t (wk_SpaceID w)" if "w \<in> set (ps_wraps t)" for w
    using that old(1) unfolding ep wraps_ok_def p(5) by (auto split: if_splits)
  moreover have "distinct (map wrap_key (ps_wraps t))"
    using old(1) unfolding p(5) wraps_ok_def by (simp add: distinct_map_filter)
  ultimately have "wraps_ok t" by (simp add: wraps_ok_def)
  moreover have "history_ok t" by (rule history_ok_add [OF old(2) p(1) assms(2) None p(4)])
  ultimately show ?thesis by (rule only_wraps_add_inv [OF p(3) assms(3)])
next
  case (Some h)
  then show ?thesis using PutKeyHistory_held [OF assms(1)] assms(3) by simp
qed

lemma RegisterServiceRecipient_inv:
  assumes "RegisterServiceRecipient mint member_key now pid rc label fp by device s = Inr (sr, new, t)" and "store_inv s"
  shows "store_inv t"
proof (cases "live_recipient s rc")
  case (Some r)
  then show ?thesis using assms by (auto simp: RegisterServiceRecipient_def split: if_splits)
next
  case None
  then obtain row where t: "ps_recipients t = ps_recipients s @ [row]" "sr_Recipient row = rc" "ps_grants t = ps_grants s"
    "ps_wraps t = ps_wraps s" "ps_history t = ps_history s" "ps_members t = ps_members s" "ps_spaces t = ps_spaces s"
    "ps_changes t = ps_changes s" "ps_snapshots t = ps_snapshots s"
    using assms(1) by (auto simp: RegisterServiceRecipient_def Let_def ServiceRecipient.extend_def split: if_splits)
  have "access_ok t" using assms(2) None t(1-3)
    by (auto simp: access_ok_def store_inv_def live_recipient_def find_None_iff)
  then show ?thesis using assms(2) t(4-) by (simp add: store_inv_def ok_frames [of t s])
qed

lemma wraps_deleted: "wraps_ok s \<Longrightarrow> wraps_ok (snd (deleteWrapsForTx i rs s))"
  by (rule wraps_ok_filter [of s]) (simp_all add: delete_wraps only_wraps_fields(3) [OF only_wraps_delete])

text \<open>A step that rewrites one of the two access tables and then deletes copies.\<close>

lemma access_then_delete:
  assumes inv: "store_inv s" and s1: "s\<lparr>ps_recipients := ps_recipients s1, ps_grants := ps_grants s1\<rparr> = s1" and "access_ok s1"
    and o: "only_wraps (snd (deleteWrapsForTx i keys s1)) t" and "ps_wraps t = ps_wraps (snd (deleteWrapsForTx i keys s1))"
  shows "store_inv t"
proof -
  have f: "ps_wraps s1 = ps_wraps s" "ps_history s1 = ps_history s" "ps_members s1 = ps_members s" "ps_spaces s1 = ps_spaces s"
    "ps_changes s1 = ps_changes s" "ps_snapshots s1 = ps_snapshots s"
    by (subst s1 [symmetric], simp)+
  have i1: "store_inv s1" using inv assms(3) by (simp add: store_inv_def f wraps_ok_def history_ok_def members_ok_def
    member_row_ok_def owner_listed_def space_row_def log_ok_def owners_named_def keyEpoch_of)
  then have "wraps_ok (snd (deleteWrapsForTx i keys s1))" by (simp add: wraps_deleted store_inv_def)
  moreover from this have "wraps_ok t" using wraps_ok_frame [OF assms(5) only_wraps_fields(3) [OF o]] by simp
  ultimately show ?thesis using only_wraps_inv [OF only_wraps_trans [OF only_wraps_delete o] i1] by simp
qed

lemma live_recipients_revoked:
  "map sr_Recipient (filter (\<lambda>r. sr_RevokedAt r = None) (map (\<lambda>r. if P r then r\<lparr>sr_RevokedAt := Some now\<rparr> else r) rs)) =
     map sr_Recipient (filter (\<lambda>r. \<not> P r) (filter (\<lambda>r. sr_RevokedAt r = None) rs))"
  by (induction rs) auto

lemma RemoveServiceRecipient_inv:
  assumes "RemoveServiceRecipient now ref device s = Inr (sr, sps, t)" and inv: "store_inv s"
  shows "store_inv t"
proof -
  obtain r where r: "find (\<lambda>r. (sr_ID r = ref \<or> sr_Recipient r = ref) \<and> sr_RevokedAt r = None) (ps_recipients s) = Some r"
    using assms(1) by (auto simp: RemoveServiceRecipient_def split: option.splits)
  let ?s1 = "s\<lparr>ps_recipients := map (\<lambda>q. if sr_ID q = sr_ID r then q\<lparr>sr_RevokedAt := Some now\<rparr> else q) (ps_recipients s)\<rparr>"
  let ?d = "deleteWrapsForTx [] [sr_Recipient r] ?s1"
  have t: "t = EmitTx (ServiceRecipientRemoved (sr_ID r) (sr_PrincipalID r) (sr_Recipient r) device (length (fst ?d))) (snd ?d)"
    using assms(1) r by (auto simp: RemoveServiceRecipient_def Let_def case_prod_unfold)
  have "access_ok ?s1" using inv
    by (simp add: access_ok_def live_recipients_revoked store_inv_def distinct_map_filter del: filter_filter)
  then show ?thesis unfolding t
    by (intro access_then_delete [where s = s and keys = "[sr_Recipient r]" and i = "[]", OF inv _ _ only_wraps_Emit]) (auto)
qed

lemma map_replaced: "(\<And>x. P x \<Longrightarrow> f (g x) = f x) \<Longrightarrow> map f (map (\<lambda>x. if P x then g x else x) xs) = map f xs"
  by (induction xs) auto

lemma RevokeAccess_inv:
  assumes "RevokeAccess now i pid by device s = Inr (dropped, t)" and inv: "store_inv s"
  shows "store_inv t"
proof -
  let ?active = "case unrevoked_grant s i pid of None \<Rightarrow> False | Some g \<Rightarrow> before_expiry now (sg_ExpiresAt g)"
  let ?gs = "if ?active then map (\<lambda>g. if same_grant i pid g \<and> sg_RevokedAt g = None then g\<lparr>sg_RevokedAt := Some now\<rparr> else g) (ps_grants s) else ps_grants s"
  let ?s1 = "s\<lparr>ps_grants := ?gs\<rparr>"
  let ?keys = "sort (remdups (map sr_Recipient (filter (\<lambda>r. sr_PrincipalID r = pid) (ps_recipients ?s1))))"
  let ?d = "deleteWrapsForTx i ?keys ?s1"
  have t: "t = (if ?active then EmitTx (SpaceAccessRevoked i pid device (length (fst ?d))) (snd ?d) else snd ?d)"
    using assms(1) by (auto simp: RevokeAccess_def Let_def case_prod_unfold split: option.splits if_splits)
  have "map (\<lambda>g. (sg_SpaceID g, sg_PrincipalID g)) ?gs = map (\<lambda>g. (sg_SpaceID g, sg_PrincipalID g)) (ps_grants s)"
    by (simp add: comp_def cong: map_cong)
  then have a: "access_ok ?s1" using inv by (simp add: access_ok_def store_inv_def)
  have o: "only_wraps (snd ?d) t" unfolding t by (auto intro: only_wraps_Emit)
  have w: "ps_wraps t = ps_wraps (snd ?d)" unfolding t by auto
  show ?thesis by (rule access_then_delete [OF inv _ a o w]) simp
qed

lemma put_grant_wraps_ok:
  "put_grant_wraps mint i own e now ws s = Inr t \<Longrightarrow> wraps_ok s \<Longrightarrow> e = keyEpochTx s i \<Longrightarrow> wraps_ok t"
proof (induction mint i own e now ws s rule: put_grant_wraps.induct)
  case (2 mint i own e now w ws s)
  let ?u = "snd (upsertWrapTx mint i (gw_Recipient w) (gw_Wrapped w) (gw_Epoch w) now s)"
  from 2(2) have c: "checkWrapEpoch e (gw_Epoch w) = None" "serviceWrapAllowedTx s i (gw_Recipient w) now = None"
    "gw_Recipient w \<noteq> []" "gw_Wrapped w \<noteq> []" "gw_Recipient w |\<in>| own" "put_grant_wraps mint i own e now ws ?u = Inr t"
    by (auto split: if_splits option.splits)
  have "gw_Epoch w = keyEpochTx s i" using c(1) 2(4) by (auto simp: checkWrapEpoch_def split: if_splits)
  then have "wraps_ok ?u" using 2(3) by (intro wraps_ok_upsert)
  moreover have "e = keyEpochTx ?u i" using 2(4) by (simp add: keyEpoch_of only_wraps_fields(3) [OF only_wraps_upsert])
  ultimately show ?case using 2(1) c by auto
qed simp

lemma GrantAccess_inv:
  assumes "GrantAccess mint now i pid caps by device expiry wraps s = Inr (g, t)" and inv: "store_inv s"
  shows "store_inv t"
proof -
  define row where "row = SpaceGrant.extend \<lparr>sg_SpaceID = i, sg_PrincipalID = pid, sg_Caps = caps, sg_GrantedByPrincipal = by,
                  sg_GrantedByDevice = device, sg_GrantedAt = now, sg_ExpiresAt = expiry\<rparr> \<lparr>sg_RevokedAt = None\<rparr>"
  define gs where "gs = (if list_ex (same_grant i pid) (ps_grants s)
                     then map (\<lambda>h. if same_grant i pid h then row else h) (ps_grants s) else ps_grants s @ [row])"
  let ?s1 = "s\<lparr>ps_grants := gs\<rparr>"
  obtain u e where u: "putGrantWrapsTx mint i pid wraps now ?s1 = Inr u" and t: "t = EmitTx e u"
    using assms(1) unfolding GrantAccess_def Let_def row_def [symmetric] gs_def [symmetric]
    by (auto split: if_splits option.splits sum.splits)
  have row: "sg_SpaceID row = i" "sg_PrincipalID row = pid" by (simp_all add: row_def SpaceGrant.extend_def)
  have "distinct (map (\<lambda>g. (sg_SpaceID g, sg_PrincipalID g)) gs)"
  proof (cases "list_ex (same_grant i pid) (ps_grants s)")
    case True
    have "map (\<lambda>g. (sg_SpaceID g, sg_PrincipalID g)) gs = map (\<lambda>g. (sg_SpaceID g, sg_PrincipalID g)) (ps_grants s)"
      unfolding gs_def if_P [OF True] by (rule map_replaced) (simp add: same_grant_def row)
    then show ?thesis using inv by (simp add: store_inv_def access_ok_def)
  next
    case False
    then show ?thesis using inv row by (auto simp: gs_def store_inv_def access_ok_def list_ex_iff same_grant_def)
  qed
  then have a: "access_ok ?s1" using inv by (simp add: access_ok_def store_inv_def)
  have i1: "store_inv ?s1" using inv a by (simp add: store_inv_def wraps_ok_def history_ok_def members_ok_def
    member_row_ok_def owner_listed_def space_row_def log_ok_def owners_named_def keyEpoch_of)
  have w1: "wraps_ok ?s1" using i1 unfolding store_inv_def by (rule conjunct1)
  have "wraps_ok u \<and> only_wraps ?s1 u"
  proof (cases "wraps = []")
    case True
    then show ?thesis using u w1 by (auto simp: putGrantWrapsTx_def)
  next
    case False
    then have "put_grant_wraps mint i (RecipientsOf ?s1 pid) (keyEpochTx ?s1 i) now wraps ?s1 = Inr u"
      using u by (simp add: putGrantWrapsTx_def)
    then show ?thesis using put_grant_wraps_ok [OF _ w1 refl] only_wraps_grants by blast
  qed
  then have "only_wraps ?s1 t" "wraps_ok t"
    unfolding t by (auto intro: only_wraps_trans [OF _ only_wraps_Emit] simp: wraps_ok_frame [of "EmitTx e u" u])
  then show ?thesis using only_wraps_inv i1 by blast
qed

lemma memberRow_set: "memberRowTx s i pid = Some m \<Longrightarrow> m \<in> set (ps_members s) \<and> sm_SpaceID m = i \<and> sm_PrincipalID m = pid"
  by (auto simp: memberRowTx_def find_Some_iff)

lemma memberRow_None: "memberRowTx s i pid = None \<longleftrightarrow> (i, pid) \<notin> (\<lambda>m. (sm_SpaceID m, sm_PrincipalID m)) ` set (ps_members s)"
  by (auto simp: memberRowTx_def find_None_iff)

lemma memberRow_unique:
  "members_ok s \<Longrightarrow> m \<in> set (ps_members s) \<Longrightarrow> memberRowTx s (sm_SpaceID m) (sm_PrincipalID m) = Some n \<Longrightarrow> n = m"
  using memberRow_set [of s "sm_SpaceID m" "sm_PrincipalID m" n] by (auto simp: members_ok_def distinct_map dest: inj_onD)

lemma members_inv:
  assumes "store_inv s" and "members_ok t" and "ps_spaces t = ps_spaces s" and "ps_wraps t = ps_wraps s" and "ps_history t = ps_history s"
    and "ps_recipients t = ps_recipients s" and "ps_grants t = ps_grants s" and "ps_changes t = ps_changes s" and "ps_snapshots t = ps_snapshots s"
  shows "store_inv t"
  using assms by (simp add: store_inv_def ok_frames [of t s])

lemma ensureOwner:
  assumes "members_ok s" and "space_row s i = Some r" and "ow = (case spc_Owner r of None \<Rightarrow> [] | Some ow \<Rightarrow> ow)" and "spc_Owner r \<noteq> Some []"
  shows "members_ok (ensureOwnerRowTx i ow now s)" "spc_Owner r = Some q \<Longrightarrow> owner_listed (ensureOwnerRowTx i ow now s) i q"
proof -
  let ?t = "ensureOwnerRowTx i ow now s"
  have listed: "owner_listed ?t i q" if q: "spc_Owner r = Some q" for q
  proof (cases "memberRowTx s i q")
    case None
    then show ?thesis using q assms(3,4) by (auto simp: ensureOwnerRowTx_def insertOwnerRowTx_def owner_listed_def)
  next
    case (Some m)
    then have "owner_listed s i q" using memberRow_set [OF Some] assms(1,2) q by (auto simp: members_ok_def member_row_ok_def)
    then show ?thesis using Some q assms(3) by (auto simp: ensureOwnerRowTx_def)
  qed
  then show "spc_Owner r = Some q \<Longrightarrow> owner_listed ?t i q" by simp
  show "members_ok ?t"
  proof (cases "ow = [] \<or> memberRowTx s i ow \<noteq> None")
    case True
    then show ?thesis using assms(1) by (simp add: ensureOwnerRowTx_def)
  next
    case False
    then obtain m where t: "?t = s\<lparr>ps_members := ps_members s @ [m]\<rparr>" "sm_SpaceID m = i" "sm_PrincipalID m = ow" "sm_RemovedAt m = None"
      by (simp add: ensureOwnerRowTx_def insertOwnerRowTx_def)
    have own: "spc_Owner r = Some ow" using False assms(3) by (auto split: option.splits)
    have r: "space_row (s\<lparr>ps_members := ps_members s @ [m]\<rparr>) j = space_row s j" for j by (simp add: space_row_def)
    have "distinct (map (\<lambda>m. (sm_SpaceID m, sm_PrincipalID m)) (ps_members ?t))"
      using False assms(1) by (auto simp: t members_ok_def memberRow_None)
    moreover have "member_row_ok ?t m" using own assms(2) listed by (auto simp: member_row_ok_def t r)
    moreover have "member_row_ok ?t n" if "member_row_ok s n" for n
      by (rule member_row_ok_mono [OF that]) (auto simp: owner_listed_def t(1) r)
    ultimately show ?thesis using assms(1) by (auto simp: members_ok_def t(1))
  qed
qed

lemma ensureOwner_frame [simp]:
  "ps_spaces (ensureOwnerRowTx i ow now s) = ps_spaces s" "ps_wraps (ensureOwnerRowTx i ow now s) = ps_wraps s"
  "ps_history (ensureOwnerRowTx i ow now s) = ps_history s" "ps_recipients (ensureOwnerRowTx i ow now s) = ps_recipients s"
  "ps_grants (ensureOwnerRowTx i ow now s) = ps_grants s" "ps_changes (ensureOwnerRowTx i ow now s) = ps_changes s"
  "ps_snapshots (ensureOwnerRowTx i ow now s) = ps_snapshots s"
  by (simp_all add: ensureOwnerRowTx_def insertOwnerRowTx_def)

text \<open>Replacing the row of a member that is not the owner's.\<close>

lemma members_ok_replace:
  assumes "members_ok s" and "ps_spaces t = ps_spaces s" and "memberRowTx s i pid = Some m" and "sm_Role m \<noteq> RoleOwner"
    and "sm_Role n = RoleMember" and "sm_SpaceID n = i" and "sm_PrincipalID n = pid"
    and "ps_members t = map (\<lambda>r. if sm_SpaceID r = i \<and> sm_PrincipalID r = pid then n else r) (ps_members s)"
  shows "members_ok t"
proof -
  note m = memberRow_set [OF assms(3)]
  have same: "x = m" if "x \<in> set (ps_members s)" "sm_SpaceID x = i" "sm_PrincipalID x = pid" for x
    using memberRow_unique [OF assms(1) that(1)] that assms(3) by simp
  have r: "space_row t j = space_row s j" for j by (simp add: assms(2) space_row_def)
  have listed: "owner_listed t j ow" if "owner_listed s j ow" for j ow
    using that same assms(4) unfolding owner_listed_def assms(8) by fastforce
  have keep: "member_row_ok t x" if "member_row_ok s x" for x
    by (rule member_row_ok_mono [OF that]) (simp_all add: r listed)
  have "map (\<lambda>m. (sm_SpaceID m, sm_PrincipalID m)) (ps_members t) = map (\<lambda>m. (sm_SpaceID m, sm_PrincipalID m)) (ps_members s)"
    unfolding assms(8) by (rule map_replaced) (simp add: assms(6,7))
  moreover have "member_row_ok t n" using keep [of m] assms(1,4-6) m by (auto simp: members_ok_def member_row_ok_def)
  moreover have "member_row_ok t x" if "x \<in> set (ps_members t)" for x
    using that \<open>member_row_ok t n\<close> keep assms(1) by (auto simp: members_ok_def assms(8) split: if_splits)
  ultimately show ?thesis using assms(1) by (simp add: members_ok_def)
qed

lemma memberChange:
  assumes "memberChangeAllowed s i by = Inr (kind, ow)" and "owners_named s"
  shows "\<exists>r. space_row s i = Some r \<and> ow = (case spc_Owner r of None \<Rightarrow> [] | Some ow \<Rightarrow> ow) \<and> spc_Owner r \<noteq> Some [] \<and> kind = spc_Kind r"
  using assms space_row_set [of s i] by (auto simp: memberChangeAllowed_def owners_named_def split: option.splits if_splits)

lemma AddMember_inv:
  assumes "AddMember now i pid by device s = Inr (m, t)" and inv: "store_inv s"
  shows "store_inv t"
proof -
  obtain kind ow where c: "memberChangeAllowed s i by = Inr (kind, ow)"
    using assms(1) by (auto simp: AddMember_def split: if_splits sum.splits)
  obtain r where r: "space_row s i = Some r" "ow = (case spc_Owner r of None \<Rightarrow> [] | Some ow \<Rightarrow> ow)" "spc_Owner r \<noteq> Some []"
    using memberChange [OF c] inv by (auto simp: store_inv_def)
  have ok: "members_ok s" using inv by (simp add: store_inv_def)
  let ?s1 = "ensureOwnerRowTx i ow now s"
  note e = ensureOwner [OF ok r, where now = now]
  have r1: "space_row ?s1 j = space_row s j" for j by (simp add: space_row_def)
  define n where "n = \<lparr>sm_SpaceID = i, sm_PrincipalID = pid, sm_Role = RoleMember, sm_AddedAt = now,
    sm_AddedByPrincipal = by, sm_AddedByDevice = device, sm_RemovedAt = None\<rparr>"
  note a = assms(1) [unfolded AddMember_def n_def [symmetric]]
  show ?thesis
  proof (cases "memberRowTx ?s1 i pid")
    case None
    then have t: "t = EmitTx (SpaceMemberAdded i pid kind device False) (?s1\<lparr>ps_members := ps_members ?s1 @ [n]\<rparr>)"
      using a c by (auto simp: Let_def split: if_splits)
    have rt: "space_row t j = space_row s j" for j by (simp add: t space_row_def)
    have keep: "member_row_ok t x" if "member_row_ok ?s1 x" for x
      by (rule member_row_ok_mono [OF that]) (auto simp: owner_listed_def t space_row_def)
    have "member_row_ok t n"
      using r e(2) by (auto simp: member_row_ok_def n_def owner_listed_def t space_row_def)
    then have "members_ok t" using e(1) keep None by (auto simp: members_ok_def t memberRow_None n_def)
    then show ?thesis by (rule members_inv [OF inv]) (simp_all add: t)
  next
    case (Some x)
    show ?thesis
    proof (cases "Current_member x")
      case True
      then have "t = s" using a c Some by (auto simp: Let_def split: if_splits)
      then show ?thesis using inv by simp
    next
      case False
      have t: "t = EmitTx (SpaceMemberAdded i pid kind device True)
          (?s1\<lparr>ps_members := map (\<lambda>r. if sm_SpaceID r = i \<and> sm_PrincipalID r = pid then n else r) (ps_members ?s1)\<rparr>)"
        using a c Some False by (auto simp: Let_def split: if_splits)
      have "sm_Role x \<noteq> RoleOwner" using e(1) memberRow_set [OF Some] False by (auto simp: members_ok_def member_row_ok_def Current_member_def)
      then have "members_ok t" by (intro members_ok_replace [OF e(1) _ Some, of t n]) (simp_all add: t n_def)
      then show ?thesis by (rule members_inv [OF inv]) (simp_all add: t)
    qed
  qed
qed

lemma RemoveMember_inv:
  assumes "RemoveMember now i pid by device s = Inr (m, t)" and inv: "store_inv s"
  shows "store_inv t"
proof -
  obtain kind x where x: "memberRowTx s i pid = Some x" "sm_Role x \<noteq> RoleOwner"
    and t: "t = EmitTx (SpaceMemberRemoved i pid kind device) (s\<lparr>ps_members := map (\<lambda>r. if sm_SpaceID r = i \<and> sm_PrincipalID r = pid
              then r\<lparr>sm_RemovedAt := Some now\<rparr> else r) (ps_members s)\<rparr>)"
    using assms(1) by (auto simp: RemoveMember_def split: if_splits sum.splits option.splits)
  have ok: "members_ok s" using inv by (simp add: store_inv_def)
  have "r = x" if "r \<in> set (ps_members s)" "sm_SpaceID r = i" "sm_PrincipalID r = pid" for r
    using memberRow_unique [OF ok that(1)] that x(1) by simp
  then have "ps_members t = map (\<lambda>r. if sm_SpaceID r = i \<and> sm_PrincipalID r = pid then x\<lparr>sm_RemovedAt := Some now\<rparr> else r) (ps_members s)"
    by (auto simp: t)
  moreover have "sm_Role x = RoleMember" using x(2) by (cases "sm_Role x") auto
  ultimately have "members_ok t" using memberRow_set [OF x(1)] x(2)
    by (intro members_ok_replace [OF ok _ x(1), of t "x\<lparr>sm_RemovedAt := Some now\<rparr>"]) (simp_all add: t)
  then show ?thesis by (rule members_inv [OF inv]) (simp_all add: t)
qed

section \<open>The log and the steps of the store\<close>

lemma next_seq_gt: "r \<in> set (ps_changes s) \<Longrightarrow> cr_Seq r < next_seq s"
proof -
  assume r: "r \<in> set (ps_changes s)"
  then have "cr_Seq r \<le> Max (set (map cr_Seq (ps_changes s)))" by (intro Max_ge) auto
  then show ?thesis using r by (auto simp: next_seq_def)
qed

lemma next_seq_pos: "log_ok s \<Longrightarrow> 1 \<le> next_seq s"
proof (cases "ps_changes s")
  case (Cons r rs)
  moreover assume "log_ok s"
  ultimately have "1 \<le> cr_Seq r" "cr_Seq r < next_seq s" using next_seq_gt [of r s] by (auto simp: log_ok_def)
  then show ?thesis by simp
qed (simp add: next_seq_def)

lemma putChange_Inr:
  assumes "putChange D now ch e s = Inr t"
  shows "change_Validate D ch = None" "space_row s (ec_SpaceID ch) \<noteq> None"
    "holds_change s (ec_ChangeID ch) \<Longrightarrow> t = s"
    "\<not> holds_change s (ec_ChangeID ch) \<Longrightarrow>
       t = EmitTx (ChangeStored (ec_ChangeID ch) (ec_SpaceID ch)) (s\<lparr>ps_changes := ps_changes s @ [change_row now (next_seq s) ch]\<rparr>)"
  using assms by (auto simp: putChange_def split: option.splits if_splits)

lemma log_inv:
  assumes "store_inv s" and "log_ok t" and "ps_spaces t = ps_spaces s" and "ps_members t = ps_members s" and "ps_wraps t = ps_wraps s"
    and "ps_history t = ps_history s" and "ps_recipients t = ps_recipients s" and "ps_grants t = ps_grants s"
  shows "store_inv t"
  using assms by (simp add: store_inv_def ok_frames [of t s])

lemma putChange_inv:
  assumes "putChange D now ch e s = Inr t" and inv: "store_inv s"
  shows "store_inv t"
proof (cases "holds_change s (ec_ChangeID ch)")
  case False
  note t = putChange_Inr(4) [OF assms(1) False]
  have l: "log_ok s" using inv by (simp add: store_inv_def)
  have "log_ok t" using l False next_seq_gt next_seq_pos [OF l]
    by (auto simp: log_ok_def t sorted_wrt_append change_row_def holds_change_def list_ex_iff)
  then show ?thesis by (rule log_inv [OF inv]) (simp_all add: t)
qed (use putChange_Inr(3) [OF assms(1)] inv in simp)

lemma PutSnapshot_inv:
  assumes "PutSnapshot D now snap s = Inr t" and inv: "store_inv s"
  shows "store_inv t"
proof (cases "list_ex (\<lambda>r. sn_SnapshotID r = es_SnapshotID snap) (ps_snapshots s)")
  case True
  then show ?thesis using assms by (auto simp: PutSnapshot_def split: option.splits if_splits)
next
  case False
  then obtain e r where t: "t = EmitTx e (s\<lparr>ps_snapshots := ps_snapshots s @ [r]\<rparr>)" "sn_SnapshotID r = es_SnapshotID snap"
    using assms(1) by (auto simp: PutSnapshot_def split: option.splits if_splits)
  have "log_ok t" using inv False by (auto simp: log_ok_def store_inv_def t list_ex_iff)
  then show ?thesis by (rule log_inv [OF inv]) (simp_all add: t)
qed

definition dropped_row :: "string \<Rightarrow> string list \<Rightarrow> ChangeRow \<Rightarrow> bool" where
  "dropped_row i ids r \<longleftrightarrow> cr_ChangeID r \<in> set ids \<and> cr_SpaceID r = i"

lemma delete_changes_state: "snd (delete_changes i ids k s) = s\<lparr>ps_changes := filter (\<lambda>r. \<not> dropped_row i ids r) (ps_changes s)\<rparr>"
proof (induction ids arbitrary: k s)
  case (Cons x xs)
  show ?case unfolding delete_changes.simps Let_def Cons.IH by (auto simp: dropped_row_def intro!: arg_cong [of _ _ "\<lambda>c. s\<lparr>ps_changes := c\<rparr>"] filter_cong)
qed (simp add: dropped_row_def)

lemma CompactChanges_Inr:
  assumes "CompactChanges i acked s = Inr (n, t)"
  shows "t = s \<and> n = 0 \<or> (\<exists>snap changes e. LatestSnapshotFor s i = Inr (Some snap) \<and> ChangesFor s i = Inr changes \<and>
    n = fst (delete_changes i (droppable snap changes acked) 0 s) \<and>
    (let u = s\<lparr>ps_changes := filter (\<lambda>r. \<not> dropped_row i (droppable snap changes acked) r) (ps_changes s)\<rparr>
     in t = (if n = 0 then u else EmitTx e u)))"
proof -
  have d: "delete_changes i ids 0 s = (k, u) \<longleftrightarrow> k = fst (delete_changes i ids 0 s) \<and>
      u = s\<lparr>ps_changes := filter (\<lambda>r. \<not> dropped_row i ids r) (ps_changes s)\<rparr>" for ids k u
    using delete_changes_state [of i ids 0 s] by (metis prod.collapse fst_conv snd_conv)
  show ?thesis using assms
    by (auto simp: CompactChanges_def Let_def case_prod_unfold delete_changes_state split: sum.splits option.splits if_splits)
qed

lemma CompactChanges_frame:
  assumes "CompactChanges i acked s = Inr (n, t)"
  shows "ps_spaces t = ps_spaces s" "ps_members t = ps_members s" "ps_wraps t = ps_wraps s" "ps_history t = ps_history s"
    "ps_recipients t = ps_recipients s" "ps_grants t = ps_grants s" "ps_snapshots t = ps_snapshots s"
    "\<exists>P. ps_changes t = filter P (ps_changes s)"
  using CompactChanges_Inr [OF assms] by (auto simp: Let_def intro: exI [of _ "\<lambda>_. True"] split: if_splits)

lemma CompactChanges_inv: "CompactChanges i acked s = Inr (n, t) \<Longrightarrow> store_inv s \<Longrightarrow> store_inv t"
proof -
  assume c: "CompactChanges i acked s = Inr (n, t)" and inv: "store_inv s"
  note f = CompactChanges_frame [OF c]
  obtain P where P: "ps_changes t = filter P (ps_changes s)" using f(8) by blast
  have "log_ok t" using inv by (auto simp: log_ok_def store_inv_def f P distinct_map_filter sorted_wrt_filter)
  then show ?thesis by (rule log_inv [OF inv]) (simp_all add: f)
qed

text \<open>The committed operations. Epochs that arrive from a sibling are 64-bit integers.\<close>

inductive store_step ::
    "(byte list \<Rightarrow> string) \<Rightarrow> (string \<Rightarrow> bool) \<Rightarrow> (nat \<Rightarrow> string) \<Rightarrow> (string \<Rightarrow> bool) \<Rightarrow> PStore \<Rightarrow> PStore \<Rightarrow> bool"
  for D is_uuid mint member_key where
  create: "CreateSpace mint now kind s = Inr (sp, t) \<Longrightarrow> store_step D is_uuid mint member_key s t"
| put_space: "PutSpaceOwnedFrom is_uuid now i kind owner device s = Inr (sp, t) \<Longrightarrow> store_step D is_uuid mint member_key s t"
| put_wrap: "PutWrappedKey mint now i rc b e s = Inr (w, t) \<Longrightarrow> store_step D is_uuid mint member_key s t"
| delete_wrap: "DeleteWrappedKey i rc s = Inr t \<Longrightarrow> store_step D is_uuid mint member_key s t"
| rotate: "RotateKey mint now i e sealed ws rv pres s = Inr (n, t) \<Longrightarrow> store_step D is_uuid mint member_key s t"
| put_history: "PutKeyHistory now i e sealed s = Inr t \<Longrightarrow> int64_range e \<Longrightarrow> store_step D is_uuid mint member_key s t"
| register: "RegisterServiceRecipient mint member_key now pid rc label fp by device s = Inr (sr, new, t) \<Longrightarrow> store_step D is_uuid mint member_key s t"
| remove: "RemoveServiceRecipient now ref device s = Inr (sr, sps, t) \<Longrightarrow> store_step D is_uuid mint member_key s t"
| grant: "GrantAccess mint now i pid caps by device expiry gws s = Inr (g, t) \<Longrightarrow> store_step D is_uuid mint member_key s t"
| revoke: "RevokeAccess now i pid by device s = Inr (rs, t) \<Longrightarrow> store_step D is_uuid mint member_key s t"
| add_member: "AddMember now i pid by device s = Inr (m, t) \<Longrightarrow> store_step D is_uuid mint member_key s t"
| remove_member: "RemoveMember now i pid by device s = Inr (m, t) \<Longrightarrow> store_step D is_uuid mint member_key s t"
| put_change: "putChange D now ch epoch s = Inr t \<Longrightarrow> store_step D is_uuid mint member_key s t"
| put_snapshot: "PutSnapshot D now snap s = Inr t \<Longrightarrow> store_step D is_uuid mint member_key s t"
| compact: "CompactChanges i acked s = Inr (n, t) \<Longrightarrow> store_step D is_uuid mint member_key s t"

lemma step_inv: "store_step D is_uuid mint member_key s t \<Longrightarrow> store_inv s \<Longrightarrow> store_inv t"
  by (erule store_step.cases)
    (blast dest: CreateSpace_inv PutSpace_inv PutWrappedKey_inv DeleteWrappedKey_inv RotateKey_inv PutKeyHistory_inv
      RegisterServiceRecipient_inv RemoveServiceRecipient_inv GrantAccess_inv RevokeAccess_inv AddMember_inv RemoveMember_inv
      putChange_inv PutSnapshot_inv CompactChanges_inv)+

lemma empty_inv: "store_inv empty_store"
  by (simp add: store_inv_def empty_store_def wraps_ok_def history_ok_def members_ok_def access_ok_def log_ok_def owners_named_def)

text \<open>The states a store gets into.\<close>

inductive store_reached ::
    "(byte list \<Rightarrow> string) \<Rightarrow> (string \<Rightarrow> bool) \<Rightarrow> (nat \<Rightarrow> string) \<Rightarrow> (string \<Rightarrow> bool) \<Rightarrow> PStore \<Rightarrow> bool"
  for D is_uuid mint member_key where
  start: "store_reached D is_uuid mint member_key empty_store"
| again: "store_reached D is_uuid mint member_key s \<Longrightarrow> store_step D is_uuid mint member_key s t \<Longrightarrow> store_reached D is_uuid mint member_key t"

lemma reached_inv: "store_reached D is_uuid mint member_key s \<Longrightarrow> store_inv s"
  by (induction rule: store_reached.induct) (auto intro: empty_inv step_inv)

end
