(* ===== verification/KeySpec.thy ===== *)
theory KeySpec
  imports StateSpec
begin

text \<open>
  What the store promises about keys: the invariant in its own words, when a rotation happens and what it leaves, how a
  rotation reaches a sibling, and that revoking an executor's access takes its copies with it.
\<close>

section \<open>The invariant\<close>

lemma wrapped_set: "w \<in> set (wrappedKeysTx s i) \<longleftrightarrow> w \<in> set (ps_wraps s) \<and> wk_SpaceID w = i"
  by (auto simp: wrappedKeysTx_def)

lemma owner_stays:
  assumes "store_inv s" and "m \<in> set (ps_members s)" and "space_row s (sm_SpaceID m) = Some r" and "spc_Owner r = Some ow"
  shows "\<exists>n. memberRowTx s (sm_SpaceID m) ow = Some n \<and> sm_Role n = RoleOwner \<and> Current_member n"
proof -
  have ok: "members_ok s" using assms(1) by (simp add: store_inv_def)
  then have "member_row_ok s m" using assms(2) by (simp add: members_ok_def)
  then have "owner_listed s (sm_SpaceID m) ow" using assms(3,4) by (simp add: member_row_ok_def)
  then obtain n where n: "n \<in> set (ps_members s)" "sm_SpaceID n = sm_SpaceID m" "sm_PrincipalID n = ow" "sm_Role n = RoleOwner"
    by (auto simp: owner_listed_def)
  have "memberRowTx s (sm_SpaceID n) (sm_PrincipalID n) \<noteq> None" using n(1) by (auto simp: memberRow_None)
  then have "memberRowTx s (sm_SpaceID n) (sm_PrincipalID n) = Some n" using memberRow_unique [OF ok n(1)] by auto
  moreover have "Current_member n" using ok n by (auto simp: members_ok_def member_row_ok_def Current_member_def)
  ultimately show ?thesis using n by auto
qed

text \<open>C31: Whatever operations a store has run, every wrapped copy it holds seals the current epoch of its space, one copy
  for a recipient of a space; the copies \<open>KeyState\<close> returns seal the epoch it returns. An epoch has one row of history, a
  principal one grant on a space, a key one live registration, a change one row, and rows are numbered in the order they
  arrived. A space with members and a recorded owner has the owner as a current member, and no removal removes the owner.\<close>

theorem store_invariant:
  assumes "store_reached D is_uuid mint member_key s"
  shows "(\<forall>w\<in>set (ps_wraps s). wk_Epoch w = keyEpochTx s (wk_SpaceID w)) \<and>
    distinct (map (\<lambda>w. (wk_SpaceID w, wk_Recipient w)) (ps_wraps s)) \<and>
    (KeyState s i = Inr (e, ws) \<longrightarrow> (\<forall>w\<in>set ws. wk_Epoch w = e)) \<and>
    distinct (map (\<lambda>h. (kh_SpaceID h, kh_Epoch h)) (ps_history s)) \<and>
    distinct (map (\<lambda>g. (sg_SpaceID g, sg_PrincipalID g)) (ps_grants s)) \<and>
    distinct (map sr_Recipient (filter (\<lambda>r. sr_RevokedAt r = None) (ps_recipients s))) \<and>
    distinct (map cr_ChangeID (ps_changes s)) \<and> sorted_wrt (\<lambda>a b. cr_Seq a < cr_Seq b) (ps_changes s) \<and>
    (\<forall>m\<in>set (ps_members s). \<exists>r. space_row s (sm_SpaceID m) = Some r \<and>
       (\<forall>ow. spc_Owner r = Some ow \<longrightarrow> (\<exists>n. memberRowTx s (sm_SpaceID m) ow = Some n \<and> sm_Role n = RoleOwner \<and> Current_member n))) \<and>
    (RemoveMember now i pid by device s = Inr (m, t) \<longrightarrow>
       sm_Role m = RoleMember \<and> (\<forall>r. space_row s i = Some r \<longrightarrow> spc_Owner r \<noteq> Some pid))"
proof -
  note inv = reached_inv [OF assms]
  have w: "wraps_ok s" "history_ok s" "access_ok s" "log_ok s" "members_ok s" "owners_named s" using inv by (simp_all add: store_inv_def)
  have "\<exists>r. space_row s (sm_SpaceID m) = Some r \<and>
       (\<forall>ow. spc_Owner r = Some ow \<longrightarrow> (\<exists>n. memberRowTx s (sm_SpaceID m) ow = Some n \<and> sm_Role n = RoleOwner \<and> Current_member n))"
    if m: "m \<in> set (ps_members s)" for m
  proof -
    obtain r where "space_row s (sm_SpaceID m) = Some r" using w(5) m by (auto simp: members_ok_def member_row_ok_def)
    then show ?thesis using owner_stays [OF inv m] by blast
  qed
  moreover have "sm_Role m = RoleMember \<and> (\<forall>r. space_row s i = Some r \<longrightarrow> spc_Owner r \<noteq> Some pid)"
    if rm: "RemoveMember now i pid by device s = Inr (m, t)"
  proof -
    obtain kind ow where c: "memberChangeAllowed s i by = Inr (kind, ow)" and p: "\<not> (ow \<noteq> [] \<and> pid = ow)" "pid \<noteq> []" "sm_Role m \<noteq> RoleOwner"
      using rm by (auto simp: RemoveMember_def split: if_splits sum.splits option.splits)
    then show ?thesis using memberChange [OF c w(6)] by (cases "sm_Role m") auto
  qed
  moreover have "\<forall>w\<in>set ws. wk_Epoch w = e" if "KeyState s i = Inr (e, ws)"
    using that w(1) by (auto simp: KeyState_def wrapped_set wraps_ok_def split: option.splits)
  ultimately show ?thesis using w(1-4) by (simp add: wraps_ok_def history_ok_def access_ok_def log_ok_def wrap_key_def [abs_def])
qed

section \<open>Rotation\<close>

lemma check_wraps_None: "check_wraps ws = None \<longleftrightarrow> (\<forall>w\<in>set ws. rw_Recipient w \<noteq> [] \<and> rw_Wrapped w \<noteq> [])"
  by (induction ws) auto

lemma check_revokes_None: "check_revokes rs xs = None \<longleftrightarrow> (\<forall>x\<in>set xs. x \<noteq> [] \<and> x \<notin> set rs)"
  by (induction xs) auto

lemma first_error_None: "first_error f xs = None \<longleftrightarrow> (\<forall>x\<in>set xs. f x = None)"
  by (induction xs) (auto split: option.splits)

lemma checkRotation_None:
  "checkRotationRecipients held e rewrap revoke = None \<longleftrightarrow>
     {wk_Recipient h | h. h \<in> set held \<and> wk_Epoch h = e} = set rewrap \<union> set revoke"
  by (auto simp: checkRotationRecipients_def Let_def filter_empty_conv split: if_splits)

text \<open>Who may open the space: the recipients of the copies held.\<close>

definition holders :: "PStore \<Rightarrow> string \<Rightarrow> string set" where
  "holders s i = wk_Recipient ` set (wrappedKeysTx s i)"

lemma holders_alt: "r \<in> holders s i \<longleftrightarrow> (i, r) \<in> wrap_key ` set (ps_wraps s)"
  by (auto simp: holders_def wrapped_set wrap_key_def image_iff)

lemma holders_current: "wraps_ok s \<Longrightarrow> {wk_Recipient h | h. h \<in> set (wrappedKeysTx s i) \<and> wk_Epoch h = keyEpochTx s i} = holders s i"
  by (auto simp: holders_def wrapped_set wraps_ok_def)

lemma RotateKey_when:
  assumes "store_inv s"
  shows "(\<exists>x. RotateKey mint now i e sealed ws rv pres s = Inr x) \<longleftrightarrow>
    sealed \<noteq> [] \<and> ws \<noteq> [] \<and> (\<forall>w\<in>set ws. rw_Recipient w \<noteq> [] \<and> rw_Wrapped w \<noteq> []) \<and>
    (\<forall>r\<in>set rv. r \<noteq> [] \<and> r \<notin> rw_Recipient ` set ws) \<and> space_row s i \<noteq> None \<and> e = keyEpochTx s i \<and>
    e < 9223372036854775807 \<and>
    (\<forall>w\<in>set ws. serviceWrapAllowedTx s i (rw_Recipient w) now = None) \<and>
    holders s i = rw_Recipient ` set ws \<union> set rv \<and> (\<forall>r\<in>holders s i. pres r \<longrightarrow> r \<in> rw_Recipient ` set ws)"
    (is "?l \<longleftrightarrow> ?r")
proof
  have ok: "wraps_ok s" "history_ok s" using assms by (simp_all add: store_inv_def)
  have e0: "0 \<le> keyEpochTx s i" by (simp add: keyEpoch_of epoch_of_nonneg)
  assume ?l
  then obtain n t where r: "RotateKey mint now i e sealed ws rv pres s = Inr (n, t)" by auto
  note g = RotateKey_Inr [OF r]
  have "wrap64 (e + 1) = e + 1 \<and> int64_range (e + 1)" using wrap_next [of e] epoch_range [OF ok(2)] g(1-4) by simp
  then have "e < 9223372036854775807" by (simp add: int64_range_def)
  moreover have "holders s i = rw_Recipient ` set ws \<union> set rv"
    using g(11) holders_current [OF ok(1), of i] unfolding checkRotation_None g(1) by simp
  moreover have "\<forall>r\<in>holders s i. pres r \<longrightarrow> r \<in> rw_Recipient ` set ws"
    using g(12) ok(1) by (auto simp: holders_def wrapped_set wraps_ok_def g(1))
  ultimately show ?r using g(1,5-10) by (simp add: check_wraps_None check_revokes_None first_error_None)
next
  have ok: "wraps_ok s" "history_ok s" using assms by (simp_all add: store_inv_def)
  have e0: "0 \<le> keyEpochTx s i" by (simp add: keyEpoch_of epoch_of_nonneg)
  assume r: ?r
  then have "int64_range (e + 1)" using e0 by (auto simp: int64_range_def)
  then have w: "wrap64 (e + 1) = e + 1" by (rule wrap64_id)
  have f: "find (\<lambda>h. wk_Epoch h = e \<and> pres (wk_Recipient h) \<and> wk_Recipient h \<notin> rw_Recipient ` set ws) (wrappedKeysTx s i) = None"
    using r by (auto simp: find_None_iff holders_def)
  have c: "check_wraps ws = None" "check_revokes (map rw_Recipient ws) rv = None"
    "first_error (\<lambda>w. serviceWrapAllowedTx s i (rw_Recipient w) now) ws = None" "spaceExistsTx s i = None"
    "checkRotationRecipients (wrappedKeysTx s i) (keyEpochTx s i) (map rw_Recipient ws) rv = None"
    using r holders_current [OF ok(1), of i]
    by (simp_all add: check_wraps_None check_revokes_None first_error_None checkRotation_None spaceExistsTx_def)
  show ?l using r e0 w c f by (simp add: RotateKey_def Let_def case_prod_unfold)
qed

text \<open>C32: A rotation happens just when the request is complete, names exactly the recipients holding a copy, each as
  re-wrapped or as revoked, keeps those that must be kept, wraps for no executor without an active grant, and expects the
  epoch the space is at. Then the space is one epoch further, exactly the re-wrapped recipients hold a copy, of the new key
  and from the request, no copy of another space changes, and the history has one row more. A second rotation that expected
  the same epoch fails, and so does every later wrap of an older key.\<close>

theorem rotation:
  assumes "store_reached D is_uuid mint member_key s"
  shows "((\<exists>x. RotateKey mint now i e sealed ws rv pres s = Inr x) \<longleftrightarrow>
      sealed \<noteq> [] \<and> ws \<noteq> [] \<and> (\<forall>w\<in>set ws. rw_Recipient w \<noteq> [] \<and> rw_Wrapped w \<noteq> []) \<and>
      (\<forall>r\<in>set rv. r \<noteq> [] \<and> r \<notin> rw_Recipient ` set ws) \<and> space_row s i \<noteq> None \<and> e = keyEpochTx s i \<and>
      e < 9223372036854775807 \<and>
      (\<forall>w\<in>set ws. serviceWrapAllowedTx s i (rw_Recipient w) now = None) \<and>
      holders s i = rw_Recipient ` set ws \<union> set rv \<and> (\<forall>r\<in>holders s i. pres r \<longrightarrow> r \<in> rw_Recipient ` set ws)) \<and>
    (RotateKey mint now i e sealed ws rv pres s = Inr (n, t) \<longrightarrow>
      n = e + 1 \<and> keyEpochTx t i = n \<and> holders t i = rw_Recipient ` set ws \<and>
      (\<forall>k\<in>set (wrappedKeysTx t i). wk_Epoch k = n \<and> wk_Wrapped k \<in> rw_Wrapped ` set ws) \<and>
      (\<forall>k. wk_SpaceID k \<noteq> i \<longrightarrow> (k \<in> set (ps_wraps t) \<longleftrightarrow> k \<in> set (ps_wraps s))) \<and>
      ps_history t = ps_history s @ [\<lparr>kh_SpaceID = i, kh_Epoch = n, kh_SealedPrev = sealed, kh_CreatedAt = now\<rparr>] \<and>
      (\<nexists>x. RotateKey mint' now' i e sealed' ws' rv' pres' t = Inr x) \<and>
      (PutWrappedKey mint' now' i rc b e' t = Inr y \<longrightarrow> e' = n))"
proof -
  note inv = reached_inv [OF assms]
  have "n = e + 1 \<and> keyEpochTx t i = n \<and> holders t i = rw_Recipient ` set ws \<and>
      (\<forall>k\<in>set (wrappedKeysTx t i). wk_Epoch k = n \<and> wk_Wrapped k \<in> rw_Wrapped ` set ws) \<and>
      (\<forall>k. wk_SpaceID k \<noteq> i \<longrightarrow> (k \<in> set (ps_wraps t) \<longleftrightarrow> k \<in> set (ps_wraps s))) \<and>
      ps_history t = ps_history s @ [\<lparr>kh_SpaceID = i, kh_Epoch = n, kh_SealedPrev = sealed, kh_CreatedAt = now\<rparr>] \<and>
      (\<nexists>x. RotateKey mint' now' i e sealed' ws' rv' pres' t = Inr x) \<and>
      (PutWrappedKey mint' now' i rc b e' t = Inr y \<longrightarrow> e' = n)" if rot: "RotateKey mint now i e sealed ws rv pres s = Inr (n, t)"
  proof -
    note g = RotateKey_Inr [OF rot] and n = RotateKey_epoch [OF rot inv] and tinv = RotateKey_inv [OF rot inv]
    have ok: "wraps_ok s" "wraps_ok t" using inv tinv by (simp_all add: store_inv_def)
    let ?u = "upsert_all mint i n now ws (add_history i n sealed now s)"
    have a: "ps_wraps (add_history i n sealed now s) = ps_wraps s" by (simp add: add_history_def)
    have kept: "w \<in> set (ps_wraps t) \<longleftrightarrow> w \<in> set (ps_wraps ?u) \<and> \<not> (wk_SpaceID w = i \<and> wk_Epoch w < n)" for w by (simp add: g(14))
    have old: "wk_Epoch w < n" if "w \<in> set (ps_wraps s)" "wk_SpaceID w = i" for w using ok(1) that n(1) by (auto simp: wraps_ok_def)
    have new: "wrap_key w \<in> (\<lambda>x. (i, rw_Recipient x)) ` set ws \<and> wk_Epoch w = n \<and> wk_Wrapped w \<in> rw_Wrapped ` set ws"
      if "w \<in> set (ps_wraps t)" "wk_SpaceID w = i" for w
      using that upsert_all_set [of w mint i n now ws "add_history i n sealed now s"] old unfolding kept a by auto
    have sub: "rw_Recipient ` set ws \<subseteq> holders t i"
    proof
      fix r assume "r \<in> rw_Recipient ` set ws"
      then have k: "(i, r) \<in> (\<lambda>x. (i, rw_Recipient x)) ` set ws" by auto
      then have "(i, r) \<in> wrap_key ` set (ps_wraps ?u)" unfolding upsert_all_keys by blast
      then obtain w where w: "w \<in> set (ps_wraps ?u)" "wrap_key w = (i, r)" by (metis imageE)
      then have "wk_Epoch w = n" using upsert_all_set [OF w(1)] k by auto
      then have "w \<in> set (ps_wraps t)" using w by (simp add: kept)
      then show "r \<in> holders t i" using w(2) by (metis holders_alt image_eqI)
    qed
    have hold: "holders t i = rw_Recipient ` set ws" using sub new by (fastforce simp: holders_def wrapped_set wrap_key_def)
    have other: "k \<in> set (ps_wraps t) \<longleftrightarrow> k \<in> set (ps_wraps s)" if "wk_SpaceID k \<noteq> i" for k
      using that upsert_all_set [of k mint i n now ws "add_history i n sealed now s"]
        upsert_all_kept [of k "add_history i n sealed now s" i ws mint n now]
      unfolding kept a by (auto simp: wrap_key_def)
    have "\<nexists>x. RotateKey mint' now' i e sealed' ws' rv' pres' t = Inr x"
      unfolding RotateKey_when [OF tinv] using n g(1) by simp
    moreover have "PutWrappedKey mint' now' i rc b e' t = Inr y \<longrightarrow> e' = n"
      using n(3) [of i] by (auto simp: PutWrappedKey_def checkWrapEpoch_def split: if_splits option.splits)
    moreover have "\<forall>k\<in>set (wrappedKeysTx t i). wk_Epoch k = n \<and> wk_Wrapped k \<in> rw_Wrapped ` set ws"
      using new by (auto simp: wrapped_set)
    ultimately show ?thesis using n(1) n(3) [of i] g(1,13) hold other by simp
  qed
  then show ?thesis using RotateKey_when [OF inv] by simp
qed

section \<open>Rotations that arrive from a sibling\<close>

lemma PutKeyHistory_same:
  assumes p: "PutKeyHistory now i e sealed s = Inr t"
  shows "PutKeyHistory now' i e sealed t = Inr t"
proof (cases "history_row s i e")
  case None
  note n = PutKeyHistory_new [OF p None]
  have "history_row t i e = Some \<lparr>kh_SpaceID = i, kh_Epoch = e, kh_SealedPrev = sealed, kh_CreatedAt = now\<rparr>"
    using None n(4) by (simp add: history_row_def find_append)
  moreover have "spaceExistsTx t i = None"
    using p only_wraps_fields(1) [OF n(3)]
    by (auto simp: PutKeyHistory_def spaceExistsTx_def space_row_def add_history_def split: if_splits option.splits)
  ultimately show ?thesis using n(1,2) by (simp add: PutKeyHistory_def)
next
  case (Some h)
  then have "t = s" using PutKeyHistory_held [OF p] by blast
  then show ?thesis using p Some by (auto simp: PutKeyHistory_def split: if_splits option.splits)
qed

lemma PutKeyHistory_wraps:
  assumes "PutKeyHistory now i e sealed s = Inr t" and "store_inv s"
  shows "keyEpochTx t j = (if j = i then max (keyEpochTx s i) e else keyEpochTx s j)"
    and "ps_wraps t = filter (\<lambda>w. \<not> (wk_SpaceID w = i \<and> e > keyEpochTx s i)) (ps_wraps s)"
proof -
  have ok: "wraps_ok s" using assms(2) by (simp add: store_inv_def)
  show "keyEpochTx t j = (if j = i then max (keyEpochTx s i) e else keyEpochTx s j)"
  proof (cases "history_row s i e")
    case None
    show ?thesis using PutKeyHistory_new(4) [OF assms(1) None] by (simp add: keyEpoch_of epoch_of_append)
  next
    case (Some h)
    then have "e \<le> keyEpochTx s i" using epoch_le [of h s] by (auto simp: history_row_def find_Some_iff)
    then show ?thesis using PutKeyHistory_held [OF assms(1)] Some by simp
  qed
  show "ps_wraps t = filter (\<lambda>w. \<not> (wk_SpaceID w = i \<and> e > keyEpochTx s i)) (ps_wraps s)"
  proof (cases "history_row s i e")
    case None
    show ?thesis using PutKeyHistory_new(5) [OF assms(1) None] ok by (auto simp: wraps_ok_def intro!: filter_cong)
  next
    case (Some h)
    then have "e \<le> keyEpochTx s i" using epoch_le [of h s] by (auto simp: history_row_def find_Some_iff)
    then show ?thesis using PutKeyHistory_held [OF assms(1)] Some by simp
  qed
qed

lemma PutKeyHistory_rows:
  assumes "PutKeyHistory now i e sealed s = Inr t"
  shows "(\<lambda>h. (kh_SpaceID h, kh_Epoch h, kh_SealedPrev h)) ` set (ps_history t) =
    insert (i, e, sealed) ((\<lambda>h. (kh_SpaceID h, kh_Epoch h, kh_SealedPrev h)) ` set (ps_history s))"
proof (cases "history_row s i e")
  case None
  show ?thesis using PutKeyHistory_new(4) [OF assms None] by simp
next
  case (Some h)
  then have "kh_SealedPrev h = sealed" using assms by (auto simp: PutKeyHistory_def split: if_splits option.splits)
  then have "(i, e, sealed) \<in> (\<lambda>h. (kh_SpaceID h, kh_Epoch h, kh_SealedPrev h)) ` set (ps_history s)"
    using Some by (force simp: history_row_def find_Some_iff)
  then show ?thesis using PutKeyHistory_held [OF assms] Some by auto
qed

text \<open>C33: Revocation replicates as a row of history. Taking a row again changes nothing, a row with other bytes for an epoch
  that is held is a conflict. A row of a newer epoch moves the space there and drops every copy of the space; an older one
  fills its link and drops nothing; copies of other spaces stay. Two rows taken in either order leave the same copies, the
  same epoch and the same links.\<close>

theorem revocation_replicates:
  assumes "store_reached D is_uuid mint member_key s" and "PutKeyHistory now i e sealed s = Inr t" and "int64_range e"
  shows "PutKeyHistory now' i e sealed t = Inr t \<and>
    (other \<noteq> [] \<and> other \<noteq> sealed \<longrightarrow> PutKeyHistory now' i e other t = Inl ErrKeyHistoryConflict) \<and>
    keyEpochTx t i = max (keyEpochTx s i) e \<and>
    (keyEpochTx s i < e \<longrightarrow> wrappedKeysTx t i = []) \<and> (e \<le> keyEpochTx s i \<longrightarrow> wrappedKeysTx t i = wrappedKeysTx s i) \<and>
    (j \<noteq> i \<longrightarrow> wrappedKeysTx t j = wrappedKeysTx s j) \<and>
    (int64_range f \<and> PutKeyHistory now2 i f sealed2 t = Inr u \<and> PutKeyHistory now2 i f sealed2 s = Inr t' \<and> PutKeyHistory now i e sealed t' = Inr u' \<longrightarrow>
       ps_wraps u' = ps_wraps u \<and> keyEpochTx u' i = keyEpochTx u i \<and>
       (\<lambda>h. (kh_SpaceID h, kh_Epoch h, kh_SealedPrev h)) ` set (ps_history u') = (\<lambda>h. (kh_SpaceID h, kh_Epoch h, kh_SealedPrev h)) ` set (ps_history u))"
proof -
  note inv = reached_inv [OF assms(1)] and tinv = PutKeyHistory_inv [OF assms(2,3) reached_inv [OF assms(1)]]
  note w = PutKeyHistory_wraps [OF assms(2) inv] and again = PutKeyHistory_same [OF assms(2)]
  have conflict: "PutKeyHistory now' i e other t = Inl ErrKeyHistoryConflict" if "other \<noteq> []" "other \<noteq> sealed"
    using again [of now'] that PutKeyHistory_new(4) [of now' i e sealed t t]
    by (auto simp: PutKeyHistory_def split: if_splits option.splits)
  have "ps_wraps u' = ps_wraps u \<and> keyEpochTx u' i = keyEpochTx u i \<and>
       (\<lambda>h. (kh_SpaceID h, kh_Epoch h, kh_SealedPrev h)) ` set (ps_history u') = (\<lambda>h. (kh_SpaceID h, kh_Epoch h, kh_SealedPrev h)) ` set (ps_history u)"
    if p: "int64_range f" "PutKeyHistory now2 i f sealed2 t = Inr u" "PutKeyHistory now2 i f sealed2 s = Inr t'" "PutKeyHistory now i e sealed t' = Inr u'"
  proof -
    note inv' = PutKeyHistory_inv [OF p(3,1) inv]
    note a = PutKeyHistory_wraps [OF p(2) tinv] and b = PutKeyHistory_wraps [OF p(3) inv] and c = PutKeyHistory_wraps [OF p(4) inv']
    have "ps_wraps u' = ps_wraps u" unfolding a(2) c(2) w(2) b(2) w(1) b(1) by (auto intro!: filter_cong)
    moreover have "keyEpochTx u' i = keyEpochTx u i" unfolding a(1) c(1) w(1) b(1) by simp
    ultimately show ?thesis
      unfolding PutKeyHistory_rows [OF p(2)] PutKeyHistory_rows [OF p(4)] PutKeyHistory_rows [OF p(3)] PutKeyHistory_rows [OF assms(2)]
      by (simp add: insert_commute)
  qed
  moreover have "keyEpochTx s i < e \<longrightarrow> wrappedKeysTx t i = []" "e \<le> keyEpochTx s i \<longrightarrow> wrappedKeysTx t i = wrappedKeysTx s i"
    "j \<noteq> i \<longrightarrow> wrappedKeysTx t j = wrappedKeysTx s j"
    by (auto simp: wrappedKeysTx_def w(2) filter_empty_conv intro!: arg_cong [of _ _ "sort_key wk_Recipient"] filter_cong)
  ultimately show ?thesis using again conflict w(1) [of i] by simp
qed

section \<open>Revoking an executor\<close>

lemma deleteWraps_hit: "i \<noteq> [] \<Longrightarrow> set (map snd (fst (deleteWrapsForTx i rs s))) = {r \<in> set rs. (i, r) \<in> wrap_key ` set (ps_wraps s)}"
proof (induction rs arbitrary: s)
  case (Cons r rs)
  let ?d = "deleteRecipientWrapsTx i r s"
  let ?s2 = "fold (\<lambda>j. EmitTx (SpaceKeyRevoked j r None)) (fst ?d) (snd ?d)"
  have f: "ps_wraps (fold (\<lambda>j. EmitTx (SpaceKeyRevoked j r None)) xs u) = ps_wraps u" for xs u
    by (induction xs arbitrary: u) auto
  have w: "ps_wraps ?s2 = filter (\<lambda>w. wrap_key w \<noteq> (i, r)) (ps_wraps s)"
    unfolding f using Cons.prems by (auto simp: deleteRecipientWrapsTx_def wrap_key_def Let_def intro!: filter_cong)
  have k: "wrap_key ` {w \<in> set (ps_wraps s). wrap_key w \<noteq> (i, r)} = wrap_key ` set (ps_wraps s) - {(i, r)}" by auto
  have h: "fst ?d \<noteq> [] \<longleftrightarrow> (i, r) \<in> wrap_key ` set (ps_wraps s)"
    using Cons.prems by (auto simp: deleteRecipientWrapsTx_def wrap_key_def Let_def filter_empty_conv)
  have "set (map snd (fst (deleteWrapsForTx i (r # rs) s))) = (if fst ?d = [] then {} else {r}) \<union> set (map snd (fst (deleteWrapsForTx i rs ?s2)))"
    by (auto simp: Let_def case_prod_unfold image_constant_conv)
  also have "\<dots> = {x \<in> set (r # rs). (i, x) \<in> wrap_key ` set (ps_wraps s)}"
    unfolding Cons.IH [OF Cons.prems] w set_filter k using h by auto
  finally show ?case .
qed simp

lemma find_member: "find P xs = Some x \<Longrightarrow> x \<in> set xs \<and> P x"
  by (auto simp: find_Some_iff)

text \<open>The keys an executor ever registered.\<close>

definition keys_of :: "PStore \<Rightarrow> string \<Rightarrow> string set" where
  "keys_of s pid = sr_Recipient ` {r \<in> set (ps_recipients s). sr_PrincipalID r = pid}"

lemma unrevoked_unique:
  "access_ok s \<Longrightarrow> g \<in> set (ps_grants s) \<Longrightarrow> h \<in> set (ps_grants s) \<Longrightarrow> same_grant i pid g \<Longrightarrow> same_grant i pid h \<Longrightarrow> g = h"
  by (auto simp: access_ok_def distinct_map same_grant_def dest: inj_onD)

text \<open>C34: Revoking an executor's access closes both gates. It is refused, with nothing changed, when there is neither an active
  grant nor a copy. Otherwise no copy for a key the executor ever registered is left on the space, the ones reported are
  exactly those that were held, every other copy stays, the grant is not active from then on, and a copy for one of the
  executor's keys cannot be put back.\<close>

theorem revoke_closes:
  assumes "store_reached D is_uuid mint member_key s" and "i \<noteq> []"
  shows "(RevokeAccess now i pid by device s = Inl ErrNoGrant \<longleftrightarrow>
      ownerMayAct s i by = None \<and> ActiveGrant now s i pid = None \<and> holders s i \<inter> keys_of s pid = {}) \<and>
    (RevokeAccess now i pid by device s = Inr (dropped, t) \<longrightarrow>
      holders t i = holders s i - keys_of s pid \<and> set dropped = holders s i \<inter> keys_of s pid \<and>
      (\<forall>w\<in>set (ps_wraps s). wk_SpaceID w \<noteq> i \<or> wk_Recipient w \<notin> keys_of s pid \<longrightarrow> w \<in> set (ps_wraps t)) \<and>
      (\<forall>later\<ge>now. ActiveGrant later t i pid = None \<and>
         (\<forall>r. live_recipient t k = Some r \<and> sr_PrincipalID r = pid \<longrightarrow> PutWrappedKey mint' later i k b e t \<noteq> Inr y)))"
proof -
  note inv = reached_inv [OF assms(1)]
  have acc: "access_ok s" using inv by (simp add: store_inv_def)
  define active where "active = (case unrevoked_grant s i pid of None \<Rightarrow> False | Some g \<Rightarrow> before_expiry now (sg_ExpiresAt g))"
  define s1 where "s1 = (if active then s\<lparr>ps_grants := map (\<lambda>g. if same_grant i pid g \<and> sg_RevokedAt g = None
      then g\<lparr>sg_RevokedAt := Some now\<rparr> else g) (ps_grants s)\<rparr> else s)"
  define keys where "keys = sort (remdups (map sr_Recipient (filter (\<lambda>r. sr_PrincipalID r = pid) (ps_recipients s1))))"
  have f: "ps_wraps s1 = ps_wraps s" "ps_recipients s1 = ps_recipients s" by (simp_all add: s1_def)
  have keys: "set keys = keys_of s pid" by (auto simp: keys_def f keys_of_def)
  have find_grant: "find (same_grant i pid) (ps_grants s) = Some g \<longleftrightarrow> g \<in> set (ps_grants s) \<and> same_grant i pid g" for g
    using unrevoked_unique [OF acc] by (metis (no_types, lifting) find_None_iff find_Some_iff nth_mem option.exhaust)
  have unrev: "unrevoked_grant s i pid = Some g \<longleftrightarrow> g \<in> set (ps_grants s) \<and> same_grant i pid g \<and> sg_RevokedAt g = None" for g
  proof
    assume "unrevoked_grant s i pid = Some g"
    then show "g \<in> set (ps_grants s) \<and> same_grant i pid g \<and> sg_RevokedAt g = None"
      by (auto simp: unrevoked_grant_def find_Some_iff same_grant_def)
  next
    assume g: "g \<in> set (ps_grants s) \<and> same_grant i pid g \<and> sg_RevokedAt g = None"
    then have "unrevoked_grant s i pid \<noteq> None" by (auto simp: unrevoked_grant_def find_None_iff same_grant_def)
    then obtain h where h: "unrevoked_grant s i pid = Some h" by auto
    then have "h \<in> set (ps_grants s) \<and> same_grant i pid h" by (auto simp: unrevoked_grant_def find_Some_iff same_grant_def)
    then show "unrevoked_grant s i pid = Some g" using unrevoked_unique [OF acc, of g h i pid] g h by simp
  qed
  have act: "active \<longleftrightarrow> ActiveGrant now s i pid \<noteq> None"
  proof (cases "find (same_grant i pid) (ps_grants s)")
    case None
    then have "unrevoked_grant s i pid = None" using unrev by (cases "unrevoked_grant s i pid") (auto simp: find_None_iff)
    then show ?thesis using None by (simp add: active_def ActiveGrant_def)
  next
    case (Some g)
    then have "unrevoked_grant s i pid = (if sg_RevokedAt g = None then Some g else None)"
      using unrev find_grant unrevoked_unique [OF acc] by (metis not_None_eq)
    then show ?thesis using Some by (auto simp: active_def ActiveGrant_def)
  qed
  let ?d = "deleteWrapsForTx i keys s1"
  have hit: "set (map snd (fst ?d)) = holders s i \<inter> keys_of s pid"
    unfolding deleteWraps_hit [OF assms(2)] keys f by (auto simp: holders_alt)
  then have none: "fst ?d = [] \<longleftrightarrow> holders s i \<inter> keys_of s pid = {}" by (metis map_is_Nil_conv set_empty)
  have R: "RevokeAccess now i pid by device s = (case ownerMayAct s i by of Some e \<Rightarrow> Inl e | None \<Rightarrow>
      if \<not> active \<and> fst ?d = [] then Inl ErrNoGrant
      else Inr (map snd (fst ?d), if active then EmitTx (SpaceAccessRevoked i pid device (length (fst ?d))) (snd ?d) else snd ?d))"
    unfolding RevokeAccess_def Let_def case_prod_unfold active_def [symmetric] s1_def [symmetric] keys_def [symmetric] by (rule refl)
  have first: "RevokeAccess now i pid by device s = Inl ErrNoGrant \<longleftrightarrow>
      ownerMayAct s i by = None \<and> ActiveGrant now s i pid = None \<and> holders s i \<inter> keys_of s pid = {}"
    using none act unfolding R by (auto simp: ownerMayAct_def split: option.splits if_splits)
  have "holders t i = holders s i - keys_of s pid \<and> set dropped = holders s i \<inter> keys_of s pid \<and>
      (\<forall>w\<in>set (ps_wraps s). wk_SpaceID w \<noteq> i \<or> wk_Recipient w \<notin> keys_of s pid \<longrightarrow> w \<in> set (ps_wraps t)) \<and>
      (\<forall>later\<ge>now. ActiveGrant later t i pid = None \<and>
         (\<forall>r. live_recipient t k = Some r \<and> sr_PrincipalID r = pid \<longrightarrow> PutWrappedKey mint' later i k b e t \<noteq> Inr y))"
    if rv: "RevokeAccess now i pid by device s = Inr (dropped, t)"
  proof -
    have dr: "dropped = map snd (fst ?d)" and t: "t = (if active then EmitTx (SpaceAccessRevoked i pid device (length (fst ?d))) (snd ?d) else snd ?d)"
      using rv unfolding R by (auto split: option.splits if_splits)
    have tw: "ps_wraps t = filter (\<lambda>w. \<not> (wk_Recipient w \<in> keys_of s pid \<and> wk_SpaceID w = i)) (ps_wraps s)"
      using assms(2) by (simp add: t delete_wraps keys f)
    have tg: "ps_grants t = ps_grants s1" by (simp add: t only_wraps_fields(5) [OF only_wraps_delete])
    have closed: "\<not> before_expiry later (sg_ExpiresAt g)"
      if "later \<ge> now" and g: "g \<in> set (ps_grants t)" and "same_grant i pid g" "sg_RevokedAt g = None" for later g
    proof (cases active)
      case True
      then have "g \<in> (\<lambda>g. if same_grant i pid g \<and> sg_RevokedAt g = None then g\<lparr>sg_RevokedAt := Some now\<rparr> else g) ` set (ps_grants s)"
        using g by (simp add: tg s1_def)
      then obtain h where h: "g = (if same_grant i pid h \<and> sg_RevokedAt h = None then h\<lparr>sg_RevokedAt := Some now\<rparr> else h)"
        by (rule imageE)
      then show ?thesis using that(3,4) by (cases "same_grant i pid h \<and> sg_RevokedAt h = None") simp_all
    next
      case False
      then have "unrevoked_grant s i pid = Some g" using that unrev by (simp add: tg s1_def)
      then show ?thesis using False that(1) by (auto simp: active_def before_expiry_def split: option.splits)
    qed
    have "ActiveGrant later t i pid = None" if "later \<ge> now" for later
    proof (cases "find (same_grant i pid) (ps_grants t)")
      case (Some g)
      then have "g \<in> set (ps_grants t)" "same_grant i pid g" by (auto dest: find_member)
      then show ?thesis using closed [OF that, of g] Some by (cases "sg_RevokedAt g") (auto simp: ActiveGrant_def)
    qed (simp add: ActiveGrant_def)
    moreover have "PutWrappedKey mint' later i k b e t \<noteq> Inr y"
      if "later \<ge> now" "live_recipient t k = Some r" "sr_PrincipalID r = pid" for later r
    proof -
      have "serviceWrapAllowedTx t i k later \<noteq> None"
      proof (cases "unrevoked_grant t i pid")
        case (Some g)
        then have "g \<in> set (ps_grants t)" "same_grant i pid g" "sg_RevokedAt g = None"
          unfolding unrevoked_grant_def same_grant_def by (auto dest: find_member)
        then show ?thesis using closed [OF that(1)] that(2,3) Some by (simp add: serviceWrapAllowedTx_def)
      qed (use that in \<open>simp add: serviceWrapAllowedTx_def\<close>)
      then show ?thesis by (auto simp: PutWrappedKey_def split: if_splits option.splits)
    qed
    moreover have "holders t i = holders s i - keys_of s pid" by (auto simp: holders_def wrapped_set tw)
    ultimately show ?thesis using hit by (auto simp: dr tw)
  qed
  then show ?thesis using first by blast
qed

section \<open>The properties at work\<close>

text \<open>A space of \<open>u\<close> with two devices and an executor \<open>x\<close>.\<close>

definition demo_mint :: "nat \<Rightarrow> string" where "demo_mint n = dec n"

definition demo1 :: PStore where
  "demo1 = snd (projr (PutSpaceOwnedFrom (\<lambda>_. True) 1 ''s'' ''personal'' ''u'' ''d'' empty_store))"

definition demo2 :: PStore where
  "demo2 = snd (projr (PutWrappedKey demo_mint 2 ''s'' ''k1'' [1] 0 demo1))"

definition demo3 :: PStore where
  "demo3 = snd (projr (PutWrappedKey demo_mint 3 ''s'' ''k2'' [2] 0 demo2))"

definition demo4 :: PStore where
  "demo4 = snd (snd (projr (RegisterServiceRecipient demo_mint (\<lambda>_. False) 4 ''x'' ''kx'' ''l'' ''f'' ''u'' ''d'' demo3)))"

definition demo5 :: PStore where
  "demo5 = snd (projr (GrantAccess demo_mint 5 ''s'' ''x'' ''read'' ''u'' ''d'' None
     [\<lparr>gw_Recipient = ''kx'', gw_Wrapped = [3], gw_Epoch = 0\<rparr>] demo4))"

lemma took: "\<not> isl x \<Longrightarrow> x = Inr (fst (projr x), snd (projr x))" "\<not> isl z \<Longrightarrow> z = Inr (fst (projr z), fst (snd (projr z)), snd (snd (projr z)))"
  by (cases x; simp) (cases z; simp)

abbreviation demo_reached :: "PStore \<Rightarrow> bool" where
  "demo_reached \<equiv> store_reached string_of (\<lambda>_. True) demo_mint (\<lambda>_. False)"

lemma demo5_reached: "demo_reached demo5"
proof -
  have r: "demo_reached demo1"
    unfolding demo1_def by (rule store_reached.again [OF store_reached.start store_step.put_space [OF took(1)]]) code_simp
  have r: "demo_reached demo2"
    unfolding demo2_def by (rule store_reached.again [OF r store_step.put_wrap [OF took(1)]]) code_simp
  have r: "demo_reached demo3"
    unfolding demo3_def by (rule store_reached.again [OF r store_step.put_wrap [OF took(1)]]) code_simp
  have r: "demo_reached demo4"
    unfolding demo4_def by (rule store_reached.again [OF r store_step.register [OF took(2)]]) code_simp
  show ?thesis
    unfolding demo5_def by (rule store_reached.again [OF r store_step.grant [OF took(1)]]) code_simp
qed

lemma store_invariant_witness:
  "list_all (\<lambda>w. wk_Epoch w = keyEpochTx demo5 (wk_SpaceID w)) (ps_wraps demo5) \<and> length (ps_wraps demo5) = 3"
proof -
  have "length (ps_wraps demo5) = 3" by code_simp
  then show ?thesis using store_invariant [OF demo5_reached, THEN conjunct1] by (simp add: list_all_iff)
qed

definition demo_rotation :: "store_error + int \<times> PStore" where
  "demo_rotation = RotateKey demo_mint 6 ''s'' 0 [9] [\<lparr>rw_Recipient = ''k1'', rw_Wrapped = [4]\<rparr>, \<lparr>rw_Recipient = ''kx'', rw_Wrapped = [5]\<rparr>]
     [''k2''] (\<lambda>r. r = ''k1'') demo5"

lemma rotation_witness: "\<exists>t. demo_rotation = Inr (1, t) \<and> keyEpochTx t ''s'' = 1 \<and> holders t ''s'' = {''k1'', ''kx''}"
proof -
  have "\<not> isl demo_rotation" by code_simp
  then obtain n t where d: "demo_rotation = Inr (n, t)" using took(1) by metis
  note r = rotation [OF demo5_reached, THEN conjunct2, THEN mp, OF d [unfolded demo_rotation_def]]
  have n: "n = 1" using r [THEN conjunct1] by simp
  moreover have "keyEpochTx t ''s'' = n" by (rule r [THEN conjunct2, THEN conjunct1])
  moreover have "holders t ''s'' = {''k1'', ''kx''}" using r [THEN conjunct2, THEN conjunct2, THEN conjunct1] by simp
  ultimately show ?thesis using d by blast
qed

lemma revocation_replicates_witness:
  "\<exists>t. PutKeyHistory 7 ''s'' 1 [9] demo5 = Inr t \<and> wrappedKeysTx demo5 ''s'' \<noteq> [] \<and> wrappedKeysTx t ''s'' = []"
proof -
  have a: "\<not> isl (PutKeyHistory 7 ''s'' 1 [9] demo5)" "wrappedKeysTx demo5 ''s'' \<noteq> []" "keyEpochTx demo5 ''s'' < 1" by code_simp+
  then obtain t where t: "PutKeyHistory 7 ''s'' 1 [9] demo5 = Inr t" by (metis isl_def sum.exhaust)
  have "int64_range 1" by (simp add: int64_range_def)
  from revocation_replicates [OF demo5_reached t this, THEN conjunct2, THEN conjunct2, THEN conjunct2, THEN conjunct1] t a show ?thesis by blast
qed

lemma revoke_closes_witness:
  "\<exists>t. RevokeAccess 8 ''s'' ''x'' ''u'' ''d'' demo5 = Inr ([''kx''], t) \<and> holders t ''s'' = {''k1'', ''k2''} \<and> ActiveGrant 9 t ''s'' ''x'' = None"
proof -
  have a: "\<not> isl (RevokeAccess 8 ''s'' ''x'' ''u'' ''d'' demo5)" "fst (projr (RevokeAccess 8 ''s'' ''x'' ''u'' ''d'' demo5)) = [''kx'']"
    "map wk_Recipient (wrappedKeysTx demo5 ''s'') = [''k1'', ''k2'', ''kx'']" "map sr_Recipient (ps_recipients demo5) = [''kx'']" "map sr_PrincipalID (ps_recipients demo5) = [''x'']"
    by code_simp+
  then obtain t where t: "RevokeAccess 8 ''s'' ''x'' ''u'' ''d'' demo5 = Inr ([''kx''], t)" using took(1) by metis
  have h: "holders demo5 ''s'' = {''k1'', ''k2'', ''kx''}" using arg_cong [OF a(3), of set] by (simp add: holders_def)
  have k: "keys_of demo5 ''x'' = {''kx''}" using a(4,5) by (auto simp: keys_of_def)
  have s: "''s'' \<noteq> []" by simp
  note r = revoke_closes [OF demo5_reached s, THEN conjunct2, THEN mp, OF t]
  have "holders t ''s'' = {''k1'', ''k2''}" using r [THEN conjunct1] h k by auto
  moreover have "ActiveGrant 9 t ''s'' ''x'' = None"
    using r [THEN conjunct2, THEN conjunct2, THEN conjunct2, rule_format, of 9] by simp
  ultimately show ?thesis using t by blast
qed

text \<open>Adding the owner of a space that has no members yet returns an owner's row that is not kept: the transaction that wrote
  it is not committed, and the space stays open to every enrolled device.\<close>

lemma owner_add_not_kept:
  assumes "space_row s i = Some r" and "spc_Owner r = Some ow" and "ow \<noteq> []" and "\<forall>m\<in>set (ps_members s). sm_SpaceID m \<noteq> i"
  shows "\<exists>m mb. AddMember now i ow ow device s = Inr (m, s) \<and> sm_Role m = RoleOwner \<and> sm_SpaceID m = i \<and> m \<notin> set (ps_members s) \<and>
    SpaceMembership s i = Inr mb \<and> \<not> Gated mb"
proof -
  have "memberRowTx s i ow = None" using assms(4) by (auto simp: memberRowTx_def find_None_iff)
  then show ?thesis using assms
    by (auto simp: AddMember_def memberChangeAllowed_def ensureOwnerRowTx_def insertOwnerRowTx_def memberRowTx_def find_append Let_def
      Current_member_def SpaceMembership_def Space_def Gated_def filter_empty_conv split: sum.splits)
qed

end
