(* ===== verification/LogSpec.thy ===== *)
theory LogSpec
  imports StateSpec ProtocolSpec
begin

text \<open>
  What the log of encrypted changes promises: that a change reads back as it was stored, that a cursor misses nothing, that
  compaction drops only what a snapshot holds and every sibling has, and that replication delivers the log; and the runs
  in which each of these promises is not kept.
\<close>

section \<open>Reading a change back\<close>

lemma split_on_join:
  "split_on c (a @ c # s) = split_on c a @ split_on c s"
  by (induction a) (auto split: list.splits)

lemma split_on_join_with: "xs \<noteq> [] \<Longrightarrow> split_on c (join_with c xs) = concat (map (split_on c) xs)"
  by (induction c xs rule: join_with.induct) (auto simp: split_on_join)

lemma text_ids_comma: "p \<in> set (text_ids t) \<Longrightarrow> CHR '','' \<notin> set p"
  by (auto simp: text_ids_def split_on_no_sep split: if_splits)

lemma text_ids_ids_text:
  assumes "\<forall>p\<in>set ps. CHR '','' \<notin> set p"
  shows "set (text_ids (ids_text ps)) - {[]} = set ps - {[]}"
proof (cases "ps = []")
  case False
  then have "split_on CHR '','' (ids_text ps) = ps" using assms unfolding ids_text_def by (intro split_join) auto
  moreover have "ids_text ps = [] \<Longrightarrow> set ps - {[]} = {}"
    using calculation by auto
  ultimately show ?thesis by (auto simp: text_ids_def)
qed (simp add: text_ids_def ids_text_def)

lemma row_change_simps [simp]:
  "ec_ChangeID (row_change r) = cr_ChangeID r" "ec_SpaceID (row_change r) = cr_SpaceID r" "ec_Ciphertext (row_change r) = cr_Ciphertext r"
  "ec_Parents (row_change r) = text_ids (cr_Parents r)"
  by (simp_all add: row_change_def)

lemma change_row_simps [simp]:
  "cr_ChangeID (change_row now q ch) = ec_ChangeID ch" "cr_SpaceID (change_row now q ch) = ec_SpaceID ch"
  "cr_Ciphertext (change_row now q ch) = ec_Ciphertext ch" "cr_Parents (change_row now q ch) = ids_text (ec_Parents ch)"
  "cr_Seq (change_row now q ch) = q"
  by (simp_all add: change_row_def)

lemma Space_ok: "space_row s i \<noteq> None \<Longrightarrow> \<exists>sp. Space s i = Inr sp" "space_row s i = None \<Longrightarrow> Space s i = Inl ErrUnknownSpace"
  by (auto simp: Space_def)

lemma ChangesFor_Inr: "ChangesFor s i = Inr cs \<longleftrightarrow> space_row s i \<noteq> None \<and> cs = map row_change (space_changes s i)"
  by (auto simp: ChangesFor_def Space_def split: option.splits)

lemma space_changes_set: "r \<in> set (space_changes s i) \<longleftrightarrow> r \<in> set (ps_changes s) \<and> cr_SpaceID r = i"
  by (auto simp: space_changes_def)

lemma space_changes_sorted: "log_ok s \<Longrightarrow> space_changes s i = filter (\<lambda>r. cr_SpaceID r = i) (ps_changes s)"
proof -
  assume "log_ok s"
  then have "sorted_wrt (\<lambda>a b. cr_Seq a < cr_Seq b) (filter (\<lambda>r. cr_SpaceID r = i) (ps_changes s))"
    by (simp add: log_ok_def sorted_wrt_filter)
  then have "sorted (map cr_Seq (filter (\<lambda>r. cr_SpaceID r = i) (ps_changes s)))"
    unfolding sorted_map by (rule sorted_wrt_mono_rel [rotated]) simp
  then show ?thesis unfolding space_changes_def by (rule sort_key_id_if_sorted)
qed

lemma putChange_stored:
  assumes "putChange D now ch e s = Inr t"
  shows "space_row t (ec_SpaceID ch) \<noteq> None" "holds_change t (ec_ChangeID ch)"
    "\<not> holds_change s (ec_ChangeID ch) \<Longrightarrow> change_row now (next_seq s) ch \<in> set (space_changes t (ec_SpaceID ch))"
proof -
  note p = putChange_Inr [OF assms]
  have "space_row t (ec_SpaceID ch) \<noteq> None \<and> holds_change t (ec_ChangeID ch)"
  proof (cases "holds_change s (ec_ChangeID ch)")
    case True
    then show ?thesis using p(2,3) by simp
  next
    case False
    have "space_row t (ec_SpaceID ch) = space_row s (ec_SpaceID ch)" unfolding p(4) [OF False] by (simp add: space_row_def)
    then show ?thesis using p(2) unfolding p(4) [OF False] by (simp add: holds_change_def)
  qed
  then show "space_row t (ec_SpaceID ch) \<noteq> None" "holds_change t (ec_ChangeID ch)" by simp_all
  show "\<not> holds_change s (ec_ChangeID ch) \<Longrightarrow> change_row now (next_seq s) ch \<in> set (space_changes t (ec_SpaceID ch))"
    by (simp add: p(4) space_changes_set)
qed

text \<open>C35: Every valid change of a space the store has is accepted, whatever its parents are. One whose parents contain no comma
  reads back as it was accepted, with the same identity, ciphertext and set of parents, so every device and sibling that
  validates it takes it. One with a comma in a parent is accepted all the same, but reads back with other parents: nobody
  who validates it takes it, short of a collision of the digest.\<close>

theorem stored_change_reads_back:
  assumes "change_Validate D ch = None" and "space_row s (ec_SpaceID ch) \<noteq> None" and "\<not> holds_change s (ec_ChangeID ch)"
  shows "\<exists>t cs c. PutChange D now ch s = Inr t \<and> ChangesFor t (ec_SpaceID ch) = Inr cs \<and> c \<in> set cs \<and>
    ec_ChangeID c = ec_ChangeID ch \<and> ec_SpaceID c = ec_SpaceID ch \<and> ec_Ciphertext c = ec_Ciphertext ch \<and>
    ((\<forall>p\<in>set (ec_Parents ch). CHR '','' \<notin> set p) \<longrightarrow>
       set (ec_Parents c) - {[]} = set (ec_Parents ch) - {[]} \<and> change_Validate D c = None) \<and>
    ((\<exists>p\<in>set (ec_Parents ch). CHR '','' \<in> set p) \<longrightarrow>
       change_Validate D c = Some ErrIDMismatch \<or>
       (change_preimage c \<noteq> change_preimage ch \<and> D (change_preimage c) = D (change_preimage ch)))"
proof -
  have "\<exists>t. putChange D now ch None s = Inr t" using assms(1,2) by (simp add: putChange_def)
  then obtain t where put: "putChange D now ch None s = Inr t" by blast
  define c where "c = row_change (change_row now (next_seq s) ch)"
  have v: "change_Validate D ch = None" by (rule putChange_Inr(1) [OF put])
  then have ids: "ec_SpaceID ch \<noteq> []" "ec_ChangeID ch \<noteq> []" "ec_Ciphertext ch \<noteq> []" "ec_ChangeID ch = D (change_preimage ch)"
    by (auto simp: change_Validate_def computeID_def Let_def split: if_splits)
  have f: "ec_ChangeID c = ec_ChangeID ch" "ec_SpaceID c = ec_SpaceID ch" "ec_Ciphertext c = ec_Ciphertext ch"
    "ec_Parents c = text_ids (ids_text (ec_Parents ch))" by (simp_all add: c_def)
  have vc: "change_Validate D c = (if D (change_preimage c) = D (change_preimage ch) then None else Some ErrIDMismatch)"
    using ids by (auto simp: change_Validate_def computeID_def Let_def f(1-3))
  have good: "set (ec_Parents c) - {[]} = set (ec_Parents ch) - {[]} \<and> change_Validate D c = None"
    if "\<forall>p\<in>set (ec_Parents ch). CHR '','' \<notin> set p"
  proof -
    have s: "set (ec_Parents c) - {[]} = set (ec_Parents ch) - {[]}" unfolding f(4) by (rule text_ids_ids_text [OF that])
    then have "change_preimage c = change_preimage ch" unfolding f(1-3) using canonicalParents_set by metis
    then show ?thesis using s vc by simp
  qed
  have bad: "change_preimage c \<noteq> change_preimage ch" if comma: "\<exists>p\<in>set (ec_Parents ch). CHR '','' \<in> set p"
  proof
    assume "change_preimage c = change_preimage ch"
    then have e: "set (ec_Parents c) - {[]} = set (ec_Parents ch) - {[]}" using id_preimage_inj canonicalParents_set by blast
    obtain p where p: "p \<in> set (ec_Parents ch)" "CHR '','' \<in> set p" using comma by blast
    have "p \<noteq> []" using p(2) by (metis empty_iff list.set(1))
    then have "p \<in> set (ec_Parents ch) - {[]}" using p(1) by blast
    then have "p \<in> set (ec_Parents c)" unfolding e [symmetric] by blast
    then show False using p(2) text_ids_comma unfolding f(4) by blast
  qed
  let ?cs = "map row_change (space_changes t (ec_SpaceID ch))"
  have cin: "c \<in> set ?cs" using putChange_stored(3) [OF put assms(3)] by (simp add: c_def)
  have cf: "ChangesFor t (ec_SpaceID ch) = Inr ?cs" using putChange_stored(1) [OF put] by (simp add: ChangesFor_Inr)
  have lost: "(\<exists>p\<in>set (ec_Parents ch). CHR '','' \<in> set p) \<longrightarrow>
       change_Validate D c = Some ErrIDMismatch \<or>
       (change_preimage c \<noteq> change_preimage ch \<and> D (change_preimage c) = D (change_preimage ch))"
    using bad unfolding vc by simp
  show ?thesis
    by (rule exI [of _ t], rule exI [of _ ?cs], rule exI [of _ c], intro conjI) (use put in \<open>simp add: PutChange_def\<close>, rule cf, rule cin, rule f(1), rule f(2), rule f(3), rule impI, erule good, rule lost)
qed

section \<open>Cursors\<close>

definition caught_up :: "PStore \<Rightarrow> string \<Rightarrow> int \<Rightarrow> string set \<Rightarrow> bool" where
  "caught_up s i c S \<longleftrightarrow> (\<forall>r\<in>set (ps_changes s). cr_SpaceID r = i \<and> cr_Seq r \<le> c \<longrightarrow> cr_ChangeID r \<in> S)"

lemma last_sorted: "sorted_wrt (\<lambda>a b. f a < f b) xs \<Longrightarrow> xs \<noteq> [] \<Longrightarrow> x \<in> set xs \<Longrightarrow> f x \<le> (f (last xs) :: int)"
proof (induction xs)
  case (Cons a xs)
  show ?case
  proof (cases "xs = []")
    case False
    then have l: "f a < f (last xs)" using Cons.prems(1) last_in_set [OF False] by auto
    show ?thesis using less_imp_le [OF l] Cons False by (cases "x = a") (simp_all)
  qed (use Cons.prems in simp)
qed simp

lemma next_seq_append: "next_seq (s\<lparr>ps_changes := ps_changes s @ [r]\<rparr>) \<ge> next_seq s" if "cr_Seq r = next_seq s"
proof -
  have "cr_Seq r < next_seq (s\<lparr>ps_changes := ps_changes s @ [r]\<rparr>)" by (rule next_seq_gt) simp
  then show ?thesis using that by simp
qed

lemma next_seq_cong: "ps_changes t = ps_changes s \<Longrightarrow> next_seq t = next_seq s"
  by (simp add: next_seq_def)

text \<open>How a step changes the log: not at all, by one row at the end, or by compaction.\<close>

lemma step_log:
  assumes "store_step D is_uuid mint member_key s t"
  shows "ps_changes t = ps_changes s \<or> (\<exists>r. ps_changes t = ps_changes s @ [r] \<and> cr_Seq r = next_seq s) \<or>
    (\<exists>i acked n. CompactChanges i acked s = Inr (n, t))"
  using assms
proof cases
  case (rotate now i e sealed ws rv pres n)
  then show ?thesis using only_wraps_fields(6) [OF RotateKey_Inr(15)] by (auto simp: add_history_def)
next
  case (put_history now i e sealed)
  then show ?thesis
    using PutKeyHistory_held [OF put_history(1)] only_wraps_fields(6) [OF PutKeyHistory_new(3) [OF put_history(1)]]
    by (cases "history_row s i e") (auto simp: add_history_def)
next
  case (put_change now ch epoch)
  then show ?thesis using putChange_Inr(3,4) [OF put_change(1)] by (cases "holds_change s (ec_ChangeID ch)") auto
next
  case (put_wrap now i rc b e w)
  have "t = snd (upsertWrapTx mint i rc b e now s)" using put_wrap by (auto simp: PutWrappedKey_def split: if_splits option.splits)
  then show ?thesis using only_wraps_fields(6) [OF only_wraps_upsert] by simp
next
  case (grant now i pid caps _ device expiry gws g)
  obtain gs u e where u: "putGrantWrapsTx mint i pid gws now (s\<lparr>ps_grants := gs\<rparr>) = Inr u" "t = EmitTx e u"
    using grant by (auto simp: GrantAccess_def Let_def split: if_splits option.splits sum.splits)
  then have "only_wraps (s\<lparr>ps_grants := gs\<rparr>) u" using only_wraps_grants by (auto simp: putGrantWrapsTx_def split: if_splits)
  then show ?thesis using u(2) by (auto simp: only_wraps_fields)
next
  case (revoke now i pid _ device rs)
  then show ?thesis
    by (auto simp: RevokeAccess_def Let_def case_prod_unfold only_wraps_fields(6) [OF only_wraps_delete] split: option.splits if_splits)
next
  case (remove now ref device sr sps)
  then show ?thesis
    by (auto simp: RemoveServiceRecipient_def Let_def case_prod_unfold only_wraps_fields(6) [OF only_wraps_delete]
        simp del: deleteWrapsForTx.simps split: option.splits)
next
  case (put_snapshot now snap)
  then show ?thesis by (auto simp: PutSnapshot_def split: option.splits if_splits)
qed (auto simp: CreateSpace_def PutSpaceOwnedFrom_def insertOwnerRowTx_def DeleteWrappedKey_def RegisterServiceRecipient_def
   AddMember_def RemoveMember_def Let_def split: if_splits option.splits sum.splits prod.splits)

lemma step_next_seq:
  assumes "store_step D is_uuid mint member_key s t"
  shows "next_seq s \<le> next_seq t \<or> (\<exists>i acked n. CompactChanges i acked s = Inr (n, t))"
proof -
  have "next_seq s \<le> next_seq t" if "ps_changes t = ps_changes s @ [r]" "cr_Seq r = next_seq s" for r
    using next_seq_gt [of r t] that by simp
  moreover have "next_seq t = next_seq s" if "ps_changes t = ps_changes s" by (rule next_seq_cong [OF that])
  ultimately show ?thesis using step_log [OF assms] by (elim disjE) auto
qed

lemma step_caught_up:
  assumes "store_step D is_uuid mint member_key s t" and "caught_up s i c S" and "c < next_seq s"
  shows "caught_up t i c S"
proof -
  have "set (ps_changes t) \<subseteq> set (ps_changes s) \<or> (\<exists>r. set (ps_changes t) = insert r (set (ps_changes s)) \<and> cr_Seq r = next_seq s)"
    using step_log [OF assms(1)]
  proof (elim disjE exE)
    fix j acked n
    assume "CompactChanges j acked s = Inr (n, t)"
    then obtain P where "ps_changes t = filter P (ps_changes s)" using CompactChanges_frame(8) by blast
    then show ?thesis by auto
  qed auto
  then show ?thesis using assms(2,3) by (auto simp: caught_up_def)
qed

lemma run_caught_up:
  assumes "(\<lambda>s t. store_step D is_uuid mint member_key s t \<and> c < next_seq t)\<^sup>*\<^sup>* s t" and "caught_up s i c S" and "c < next_seq s"
  shows "caught_up t i c S \<and> c < next_seq t"
  using assms(1)
proof induction
  case (step t u)
  then show ?case using step_caught_up by blast
qed (use assms(2,3) in simp)

lemma ChangesSince_Inr:
  assumes "log_ok s" and "ChangesSince s i c = Inr (cs, c')"
  shows "cs = map row_change (filter (\<lambda>r. cr_SpaceID r = i \<and> cr_Seq r > c) (ps_changes s))"
    "c' = (if cs = [] then c else Max (cr_Seq ` {r \<in> set (ps_changes s). cr_SpaceID r = i \<and> cr_Seq r > c}))" "space_row s i \<noteq> None"
proof -
  let ?rows = "filter (\<lambda>r. cr_SpaceID r = i \<and> cr_Seq r > c) (ps_changes s)"
  have e: "filter (\<lambda>r. cr_Seq r > c) (space_changes s i) = ?rows"
    unfolding space_changes_sorted [OF assms(1)] filter_filter by (rule filter_cong) auto
  show "space_row s i \<noteq> None" using assms(2) by (auto simp: ChangesSince_def Space_def split: option.splits)
  have r: "cs = map row_change ?rows" "c' = (if ?rows = [] then c else cr_Seq (last ?rows))"
    using assms(2) by (auto simp: ChangesSince_def Space_def Let_def e split: option.splits)
  then show "cs = map row_change ?rows" by simp
  have "cr_Seq (last ?rows) = Max (cr_Seq ` set ?rows)" if "?rows \<noteq> []"
  proof (rule Max_eqI [symmetric])
    have s: "sorted_wrt (\<lambda>a b. cr_Seq a < cr_Seq b) ?rows" using assms(1) by (simp add: log_ok_def sorted_wrt_filter)
    fix y assume "y \<in> cr_Seq ` set ?rows"
    then show "y \<le> cr_Seq (last ?rows)" using last_sorted [OF s that] by auto
  next
    show "cr_Seq (last ?rows) \<in> cr_Seq ` set ?rows" using last_in_set [OF that] by (rule imageI)
  qed simp
  then show "c' = (if cs = [] then c else Max (cr_Seq ` {r \<in> set (ps_changes s). cr_SpaceID r = i \<and> cr_Seq r > c}))"
    unfolding r by simp
qed

text \<open>C36: A pull by cursor misses nothing the log still holds, as long as the numbers behind the cursor are not given again. A
  device that has every change of the space the log holds up to its cursor has, after a pull, every change of the space the
  log holds then (those compacted before are in neither), and its new cursor is behind the next number; through any
  operations that keep the next number beyond the cursor it has every change the log holds up to it. Only a compaction lowers
  the next number. When it has fallen to the cursor or below, the next change stored is not among what a pull from the cursor
  returns, although the store holds it: a device loses the change.\<close>

theorem cursor_complete:
  assumes "store_reached D is_uuid mint member_key s" and "ChangesSince s i c = Inr (cs, c')"
  shows "(caught_up s i c S \<and> c < next_seq s \<longrightarrow>
      (\<forall>r\<in>set (ps_changes s). cr_SpaceID r = i \<longrightarrow> cr_ChangeID r \<in> S \<union> ec_ChangeID ` set cs) \<and> c \<le> c' \<and> c' < next_seq s \<and>
      ((\<lambda>s t. store_step D is_uuid mint member_key s t \<and> c' < next_seq t)\<^sup>*\<^sup>* s t \<longrightarrow> caught_up t i c' (S \<union> ec_ChangeID ` set cs))) \<and>
    (store_step D is_uuid mint member_key s u \<longrightarrow> next_seq s \<le> next_seq u \<or> (\<exists>j acked n. CompactChanges j acked s = Inr (n, u))) \<and>
    (next_seq s \<le> c \<and> PutChange D now ch s = Inr v \<and> \<not> holds_change s (ec_ChangeID ch) \<and> ec_SpaceID ch = i \<longrightarrow>
      (\<exists>ds. ChangesFor v i = Inr ds \<and> ec_ChangeID ch \<in> ec_ChangeID ` set ds) \<and> ChangesSince v i c = Inr ([], c))"
proof -
  have log: "log_ok s" using reached_inv [OF assms(1)] by (simp add: store_inv_def)
  note cs = ChangesSince_Inr [OF log assms(2)]
  let ?new = "{r \<in> set (ps_changes s). cr_SpaceID r = i \<and> cr_Seq r > c}"
  have new: "ec_ChangeID ` set cs = cr_ChangeID ` ?new" unfolding cs(1) by (auto simp: image_iff)
  have empty: "cs = [] \<longleftrightarrow> ?new = {}" unfolding cs(1) by (auto simp: filter_empty_conv)
  have max: "r \<in> ?new \<Longrightarrow> cr_Seq r \<le> c'" for r
    using empty unfolding cs(2) by (auto intro: Max_ge)
  have "(\<forall>r\<in>set (ps_changes s). cr_SpaceID r = i \<longrightarrow> cr_ChangeID r \<in> S \<union> ec_ChangeID ` set cs) \<and> c \<le> c' \<and> c' < next_seq s \<and>
      ((\<lambda>s t. store_step D is_uuid mint member_key s t \<and> c' < next_seq t)\<^sup>*\<^sup>* s t \<longrightarrow> caught_up t i c' (S \<union> ec_ChangeID ` set cs))"
    if up: "caught_up s i c S" and c: "c < next_seq s"
  proof -
    have all: "cr_ChangeID r \<in> S \<union> ec_ChangeID ` set cs" if "r \<in> set (ps_changes s)" "cr_SpaceID r = i" for r
      using up that unfolding new caught_up_def by (cases "cr_Seq r \<le> c") auto
    have c': "c \<le> c' \<and> c' < next_seq s"
    proof (cases "?new = {}")
      case True
      then show ?thesis using cs(2) empty c by simp
    next
      case False
      then have "Max (cr_Seq ` ?new) \<in> cr_Seq ` ?new" by (intro Max_in) auto
      moreover have "cs \<noteq> []" using empty False by blast
      ultimately have "c' \<in> cr_Seq ` ?new" using cs(2) by simp
      then obtain r where "r \<in> ?new" "c' = cr_Seq r" by blast
      then show ?thesis using next_seq_gt [of r s] by auto
    qed
    have "caught_up s i c' (S \<union> ec_ChangeID ` set cs)" using all by (auto simp: caught_up_def)
    then show ?thesis using all c' run_caught_up [where c = c' and s = s and t = t] by blast
  qed
  moreover have "(\<exists>ds. ChangesFor v i = Inr ds \<and> ec_ChangeID ch \<in> ec_ChangeID ` set ds) \<and> ChangesSince v i c = Inr ([], c)"
    if low: "next_seq s \<le> c" and put: "PutChange D now ch s = Inr v" and nh: "\<not> holds_change s (ec_ChangeID ch)" and i: "ec_SpaceID ch = i"
  proof -
    have p: "putChange D now ch None s = Inr v" using put by (simp add: PutChange_def)
    note v = putChange_stored [OF p]
    have rows: "ps_changes v = ps_changes s @ [change_row now (next_seq s) ch]" by (simp add: putChange_Inr(4) [OF p nh])
    have "filter (\<lambda>r. cr_Seq r > c) (space_changes v i) = []"
      using low next_seq_gt [of _ s] by (fastforce simp: filter_empty_conv space_changes_set rows)
    then have "ChangesSince v i c = Inr ([], c)" using v(1) i by (auto simp: ChangesSince_def Space_def)
    moreover have "ec_ChangeID ch \<in> ec_ChangeID ` set (map row_change (space_changes v i))"
      using v(3) [OF nh] unfolding i by (metis change_row_simps(1) image_eqI row_change_simps(1) set_map)
    ultimately show ?thesis using v(1) i by (auto simp: ChangesFor_Inr)
  qed
  ultimately show ?thesis using step_next_seq by blast
qed

section \<open>Compaction\<close>

lemma droppable_set:
  "x \<in> set (droppable snap changes acked) \<longleftrightarrow>
     x \<in> ec_ChangeID ` set changes \<and> reaches changes (set (es_Frontier snap)) x \<and> reaches changes (set acked) x"
  by (auto simp: droppable_def Let_def Subsumes_def CausalHistory_reaches)

lemma Latest_cong: "ps_spaces t = ps_spaces s \<Longrightarrow> ps_snapshots t = ps_snapshots s \<Longrightarrow> LatestSnapshotFor t i = LatestSnapshotFor s i"
  by (simp only: LatestSnapshotFor_def Space_def space_row_def)

lemma delete_changes_count:
  "distinct (map cr_ChangeID (ps_changes s)) \<Longrightarrow>
   fst (delete_changes i ids k s) = k + length (filter (dropped_row i ids) (ps_changes s))"
proof (induction ids arbitrary: k s)
  case (Cons x xs)
  let ?hit = "\<lambda>r. cr_ChangeID r = x \<and> cr_SpaceID r = i"
  let ?t = "s\<lparr>ps_changes := filter (\<lambda>r. \<not> ?hit r) (ps_changes s)\<rparr>"
  have d: "distinct (map cr_ChangeID (ps_changes ?t))" using Cons.prems by (simp add: distinct_map_filter)
  have one: "length (filter ?hit rs) = (if list_ex ?hit rs then 1 else 0)" if "distinct (map cr_ChangeID rs)" for rs
  proof (cases "list_ex ?hit rs")
    case True
    then obtain r where r: "r \<in> set rs" "?hit r" by (auto simp: list_ex_iff)
    have "set (filter ?hit rs) = {r}" using r that by (auto simp: distinct_map dest: inj_onD)
    moreover have "distinct (filter ?hit rs)" using that by (simp add: distinct_map)
    ultimately have "length (filter ?hit rs) = card {r}" using distinct_card by metis
    then show ?thesis using True by simp
  qed (simp add: list_ex_iff filter_empty_conv)
  have "length (filter (dropped_row i (x # xs)) rs) = length (filter ?hit rs) + length (filter (dropped_row i xs) (filter (\<lambda>r. \<not> ?hit r) rs))" for rs
    by (induction rs) (auto simp: dropped_row_def)
  then show ?case using Cons.IH [OF d] one [OF Cons.prems] by (simp add: Let_def)
qed (simp add: dropped_row_def)

text \<open>What a device can still obtain of the changes \<open>G\<close> ever made: the log, and what the latest snapshot has folded in.\<close>

definition obtainable :: "EncryptedChange list \<Rightarrow> PStore \<Rightarrow> string \<Rightarrow> string \<Rightarrow> bool" where
  "obtainable G s i x \<longleftrightarrow>
     (\<exists>cs. ChangesFor s i = Inr cs \<and> x \<in> ec_ChangeID ` set cs) \<or>
     (\<exists>snap. LatestSnapshotFor s i = Inr (Some snap) \<and> reaches G (set (es_Frontier snap)) x)"

lemma reaches_graph:
  assumes "reaches cs A x" and "\<And>j c. byID cs j = Some c \<Longrightarrow> \<exists>d. byID G j = Some d \<and> set (ec_Parents c) \<subseteq> set (ec_Parents d)"
  shows "reaches G A x"
  using assms(1)
proof induction
  case (parent j c i)
  then show ?case using assms(2) [OF parent.hyps(2)] by (auto intro: reaches.parent)
qed (rule reaches.head)

text \<open>C37: Compaction drops a change just when the latest snapshot's frontier and the acknowledged frontier both lead to
  it, and reports how many; without a snapshot it drops nothing, and nothing but the log changes. Every sibling that holds
  the acknowledged frontier, and the parents of what it holds, has each dropped change. Nothing a device could obtain
  before, from the log or folded into the latest snapshot, is out of reach afterwards.\<close>

theorem compaction_safe:
  assumes "store_reached D is_uuid mint member_key s" and "CompactChanges i acked s = Inr (n, t)" and "ChangesFor s i = Inr changes"
  shows "(\<forall>r. r \<in> set (ps_changes s) - set (ps_changes t) \<longleftrightarrow>
      r \<in> set (ps_changes s) \<and> cr_SpaceID r = i \<and>
      (\<exists>snap. LatestSnapshotFor s i = Inr (Some snap) \<and> reaches changes (set (es_Frontier snap)) (cr_ChangeID r)) \<and>
      reaches changes (set acked) (cr_ChangeID r)) \<and>
    (\<exists>P. ps_changes t = filter P (ps_changes s)) \<and> n = length (ps_changes s) - length (ps_changes t) \<and>
    ps_wraps t = ps_wraps s \<and> ps_snapshots t = ps_snapshots s \<and>
    (agree changes ds \<and> parent_closed ds \<and> set acked \<subseteq> ec_ChangeID ` set ds \<longrightarrow>
      (\<forall>r\<in>set (ps_changes s) - set (ps_changes t). cr_ChangeID r \<in> ec_ChangeID ` set ds)) \<and>
    ((\<forall>j c. byID changes j = Some c \<longrightarrow> (\<exists>d. byID G j = Some d \<and> set (ec_Parents c) \<subseteq> set (ec_Parents d))) \<longrightarrow>
      (\<forall>x. obtainable G s i x \<longrightarrow> obtainable G t i x))"
proof -
  have log: "log_ok s" using reached_inv [OF assms(1)] by (simp add: store_inv_def)
  then have dist: "distinct (map cr_ChangeID (ps_changes s))" by (simp add: log_ok_def)
  have ch: "changes = map row_change (space_changes s i)" and sp: "space_row s i \<noteq> None" using assms(3) by (simp_all add: ChangesFor_Inr)
  have held: "cr_ChangeID r \<in> ec_ChangeID ` set changes" if "r \<in> set (ps_changes s)" "cr_SpaceID r = i" for r
    using that by (force simp: ch space_changes_set)
  note f = CompactChanges_frame [OF assms(2)]
  let ?drop = "\<lambda>r. cr_SpaceID r = i \<and>
      (\<exists>snap. LatestSnapshotFor s i = Inr (Some snap) \<and> reaches changes (set (es_Frontier snap)) (cr_ChangeID r)) \<and>
      reaches changes (set acked) (cr_ChangeID r)"
  have "ps_changes t = filter (\<lambda>r. \<not> ?drop r) (ps_changes s) \<and> n = length (filter ?drop (ps_changes s))"
  proof (cases "LatestSnapshotFor s i")
    case (Inl e)
    then show ?thesis using assms(2) by (simp add: CompactChanges_def)
  next
    case (Inr o')
    show ?thesis
    proof (cases o')
      case None
      then show ?thesis using assms(2) Inr by (simp add: CompactChanges_def)
    next
      case (Some snap)
      let ?ids = "droppable snap changes acked"
      have d: "dropped_row i ?ids r \<longleftrightarrow> ?drop r" if "r \<in> set (ps_changes s)" for r
        using held [OF that] Inr Some by (auto simp: dropped_row_def droppable_set)
      then have e: "filter (dropped_row i ?ids) (ps_changes s) = filter ?drop (ps_changes s)"
        "filter (\<lambda>r. \<not> dropped_row i ?ids r) (ps_changes s) = filter (\<lambda>r. \<not> ?drop r) (ps_changes s)"
        by (auto intro!: filter_cong)
      show ?thesis
      proof (cases "?ids = []")
        case True
        then have "filter (dropped_row i ?ids) (ps_changes s) = []" "filter (\<lambda>r. \<not> dropped_row i ?ids r) (ps_changes s) = ps_changes s"
          by (auto simp: dropped_row_def filter_empty_conv)
        then show ?thesis using assms(2,3) Inr Some True e by (auto simp: CompactChanges_def)
      next
        case False
        then show ?thesis using assms(2,3) Inr Some
          by (auto simp: CompactChanges_def Let_def case_prod_unfold delete_changes_state delete_changes_count [OF dist] e)
      qed
    qed
  qed
  then have tc: "ps_changes t = filter (\<lambda>r. \<not> ?drop r) (ps_changes s)" and n: "n = length (filter ?drop (ps_changes s))" by auto
  have gone: "r \<in> set (ps_changes s) - set (ps_changes t) \<longleftrightarrow> r \<in> set (ps_changes s) \<and> ?drop r" for r unfolding tc by auto
  have cnt: "n = length (ps_changes s) - length (ps_changes t)"
    unfolding n tc using sum_length_filter_compl [of ?drop "ps_changes s"] by simp
  have sib: "cr_ChangeID r \<in> ec_ChangeID ` set ds"
    if "agree changes ds" "parent_closed ds" "set acked \<subseteq> ec_ChangeID ` set ds" "r \<in> set (ps_changes s) - set (ps_changes t)" for r
    using that(4) reaches_inside [OF _ that(3,2,1)] unfolding gone by blast
  have obt: "obtainable G t i x"
    if "obtainable G s i x" "\<And>j c. byID changes j = Some c \<Longrightarrow> \<exists>d. byID G j = Some d \<and> set (ec_Parents c) \<subseteq> set (ec_Parents d)" for x
  proof -
    have l: "LatestSnapshotFor t i = LatestSnapshotFor s i" by (rule Latest_cong) (simp_all add: f)
    have c: "ChangesFor t i = Inr (map row_change (space_changes t i))" using sp by (simp add: ChangesFor_Inr space_row_def f)
    from that(1) show ?thesis unfolding obtainable_def l
    proof (elim disjE exE conjE)
      fix cs assume "ChangesFor s i = Inr cs" "x \<in> ec_ChangeID ` set cs"
      then obtain r where r: "r \<in> set (ps_changes s)" "cr_SpaceID r = i" "cr_ChangeID r = x"
        by (auto simp: ChangesFor_Inr space_changes_set)
      show "(\<exists>cs. ChangesFor t i = Inr cs \<and> x \<in> ec_ChangeID ` set cs) \<or>
          (\<exists>snap. LatestSnapshotFor s i = Inr (Some snap) \<and> reaches G (set (es_Frontier snap)) x)"
      proof (cases "?drop r")
        case True
        then show ?thesis using reaches_graph [OF _ that(2)] r(3) by blast
      next
        case False
        then have "r \<in> set (space_changes t i)" using r by (simp add: space_changes_set tc)
        then have "x \<in> ec_ChangeID ` set (map row_change (space_changes t i))" using r(3) by force
        then show ?thesis using c by blast
      qed
    qed blast
  qed
  show ?thesis using gone tc cnt f(3,7) sib obt by blast
qed

end
