(* ===== verification/SyncSpec.thy ===== *)
theory SyncSpec
  imports LogSpec
begin

text \<open>
  Which snapshot a space shows and what can still be obtained after one is replaced, with the runs in which an older
  snapshot takes the place of a newer one, a compacted change goes out of reach and a cursor misses a change.
\<close>

section \<open>Snapshots by the text of their time\<close>

lemma append_less: "xs @ ys < xs @ (zs :: string) \<longleftrightarrow> ys < zs"
  by (induction xs) auto

lemma fraction_before: "0 < k \<Longrightarrow> fraction_text k @ ''Z'' < ''Z''"
  by (simp add: fraction_text_def less_char_def)

lemma text_order:
  assumes "0 < k" and "k < 1000000000"
  shows "RFC3339Nano (1000000000 * sec + k) < RFC3339Nano (1000000000 * sec)"
proof -
  have "(1000000000 * sec + k) div 1000000000 = sec" "(1000000000 * sec + k) mod 1000000000 = k" using assms by auto
  moreover have "0 < nat k" using assms(1) by simp
  ultimately show ?thesis using fraction_before [of "nat k"] by (simp add: RFC3339Nano_def append_less fraction_text_def)
qed

lemma PutSnapshot_new:
  assumes "PutSnapshot D now snap s = Inr t" and "\<forall>r\<in>set (ps_snapshots s). sn_SnapshotID r \<noteq> es_SnapshotID snap"
  shows "ps_snapshots t = ps_snapshots s @ [\<lparr>sn_SnapshotID = es_SnapshotID snap, sn_SpaceID = es_SpaceID snap,
           sn_Frontier = ids_text (es_Frontier snap), sn_Ciphertext = es_Ciphertext snap, sn_CreatedAt = now\<rparr>]"
    "ps_spaces t = ps_spaces s" "ps_changes t = ps_changes s" "space_row s (es_SpaceID snap) \<noteq> None" "snapshot_Validate D snap = None"
  using assms by (auto simp: PutSnapshot_def list_ex_iff split: option.splits if_splits)

abbreviation snapshot_key :: "SnapshotRow \<Rightarrow> string \<times> string" where
  "snapshot_key r \<equiv> (RFC3339Nano (sn_CreatedAt r), sn_SnapshotID r)"

lemma sort_key_last:
  assumes "\<forall>x\<in>set xs. key x < (key y :: 'k :: linorder)"
  shows "sort_key key (xs @ [y]) = sort_key key xs @ [y]"
proof -
  have "sorted (map key (sort_key key xs @ [y]))" using assms by (auto simp: sorted_append less_imp_le)
  moreover have "filter (\<lambda>z. key z = k) (sort_key key xs @ [y]) = filter (\<lambda>z. key z = k) (xs @ [y])" for k
    by (simp add: filter_sort) (metis (mono_tags, lifting) sort_key_stable filter_sort)
  moreover have "(\<lambda>z. key k = key z) = (\<lambda>z. key z = key k)" for k by auto
  ultimately show ?thesis by (intro properties_for_sort_key) (simp_all del: filter_append)
qed

text \<open>Of two snapshots of a space, one stored at a full second and one later within that second, the earlier one is the
  latest: the rows are ordered by the text of the time, in which a fraction sorts before none. From then on the space shows,
  and is compacted against, a snapshot that has been replaced.\<close>

theorem latest_snapshot_by_text:
  assumes "PutSnapshot D (1000000000 * sec) a s = Inr t" and "PutSnapshot D (1000000000 * sec + k) b t = Inr u"
    and "0 < k" and "k < 1000000000" and "es_SpaceID a = i" and "es_SpaceID b = i" and "es_SnapshotID a \<noteq> es_SnapshotID b"
    and "\<forall>r\<in>set (ps_snapshots s). sn_SpaceID r \<noteq> i \<and> sn_SnapshotID r \<noteq> es_SnapshotID a \<and> sn_SnapshotID r \<noteq> es_SnapshotID b"
  shows "\<exists>snap. LatestSnapshotFor u i = Inr (Some snap) \<and> es_SnapshotID snap = es_SnapshotID a \<and> es_Ciphertext snap = es_Ciphertext a"
proof -
  note ta = PutSnapshot_new [OF assms(1)]
  have t: "ps_snapshots t = ps_snapshots s @ [\<lparr>sn_SnapshotID = es_SnapshotID a, sn_SpaceID = i,
      sn_Frontier = ids_text (es_Frontier a), sn_Ciphertext = es_Ciphertext a, sn_CreatedAt = 1000000000 * sec\<rparr>]"
    and sp: "ps_spaces t = ps_spaces s" "space_row s i \<noteq> None" using ta assms(5,8) by auto
  have u: "ps_snapshots u = ps_snapshots t @ [\<lparr>sn_SnapshotID = es_SnapshotID b, sn_SpaceID = i,
      sn_Frontier = ids_text (es_Frontier b), sn_Ciphertext = es_Ciphertext b, sn_CreatedAt = 1000000000 * sec + k\<rparr>]"
    "ps_spaces u = ps_spaces t" using PutSnapshot_new [OF assms(2)] assms(6-8) by (auto simp: t)
  have "filter (\<lambda>r. sn_SpaceID r = i) (ps_snapshots s) = []" using assms(8) by (auto simp: filter_empty_conv)
  moreover have "space_row u i \<noteq> None" using sp u(2) by (simp add: space_row_def)
  ultimately show ?thesis using text_order [OF assms(3,4), of sec]
    by (auto simp: LatestSnapshotFor_def Space_def u(1) t row_snapshot_def)
qed

text \<open>C38: A snapshot stored at a later text of time is the one the space shows, whatever it covers. Then what can be obtained is
  the log and what the new snapshot's frontier leads to. When that covers the frontier of the snapshot before, everything
  obtainable stays so; a change that only the snapshot before had folded in, and the log no longer has, goes out of reach.\<close>

theorem snapshot_replaces:
  assumes "PutSnapshot D now snap s = Inr t" and "\<forall>r\<in>set (ps_snapshots s). sn_SnapshotID r \<noteq> es_SnapshotID snap"
    and "\<forall>r\<in>set (ps_snapshots s). sn_SpaceID r = es_SpaceID snap \<longrightarrow> RFC3339Nano (sn_CreatedAt r) < RFC3339Nano now"
    and "\<forall>p\<in>set (es_Frontier snap). CHR '','' \<notin> set p \<and> p \<noteq> []" and "ChangesFor s (es_SpaceID snap) = Inr cs"
  shows "(\<forall>x. obtainable G t (es_SpaceID snap) x \<longleftrightarrow> x \<in> ec_ChangeID ` set cs \<or> reaches G (set (es_Frontier snap)) x) \<and>
    ((\<forall>old. LatestSnapshotFor s (es_SpaceID snap) = Inr (Some old) \<longrightarrow> (\<forall>f\<in>set (es_Frontier old). reaches G (set (es_Frontier snap)) f)) \<longrightarrow>
      (\<forall>x. obtainable G s (es_SpaceID snap) x \<longrightarrow> obtainable G t (es_SpaceID snap) x)) \<and>
    (obtainable G s (es_SpaceID snap) x \<and> x \<notin> ec_ChangeID ` set cs \<and> \<not> reaches G (set (es_Frontier snap)) x \<longrightarrow>
      \<not> obtainable G t (es_SpaceID snap) x)"
proof -
  note p = PutSnapshot_new [OF assms(1,2)]
  let ?i = "es_SpaceID snap"
  let ?new = "\<lparr>sn_SnapshotID = es_SnapshotID snap, sn_SpaceID = ?i,
           sn_Frontier = ids_text (es_Frontier snap), sn_Ciphertext = es_Ciphertext snap, sn_CreatedAt = now\<rparr>"
  have cs: "ChangesFor t ?i = Inr cs" using assms(5) by (auto simp: ChangesFor_Inr space_row_def space_changes_def p(2,3))
  have rows: "sort_key snapshot_key (filter (\<lambda>r. sn_SpaceID r = ?i) (ps_snapshots t)) =
      sort_key snapshot_key (filter (\<lambda>r. sn_SpaceID r = ?i) (ps_snapshots s)) @ [?new]"
    unfolding p(1) using assms(3) by (simp add: sort_key_last less_prod_def)
  have "space_row t ?i \<noteq> None" using p(4) by (simp add: space_row_def p(2))
  then have latest: "LatestSnapshotFor t ?i = Inr (Some (row_snapshot ?new))"
    by (auto simp: LatestSnapshotFor_def Space_def rows Let_def)
  have "set (text_ids (ids_text (es_Frontier snap))) = set (es_Frontier snap)"
  proof (cases "es_Frontier snap = []")
    case False
    then have "split_on CHR '','' (ids_text (es_Frontier snap)) = es_Frontier snap"
      using assms(4) unfolding ids_text_def by (intro split_join) auto
    moreover from this have "ids_text (es_Frontier snap) \<noteq> []" using assms(4) False by (metis split_on.simps(1) list.set_intros(1))
    ultimately show ?thesis by (simp add: text_ids_def)
  qed (simp add: text_ids_def ids_text_def)
  then have now: "obtainable G t ?i y \<longleftrightarrow> y \<in> ec_ChangeID ` set cs \<or> reaches G (set (es_Frontier snap)) y" for y
    by (simp add: obtainable_def cs latest row_snapshot_def)
  have before: "y \<in> ec_ChangeID ` set cs \<or> (\<exists>old. LatestSnapshotFor s ?i = Inr (Some old) \<and> reaches G (set (es_Frontier old)) y)"
    if "obtainable G s ?i y" for y using that assms(5) by (auto simp: obtainable_def)
  have "obtainable G t ?i y"
    if "\<forall>old. LatestSnapshotFor s ?i = Inr (Some old) \<longrightarrow> (\<forall>f\<in>set (es_Frontier old). reaches G (set (es_Frontier snap)) f)"
      "obtainable G s ?i y" for y
    using before [OF that(2)] that(1) reaches_mono unfolding now by blast
  then show ?thesis using now by blast
qed

section \<open>The properties at work\<close>

text \<open>A digest by the last byte, which is that of the ciphertext, and a store with one space.\<close>

definition last_byte :: "byte list \<Rightarrow> string" where
  "last_byte bs = [char_of (unat (last bs))]"

definition chg :: "byte \<Rightarrow> string list \<Rightarrow> EncryptedChange" where
  "chg b ps = \<lparr>ec_SpaceID = ''s'', ec_ChangeID = [char_of (unat b)], ec_Parents = ps, ec_Ciphertext = [b]\<rparr>"

definition shot :: "byte \<Rightarrow> string list \<Rightarrow> EncryptedSnapshot" where
  "shot b ps = \<lparr>es_SpaceID = ''s'', es_SnapshotID = [char_of (unat b)], es_Frontier = ps, es_Ciphertext = [b]\<rparr>"

definition one_space :: PStore where
  "one_space = snd (projr (PutSpaceOwnedFrom (\<lambda>_. True) 1 ''s'' ''personal'' [] [] empty_store))"

definition put :: "int \<Rightarrow> EncryptedChange \<Rightarrow> PStore \<Rightarrow> PStore" where
  "put now c s = projr (PutChange last_byte now c s)"

definition put_shot :: "int \<Rightarrow> EncryptedSnapshot \<Rightarrow> PStore \<Rightarrow> PStore" where
  "put_shot now c s = projr (PutSnapshot last_byte now c s)"

lemma last_field: "last (writeField [b]) = b"
  by (simp add: writeField_def PutUvarint.simps [of 1])

lemma chg_valid [simp]: "change_Validate last_byte (chg b ps) = None"
  by (simp add: change_Validate_def chg_def computeID_def last_byte_def id_preimage_def last_field last_append Let_def writeField_def)

lemma shot_valid [simp]: "snapshot_Validate last_byte (shot b ps) = None"
  by (simp add: snapshot_Validate_def shot_def computeSnapshotID_def last_byte_def id_preimage_def last_field last_append Let_def writeField_def)

abbreviation run_reached :: "PStore \<Rightarrow> bool" where
  "run_reached \<equiv> store_reached last_byte (\<lambda>_. True) dec (\<lambda>_. False)"

lemma one_space_reached: "run_reached one_space"
proof -
  have "\<exists>sp t. PutSpaceOwnedFrom (\<lambda>_. True) 1 ''s'' ''personal'' [] [] empty_store = Inr (sp, t)"
    by (simp add: PutSpaceOwnedFrom_def kind_valid_def space_row_def empty_store_def Let_def)
  then show ?thesis unfolding one_space_def
    by (auto intro: store_reached.again [OF store_reached.start store_step.put_space])
qed

lemma put_reached: "run_reached s \<Longrightarrow> space_row s ''s'' \<noteq> None \<Longrightarrow> run_reached (put now (chg b ps) s) \<and> space_row (put now (chg b ps) s) ''s'' \<noteq> None \<and>
    PutChange last_byte now (chg b ps) s = Inr (put now (chg b ps) s)"
proof -
  assume s: "run_reached s" "space_row s ''s'' \<noteq> None"
  then have "\<exists>t. putChange last_byte now (chg b ps) None s = Inr t" by (simp add: putChange_def) (simp add: chg_def)
  then obtain t where t: "putChange last_byte now (chg b ps) None s = Inr t" by blast
  then have "put now (chg b ps) s = t" by (simp add: put_def PutChange_def)
  then show ?thesis using t putChange_stored(1) [OF t] store_reached.again [OF s(1) store_step.put_change [OF t]]
    by (simp add: PutChange_def) (simp add: chg_def)
qed

lemma put_eq:
  assumes "space_row s ''s'' \<noteq> None" and "\<not> holds_change s [char_of (unat b)]"
  shows "put now (chg b ps) s = EmitTx (ChangeStored [char_of (unat b)] ''s'') (s\<lparr>ps_changes := ps_changes s @ [change_row now (next_seq s) (chg b ps)]\<rparr>)"
proof -
  have "putChange last_byte now (chg b ps) None s = Inr (EmitTx (ChangeStored [char_of (unat b)] ''s'')
      (s\<lparr>ps_changes := ps_changes s @ [change_row now (next_seq s) (chg b ps)]\<rparr>))"
    using assms by (simp add: putChange_def) (simp add: chg_def)
  then show ?thesis by (simp add: put_def PutChange_def)
qed

lemma put_shot_eq:
  assumes "space_row s ''s'' \<noteq> None" and "\<forall>r\<in>set (ps_snapshots s). sn_SnapshotID r \<noteq> [char_of (unat b)]"
  shows "PutSnapshot last_byte now (shot b ps) s = Inr (put_shot now (shot b ps) s)"
    "put_shot now (shot b ps) s = EmitTx (SnapshotWritten ''s'' [char_of (unat b)]) (s\<lparr>ps_snapshots := ps_snapshots s @ [\<lparr>sn_SnapshotID = [char_of (unat b)],
       sn_SpaceID = ''s'', sn_Frontier = ids_text ps, sn_Ciphertext = [b], sn_CreatedAt = now\<rparr>]\<rparr>)"
proof -
  have "PutSnapshot last_byte now (shot b ps) s = Inr (EmitTx (SnapshotWritten ''s'' [char_of (unat b)]) (s\<lparr>ps_snapshots := ps_snapshots s @ [\<lparr>sn_SnapshotID = [char_of (unat b)],
       sn_SpaceID = ''s'', sn_Frontier = ids_text ps, sn_Ciphertext = [b], sn_CreatedAt = now\<rparr>]\<rparr>))"
    using assms by (simp add: PutSnapshot_def list_ex_iff) (simp add: shot_def)
  then show "PutSnapshot last_byte now (shot b ps) s = Inr (put_shot now (shot b ps) s)"
    "put_shot now (shot b ps) s = EmitTx (SnapshotWritten ''s'' [char_of (unat b)]) (s\<lparr>ps_snapshots := ps_snapshots s @ [\<lparr>sn_SnapshotID = [char_of (unat b)],
       sn_SpaceID = ''s'', sn_Frontier = ids_text ps, sn_Ciphertext = [b], sn_CreatedAt = now\<rparr>]\<rparr>)"
    by (simp_all add: put_shot_def)
qed

definition base2 :: PStore where
  "base2 = put 3 (chg 98 [''a'']) (put 2 (chg 97 []) one_space)"

lemma one_space_eq:
  "one_space = empty_store\<lparr>ps_spaces := [\<lparr>spc_ID = ''s'', spc_Kind = ''personal'', spc_CreatedAt = 1, spc_Owner = None\<rparr>],
     ps_events := [SpaceCreated ''s'' ''personal'']\<rparr>"
  by (simp add: one_space_def PutSpaceOwnedFrom_def kind_valid_def space_row_def empty_store_def Let_def EmitTx_def EncryptedSpace.extend_def)

lemma letters [simp]: "char_of (97 :: nat) = CHR ''a''" "char_of (98 :: nat) = CHR ''b''" "char_of (99 :: nat) = CHR ''c''"
  "char_of (120 :: nat) = CHR ''x''" "char_of (121 :: nat) = CHR ''y''" "char_of (122 :: nat) = CHR ''z''"
  by code_simp+

lemma chg_simps [simp]: "ec_SpaceID (chg b ps) = ''s''" "ec_ChangeID (chg b ps) = [char_of (unat b)]" "ec_Parents (chg b ps) = ps"
  "ec_Ciphertext (chg b ps) = [b]"
  by (simp_all add: chg_def)

lemma base2_eq:
  "base2 = one_space\<lparr>ps_changes := [change_row 2 1 (chg 97 []), change_row 3 2 (chg 98 [''a''])],
     ps_events := [SpaceCreated ''s'' ''personal'', ChangeStored ''a'' ''s'', ChangeStored ''b'' ''s'']\<rparr>"
  by (simp add: base2_def one_space_eq put_eq EmitTx_def space_row_def holds_change_def empty_store_def next_seq_def)

lemma base2_reached: "run_reached base2" "space_row base2 ''s'' \<noteq> None"
proof -
  have "space_row one_space ''s'' \<noteq> None" by (simp add: one_space_eq space_row_def)
  from put_reached [OF one_space_reached this, of 2 97 "[]"] have p: "run_reached (put 2 (chg 97 []) one_space)" "space_row (put 2 (chg 97 []) one_space) ''s'' \<noteq> None"
    by simp_all
  from put_reached [OF p, of 3 98 "[''a'']"] show "run_reached base2" "space_row base2 ''s'' \<noteq> None" by (simp_all add: base2_def)
qed

text \<open>A snapshot of both changes, and the log compacted against it.\<close>

definition with_shot :: PStore where
  "with_shot = put_shot 4 (shot 120 [''b'']) base2"

lemma with_shot_eq:
  "with_shot = one_space\<lparr>ps_changes := [change_row 2 1 (chg 97 []), change_row 3 2 (chg 98 [''a''])],
     ps_snapshots := [\<lparr>sn_SnapshotID = ''x'', sn_SpaceID = ''s'', sn_Frontier = ''b'', sn_Ciphertext = [120], sn_CreatedAt = 4\<rparr>],
     ps_events := [SpaceCreated ''s'' ''personal'', ChangeStored ''a'' ''s'', ChangeStored ''b'' ''s'', SnapshotWritten ''s'' ''x'']\<rparr>"
  unfolding with_shot_def
  by (subst put_shot_eq(2)) (simp_all add: base2_eq one_space_eq EmitTx_def space_row_def empty_store_def ids_text_def)

lemma with_shot_reached: "run_reached with_shot"
proof -
  have "\<forall>r\<in>set (ps_snapshots base2). sn_SnapshotID r \<noteq> [char_of (unat (120 :: byte))]"
    by (simp add: base2_eq one_space_eq empty_store_def)
  from put_shot_eq(1) [OF base2_reached(2) this]
  show ?thesis unfolding with_shot_def by (rule store_reached.again [OF base2_reached(1) store_step.put_snapshot])
qed

definition folded :: PStore where
  "folded = one_space\<lparr>ps_snapshots := [\<lparr>sn_SnapshotID = ''x'', sn_SpaceID = ''s'', sn_Frontier = ''b'', sn_Ciphertext = [120], sn_CreatedAt = 4\<rparr>],
     ps_events := [SpaceCreated ''s'' ''personal'', ChangeStored ''a'' ''s'', ChangeStored ''b'' ''s'', SnapshotWritten ''s'' ''x'', ChangesCompacted ''s'' ''x'' 2]\<rparr>"

lemma with_shot_changes: "ChangesFor with_shot ''s'' = Inr [chg 97 [], chg 98 [''a'']]"
proof -
  have "map row_change (space_changes with_shot ''s'') = [chg 97 [], chg 98 [''a'']]" unfolding with_shot_eq by code_simp
  then show ?thesis by (simp add: ChangesFor_Inr) (simp add: with_shot_eq one_space_eq space_row_def)
qed

lemma with_shot_latest: "LatestSnapshotFor with_shot ''s'' = Inr (Some (shot 120 [''b'']))"
  by (simp add: LatestSnapshotFor_def Space_def with_shot_eq one_space_eq space_row_def row_snapshot_def text_ids_def shot_def)

lemma compacted: "CompactChanges ''s'' [''b''] with_shot = Inr (2, folded)"
proof -
  have "droppable (shot 120 [''b'']) [chg 97 [], chg 98 [''a'']] [''b''] = [''a'', ''b'']" by code_simp
  then show ?thesis
    by (simp add: CompactChanges_def with_shot_latest with_shot_changes) (simp add: with_shot_eq one_space_eq folded_def empty_store_def EmitTx_def shot_def)
qed

lemma folded_reached: "run_reached folded"
  by (rule store_reached.again [OF with_shot_reached store_step.compact [OF compacted]])

lemma compaction_safe_witness:
  "CompactChanges ''s'' [''b''] with_shot = Inr (2, folded) \<and> length (ps_changes with_shot) - length (ps_changes folded) = 2 \<and>
   cr_ChangeID ` (set (ps_changes with_shot) - set (ps_changes folded)) \<subseteq> ec_ChangeID ` set [chg 97 [], chg 98 [''a'']]"
proof -
  note cs = compaction_safe [OF with_shot_reached compacted with_shot_changes, where ds = "[chg 97 [], chg 98 [''a'']]"]
  have n: "2 = length (ps_changes with_shot) - length (ps_changes folded)" by (rule cs [THEN conjunct2, THEN conjunct2, THEN conjunct1])
  have a: "agree [chg 97 [], chg 98 [''a'']] [chg 97 [], chg 98 [''a'']]" by (simp add: agree_def)
  have "parent_closed [chg 97 [], chg 98 [''a'']]" "set [''b''] \<subseteq> ec_ChangeID ` set [chg 97 [], chg 98 [''a'']]"
    by (simp_all add: parent_closed_def)
  then show ?thesis
    using mp [OF cs [THEN conjunct2, THEN conjunct2, THEN conjunct2, THEN conjunct2, THEN conjunct2, THEN conjunct1]] a compacted n by auto
qed

text \<open>A device has pulled both changes, at cursor 2. The log is compacted, a new change is stored under number 1, and the
  device never gets it.\<close>

lemma cursor_complete_witness:
  "ChangesSince base2 ''s'' 0 = Inr ([chg 97 [], chg 98 [''a'']], 2) \<and> CompactChanges ''s'' [''b''] with_shot = Inr (2, folded) \<and>
   ChangesSince (put 5 (chg 99 [''b'']) folded) ''s'' 2 = Inr ([], 2) \<and> holds_change (put 5 (chg 99 [''b'']) folded) ''c''"
proof -
  have b: "ChangesSince base2 ''s'' 0 = Inr ([chg 97 [], chg 98 [''a'']], 2)" unfolding base2_eq by code_simp
  have f: "ChangesSince folded ''s'' 2 = Inr ([], 2)" "next_seq folded \<le> 2" by code_simp+
  have sp: "space_row folded ''s'' \<noteq> None" "\<not> holds_change folded (ec_ChangeID (chg 99 [''b'']))"
    by (simp_all add: folded_def one_space_eq space_row_def holds_change_def empty_store_def)
  note p = put_reached [OF folded_reached sp(1), of 5 99 "[''b'']", THEN conjunct2, THEN conjunct2]
  from cursor_complete [where now = 5 and ch = "chg 99 [''b'']" and v = "put 5 (chg 99 [''b'']) folded",
      OF folded_reached f(1), THEN conjunct2, THEN conjunct2, THEN mp] f(2) p sp(2)
  have "ChangesSince (put 5 (chg 99 [''b'']) folded) ''s'' 2 = Inr ([], 2)" by simp
  moreover have "holds_change (put 5 (chg 99 [''b'']) folded) ''c''" using putChange_stored(2) [OF p [unfolded PutChange_def]] by simp
  ultimately show ?thesis using b compacted by blast
qed

text \<open>A device that had read only the first change stores its snapshot after the compaction: the second change is then neither
  in the log nor in the snapshot.\<close>

lemma snapshot_replaces_witness:
  "obtainable [chg 97 [], chg 98 [''a'']] folded ''s'' ''b'' \<and>
   \<not> obtainable [chg 97 [], chg 98 [''a'']] (put_shot 40 (shot 121 [''a'']) folded) ''s'' ''b''"
proof -
  let ?G = "[chg 97 [], chg 98 [''a'']]"
  have sp: "space_row folded ''s'' \<noteq> None" by (simp add: folded_def one_space_eq space_row_def)
  have new: "\<forall>r\<in>set (ps_snapshots folded). sn_SnapshotID r \<noteq> [char_of (unat (121 :: byte))]" by (simp add: folded_def)
  have "fraction_text 4 @ ''Z'' < fraction_text 40 @ ''Z''" by code_simp
  then have "RFC3339Nano 4 < RFC3339Nano 40" by (simp add: RFC3339Nano_def append_less)
  then have late: "\<forall>r\<in>set (ps_snapshots folded). sn_SpaceID r = es_SpaceID (shot 121 [''a'']) \<longrightarrow> RFC3339Nano (sn_CreatedAt r) < RFC3339Nano 40"
    by (simp add: folded_def)
  have c: "ChangesFor folded (es_SpaceID (shot 121 [''a''])) = Inr []"
    using sp by (simp add: ChangesFor_Inr shot_def) (simp add: folded_def one_space_eq space_changes_def empty_store_def)
  have new': "\<forall>r\<in>set (ps_snapshots folded). sn_SnapshotID r \<noteq> es_SnapshotID (shot 121 [''a''])" using new by (simp add: shot_def)
  have fr: "\<forall>p\<in>set (es_Frontier (shot 121 [''a''])). CHR '','' \<notin> set p \<and> p \<noteq> []" by (simp add: shot_def)
  note r = snapshot_replaces [OF put_shot_eq(1) [OF sp new] new' late fr c, where G = ?G]
  have l: "LatestSnapshotFor folded ''s'' = Inr (Some (shot 120 [''b'']))"
    by (simp add: LatestSnapshotFor_def Space_def folded_def one_space_eq space_row_def row_snapshot_def text_ids_def shot_def)
  have h: "reaches ?G {''b''} ''b''" by (rule reaches.head) simp
  have ob: "obtainable ?G folded ''s'' ''b''" unfolding obtainable_def using l h by (auto simp: shot_def)
  have "CausalHistory ?G [''a''] = {|''a''|}" by code_simp
  then have n: "\<not> reaches ?G {''a''} ''b''" using CausalHistory_reaches [of "''b''" ?G "[''a'']"] by simp
  have "\<not> obtainable ?G (put_shot 40 (shot 121 [''a'']) folded) ''s'' ''b''"
    using r [THEN conjunct2, THEN conjunct2, of "''b''"] ob n by (simp add: shot_def)
  then show ?thesis using ob by blast
qed

lemma latest_snapshot_by_text_witness:
  "\<exists>snap. LatestSnapshotFor (put_shot 100000000 (shot 121 []) (put_shot 0 (shot 120 []) one_space)) ''s'' = Inr (Some snap) \<and> es_SnapshotID snap = ''x''"
proof -
  have sp: "space_row one_space ''s'' \<noteq> None" and e: "ps_snapshots one_space = []" by (simp_all add: one_space_eq space_row_def empty_store_def)
  note a = put_shot_eq [OF sp, of 120 "1000000000 * 0" "[]"]
  have sp2: "space_row (put_shot (1000000000 * 0) (shot 120 []) one_space) ''s'' \<noteq> None"
    and n2: "\<forall>r\<in>set (ps_snapshots (put_shot (1000000000 * 0) (shot 120 []) one_space)). sn_SnapshotID r \<noteq> [char_of (unat (121 :: byte))]"
    using a(2) sp by (simp_all add: e space_row_def)
  have a1: "PutSnapshot last_byte (1000000000 * 0) (shot 120 []) one_space = Inr (put_shot (1000000000 * 0) (shot 120 []) one_space)"
    by (rule a(1)) (simp add: e)
  note b = put_shot_eq(1) [OF sp2 n2, of "1000000000 * 0 + 100000000" "[]"]
  from latest_snapshot_by_text [OF a1 b, of "''s''"] show ?thesis by (simp add: e) (auto simp: shot_def)
qed

lemma inj_string_of: "inj string_of"
proof (rule injI)
  fix x y
  assume "string_of x = string_of y"
  moreover have "inj (\<lambda>b :: byte. char_of (unat b))"
  proof (rule injI)
    fix a b :: byte
    assume "char_of (unat a) = (char_of (unat b) :: char)"
    then have "of_char (char_of (unat a)) = (of_char (char_of (unat b)) :: nat)" by simp
    moreover have "unat a < 256" "unat b < 256"
      using unsigned_less [of a, where ?'a = nat] unsigned_less [of b, where ?'a = nat] by simp_all
    ultimately show "a = b" by (simp add: word_unat_eq_iff)
  qed
  ultimately show "x = y" by (simp add: string_of_def inj_map_eq_map)
qed

text \<open>One change with two parents, and one with a comma in its parent, under a digest without collisions.\<close>

definition comma_change :: EncryptedChange where
  "comma_change = \<lparr>ec_SpaceID = ''s'', ec_ChangeID = computeID plain_digest ''s'' [''p,q''] [1], ec_Parents = [''p,q''], ec_Ciphertext = [1]\<rparr>"

lemma stored_change_reads_back_witness:
  "(\<exists>t cs c. PutChange last_byte 2 (chg 97 [''p'', ''q'']) one_space = Inr t \<and> ChangesFor t ''s'' = Inr cs \<and> c \<in> set cs \<and>
      set (ec_Parents c) - {[]} = {''p'', ''q''} \<and> change_Validate last_byte c = None) \<and>
   (\<exists>t cs c. PutChange plain_digest 2 comma_change one_space = Inr t \<and> ChangesFor t ''s'' = Inr cs \<and> c \<in> set cs \<and>
      ec_ChangeID c = ec_ChangeID comma_change \<and> change_Validate plain_digest c = Some ErrIDMismatch)"
proof
  have sp: "space_row one_space ''s'' \<noteq> None" and nh: "\<not> holds_change one_space i" for i
    by (simp_all add: one_space_eq space_row_def holds_change_def empty_store_def)
  obtain t cs c where "PutChange last_byte 2 (chg 97 [''p'', ''q'']) one_space = Inr t" "ChangesFor t ''s'' = Inr cs" "c \<in> set cs"
    "(\<forall>p\<in>set [''p'', ''q'']. CHR '','' \<notin> set p) \<longrightarrow> set (ec_Parents c) - {[]} = set [''p'', ''q''] - {[]} \<and> change_Validate last_byte c = None"
    using stored_change_reads_back [OF chg_valid, of one_space 97 "[''p'', ''q'']" 2] sp nh by (auto simp: chg_simps)
  then show "\<exists>t cs c. PutChange last_byte 2 (chg 97 [''p'', ''q'']) one_space = Inr t \<and> ChangesFor t ''s'' = Inr cs \<and> c \<in> set cs \<and>
      set (ec_Parents c) - {[]} = {''p'', ''q''} \<and> change_Validate last_byte c = None" by auto
  have id: "computeID plain_digest ''s'' [''p,q''] [1] \<noteq> []" by (rule plain_id)
  have v: "change_Validate plain_digest comma_change = None"
    using id by (simp add: change_Validate_def comma_change_def canonicalParents_def Let_def)
  have s: "ec_SpaceID comma_change = ''s''" "ec_Parents comma_change = [''p,q'']" by (simp_all add: comma_change_def)
  have "inj plain_digest" using inj_string_of by (simp add: plain_digest_def [abs_def])
  then have "D \<noteq> E \<Longrightarrow> plain_digest D \<noteq> plain_digest E" for D E by (auto dest: injD)
  moreover have "\<exists>p\<in>set (ec_Parents comma_change). CHR '','' \<in> set p" by (simp add: s(2))
  ultimately show "\<exists>t cs c. PutChange plain_digest 2 comma_change one_space = Inr t \<and> ChangesFor t ''s'' = Inr cs \<and> c \<in> set cs \<and>
      ec_ChangeID c = ec_ChangeID comma_change \<and> change_Validate plain_digest c = Some ErrIDMismatch"
    using stored_change_reads_back [OF v, of one_space 2] sp nh unfolding s(1) by metis
qed

end
