(* ===== verification/DeliverySpec.thy ===== *)
theory DeliverySpec
  imports SyncSpec KeySpec
begin

text \<open>
  What replication to a sibling delivers (\<^verbatim>\<open>internal/personalstate/replication\<close> against a sibling that answers from
  its own store): that a run that succeeds leaves the sibling with the space, the history of keys, the copies it can take,
  the log and the snapshot; that a run gets through when nothing is refused and the connection lasts; and that a run that was
  cut off between a change and its cause is not made good by the ones after it.
\<close>

section \<open>Loops of requests\<close>

lemma push_each_keeps:
  assumes "push_each sk push xs t = (e, t')" and "Q t" and "\<And>x t e t'. x \<in> set xs \<Longrightarrow> push x t = (e, t') \<Longrightarrow> Q t \<Longrightarrow> Q t'"
  shows "Q t'"
  using assms
proof (induction xs arbitrary: t)
  case (Cons x xs)
  obtain e1 t1 where p: "push x t = (e1, t1)" by fastforce
  have "Q t1" by (rule Cons.prems(3) [OF _ p Cons.prems(2)]) simp
  moreover have "t1 = t' \<or> push_each sk push xs t1 = (e, t')" using Cons.prems(1) p by (auto split: option.splits if_splits)
  ultimately show ?case using Cons.IH Cons.prems(3) by (metis list.set_intros(2))
qed simp

lemma push_each_all:
  assumes "push_each sk push xs t = (None, t')" and "x \<in> set xs"
    and "\<And>y u e u'. y \<in> set xs \<Longrightarrow> push y u = (e, u') \<Longrightarrow> Q u \<Longrightarrow> Q u'"
    and "\<And>u e u'. push x u = (e, u') \<Longrightarrow> e = None \<or> (\<exists>r. e = Some r \<and> sk r) \<Longrightarrow> Q u'"
  shows "Q t'"
  using assms
proof (induction xs arbitrary: t)
  case (Cons z xs)
  obtain e t1 where z: "push z t = (e, t1)" and e: "e = None \<or> (\<exists>r. e = Some r \<and> sk r)" and r: "push_each sk push xs t1 = (None, t')"
    using Cons.prems(1) by (auto split: prod.splits option.splits if_splits)
  show ?case
  proof (cases "x = z")
    case True
    then have "Q t1" using Cons.prems(4) z e by blast
    then show ?thesis by (rule push_each_keeps [where Q = Q, OF r]) (auto intro: Cons.prems(3))
  next
    case False
    then show ?thesis using Cons.IH [OF r] Cons.prems(2-4) by (metis list.set_intros(2) set_ConsD)
  qed
qed simp

lemma push_each_append:
  "push_each sk push (xs @ ys) t = (case push_each sk push xs t of (None, t) \<Rightarrow> push_each sk push ys t | (Some e, t) \<Rightarrow> (Some e, t))"
  by (induction xs arbitrary: t) (auto split: prod.splits option.splits)

lemma answer_keeps: "answer f t = (e, t') \<Longrightarrow> (\<And>s s'. f s = Inr s' \<Longrightarrow> R s s') \<Longrightarrow> (\<And>s. R s s) \<Longrightarrow> R (fst t) (fst t')"
  by (auto simp: answer_def split: prod.splits if_splits sum.splits)

lemma answer_took: "answer f t = (None, t') \<Longrightarrow> f (fst t) = Inr (fst t')"
  by (auto simp: answer_def split: prod.splits if_splits sum.splits)

text \<open>A loop gets through when each request is taken, or refused with an error that is skipped, in every state on the way.\<close>

lemma push_each_through:
  assumes "\<And>x s. x \<in> set xs \<Longrightarrow> J s \<Longrightarrow> (\<exists>s'. f x s = Inr s' \<and> J s') \<or> (\<exists>e. f x s = Inl e \<and> sk (seen_as e))"
    and "J s" and "length xs \<le> k"
  shows "\<exists>t. push_each sk (\<lambda>x. answer (f x)) xs (s, k) = (None, (t, k - length xs)) \<and> J t"
  using assms
proof (induction xs arbitrary: s k)
  case (Cons x xs)
  have "\<exists>o' s'. answer (f x) (s, k) = (o', (s', k - 1)) \<and> J s' \<and> (o' = None \<or> (\<exists>e. o' = Some e \<and> sk e))"
    using Cons.prems(1) [of x s] Cons.prems(2,3) by (auto simp: answer_def)
  then obtain o' s' where a: "answer (f x) (s, k) = (o', (s', k - 1))" and J: "J s'" and o': "o' = None \<or> (\<exists>e. o' = Some e \<and> sk e)" by blast
  have "\<exists>t. push_each sk (\<lambda>x. answer (f x)) xs (s', k - 1) = (None, (t, k - 1 - length xs)) \<and> J t"
    using Cons.prems(3) J by (intro Cons.IH Cons.prems(1)) auto
  then show ?case using a o' by auto
qed simp

section \<open>What each request does to the sibling\<close>

abbreviation links :: "PStore \<Rightarrow> (string \<times> int \<times> byte list) set" where
  "links s \<equiv> (\<lambda>h. (kh_SpaceID h, kh_Epoch h, kh_SealedPrev h)) ` set (ps_history s)"

text \<open>The sibling's rows of spaces, links, log and snapshots only grow.\<close>

definition grows :: "PStore \<Rightarrow> PStore \<Rightarrow> bool" where
  "grows s t \<longleftrightarrow> (\<forall>i. space_row s i \<noteq> None \<longrightarrow> space_row t i \<noteq> None) \<and> links s \<subseteq> links t \<and>
     set (ps_snapshots s) \<subseteq> set (ps_snapshots t) \<and> (\<exists>rs. ps_changes t = ps_changes s @ rs)"

lemma grows_refl [simp]: "grows s s"
  by (simp add: grows_def)

lemma grows_trans: "grows s t \<Longrightarrow> grows t u \<Longrightarrow> grows s u"
  unfolding grows_def by (elim conjE exE) (auto, force)

lemma growsD:
  assumes "grows s t"
  shows "space_row s i \<noteq> None \<Longrightarrow> space_row t i \<noteq> None" "links s \<subseteq> links t" "set (ps_snapshots s) \<subseteq> set (ps_snapshots t)"
    "\<exists>rs. ps_changes t = ps_changes s @ rs"
  using assms unfolding grows_def by simp_all

lemma only_wraps_grows: "only_wraps s t \<Longrightarrow> grows s t"
  by (simp add: grows_def only_wraps_fields space_row_def)

lemma holds_grows: "grows s t \<Longrightarrow> holds_change s x \<Longrightarrow> holds_change t x"
  by (auto simp: grows_def holds_change_def)

lemma PutSpace_pushed:
  assumes "map_sum (\<lambda>e. e) snd (PutSpace is_uuid now i kind s) = Inr t"
  shows "grows s t" "ps_changes t = ps_changes s" "ps_history t = ps_history s" "space_row t i \<noteq> None"
  using assms by (auto simp: PutSpace_def PutSpaceOwned_def PutSpaceOwnedFrom_def Let_def grows_def space_row_def find_append EncryptedSpace.extend_def
    split: if_splits option.splits)

lemma PutKeyHistory_pushed:
  assumes "PutKeyHistory now i e b s = Inr t"
  shows "grows s t" "ps_changes t = ps_changes s" "links t = insert (i, e, b) (links s)" "space_row t = space_row s"
proof -
  show l: "links t = insert (i, e, b) (links s)" by (rule PutKeyHistory_rows [OF assms])
  have "space_row t = space_row s \<and> ps_changes t = ps_changes s \<and> ps_snapshots t = ps_snapshots s"
    using PutKeyHistory_held [OF assms] only_wraps_fields [OF PutKeyHistory_new(3) [OF assms]]
    by (cases "history_row s i e") (auto simp: add_history_def space_row_def)
  then show "ps_changes t = ps_changes s" "space_row t = space_row s" "grows s t" using l by (auto simp: grows_def)
qed

lemma PutWrappedKey_pushed:
  assumes "map_sum (\<lambda>e. e) snd (PutWrappedKey mint now i r b e s) = Inr t"
  shows "t = snd (upsertWrapTx mint i r b e now s)" "only_wraps s t"
proof -
  show t: "t = snd (upsertWrapTx mint i r b e now s)"
    using assms by (auto simp: PutWrappedKey_def split: if_splits option.splits)
  show "only_wraps s t" unfolding t by (rule only_wraps_upsert)
qed

lemma push_change:
  assumes "handleStateChangePush D now ch s = Inr t"
  shows "grows s t" "holds_change t (ec_ChangeID ch)" "change_Validate D ch = None" "space_row t = space_row s"
    "ps_wraps t = ps_wraps s \<and> ps_history t = ps_history s \<and> ps_recipients t = ps_recipients s"
    "ps_changes t = ps_changes s \<or> ps_changes t = ps_changes s @ [change_row now (next_seq s) ch]"
proof -
  have p: "putChange D now ch None s = Inr t"
    using assms by (auto simp: handleStateChangePush_def PutChange_def split: option.splits)
  show "holds_change t (ec_ChangeID ch)" by (rule putChange_stored(2) [OF p])
  show "change_Validate D ch = None" by (rule putChange_Inr(1) [OF p])
  have "space_row t = space_row s \<and> ps_snapshots t = ps_snapshots s \<and> ps_wraps t = ps_wraps s \<and> ps_history t = ps_history s \<and>
      ps_recipients t = ps_recipients s \<and> (ps_changes t = ps_changes s \<or> ps_changes t = ps_changes s @ [change_row now (next_seq s) ch])"
    using putChange_Inr(3,4) [OF p] by (cases "holds_change s (ec_ChangeID ch)") (auto simp: space_row_def)
  then show "grows s t" "space_row t = space_row s" "ps_wraps t = ps_wraps s \<and> ps_history t = ps_history s \<and> ps_recipients t = ps_recipients s"
    "ps_changes t = ps_changes s \<or> ps_changes t = ps_changes s @ [change_row now (next_seq s) ch]"
    by (auto simp: grows_def)
qed

lemma push_snapshot:
  assumes "handleStateSnapshotPush D now snap s = Inr t"
  shows "grows s t" "\<exists>r\<in>set (ps_snapshots t). sn_SnapshotID r = es_SnapshotID snap" "ps_changes t = ps_changes s"
    "ps_wraps t = ps_wraps s \<and> ps_history t = ps_history s \<and> ps_recipients t = ps_recipients s"
  using assms by (auto simp: handleStateSnapshotPush_def PutSnapshot_def grows_def space_row_def list_ex_iff split: option.splits if_splits)

section \<open>What comes before the log\<close>

text \<open>The sibling can take the space, the links of the history and the copies: the kind and the id are good, a space it has is
  of the same kind, no link it holds is another one for the same epoch, and none of what is sent is empty.\<close>

definition takes_meta :: "(string \<Rightarrow> bool) \<Rightarrow> PStore \<Rightarrow> PStore \<Rightarrow> EncryptedSpace \<Rightarrow> bool" where
  "takes_meta is_uuid local s sp \<longleftrightarrow> kind_valid (spc_Kind sp) \<and> is_uuid (spc_ID sp) \<and>
     (\<forall>r. space_row s (spc_ID sp) = Some r \<longrightarrow> spc_Kind r = spc_Kind sp) \<and>
     (\<forall>h\<in>set (ps_history local). kh_SpaceID h = spc_ID sp \<longrightarrow>
        kh_SealedPrev h \<noteq> [] \<and> (\<forall>b. (spc_ID sp, kh_Epoch h, b) \<in> links s \<longrightarrow> b = kh_SealedPrev h)) \<and>
     (\<forall>w\<in>set (ps_wraps local). wk_SpaceID w = spc_ID sp \<longrightarrow> wk_Recipient w \<noteq> [] \<and> wk_Wrapped w \<noteq> [])"

text \<open>The requests before the log: one for the space, one for each link and one for each copy.\<close>

definition meta_requests :: "PStore \<Rightarrow> string \<Rightarrow> nat" where
  "meta_requests local i = 1 + length (filter (\<lambda>h. kh_SpaceID h = i) (ps_history local)) + length (wrappedKeysTx local i)"

abbreviation push_links where
  "push_links now i \<equiv> push_each (\<lambda>_. False) (\<lambda>h. answer (PutKeyHistory now i (kh_Epoch h) (kh_SealedPrev h)))"

abbreviation push_copies where
  "push_copies mint now i \<equiv> push_each (\<lambda>e. e = Superseded)
     (\<lambda>w. answer (\<lambda>s. map_sum (\<lambda>e. e) snd (PutWrappedKey mint now i (wk_Recipient w) (wk_Wrapped w) (wk_Epoch w) s)))"

abbreviation space_links :: "PStore \<Rightarrow> string \<Rightarrow> KeyHistoryEntry list" where
  "space_links s i \<equiv> sort_key kh_Epoch (filter (\<lambda>h. kh_SpaceID h = i) (ps_history s))"

lemma links_through:
  assumes "\<forall>h\<in>set hs. kh_SpaceID h = i \<and> 1 \<le> kh_Epoch h \<and> kh_SealedPrev h \<noteq> []"
    and "\<forall>h\<in>set hs. \<forall>b. (i, kh_Epoch h, b) \<in> links s \<union> (\<lambda>h. (i, kh_Epoch h, kh_SealedPrev h)) ` set hs \<longrightarrow> b = kh_SealedPrev h"
    and "space_row s i \<noteq> None" and "length hs \<le> k"
  shows "\<exists>t. push_links now i hs (s, k) = (None, (t, k - length hs)) \<and> space_row t i \<noteq> None \<and> ps_changes t = ps_changes s"
proof -
  let ?J = "\<lambda>t. space_row t i \<noteq> None \<and> ps_changes t = ps_changes s \<and> links t \<subseteq> links s \<union> (\<lambda>h. (i, kh_Epoch h, kh_SealedPrev h)) ` set hs"
  have "\<exists>u. PutKeyHistory now i (kh_Epoch h) (kh_SealedPrev h) t = Inr u \<and> ?J u" if "h \<in> set hs" "?J t" for h t
  proof -
    have h: "1 \<le> kh_Epoch h" "kh_SealedPrev h \<noteq> []" using assms(1) that(1) by auto
    have "kh_SealedPrev g = kh_SealedPrev h" if g: "history_row t i (kh_Epoch h) = Some g" for g
    proof -
      have "(i, kh_Epoch h, kh_SealedPrev g) \<in> links t" using g by (force simp: history_row_def find_Some_iff)
      then show ?thesis using \<open>?J t\<close> assms(2) \<open>h \<in> set hs\<close> by blast
    qed
    then have "\<exists>u. PutKeyHistory now i (kh_Epoch h) (kh_SealedPrev h) t = Inr u"
      using h that(2) by (auto simp: PutKeyHistory_def spaceExistsTx_def Let_def split: option.splits prod.splits)
    then obtain u where u: "PutKeyHistory now i (kh_Epoch h) (kh_SealedPrev h) t = Inr u" by blast
    show ?thesis using PutKeyHistory_pushed [OF u] u that by auto
  qed
  moreover have "?J s" using assms(3) by simp
  ultimately have "\<exists>t. push_links now i hs (s, k) = (None, (t, k - length hs)) \<and> ?J t"
    using assms(4) by (intro push_each_through) simp_all
  then show ?thesis by (elim exE conjE) (intro exI conjI)
qed

lemma copies_through:
  assumes "\<forall>w\<in>set ws. wk_Recipient w \<noteq> [] \<and> wk_Wrapped w \<noteq> [] \<and> wk_Epoch w \<le> keyEpochTx s i"
    and "space_row s i \<noteq> None" and "length ws \<le> k"
  shows "\<exists>t. push_copies mint now i ws (s, k) = (None, (t, k - length ws)) \<and> only_wraps s t"
proof -
  let ?push = "\<lambda>w t. map_sum (\<lambda>e. e) snd (PutWrappedKey mint now i (wk_Recipient w) (wk_Wrapped w) (wk_Epoch w) t)"
  have "(\<exists>u. ?push w t = Inr u \<and> only_wraps s u) \<or> (\<exists>e. ?push w t = Inl e \<and> seen_as e = Superseded)"
    if "w \<in> set ws" "only_wraps s t" for w t
  proof (cases "?push w t")
    case (Inr u)
    then show ?thesis using PutWrappedKey_pushed(2) only_wraps_trans that(2) by blast
  next
    case (Inl e)
    note f = only_wraps_fields [OF that(2)]
    have "keyEpochTx t i = keyEpochTx s i" "space_row t i \<noteq> None" using assms(2) by (simp_all add: keyEpoch_of f space_row_def)
    then have "seen_as e = Superseded" using Inl assms(1) that(1)
      by (auto simp: PutWrappedKey_def checkWrapEpoch_def serviceWrapAllowedTx_def seen_as_def split: if_splits option.splits)
    then show ?thesis using Inl by blast
  qed
  then show ?thesis using push_each_through [where J = "only_wraps s" and xs = ws and s = s and k = k and sk = "\<lambda>e. e = Superseded" and f = ?push]
    assms(3) only_wraps_refl by blast
qed

lemma links_landed: "push_links now i hs w = (None, w') \<Longrightarrow> (\<lambda>h. (i, kh_Epoch h, kh_SealedPrev h)) ` set hs \<subseteq> links (fst w')"
proof clarify
  fix h
  assume p: "push_links now i hs w = (None, w')" and h: "h \<in> set hs"
  show "(i, kh_Epoch h, kh_SealedPrev h) \<in> links (fst w')"
  proof (rule push_each_all [where Q = "\<lambda>w. (i, kh_Epoch h, kh_SealedPrev h) \<in> links (fst w)", OF p h])
    fix y u e u'
    assume a: "answer (PutKeyHistory now i (kh_Epoch y) (kh_SealedPrev y)) u = (e, u')" and l: "(i, kh_Epoch h, kh_SealedPrev h) \<in> links (fst u)"
    have "grows (fst u) (fst u')" by (rule answer_keeps [where R = grows, OF a]) (auto intro: PutKeyHistory_pushed(1))
    then show "(i, kh_Epoch h, kh_SealedPrev h) \<in> links (fst u')" using l unfolding grows_def by blast
  next
    fix u e u'
    assume "answer (PutKeyHistory now i (kh_Epoch h) (kh_SealedPrev h)) u = (e, u')" "e = None \<or> (\<exists>r. e = Some r \<and> False)"
    then have "PutKeyHistory now i (kh_Epoch h) (kh_SealedPrev h) (fst u) = Inr (fst u')" using answer_took by simp
    then show "(i, kh_Epoch h, kh_SealedPrev h) \<in> links (fst u')" by (simp add: PutKeyHistory_pushed(3))
  qed
qed





section \<open>A run\<close>

abbreviation same_keys :: "PStore \<Rightarrow> PStore \<Rightarrow> bool" where
  "same_keys s t \<equiv> ps_wraps t = ps_wraps s \<and> ps_history t = ps_history s \<and> ps_recipients t = ps_recipients s"

lemma pusher_simps:
  "pu_Space (peer_pusher D is_uuid mint now) = (\<lambda>i kind. answer (\<lambda>s. map_sum (\<lambda>e. e) snd (PutSpace is_uuid now i kind s)))"
  "pu_KeyHistory (peer_pusher D is_uuid mint now) = (\<lambda>i epoch b. answer (PutKeyHistory now i epoch b))"
  "pu_WrappedKey (peer_pusher D is_uuid mint now) = (\<lambda>i r b epoch. answer (\<lambda>s. map_sum (\<lambda>e. e) snd (PutWrappedKey mint now i r b epoch s)))"
  "pu_Heads (peer_pusher D is_uuid mint now) = answer_heads"
  "pu_Change (peer_pusher D is_uuid mint now) = (\<lambda>ch. answer (handleStateChangePush D now ch))"
  "pu_Snapshot (peer_pusher D is_uuid mint now) = (\<lambda>snap. answer (handleStateSnapshotPush D now snap))"
  by (simp_all add: peer_pusher_def)

lemma replicate_eq:
  "replicateSpace (peer_pusher D is_uuid mint now) local sp w =
     (case answer (\<lambda>s. map_sum (\<lambda>e. e) snd (PutSpace is_uuid now (spc_ID sp) (spc_Kind sp) s)) w of
        (Some e, t1) \<Rightarrow> (Inl (Push_error e), t1)
      | (None, t1) \<Rightarrow> (case KeyHistory local (spc_ID sp) of
             Inl e \<Rightarrow> (Inl (Local_error e), t1)
           | Inr history \<Rightarrow> (case push_links now (spc_ID sp) history t1 of
                  (Some e, t) \<Rightarrow> (Inl (Push_error e), t)
                | (None, t) \<Rightarrow> (case WrappedKeysFor local (spc_ID sp) of
                       Inl e \<Rightarrow> (Inl (Local_error e), t)
                     | Inr keys \<Rightarrow> (case push_copies mint now (spc_ID sp) keys t of
                            (Some e, t) \<Rightarrow> (Inl (Push_error e), t)
                          | (None, t) \<Rightarrow> push_log (peer_pusher D is_uuid mint now) local (spc_ID sp) t)))))"
  unfolding replicateSpace_def pusher_simps by (rule refl)

lemma links_keep:
  assumes "push_links now i hs t = (e, t')"
  shows "grows (fst t) (fst t') \<and> ps_changes (fst t') = ps_changes (fst t)"
  using assms
proof (rule push_each_keeps [where Q = "\<lambda>u. grows (fst t) (fst u) \<and> ps_changes (fst u) = ps_changes (fst t)"])
  fix x u e u'
  assume a: "answer (PutKeyHistory now i (kh_Epoch x) (kh_SealedPrev x)) u = (e, u')"
    and q: "grows (fst t) (fst u) \<and> ps_changes (fst u) = ps_changes (fst t)"
  have "grows (fst u) (fst u') \<and> ps_changes (fst u') = ps_changes (fst u)"
    using answer_keeps [where R = "\<lambda>s t. grows s t \<and> ps_changes t = ps_changes s", OF a] PutKeyHistory_pushed by simp
  then show "grows (fst t) (fst u') \<and> ps_changes (fst u') = ps_changes (fst t)" using q grows_trans by auto
qed simp

lemma copies_keep:
  assumes "push_copies mint now i ws t = (e, t')"
  shows "grows (fst t) (fst t') \<and> ps_changes (fst t') = ps_changes (fst t)"
  using assms
proof (rule push_each_keeps [where Q = "\<lambda>u. grows (fst t) (fst u) \<and> ps_changes (fst u) = ps_changes (fst t)"])
  fix x u e u'
  assume a: "answer (\<lambda>s. map_sum (\<lambda>e. e) snd (PutWrappedKey mint now i (wk_Recipient x) (wk_Wrapped x) (wk_Epoch x) s)) u = (e, u')"
    and q: "grows (fst t) (fst u) \<and> ps_changes (fst u) = ps_changes (fst t)"
  have "grows (fst u) (fst u') \<and> ps_changes (fst u') = ps_changes (fst u)"
    using answer_keeps [where R = "\<lambda>s t. grows s t \<and> ps_changes t = ps_changes s", OF a]
      PutWrappedKey_pushed(2) only_wraps_grows only_wraps_fields(6) by simp
  then show "grows (fst t) (fst u') \<and> ps_changes (fst u') = ps_changes (fst t)" using q grows_trans by auto
qed simp

lemma replicate_phases:
  assumes "replicateSpace (peer_pusher D is_uuid mint now) local sp (s, k) = (res, w)"
  shows "(\<exists>e. res = Inl e) \<and> grows s (fst w) \<and> ps_changes (fst w) = ps_changes s \<or>
    (\<exists>t hs ws. grows s (fst t) \<and> ps_changes (fst t) = ps_changes s \<and> KeyHistory local (spc_ID sp) = Inr hs \<and>
      WrappedKeysFor local (spc_ID sp) = Inr ws \<and> space_row (fst t) (spc_ID sp) \<noteq> None \<and>
      (\<lambda>h. (spc_ID sp, kh_Epoch h, kh_SealedPrev h)) ` set hs \<subseteq> links (fst t) \<and>
      (\<exists>t2. push_copies mint now (spc_ID sp) ws t2 = (None, t)) \<and>
      push_log (peer_pusher D is_uuid mint now) local (spc_ID sp) t = (res, w))"
proof -
  let ?i = "spc_ID sp"
  let ?R = "\<lambda>s t. grows s t \<and> ps_changes t = ps_changes s"
  have R: "?R s t \<Longrightarrow> ?R t u \<Longrightarrow> ?R s u" for s t u using grows_trans by auto
  obtain e1 t1 where p1: "answer (\<lambda>s. map_sum (\<lambda>e. e) snd (PutSpace is_uuid now ?i (spc_Kind sp) s)) (s, k) = (e1, t1)" by (rule prod.exhaust)
  have r1: "?R s (fst t1)" using answer_keeps [where R = ?R, OF p1] PutSpace_pushed by simp
  have sp1: "space_row (fst t1) ?i \<noteq> None" if "e1 = None" using answer_took [OF p1 [unfolded that]] PutSpace_pushed(4) by simp
  note run = replicate_eq [of D is_uuid mint now local sp "(s, k)", unfolded p1]
  show ?thesis
  proof (cases e1)
    case (Some e)
    then show ?thesis using run assms r1 by auto
  next
    case e1: None
    show ?thesis
    proof (cases "KeyHistory local ?i")
      case (Inl e)
      then show ?thesis using run assms r1 e1 by auto
    next
      case hs: (Inr hs)
      obtain e2 t2 where p2: "push_links now ?i hs t1 = (e2, t2)" by (rule prod.exhaust)
      have r2: "?R s (fst t2)" using R [OF r1 links_keep [OF p2]] .
      show ?thesis
      proof (cases e2)
        case (Some e)
        then show ?thesis using run assms r2 e1 hs p2 by auto
      next
        case e2: None
        have l2: "(\<lambda>h. (?i, kh_Epoch h, kh_SealedPrev h)) ` set hs \<subseteq> links (fst t2)" by (rule links_landed [OF p2 [unfolded e2]])
        show ?thesis
        proof (cases "WrappedKeysFor local ?i")
          case (Inl e)
          then show ?thesis using run assms r2 e1 e2 hs p2 by auto
        next
          case ws: (Inr ws)
          obtain e3 t3 where p3: "push_copies mint now ?i ws t2 = (e3, t3)" by (rule prod.exhaust)
          have r3: "?R s (fst t3)" using R [OF r2 copies_keep [OF p3]] .
          have g: "grows (fst t1) (fst t3)" using links_keep [OF p2] copies_keep [OF p3] grows_trans by blast
          have "space_row (fst t3) ?i \<noteq> None" by (rule growsD(1) [OF g sp1 [OF e1]])
          moreover have "(\<lambda>h. (?i, kh_Epoch h, kh_SealedPrev h)) ` set hs \<subseteq> links (fst t3)"
            using subset_trans [OF l2 growsD(2) [OF conjunct1 [OF copies_keep [OF p3]]]] .
          moreover have "e3 = None \<Longrightarrow> push_log (peer_pusher D is_uuid mint now) local ?i t3 = (res, w)"
            and "\<And>e. e3 = Some e \<Longrightarrow> res = Inl (Push_error e) \<and> w = t3"
            using run assms e1 e2 hs p2 ws p3 by simp_all
          ultimately show ?thesis using r3 hs ws p3 by (cases e3) (intro disjI2 exI conjI, simp_all)
        qed
      qed
    qed
  qed
qed

text \<open>The log and the snapshot, as the requests they are.\<close>

abbreviation push_changes where
  "push_changes D now \<equiv> push_each (\<lambda>_. False) (\<lambda>ch. answer (handleStateChangePush D now ch))"

definition push_shot :: "(byte list \<Rightarrow> string) \<Rightarrow> int \<Rightarrow> PStore \<Rightarrow> string \<Rightarrow> nat \<Rightarrow> link_state \<Rightarrow> (repl_error + nat) \<times> link_state" where
  "push_shot D now local i n w =
     (case LatestSnapshotFor local i of
        Inl e \<Rightarrow> (Inl (Local_error e), w)
      | Inr None \<Rightarrow> (Inr n, w)
      | Inr (Some snap) \<Rightarrow> (case answer (handleStateSnapshotPush D now snap) w of
            (Some e, w) \<Rightarrow> (Inl (Push_error e), w) | (None, w) \<Rightarrow> (Inr n, w)))"

lemma push_log_eq:
  assumes "ChangesFor local i = Inr cs" and "space_row t i \<noteq> None" and "ds = map row_change (space_changes t i)"
  shows "push_log (peer_pusher D is_uuid mint now) local i (t, j) =
    (if j = 0 then (Inl (Push_error Unreachable), (t, j))
     else case push_changes D now (Missing cs (Heads ds)) (t, j - 1) of
        (Some e, w) \<Rightarrow> (Inl (Push_error e), w)
      | (None, w) \<Rightarrow> push_shot D now local i (length (Missing cs (Heads ds))) w)"
proof -
  have "HeadsFor t i = Inr (Heads ds)" using assms(2,3) by (simp add: HeadsFor_def ChangesFor_Inr [THEN iffD2])
  then show ?thesis unfolding push_log_def push_shot_def pusher_simps assms(1) Let_def answer_heads_def by simp
qed

lemma push_shot_frame:
  assumes "push_shot D now local i n w = (res, w')"
  shows "grows (fst w) (fst w')" "ps_changes (fst w') = ps_changes (fst w)" "same_keys (fst w) (fst w')"
    "res = Inr n' \<Longrightarrow> LatestSnapshotFor local i = Inr (Some snap) \<Longrightarrow> \<exists>r\<in>set (ps_snapshots (fst w')). sn_SnapshotID r = es_SnapshotID snap"
    "res = Inr n' \<Longrightarrow> n' = n"
proof -
  let ?R = "\<lambda>s t. grows s t \<and> ps_changes t = ps_changes s \<and> same_keys s t"
  have "?R (fst w) (fst w') \<and> (res = Inr n' \<longrightarrow> n' = n \<and>
      (LatestSnapshotFor local i = Inr (Some snap) \<longrightarrow> (\<exists>r\<in>set (ps_snapshots (fst w')). sn_SnapshotID r = es_SnapshotID snap)))" for n' snap
  proof (cases "LatestSnapshotFor local i")
    case (Inr o')
    show ?thesis
    proof (cases o')
      case (Some sh)
      obtain e v where a: "answer (handleStateSnapshotPush D now sh) w = (e, v)" by (rule prod.exhaust)
      have "?R (fst w) (fst v)" by (rule answer_keeps [where R = ?R, OF a]) (use push_snapshot in auto)
      moreover have "\<exists>r\<in>set (ps_snapshots (fst v)). sn_SnapshotID r = es_SnapshotID sh" if "e = None"
        using push_snapshot(2) answer_took a that by blast
      ultimately show ?thesis using assms a Inr Some by (auto simp: push_shot_def split: option.splits)
    qed (use assms Inr in \<open>auto simp: push_shot_def\<close>)
  qed (use assms in \<open>auto simp: push_shot_def\<close>)
  then show "grows (fst w) (fst w')" "ps_changes (fst w') = ps_changes (fst w)" "same_keys (fst w) (fst w')"
    "res = Inr n' \<Longrightarrow> LatestSnapshotFor local i = Inr (Some snap) \<Longrightarrow> \<exists>r\<in>set (ps_snapshots (fst w')). sn_SnapshotID r = es_SnapshotID snap"
    "res = Inr n' \<Longrightarrow> n' = n" by blast+
qed

text \<open>Changes that are sent add their own rows and nothing else.\<close>

definition rows_of :: "EncryptedChange list \<Rightarrow> PStore \<Rightarrow> PStore \<Rightarrow> bool" where
  "rows_of cs s t \<longleftrightarrow> grows s t \<and> same_keys s t \<and> (\<exists>rs. ps_changes t = ps_changes s @ rs \<and> (\<forall>r\<in>set rs. \<exists>now q. \<exists>c\<in>set cs. r = change_row now q c))"

lemma rows_of_refl: "rows_of cs s s"
  by (simp add: rows_of_def)

lemma rows_of_step:
  assumes "rows_of cs s t" and "handleStateChangePush D now c t = Inr u" and "c \<in> set cs"
  shows "rows_of cs s u"
proof -
  note p = push_change [OF assms(2)]
  obtain rs where rs: "ps_changes t = ps_changes s @ rs" "\<forall>r\<in>set rs. \<exists>now q. \<exists>c\<in>set cs. r = change_row now q c"
    using assms(1) by (auto simp: rows_of_def)
  have "\<exists>rs. ps_changes u = ps_changes s @ rs \<and> (\<forall>r\<in>set rs. \<exists>now q. \<exists>c\<in>set cs. r = change_row now q c)"
    using p(6)
  proof
    assume "ps_changes u = ps_changes t @ [change_row now (next_seq t) c]"
    then have "ps_changes u = ps_changes s @ (rs @ [change_row now (next_seq t) c])" using rs(1) by simp
    moreover have "\<forall>r\<in>set (rs @ [change_row now (next_seq t) c]). \<exists>now q. \<exists>c\<in>set cs. r = change_row now q c"
      using rs(2) assms(3) by auto
    ultimately show ?thesis by blast
  qed (use rs in auto)
  then show ?thesis using assms(1) p(1,5) grows_trans unfolding rows_of_def by auto
qed

lemma changes_rows:
  assumes "push_changes D now xs w = (e, w')" and "set xs \<subseteq> set cs"
  shows "rows_of cs (fst w) (fst w')"
  using assms(1)
proof (rule push_each_keeps [where Q = "\<lambda>v. rows_of cs (fst w) (fst v)"])
  fix x v e v'
  assume x: "x \<in> set xs" and a: "answer (handleStateChangePush D now x) v = (e, v')" and q: "rows_of cs (fst w) (fst v)"
  have "rows_of cs (fst w) (fst v) \<longrightarrow> rows_of cs (fst w) (fst v')"
    by (rule answer_keeps [where R = "\<lambda>s t. rows_of cs (fst w) s \<longrightarrow> rows_of cs (fst w) t", OF a])
      (use rows_of_step x assms(2) in blast)+
  then show "rows_of cs (fst w) (fst v')" using q by blast
qed (rule rows_of_refl)

lemma changes_landed:
  assumes "push_changes D now xs w = (None, w')" and "c \<in> set xs"
  shows "holds_change (fst w') (ec_ChangeID c) \<and> change_Validate D c = None"
proof (rule push_each_all [where Q = "\<lambda>v. holds_change (fst v) (ec_ChangeID c) \<and> change_Validate D c = None", OF assms])
  fix y v e v'
  assume a: "answer (handleStateChangePush D now y) v = (e, v')" and q: "holds_change (fst v) (ec_ChangeID c) \<and> change_Validate D c = None"
  have "grows (fst v) (fst v')" by (rule answer_keeps [where R = grows, OF a]) (auto intro: push_change(1))
  then show "holds_change (fst v') (ec_ChangeID c) \<and> change_Validate D c = None" using q holds_grows by blast
next
  fix v e v'
  assume "answer (handleStateChangePush D now c) v = (e, v')" "e = None \<or> (\<exists>r. e = Some r \<and> False)"
  then have "handleStateChangePush D now c (fst v) = Inr (fst v')" using answer_took by simp
  then show "holds_change (fst v') (ec_ChangeID c) \<and> change_Validate D c = None" using push_change(2,3) by blast
qed

section \<open>Delivery\<close>

lemma meta_through:
  assumes "store_inv local" and "space_row local (spc_ID sp) \<noteq> None" and "takes_meta is_uuid local s sp" and "meta_requests local (spc_ID sp) \<le> k"
  shows "\<exists>t. replicateSpace (peer_pusher D is_uuid mint now) local sp (s, k) =
      push_log (peer_pusher D is_uuid mint now) local (spc_ID sp) (t, k - meta_requests local (spc_ID sp)) \<and>
    space_row t (spc_ID sp) \<noteq> None \<and> ps_changes t = ps_changes s"
proof -
  let ?i = "spc_ID sp" and ?hs = "space_links local (spc_ID sp)" and ?ws = "wrappedKeysTx local (spc_ID sp)"
  have k: "1 + length ?hs + length ?ws \<le> k" "meta_requests local ?i = 1 + length ?hs + length ?ws"
    using assms(4) by (simp_all add: meta_requests_def)
  note tm = assms(3) [unfolded takes_meta_def]
  have "\<exists>t. map_sum (\<lambda>e. e) snd (PutSpace is_uuid now ?i (spc_Kind sp) s) = Inr t"
    using tm by (auto simp: PutSpace_def PutSpaceOwned_def PutSpaceOwnedFrom_def Let_def split: option.splits)
  then obtain t1 where s1: "map_sum (\<lambda>e. e) snd (PutSpace is_uuid now ?i (spc_Kind sp) s) = Inr t1" by blast
  note p1 = PutSpace_pushed [OF s1]
  have a1: "answer (\<lambda>s. map_sum (\<lambda>e. e) snd (PutSpace is_uuid now ?i (spc_Kind sp) s)) (s, k) = (None, (t1, k - 1))"
    using s1 k(1) by (simp add: answer_def)
  have ok: "history_ok local" "wraps_ok local" using assms(1) by (simp_all add: store_inv_def)
  have hs: "\<forall>h\<in>set ?hs. kh_SpaceID h = ?i \<and> 1 \<le> kh_Epoch h \<and> kh_SealedPrev h \<noteq> []"
    using tm ok(1) by (auto simp: history_ok_def)
  have one: "g = h" if "g \<in> set (ps_history local)" "h \<in> set (ps_history local)" "kh_SpaceID g = kh_SpaceID h" "kh_Epoch g = kh_Epoch h" for g h
    using ok(1) that by (auto simp: history_ok_def distinct_map inj_on_def)
  have fork: "\<forall>h\<in>set ?hs. \<forall>b. (?i, kh_Epoch h, b) \<in> links t1 \<union> (\<lambda>h. (?i, kh_Epoch h, kh_SealedPrev h)) ` set ?hs \<longrightarrow> b = kh_SealedPrev h"
  proof (intro ballI allI impI)
    fix h b
    assume h: "h \<in> set ?hs" and b: "(?i, kh_Epoch h, b) \<in> links t1 \<union> (\<lambda>h. (?i, kh_Epoch h, kh_SealedPrev h)) ` set ?hs"
    from b show "b = kh_SealedPrev h"
    proof
      assume "(?i, kh_Epoch h, b) \<in> links t1"
      then have "(?i, kh_Epoch h, b) \<in> links s" by (simp only: p1(3))
      then show ?thesis using tm h by simp
    next
      assume "(?i, kh_Epoch h, b) \<in> (\<lambda>h. (?i, kh_Epoch h, kh_SealedPrev h)) ` set ?hs"
      then obtain g where g: "g \<in> set ?hs" "kh_Epoch g = kh_Epoch h" "b = kh_SealedPrev g" by auto
      then show ?thesis using one [of g h] h by simp
    qed
  qed
  have len: "length ?hs \<le> k - 1" using k(1) by simp
  obtain t2 where a2: "push_links now ?i ?hs (t1, k - 1) = (None, (t2, k - 1 - length ?hs))" and s2: "space_row t2 ?i \<noteq> None" "ps_changes t2 = ps_changes t1"
    using links_through [OF hs fork p1(4) len] by blast
  have "keyEpochTx local ?i \<le> keyEpochTx t2 ?i"
  proof (cases "keyEpochTx local ?i = 0")
    case True
    then show ?thesis by (simp add: keyEpoch_of epoch_of_nonneg)
  next
    case False
    then obtain h where h: "h \<in> set (ps_history local)" "kh_SpaceID h = ?i" "kh_Epoch h = keyEpochTx local ?i" using epoch_held by blast
    then have "h \<in> set ?hs" by simp
    then have "(?i, kh_Epoch h, kh_SealedPrev h) \<in> links t2" using subsetD [OF links_landed [OF a2] imageI [of h]] by simp
    then obtain g where "g \<in> set (ps_history t2)" "kh_SpaceID g = ?i" "kh_Epoch g = kh_Epoch h" by auto
    then show ?thesis using epoch_le [of g t2] h(3) by simp
  qed
  then have ws: "\<forall>w\<in>set ?ws. wk_Recipient w \<noteq> [] \<and> wk_Wrapped w \<noteq> [] \<and> wk_Epoch w \<le> keyEpochTx t2 ?i"
    using tm ok(2) by (auto simp: wrapped_set wraps_ok_def)
  have "length ?ws \<le> k - 1 - length ?hs" using k(1) by simp
  then obtain t3 where a3: "push_copies mint now ?i ?ws (t2, k - 1 - length ?hs) = (None, (t3, k - 1 - length ?hs - length ?ws))" and s3: "only_wraps t2 t3"
    using copies_through [OF ws s2(1)] by blast
  have local: "KeyHistory local ?i = Inr ?hs" "WrappedKeysFor local ?i = Inr ?ws"
    using assms(2) by (auto simp: KeyHistory_def WrappedKeysFor_def Space_def)
  have "replicateSpace (peer_pusher D is_uuid mint now) local sp (s, k) =
      push_log (peer_pusher D is_uuid mint now) local ?i (t3, k - meta_requests local ?i)"
    unfolding replicate_eq a1 local prod.case sum.case option.case a2 a3 by (simp add: k(2))
  moreover have "space_row t3 ?i \<noteq> None" "ps_changes t3 = ps_changes s"
    using s2 p1(2) only_wraps_fields(1,6) [OF s3] by (simp_all add: space_row_def)
  ultimately show ?thesis by blast
qed

lemma changes_through:
  assumes "\<forall>c\<in>set cs. change_Validate D c = None \<and> ec_SpaceID c = i" and "space_row s i \<noteq> None" and "length cs \<le> k"
  shows "\<exists>t. push_changes D now cs (s, k) = (None, (t, k - length cs)) \<and> space_row t i \<noteq> None"
proof (rule push_each_through [where J = "\<lambda>t. space_row t i \<noteq> None", OF _ assms(2) assms(3)])
  fix c t
  assume c: "c \<in> set cs" and t: "space_row t i \<noteq> None"
  then have "\<exists>u. handleStateChangePush D now c t = Inr u"
    using assms(1) by (simp add: handleStateChangePush_def PutChange_def putChange_def)
  then obtain u where "handleStateChangePush D now c t = Inr u" by blast
  then show "(\<exists>u. handleStateChangePush D now c t = Inr u \<and> space_row u i \<noteq> None) \<or> (\<exists>e. handleStateChangePush D now c t = Inl e \<and> False)"
    using push_change(4) t by auto
qed






section \<open>Runs after one that was cut off\<close>

lemma text_ids_again: "text_ids (ids_text (text_ids t)) = text_ids t"
  by (cases "t = []") (simp_all add: text_ids_def ids_text_def)

lemma read_back:
  assumes "ChangesFor local i = Inr cs" and "c \<in> set cs"
  shows "row_change (change_row now q c) = c"
  using assms by (auto simp: ChangesFor_Inr row_change_def change_row_def text_ids_again)

text \<open>Any run, through or cut off, adds rows of changes that were not covered, and no others.\<close>

lemma run_rows:
  assumes "ChangesFor local (spc_ID sp) = Inr cs" and "ds = map row_change (space_changes s (spc_ID sp))"
    and "replicateSpace (peer_pusher D is_uuid mint now) local sp (s, k) = (res, w)"
  shows "\<exists>rs. ps_changes (fst w) = ps_changes s @ rs \<and> (\<forall>r\<in>set rs. \<exists>now q. \<exists>c\<in>set (Missing cs (Heads ds)). r = change_row now q c)"
  using replicate_phases [OF assms(3)]
proof (elim disjE exE conjE)
  fix t
  assume g: "ps_changes (fst t) = ps_changes s" "space_row (fst t) (spc_ID sp) \<noteq> None"
    and l: "push_log (peer_pusher D is_uuid mint now) local (spc_ID sp) t = (res, w)"
  let ?M = "Missing cs (Heads ds)"
  have dt: "ds = map row_change (space_changes (fst t) (spc_ID sp))" by (simp add: assms(2) space_changes_def g(1))
  obtain e v where v: "push_changes D now ?M (fst t, snd t - 1) = (e, v)" by (rule prod.exhaust)
  have "ps_changes (fst w) = ps_changes (fst t) \<or> ps_changes (fst w) = ps_changes (fst v)"
    using l v push_log_eq [OF assms(1) g(2) dt, of D is_uuid mint now "snd t"]
      push_shot_frame(2) [of D now local "spc_ID sp" "length ?M" v res w] by (cases e) (auto split: if_splits)
  then show ?thesis using changes_rows [OF v subset_refl] g(1) unfolding rows_of_def by auto
qed simp

text \<open>Runs one after the other, each at its time, with the requests its connection lasts for and the store as it is then; and
  what is asked of the logs of these stores: they only grow, ids are unique and no change is its own cause.\<close>

definition later_runs where
  "later_runs D is_uuid mint sp = fold (\<lambda>(now, k, local) s. fst (snd (replicateSpace (peer_pusher D is_uuid mint now) local sp (s, k))))"

definition causal_log :: "(string \<Rightarrow> nat) \<Rightarrow> EncryptedChange list \<Rightarrow> bool" where
  "causal_log rank cs \<longleftrightarrow> distinct (map ec_ChangeID cs) \<and> (\<forall>c\<in>set cs. \<forall>p\<in>set (ec_Parents c). rank p < rank (ec_ChangeID c))"

fun logs_grow :: "(string \<Rightarrow> nat) \<Rightarrow> string \<Rightarrow> EncryptedChange list \<Rightarrow> (int \<times> nat \<times> PStore) list \<Rightarrow> bool" where
  "logs_grow rank i cs [] \<longleftrightarrow> True"
| "logs_grow rank i cs ((now, k, local) # runs) \<longleftrightarrow>
     (case ChangesFor local i of Inl _ \<Rightarrow> False | Inr cs' \<Rightarrow> set cs \<subseteq> set cs' \<and> causal_log rank cs' \<and> logs_grow rank i cs' runs)"

lemma reaches_more:
  assumes "reaches cs A x" and "set cs \<subseteq> set cs'" and "distinct (map ec_ChangeID cs')"
  shows "reaches cs' A x"
  using assms(1)
proof induction
  case (parent j c x)
  have c: "c \<in> set cs'" "ec_ChangeID c = j" using byID_Some [OF parent.hyps(2)] assms(2) by auto
  then obtain d where d: "byID cs' j = Some d" using byID_held(1) [of cs' j] by blast
  then have "d \<in> set cs'" "ec_ChangeID d = j" using byID_Some by auto
  then have "d = c" using c assms(3) by (auto simp: distinct_map inj_on_def)
  then show ?case using parent.IH parent.hyps(3) d by (auto intro: reaches.parent)
qed (rule reaches.head)

lemma agree_part: "set ds \<subseteq> set cs \<Longrightarrow> distinct (map ec_ChangeID cs) \<Longrightarrow> agree cs ds"
  unfolding agree_def distinct_map inj_on_def by blast

text \<open>What the sibling's heads cover is everything below any change it holds, whether it holds that or not.\<close>

lemma covered:
  assumes "causal_log rank cs" and "set ds \<subseteq> set cs" and "x \<in> ec_ChangeID ` set ds" and "reaches cs {x} y"
  shows "reaches cs (set (Heads ds)) y"
proof -
  obtain d where d: "d \<in> set ds" "ec_ChangeID d = x" using assms(3) by auto
  have "reaches cs (set (Heads ds)) (ec_ChangeID d)"
    by (rule Heads_cover [where rank = rank]) (use assms(1,2) d agree_part in \<open>auto simp: causal_log_def\<close>)
  then show ?thesis using reaches_mono [OF assms(4)] d(2) by auto
qed

lemma run_leaves_out:
  assumes "ChangesFor local (spc_ID sp) = Inr cs" and "causal_log rank cs"
    and "row_change ` set (space_changes s (spc_ID sp)) \<subseteq> set cs" and "x \<in> cr_ChangeID ` set (space_changes s (spc_ID sp))"
    and "reaches cs {x} y" and "\<not> holds_change s y"
  shows "\<exists>u. u = fst (snd (replicateSpace (peer_pusher D is_uuid mint now) local sp (s, k))) \<and>
    row_change ` set (space_changes u (spc_ID sp)) \<subseteq> set cs \<and> x \<in> cr_ChangeID ` set (space_changes u (spc_ID sp)) \<and> \<not> holds_change u y"
proof -
  let ?i = "spc_ID sp"
  define ds where "ds = map row_change (space_changes s ?i)"
  obtain res w where r: "replicateSpace (peer_pusher D is_uuid mint now) local sp (s, k) = (res, w)" by (rule prod.exhaust)
  obtain rs where rs: "ps_changes (fst w) = ps_changes s @ rs"
      "\<forall>r\<in>set rs. \<exists>now q. \<exists>c\<in>set (Missing cs (Heads ds)). r = change_row now q c"
    using run_rows [OF assms(1) ds_def r] by blast
  have "reaches cs (set (Heads ds)) y" by (rule covered [OF assms(2) _ _ assms(5)]) (use assms(3,4) in \<open>auto simp: ds_def image_image\<close>)
  then have "cr_ChangeID r \<noteq> y" if "r \<in> set rs" for r using rs(2) that by (auto simp: set_Missing)
  then have "\<not> holds_change (fst w) y" using assms(6) by (auto simp: holds_change_def rs(1) list_ex_iff)
  moreover have "row_change ` set (space_changes (fst w) ?i) \<subseteq> set cs"
  proof clarify
    fix r
    assume "r \<in> set (space_changes (fst w) ?i)"
    then have "r \<in> set (space_changes s ?i) \<or> r \<in> set rs" by (auto simp: space_changes_set rs(1))
    then show "row_change r \<in> set cs"
    proof
      assume "r \<in> set rs"
      then obtain now' q c where "c \<in> set (Missing cs (Heads ds))" "r = change_row now' q c" using rs(2) by blast
      then show ?thesis using read_back [OF assms(1)] by (simp add: set_Missing)
    qed (use assms(3) in blast)
  qed
  moreover have "x \<in> cr_ChangeID ` set (space_changes (fst w) ?i)" using assms(4) by (auto simp: space_changes_set rs(1))
  ultimately show ?thesis using r by auto
qed

lemma later_runs_leave_out:
  assumes "logs_grow rank (spc_ID sp) cs runs" and "row_change ` set (space_changes s (spc_ID sp)) \<subseteq> set cs"
    and "x \<in> cr_ChangeID ` set (space_changes s (spc_ID sp))" and "reaches cs {x} y" and "\<not> holds_change s y"
  shows "\<not> holds_change (later_runs D is_uuid mint sp runs s) y"
  using assms
proof (induction runs arbitrary: cs s)
  case (Cons a runs)
  obtain now k local where a: "a = (now, k, local)" by (rule prod_cases3)
  obtain cs' where cs': "ChangesFor local (spc_ID sp) = Inr cs'" "set cs \<subseteq> set cs'" "causal_log rank cs'" "logs_grow rank (spc_ID sp) cs' runs"
    using Cons.prems(1) by (auto simp: a split: sum.splits)
  have r: "reaches cs' {x} y" by (rule reaches_more [OF Cons.prems(4) cs'(2)]) (use cs'(3) in \<open>simp add: causal_log_def\<close>)
  define u where "u = fst (snd (replicateSpace (peer_pusher D is_uuid mint now) local sp (s, k)))"
  have "row_change ` set (space_changes s (spc_ID sp)) \<subseteq> set cs'" using Cons.prems(2) cs'(2) by blast
  from run_leaves_out [OF cs'(1,3) this Cons.prems(3) r Cons.prems(5), of D is_uuid mint now k]
  have "\<not> holds_change (later_runs D is_uuid mint sp runs u) y" using Cons.IH [OF cs'(4) _ _ r] unfolding u_def by blast
  then show ?case by (simp add: later_runs_def a u_def)
qed (simp add: later_runs_def)

lemma Missing_ids: "distinct (map ec_ChangeID cs) \<Longrightarrow> distinct (map ec_ChangeID (Missing cs hs))"
  by (simp add: Missing_def Let_def distinct_map inj_on_def)

text \<open>A run that the connection lasts for up to some change of those to send, and no further.\<close>

lemma run_cut_off:
  assumes "store_inv local" and "ChangesFor local (spc_ID sp) = Inr cs" and "ds = map row_change (space_changes s (spc_ID sp))"
    and "takes_meta is_uuid local s sp" and "Missing cs (Heads ds) = xs @ ys" and "ys \<noteq> []" and "\<forall>c\<in>set xs. change_Validate D c = None"
  shows "\<exists>t rs. replicateSpace (peer_pusher D is_uuid mint now) local sp (s, meta_requests local (spc_ID sp) + 1 + length xs) =
      (Inl (Push_error Unreachable), (t, 0)) \<and> (\<forall>c\<in>set xs. holds_change t (ec_ChangeID c)) \<and> ps_changes t = ps_changes s @ rs \<and>
      (\<forall>r\<in>set rs. \<exists>now q. \<exists>c\<in>set xs. r = change_row now q c)"
proof -
  let ?i = "spc_ID sp"
  have sp: "space_row local ?i \<noteq> None" and csi: "\<forall>c\<in>set cs. ec_SpaceID c = ?i"
    using assms(2) by (auto simp: ChangesFor_Inr space_changes_set)
  have "meta_requests local ?i \<le> meta_requests local ?i + 1 + length xs" by simp
  then obtain t1 where t1: "replicateSpace (peer_pusher D is_uuid mint now) local sp (s, meta_requests local ?i + 1 + length xs) =
      push_log (peer_pusher D is_uuid mint now) local ?i (t1, 1 + length xs)" "space_row t1 ?i \<noteq> None" "ps_changes t1 = ps_changes s"
    using meta_through [OF assms(1) sp assms(4)] by (metis add.assoc diff_add_inverse)
  have dt: "ds = map row_change (space_changes t1 ?i)" by (simp add: assms(3) space_changes_def t1(3))
  have "set (xs @ ys) \<subseteq> set cs" unfolding assms(5) [symmetric] by (auto simp: set_Missing)
  then have v: "\<forall>c\<in>set xs. change_Validate D c = None \<and> ec_SpaceID c = ?i" using assms(7) csi by auto
  obtain t where t: "push_changes D now xs (t1, length xs) = (None, (t, 0))"
    using changes_through [OF v t1(2) order_refl] by auto
  obtain y ys' where ys: "ys = y # ys'" using assms(6) by (cases ys) auto
  have "push_changes D now (xs @ ys) (t1, length xs) = (Some Unreachable, (t, 0))"
    unfolding push_each_append t ys by (simp add: answer_def)
  then have "replicateSpace (peer_pusher D is_uuid mint now) local sp (s, meta_requests local ?i + 1 + length xs) =
      (Inl (Push_error Unreachable), (t, 0))"
    unfolding t1(1) push_log_eq [OF assms(2) t1(2) dt] assms(5) by simp
  moreover have "rows_of xs t1 t" using changes_rows [OF t subset_refl] by simp
  ultimately show ?thesis using changes_landed [OF t] t1(3) unfolding rows_of_def by auto
qed

text \<open>What such a run has left out stays out.\<close>

lemma cut_off_leaves_out:
  assumes cs: "ChangesFor local (spc_ID sp) = Inr cs" "causal_log rank cs" "logs_grow rank (spc_ID sp) cs runs"
    and s: "row_change ` set (space_changes s (spc_ID sp)) \<subseteq> set cs"
      "\<forall>r\<in>set (ps_changes s). cr_ChangeID r \<in> ec_ChangeID ` set cs \<longrightarrow> cr_SpaceID r = spc_ID sp"
    and m: "Missing cs (Heads (map row_change (space_changes s (spc_ID sp)))) = xs @ ys"
    and t: "\<forall>c\<in>set xs. holds_change t (ec_ChangeID c)" "ps_changes t = ps_changes s @ rs"
      "\<forall>r\<in>set rs. \<exists>now q. \<exists>c\<in>set xs. r = change_row now q c"
    and r: "b \<in> set xs" "c \<in> set ys" "reaches cs {ec_ChangeID b} (ec_ChangeID c)"
  shows "\<not> holds_change (later_runs D is_uuid mint sp runs t) (ec_ChangeID c)"
proof -
  let ?i = "spc_ID sp"
  have sub: "set (xs @ ys) \<subseteq> set cs" unfolding m(1) [symmetric] by (auto simp: set_Missing)
  have row: "cr_SpaceID p = ?i" "row_change p \<in> set cs" "cr_ChangeID p \<in> ec_ChangeID ` set xs" if p: "p \<in> set rs" for p
  proof -
    obtain now' q a where a: "a \<in> set xs" "p = change_row now' q a" using t(3) p by blast
    then have "a \<in> set cs" using sub by auto
    then show "cr_SpaceID p = ?i" "row_change p \<in> set cs" "cr_ChangeID p \<in> ec_ChangeID ` set xs"
      using a cs(1) read_back [OF cs(1)] by (auto simp: ChangesFor_Inr space_changes_set)
  qed
  have logt: "row_change ` set (space_changes t ?i) \<subseteq> set cs"
  proof clarify
    fix p
    assume "p \<in> set (space_changes t ?i)"
    then have "p \<in> set (space_changes s ?i) \<or> p \<in> set rs" by (auto simp: space_changes_set t(2))
    then show "row_change p \<in> set cs" using row(2) s(1) by blast
  qed
  obtain q where q: "q \<in> set (ps_changes t)" "cr_ChangeID q = ec_ChangeID b"
    using t(1) r(1) by (auto simp: holds_change_def list_ex_iff)
  have "cr_SpaceID q = ?i" using q row(1) sub r(1) s(2) by (auto simp: t(2))
  then have x: "ec_ChangeID b \<in> cr_ChangeID ` set (space_changes t ?i)" using q by (auto simp: space_changes_set intro: rev_image_eqI)
  have "cr_ChangeID p \<noteq> ec_ChangeID c" if p: "p \<in> set (ps_changes s)" for p
  proof
    assume e: "cr_ChangeID p = ec_ChangeID c"
    then have "p \<in> set (space_changes s ?i)" using s(2) sub r(2) p by (auto simp: space_changes_set)
    then have "ec_ChangeID c \<in> ec_ChangeID ` set (map row_change (space_changes s ?i))" using e by (auto simp: image_image intro: rev_image_eqI)
    then have "reaches cs (set (Heads (map row_change (space_changes s ?i)))) (ec_ChangeID c)"
      using covered [OF cs(2)] s(1) by (simp add: reaches.head)
    moreover have "c \<in> set (Missing cs (Heads (map row_change (space_changes s ?i))))" using r(2) by (simp add: m)
    ultimately show False by (simp add: set_Missing)
  qed
  moreover have "cr_ChangeID p \<noteq> ec_ChangeID c" if "p \<in> set rs" for p
  proof -
    have "distinct (map ec_ChangeID (xs @ ys))" unfolding m [symmetric] by (rule Missing_ids) (use cs(2) in \<open>simp add: causal_log_def\<close>)
    then show ?thesis using row(3) [OF that] r(2) by auto
  qed
  ultimately have "\<not> holds_change t (ec_ChangeID c)" by (auto simp: holds_change_def t(2) list_ex_iff)
  then show ?thesis by (rule later_runs_leave_out [OF cs(3) logt x r(3)])
qed

text \<open>C40: A run that was cut off is not made good by the ones after it. As long as the sibling has nothing of the space this
  node lacks, a change that lies below one it holds and that it does not hold is never sent to it, however often the run is
  repeated, whether these runs succeed or not and whatever changes the log gains. A connection that ends between two
  changes to send brings this about: the sibling has those up to there, and each of the others that one of them leads to is
  never sent.\<close>

theorem interrupted_push_not_resumed:
  assumes "ChangesFor local (spc_ID sp) = Inr cs" and "causal_log rank cs" and "logs_grow rank (spc_ID sp) cs runs"
    and "row_change ` set (space_changes s (spc_ID sp)) \<subseteq> set cs"
    and "\<forall>r\<in>set (ps_changes s). cr_ChangeID r \<in> ec_ChangeID ` set cs \<longrightarrow> cr_SpaceID r = spc_ID sp"
  shows "(x \<in> cr_ChangeID ` set (space_changes s (spc_ID sp)) \<and> reaches cs {x} y \<and> \<not> holds_change s y \<longrightarrow>
      \<not> holds_change (later_runs D is_uuid mint sp runs s) y) \<and>
    (store_reached D is_uuid mint0 member_key local \<and> takes_meta is_uuid local s sp \<and>
      Missing cs (Heads (map row_change (space_changes s (spc_ID sp)))) = xs @ ys \<and> ys \<noteq> [] \<and> (\<forall>c\<in>set xs. change_Validate D c = None) \<longrightarrow>
      (\<exists>t. replicateSpace (peer_pusher D is_uuid mint now) local sp (s, meta_requests local (spc_ID sp) + 1 + length xs) =
          (Inl (Push_error Unreachable), (t, 0)) \<and> (\<forall>c\<in>set xs. holds_change t (ec_ChangeID c)) \<and>
        (\<forall>b\<in>set xs. \<forall>c\<in>set ys. reaches cs {ec_ChangeID b} (ec_ChangeID c) \<longrightarrow>
           \<not> holds_change (later_runs D is_uuid mint sp runs t) (ec_ChangeID c))))"
proof (intro conjI impI; elim conjE)
  assume "x \<in> cr_ChangeID ` set (space_changes s (spc_ID sp))" "reaches cs {x} y" "\<not> holds_change s y"
  then show "\<not> holds_change (later_runs D is_uuid mint sp runs s) y" by (rule later_runs_leave_out [OF assms(3,4)])
next
  assume "store_reached D is_uuid mint0 member_key local"
  then have inv: "store_inv local" by (rule reached_inv)
  assume l: "takes_meta is_uuid local s sp" and m: "Missing cs (Heads (map row_change (space_changes s (spc_ID sp)))) = xs @ ys"
    and v: "ys \<noteq> []" "\<forall>c\<in>set xs. change_Validate D c = None"
  obtain t rs where t: "replicateSpace (peer_pusher D is_uuid mint now) local sp (s, meta_requests local (spc_ID sp) + 1 + length xs) =
      (Inl (Push_error Unreachable), (t, 0))" "\<forall>c\<in>set xs. holds_change t (ec_ChangeID c)" "ps_changes t = ps_changes s @ rs"
      "\<forall>r\<in>set rs. \<exists>now q. \<exists>c\<in>set xs. r = change_row now q c"
    using run_cut_off [OF inv assms(1) refl l m v, of mint now] by blast
  note out = cut_off_leaves_out [OF assms m t(2,3,4)]
  show "\<exists>t. replicateSpace (peer_pusher D is_uuid mint now) local sp (s, meta_requests local (spc_ID sp) + 1 + length xs) =
          (Inl (Push_error Unreachable), (t, 0)) \<and> (\<forall>c\<in>set xs. holds_change t (ec_ChangeID c)) \<and>
        (\<forall>b\<in>set xs. \<forall>c\<in>set ys. reaches cs {ec_ChangeID b} (ec_ChangeID c) \<longrightarrow>
           \<not> holds_change (later_runs D is_uuid mint sp runs t) (ec_ChangeID c))"
    by (rule exI [of _ t]) (use t(1,2) out in blast)
qed

section \<open>The properties at work\<close>

text \<open>A node with a link of the history, a copy, the change \<open>z\<close> with its child \<open>a\<close>, whose id comes first, and a snapshot.\<close>

definition keyed :: PStore where
  "keyed = snd (projr (PutWrappedKey dec 3 ''s'' ''k'' [8] 1 (projr (PutKeyHistory 2 ''s'' 1 [9] one_space))))"

definition holder :: PStore where
  "holder = put_shot 6 (shot 120 [''a'']) (put 5 (chg 97 [''z'']) (put 4 (chg 122 []) keyed))"

definition the_space :: EncryptedSpace where
  "the_space = \<lparr>spc_ID = ''s'', spc_Kind = ''personal'', spc_CreatedAt = 1\<rparr>"

abbreviation a_link :: KeyHistoryEntry where
  "a_link \<equiv> \<lparr>kh_SpaceID = ''s'', kh_Epoch = 1, kh_SealedPrev = [9], kh_CreatedAt = 2\<rparr>"

lemma keyed_steps:
  "PutKeyHistory 2 ''s'' 1 [9] one_space = Inr (projr (PutKeyHistory 2 ''s'' 1 [9] one_space))"
  "PutWrappedKey dec 3 ''s'' ''k'' [8] 1 (projr (PutKeyHistory 2 ''s'' 1 [9] one_space)) =
     Inr (fst (projr (PutWrappedKey dec 3 ''s'' ''k'' [8] 1 (projr (PutKeyHistory 2 ''s'' 1 [9] one_space)))), keyed)"
proof -
  have "\<not> isl (PutKeyHistory 2 ''s'' 1 [9] one_space)" "\<not> isl (PutWrappedKey dec 3 ''s'' ''k'' [8] 1 (projr (PutKeyHistory 2 ''s'' 1 [9] one_space)))"
    unfolding one_space_eq by code_simp+
  then show "PutKeyHistory 2 ''s'' 1 [9] one_space = Inr (projr (PutKeyHistory 2 ''s'' 1 [9] one_space))"
    "PutWrappedKey dec 3 ''s'' ''k'' [8] 1 (projr (PutKeyHistory 2 ''s'' 1 [9] one_space)) =
     Inr (fst (projr (PutWrappedKey dec 3 ''s'' ''k'' [8] 1 (projr (PutKeyHistory 2 ''s'' 1 [9] one_space)))), keyed)"
    by (simp_all add: keyed_def)
qed

lemma keyed_fields:
  "ps_spaces keyed = [\<lparr>spc_ID = ''s'', spc_Kind = ''personal'', spc_CreatedAt = 1, spc_Owner = None\<rparr>]" "ps_history keyed = [a_link]"
  "map wk_Recipient (ps_wraps keyed) = [''k'']" "map wk_SpaceID (ps_wraps keyed) = [''s'']" "map wk_Wrapped (ps_wraps keyed) = [[8]]"
  "ps_changes keyed = []" "ps_snapshots keyed = []"
  unfolding keyed_def one_space_eq by code_simp+

lemma keyed_reached: "run_reached keyed"
proof -
  have "run_reached (projr (PutKeyHistory 2 ''s'' 1 [9] one_space))"
    by (rule store_reached.again [OF one_space_reached store_step.put_history [OF keyed_steps(1)]]) (simp add: int64_range_def)
  then show ?thesis by (rule store_reached.again [OF _ store_step.put_wrap [OF keyed_steps(2)]])
qed

lemma holder_facts:
  "run_reached holder" "ps_spaces holder = ps_spaces keyed" "ps_history holder = ps_history keyed" "ps_wraps holder = ps_wraps keyed"
  "ps_changes holder = [change_row 4 1 (chg 122 []), change_row 5 2 (chg 97 [''z''])]"
  "ps_snapshots holder = [\<lparr>sn_SnapshotID = ''x'', sn_SpaceID = ''s'', sn_Frontier = ''a'', sn_Ciphertext = [120], sn_CreatedAt = 6\<rparr>]"
proof -
  let ?z = "put 4 (chg 122 []) keyed" and ?a = "put 5 (chg 97 [''z'']) (put 4 (chg 122 []) keyed)"
  have k: "space_row keyed ''s'' \<noteq> None" "\<not> holds_change keyed [char_of (unat (122 :: byte))]"
    by (simp_all add: space_row_def holds_change_def keyed_fields)
  note z = put_reached [OF keyed_reached k(1), of 4 122 "[]"] put_eq [OF k, of 4 "[]"]
  have nz: "\<not> holds_change ?z [char_of (unat (97 :: byte))]" unfolding z(2) by (simp add: holds_change_def keyed_fields)
  note a = put_reached [OF conjunct1 [OF z(1)] conjunct1 [OF conjunct2 [OF z(1)]], of 5 97 "[''z'']"]
    put_eq [OF conjunct1 [OF conjunct2 [OF z(1)]] nz, of 5 "[''z'']"]
  note eqs = z(2) a(2) [unfolded z(2)]
  have s: "space_row ?a ''s'' \<noteq> None" using a(1) by (elim conjE)
  have n: "\<forall>r\<in>set (ps_snapshots ?a). sn_SnapshotID r \<noteq> [char_of (unat (120 :: byte))]" unfolding eqs by (simp add: keyed_fields)
  note h = put_shot_eq [OF s n, of 6 "[''a'']", folded holder_def]
  show "run_reached holder" by (rule store_reached.again [OF _ store_step.put_snapshot [OF h(1)]]) (use a(1) in \<open>elim conjE\<close>)
  show "ps_spaces holder = ps_spaces keyed" "ps_history holder = ps_history keyed" "ps_wraps holder = ps_wraps keyed"
    "ps_changes holder = [change_row 4 1 (chg 122 []), change_row 5 2 (chg 97 [''z''])]"
    "ps_snapshots holder = [\<lparr>sn_SnapshotID = ''x'', sn_SpaceID = ''s'', sn_Frontier = ''a'', sn_Ciphertext = [120], sn_CreatedAt = 6\<rparr>]"
    unfolding h(2) eqs by (simp_all add: keyed_fields next_seq_def ids_text_def)
qed

lemma holder_log: "ChangesFor holder ''s'' = Inr [chg 122 [], chg 97 [''z'']]"
proof -
  have "sort_key cr_Seq [change_row 4 1 (chg 122 []), change_row 5 2 (chg 97 [''z''])] = [change_row 4 1 (chg 122 []), change_row 5 2 (chg 97 [''z''])]"
    by simp
  moreover have "row_change (change_row 4 1 (chg 122 [])) = chg 122 []" "row_change (change_row 5 2 (chg 97 [''z''])) = chg 97 [''z'']"
    by code_simp+
  ultimately show ?thesis
    by (simp add: ChangesFor_Inr space_changes_def holder_facts(5)) (simp add: space_row_def holder_facts(2) keyed_fields)
qed


lemma holder_meta: "takes_meta (\<lambda>_. True) holder empty_store the_space" "meta_requests holder ''s'' = 3"
proof -
  obtain w where w: "ps_wraps keyed = [w]" "wk_Recipient w = ''k''" "wk_SpaceID w = ''s''" "wk_Wrapped w = [8]"
    using keyed_fields(3-5) by (cases "ps_wraps keyed") auto
  show "takes_meta (\<lambda>_. True) holder empty_store the_space"
    by (simp add: takes_meta_def the_space_def kind_valid_def holder_facts keyed_fields w) (simp add: empty_store_def space_row_def)
  show "meta_requests holder ''s'' = 3" by (simp add: meta_requests_def wrappedKeysTx_def holder_facts keyed_fields w)
qed

lemma missing_both: "Missing [chg 122 [], chg 97 [''z'']] (Heads []) = [chg 97 [''z''], chg 122 []]"
  by code_simp

lemma nothing_there: "map row_change (space_changes empty_store i) = []"
  by (simp add: space_changes_def empty_store_def)


text \<open>With five of them the sibling gets \<open>a\<close> and not \<open>z\<close>, and three more runs do not change that.\<close>

lemma interrupted_push_not_resumed_witness:
  "\<exists>t. replicateSpace (peer_pusher last_byte (\<lambda>_. True) dec 9) holder the_space (empty_store, 5) = (Inl (Push_error Unreachable), (t, 0)) \<and>
     holds_change t ''a'' \<and> \<not> holds_change (later_runs last_byte (\<lambda>_. True) dec the_space [(10, 100, holder), (11, 4, holder), (12, 100, holder)] t) ''z'' \<and>
     holds_change holder ''z''"
proof -
  let ?cs = "[chg 122 [], chg 97 [''z'']]" and ?runs = "[(10, 100, holder), (11, 4, holder), (12, 100, holder)]"
  let ?rank = "\<lambda>i. if i = ''a'' then 1 else 0 :: nat"
  have i: "spc_ID the_space = ''s''" by (simp add: the_space_def)
  have l: "ChangesFor holder (spc_ID the_space) = Inr ?cs" by (simp add: i holder_log)
  have c: "causal_log ?rank ?cs" by (simp add: causal_log_def)
  have g: "logs_grow ?rank (spc_ID the_space) ?cs ?runs" using c by (simp add: i holder_log)
  have e: "row_change ` set (space_changes empty_store (spc_ID the_space)) \<subseteq> set ?cs"
    "\<forall>r\<in>set (ps_changes empty_store). cr_ChangeID r \<in> ec_ChangeID ` set ?cs \<longrightarrow> cr_SpaceID r = spc_ID the_space"
    by (simp_all add: space_changes_def empty_store_def)
  have "byID ?cs ''a'' = Some (chg 97 [''z''])" by code_simp
  then have r: "reaches ?cs {''a''} ''z''" by (intro reaches.parent [OF reaches.head]) auto
  have "\<exists>t. replicateSpace (peer_pusher last_byte (\<lambda>_. True) dec 9) holder the_space
        (empty_store, meta_requests holder (spc_ID the_space) + 1 + length [chg 97 [''z'']]) = (Inl (Push_error Unreachable), (t, 0)) \<and>
      (\<forall>c\<in>set [chg 97 [''z'']]. holds_change t (ec_ChangeID c)) \<and>
      (\<forall>b\<in>set [chg 97 [''z'']]. \<forall>c\<in>set [chg 122 []]. reaches ?cs {ec_ChangeID b} (ec_ChangeID c) \<longrightarrow>
         \<not> holds_change (later_runs last_byte (\<lambda>_. True) dec the_space ?runs t) (ec_ChangeID c))"
    by (rule mp [OF interrupted_push_not_resumed [where xs = "[chg 97 [''z'']]" and ys = "[chg 122 []]" and ?mint0.0 = dec and member_key = "\<lambda>_. False",
        OF l c g e, THEN conjunct2]]) (use holder_facts(1) holder_meta(1) in \<open>simp add: nothing_there missing_both\<close>)
  moreover have "holds_change holder ''z''" by (simp add: holds_change_def holder_facts(5))
  ultimately show ?thesis using r by (simp add: i holder_meta(2))
qed

end
