(* ===== verification/Spec2Isabelle.thy ===== *)
theory Spec2Isabelle
  imports Playlist Starred ReadingPos History Drive DriveViews Album AlbumProps Chunking Pieces Manifests Policy Acquisition AcqProps
    AcqState Routing Replication PeerHealth Jobs JobProps JobSpec Converge PeerCycle
    Site Gc GcSpec Releases Protocol ProtocolSpec StateStore StateLog StateSpec KeySpec LogSpec SyncSpec DeliverySpec
begin

text \<open>
  A model of the core logic of \<^verbatim>\<open>heyarr-core\<close>, a content system written in Go. The program has three planes.
  The \<^emph>\<open>personal-state plane\<close> (\<^verbatim>\<open>internal/personalstate\<close>) keeps what belongs to a person, playlists, stars,
  reading positions, play history, a file drive and photo albums, as replicated data types whose changes
  travel encrypted between devices in any order. The \<^emph>\<open>content plane\<close> (\<^verbatim>\<open>internal/storagefabric\<close>,
  \<^verbatim>\<open>internal/peer\<close>) stores blobs by their digest, cuts them into chunks and pieces and keeps them
  replicated on peers. The \<^emph>\<open>control plane\<close> (\<^verbatim>\<open>internal/domain\<close>, \<^verbatim>\<open>internal/jobs\<close>) decides what is wanted, which
  release is good enough, from where it is fetched and read, and runs the work as durable jobs.

  \<^bold>\<open>Shared theories.\<close> \<open>Prelude\<close> has the Go types every component uses (64-bit counters, strings in byte
  order, maps walked in an unspecified order as \<open>enumerates\<close>, the unstable \<^verbatim>\<open>sort.Slice\<close> as a relation
  \<open>sort_slice\<close>) and the lattice of records joined key by key. \<open>GoStd\<close> models what is used of the standard
  library (paths, decimal text, signed 64-bit arithmetic with its wrap-around, \<^verbatim>\<open>sort.SliceStable\<close>) and the
  interface \<open>preference\<close> of everything that ranks candidates by a key; rankings of releases, transfer
  sources and read sources are its interpretations. \<open>Crdt_Core\<close> has the interfaces \<open>op_crdt\<close>,
  \<open>state_crdt\<close> and \<open>snapshot_crdt\<close> of the personal-state types: folding, merging and snapshots agree whatever the
  order and multiplicity of what is received. Every type is an interpretation on its own operations.

  \<^bold>\<open>Personal state\<close> (\<^verbatim>\<open>internal/personalstate/crdt\<close>). \<open>Playlist\<close>: an add-wins list ordered by Lamport keys.
  \<open>Starred\<close>: an add-wins set listed by recency. \<open>ReadingPos\<close>: last-writer-wins registers. \<open>History\<close>: a grow-only log
  with its views. \<open>Drive\<close>: file writes that name the write they replace, with tombstones; \<open>DriveViews\<close>: the
  resolved tree with conflicted copies, and the versions retention lets go. \<open>Album\<close>: photo albums;
  \<open>AlbumProps\<close>: their theorems. Of each: convergence, and what the reads and the local writes return.

  \<^bold>\<open>The state protocol\<close> carries these types as sealed changes. \<open>Protocol\<close> (\<^verbatim>\<open>internal/personalstate/protocol\<close>): changes
  and snapshots with their identity by content, the authenticated envelope of a snapshot, and the questions over the
  graph of changes; \<open>ProtocolSpec\<close>: an id names one change, the envelope binds, the questions are exact and a pull
  leaves nothing out. \<open>StateStore\<close> (\<^verbatim>\<open>internal/personalstate/store\<close>): the tables of spaces, members, wrapped keys, key
  history, executors' keys and grants, one definition per method. \<open>StateLog\<close> (\<^verbatim>\<open>changes.go\<close>, \<^verbatim>\<open>snapshots.go\<close>,
  \<^verbatim>\<open>internal/personalstate/replication\<close>, the handlers of \<^verbatim>\<open>internal/api/peerapi\<close> that answer it): the log, snapshots,
  compaction, and the cycle that carries a space to another peer. \<open>StateSpec\<close>: the invariants under every operation and
  the states a store reaches. \<open>KeySpec\<close>: rotation and revocation. \<open>LogSpec\<close> and \<open>SyncSpec\<close>: what a device gets of
  the log and a snapshot. \<open>DeliverySpec\<close>: what a run of replication leaves a peer with. Their theorems also mark where the code falls short: numbers of the log given again after a compaction, a
  comma in a parent, the latest snapshot by the text of its time, an older snapshot stored after a compaction, and a
  run cut off between a change and its parent.

  \<^bold>\<open>Storage fabric.\<close> \<open>Chunking\<close> (\<^verbatim>\<open>chunking\<close>): the FastCDC cut points and the streaming chunker; chunks divide the
  content, and each ends at the first boundary of its content. \<open>Pieces\<close> (\<^verbatim>\<open>pieces\<close>): the division of a
  blob for exchange and the bitset of pieces held, as a set, with its text form. \<open>Manifests\<close> (\<^verbatim>\<open>manifests\<close>):
  chunk manifests, their digest, their generation from a reader and transfer plans.

  \<^bold>\<open>Acquisition\<close> (\<^verbatim>\<open>internal/domain/policy\<close>, \<^verbatim>\<open>internal/domain/acquisition\<close>). \<open>Policy\<close>: quality profiles and their
  validation. \<open>Acquisition\<close> and \<open>AcqProps\<close>: evaluation and ranking of releases and the upgrade decision.
  \<open>AcqState\<close>: the pipeline as a state machine, placement, completeness and the search schedule.

  \<^bold>\<open>Peers.\<close> \<open>Routing\<close> (\<^verbatim>\<open>internal/domain/routing\<close>): from which peer a read is served. \<open>Replication\<close>
  (\<^verbatim>\<open>internal/domain/replication\<close>, \<^verbatim>\<open>internal/domain/transfer\<close>): what is missing where, and the order of sources.
  \<open>PeerHealth\<close> (\<^verbatim>\<open>internal/peer/health\<close>): the health tracker and its events under any interleaving of
  transactions.

  \<^bold>\<open>Work.\<close> \<open>Jobs\<close> (\<^verbatim>\<open>internal/jobs/jobs.go\<close>): the durable queue, one definition per method on the table of jobs and
  the log of their transitions. \<open>JobProps\<close>: what each operation does to the row it concerns, the invariant, and
  every operation as a sequence of row changes. \<open>JobSpec\<close>: runs of any operations of any workers, the life cycle
  they refine, leases, order, failures and idempotence. \<open>Converge\<close>
  (\<^verbatim>\<open>internal/persistence/catalog/convergence.go\<close>): the plan of peer convergence from the tables, the diff of
  \<open>Replication\<close> and the placement pins. \<open>PeerCycle\<close> (\<^verbatim>\<open>internal/worker/reconcilepeer.go\<close>): the cycle that turns the plan
  into jobs of the queue, where \<open>Replication\<close>, \<open>Manifests\<close> and \<open>Jobs\<close> meet.

  \<^bold>\<open>Garbage collection.\<close> \<open>Site\<close>: the tables a node keeps about the blobs it stores and the catalog's operations on them
  (\<^verbatim>\<open>internal/persistence/catalog/integrity.go\<close>, \<^verbatim>\<open>releases.go\<close>, \<^verbatim>\<open>durability.go\<close>, \<^verbatim>\<open>placementpins.go\<close>). \<open>Gc\<close>: the
  deletion gate and the collector (\<^verbatim>\<open>internal/storagefabric/integrity\<close>), where others may change the site between any
  two transactions. \<open>GcSpec\<close>: what may be deleted and why, dry runs, the accounting of a sweep and the bound on
  orphans. \<open>Releases\<close>: releases over any sequence of operations, releases made while a sweep runs, which are honoured too
  early, and uploads that arrive during a reclaim.

  \<^bold>\<open>Conventions.\<close> A struct is a record whose fields have a prefix, an enumeration a datatype, an error a value
  of a sum or option type; the prose of errors is kept where it is data (reasons, refusals) and left out
  elsewhere. A database table is the list of its rows, a transaction a function on it; statements are
  assumed not to fail. A clock is a function of how often it was read. Integers that can overflow are
  words or reduced explicitly; \<^verbatim>\<open>int\<close> counters of loops over slices are not. Arguments of the definitions stand
  for code that is not in the repository or not modelled: \<open>nfc\<close> (Unicode normalisation), \<open>parse_ok\<close>
  (\<^verbatim>\<open>hashing.Parse\<close>), \<open>H\<close> and \<open>hs\<close> (the digest and its printed form), fresh tags and ids, what a reader delivers
  at each call, what a peer answers to a probe or a push. What a theorem needs of them is a hypothesis of it.

  \<^bold>\<open>Fuel.\<close> Reading a stream to its end is fuelled (\<open>drain\<close>, \<open>generate_loop\<close>): every chunk takes at least one byte, so
  one more than the bytes the reader delivers is enough, and the theorems say that the result is there.

  \<^bold>\<open>Not modelled.\<close> JSON and wire encodings, SQL text, HTTP handlers, the command line, files and sockets,
  cryptography and calls of external programs: they are effects or libraries around the decisions above. Of replication that is
  mutual TLS, the limit on the size of a body and the events a cycle records about itself.
  Names and attributes are treated as ASCII where the code folds case. Parsers of file and release names
  rest on regular expressions of the standard library and are left out.
\<close>

end
